(* ===== verification/Prelude.thy ===== *)
theory Prelude
  imports Main "HOL-Library.Word"
begin

text \<open>
  Shared vocabulary of the development: the machine word types of the RV32
  Snitch cores, the byte addressed memory with little-endian word accesses, the
  alignment macros, generic lemmas on words and lists, and the reachability and
  invariant principle that every concurrent component instantiates.
\<close>

unbundle bit_operations_syntax

section \<open>Machine types\<close>

type_synonym u8 = "8 word"
type_synonym u16 = "16 word"
type_synonym u32 = "32 word"
type_synonym u64 = "64 word"

text \<open>A byte addressed 32-bit memory. Accesses never trap in the modelled code.\<close>

type_synonym mem = "u32 \<Rightarrow> u8"

named_theorems word_arith \<open>lifting of machine arithmetic to the naturals\<close>
named_theorems mem_simps \<open>loads after stores\<close>

section \<open>Word arithmetic without overflow\<close>

lemma unat_plus_no_overflow [word_arith]:
  fixes a b :: "'a::len word"
  assumes "unat a + unat b < 2 ^ LENGTH('a)"
  shows "unat (a + b) = unat a + unat b"
  using assms by (simp add: unat_word_ariths)

lemma unat_times_no_overflow [word_arith]:
  fixes a b :: "'a::len word"
  assumes "unat a * unat b < 2 ^ LENGTH('a)"
  shows "unat (a * b) = unat a * unat b"
  using assms by (simp add: unat_word_ariths)

lemma unat_minus_no_underflow [word_arith]:
  fixes a b :: "'a::len word"
  assumes "unat b \<le> unat a"
  shows "unat (a - b) = unat a - unat b"
  using assms by (simp add: unat_sub word_le_nat_alt)

lemma unat_of_nat_small [word_arith]:
  assumes "n < 2 ^ LENGTH('a::len)"
  shows "unat (of_nat n :: 'a word) = n"
  using assms by (simp add: unat_of_nat take_bit_nat_eq_self)

lemma sint_word_of_int_small: "- (2 ^ 31) \<le> x \<Longrightarrow> x < 2 ^ 31 \<Longrightarrow> sint (word_of_int x :: u32) = x"
  by (simp add: signed_of_int signed_take_bit_int_eq_self)

lemma sint_of_nat_small: "k < 2 ^ 31 \<Longrightarrow> sint (of_nat k :: u32) = int k"
  using sint_word_of_int_small [of "int k"] by simp

lemma u32_of_unat: "(of_nat (unat w) :: u32) = w"
  by simp

lemma unat_lt_2p [simp]: "unat (w :: 'a::len word) < 2 ^ LENGTH('a)"
  by simp

lemma unat_div_mod_split:
  fixes a b :: "'a::len word"
  shows "unat a = unat (a div b) * unat b + unat (a mod b)"
  by (simp add: unat_div unat_mod)

lemma of_nat_word_inj:
  assumes "(of_nat i :: 'a::len word) = of_nat j" "i < 2 ^ LENGTH('a)" "j < 2 ^ LENGTH('a)"
  shows "i = j"
  using assms unat_of_nat_small by metis

lemma word_offset_inj:
  fixes a :: "'a::len word"
  assumes "i < 2 ^ LENGTH('a)" "j < 2 ^ LENGTH('a)"
  shows "a + of_nat i = a + of_nat j \<longleftrightarrow> i = j"
  using assms of_nat_word_inj by auto

lemma add_within_block:
  fixes a b c :: nat
  assumes "a mod c + b < c"
  shows "(a + b) div c = a div c" "(a + b) mod c = a mod c + b"
proof -
  have "a + b = (a mod c + b) + c * (a div c)" by simp
  then show "(a + b) mod c = a mod c + b"
    using assms by (metis mod_less mod_mult_self2)
  have "(a + b) div c = ((a mod c + b) + c * (a div c)) div c" by simp
  also have "\<dots> = a div c + (a mod c + b) div c" using assms by (intro div_mult_self2) simp
  finally show "(a + b) div c = a div c" using assms by simp
qed

section \<open>Bit masks\<close>

lemma bit_one_shift:
  "bit (push_bit n (1 :: 'a::len word)) k \<longleftrightarrow> k = n \<and> k < LENGTH('a)"
  by (auto simp: bit_simps)

lemma word_eq_bits: "(x :: 'a::len word) = y \<longleftrightarrow> (\<forall>n. bit x n = bit y n)"
  by (auto intro: bit_word_eqI)

lemma drop_bit_cleared: "drop_bit k (w AND NOT (push_bit k 1)) AND 1 = (0 :: 'a::len word)"
  by (rule bit_word_eqI) (auto simp: bit_simps)

lemma set_then_clear: "(w OR b) AND NOT b = w AND NOT (b :: 'a::len word)"
  by (rule bit_word_eqI) (auto simp: bit_simps)

lemma and_mask_lt:
  fixes x :: "'a::len word"
  shows "unat (x AND mask n) = unat x mod 2 ^ n"
  by (metis take_bit_eq_mask take_bit_eq_mod unsigned_take_bit_eq)

lemma and_not_mask_eq:
  fixes x :: "'a::len word"
  shows "x AND NOT (mask n) = x - (x AND mask n)"
proof -
  have "NOT x AND (x AND mask n) = 0"
    by (simp add: bit_eq_iff bit_simps)
  moreover have "x AND NOT (x AND mask n) = x AND NOT (mask n)"
    by (auto simp: bit_eq_iff bit_simps)
  ultimately show ?thesis
    by (simp add: disjunctive_diff_eq_and_not)
qed

lemma unat_and_not_mask:
  fixes x :: "'a::len word"
  shows "unat (x AND NOT (mask n)) = unat x - unat x mod 2 ^ n"
  by (simp add: and_not_mask_eq unat_minus_no_underflow and_mask_lt)

section \<open>Memory accesses\<close>

text \<open>The 32-bit load and store of a little-endian core.\<close>

definition load32 :: "mem \<Rightarrow> u32 \<Rightarrow> u32" where
  "load32 m a = ucast (m a) OR push_bit 8 (ucast (m (a + 1)))
     OR push_bit 16 (ucast (m (a + 2))) OR push_bit 24 (ucast (m (a + 3)))"

definition store32 :: "mem \<Rightarrow> u32 \<Rightarrow> u32 \<Rightarrow> mem" where
  "store32 m a v = m(a := ucast v, a + 1 := ucast (drop_bit 8 v),
     a + 2 := ucast (drop_bit 16 v), a + 3 := ucast (drop_bit 24 v))"

lemma load32_store32_same [simp, mem_simps]: "load32 (store32 m a v) a = v"
proof -
  have "load32 (store32 m a v) a = ucast (ucast v :: u8) OR push_bit 8 (ucast (ucast (drop_bit 8 v) :: u8))
     OR push_bit 16 (ucast (ucast (drop_bit 16 v) :: u8)) OR push_bit 24 (ucast (ucast (drop_bit 24 v) :: u8))"
    by (simp add: load32_def store32_def)
  also have "\<dots> = v"
    (is "?w = v")
  proof (rule bit_word_eqI)
    fix n
    assume "n < LENGTH(32)"
    then show "bit ?w n \<longleftrightarrow> bit v n"
      by (cases "n < 16"; cases "n < 24") (auto simp: bit_simps not_less)
  qed
  finally show ?thesis .
qed

lemma word_offset_cases:
  fixes a b :: u32
  assumes "4 dvd unat a" "4 dvd unat b" "a + of_nat i = b + of_nat j" "i < 4" "j < 4"
  shows "a = b"
proof -
  have lt: "unat w + k < 2 ^ 32" if "4 dvd unat w" "k < 4" for w :: u32 and k
    using that unat_lt_2p [of w] by (auto elim!: dvdE)
  have u: "unat (w + of_nat k) = unat w + k" if "4 dvd unat w" "k < 4" for w :: u32 and k
    using lt [OF that] that by (subst unat_plus_no_overflow) (simp_all add: unat_of_nat_small)
  have "unat a + i = unat b + j"
    using assms u by metis
  then have "unat a = unat b"
    using assms by (auto elim!: dvdE)
  then show ?thesis by (rule unsigned_word_eqI)
qed

lemma store32_other:
  assumes "4 dvd unat a" "4 dvd unat b" "a \<noteq> b" "i < 4"
  shows "store32 m a v (b + of_nat i) = m (b + of_nat i)"
proof -
  have "b + of_nat i \<noteq> a + of_nat j" if "j < 4" for j
    using word_offset_cases [OF assms(2,1), of i j] assms that by auto
  from this [of 0] this [of 1] this [of 2] this [of 3] show ?thesis
    by (simp add: store32_def)
qed

lemma load32_store32_other [mem_simps]:
  assumes "4 dvd unat a" "4 dvd unat b" "a \<noteq> b"
  shows "load32 (store32 m a v) b = load32 m b"
  using store32_other [OF assms, of 0] store32_other [OF assms, of 1]
    store32_other [OF assms, of 2] store32_other [OF assms, of 3]
  by (simp add: load32_def)

text \<open>The 64-bit accesses of the floating-point unit and the stream registers.\<close>

definition load64 :: "mem \<Rightarrow> u32 \<Rightarrow> u64" where
  "load64 m a = ucast (load32 m a) OR push_bit 32 (ucast (load32 m (a + 4)))"

definition store64 :: "mem \<Rightarrow> u32 \<Rightarrow> u64 \<Rightarrow> mem" where
  "store64 m a v = store32 (store32 m a (ucast v)) (a + 4) (ucast (drop_bit 32 v))"

text \<open>Two doublewords that share no byte.\<close>

definition apart :: "u32 \<Rightarrow> u32 \<Rightarrow> bool" where
  "apart a b \<longleftrightarrow> 8 \<le> unat (a - b) \<and> 8 \<le> unat (b - a)"

lemma apart_sym: "apart a b \<longleftrightarrow> apart b a"
  by (auto simp: apart_def)

lemma apart_below:
  assumes "unat a + 8 \<le> unat b" "unat b + 8 \<le> 2 ^ 32"
  shows "apart a b"
  using assms by (simp add: apart_def unat_sub_if') linarith

lemma apart_bytes:
  assumes "apart a b" "i < 8" "j < 8"
  shows "a + of_nat i \<noteq> b + of_nat j"
proof
  assume e: "a + of_nat i = b + of_nat j"
  show False
  proof (cases "i \<le> j")
    case True
    then have "a - b = of_nat (j - i)" using e by (simp add: of_nat_diff algebra_simps)
    then have "unat (a - b) = j - i" using assms(3) by (simp add: unat_of_nat_small)
    then have "unat (a - b) < 8" using assms(3) by linarith
    then show False using assms(1) by (simp add: apart_def)
  next
    case False
    then have "b - a = of_nat (i - j)" using e by (simp add: of_nat_diff algebra_simps)
    then have "unat (b - a) = i - j" using assms(2) by (simp add: unat_of_nat_small)
    then have "unat (b - a) < 8" using assms(2) by linarith
    then show False using assms(1) by (simp add: apart_def)
  qed
qed

lemma store64_byte:
  assumes "\<And>j. j < 8 \<Longrightarrow> x \<noteq> b + of_nat j"
  shows "store64 m b v x = m x"
  using assms [of 0] assms [of 1] assms [of 2] assms [of 3] assms [of 4] assms [of 5] assms [of 6] assms [of 7]
  by (simp add: store64_def store32_def add.assoc)

lemma load64_cong:
  assumes "\<And>i. i < 8 \<Longrightarrow> m (a + of_nat i) = m' (a + of_nat i)"
  shows "load64 m a = load64 m' a"
  using assms [of 0] assms [of 1] assms [of 2] assms [of 3] assms [of 4] assms [of 5] assms [of 6] assms [of 7]
  by (simp add: load64_def load32_def add.assoc)

lemma load64_store64_other [mem_simps]: "apart a b \<Longrightarrow> load64 (store64 m b v) a = load64 m a"
  by (intro load64_cong store64_byte apart_bytes)

lemma load64_store64_same [mem_simps]: "load64 (store64 m a v) a = v"
proof -
  let ?m = "store32 m a (ucast v)"
  have "store32 ?m (a + 4) w (a + of_nat i) = ?m (a + of_nat i)" if "i < 4" for i w
  proof -
    have "a + of_nat i \<noteq> a + 4 + of_nat j" if "j < 4" for j
      using word_offset_inj [of i "4 + j" a] that \<open>i < 4\<close> by (simp add: add.assoc)
    from this [of 0] this [of 1] this [of 2] this [of 3] show ?thesis by (simp add: store32_def)
  qed
  from this [of 0] this [of 1] this [of 2] this [of 3]
  have "load32 (store64 m a v) a = load32 ?m a" by (simp add: store64_def load32_def)
  then have l: "load32 (store64 m a v) a = ucast v" by simp
  have h: "load32 (store64 m a v) (a + 4) = ucast (drop_bit 32 v)" by (simp add: store64_def)
  show ?thesis
    unfolding load64_def l h by (intro bit_word_eqI) (auto simp: bit_simps not_less)
qed

text \<open>A sequence of 64-bit stores.\<close>

definition stores :: "(u32 \<times> u64) list \<Rightarrow> mem \<Rightarrow> mem" where
  "stores xs m = fold (\<lambda>(a, v) m. store64 m a v) xs m"

lemma stores_simps [simp]:
  "stores [] m = m" "stores (x # xs) m = stores xs (store64 m (fst x) (snd x))" "stores (xs @ ys) m = stores ys (stores xs m)"
  by (simp_all add: stores_def case_prod_beta)

lemma load64_stores_other:
  "(\<And>b v. (b, v) \<in> set xs \<Longrightarrow> apart a b) \<Longrightarrow> load64 (stores xs m) a = load64 m a"
proof (induction xs arbitrary: m)
  case (Cons x xs)
  have x: "apart a (fst x)" using Cons.prems [of "fst x" "snd x"] by simp
  have "apart a b" if "(b, v) \<in> set xs" for b v using Cons.prems that by (metis list.set_intros(2))
  then have "load64 (stores xs (store64 m (fst x) (snd x))) a = load64 (store64 m (fst x) (snd x)) a"
    by (rule Cons.IH)
  then show ?case by (simp add: load64_store64_other [OF x])
qed simp

section \<open>Reachability and invariants\<close>

text \<open>The states an interleaving of atomic steps can reach from an initial state.\<close>

inductive reachable :: "('s \<Rightarrow> bool) \<Rightarrow> ('s \<Rightarrow> 's \<Rightarrow> bool) \<Rightarrow> 's \<Rightarrow> bool"
  for init :: "'s \<Rightarrow> bool" and step :: "'s \<Rightarrow> 's \<Rightarrow> bool" where
  reach_init: "init s \<Longrightarrow> reachable init step s"
| reach_step: "reachable init step s \<Longrightarrow> step s t \<Longrightarrow> reachable init step t"

locale inductive_invariant =
  fixes init :: "'s \<Rightarrow> bool"
    and step :: "'s \<Rightarrow> 's \<Rightarrow> bool"
    and inv :: "'s \<Rightarrow> bool"
  assumes inv_init: "init s \<Longrightarrow> inv s"
    and inv_step: "inv s \<Longrightarrow> step s t \<Longrightarrow> inv t"
begin

lemma inv_reachable: "reachable init step s \<Longrightarrow> inv s"
  by (induction rule: reachable.induct) (auto intro: inv_init inv_step)

lemma inv_star: "step\<^sup>*\<^sup>* s t \<Longrightarrow> inv s \<Longrightarrow> inv t"
  by (induction rule: rtranclp_induct) (auto intro: inv_step)

end

section \<open>The alignment macros\<close>

text \<open>\<open>ALIGN_UP\<close> and \<open>ALIGN_DOWN\<close> of \<open>alloc.h\<close>, on 32-bit addresses.\<close>

definition ALIGN_UP :: "u32 \<Rightarrow> u32 \<Rightarrow> u32" where
  "ALIGN_UP addr sz = (addr + sz - 1) AND NOT (sz - 1)"

definition ALIGN_DOWN :: "u32 \<Rightarrow> u32 \<Rightarrow> u32" where
  "ALIGN_DOWN addr sz = addr AND NOT (sz - 1)"

end
