(* ===== verification/Team.thy ===== *)
theory Team
  imports Prelude
begin

text \<open>
  The team functions of \<open>sw/snRuntime/src/team.h\<close>: how a core derives its
  cluster and its index in the cluster from its hart identifier. The hardware
  parameters are generated per platform and are the fields of a record.
\<close>

section \<open>Hardware parameters\<close>

text \<open>
  The parameters of \<open>snitch_cluster_defs.h\<close> and \<open>occamy_defs.h\<close>. Both files take
  the base hart identifier and the number of cores from generated headers.
\<close>

record snrt_cfg =
  SNRT_BASE_HARTID :: u32
  SNRT_CLUSTER_CORE_NUM :: u32
  SNRT_CLUSTER_NUM :: u32
  SNRT_CLUSTER_DM_CORE_NUM :: u32
  SNRT_TCDM_START_ADDR :: u32
  SNRT_TCDM_SIZE :: u32
  SNRT_CLUSTER_OFFSET :: u32
  SNRT_CLUSTER_HW_BARRIER_ADDR :: u32

text \<open>
  What a platform's parameters satisfy: a cluster has at least one core and at
  most as many data movers as cores, and the hart identifiers of the whole
  system fit 32 bits.
\<close>

definition wf_cfg :: "snrt_cfg \<Rightarrow> bool" where
  "wf_cfg c \<longleftrightarrow> 0 < unat (SNRT_CLUSTER_CORE_NUM c)
     \<and> unat (SNRT_CLUSTER_DM_CORE_NUM c) \<le> unat (SNRT_CLUSTER_CORE_NUM c)
     \<and> unat (SNRT_BASE_HARTID c) + unat (SNRT_CLUSTER_NUM c) * unat (SNRT_CLUSTER_CORE_NUM c) < 2 ^ 32"

section \<open>Team functions\<close>

text \<open>Each takes the value of the \<open>mhartid\<close> register of the core that calls it.\<close>

definition snrt_cluster_num :: "snrt_cfg \<Rightarrow> u32" where
  "snrt_cluster_num c = SNRT_CLUSTER_NUM c"

definition snrt_cluster_core_num :: "snrt_cfg \<Rightarrow> u32" where
  "snrt_cluster_core_num c = SNRT_CLUSTER_CORE_NUM c"

definition snrt_global_core_base_hartid :: "snrt_cfg \<Rightarrow> u32" where
  "snrt_global_core_base_hartid c = SNRT_BASE_HARTID c"

definition snrt_global_core_num :: "snrt_cfg \<Rightarrow> u32" where
  "snrt_global_core_num c = snrt_cluster_num c * snrt_cluster_core_num c"

definition snrt_global_core_idx :: "snrt_cfg \<Rightarrow> u32 \<Rightarrow> u32" where
  "snrt_global_core_idx c hartid = hartid - snrt_global_core_base_hartid c"

definition snrt_cluster_idx :: "snrt_cfg \<Rightarrow> u32 \<Rightarrow> u32" where
  "snrt_cluster_idx c hartid = snrt_global_core_idx c hartid div snrt_cluster_core_num c"

definition snrt_cluster_core_idx :: "snrt_cfg \<Rightarrow> u32 \<Rightarrow> u32" where
  "snrt_cluster_core_idx c hartid = snrt_global_core_idx c hartid mod snrt_cluster_core_num c"

definition snrt_cluster_dm_core_num :: "snrt_cfg \<Rightarrow> u32" where
  "snrt_cluster_dm_core_num c = SNRT_CLUSTER_DM_CORE_NUM c"

definition snrt_cluster_compute_core_num :: "snrt_cfg \<Rightarrow> u32" where
  "snrt_cluster_compute_core_num c = snrt_cluster_core_num c - snrt_cluster_dm_core_num c"

definition snrt_is_compute_core :: "snrt_cfg \<Rightarrow> u32 \<Rightarrow> bool" where
  "snrt_is_compute_core c hartid \<longleftrightarrow> snrt_cluster_core_idx c hartid < snrt_cluster_compute_core_num c"

definition snrt_is_dm_core :: "snrt_cfg \<Rightarrow> u32 \<Rightarrow> bool" where
  "snrt_is_dm_core c hartid \<longleftrightarrow> \<not> snrt_is_compute_core c hartid"

lemmas team_defs = snrt_cluster_num_def snrt_cluster_core_num_def
  snrt_global_core_base_hartid_def snrt_global_core_num_def snrt_global_core_idx_def
  snrt_cluster_idx_def snrt_cluster_core_idx_def snrt_cluster_dm_core_num_def
  snrt_cluster_compute_core_num_def snrt_is_compute_core_def snrt_is_dm_core_def

section \<open>Hart numbering\<close>

text \<open>The hart identifier of core \<open>k\<close> of cluster \<open>i\<close>, counting clusters and cores from 0.\<close>

definition hart_of :: "snrt_cfg \<Rightarrow> nat \<Rightarrow> nat \<Rightarrow> u32" where
  "hart_of c i k = SNRT_BASE_HARTID c + of_nat (i * unat (SNRT_CLUSTER_CORE_NUM c) + k)"

lemma cluster_linear_bound:
  assumes "i < n" "k < (m::nat)"
  shows "i * m + k < n * m"
proof -
  have "i * m + k < Suc i * m" using assms by simp
  also have "\<dots> \<le> n * m" using assms by (intro mult_le_mono1) simp
  finally show ?thesis .
qed

lemma hart_global_idx:
  assumes "wf_cfg c" "i < unat (SNRT_CLUSTER_NUM c)" "k < unat (SNRT_CLUSTER_CORE_NUM c)"
  shows "unat (snrt_global_core_idx c (hart_of c i k)) = i * unat (SNRT_CLUSTER_CORE_NUM c) + k"
  using assms cluster_linear_bound [OF assms(2,3)]
  by (simp add: team_defs hart_of_def wf_cfg_def unat_of_nat_small del: of_nat_add of_nat_mult)

lemma hart_cluster_idx:
  assumes "wf_cfg c" "i < unat (SNRT_CLUSTER_NUM c)" "k < unat (SNRT_CLUSTER_CORE_NUM c)"
  shows "unat (snrt_cluster_idx c (hart_of c i k)) = i"
  using assms hart_global_idx [OF assms]
  by (simp add: snrt_cluster_idx_def snrt_cluster_core_num_def unat_div)

lemma hart_core_idx:
  assumes "wf_cfg c" "i < unat (SNRT_CLUSTER_NUM c)" "k < unat (SNRT_CLUSTER_CORE_NUM c)"
  shows "unat (snrt_cluster_core_idx c (hart_of c i k)) = k"
  using assms hart_global_idx [OF assms]
  by (simp add: snrt_cluster_core_idx_def snrt_cluster_core_num_def unat_mod)

lemma compute_core_num_nat:
  assumes "wf_cfg c"
  shows "unat (snrt_cluster_compute_core_num c)
    = unat (SNRT_CLUSTER_CORE_NUM c) - unat (SNRT_CLUSTER_DM_CORE_NUM c)"
  using assms by (simp add: team_defs wf_cfg_def unat_minus_no_underflow)

lemma hart_is_compute:
  assumes "wf_cfg c" "i < unat (SNRT_CLUSTER_NUM c)" "k < unat (SNRT_CLUSTER_CORE_NUM c)"
  shows "snrt_is_compute_core c (hart_of c i k)
    \<longleftrightarrow> k < unat (SNRT_CLUSTER_CORE_NUM c) - unat (SNRT_CLUSTER_DM_CORE_NUM c)"
  using hart_core_idx [OF assms] compute_core_num_nat [OF assms(1)]
  by (simp add: snrt_is_compute_core_def word_less_nat_alt)

lemma cluster_core_idx_lt:
  assumes "wf_cfg c"
  shows "unat (snrt_cluster_core_idx c hartid) < unat (SNRT_CLUSTER_CORE_NUM c)"
  using assms by (simp add: team_defs unat_mod wf_cfg_def)

lemma hart_of_decompose:
  "hart_of c (unat (snrt_cluster_idx c hartid)) (unat (snrt_cluster_core_idx c hartid)) = hartid"
  unfolding hart_of_def snrt_cluster_idx_def snrt_cluster_core_idx_def snrt_cluster_core_num_def
  by (subst unat_div_mod_split [symmetric])
    (simp add: snrt_global_core_idx_def snrt_global_core_base_hartid_def)

text \<open>The platforms dedicate exactly one core per cluster to data movement: the last one.\<close>

lemma single_dm_core:
  assumes "wf_cfg c" "SNRT_CLUSTER_DM_CORE_NUM c = 1"
    "i < unat (SNRT_CLUSTER_NUM c)" "k < unat (SNRT_CLUSTER_CORE_NUM c)"
  shows "snrt_is_dm_core c (hart_of c i k) \<longleftrightarrow> k = unat (SNRT_CLUSTER_CORE_NUM c) - 1"
  using hart_is_compute [OF assms(1,3,4)] assms
  by (auto simp: snrt_is_dm_core_def)

section \<open>Properties\<close>

text \<open>
  A concrete platform for the witnesses: one cluster of eight compute cores and a
  data mover, hart identifiers from 0.
\<close>

definition default_cfg :: snrt_cfg where
  "default_cfg = \<lparr> SNRT_BASE_HARTID = 0, SNRT_CLUSTER_CORE_NUM = 9, SNRT_CLUSTER_NUM = 1,
     SNRT_CLUSTER_DM_CORE_NUM = 1, SNRT_TCDM_START_ADDR = 0x10000000, SNRT_TCDM_SIZE = 0x20000,
     SNRT_CLUSTER_OFFSET = 0, SNRT_CLUSTER_HW_BARRIER_ADDR = 0x10020190 \<rparr>"

lemma default_cfg_wf [simp]: "wf_cfg default_cfg"
  by (simp add: wf_cfg_def default_cfg_def)

text \<open>
  C33: the hart numbering is a bijection. For a well-formed platform every pair of a
  cluster index and a core index has a hart that reads exactly these two indices
  back from the team functions, and every hart identifier is rebuilt from the two
  indices it reads, so two cores never share both.
\<close>

theorem team_hart_bijection:
  assumes "wf_cfg c"
  shows "bij_betw (\<lambda>h. (unat (snrt_cluster_idx c h), unat (snrt_cluster_core_idx c h)))
    {h. unat (snrt_global_core_idx c h) < unat (snrt_global_core_num c)}
    ({..<unat (snrt_cluster_num c)} \<times> {..<unat (snrt_cluster_core_num c)})"
proof (rule bij_betw_byWitness [where f' = "\<lambda>(i, k). hart_of c i k"])
  let ?n = "unat (SNRT_CLUSTER_NUM c)" and ?m = "unat (SNRT_CLUSTER_CORE_NUM c)"
  have num: "unat (snrt_global_core_num c) = ?n * ?m"
    using assms by (simp add: team_defs wf_cfg_def unat_times_no_overflow)
  have "unat (snrt_cluster_idx c h) < ?n" if "unat (snrt_global_core_idx c h) < ?n * ?m" for h
    using that assms
    by (simp add: snrt_cluster_idx_def snrt_cluster_core_num_def unat_div less_mult_imp_div_less)
  then show "(\<lambda>h. (unat (snrt_cluster_idx c h), unat (snrt_cluster_core_idx c h))) `
      {h. unat (snrt_global_core_idx c h) < unat (snrt_global_core_num c)}
    \<subseteq> {..<unat (snrt_cluster_num c)} \<times> {..<unat (snrt_cluster_core_num c)}"
    using cluster_core_idx_lt [OF assms] num
    by (auto simp: snrt_cluster_num_def snrt_cluster_core_num_def)
qed (use assms hart_of_decompose hart_cluster_idx hart_core_idx hart_global_idx cluster_linear_bound
     in \<open>auto simp: snrt_cluster_num_def snrt_cluster_core_num_def snrt_global_core_num_def
        wf_cfg_def unat_times_no_overflow\<close>)

theorem team_hart_bijection_witness:
  "wf_cfg default_cfg \<and>
   bij_betw (\<lambda>h. (unat (snrt_cluster_idx default_cfg h), unat (snrt_cluster_core_idx default_cfg h)))
    {h. unat (snrt_global_core_idx default_cfg h) < unat (snrt_global_core_num default_cfg)}
    ({..<unat (snrt_cluster_num default_cfg)} \<times> {..<unat (snrt_cluster_core_num default_cfg)})"
  using team_hart_bijection [of default_cfg] by simp

end
