(* ===== verification/Alloc.thy ===== *)
theory Alloc
  imports Team
begin

text \<open>
  The bump allocators of \<open>sw/snRuntime/src/alloc.h\<close> (L1 and L3), the cluster-local
  storage that holds the L1 allocator (\<open>cls_decls.h\<close>), and \<open>snrt_memset\<close>. A locale
  states what a bump allocator promises; both allocators interpret it.
\<close>

section \<open>State\<close>

text \<open>\<open>snrt_allocator_t\<close> of \<open>alloc_decls.h\<close> and \<open>cls_t\<close> of \<open>cls_decls.h\<close>.\<close>

record snrt_allocator_t =
  al_base :: u32
  al_size :: u32
  al_next :: u32

record cls_t =
  cls_hw_barrier :: u32
  cls_l1_allocator :: snrt_allocator_t

text \<open>What an allocating core of one cluster sees: its cluster-local storage and the
  L3 allocator that all clusters share.\<close>

record alloc_state =
  as_cls :: cls_t
  l3_allocator :: snrt_allocator_t

definition MIN_CHUNK_SIZE :: u32 where
  "MIN_CHUNK_SIZE = 8"

section \<open>Operations\<close>

definition snrt_l1_next :: "alloc_state \<Rightarrow> u32" where
  "snrt_l1_next s = al_next (cls_l1_allocator (as_cls s))"

definition snrt_l3_next :: "alloc_state \<Rightarrow> u32" where
  "snrt_l3_next s = al_next (l3_allocator s)"

definition upd_l1 :: "(snrt_allocator_t \<Rightarrow> snrt_allocator_t) \<Rightarrow> alloc_state \<Rightarrow> alloc_state" where
  "upd_l1 f s = s\<lparr> as_cls := (as_cls s)\<lparr> cls_l1_allocator := f (cls_l1_allocator (as_cls s)) \<rparr> \<rparr>"

definition snrt_l1alloc :: "u32 \<Rightarrow> alloc_state \<Rightarrow> u32 \<times> alloc_state" where
  "snrt_l1alloc sz s = (let
     sz' = ALIGN_UP sz MIN_CHUNK_SIZE;
     ret = snrt_l1_next s
   in (ret, upd_l1 (\<lambda>al. al\<lparr> al_next := al_next al + sz' \<rparr>) s))"

definition snrt_l1_update_next :: "u32 \<Rightarrow> alloc_state \<Rightarrow> alloc_state" where
  "snrt_l1_update_next nxt s = upd_l1 (\<lambda>al. al\<lparr> al_next := nxt \<rparr>) s"

definition snrt_l3alloc :: "u32 \<Rightarrow> alloc_state \<Rightarrow> u32 \<times> alloc_state" where
  "snrt_l3alloc sz s = (let ret = snrt_l3_next s
   in (ret, s\<lparr> l3_allocator := (l3_allocator s)\<lparr> al_next := al_next (l3_allocator s) + sz \<rparr> \<rparr>))"

text \<open>
  \<open>snrt_alloc_init\<close>, run by every core; \<open>l1_start\<close> and \<open>l1_end\<close> are what
  \<open>snrt_l1_start_addr\<close> and \<open>snrt_l1_end_addr\<close> return for the cluster, \<open>edram\<close> is the
  linker's end-of-DRAM symbol.
\<close>

definition snrt_alloc_init :: "snrt_cfg \<Rightarrow> u32 \<Rightarrow> u32 \<Rightarrow> u32 \<Rightarrow> u32 \<Rightarrow> alloc_state \<Rightarrow> alloc_state" where
  "snrt_alloc_init c hartid l1_start l1_end edram s =
    (if snrt_is_dm_core c hartid then
       (let s1 = upd_l1 (\<lambda>al. al\<lparr> al_base := ALIGN_UP l1_start MIN_CHUNK_SIZE \<rparr>) s;
            s2 = upd_l1 (\<lambda>al. al\<lparr> al_size := l1_end - l1_start \<rparr>) s1;
            s3 = upd_l1 (\<lambda>al. al\<lparr> al_next := al_base al \<rparr>) s2;
            b3 = ALIGN_UP edram MIN_CHUNK_SIZE
        in s3\<lparr> l3_allocator := \<lparr> al_base = b3, al_size = 0, al_next = b3 \<rparr> \<rparr>)
     else s)"

text \<open>\<open>snrt_memset\<close>: the loop over \<open>i\<close> stores the low byte of \<open>value\<close>.\<close>

definition snrt_memset :: "mem \<Rightarrow> u32 \<Rightarrow> u32 \<Rightarrow> u32 \<Rightarrow> u32 \<times> mem" where
  "snrt_memset m ptr val num =
    (ptr, fold (\<lambda>i m. m(ptr + of_nat i := ucast val)) [0..<unat num] m)"

section \<open>Rounding\<close>

lemma ALIGN_UP_8_nat:
  assumes "unat x + 7 < 2 ^ 32"
  shows "unat (ALIGN_UP x 8) = (unat x + 7) div 8 * 8"
proof -
  have "ALIGN_UP x 8 = (x + 7) AND NOT (mask 3)"
    by (simp add: ALIGN_UP_def mask_eq_exp_minus_1 ac_simps)
  moreover have "unat (x + 7) = unat x + 7"
    using assms by (subst unat_plus_no_overflow) simp_all
  ultimately show ?thesis
    by (simp add: unat_and_not_mask minus_mod_eq_div_mult)
qed

lemma ALIGN_UP_8_bounds:
  assumes "unat x + 7 < 2 ^ 32"
  shows "unat x \<le> unat (ALIGN_UP x 8)" "unat (ALIGN_UP x 8) < unat x + 8"
    "8 dvd unat (ALIGN_UP x 8)"
  using ALIGN_UP_8_nat [OF assms] by simp_all

section \<open>The contract of a bump allocator\<close>

text \<open>
  \<open>take_size n\<close> is what a request of \<open>n\<close> bytes consumes and \<open>legal n\<close> says which
  requests can be rounded without wrap-around. The laws: an allocation returns the
  next pointer and moves it by the consumed size.
\<close>

locale bump_allocator =
  fixes alloc :: "u32 \<Rightarrow> 's \<Rightarrow> u32 \<times> 's"
    and nextp :: "'s \<Rightarrow> u32"
    and take_size :: "u32 \<Rightarrow> u32"
    and legal :: "u32 \<Rightarrow> bool"
  assumes alloc_ret: "fst (alloc n s) = nextp s"
    and alloc_next: "nextp (snd (alloc n s)) = nextp s + take_size n"
    and take_ge: "legal n \<Longrightarrow> unat n \<le> unat (take_size n)"

text \<open>A sequence of requests served in order.\<close>

primrec run_allocs :: "(u32 \<Rightarrow> 's \<Rightarrow> u32 \<times> 's) \<Rightarrow> u32 list \<Rightarrow> 's \<Rightarrow> u32 list \<times> 's" where
  "run_allocs alloc [] s = ([], s)"
| "run_allocs alloc (n # ns) s = (let (p, s') = alloc n s; (ps, s'') = run_allocs alloc ns s' in (p # ps, s''))"

text \<open>The byte addresses of a block, as naturals (no wrap-around).\<close>

definition block :: "u32 \<Rightarrow> u32 \<Rightarrow> nat set" where
  "block p n = {unat p ..< unat p + unat n}"

context bump_allocator
begin

definition need :: "u32 list \<Rightarrow> nat" where
  "need ns = sum_list (map (\<lambda>n. unat (take_size n)) ns)"

lemma run_allocs_layout:
  assumes "\<forall>n\<in>set ns. legal n" "unat (nextp s) + need ns < 2 ^ 32"
  shows "length (fst (run_allocs alloc ns s)) = length ns
    \<and> unat (nextp (snd (run_allocs alloc ns s))) = unat (nextp s) + need ns
    \<and> (\<forall>i<length ns. unat (fst (run_allocs alloc ns s) ! i) = unat (nextp s) + need (take i ns))"
  using assms
proof (induction ns arbitrary: s)
  case Nil
  then show ?case by (simp add: need_def)
next
  case (Cons n ns)
  let ?s = "snd (alloc n s)"
  have nx: "unat (nextp ?s) = unat (nextp s) + unat (take_size n)"
    using Cons.prems by (simp add: alloc_next need_def unat_plus_no_overflow)
  have IH: "length (fst (run_allocs alloc ns ?s)) = length ns
    \<and> unat (nextp (snd (run_allocs alloc ns ?s))) = unat (nextp ?s) + need ns
    \<and> (\<forall>i<length ns. unat (fst (run_allocs alloc ns ?s) ! i) = unat (nextp ?s) + need (take i ns))"
    using Cons.prems nx by (intro Cons.IH) (auto simp: need_def)
  have run: "run_allocs alloc (n # ns) s
    = (nextp s # fst (run_allocs alloc ns ?s), snd (run_allocs alloc ns ?s))"
    using alloc_ret [of n s] by (simp add: split_beta)
  show ?case
    using IH nx unfolding run by (auto simp: need_def nth_Cons split: nat.splits)
qed

lemma need_take_mono:
  assumes "i < length ns"
  shows "need (take i ns) + unat (take_size (ns ! i)) \<le> need (take j ns) \<or> j \<le> i"
proof (cases "j \<le> i")
  case False
  have "need (take (Suc i) ns) + need (drop (Suc i) (take j ns)) = need (take j ns)"
    using False append_take_drop_id [of "Suc i" "take j ns"]
    by (metis (no_types) Suc_leI need_def map_append min_absorb1 not_le sum_list_append take_take)
  then show ?thesis
    using assms by (simp add: take_Suc_conv_app_nth need_def)
qed simp

lemma run_allocs_disjoint:
  assumes "\<forall>n\<in>set ns. legal n" "unat (nextp s) + need ns < 2 ^ 32" "i < j" "j < length ns"
  shows "block (fst (run_allocs alloc ns s) ! i) (ns ! i)
    \<inter> block (fst (run_allocs alloc ns s) ! j) (ns ! j) = {}"
proof -
  have "unat (ns ! i) \<le> unat (take_size (ns ! i))"
    using assms by (intro take_ge) simp
  then show ?thesis
    using run_allocs_layout [OF assms(1,2)] need_take_mono [of i ns j] assms(3,4)
    by (auto simp: block_def)
qed

lemma run_allocs_within:
  assumes "\<forall>n\<in>set ns. legal n" "unat (nextp s) + need ns < 2 ^ 32" "i < length ns"
  shows "block (fst (run_allocs alloc ns s) ! i) (ns ! i)
    \<subseteq> {unat (nextp s) ..< unat (nextp s) + need ns}"
proof -
  have "unat (ns ! i) \<le> unat (take_size (ns ! i))"
    using assms by (intro take_ge) simp
  moreover have "need (take i ns) + unat (take_size (ns ! i)) \<le> need ns"
    using need_take_mono [OF assms(3), of "length ns"] assms(3) by simp
  ultimately show ?thesis
    using run_allocs_layout [OF assms(1,2)] assms(3) by (auto simp: block_def)
qed

end

definition l1_legal :: "u32 \<Rightarrow> bool" where
  "l1_legal n \<longleftrightarrow> unat n + 7 < 2 ^ 32"

lemma l1_next_upd [simp]: "snrt_l1_next (upd_l1 f s) = al_next (f (cls_l1_allocator (as_cls s)))"
  by (simp add: snrt_l1_next_def upd_l1_def)

interpretation l1: bump_allocator snrt_l1alloc snrt_l1_next "\<lambda>n. ALIGN_UP n MIN_CHUNK_SIZE" l1_legal
  by unfold_locales
    (simp_all add: snrt_l1alloc_def Let_def ALIGN_UP_8_bounds MIN_CHUNK_SIZE_def l1_legal_def,
     simp add: snrt_l1_next_def)

interpretation l3: bump_allocator snrt_l3alloc snrt_l3_next "\<lambda>n. n" "\<lambda>_. True"
  by unfold_locales (simp_all add: snrt_l3alloc_def snrt_l3_next_def Let_def)

section \<open>Alignment, initialisation and memset\<close>

lemma need_l1_dvd: "\<forall>n\<in>set ns. l1_legal n \<Longrightarrow> 8 dvd l1.need ns"
  unfolding l1.need_def
  by (induction ns) (auto simp: MIN_CHUNK_SIZE_def l1_legal_def intro!: dvd_add ALIGN_UP_8_bounds(3))

lemma l1_next_init:
  assumes "snrt_is_dm_core c h" "8 dvd unat l1_start" "unat l1_start + 7 < 2 ^ 32"
  shows "snrt_l1_next (snrt_alloc_init c h l1_start l1_end edram s) = l1_start"
proof -
  have "unat (ALIGN_UP l1_start 8) = unat l1_start"
    using assms(2,3) by (auto simp: ALIGN_UP_8_nat elim!: dvdE)
  then have "ALIGN_UP l1_start 8 = l1_start" by (rule unsigned_word_eqI)
  then show ?thesis
    using assms(1)
    by (simp add: snrt_alloc_init_def Let_def upd_l1_def snrt_l1_next_def MIN_CHUNK_SIZE_def)
qed

lemma memset_fold:
  assumes "n < 2 ^ 32"
  shows "fold (\<lambda>i m. m((p :: u32) + of_nat i := v)) [0..<n] m = (\<lambda>a. if unat (a - p) < n then v else m a)"
  using assms
proof (induction n)
  case (Suc n)
  have "a = p + of_nat n \<longleftrightarrow> unat (a - p) = n" for a :: u32
    using Suc.prems by (auto simp: unat_of_nat_small)
  then show ?case
    using Suc by (auto simp: fun_eq_iff less_Suc_eq)
qed simp

section \<open>Properties\<close>

text \<open>
  C15: after the data mover has run \<open>snrt_alloc_init\<close>, every sequence of
  \<open>snrt_l1alloc\<close> requests whose rounded sizes fit the cluster's L1 is served with
  blocks that are 8-byte aligned, lie inside the L1 and are pairwise disjoint.
\<close>

theorem l1alloc_after_init:
  assumes dm: "snrt_is_dm_core c h"
    and l1: "8 dvd unat l1_start" "unat l1_start + 7 < 2 ^ 32" "unat l1_start \<le> unat l1_end"
    and legal: "\<forall>n\<in>set ns. unat n + 7 < 2 ^ 32"
    and fits: "(\<Sum>n\<leftarrow>ns. unat (ALIGN_UP n MIN_CHUNK_SIZE)) \<le> unat l1_end - unat l1_start"
    and ps: "ps = fst (run_allocs snrt_l1alloc ns (snrt_alloc_init c h l1_start l1_end edram s))"
  shows "length ps = length ns
    \<and> (\<forall>i<length ns. 8 dvd unat (ps ! i) \<and> block (ps ! i) (ns ! i) \<subseteq> {unat l1_start ..< unat l1_end})
    \<and> (\<forall>i j. i < j \<and> j < length ns \<longrightarrow> block (ps ! i) (ns ! i) \<inter> block (ps ! j) (ns ! j) = {})"
proof -
  let ?s = "snrt_alloc_init c h l1_start l1_end edram s"
  have nx: "snrt_l1_next ?s = l1_start" using l1_next_init [OF dm l1(1,2)] .
  have lg: "\<forall>n\<in>set ns. l1_legal n" using legal by (simp add: l1_legal_def)
  have bound: "unat (snrt_l1_next ?s) + l1.need ns \<le> unat l1_end"
    using fits l1(3) by (simp add: nx l1.need_def)
  then have lim: "unat (snrt_l1_next ?s) + l1.need ns < 2 ^ 32"
    using unat_lt_2p [of l1_end] by simp
  note run = l1.run_allocs_layout [OF lg lim] l1.run_allocs_within [OF lg lim]
    l1.run_allocs_disjoint [OF lg lim]
  have "8 dvd unat (ps ! i)" if "i < length ns" for i
    using run(1) that l1(1) nx need_l1_dvd [of "take i ns"] lg
    by (auto simp: ps intro!: dvd_add dest: in_set_takeD)
  moreover have "block (ps ! i) (ns ! i) \<subseteq> {unat l1_start ..< unat l1_end}" if "i < length ns" for i
    using run(2) [OF that] bound by (auto simp: ps nx)
  ultimately show ?thesis
    using run(1,3) by (simp add: ps)
qed

theorem l1alloc_after_init_witness:
  "\<exists>s. fst (run_allocs snrt_l1alloc [5, 16, 0x100]
      (snrt_alloc_init default_cfg 8 0x10000000 0x10020000 0x80001003 s)) = [0x10000000, 0x10000008, 0x10000018]
   \<and> block 0x10000000 5 \<inter> block 0x10000008 16 = {}"
proof -
  let ?s = "\<lparr> as_cls = \<lparr> cls_hw_barrier = 0, cls_l1_allocator = \<lparr> al_base = 0, al_size = 0, al_next = 0 \<rparr> \<rparr>,
    l3_allocator = \<lparr> al_base = 0, al_size = 0, al_next = 0 \<rparr> \<rparr>"
  let ?ns = "[5, 16, 0x100] :: u32 list" and ?ps = "[0x10000000, 0x10000008, 0x10000018] :: u32 list"
  have dm: "snrt_is_dm_core default_cfg 8" by code_simp
  have ps: "?ps = fst (run_allocs snrt_l1alloc ?ns
      (snrt_alloc_init default_cfg 8 0x10000000 0x10020000 0x80001003 ?s))" by code_simp
  have al: "(\<Sum>n\<leftarrow>?ns. unat (ALIGN_UP n MIN_CHUNK_SIZE)) \<le> unat (0x10020000 :: u32) - unat (0x10000000 :: u32)"
    by (simp add: ALIGN_UP_def MIN_CHUNK_SIZE_def)
  have lg: "\<forall>n\<in>set ?ns. unat n + 7 < 2 ^ 32" by simp
  have "block (?ps ! 0) (?ns ! 0) \<inter> block (?ps ! 1) (?ns ! 1) = {}"
    using l1alloc_after_init [OF dm _ _ _ lg al ps, THEN conjunct2, THEN conjunct2, rule_format, of 0 1]
    by simp
  then have "block 0x10000000 5 \<inter> block 0x10000008 16 = {}" by simp
  then show ?thesis using ps [symmetric] by blast
qed

text \<open>
  \<open>snrt_memset\<close> returns its pointer and writes exactly the \<open>num\<close> bytes from it
  (modulo the address width) with the low byte of the value.
\<close>

theorem snrt_memset_spec:
  "snrt_memset m ptr val num = (ptr, \<lambda>a. if unat (a - ptr) < unat num then ucast val else m a)"
  using memset_fold [of "unat num" ptr "ucast val" m] unat_lt_2p [of num]
  by (simp add: snrt_memset_def)

end
