(* ===== verification/Cluster_Exec.thy ===== *)
theory Cluster_Exec
  imports Prelude
begin

text \<open>
  Execution of one cluster by its cores between cluster barriers. A core, or the DMA engine on
  behalf of the data mover core, is a list of assignments to memory cells and core registers
  separated by barriers. The cores interleave freely; a barrier opens when every core has
  arrived (\<open>Barrier\<close> shows this of the software barrier). Cores that do not interfere between
  two barriers compute what one core would compute alone.
\<close>

section \<open>Assignments\<close>

text \<open>A memory cell of one double, by its double index, and register \<open>r\<close> of core \<open>c\<close>.\<close>

datatype loc = M nat | R nat nat

type_synonym store = "loc \<Rightarrow> u64"

datatype instr = Asg (target: loc) (operator: "u64 list \<Rightarrow> u64") (sources: "loc list")

primrec exec :: "instr \<Rightarrow> store \<Rightarrow> store" where
  "exec (Asg w f rs) s = s(w := f (map s rs))"

definition run :: "instr list \<Rightarrow> store \<Rightarrow> store" where
  "run is s = fold exec is s"

lemma run_simps [simp]:
  "run [] s = s" "run (a # is) s = run is (exec a s)" "run (is @ js) s = run js (run is s)"
  by (simp_all add: run_def)

definition targets :: "instr list \<Rightarrow> loc set" where
  "targets is = target ` set is"

lemma targets_simps [simp]:
  "targets [] = {}" "targets (a # is) = insert (target a) (targets is)" "targets (is @ js) = targets is \<union> targets js"
  "targets (concat iss) = (\<Union>i\<in>set iss. targets i)" "targets (map f xs) = (\<lambda>x. target (f x)) ` set xs"
  by (auto simp: targets_def)

lemma exec_other: "x \<noteq> target a \<Longrightarrow> exec a s x = s x"
  by (cases a) simp

lemma run_other: "x \<notin> targets is \<Longrightarrow> run is s x = s x"
  by (induction "is" arbitrary: s) (auto simp: exec_other)

text \<open>A cell that no assignment touches, and blocks of assignments that each begin by clearing it.\<close>

definition untouched :: "loc \<Rightarrow> instr list \<Rightarrow> bool" where
  "untouched z is \<longleftrightarrow> z \<notin> targets is \<and> (\<forall>a\<in>set is. z \<notin> set (sources a))"

lemma run_untouched: "untouched z is \<Longrightarrow> run is (s(z := v)) = (run is s)(z := v)"
proof (induction "is" arbitrary: s)
  case (Cons a "is")
  obtain w f rs where a: "a = Asg w f rs" by (cases a)
  have u: "z \<noteq> w" "z \<notin> set rs" "untouched z is" using Cons.prems by (auto simp: a untouched_def)
  have "map (s(z := v)) rs = map s rs" using u(2) by auto
  then have "exec a (s(z := v)) = (exec a s)(z := v)" unfolding a exec.simps by (simp only: fun_upd_twist [OF u(1)])
  then show ?case by (simp only: run_simps Cons.IH [OF u(3)])
qed simp

lemma run_store_first:
  assumes "\<And>i. i \<in> set xs \<Longrightarrow> untouched z (B i)"
  shows "run (concat (map (\<lambda>i. Asg z (\<lambda>_. v) [] # B i) xs)) s
    = (if xs = [] then s else (run (concat (map B xs)) s)(z := v))"
  using assms
proof (induction xs arbitrary: s)
  case (Cons i xs)
  then have u: "untouched z (B i)" "untouched z (concat (map B xs))" by (auto simp: untouched_def)
  have "run (concat (map (\<lambda>i. Asg z (\<lambda>_. v) [] # B i) xs)) ((run (B i) s)(z := v)) = (run (concat (map B xs)) (run (B i) s))(z := v)"
    using Cons.IH [of "(run (B i) s)(z := v)"] Cons.prems unfolding run_untouched [OF u(2)] fun_upd_upd by (cases xs) (auto simp del: fun_upd_apply)
  then show ?case by (simp add: run_untouched [OF u(1)] del: fun_upd_apply)
qed simp

text \<open>Every operand is in \<open>X\<close> or has been assigned before.\<close>

fun defined :: "loc set \<Rightarrow> instr list \<Rightarrow> bool" where
  "defined X [] = True"
| "defined X (a # is) = (set (sources a) \<subseteq> X \<and> defined (insert (target a) X) is)"

lemma defined_mono: "defined X is \<Longrightarrow> X \<subseteq> Y \<Longrightarrow> defined Y is"
proof (induction "is" arbitrary: X Y)
  case (Cons a "is")
  have "insert (target a) X \<subseteq> insert (target a) Y" using Cons.prems(2) by blast
  then show ?case using Cons.IH [of "insert (target a) X" "insert (target a) Y"] Cons.prems by auto
qed simp

lemma defined_append [simp]: "defined X (is @ js) \<longleftrightarrow> defined X is \<and> defined (X \<union> targets is) js"
  by (induction "is" arbitrary: X) simp_all

lemma defined_concat:
  "(\<And>i. i \<in> set iss \<Longrightarrow> defined X i) \<Longrightarrow> defined X (concat iss)"
proof (induction iss)
  case (Cons i iss)
  then have "defined X i" "defined X (concat iss)" by simp_all
  then show ?case using defined_mono [of X "concat iss" "X \<union> targets i"] by auto
qed simp

lemma defined_sources: "defined X is \<Longrightarrow> a \<in> set is \<Longrightarrow> set (sources a) \<subseteq> X \<union> targets is"
  by (induction "is" arbitrary: X) fastforce+

lemma defined_agree:
  assumes "defined X is" "\<And>x. x \<in> X \<Longrightarrow> s x = t x" "x \<in> X \<union> targets is"
  shows "run is s x = run is t x"
  using assms
proof (induction "is" arbitrary: X s t)
  case (Cons a "is")
  obtain w f rs where a: "a = Asg w f rs" by (cases a)
  have rs: "map s rs = map t rs" using Cons.prems a by auto
  have "run is (exec a s) x = run is (exec a t) x"
  proof (rule Cons.IH)
    show "defined (insert w X) is" using Cons.prems a by simp
    show "x \<in> insert w X \<union> targets is" using Cons.prems a by auto
    fix y assume "y \<in> insert w X"
    then show "exec a s y = exec a t y" using Cons.prems(2) [of y] unfolding a exec.simps rs by auto
  qed
  then show ?case by simp
qed simp

text \<open>Assignments that read nothing they write.\<close>

lemma run_parallel:
  assumes "\<And>b y. b \<in> set is \<Longrightarrow> y \<in> set (sources b) \<Longrightarrow> y \<notin> targets is"
    and "\<And>b. b \<in> set is \<Longrightarrow> target b = x \<Longrightarrow> operator b (map s (sources b)) = v"
    and "x \<in> targets is"
  shows "run is s x = v"
  using assms
proof (induction "is" rule: rev_induct)
  case (snoc b "is")
  obtain w f rs where b: "b = Asg w f rs" by (cases b)
  have rs: "map (run is s) rs = map s rs"
    using snoc.prems(1) [of b] by (auto simp: b intro!: run_other)
  show ?case
  proof (cases "w = x")
    case True then show ?thesis using snoc.prems(2) [of b] by (simp add: b rs del: map_eq_conv)
  next
    case False
    then have "run is s x = v" using snoc.prems by (intro snoc.IH) (auto simp: b)
    then show ?thesis using False by (simp add: b)
  qed
qed simp

text \<open>Blocks that keep the inputs \<open>I\<close>, of which those with \<open>Q\<close> write the value \<open>F\<close> to \<open>y\<close>.\<close>

lemma run_blocks:
  assumes keep: "\<And>p s x. p \<in> set ps \<Longrightarrow> x \<in> I \<Longrightarrow> run (B p) s x = s x"
    and dep: "\<And>s t. (\<And>x. x \<in> I \<Longrightarrow> s x = t x) \<Longrightarrow> F s = F t"
    and out: "\<And>p s. p \<in> set ps \<Longrightarrow> run (B p) s y = (if Q p then F s else s y)"
  shows "run (concat (map B ps)) s y = (if \<exists>p\<in>set ps. Q p then F s else s y)"
  using keep out
proof (induction ps arbitrary: s)
  case (Cons p ps)
  have "F (run (B p) s) = F s" by (rule dep) (simp add: Cons.prems(1))
  then show ?case using Cons.prems(2) [of p s] Cons.IH [of "run (B p) s"] Cons.prems by simp
qed simp

section \<open>Independent assignments commute\<close>

text \<open>Neither assignment touches what the other writes, or both store the same constant to the same place.\<close>

definition indep :: "instr \<Rightarrow> instr \<Rightarrow> bool" where
  "indep a b \<longleftrightarrow> (target a \<noteq> target b \<and> target a \<notin> set (sources b) \<and> target b \<notin> set (sources a)) \<or> (a = b \<and> sources a = [])"

lemma indep_sym: "indep a b \<Longrightarrow> indep b a"
  by (auto simp: indep_def)

locale commuting =
  fixes ex :: "'i \<Rightarrow> 's \<Rightarrow> 's" and ind :: "'i \<Rightarrow> 'i \<Rightarrow> bool"
  assumes commute: "ind a b \<Longrightarrow> ex b (ex a s) = ex a (ex b s)"
begin

lemma move_front:
  "(\<And>b. b \<in> set bs \<Longrightarrow> ind a b) \<Longrightarrow> fold ex (bs @ a # cs) s = fold ex (bs @ cs) (ex a s)"
proof (induction bs arbitrary: s)
  case (Cons b bs)
  have "fold ex ((b # bs) @ a # cs) s = fold ex (bs @ cs) (ex a (ex b s))"
    using Cons by simp
  also have "ex a (ex b s) = ex b (ex a s)" using Cons.prems [of b] by (simp add: commute)
  finally show ?case by simp
qed simp

end

lemma map_fun_upd_other: "w \<notin> set rs \<Longrightarrow> map (s(w := v)) rs = map s rs"
  by auto

interpretation asg: commuting exec indep
proof
  fix a b s assume "indep a b"
  then show "exec b (exec a s) = exec a (exec b s)"
    by (cases a; cases b) (auto simp: indep_def map_fun_upd_other intro: fun_upd_twist simp del: map_eq_conv)
qed

section \<open>The cores of a cluster\<close>

datatype ev = Act instr | Bar

inductive cstep :: "store \<times> ev list list \<Rightarrow> store \<times> ev list list \<Rightarrow> bool" where
  act: "i < length ts \<Longrightarrow> ts ! i = Act a # es \<Longrightarrow> cstep (s, ts) (exec a s, ts[i := es])"
| bar: "ts \<noteq> [] \<Longrightarrow> (\<And>t. t \<in> set ts \<Longrightarrow> t \<noteq> [] \<and> hd t = Bar) \<Longrightarrow> cstep (s, ts) (s, map tl ts)"

inductive_cases cstepE: "cstep (s, ts) x"

text \<open>What a core does between barriers.\<close>

fun phases :: "ev list \<Rightarrow> instr list list" where
  "phases [] = [[]]"
| "phases (Act a # es) = (a # hd (phases es)) # tl (phases es)"
| "phases (Bar # es) = [] # phases es"

lemma phases_nonempty [simp]: "phases es \<noteq> []"
  by (induction es rule: phases.induct) auto

lemma phases_acts [simp]: "phases (map Act is @ es) = (is @ hd (phases es)) # tl (phases es)"
  by (induction "is") auto

lemma phases_acts_only [simp]: "phases (map Act is) = [is]"
  using phases_acts [of "is" "[]"] by simp

lemma phases_acts_bar [simp]: "phases (map Act is @ Bar # es) = is # phases es"
  by simp

text \<open>The cores one after the other, phase by phase.\<close>

definition phase_code :: "ev list list \<Rightarrow> nat \<Rightarrow> instr list" where
  "phase_code ts k = concat (map (\<lambda>t. phases t ! k) ts)"

definition seq_run :: "nat \<Rightarrow> ev list list \<Rightarrow> store \<Rightarrow> store" where
  "seq_run n ts s = fold (\<lambda>k. run (phase_code ts k)) [0..<n] s"

text \<open>Every core passes the same number of barriers, and no core touches what another core
  writes in the same phase, except that several cores may store the same constant.\<close>

definition matched :: "nat \<Rightarrow> ev list list \<Rightarrow> bool" where
  "matched n ts \<longleftrightarrow> ts \<noteq> [] \<and> (\<forall>t\<in>set ts. length (phases t) = n)"

definition race_free :: "nat \<Rightarrow> ev list list \<Rightarrow> bool" where
  "race_free n ts \<longleftrightarrow> (\<forall>k<n. \<forall>i<length ts. \<forall>j<length ts. i \<noteq> j \<longrightarrow>
     (\<forall>a\<in>set (phases (ts ! i) ! k). \<forall>b\<in>set (phases (ts ! j) ! k). indep a b))"

definition events :: "ev list list \<Rightarrow> nat" where
  "events ts = sum_list (map length ts)"

lemma race_freeD:
  "race_free n ts \<Longrightarrow> k < n \<Longrightarrow> i < length ts \<Longrightarrow> j < length ts \<Longrightarrow> i \<noteq> j \<Longrightarrow>
   a \<in> set (phases (ts ! i) ! k) \<Longrightarrow> b \<in> set (phases (ts ! j) ! k) \<Longrightarrow> indep a b"
  by (simp add: race_free_def)

lemma phases_act_nth:
  "phases (Act a # es) ! k = (if k = 0 then a # phases es ! 0 else phases es ! k)"
  by (cases "phases es"; cases k) (auto simp: hd_conv_nth)

lemma act_phases_subset: "set (phases es ! k) \<subseteq> set (phases (Act a # es) ! k)"
  by (auto simp: phases_act_nth simp del: phases.simps)

lemma matched_act:
  assumes "matched n ts" "i < length ts" "ts ! i = Act a # es"
  shows "matched n (ts[i := es])"
proof -
  have "length (phases (Act a # es)) = n" using assms nth_mem by (fastforce simp: matched_def)
  then have "length (phases es) = n" by simp
  then show ?thesis using assms(1) set_update_subset_insert [of ts i es] by (auto simp: matched_def)
qed

lemma race_free_act:
  assumes "race_free n ts" "i < length ts" "ts ! i = Act a # es"
  shows "race_free n (ts[i := es])"
proof -
  have sub: "set (phases (ts[i := es] ! j) ! k) \<subseteq> set (phases (ts ! j) ! k)" if "j < length ts" for j k
    using that assms(2, 3) act_phases_subset by (cases "j = i") auto
  show ?thesis unfolding race_free_def
    using race_freeD [OF assms(1)] sub by (simp add: subset_iff)
qed

lemma phase_code_act:
  assumes "i < length ts" "ts ! i = Act a # es"
  shows "phase_code ts k = (if k = 0 then phase_code (take i ts) 0 @ a # phases es ! 0 @ phase_code (drop (Suc i) ts) 0
           else phase_code (ts[i := es]) k)"
    and "phase_code (ts[i := es]) 0 = phase_code (take i ts) 0 @ phases es ! 0 @ phase_code (drop (Suc i) ts) 0"
proof -
  have ts: "ts = take i ts @ (Act a # es) # drop (Suc i) ts" using assms by (metis id_take_nth_drop)
  have up: "ts[i := es] = take i ts @ es # drop (Suc i) ts" using assms(1) by (simp add: upd_conv_take_nth_drop)
  have app: "phase_code (us @ t # vs) k = phase_code us k @ phases t ! k @ phase_code vs k" for us t vs k
    by (simp add: phase_code_def)
  show "phase_code (ts[i := es]) 0 = phase_code (take i ts) 0 @ phases es ! 0 @ phase_code (drop (Suc i) ts) 0"
    by (simp add: up app)
  show "phase_code ts k = (if k = 0 then phase_code (take i ts) 0 @ a # phases es ! 0 @ phase_code (drop (Suc i) ts) 0
           else phase_code (ts[i := es]) k)"
    by (subst ts) (simp add: up app phases_act_nth del: phases.simps)
qed

lemma seq_run_act:
  assumes "matched n ts" "race_free n ts" "i < length ts" "ts ! i = Act a # es"
  shows "seq_run n (ts[i := es]) (exec a s) = seq_run n ts s"
proof -
  obtain m where n: "n = Suc m"
    using assms(1) by (cases n) (auto simp: matched_def neq_Nil_conv)
  have ind: "indep a b" if b: "b \<in> set (phase_code (take i ts) 0)" for b
  proof -
    obtain t where "t \<in> set (take i ts)" "b \<in> set (phases t ! 0)" using b by (auto simp: phase_code_def)
    then obtain j where j: "j < i" "b \<in> set (phases (ts ! j) ! 0)"
      using assms(3) by (auto simp: in_set_conv_nth [of t])
    have "a \<in> set (phases (ts ! i) ! 0)" using assms(4) by simp
    then show ?thesis using race_freeD [OF assms(2), of 0 i j a b] j assms(3) n by simp
  qed
  have "run (phase_code ts 0) s = run (phase_code (ts[i := es]) 0) (exec a s)"
    unfolding phase_code_act(2) [OF assms(3, 4)] phase_code_act(1) [OF assms(3, 4), of 0] run_def
    using asg.move_front [of "phase_code (take i ts) 0" a, OF ind] by simp
  moreover have "fold (\<lambda>k. run (phase_code (ts[i := es]) k)) [1..<Suc m] t
      = fold (\<lambda>k. run (phase_code ts k)) [1..<Suc m] t" for t
  proof (rule fold_cong)
    fix k assume "k \<in> set [1..<Suc m]"
    then have "k \<noteq> 0" by auto
    then show "run (phase_code (ts[i := es]) k) = run (phase_code ts k)"
      using phase_code_act(1) [OF assms(3, 4), of k] by simp
  qed simp_all
  ultimately show ?thesis by (simp add: seq_run_def n upt_conv_Cons del: upt_Suc)
qed

lemma bar_phases: "t \<noteq> [] \<Longrightarrow> hd t = Bar \<Longrightarrow> phases t = [] # phases (tl t)"
  by (cases t) auto

lemma bar_step:
  assumes "matched n ts" "race_free n ts" and b: "\<And>t. t \<in> set ts \<Longrightarrow> t \<noteq> [] \<and> hd t = Bar"
  obtains m where "n = Suc m" "matched m (map tl ts)" "race_free m (map tl ts)"
    "\<And>s. seq_run m (map tl ts) s = seq_run n ts s"
proof -
  obtain m where n: "n = Suc m"
    using assms(1) by (cases n) (auto simp: matched_def neq_Nil_conv)
  have ph: "phases t = [] # phases (tl t)" if "t \<in> set ts" for t using b that bar_phases by blast
  have m: "matched m (map tl ts)" using assms(1) by (auto simp: matched_def n ph)
  have r: "race_free m (map tl ts)" unfolding race_free_def
  proof (intro allI impI ballI)
    fix k i j a b assume "k < m" "i < length (map tl ts)" "j < length (map tl ts)" "i \<noteq> j"
      "a \<in> set (phases (map tl ts ! i) ! k)" "b \<in> set (phases (map tl ts ! j) ! k)"
    then show "indep a b" using race_freeD [OF assms(2), of "Suc k" i j a b] by (simp add: n ph)
  qed
  have pc: "phase_code ts 0 = []" "phase_code ts (Suc k) = phase_code (map tl ts) k" for k
    by (auto simp: phase_code_def ph comp_def intro!: arg_cong [of _ _ concat])
  have "seq_run m (map tl ts) s = seq_run n ts s" for s
    unfolding seq_run_def n by (simp add: upt_conv_Cons pc fold_map comp_def flip: map_Suc_upt del: upt_Suc)
  then show ?thesis using that n m r by blast
qed

section \<open>Race free cores are deterministic\<close>

lemma events_act: "i < length ts \<Longrightarrow> ts ! i = Act a # es \<Longrightarrow> events ts = Suc (events (ts[i := es]))"
  by (induction ts arbitrary: i) (auto simp: events_def nth_Cons split: nat.splits)

lemma cstep_keeps:
  assumes "cstep (s, ts) (s', ts')" "matched n ts" "race_free n ts"
  shows "\<exists>m. matched m ts' \<and> race_free m ts' \<and> seq_run m ts' s' = seq_run n ts s \<and> events ts' < events ts"
  using assms(1)
proof (cases rule: cstep.cases)
  case (act i a es)
  have "events (ts[i := es]) < events ts"
    using events_act [OF act(3, 4)] by simp
  then show ?thesis
    using act matched_act race_free_act seq_run_act assms(2, 3) by blast
next
  case bar
  obtain m where m: "matched m (map tl ts)" "race_free m (map tl ts)" "\<And>s. seq_run m (map tl ts) s = seq_run n ts s"
    using bar_step [OF assms(2, 3)] bar(4) by blast
  have "sum_list (map (length \<circ> tl) ts) < sum_list (map length ts)"
    using bar(3, 4) by (intro sum_list_strict_mono) (auto simp: neq_Nil_conv)
  then show ?thesis using bar m by (auto simp: events_def)
qed

lemma seq_run_done: "matched n ts \<Longrightarrow> set ts \<subseteq> {[]} \<Longrightarrow> seq_run n ts s = s"
proof -
  assume a: "matched n ts" "set ts \<subseteq> {[]}"
  obtain t us where "ts = t # us" using a(1) by (auto simp: matched_def neq_Nil_conv)
  then have n: "n = 1" using a by (simp add: matched_def)
  have "phase_code ts 0 = []" using a(2) by (induction ts) (auto simp: phase_code_def)
  then show ?thesis by (simp add: seq_run_def n)
qed

lemma not_stuck:
  assumes "matched n ts" "\<not> set ts \<subseteq> {[]}"
  shows "\<exists>x. cstep (s, ts) x"
proof (cases "\<exists>i<length ts. \<exists>a es. ts ! i = Act a # es")
  case True then show ?thesis using cstep.act by blast
next
  case False
  have h: "t = [] \<or> hd t = Bar" if "t \<in> set ts" for t
    using False that by (metis ev.exhaust in_set_conv_nth list.collapse list.sel(1))
  obtain u where u: "u \<in> set ts" "u \<noteq> []" using assms(2) by auto
  then have "phases u = [] # phases (tl u)" using h bar_phases by blast
  then have "n \<noteq> 1" using u assms(1) by (auto simp: matched_def)
  then have "t \<noteq> []" if "t \<in> set ts" for t using that assms(1) by (auto simp: matched_def)
  then show ?thesis using h u by (intro exI [of _ "(s, map tl ts)"] cstep.bar) auto
qed

definition final :: "store \<times> ev list list \<Rightarrow> bool" where
  "final x \<longleftrightarrow> set (snd x) \<subseteq> {[]}"

lemma cstep_run:
  assumes "(cstep ^^ k) (s, ts) (s', ts')" "matched n ts" "race_free n ts"
  shows "\<exists>m. matched m ts' \<and> race_free m ts' \<and> seq_run m ts' s' = seq_run n ts s \<and> events ts' + k \<le> events ts"
  using assms(1)
proof (induction k arbitrary: s' ts')
  case 0 then show ?case using assms(2, 3) by auto
next
  case (Suc k)
  then obtain s1 ts1 where r: "(cstep ^^ k) (s, ts) (s1, ts1)" "cstep (s1, ts1) (s', ts')" by auto
  obtain m where m: "matched m ts1" "race_free m ts1" "seq_run m ts1 s1 = seq_run n ts s" "events ts1 + k \<le> events ts"
    using Suc.IH [OF r(1)] by blast
  show ?case using cstep_keeps [OF r(2) m(1, 2)] m by fastforce
qed

text \<open>Every run of matched, race free cores is bounded, is never stuck before the end, and ends
  in the store of the sequential run.\<close>

lemma race_free_runs:
  assumes "matched n ts" "race_free n ts" "(cstep ^^ k) (s, ts) x"
  shows "k \<le> events ts" "final x \<or> (\<exists>y. cstep x y)" "final x \<Longrightarrow> fst x = seq_run n ts s"
proof -
  obtain s' ts' where x: "x = (s', ts')" by (cases x)
  obtain m where m: "matched m ts'" "seq_run m ts' s' = seq_run n ts s" "events ts' + k \<le> events ts"
    using cstep_run [OF assms(3) [unfolded x] assms(1, 2)] by blast
  show "k \<le> events ts" using m(3) by simp
  show "final x \<or> (\<exists>y. cstep x y)" using not_stuck [OF m(1)] by (auto simp: final_def x)
  show "final x \<Longrightarrow> fst x = seq_run n ts s" using seq_run_done [OF m(1)] m(2) by (simp add: final_def x)
qed

text \<open>A bounded system that is never stuck reaches a final state.\<close>

lemma bounded_reaches:
  assumes "\<And>k x. (step ^^ k) a x \<Longrightarrow> k \<le> B \<and> (F x \<or> (\<exists>y. step x y))"
  shows "\<exists>k x. (step ^^ k) a x \<and> F x"
proof (rule ccontr)
  assume no: "\<nexists>k x. (step ^^ k) a x \<and> F x"
  have "\<exists>x. (step ^^ k) a x" for k
  proof (induction k)
    case (Suc k)
    then obtain x where x: "(step ^^ k) a x" by blast
    then obtain y where "step x y" using assms [OF x] no by blast
    then show ?case using x by (auto simp: relcompp_apply)
  qed auto
  then obtain x where "(step ^^ Suc B) a x" by blast
  then show False using assms [of "Suc B" x] by simp
qed

section \<open>One block of code after the other\<close>

text \<open>Between two blocks only the first core is busy: every other core waits in the last phase of
  the one and the first phase of the other.\<close>

definition solo :: "ev list list \<Rightarrow> bool" where
  "solo ts \<longleftrightarrow> (\<forall>i. 0 < i \<longrightarrow> i < length ts \<longrightarrow> hd (phases (ts ! i)) = [] \<and> last (phases (ts ! i)) = [])"

lemma phases_append: "phases (xs @ ys) = butlast (phases xs) @ (last (phases xs) @ hd (phases ys)) # tl (phases ys)"
proof (induction xs)
  case (Cons e xs)
  obtain p ps where "phases xs = p # ps" by (cases "phases xs") auto
  then show ?case using Cons by (cases e; cases ps rule: rev_cases) auto
qed (simp add: hd_Cons_tl [symmetric] del: hd_Cons_tl)

lemma phases_append_nth:
  assumes "length (phases xs) = n" "length (phases ys) = m" "k < n + m - 1"
  shows "phases (xs @ ys) ! k = (if Suc k < n then phases xs ! k
    else if Suc k = n then phases xs ! k @ phases ys ! 0 else phases ys ! (Suc k - n))"
proof -
  have n: "0 < n" using assms(1) by auto
  have "hd (phases ys) = phases ys ! 0" "last (phases xs) = phases xs ! (n - 1)"
    using assms(1) by (simp_all add: hd_conv_nth last_conv_nth)
  note h = this
  consider "Suc k < n" | "k = n - 1" | d where "k = n + d" using n by (metis Suc_lessI diff_Suc_1 le_Suc_ex not_less_eq_eq less_eq_Suc_le)
  then show ?thesis
  proof cases
    case 1
    then have "k < n - 1" by simp
    then show ?thesis using assms 1 by (simp add: phases_append nth_append nth_butlast)
  next
    case 2 then show ?thesis using assms n h by (simp add: phases_append nth_append)
  next
    case 3
    then have "k - (n - 1) = Suc d" "\<not> k < n - 1" using n by simp_all
    then show ?thesis using assms 3 n by (simp add: phases_append nth_append nth_tl)
  qed
qed

lemma phase_code_solo:
  assumes "ts \<noteq> []" "\<And>i. 0 < i \<Longrightarrow> i < length ts \<Longrightarrow> phases (ts ! i) ! k = []"
  shows "phase_code ts k = phases (ts ! 0) ! k"
proof -
  obtain t us where ts: "ts = t # us" using assms(1) by (cases ts) auto
  have "phases u ! k = []" if "u \<in> set us" for u
  proof -
    obtain i where "i < length us" "us ! i = u" using \<open>u \<in> set us\<close> by (auto simp: in_set_conv_nth)
    then show ?thesis using assms(2) [of "Suc i"] by (simp add: ts)
  qed
  then have "concat (map (\<lambda>u. phases u ! k) us) = []" by simp
  then show ?thesis by (simp add: phase_code_def ts)
qed

definition join :: "ev list list \<Rightarrow> ev list list \<Rightarrow> ev list list" where
  "join ts us = map2 (@) ts us"

lemma join_blocks:
  assumes t: "matched n ts" "race_free n ts" "solo ts" and u: "matched m us" "race_free m us" "solo us"
    and len: "length ts = length us"
  shows "matched (n + m - 1) (join ts us)" "race_free (n + m - 1) (join ts us)" "solo (join ts us)"
    "seq_run (n + m - 1) (join ts us) s = seq_run m us (seq_run n ts s)" "length (join ts us) = length us"
proof -
  have ne: "ts \<noteq> []" "us \<noteq> []" using t u by (auto simp: matched_def)
  have lt: "length (phases (ts ! i)) = n" "length (phases (us ! i)) = m" if "i < length us" for i
    using that len t(1) u(1) by (auto simp: matched_def)
  have n: "0 < n" "0 < m" using lt [of 0] ne by (auto simp: neq_Nil_conv)
  have nth: "join ts us ! i = ts ! i @ us ! i" if "i < length us" for i using that len by (simp add: join_def)
  show l: "length (join ts us) = length us" using len by (simp add: join_def)
  have ph: "phases (join ts us ! i) ! k = (if Suc k < n then phases (ts ! i) ! k
    else if Suc k = n then phases (ts ! i) ! k @ phases (us ! i) ! 0 else phases (us ! i) ! (Suc k - n))"
    if "i < length us" "k < n + m - 1" for i k
    unfolding nth [OF that(1)] by (rule phases_append_nth [OF lt [OF that(1)] that(2)])
  have so: "phases (ts ! i) ! (n - 1) = []" "phases (us ! i) ! 0 = []" if "0 < i" "i < length us" for i
    using t(3) u(3) that len lt [OF that(2)] by (auto simp: solo_def hd_conv_nth last_conv_nth)
  show "matched (n + m - 1) (join ts us)"
    using ne len lt n unfolding matched_def by (auto simp: join_def set_zip phases_append)
  show "race_free (n + m - 1) (join ts us)" unfolding race_free_def l
  proof (intro allI impI ballI)
    fix k i j a b assume k: "k < n + m - 1" and ij: "i < length us" "j < length us" "i \<noteq> j"
      and ab: "a \<in> set (phases (join ts us ! i) ! k)" "b \<in> set (phases (join ts us ! j) ! k)"
    show "indep a b"
    proof (cases "Suc k = n")
      case True
      then have False using ab ij so [of i] so [of j] k by (cases "i = 0"; cases "j = 0") (auto simp: ph)
      then show ?thesis ..
    next
      case False
      then show ?thesis
        using ab ij k race_freeD [OF t(2), of k i j a b] race_freeD [OF u(2), of "Suc k - n" i j a b] len
        by (auto simp: ph split: if_splits)
    qed
  qed
  show "solo (join ts us)" unfolding solo_def l
  proof (intro allI impI)
    fix i assume i: "0 < i" "i < length us"
    have "hd (phases (ts ! i)) = []" "last (phases (ts ! i)) = []" "hd (phases (us ! i)) = []" "last (phases (us ! i)) = []"
      using t(3) u(3) i len by (auto simp: solo_def)
    then have "hd (phases (ts ! i @ us ! i)) = []" "last (phases (ts ! i @ us ! i)) = []"
      by (cases "phases (ts ! i)"; cases "phases (us ! i)"; simp add: phases_append)+
    then show "hd (phases (join ts us ! i)) = [] \<and> last (phases (join ts us ! i)) = []" by (simp add: nth [OF i(2)])
  qed
  have all: "map (\<lambda>t. phases t ! k) (join ts us) = map (\<lambda>i. phases (join ts us ! i) ! k) [0..<length us]" for k
    using l by (intro nth_equalityI) auto
  have c1: "phase_code (join ts us) k = phase_code ts k" if "Suc k < n" for k
    unfolding phase_code_def all using that n len ph
    by (intro arg_cong [of _ _ concat] nth_equalityI) auto
  have c3: "phase_code (join ts us) (n + k) = phase_code us (Suc k)" if "Suc k < m" for k
    unfolding phase_code_def all using that n ph
    by (intro arg_cong [of _ _ concat] nth_equalityI) auto
  have c2: "phase_code (join ts us) (n - 1) = phase_code ts (n - 1) @ phase_code us 0"
  proof -
    have "phase_code (join ts us) (n - 1) = phases (join ts us ! 0) ! (n - 1)"
      using ne n len l so ph by (intro phase_code_solo) (auto simp: join_def)
    moreover have "phase_code ts (n - 1) = phases (ts ! 0) ! (n - 1)" "phase_code us 0 = phases (us ! 0) ! 0"
      using ne so len by (auto intro!: phase_code_solo)
    ultimately show ?thesis using ph [of 0 "n - 1"] n ne by simp
  qed
  obtain n' m' where nm: "n = Suc n'" "m = Suc m'" using n by (cases n; cases m) auto
  have "[0..<n + m - 1] = [0..<n'] @ [n'] @ map (\<lambda>k. n + k) [0..<m']"
    unfolding nm by (rule nth_equalityI) (auto simp: nth_append nth_Cons simp del: upt_Suc split: nat.splits)
  then have "seq_run (n + m - 1) (join ts us) s = fold (\<lambda>k. run (phase_code (join ts us) (n + k))) [0..<m']
      (run (phase_code us 0) (run (phase_code ts n') (fold (\<lambda>k. run (phase_code (join ts us) k)) [0..<n'] s)))"
    using c2 by (simp add: seq_run_def fold_map comp_def nm)
  also have "fold (\<lambda>k. run (phase_code (join ts us) k)) [0..<n'] s = fold (\<lambda>k. run (phase_code ts k)) [0..<n'] s"
    by (intro fold_cong) (auto simp: c1 nm)
  also have "fold (\<lambda>k. run (phase_code (join ts us) (n + k))) [0..<m'] t = fold (\<lambda>k. run (phase_code us (Suc k))) [0..<m'] t" for t
    by (intro fold_cong) (auto simp: c3 [unfolded nm, simplified] nm)
  also have "fold (\<lambda>k. run (phase_code us (Suc k))) [0..<m'] (run (phase_code us 0) t) = seq_run m us t" for t
    unfolding nm seq_run_def by (simp add: upt_conv_Cons fold_map comp_def flip: map_Suc_upt del: upt_Suc)
  finally show "seq_run (n + m - 1) (join ts us) s = seq_run m us (seq_run n ts s)"
    by (simp add: seq_run_def nm)
qed

text \<open>A list of blocks on \<open>w\<close> cores, with the store transformer of each block.\<close>

definition joined :: "nat \<Rightarrow> ev list list list \<Rightarrow> ev list list" where
  "joined w bs = foldr join bs (replicate w [])"

lemma joined_runs:
  assumes "0 < w" "\<And>b. b \<in> set bs \<Longrightarrow> length (B b) = w \<and> matched (N b) (B b) \<and> race_free (N b) (B b) \<and> solo (B b)"
  shows "\<exists>n. length (joined w (map B bs)) = w \<and> matched n (joined w (map B bs)) \<and> race_free n (joined w (map B bs)) \<and> solo (joined w (map B bs))
    \<and> (\<forall>s. seq_run n (joined w (map B bs)) s = fold (\<lambda>b. seq_run (N b) (B b)) bs s)"
  using assms(2)
proof (induction bs)
  case Nil
  have "matched 1 (replicate w [])" "race_free 1 (replicate w [])" "solo (replicate w [])" using assms(1)
    by (auto simp: matched_def race_free_def solo_def)
  moreover have "seq_run 1 (replicate w []) s = s" for s using assms(1) by (intro seq_run_done [OF calculation(1)]) auto
  ultimately show ?case by (intro exI [of _ 1]) (simp add: joined_def)
next
  case (Cons b bs)
  let ?us = "joined w (map B bs)"
  obtain m where m: "length ?us = w" "matched m ?us" "race_free m ?us" "solo ?us" "\<forall>s. seq_run m ?us s = fold (\<lambda>b. seq_run (N b) (B b)) bs s"
    using Cons by auto
  have b: "length (B b) = w" "matched (N b) (B b)" "race_free (N b) (B b)" "solo (B b)" using Cons.prems by auto
  have "length (B b) = length ?us" using b m by simp
  note j = join_blocks [OF b(2-4) m(2-4) this]
  have "joined w (map B (b # bs)) = join (B b) ?us" by (simp add: joined_def)
  then show ?case using j m(1, 5) by (intro exI [of _ "N b + m - 1"]) simp
qed

end
