(* ===== verification/Pipeline.thy ===== *)
theory Pipeline
  imports Cluster_Exec
begin

text \<open>
  The software pipeline the layers of \<open>sw/applications/src/layers\<close> share. While the compute
  cores work on tile \<open>k\<close>, the data mover core writes back tile \<open>k - 1\<close> and fetches tile
  \<open>k + 1\<close> into the other half of the buffers. The locale \<open>pipeline\<close> states what a layer
  has to promise of its parts and shows that every interleaving of the cores produces
  the tiles a single core would produce one after the other.
\<close>

section \<open>The schedule\<close>

text \<open>The data mover core: a prologue, then for each tile load, barrier, and write back of the
  previous tile (at the first tile, \<open>stale\<close>); at last a barrier and the write back of the last tile.\<close>

definition dm_block :: "nat \<Rightarrow> instr list \<Rightarrow> (nat \<Rightarrow> instr list) \<Rightarrow> instr list \<Rightarrow> (nat \<Rightarrow> instr list) \<Rightarrow> ev list" where
  "dm_block n pre ld stale st = map Act pre
     @ concat (map (\<lambda>k. map Act (ld k) @ Bar # map Act (if k = 0 then stale else st (k - 1))) [0..<n])
     @ Bar # map Act (st (n - 1))"

definition core_events :: "nat \<Rightarrow> (nat \<Rightarrow> instr list) \<Rightarrow> ev list" where
  "core_events n cp = concat (map (\<lambda>k. Bar # map Act (cp k)) [0..<n]) @ [Bar]"

lemma phases_tiles:
  "i \<le> n \<Longrightarrow> phases (map Act q @ concat (map (\<lambda>k. map Act (l k) @ Bar # map Act (t k)) [i..<n]) @ Bar # map Act z)
     = (q @ (if i < n then l i else [])) # map (\<lambda>j. t j @ (if Suc j < n then l (Suc j) else [])) [i..<n] @ [z]"
proof (induction "n - i" arbitrary: i q)
  case (Suc d)
  then have i: "i < n" and up: "[i..<n] = i # [Suc i..<n]" by (auto simp: upt_conv_Cons)
  have "phases (map Act q @ concat (map (\<lambda>k. map Act (l k) @ Bar # map Act (t k)) [i..<n]) @ Bar # map Act z)
    = (q @ l i) # phases (map Act (t i) @ concat (map (\<lambda>k. map Act (l k) @ Bar # map Act (t k)) [Suc i..<n]) @ Bar # map Act z)"
    by (simp add: up del: phases_acts_bar)
  also have "\<dots> = (q @ l i) # (t i @ (if Suc i < n then l (Suc i) else []))
      # map (\<lambda>j. t j @ (if Suc j < n then l (Suc j) else [])) [Suc i..<n] @ [z]"
    using Suc by (subst Suc.hyps(1)) auto
  finally show ?case using i by (simp add: up)
qed simp

lemma phases_cores:
  "i \<le> n \<Longrightarrow> phases (map Act q @ concat (map (\<lambda>k. Bar # map Act (p k)) [i..<n]) @ [Bar]) = q # map p [i..<n] @ [[]]"
proof (induction "n - i" arbitrary: i q)
  case (Suc d)
  then have i: "i < n" and up: "[i..<n] = i # [Suc i..<n]" by (auto simp: upt_conv_Cons)
  have "phases (map Act q @ concat (map (\<lambda>k. Bar # map Act (p k)) [i..<n]) @ [Bar])
    = q # phases (map Act (p i) @ concat (map (\<lambda>k. Bar # map Act (p k)) [Suc i..<n]) @ [Bar])"
    by (simp add: up del: phases_acts_bar)
  then show ?case using Suc i by (subst (asm) Suc.hyps(1)) (auto simp: up)
qed simp

definition dm_phase :: "nat \<Rightarrow> instr list \<Rightarrow> (nat \<Rightarrow> instr list) \<Rightarrow> instr list \<Rightarrow> (nat \<Rightarrow> instr list) \<Rightarrow> nat \<Rightarrow> instr list" where
  "dm_phase n pre ld stale st j = (if j = 0 then pre else if j = 1 then stale else st (j - 2)) @ (if j < n then ld j else [])"

lemma dm_phases:
  assumes "0 < n"
  shows "phases (dm_block n pre ld stale st) = map (dm_phase n pre ld stale st) [0..<n + 2]"
proof -
  have "phases (dm_block n pre ld stale st) = (pre @ ld 0) #
      map (\<lambda>j. (if j = 0 then stale else st (j - 1)) @ (if Suc j < n then ld (Suc j) else [])) [0..<n] @ [st (n - 1)]"
    using phases_tiles [of 0 n pre ld "\<lambda>k. if k = 0 then stale else st (k - 1)"] assms by (simp add: dm_block_def)
  also have "\<dots> = dm_phase n pre ld stale st 0 # map (\<lambda>j. dm_phase n pre ld stale st (Suc j)) [0..<n] @ [dm_phase n pre ld stale st (Suc n)]"
    using assms by (auto simp: dm_phase_def)
  also have "\<dots> = map (dm_phase n pre ld stale st) [0..<n + 2]"
  proof -
    have "[0..<n + 2] = 0 # map Suc [0..<n] @ [Suc n]"
      by (rule nth_equalityI) (auto simp: nth_Cons nth_append simp del: upt_Suc split: nat.splits)
    then show ?thesis by simp
  qed
  finally show ?thesis .
qed

lemma core_phases: "phases (core_events n cp) = [] # map cp [0..<n] @ [[]]"
  using phases_cores [of 0 n "[]" cp] by (simp add: core_events_def)

lemma core_phase_nth:
  "j < n + 2 \<Longrightarrow> phases (core_events n cp) ! j = (if 0 < j \<and> j \<le> n then cp (j - 1) else [])"
  by (cases j) (auto simp: core_phases nth_append)

lemma Suc_mod_2: "Suc k mod 2 \<noteq> k mod 2"
  by (simp add: mod_Suc)

section \<open>The contract of a pipeline\<close>

text \<open>
  A classification of the locations: inputs, constants the prologue loads, the input and
  output halves of the buffers (the output by core), the results, and the registers.
\<close>

datatype region = RIn | RCon | RIb nat | ROb nat nat | ROut | RRg nat | ROther

text \<open>
  Tile \<open>k\<close> uses the half \<open>(off + k) mod 2\<close> of the buffers. Besides the tile (\<open>ld\<close>), a load may
  bring in earlier results that no core depends on (\<open>aux\<close>); and behind the first barrier the data mover may
  write back a tile of an earlier pipeline to a place that the last tile will overwrite (\<open>stale\<close>).
\<close>

locale pipeline =
  fixes n P off :: nat and reg :: "loc \<Rightarrow> region"
    and pre :: "instr list" and aux ld :: "nat \<Rightarrow> instr list"
    and cp :: "nat \<Rightarrow> nat \<Rightarrow> instr list" and stale :: "instr list" and st :: "nat \<Rightarrow> instr list"
  assumes tiles: "0 < n"
    and pre_target: "x \<in> targets pre \<Longrightarrow> reg x = RCon"
    and pre_defined: "defined {x. reg x = RIn} pre"
    and aux_target: "k < n \<Longrightarrow> x \<in> targets (aux k) \<Longrightarrow> \<exists>c. reg x = ROb ((off + k) mod 2) c"
    and aux_sources: "k < n \<Longrightarrow> a \<in> set (aux k) \<Longrightarrow> y \<in> set (sources a) \<Longrightarrow> reg y = ROut"
    and ld_target: "k < n \<Longrightarrow> x \<in> targets (ld k) \<Longrightarrow> reg x = RIb ((off + k) mod 2) \<or> (\<exists>c. reg x = ROb ((off + k) mod 2) c)"
    and ld_defined: "k < n \<Longrightarrow> defined {x. reg x = RIn} (ld k)"
    and cp_target: "k < n \<Longrightarrow> c < P \<Longrightarrow> x \<in> targets (cp k c) \<Longrightarrow> reg x = ROb ((off + k) mod 2) c \<or> reg x = RRg c"
    and cp_defined: "k < n \<Longrightarrow> c < P \<Longrightarrow> defined ({x. reg x = RCon} \<union>
          {x \<in> targets (ld k). reg x = RIb ((off + k) mod 2) \<or> reg x = ROb ((off + k) mod 2) c}) (cp k c)"
    and stale_target: "x \<in> targets stale \<Longrightarrow> reg x = ROut \<and> x \<in> targets (st (n - 1))"
    and stale_sources: "a \<in> set stale \<Longrightarrow> y \<in> set (sources a) \<Longrightarrow> \<exists>c. reg y = ROb ((off + 1) mod 2) c"
    and st_target: "k < n \<Longrightarrow> x \<in> targets (st k) \<Longrightarrow> reg x = ROut"
    and st_defined: "k < n \<Longrightarrow> defined {x. \<exists>c<P. x \<in> targets (cp k c) \<and> reg x = ROb ((off + k) mod 2) c} (st k)"
    and st_apart: "k < n \<Longrightarrow> j < n \<Longrightarrow> j \<noteq> k \<Longrightarrow> x \<in> targets (st k) \<Longrightarrow> x \<notin> targets (st j)"
begin

definition half :: "nat \<Rightarrow> nat" where
  "half k = (off + k) mod 2"

lemma half_Suc [simp]: "half (Suc k) \<noteq> half k" "half k \<noteq> half (Suc k)"
  by (simp_all add: half_def mod_Suc)

lemmas h_aux_target = aux_target [folded half_def]
lemmas h_ld_target = ld_target [folded half_def]
lemmas h_cp_target = cp_target [folded half_def]
lemmas h_cp_defined = cp_defined [folded half_def]
lemmas h_st_defined = st_defined [folded half_def]
lemmas h_stale_sources = stale_sources [folded half_def, unfolded One_nat_def]

definition fetch :: "nat \<Rightarrow> instr list" where
  "fetch k = aux k @ ld k"

definition threads :: "ev list list" where
  "threads = dm_block n pre fetch stale st # map (\<lambda>c. core_events n (\<lambda>k. cp k c)) [0..<P]"

definition comps :: "nat \<Rightarrow> instr list" where
  "comps k = concat (map (cp k) [0..<P])"

text \<open>Tile \<open>k\<close> alone, from the store \<open>s\<close>.\<close>

definition alone :: "nat \<Rightarrow> store \<Rightarrow> store" where
  "alone k s = run (st k) (run (comps k) (run (ld k) s))"

lemma comps_target: "k < n \<Longrightarrow> x \<in> targets (comps k) \<Longrightarrow> (\<exists>c<P. x \<in> targets (cp k c) \<and> reg x = ROb (half k) c) \<or> (\<exists>c. reg x = RRg c)"
  using h_cp_target by (fastforce simp: comps_def)

lemma comps_defined: "k < n \<Longrightarrow> defined ({x. reg x = RCon} \<union> targets (ld k)) (comps k)"
  unfolding comps_def by (rule defined_concat) (auto intro!: defined_mono [OF h_cp_defined])

lemma threads_matched: "matched (n + 2) threads"
  using tiles by (auto simp: matched_def threads_def dm_phases core_phases)

lemma threads_phase:
  assumes "j < n + 2"
  shows "phase_code threads j = dm_phase n pre fetch stale st j @ (if 0 < j \<and> j \<le> n then comps (j - 1) else [])"
proof -
  have "concat (map (\<lambda>c. phases (core_events n (\<lambda>k. cp k c)) ! j) [0..<P]) = (if 0 < j \<and> j \<le> n then comps (j - 1) else [])"
    unfolding core_phase_nth [OF assms] comps_def by simp
  moreover have "phases (dm_block n pre fetch stale st) ! j = dm_phase n pre fetch stale st j"
    using assms tiles by (simp add: dm_phases del: upt_Suc)
  ultimately show ?thesis by (simp add: phase_code_def threads_def comp_def)
qed

text \<open>The regions an instruction touches.\<close>

lemma fetch_touches:
  assumes "k < n" "a \<in> set (fetch k)"
  shows "reg (target a) = RIb (half k) \<or> (\<exists>c. reg (target a) = ROb (half k) c)"
    "y \<in> set (sources a) \<Longrightarrow> reg y = RIn \<or> reg y = ROut \<or> reg y = RIb (half k) \<or> (\<exists>c. reg y = ROb (half k) c)"
proof -
  show "reg (target a) = RIb (half k) \<or> (\<exists>c. reg (target a) = ROb (half k) c)"
    using assms h_aux_target [OF assms(1), of "target a"] h_ld_target [OF assms(1), of "target a"] by (auto simp: fetch_def targets_def)
  assume y: "y \<in> set (sources a)"
  show "reg y = RIn \<or> reg y = ROut \<or> reg y = RIb (half k) \<or> (\<exists>c. reg y = ROb (half k) c)"
  proof (cases "a \<in> set (aux k)")
    case True then show ?thesis using aux_sources [OF assms(1) True y] by simp
  next
    case False
    then have "y \<in> {x. reg x = RIn} \<union> targets (ld k)" using defined_sources [OF ld_defined [OF assms(1)], of a] assms(2) y by (auto simp: fetch_def)
    then show ?thesis using h_ld_target [OF assms(1), of y] by auto
  qed
qed

lemma st_touches:
  assumes "k < n" "a \<in> set (st k)"
  shows "reg (target a) = ROut" "y \<in> set (sources a) \<Longrightarrow> reg y = ROut \<or> (\<exists>c. reg y = ROb (half k) c)"
  using defined_sources [OF h_st_defined assms(2)] assms st_target by (auto simp: targets_def)

lemma cp_touches:
  assumes "k < n" "c < P" "a \<in> set (cp k c)"
  shows "reg (target a) = ROb (half k) c \<or> reg (target a) = RRg c"
    "y \<in> set (sources a) \<Longrightarrow> reg y = RCon \<or> reg y = RIb (half k) \<or> reg y = ROb (half k) c \<or> reg y = RRg c"
proof -
  show "reg (target a) = ROb (half k) c \<or> reg (target a) = RRg c"
    using assms h_cp_target by (auto simp: targets_def)
  assume "y \<in> set (sources a)"
  then have "reg y = RCon \<or> reg y = RIb (half k) \<or> reg y = ROb (half k) c \<or> y \<in> targets (cp k c)"
    using defined_sources [OF h_cp_defined assms(3)] assms(1, 2) by auto
  then show "reg y = RCon \<or> reg y = RIb (half k) \<or> reg y = ROb (half k) c \<or> reg y = RRg c"
    using h_cp_target assms by blast
qed

lemma indepI:
  "(\<And>y. y = target a \<or> y \<in> set (sources a) \<Longrightarrow> reg y \<noteq> reg (target b)) \<Longrightarrow>
   (\<And>y. y \<in> set (sources b) \<Longrightarrow> reg y \<noteq> reg (target a)) \<Longrightarrow> indep a b"
  unfolding indep_def by metis

lemma cp_cp_indep:
  assumes "k < n" "c < P" "d < P" "c \<noteq> d" "a \<in> set (cp k c)" "b \<in> set (cp k d)"
  shows "indep a b"
proof (rule indepI)
  fix y assume "y = target a \<or> y \<in> set (sources a)"
  then show "reg y \<noteq> reg (target b)"
    using cp_touches(1) [OF assms(1, 2, 5)] cp_touches(2) [OF assms(1, 2, 5), of y] cp_touches(1) [OF assms(1, 3, 6)] assms(4) by auto
next
  fix y assume "y \<in> set (sources b)"
  then show "reg y \<noteq> reg (target a)"
    using cp_touches(2) [OF assms(1, 3, 6), of y] cp_touches(1) [OF assms(1, 2, 5)] assms(4) by auto
qed

text \<open>What the data mover touches while tile \<open>k\<close> is computed: the other half, inputs and results.\<close>

lemma dm_touches:
  assumes "k < n" "a \<in> set (dm_phase n pre fetch stale st (Suc k))"
  shows "reg (target a) = RIb (half (Suc k)) \<or> (\<exists>c. reg (target a) = ROb (half (Suc k)) c) \<or> reg (target a) = ROut"
    "y \<in> set (sources a) \<Longrightarrow> reg y = RIn \<or> reg y = ROut \<or> reg y = RIb (half (Suc k)) \<or> (\<exists>c. reg y = ROb (half (Suc k)) c)"
proof -
  have h: "half (k - 1) = half (Suc k)" if "0 < k" using that by (cases k) (auto simp: half_def mod_Suc)
  consider "Suc k < n" "a \<in> set (fetch (Suc k))" | "0 < k" "k - 1 < n" "a \<in> set (st (k - 1))" | "k = 0" "a \<in> set stale"
    using assms unfolding dm_phase_def by (cases k) (auto split: if_splits)
  then have "(reg (target a) = RIb (half (Suc k)) \<or> (\<exists>c. reg (target a) = ROb (half (Suc k)) c) \<or> reg (target a) = ROut) \<and>
    (y \<in> set (sources a) \<longrightarrow> reg y = RIn \<or> reg y = ROut \<or> reg y = RIb (half (Suc k)) \<or> (\<exists>c. reg y = ROb (half (Suc k)) c))"
  proof cases
    case 1 then show ?thesis using fetch_touches [OF 1] by blast
  next
    case 2 then show ?thesis using st_touches [OF 2(2, 3)] h [OF 2(1)] by auto
  next
    case 3 then show ?thesis using stale_target [of "target a"] h_stale_sources [of a y] by (auto simp: targets_def)
  qed
  then show "reg (target a) = RIb (half (Suc k)) \<or> (\<exists>c. reg (target a) = ROb (half (Suc k)) c) \<or> reg (target a) = ROut"
    "y \<in> set (sources a) \<Longrightarrow> reg y = RIn \<or> reg y = ROut \<or> reg y = RIb (half (Suc k)) \<or> (\<exists>c. reg y = ROb (half (Suc k)) c)" by auto
qed

lemma dm_cp_indep:
  assumes "k < n" "c < P" "a \<in> set (dm_phase n pre fetch stale st (Suc k))" "b \<in> set (cp k c)"
  shows "indep a b"
proof -
  note a = dm_touches [OF assms(1, 3)] and b = cp_touches [OF assms(1, 2, 4)]
  show ?thesis
  proof (rule indepI)
    fix y assume "y = target a \<or> y \<in> set (sources a)"
    then show "reg y \<noteq> reg (target b)" using a(1) a(2) [of y] b(1) half_Suc [of k] by auto
  next
    fix y assume "y \<in> set (sources b)"
    then show "reg y \<noteq> reg (target a)" using b(2) [of y] a(1) half_Suc [of k] by auto
  qed
qed

lemma threads_race_free: "race_free (n + 2) threads"
  unfolding race_free_def
proof (intro allI impI ballI)
  fix j i i' a b
  assume j: "j < n + 2" and i: "i < length threads" "i' < length threads" "i \<noteq> i'"
    and a: "a \<in> set (phases (threads ! i) ! j)" and b: "b \<in> set (phases (threads ! i') ! j)"
  have dm: "phases (threads ! 0) ! j = dm_phase n pre fetch stale st j"
    using j tiles by (simp add: threads_def dm_phases del: upt_Suc)
  have co: "phases (threads ! Suc c) ! j = (if 0 < j \<and> j \<le> n then cp (j - 1) c else [])" if "c < P" for c
    using core_phase_nth [OF j] that by (simp add: threads_def)
  have len: "length threads = Suc P" by (simp add: threads_def)
  consider c where "i = 0" "i' = Suc c" "c < P" | c where "i = Suc c" "i' = 0" "c < P"
    | c d where "i = Suc c" "i' = Suc d" "c < P" "d < P" "c \<noteq> d"
    using i len by (cases i; cases i') auto
  then show "indep a b"
  proof cases
    case (1 c) then show ?thesis using a b dm co dm_cp_indep [of "j - 1" c a b] by (auto split: if_splits)
  next
    case (2 c) then show ?thesis using a b dm co dm_cp_indep [of "j - 1" c b a] by (auto split: if_splits intro: indep_sym)
  next
    case (3 c d) then show ?thesis using a b co cp_cp_indep [of "j - 1" c d a b] by (auto split: if_splits)
  qed
qed

text \<open>The store after the phases \<open>0 \<dots> j\<close>.\<close>

definition upto :: "nat \<Rightarrow> store \<Rightarrow> store" where
  "upto j s = fold (\<lambda>k. run (phase_code threads k)) [0..<Suc j] s"

lemma upto_Suc: "upto (Suc j) s = run (phase_code threads (Suc j)) (upto j s)"
  by (simp add: upto_def)

definition fetched :: "nat \<Rightarrow> store \<Rightarrow> store \<Rightarrow> bool" where
  "fetched k s t \<longleftrightarrow> (\<forall>x. reg x = RIn \<or> reg x = RCon \<longrightarrow> t x = run pre s x)
     \<and> (k < n \<longrightarrow> (\<forall>x\<in>targets (ld k). t x = run (ld k) (run pre s) x))"

definition computed :: "nat \<Rightarrow> store \<Rightarrow> store \<Rightarrow> bool" where
  "computed k s t \<longleftrightarrow> (\<forall>x\<in>targets (comps k). t x = run (comps k) (run (ld k) (run pre s)) x)"

definition stored :: "nat \<Rightarrow> store \<Rightarrow> store \<Rightarrow> bool" where
  "stored j s t \<longleftrightarrow> (\<forall>k<j. \<forall>x\<in>targets (st k). t x = alone k (run pre s) x)
     \<and> (\<forall>x. reg x = ROut \<or> reg x = ROther \<longrightarrow> (\<forall>k<n. x \<notin> targets (st k)) \<longrightarrow> t x = s x)"

lemma stored_mono:
  assumes "stored j s t" "\<And>x. reg x = ROut \<or> reg x = ROther \<Longrightarrow> u x = t x" "j \<le> n"
  shows "stored j s u"
  unfolding stored_def
proof (intro conjI allI impI ballI)
  fix k x assume "k < j" "x \<in> targets (st k)"
  then show "u x = alone k (run pre s) x"
    using assms(1) assms(2) [of x] st_target [of k x] assms(3) by (simp add: stored_def)
next
  fix x assume "reg x = ROut \<or> reg x = ROther" "\<forall>k<n. x \<notin> targets (st k)"
  then show "u x = s x" using assms(1) assms(2) [of x] by (auto simp: stored_def)
qed

lemma store_next:
  assumes "stored j s t" "computed j s t" "j < n"
  shows "stored (Suc j) s (run (st j) t)"
  unfolding stored_def
proof (intro conjI allI impI ballI)
  fix k x assume k: "k < Suc j" and x: "x \<in> targets (st k)"
  show "run (st j) t x = alone k (run pre s) x"
  proof (cases "k = j")
    case True
    have "run (st j) t x = run (st j) (run (comps j) (run (ld j) (run pre s))) x"
    proof (rule defined_agree [OF h_st_defined [OF assms(3)]])
      fix y assume "y \<in> {x. \<exists>c<P. x \<in> targets (cp j c) \<and> reg x = ROb (half j) c}"
      then have "y \<in> targets (comps j)" by (auto simp: comps_def)
      then show "t y = run (comps j) (run (ld j) (run pre s)) y" using assms(2) by (simp add: computed_def)
    qed (use x True in simp)
    then show ?thesis by (simp add: alone_def True)
  next
    case False
    then show ?thesis using run_other [of x "st j" t] st_apart [of k j x] assms x k by (auto simp: stored_def)
  qed
next
  fix x assume "reg x = ROut \<or> reg x = ROther" "\<forall>k<n. x \<notin> targets (st k)"
  then show "run (st j) t x = s x" using run_other [of x "st j" t] assms(1, 3) by (auto simp: stored_def)
qed

lemma run_fetch:
  assumes "k < n"
  shows "(\<And>c. reg x \<noteq> ROb (half k) c) \<Longrightarrow> reg x \<noteq> RIb (half k) \<Longrightarrow> run (fetch k) s x = s x"
    "(\<And>x. reg x = RIn \<Longrightarrow> s x = t x) \<Longrightarrow> x \<in> targets (ld k) \<Longrightarrow> run (fetch k) s x = run (ld k) t x"
proof -
  show "run (fetch k) s x = s x" if "\<And>c. reg x \<noteq> ROb (half k) c" "reg x \<noteq> RIb (half k)"
    using that h_aux_target [OF assms, of x] h_ld_target [OF assms, of x] by (intro run_other) (auto simp: fetch_def)
  assume a: "\<And>x. reg x = RIn \<Longrightarrow> s x = t x" "x \<in> targets (ld k)"
  have "run (aux k) s y = t y" if "reg y = RIn" for y
    using that a(1) h_aux_target [OF assms, of y] by (subst run_other) auto
  then show "run (fetch k) s x = run (ld k) t x"
    using a(2) unfolding fetch_def run_simps by (intro defined_agree [OF ld_defined [OF assms]]) auto
qed

lemma upto_0: "fetched 0 s (upto 0 s)" "stored 0 s (upto 0 s)"
proof -
  have u: "upto 0 s = run (fetch 0) (run pre s)" using tiles by (simp add: upto_def threads_phase dm_phase_def)
  have "run pre s x = s x" if "reg x \<noteq> RCon" for x
    using that pre_target by (auto intro: run_other)
  then show "fetched 0 s (upto 0 s)" "stored 0 s (upto 0 s)"
    using run_fetch(1) [OF tiles, of _ "run pre s"] run_fetch(2) [OF tiles, of "run pre s" "run pre s"]
    by (auto simp: fetched_def stored_def u)
qed

text \<open>One phase of the pipeline: tile \<open>j - 1\<close> is written back, tile \<open>j + 1\<close> fetched and tile \<open>j\<close> computed.\<close>

lemma fetch_compute:
  assumes "fetched j s t" "j < n"
  defines "t2 \<equiv> run (if Suc j < n then fetch (Suc j) else []) t"
  shows "fetched (Suc j) s (run (comps j) t2)" "computed j s (run (comps j) t2)"
    "\<And>x. reg x = ROut \<or> reg x = ROther \<Longrightarrow> run (comps j) t2 x = t x"
proof -
  have t2: "t2 x = t x" if "reg x \<noteq> RIb (half (Suc j))" "\<And>c. reg x \<noteq> ROb (half (Suc j)) c" for x
    using that run_fetch(1) [of "Suc j" x t] by (auto simp: t2_def)
  have rc: "run (comps j) u x = u x" if "\<And>c. reg x \<noteq> ROb (half j) c" "\<And>c. reg x \<noteq> RRg c" for u x
    using that comps_target [OF assms(2), of x] run_other [of x "comps j" u] by blast
  have io: "t2 x = run pre s x" if "reg x = RIn \<or> reg x = RCon" for x
    using that t2 [of x] assms(1) by (auto simp: fetched_def)
  have "t2 x = run (ld (Suc j)) (run pre s) x" if "Suc j < n" "x \<in> targets (ld (Suc j))" for x
    using run_fetch(2) [OF that(1), of t "run pre s" x] that assms(1) by (auto simp: t2_def fetched_def)
  moreover have "run (comps j) t2 x = t2 x" if "Suc j < n" "x \<in> targets (ld (Suc j))" for x
    using h_ld_target [OF that] half_Suc [of j] by (intro rc) auto
  ultimately show "fetched (Suc j) s (run (comps j) t2)"
    using io rc [of _ t2] by (auto simp: fetched_def)
  have "t2 x = run (ld j) (run pre s) x" if "x \<in> {x. reg x = RCon} \<union> targets (ld j)" for x
  proof (cases "x \<in> targets (ld j)")
    case True
    have "t2 x = t x" using h_ld_target [OF assms(2) True] half_Suc [of j] by (intro t2) auto
    then show ?thesis using assms(1, 2) True by (simp add: fetched_def)
  next
    case False then show ?thesis using that io [of x] run_other [of x "ld j"] by simp
  qed
  then show "computed j s (run (comps j) t2)"
    using defined_agree [OF comps_defined [OF assms(2)], of t2 "run (ld j) (run pre s)"] by (simp add: computed_def)
  show "run (comps j) t2 x = t x" if "reg x = ROut \<or> reg x = ROther" for x
    using that rc [of x t2] t2 [of x] by auto
qed

lemma fetched_stores:
  assumes "fetched j s t" "j \<le> n" "\<And>x. reg x \<noteq> ROut \<Longrightarrow> u x = t x"
  shows "fetched j s u"
  using assms(1, 3) h_ld_target [of j] by (fastforce simp: fetched_def)

lemma upto_phase:
  "j < n \<Longrightarrow> fetched (Suc j) s (upto (Suc j) s) \<and> computed j s (upto (Suc j) s) \<and> stored j s (upto (Suc j) s)"
proof (induction j)
  case 0
  let ?t = "run stale (upto 0 s)"
  have st: "?t x = upto 0 s x" if "reg x \<noteq> ROut \<or> (\<forall>k<n. x \<notin> targets (st k))" for x
    using that stale_target [of x] tiles by (intro run_other) auto
  have "upto 1 s = run (comps 0) (run (if Suc 0 < n then fetch (Suc 0) else []) ?t)"
    using 0 by (simp add: upto_Suc threads_phase dm_phase_def)
  moreover have "fetched 0 s ?t" by (rule fetched_stores [OF upto_0(1)]) (auto intro: st)
  moreover have "stored 0 s ?t" using upto_0(2) st by (auto simp: stored_def)
  ultimately show ?case using fetch_compute [of 0 s ?t] 0 stored_mono [of 0 s ?t] by simp
next
  case (Suc j)
  let ?t = "run (st j) (upto (Suc j) s)"
  have IH: "fetched (Suc j) s (upto (Suc j) s)" "stored (Suc j) s ?t"
    using Suc store_next by auto
  have "upto (Suc (Suc j)) s = run (comps (Suc j)) (run (if Suc (Suc j) < n then fetch (Suc (Suc j)) else []) ?t)"
    using Suc.prems by (simp add: upto_Suc [of "Suc j"] threads_phase dm_phase_def)
  moreover have "fetched (Suc j) s ?t"
    using st_target [of j] Suc.prems by (intro fetched_stores [OF IH(1)]) (auto intro: run_other)
  ultimately show ?case
    using fetch_compute [of "Suc j" s ?t] Suc.prems stored_mono [OF IH(2)] by simp
qed

lemma pipeline_result:
  "stored n s (seq_run (n + 2) threads s)" "reg x = RIn \<Longrightarrow> seq_run (n + 2) threads s x = s x"
proof -
  have "seq_run (n + 2) threads s = upto (Suc n) s" by (simp add: seq_run_def upto_def)
  also have "\<dots> = run (st (n - 1)) (upto n s)"
    using tiles by (simp add: upto_Suc threads_phase dm_phase_def)
  finally have u: "seq_run (n + 2) threads s = run (st (n - 1)) (upto n s)" .
  have p: "fetched n s (upto n s)" "computed (n - 1) s (upto n s)" "stored (n - 1) s (upto n s)"
    using upto_phase [of "n - 1" s] tiles by simp_all
  show "stored n s (seq_run (n + 2) threads s)"
    unfolding u using store_next [OF p(3, 2)] tiles by simp
  show "seq_run (n + 2) threads s x = s x" if "reg x = RIn"
  proof -
    have "run (st (n - 1)) (upto n s) x = upto n s x" using that st_target [of "n - 1" x] tiles by (intro run_other) auto
    moreover have "run pre s x = s x" using that pre_target by (intro run_other) auto
    ultimately show ?thesis unfolding u using that p(1) by (simp add: fetched_def)
  qed
qed

text \<open>Every run of the cores is bounded and ends with every tile stored, the rest of the results untouched.\<close>

lemma pipeline_runs:
  assumes "(cstep ^^ k) (s, threads) x"
  shows "k \<le> events threads" "final x \<or> (\<exists>y. cstep x y)" "final x \<Longrightarrow> stored n s (fst x)"
  using race_free_runs [OF threads_matched threads_race_free assms] pipeline_result(1) [of s] by auto

lemma threads_solo: "solo threads" "length threads = Suc P"
proof -
  show "length threads = Suc P" by (simp add: threads_def)
  show "solo threads" unfolding solo_def
  proof (intro allI impI)
    fix i assume "0 < i" "i < length threads"
    then obtain c where "threads ! i = core_events n (\<lambda>k. cp k c)" by (cases i) (auto simp: threads_def)
    then show "hd (phases (threads ! i)) = [] \<and> last (phases (threads ! i)) = []" by (simp add: core_phases)
  qed
qed

end

section \<open>Pipelines in sequence\<close>

lemma upt_split: "b < n \<Longrightarrow> [0..<n] = [0..<b] @ b # [Suc b..<n]"
  using upt_add_eq_append [of 0 b "n - b"] by (simp add: upt_conv_Cons)

text \<open>A layer that runs \<open>B\<close> pipelines of \<open>n\<close> tiles one after the other, on alternating halves throughout.\<close>

locale pipeline_series =
  fixes ok :: "'l \<Rightarrow> bool" and B n P :: "'l \<Rightarrow> nat" and reg :: "'l \<Rightarrow> loc \<Rightarrow> region"
    and pre :: "'l \<Rightarrow> nat \<Rightarrow> instr list" and aux ld :: "'l \<Rightarrow> nat \<Rightarrow> nat \<Rightarrow> instr list"
    and cp :: "'l \<Rightarrow> nat \<Rightarrow> nat \<Rightarrow> nat \<Rightarrow> instr list" and stale :: "'l \<Rightarrow> nat \<Rightarrow> instr list" and st :: "'l \<Rightarrow> nat \<Rightarrow> nat \<Rightarrow> instr list"
  assumes contract: "ok l \<Longrightarrow> b < B l \<Longrightarrow>
    pipeline (n l) (P l) (b * n l) (reg l) (pre l b) (aux l b) (ld l b) (cp l b) (stale l b) (st l b)"
begin

definition block :: "'l \<Rightarrow> nat \<Rightarrow> ev list list" where
  "block l b = dm_block (n l) (pre l b) (\<lambda>k. aux l b k @ ld l b k) (stale l b) (st l b)
     # map (\<lambda>c. core_events (n l) (\<lambda>k. cp l b k c)) [0..<P l]"

definition tile_alone :: "'l \<Rightarrow> nat \<Rightarrow> nat \<Rightarrow> store \<Rightarrow> store" where
  "tile_alone l b k s = run (st l b k) (run (concat (map (cp l b k) [0..<P l])) (run (ld l b k) (run (pre l b) s)))"

definition after_block :: "'l \<Rightarrow> nat \<Rightarrow> store \<Rightarrow> store" where
  "after_block l b = seq_run (n l + 2) (block l b)"

lemma block_threads:
  assumes "ok l" "b < B l"
  shows "pipeline.threads (n l) (P l) (pre l b) (aux l b) (ld l b) (cp l b) (stale l b) (st l b) = block l b"
  by (simp add: pipeline.threads_def [OF contract [OF assms]] pipeline.fetch_def [OF contract [OF assms], abs_def] block_def)

lemma block_result:
  assumes "ok l" "b < B l"
  shows "k < n l \<Longrightarrow> x \<in> targets (st l b k) \<Longrightarrow> after_block l b s x = tile_alone l b k s x"
    "reg l x = ROut \<Longrightarrow> (\<And>k. k < n l \<Longrightarrow> x \<notin> targets (st l b k)) \<Longrightarrow> after_block l b s x = s x"
    "reg l x = RIn \<Longrightarrow> after_block l b s x = s x"
proof -
  note p = contract [OF assms] and t = block_threads [OF assms]
  have s: "pipeline.stored (n l) (P l) (reg l) (pre l b) (ld l b) (cp l b) (st l b) (n l) s (after_block l b s)"
    unfolding after_block_def using pipeline.pipeline_result(1) [OF p, unfolded t, of s] .
  show "after_block l b s x = tile_alone l b k s x" if "k < n l" "x \<in> targets (st l b k)"
    using s that by (simp add: pipeline.stored_def [OF p] pipeline.alone_def [OF p] pipeline.comps_def [OF p] tile_alone_def)
  show "after_block l b s x = s x" if "reg l x = ROut" "\<And>k. k < n l \<Longrightarrow> x \<notin> targets (st l b k)"
    using s that by (simp add: pipeline.stored_def [OF p])
  show "after_block l b s x = s x" if "reg l x = RIn"
    unfolding after_block_def using pipeline.pipeline_result(2) [OF p that, unfolded t, of s] .
qed

lemma after_blocks:
  assumes "ok l" "\<And>b. b \<in> set bs \<Longrightarrow> b < B l"
  shows "reg l x = RIn \<Longrightarrow> fold (after_block l) bs s x = s x"
    "reg l x = ROut \<Longrightarrow> (\<And>b k. b \<in> set bs \<Longrightarrow> k < n l \<Longrightarrow> x \<notin> targets (st l b k)) \<Longrightarrow> fold (after_block l) bs s x = s x"
proof -
  show "fold (after_block l) bs s x = s x" if "reg l x = RIn"
    using assms(2) that by (induction bs arbitrary: s) (simp_all add: block_result(3) [OF assms(1)])
  show "fold (after_block l) bs s x = s x" if "reg l x = ROut" "\<And>b k. b \<in> set bs \<Longrightarrow> k < n l \<Longrightarrow> x \<notin> targets (st l b k)"
    using assms(2) that(2) that(1) by (induction bs arbitrary: s) (simp_all add: block_result(2) [OF assms(1)])
qed

text \<open>A result is that of the last block that stores it.\<close>

lemma last_block:
  assumes "ok l" "b < B l" "k < n l" "x \<in> targets (st l b k)" "reg l x = ROut"
    and "\<And>b' k'. b < b' \<Longrightarrow> b' < B l \<Longrightarrow> k' < n l \<Longrightarrow> x \<notin> targets (st l b' k')"
  shows "fold (after_block l) [0..<B l] s x = tile_alone l b k (fold (after_block l) [0..<b] s) x"
proof -
  have "[0..<B l] = [0..<b] @ b # [Suc b..<B l]" using assms(2) by (rule upt_split)
  then show ?thesis
    using after_blocks(2) [OF assms(1), of "[Suc b..<B l]" x] assms(5, 6) block_result(1) [OF assms(1-4)] by simp
qed

lemma series_runs:
  assumes "ok l" "(cstep ^^ j) (s, joined (Suc (P l)) (map (block l) [0..<B l])) x"
  shows "j \<le> events (joined (Suc (P l)) (map (block l) [0..<B l]))" "final x \<or> (\<exists>y. cstep x y)"
    "final x \<Longrightarrow> fst x = fold (after_block l) [0..<B l] s"
proof -
  have b: "length (block l b) = Suc (P l) \<and> matched (n l + 2) (block l b) \<and> race_free (n l + 2) (block l b) \<and> solo (block l b)"
    if "b \<in> set [0..<B l]" for b
  proof -
    have "b < B l" using that by simp
    note p = contract [OF assms(1) this] and t = block_threads [OF assms(1) this]
    show ?thesis using pipeline.threads_matched [OF p, unfolded t] pipeline.threads_race_free [OF p, unfolded t]
        pipeline.threads_solo [OF p, unfolded t] by simp
  qed
  obtain N where N: "matched N (joined (Suc (P l)) (map (block l) [0..<B l]))" "race_free N (joined (Suc (P l)) (map (block l) [0..<B l]))"
    "\<forall>s. seq_run N (joined (Suc (P l)) (map (block l) [0..<B l])) s = fold (\<lambda>b. seq_run (n l + 2) (block l b)) [0..<B l] s"
    using joined_runs [of "Suc (P l)" "[0..<B l]" "block l" "\<lambda>_. n l + 2"] b by blast
  show "j \<le> events (joined (Suc (P l)) (map (block l) [0..<B l]))" "final x \<or> (\<exists>y. cstep x y)"
    "final x \<Longrightarrow> fst x = fold (after_block l) [0..<B l] s"
    using race_free_runs [OF N(1, 2) assms(2)] N(3) by (simp_all add: after_block_def [abs_def])
qed

end

end
