(* ===== verification/Double_Buffer.thy ===== *)
theory Double_Buffer
  imports Pipeline
begin

text \<open>
  Layers that are one pipeline from the first half of the buffers on, without earlier results:
  the locale \<open>double_buffer\<close> states what such a layer promises, which gives the contract of
  \<open>pipeline\<close>, and \<open>buffered_layer\<close> what a layer promises for all its admissible parameters.
\<close>

section \<open>The contract of a layer\<close>

definition dm_events :: "nat \<Rightarrow> instr list \<Rightarrow> (nat \<Rightarrow> instr list) \<Rightarrow> (nat \<Rightarrow> instr list) \<Rightarrow> ev list" where
  "dm_events n pre ld st = dm_block n pre ld [] st"

locale double_buffer =
  fixes n P :: nat and reg :: "loc \<Rightarrow> region"
    and pre :: "instr list" and ld :: "nat \<Rightarrow> instr list"
    and cp :: "nat \<Rightarrow> nat \<Rightarrow> instr list" and st :: "nat \<Rightarrow> instr list"
  assumes tiles: "0 < n"
    and pre_target: "x \<in> targets pre \<Longrightarrow> reg x = RCon"
    and pre_defined: "defined {x. reg x = RIn} pre"
    and ld_target: "k < n \<Longrightarrow> x \<in> targets (ld k) \<Longrightarrow> reg x = RIb (k mod 2)"
    and ld_defined: "k < n \<Longrightarrow> defined {x. reg x = RIn} (ld k)"
    and cp_target: "k < n \<Longrightarrow> c < P \<Longrightarrow> x \<in> targets (cp k c) \<Longrightarrow> reg x = ROb (k mod 2) c \<or> reg x = RRg c"
    and cp_defined: "k < n \<Longrightarrow> c < P \<Longrightarrow> defined ({x. reg x = RCon} \<union> targets (ld k)) (cp k c)"
    and st_target: "k < n \<Longrightarrow> x \<in> targets (st k) \<Longrightarrow> reg x = ROut"
    and st_defined: "k < n \<Longrightarrow> defined {x. \<exists>c<P. x \<in> targets (cp k c) \<and> reg x = ROb (k mod 2) c} (st k)"
    and st_apart: "k < n \<Longrightarrow> j < n \<Longrightarrow> j \<noteq> k \<Longrightarrow> x \<in> targets (st k) \<Longrightarrow> x \<notin> targets (st j)"
begin

end

sublocale double_buffer \<subseteq> pl: pipeline n P 0 reg pre "\<lambda>_. []" ld cp "[]" st
proof
  show "0 < n" by (rule tiles)
  show "\<And>x. x \<in> targets pre \<Longrightarrow> reg x = RCon" "defined {x. reg x = RIn} pre" by (fact pre_target pre_defined)+
  show "\<And>k x. k < n \<Longrightarrow> x \<in> targets (ld k) \<Longrightarrow> reg x = RIb ((0 + k) mod 2) \<or> (\<exists>c. reg x = ROb ((0 + k) mod 2) c)"
    using ld_target by simp
  show "\<And>k. k < n \<Longrightarrow> defined {x. reg x = RIn} (ld k)" by (rule ld_defined)
  show "\<And>k c x. k < n \<Longrightarrow> c < P \<Longrightarrow> x \<in> targets (cp k c) \<Longrightarrow> reg x = ROb ((0 + k) mod 2) c \<or> reg x = RRg c"
    using cp_target by simp
  show "defined ({x. reg x = RCon} \<union> {x \<in> targets (ld k). reg x = RIb ((0 + k) mod 2) \<or> reg x = ROb ((0 + k) mod 2) c}) (cp k c)"
    if "k < n" "c < P" for k c
    using ld_target [OF that(1)] by (intro defined_mono [OF cp_defined [OF that]]) auto
  show "\<And>k x. k < n \<Longrightarrow> x \<in> targets (st k) \<Longrightarrow> reg x = ROut" by (rule st_target)
  show "\<And>k. k < n \<Longrightarrow> defined {x. \<exists>c<P. x \<in> targets (cp k c) \<and> reg x = ROb ((0 + k) mod 2) c} (st k)"
    using st_defined by simp
  show "\<And>k j x. k < n \<Longrightarrow> j < n \<Longrightarrow> j \<noteq> k \<Longrightarrow> x \<in> targets (st k) \<Longrightarrow> x \<notin> targets (st j)" by (rule st_apart)
qed simp_all

context double_buffer
begin

lemma as_pipeline: "pipeline n P 0 reg pre (\<lambda>_. []) ld cp [] st"
  by unfold_locales

end

section \<open>Layers that follow the schedule\<close>

text \<open>A layer for which the contract holds whenever its parameters are admissible.\<close>

locale buffered_layer =
  fixes ok :: "'l \<Rightarrow> bool" and n P :: "'l \<Rightarrow> nat" and reg :: "'l \<Rightarrow> loc \<Rightarrow> region"
    and pre :: "'l \<Rightarrow> instr list" and ld :: "'l \<Rightarrow> nat \<Rightarrow> instr list"
    and cp :: "'l \<Rightarrow> nat \<Rightarrow> nat \<Rightarrow> instr list" and st :: "'l \<Rightarrow> nat \<Rightarrow> instr list"
  assumes contract: "ok l \<Longrightarrow> double_buffer (n l) (P l) (reg l) (pre l) (ld l) (cp l) (st l)"
begin

definition cores :: "'l \<Rightarrow> ev list list" where
  "cores l = dm_events (n l) (pre l) (ld l) (st l) # map (\<lambda>c. core_events (n l) (\<lambda>k. cp l k c)) [0..<P l]"

definition tile_alone :: "'l \<Rightarrow> nat \<Rightarrow> store \<Rightarrow> store" where
  "tile_alone l k s = run (st l k) (run (concat (map (cp l k) [0..<P l])) (run (ld l k) (run (pre l) s)))"

lemma layer_runs:
  assumes "ok l" "(cstep ^^ j) (s, cores l) x"
  shows "j \<le> events (cores l)" "final x \<or> (\<exists>y. cstep x y)"
    "final x \<Longrightarrow> k < n l \<Longrightarrow> y \<in> targets (st l k) \<Longrightarrow> fst x y = tile_alone l k s y"
    "final x \<Longrightarrow> reg l y = ROut \<or> reg l y = ROther \<Longrightarrow> (\<And>k. k < n l \<Longrightarrow> y \<notin> targets (st l k)) \<Longrightarrow> fst x y = s y"
proof -
  note db = contract [OF assms(1)]
  note pl = double_buffer.as_pipeline [OF db]
  have t: "pipeline.threads (n l) (P l) (pre l) (\<lambda>_. []) (ld l) (cp l) [] (st l) = cores l"
    by (simp add: pipeline.threads_def [OF pl] pipeline.fetch_def [OF pl, abs_def] cores_def dm_events_def)
  note r = pipeline.pipeline_runs [OF pl, unfolded t, OF assms(2)]
  show "j \<le> events (cores l)" "final x \<or> (\<exists>y. cstep x y)" by (fact r)+
  show "fst x y = tile_alone l k s y" if "final x" "k < n l" "y \<in> targets (st l k)"
    using r(3) that by (simp add: pipeline.stored_def [OF pl] pipeline.alone_def [OF pl]
        pipeline.comps_def [OF pl] tile_alone_def)
  show "fst x y = s y" if "final x" "reg l y = ROut \<or> reg l y = ROther" "\<And>k. k < n l \<Longrightarrow> y \<notin> targets (st l k)"
    using r(3) that by (auto simp: pipeline.stored_def [OF pl])
qed

end

end
