(* ===== verification/Layers.thy ===== *)
theory Layers
  imports Double_Buffer "HOL-Library.Monad_Syntax"
begin

text \<open>
  What the layers of \<open>sw/applications/src/layers\<close> share: the layer descriptor of
  \<open>sw/applications/include/layer.h\<close>, the values a layer reads from the runtime, the strided
  \<open>uint32_t\<close> loops, and the DMA transfers as assignments of doubles. Every pointer of these
  functions is a \<open>double *\<close>: it is modelled by the index of its double, and an index
  expression of the code stays a 32-bit word.
\<close>

section \<open>Descriptors\<close>

datatype precision_t = FP64 | FP32 | FP16 | FP8

record conv_layer =
  CO :: u32
  CI :: u32
  IH :: u32
  IW :: u32
  OH :: u32
  OW :: u32
  FH :: u32
  FW :: u32
  pad :: u32
  l_ifmap :: nat
  l_weights :: nat
  l_ofmap :: nat
  TILE_CI :: u32
  cluster2cluster :: u32
  im2col_flag :: u32
  l_gamma :: nat
  l_beta :: nat
  dtype :: precision_t

text \<open>The layer and the values of \<open>snrt_cluster_memory().start\<close>, \<open>snrt_cluster_num\<close>, \<open>snrt_cluster_idx\<close>
  and \<open>snrt_cluster_compute_core_num\<close>.\<close>

record layer_ctx =
  lay :: conv_layer
  tcdm :: nat
  cluster_num :: u32
  cluster_id :: u32
  compute_num :: u32

text \<open>C's \<open>!x\<close>, which toggles the buffers.\<close>

definition lnot :: "u32 \<Rightarrow> u32" where
  "lnot x = (if x = 0 then 1 else 0)"

definition buf :: "nat \<Rightarrow> u32" where
  "buf k = of_nat (k mod 2)"

lemma lnot_buf [simp]: "lnot (buf k) = buf (Suc k)"
  by (auto simp: lnot_def buf_def mod_Suc)

lemma buf_2 [simp]: "buf (Suc (Suc k)) = buf k" "buf 0 = 0"
  by (auto simp: buf_def)

section \<open>Strided loops\<close>

text \<open>
  The values of the counter of \<open>for (uint32_t a = \<dots>; a < n; a += d)\<close>; \<open>None\<close> when the counter
  would pass \<open>2 ^ 32\<close> before the loop ends.
\<close>

function for_range :: "u32 \<Rightarrow> u32 \<Rightarrow> u32 \<Rightarrow> u32 list option" where
  "for_range a n d = (if \<not> a < n then Some [] else if a + d \<le> a then None
     else map_option (Cons a) (for_range (a + d) n d))"
  by auto
termination
  by (relation "measure (\<lambda>(a, n, d). unat n - unat a)") (auto simp: word_less_nat_alt not_le)

declare for_range.simps [simp del]

definition trips :: "nat \<Rightarrow> nat \<Rightarrow> nat \<Rightarrow> nat" where
  "trips a n d = (n - a + d - 1) div d"

lemma less_trips:
  assumes "0 < d"
  shows "i < trips a n d \<longleftrightarrow> a + i * d < n"
proof -
  have "i < trips a n d \<longleftrightarrow> Suc i * d \<le> n - a + d - 1"
    using assms by (simp only: trips_def Suc_le_eq [symmetric] less_eq_div_iff_mult_less_eq)
  also have "\<dots> \<longleftrightarrow> a + i * d < n" using assms by auto
  finally show ?thesis .
qed

lemma trips_step:
  assumes "0 < d" "a < n"
  shows "trips a n d = Suc (trips (a + d) n d)"
proof -
  have "i < trips a n d \<longleftrightarrow> i < Suc (trips (a + d) n d)" for i
    using assms by (cases i) (auto simp: less_trips algebra_simps)
  then show ?thesis by (metis less_irrefl linorder_neqE_nat)
qed

lemma for_range_trips:
  assumes "0 < d" "unat n + unat d \<le> 2 ^ 32"
  shows "for_range a n d = Some (map (\<lambda>i. a + of_nat i * d) [0..<trips (unat a) (unat n) (unat d)])"
  using assms
proof (induction a n d rule: for_range.induct)
  case (1 a n d)
  show ?case
  proof (cases "a < n")
    case False
    then have "trips (unat a) (unat n) (unat d) = 0" using 1(2)
      by (simp add: trips_def word_less_nat_alt word_gt_0)
    then show ?thesis using False by (subst for_range.simps) simp
  next
    case True
    have u: "unat (a + d) = unat a + unat d" using True 1(3) by (intro unat_plus_no_overflow) (simp add: word_less_nat_alt)
    have nw: "\<not> a + d \<le> a" using u 1(2) by (simp add: word_le_nat_alt word_gt_0 unat_gt_0)
    have "trips (unat a) (unat n) (unat d) = Suc (trips (unat (a + d)) (unat n) (unat d))"
      using True 1(2) u by (simp add: trips_step word_less_nat_alt unat_gt_0 word_gt_0)
    then show ?thesis using 1(1) [OF _ nw] 1(2, 3) True nw
      by (subst for_range.simps) (simp add: upt_conv_Cons comp_def algebra_simps flip: map_Suc_upt del: upt_Suc)
  qed
qed

lemma trips_dvd:
  assumes "0 < d" "d dvd n"
  shows "trips 0 n d = n div d"
proof -
  obtain q where "n = d * q" using assms(2) by (elim dvdE)
  then have "i < trips 0 n d \<longleftrightarrow> i < n div d" for i
    using assms(1) by (auto simp: less_trips mult.commute)
  then show ?thesis by (metis less_irrefl linorder_neqE_nat)
qed

section \<open>Transfers\<close>

text \<open>
  \<open>snrt_dma_start_1d\<close> and \<open>snrt_dma_start_2d\<close> on doubles: sizes and strides are in bytes. A
  transfer takes place between its start and the next \<open>snrt_dma_wait_all\<close>, in the order of the
  starts; the assignments of the transfer stand for the engine's accesses.
\<close>

definition dma_1d :: "nat \<Rightarrow> nat \<Rightarrow> u32 \<Rightarrow> instr list" where
  "dma_1d dst src sz = map (\<lambda>i. Asg (M (dst + i)) hd [M (src + i)]) [0..<unat sz div 8]"

definition dma_2d :: "nat \<Rightarrow> nat \<Rightarrow> u32 \<Rightarrow> u32 \<Rightarrow> u32 \<Rightarrow> u32 \<Rightarrow> instr list" where
  "dma_2d dst src sz dst_stride src_stride repeat = concat (map (\<lambda>r.
     dma_1d (dst + r * (unat dst_stride div 8)) (src + r * (unat src_stride div 8)) sz) [0..<unat repeat])"

text \<open>The 32-bit address of a double, and the double at an address.\<close>

definition ptr32 :: "nat \<Rightarrow> u32" where
  "ptr32 p = of_nat (8 * p)"

definition cell_at :: "u32 \<Rightarrow> loc" where
  "cell_at a = M (unat a div 8)"

text \<open>\<open>dma_memset\<close> with the value zero: the first eight doubles by the core, then the engine copies them on.\<close>

definition dma_zero :: "nat \<Rightarrow> u32 \<Rightarrow> instr list" where
  "dma_zero dst len = map (\<lambda>i. Asg (M (dst + i)) (\<lambda>_. 0) []) [0..<8] @ dma_2d dst dst 64 64 0 (len div 64)"

text \<open>Copies of \<open>n\<close> doubles and of \<open>m\<close> rows of \<open>n\<close> doubles.\<close>

definition copy_row :: "nat \<Rightarrow> nat \<Rightarrow> nat \<Rightarrow> instr list" where
  "copy_row dst src n = map (\<lambda>i. Asg (M (dst + i)) hd [M (src + i)]) [0..<n]"

lemma dma_1d_row: "unat sz = 8 * n \<Longrightarrow> dma_1d dst src sz = copy_row dst src n"
  by (simp add: dma_1d_def copy_row_def)

lemma dma_2d_rows:
  "unat sz = 8 * n \<Longrightarrow> unat ds = 8 * a \<Longrightarrow> unat ss = 8 * b \<Longrightarrow> unat m = r \<Longrightarrow>
   dma_2d dst src sz ds ss m = concat (map (\<lambda>i. copy_row (dst + i * a) (src + i * b) n) [0..<r])"
  by (simp add: dma_2d_def dma_1d_row)

lemma map_upt_mult: "concat (map (\<lambda>r. map (\<lambda>i. f (r * n + i)) [0..<n]) [0..<m]) = map f [0..<m * n]"
proof (induction m)
  case (Suc m)
  have "[0..<Suc m * n] = [0..<m * n] @ map (\<lambda>i. m * n + i) [0..<n]"
    by (rule nth_equalityI) (auto simp: nth_append)
  then show ?case using Suc by (simp add: comp_def)
qed simp

lemma copy_rows_contiguous:
  "concat (map (\<lambda>i. copy_row (dst + i * n) (src + i * n) n) [0..<m]) = copy_row dst src (m * n)"
  using map_upt_mult [of "\<lambda>i. Asg (M (dst + i)) hd [M (src + i)]" n m] by (simp add: copy_row_def add.assoc)

lemma copy_row_targets: "x \<in> targets (copy_row dst src n) \<longleftrightarrow> (\<exists>i<n. x = M (dst + i))"
  by (auto simp: copy_row_def targets_def image_image)

lemma copy_row_defined: "(\<And>i. i < n \<Longrightarrow> M (src + i) \<in> X) \<Longrightarrow> defined X (copy_row dst src n)"
proof (induction n)
  case (Suc n) then show ?case by (auto simp: copy_row_def)
qed (simp add: copy_row_def)

lemma run_copy_row:
  assumes "\<And>i j. i < n \<Longrightarrow> j < n \<Longrightarrow> src + i \<noteq> dst + j"
  shows "run (copy_row dst src n) s (M x) = (if dst \<le> x \<and> x < dst + n then s (M (src + (x - dst))) else s (M x))"
  using assms
proof (induction n)
  case (Suc n)
  have c: "copy_row dst src (Suc n) = copy_row dst src n @ [Asg (M (dst + n)) hd [M (src + n)]]" by (simp add: copy_row_def)
  have "run (copy_row dst src n) s (M (src + n)) = s (M (src + n))"
    using Suc.prems [of n] by (intro run_other) (auto simp: copy_row_targets)
  then show ?case using Suc by (auto simp: c)
qed (auto simp: copy_row_def)

text \<open>A block that reads only \<open>X\<close>, among blocks that leave \<open>X\<close> alone: its cells get the value it computes by itself.\<close>

lemma run_concat_at:
  assumes "q \<in> set ps" "\<And>p. p \<in> set ps \<Longrightarrow> p \<noteq> q \<Longrightarrow> y \<notin> targets (B p)" "distinct ps" "y \<in> targets (B q)"
    and "defined X (B q)" "\<And>p x. p \<in> set ps \<Longrightarrow> p \<noteq> q \<Longrightarrow> x \<in> targets (B p) \<Longrightarrow> x \<notin> X"
  shows "run (concat (map B ps)) s y = run (B q) s y"
proof -
  obtain us vs where ps: "ps = us @ q # vs" using assms(1) by (meson split_list)
  have "y \<notin> targets (concat (map B vs))" using assms(2, 3) by (auto simp: ps)
  moreover have "run (concat (map B us)) s x = s x" if "x \<in> X" for x
    using assms(3, 6) that by (intro run_other) (auto simp: ps)
  ultimately show ?thesis using assms(4, 5)
    by (simp add: ps run_other defined_agree [of X "B q" "run (concat (map B us)) s" s y])
qed

text \<open>Clearing \<open>m\<close> groups of eight doubles.\<close>

definition zero_row :: "nat \<Rightarrow> nat \<Rightarrow> instr list" where
  "zero_row dst m = map (\<lambda>i. Asg (M (dst + i)) (\<lambda>_. 0) []) [0..<8] @ concat (map (\<lambda>r. copy_row (dst + r * 8) dst 8) [0..<m])"

lemma dma_zero_row: "unat len = 64 * m \<Longrightarrow> dma_zero dst len = zero_row dst m"
  by (simp add: dma_zero_def zero_row_def dma_2d_def dma_1d_def copy_row_def unat_div)

lemma zero_row_targets: "0 < m \<Longrightarrow> x \<in> targets (zero_row dst m) \<longleftrightarrow> (\<exists>i<8 * m. x = M (dst + i))"
proof -
  assume m: "0 < m"
  have "(\<exists>r<m. \<exists>i<8. x = M (dst + r * 8 + i)) \<longleftrightarrow> (\<exists>i<8 * m. x = M (dst + i))"
  proof
    assume "\<exists>i<8 * m. x = M (dst + i)"
    then obtain i where i: "i < 8 * m" "x = M (dst + i)" by auto
    have "x = M (dst + i div 8 * 8 + i mod 8)" using i(2) div_mult_mod_eq [of i 8] by (simp only: add.assoc)
    moreover have "i div 8 < m" "i mod 8 < 8" using i(1) by auto
    ultimately show "\<exists>r<m. \<exists>i<8. x = M (dst + r * 8 + i)" by blast
  qed (force simp: add.assoc intro: exI [of _ "_ * 8 + _"])
  moreover have "(\<exists>i<8. x = M (dst + i)) \<Longrightarrow> \<exists>r<m. \<exists>i<8. x = M (dst + r * 8 + i)" using m by (intro exI [of _ 0]) auto
  ultimately show ?thesis by (auto simp: zero_row_def copy_row_targets Bex_def)
qed

lemma zero_row_defined: "defined X (zero_row dst m)"
proof -
  have "defined Y (map (\<lambda>i. Asg (M (dst + i)) (\<lambda>_. 0) []) is)" for Y "is" by (induction "is" arbitrary: Y) simp_all
  moreover have "M (dst + i) \<in> targets (map (\<lambda>i. Asg (M (dst + i)) (\<lambda>_. 0) []) [0..<8])" if "i < 8" for i using that by auto
  ultimately show ?thesis unfolding zero_row_def by (auto intro!: defined_concat copy_row_defined)
qed

lemma run_zero_row: "0 < m \<Longrightarrow> i < 8 * m \<Longrightarrow> run (zero_row dst m) s (M (dst + i)) = 0"
proof (induction m arbitrary: i)
  case (Suc m)
  let ?z = "run (map (\<lambda>i. Asg (M (dst + i)) (\<lambda>_. 0) []) [0..<8]) s"
  have z0: "?z (M (dst + j)) = 0" if "j < 8" for j using that
    by (intro run_parallel) auto
  have z: "run (zero_row dst m) s (M (dst + j)) = 0" if "j < 8 \<or> j < 8 * m" for j
    using Suc.IH [of j] that z0 by (cases "m = 0") (auto simp: zero_row_def)
  have r: "run (zero_row dst (Suc m)) s = run (copy_row (dst + m * 8) dst 8) (run (zero_row dst m) s)" by (simp add: zero_row_def)
  show ?case
  proof (cases "m = 0")
    case True
    have "run (copy_row dst dst 8) t x = t x" for t x
    proof -
      have "run (map (\<lambda>i. Asg (M (dst + i)) hd [M (dst + i)]) is) t = t" for t "is" by (induction "is" arbitrary: t) simp_all
      then show ?thesis by (simp add: copy_row_def)
    qed
    then show ?thesis unfolding r using z Suc.prems True by simp
  next
    case False
    have e: "run (zero_row dst m) s (M (dst + i - m * 8)) = 0" if "m * 8 \<le> i"
      unfolding Nat.diff_add_assoc [OF that] using that Suc.prems by (intro z disjI1) simp
    show ?thesis using z [of i] e Suc.prems False unfolding r by (subst run_copy_row) auto
  qed
qed simp

end
