(* ===== verification/Tiling.thy ===== *)
theory Tiling
  imports Layers
begin

text \<open>
  The tiling that the layers share: a cluster takes every \<open>cluster_num\<close>-th row (or pixel) of
  the output and cuts its input channels into tiles of \<open>TILE_CI\<close> channels, which its compute
  cores take in turns.
\<close>

section \<open>Numbers with two digits\<close>

lemma radix_less: "a < A \<Longrightarrow> b < B \<Longrightarrow> a * B + b < A * (B :: nat)"
proof -
  assume "a < A" "b < B"
  then have "a * B + b < Suc a * B" by simp
  also have "\<dots> \<le> A * B" using \<open>a < A\<close> by (intro mult_le_mono1) simp
  finally show ?thesis .
qed

lemma radix_digits: "b < B \<Longrightarrow> (a * B + b) div B = (a :: nat)" "b < B \<Longrightarrow> (a * B + b) mod B = b"
  by (auto simp: div_mult_self3)

lemma radix_inj: "b < B \<Longrightarrow> b' < B \<Longrightarrow> a * B + b = a' * B + b' \<Longrightarrow> a = a' \<and> b = (b' :: nat)"
  by (metis radix_digits)

lemma unat_eqI: "w = (of_nat n :: u32) \<Longrightarrow> n < 2 ^ 32 \<Longrightarrow> unat w = n"
  by (simp add: unat_of_nat_small)

lemma those_Some: "(\<And>x. x \<in> set xs \<Longrightarrow> f x = Some (g x)) \<Longrightarrow> those (map f xs) = Some (map g xs)"
  by (induction xs) auto

lemma buf_half:
  assumes "unat w = 2 * m"
  shows "buf k * w div 2 = of_nat (k mod 2 * m)" "w div 2 = of_nat m" "buf k * (w div 2) = of_nat (k mod 2 * m)"
proof -
  have "unat (w div 2) = m" using assms by (simp add: unat_div)
  then show w: "w div 2 = of_nat m" by (metis u32_of_unat)
  then show "buf k * w div 2 = of_nat (k mod 2 * m)" "buf k * (w div 2) = of_nat (k mod 2 * m)"
    by (simp_all add: buf_def mod_2_eq_odd)
qed

section \<open>The loops\<close>

text \<open>The loop \<open>for (uint32_t i = 0; i < n; i++)\<close>.\<close>

definition u32_below :: "u32 \<Rightarrow> u32 list" where
  "u32_below n = map of_nat [0..<unat n]"

text \<open>The iterations of the two outer loops of a layer: the rows of this cluster out of
  \<open>tot\<close>, and the first channel of each tile.\<close>

definition layer_iters :: "layer_ctx \<Rightarrow> u32 \<Rightarrow> (u32 \<times> u32) list option" where
  "layer_iters L tot = do {
     ts \<leftarrow> for_range (cluster_id L) tot (cluster_num L);
     rows \<leftarrow> those (map (\<lambda>t. map_option (map (Pair t)) (for_range 0 (CI (lay L)) (TILE_CI (lay L)))) ts);
     Some (concat rows) }"

abbreviation "nCI L \<equiv> unat (CI (lay L))"
abbreviation "nIH L \<equiv> unat (IH (lay L))"
abbreviation "nIW L \<equiv> unat (IW (lay L))"
abbreviation "nOH L \<equiv> unat (OH (lay L))"
abbreviation "nOW L \<equiv> unat (OW (lay L))"
abbreviation "nFH L \<equiv> unat (FH (lay L))"
abbreviation "nFW L \<equiv> unat (FW (lay L))"
abbreviation "nT L \<equiv> unat (TILE_CI (lay L))"
abbreviation "nN L \<equiv> unat (cluster_num L)"
abbreviation "nid L \<equiv> unat (cluster_id L)"
abbreviation "nP L \<equiv> unat (compute_num L)"

text \<open>Channels split evenly into tiles and a tile evenly over the cores.\<close>

definition grid_ok :: "layer_ctx \<Rightarrow> bool" where
  "grid_ok L \<longleftrightarrow> nid L < nN L \<and> 0 < nP L \<and> nP L dvd nT L \<and> 0 < nT L \<and> nT L dvd nCI L \<and> 0 < nCI L \<and> 8 * nCI L < 2 ^ 32"

text \<open>Two ranges of doubles that do not overlap.\<close>

definition apart_from :: "nat \<Rightarrow> nat \<Rightarrow> nat \<Rightarrow> nat \<Rightarrow> bool" where
  "apart_from a n b m \<longleftrightarrow> a + n \<le> b \<or> b + m \<le> a"

lemma apart_fromD:
  "apart_from a n b m \<Longrightarrow> i < m \<Longrightarrow> b + i < a \<or> a + n \<le> b + i"
  "apart_from a n b m \<Longrightarrow> i < n \<Longrightarrow> \<not> (b \<le> a + i \<and> a + i < b + m)"
  by (auto simp: apart_from_def)

definition tile_q :: "layer_ctx \<Rightarrow> nat" where "tile_q L = nCI L div nT L"
definition tile_row :: "layer_ctx \<Rightarrow> nat \<Rightarrow> nat" where "tile_row L k = nid L + (k div tile_q L) * nN L"
definition tile_chan :: "layer_ctx \<Rightarrow> nat \<Rightarrow> nat" where "tile_chan L k = (k mod tile_q L) * nT L"
definition tile_count :: "layer_ctx \<Rightarrow> nat \<Rightarrow> nat" where "tile_count L tot = trips (nid L) tot (nN L) * tile_q L"

definition tile_iter :: "layer_ctx \<Rightarrow> nat \<Rightarrow> u32 \<times> u32" where
  "tile_iter L k = (of_nat (tile_row L k), of_nat (tile_chan L k))"

lemma grid_okD:
  assumes "grid_ok L"
  shows "nid L < nN L" "0 < nP L" "nP L dvd nT L" "0 < nT L" "nT L dvd nCI L" "0 < nCI L" "8 * nCI L < 2 ^ 32"
    "nT L \<le> nCI L" "nP L \<le> nT L" "0 < tile_q L" "tile_q L * nT L = nCI L" "0 < nN L" "nT L div nP L * nP L = nT L"
  using assms by (auto simp: grid_ok_def tile_q_def dvd_imp_le div_greater_zero_iff)

lemma tile_row_bound: "grid_ok L \<Longrightarrow> k < tile_count L tot \<Longrightarrow> tile_row L k < tot"
  using grid_okD [of L] less_trips [of "nN L" "k div tile_q L" "nid L" tot]
  by (auto simp: tile_count_def tile_row_def less_mult_imp_div_less)

lemma tile_count_pos: "grid_ok L \<Longrightarrow> nid L < tot \<Longrightarrow> 0 < tile_count L tot"
  using grid_okD [of L] less_trips [of "nN L" 0 "nid L" tot] by (simp add: tile_count_def)

lemma tile_row_mod: "grid_ok L \<Longrightarrow> tile_row L k mod nN L = nid L"
  using grid_okD(1) [of L] by (simp add: tile_row_def)

lemma tile_chan_bound:
  assumes "grid_ok L" "j < nT L"
  shows "tile_chan L k + j < nCI L"
proof -
  note O = grid_okD [OF assms(1)]
  have "tile_chan L k + j < tile_q L * nT L"
    unfolding tile_chan_def using O(10) assms(2) by (intro radix_less) auto
  then show ?thesis using O(11) by simp
qed

lemma tile_channel:
  assumes "grid_ok L" "m < nT L div nP L" "c < nP L"
  shows "m * nP L + c < nT L" "(m * nP L + c) mod nP L = c"
  using radix_less [OF assms(2, 3)] grid_okD(13) [OF assms(1)] assms(3) by (simp_all add: radix_digits)

lemma tile_inj:
  assumes "grid_ok L" "j < nT L" "j' < nT L" "tile_row L k * nCI L + (tile_chan L k + j) = tile_row L k' * nCI L + (tile_chan L k' + j')"
  shows "k = k' \<and> j = j'"
proof -
  note O = grid_okD [OF assms(1)]
  have "tile_row L k = tile_row L k'" "tile_chan L k + j = tile_chan L k' + j'"
    using radix_inj [OF tile_chan_bound tile_chan_bound assms(4)] assms(1-3) by auto
  then have "k div tile_q L = k' div tile_q L" "k mod tile_q L = k' mod tile_q L" "j = j'"
    using O(12) radix_inj [OF assms(2, 3), of "k mod tile_q L" "k' mod tile_q L"] by (auto simp: tile_row_def tile_chan_def)
  then show ?thesis by (metis div_mult_mod_eq)
qed

text \<open>Which tile holds a row and a channel.\<close>

lemma tile_of:
  assumes ok: "grid_ok L" and p: "row < tot" "row mod nN L = nid L" and c: "ch < nCI L"
  obtains k j where "k < tile_count L tot" "j < nT L" "row = tile_row L k" "ch = tile_chan L k + j"
proof -
  note O = grid_okD [OF ok]
  define r m where r: "r = row div nN L" "m = ch div nT L"
  have m: "m < tile_q L" using c O(11) by (simp add: r less_mult_imp_div_less)
  have row: "row = nid L + r * nN L" using p(2) div_mult_mod_eq [of row "nN L"] by (simp add: r)
  then have "r < trips (nid L) tot (nN L)" using p(1) O(12) by (simp add: less_trips)
  then have "r * tile_q L + m < tile_count L tot" unfolding tile_count_def by (rule radix_less [OF _ m])
  moreover have "row = tile_row L (r * tile_q L + m)" "tile_chan L (r * tile_q L + m) = m * nT L"
    using m by (simp_all add: tile_row_def tile_chan_def row radix_digits)
  moreover have "ch = m * nT L + ch mod nT L" by (simp add: r)
  ultimately show ?thesis using that O(4) by (metis mod_less_divisor)
qed

lemma layer_iters_nat:
  assumes ok: "grid_ok L" and t: "unat tot + nN L \<le> 2 ^ 32"
  shows "layer_iters L tot = Some (map (tile_iter L) [0..<tile_count L (unat tot)])"
proof -
  note O = grid_okD [OF ok]
  have pos: "0 < cluster_num L" "0 < TILE_CI (lay L)" using O by (simp_all add: unat_gt_0 word_gt_0)
  have ts: "for_range (cluster_id L) tot (cluster_num L)
      = Some (map (\<lambda>i. cluster_id L + of_nat i * cluster_num L) [0..<trips (nid L) (unat tot) (nN L)])"
    by (rule for_range_trips [OF pos(1) t])
  have cs: "for_range 0 (CI (lay L)) (TILE_CI (lay L)) = Some (map (\<lambda>i. of_nat i * TILE_CI (lay L)) [0..<tile_q L])"
    using for_range_trips [OF pos(2), of "CI (lay L)" 0] O by (simp add: trips_dvd tile_q_def)
  have it: "(cluster_id L + of_nat r * cluster_num L, of_nat i * TILE_CI (lay L)) = tile_iter L (r * tile_q L + i)"
    if "i < tile_q L" for r i using that O(10) by (simp add: tile_iter_def tile_row_def tile_chan_def)
  have "layer_iters L tot = Some (concat (map (\<lambda>r. map (\<lambda>i. tile_iter L (r * tile_q L + i)) [0..<tile_q L]) [0..<trips (nid L) (unat tot) (nN L)]))"
    unfolding layer_iters_def ts cs by (simp add: those_Some [where g = "\<lambda>t. map (Pair t) (map (\<lambda>i. of_nat i * TILE_CI (lay L)) [0..<tile_q L])"] comp_def)
      (intro arg_cong [of _ _ concat] map_cong refl, simp add: it)
  also have "\<dots> = Some (map (tile_iter L) [0..<tile_count L (unat tot)])" by (simp add: map_upt_mult tile_count_def)
  finally show ?thesis .
qed

lemma tile_iter_words:
  assumes "grid_ok L" "k < tile_count L tot" "tot \<le> 2 ^ 32"
  shows "unat (fst (tile_iter L k)) = tile_row L k" "unat (snd (tile_iter L k)) = tile_chan L k"
    "tile_iter L k = (cluster_id L, 0) \<longleftrightarrow> k = 0"
proof -
  note O = grid_okD [OF assms(1)]
  have "tile_row L k < 2 ^ 32" "tile_chan L k < 2 ^ 32"
    using tile_row_bound [OF assms(1, 2)] tile_chan_bound [OF assms(1) O(4), of k] O(7) assms(3) by auto
  then show u: "unat (fst (tile_iter L k)) = tile_row L k" "unat (snd (tile_iter L k)) = tile_chan L k"
    by (simp_all add: tile_iter_def unat_of_nat_small)
  have "tile_iter L k = (cluster_id L, 0) \<longleftrightarrow> tile_row L k = nid L \<and> tile_chan L k = 0"
    using u by (auto simp: prod_eq_iff word_unat_eq_iff)
  also have "\<dots> \<longleftrightarrow> k div tile_q L = 0 \<and> k mod tile_q L = 0" using O by (simp add: tile_row_def tile_chan_def)
  also have "\<dots> \<longleftrightarrow> k = 0" by (metis add.right_neutral div_mult_mod_eq mult_0 div_0 mod_0)
  finally show "tile_iter L k = (cluster_id L, 0) \<longleftrightarrow> k = 0" .
qed

end
