(* ===== verification/Start.thy ===== *)
theory Start
  imports Alloc Tiling "HOL-Library.Signed_Division"
begin

text \<open>
  The start-up code \<open>sw/snRuntime/src/start.S\<close> and \<open>start.c\<close>: where a core finds its thread-local storage, and what the cores
  of a cluster store before the barrier in front of \<open>main\<close>: the thread-local storage of every core, the
  cluster-local storage and its allocator, and the \<open>.bss\<close> section. The cores run concurrently; a cell of
  \<open>Cluster_Exec\<close> stands for one 32-bit word of memory.
\<close>

section \<open>The linker script\<close>

text \<open>The section symbols, the offset of \<open>_cls_ptr\<close> in the thread-local storage, the L3 allocator and \<open>_edram\<close>.\<close>

record linker =
  tdata_start :: u32
  tdata_end :: u32
  tbss_start :: u32
  tbss_end :: u32
  bss_start :: u32
  bss_end :: u32
  cdata_start :: u32
  cdata_end :: u32
  cbss_start :: u32
  cbss_end :: u32
  cls_ptr_offset :: u32
  l3_allocator_addr :: u32
  edram :: u32

definition SNRT_LOG2_STACK_SIZE :: nat where
  "SNRT_LOG2_STACK_SIZE = 10"

text \<open>The word at an address, and the loops over the words of a section.\<close>

definition word_at :: "u32 \<Rightarrow> loc" where
  "word_at a = M (unat a div 4)"

definition copy_words :: "u32 \<Rightarrow> u32 \<Rightarrow> u32 \<Rightarrow> (instr list \<times> u32) option" where
  "copy_words dst p e = map_option (\<lambda>ps. (map (\<lambda>i. Asg (word_at (dst + 4 * of_nat i)) hd [word_at (ps ! i)]) [0..<length ps],
     dst + 4 * of_nat (length ps))) (for_range p e 4)"

definition clear_words :: "u32 \<Rightarrow> u32 \<Rightarrow> u32 \<Rightarrow> (instr list \<times> u32) option" where
  "clear_words dst p e = map_option (\<lambda>ps. (map (\<lambda>i. Asg (word_at (dst + 4 * of_nat i)) (\<lambda>_. 0) []) [0..<length ps],
     dst + 4 * of_nat (length ps))) (for_range p e 4)"

section \<open>The assembly part\<close>

text \<open>
  Register \<open>a2\<close> after \<open>start.S\<close> has put aside eight bytes for the return value of \<open>main\<close> (\<open>div\<close> is
  signed), the store that clears the first four of them, which every core of the cluster executes, and
  the thread pointer.
\<close>

definition crt0_return_addr :: "snrt_cfg \<Rightarrow> linker \<Rightarrow> u32 \<Rightarrow> u32" where
  "crt0_return_addr c k mhartid = (let
     a0 = mhartid - SNRT_BASE_HARTID c;
     a1 = SNRT_CLUSTER_CORE_NUM c;
     t0 = word_of_int (sint a0 sdiv sint a1);
     a2 = SNRT_TCDM_START_ADDR c + SNRT_CLUSTER_OFFSET c * t0;
     a2 = a2 + SNRT_TCDM_SIZE c;
     a2 = a2 - (cdata_end k - cdata_start k);
     a2 = a2 - (cbss_end k - cbss_start k)
   in a2 + (- 8))"

definition crt0_init_stack :: "snrt_cfg \<Rightarrow> linker \<Rightarrow> u32 \<Rightarrow> instr list" where
  "crt0_init_stack c k mhartid = [Asg (word_at (crt0_return_addr c k mhartid)) (\<lambda>_. 0) []]"

definition crt0_tp :: "snrt_cfg \<Rightarrow> linker \<Rightarrow> u32 \<Rightarrow> u32" where
  "crt0_tp c k mhartid = (let
     a0 = (mhartid - SNRT_BASE_HARTID c) mod SNRT_CLUSTER_CORE_NUM c;
     a2 = crt0_return_addr c k mhartid;
     sp = a2 - push_bit SNRT_LOG2_STACK_SIZE a0;
     sp = sp - push_bit 3 a0;
     sp = sp - (tdata_end k - tdata_start k);
     sp = sp - (tbss_end k - tbss_start k)
   in sp AND NOT 7)"

section \<open>The C part\<close>

definition snrt_cls_base_addr :: "snrt_cfg \<Rightarrow> linker \<Rightarrow> u32 \<Rightarrow> u32" where
  "snrt_cls_base_addr c k hartid = (let
     cdata_size = cdata_end k - cdata_start k;
     cbss_size = cbss_end k - cbss_start k;
     l1_end_addr = SNRT_TCDM_START_ADDR c + snrt_cluster_idx c hartid * SNRT_CLUSTER_OFFSET c + SNRT_TCDM_SIZE c
   in l1_end_addr - cdata_size - cbss_size)"

definition snrt_crt0_cluster_hw_barrier :: "snrt_cfg \<Rightarrow> u32 \<Rightarrow> u32" where
  "snrt_crt0_cluster_hw_barrier c hartid = SNRT_CLUSTER_HW_BARRIER_ADDR c + snrt_cluster_idx c hartid * SNRT_CLUSTER_OFFSET c"

definition snrt_init_tls :: "linker \<Rightarrow> u32 \<Rightarrow> instr list option" where
  "snrt_init_tls k tp = do {
     (copy, tls_ptr) \<leftarrow> copy_words tp (tdata_start k) (tdata_end k);
     (clear, tls_ptr) \<leftarrow> clear_words tls_ptr (tbss_start k) (tbss_end k);
     Some (copy @ clear) }"

definition snrt_init_bss :: "snrt_cfg \<Rightarrow> linker \<Rightarrow> u32 \<Rightarrow> instr list option" where
  "snrt_init_bss c k hartid = (if snrt_cluster_idx c hartid = 0 \<and> snrt_is_dm_core c hartid
     then map_option fst (clear_words (bss_start k) (bss_start k) (bss_end k)) else Some [])"

text \<open>The assignment to the thread-local \<open>_cls_ptr\<close>, then the sections.\<close>

definition snrt_init_cls :: "snrt_cfg \<Rightarrow> linker \<Rightarrow> u32 \<Rightarrow> u32 \<Rightarrow> instr list option" where
  "snrt_init_cls c k tp hartid = do {
     rest \<leftarrow> (if snrt_is_dm_core c hartid then do {
         (copy, cls_ptr) \<leftarrow> copy_words (snrt_cls_base_addr c k hartid) (cdata_start k) (cdata_end k);
         (clear, cls_ptr) \<leftarrow> clear_words cls_ptr (cbss_start k) (cbss_end k);
         Some (copy @ clear) } else Some []);
     Some (Asg (word_at (tp + cls_ptr_offset k)) (\<lambda>_. ucast (snrt_cls_base_addr c k hartid)) [] # rest) }"

text \<open>
  \<open>snrt_init_libs\<close>: the stores of \<open>snrt_alloc_init\<close>. The L1 allocator is behind the first word of the cluster-local
  storage, and the fields are \<open>base\<close>, \<open>size\<close> and \<open>next\<close>.
\<close>

definition snrt_init_libs :: "snrt_cfg \<Rightarrow> linker \<Rightarrow> u32 \<Rightarrow> u32 \<Rightarrow> u32 \<Rightarrow> instr list" where
  "snrt_init_libs c k hartid l1_start l1_end = (if snrt_is_dm_core c hartid then
     let l1 = snrt_cls_base_addr c k hartid + 4; l3 = l3_allocator_addr k in
     [Asg (word_at l1) (\<lambda>_. ucast (ALIGN_UP l1_start MIN_CHUNK_SIZE)) [],
      Asg (word_at (l1 + 4)) (\<lambda>_. ucast (l1_end - l1_start)) [],
      Asg (word_at (l1 + 8)) hd [word_at l1],
      Asg (word_at l3) (\<lambda>_. ucast (ALIGN_UP (edram k) MIN_CHUNK_SIZE)) [],
      Asg (word_at (l3 + 4)) (\<lambda>_. 0) [],
      Asg (word_at (l3 + 8)) hd [word_at l3]] else [])"

text \<open>\<open>snrt_exit\<close>, on the word \<open>tohost\<close>.\<close>

definition snrt_exit :: "snrt_cfg \<Rightarrow> u32 \<Rightarrow> u32 \<Rightarrow> u32 \<Rightarrow> u32" where
  "snrt_exit c hartid exit_code tohost = (if snrt_global_core_idx c hartid = 0 then push_bit 1 exit_code OR 1 else tohost)"

text \<open>
  \<open>snrt_main\<close> up to the barrier, as one core executes it, and the cores of cluster \<open>cl\<close> from the reset
  on. What the compiled functions push on the stack, below the thread-local storage, is not modelled.
\<close>

definition snrt_main_init :: "snrt_cfg \<Rightarrow> linker \<Rightarrow> u32 \<Rightarrow> u32 \<Rightarrow> u32 \<Rightarrow> instr list option" where
  "snrt_main_init c k l1_start l1_end hartid = do {
     tls \<leftarrow> snrt_init_tls k (crt0_tp c k hartid);
     bss \<leftarrow> snrt_init_bss c k hartid;
     cls \<leftarrow> snrt_init_cls c k (crt0_tp c k hartid) hartid;
     Some (tls @ bss @ cls @ snrt_init_libs c k hartid l1_start l1_end) }"

definition cluster_start :: "snrt_cfg \<Rightarrow> linker \<Rightarrow> u32 \<Rightarrow> u32 \<Rightarrow> nat \<Rightarrow> ev list list option" where
  "cluster_start c k l1_start l1_end cl = those (map (\<lambda>i.
     map_option (\<lambda>is. map Act (crt0_init_stack c k (hart_of c cl i) @ is) @ [Bar]) (snrt_main_init c k l1_start l1_end (hart_of c cl i))) [0..<unat (SNRT_CLUSTER_CORE_NUM c)])"

section \<open>Admissible layouts\<close>

definition sect_ok :: "u32 \<Rightarrow> u32 \<Rightarrow> bool" where
  "sect_ok a e \<longleftrightarrow> 4 dvd unat a \<and> 4 dvd unat e \<and> unat a \<le> unat e \<and> unat e + 4 \<le> 2 ^ 32"

definition tdata_size :: "linker \<Rightarrow> nat" where "tdata_size k = unat (tdata_end k) - unat (tdata_start k)"
definition tls_size :: "linker \<Rightarrow> nat" where "tls_size k = tdata_size k + (unat (tbss_end k) - unat (tbss_start k))"
definition bss_size :: "linker \<Rightarrow> nat" where "bss_size k = unat (bss_end k) - unat (bss_start k)"
definition cdata_size :: "linker \<Rightarrow> nat" where "cdata_size k = unat (cdata_end k) - unat (cdata_start k)"
definition cls_size :: "linker \<Rightarrow> nat" where "cls_size k = cdata_size k + (unat (cbss_end k) - unat (cbss_start k))"

text \<open>The memory of cluster \<open>cl\<close>.\<close>

definition tcdm_start :: "snrt_cfg \<Rightarrow> nat \<Rightarrow> nat" where
  "tcdm_start c cl = unat (SNRT_TCDM_START_ADDR c) + cl * unat (SNRT_CLUSTER_OFFSET c)"

text \<open>
  One data mover per cluster; word-aligned sections; a stack holds the thread-local storage, and the cluster memory all stacks
  and the cluster-local storage; the sections of the program are outside the cluster memory, and what is cleared is not copied.
\<close>

definition boot_ok :: "snrt_cfg \<Rightarrow> linker \<Rightarrow> nat \<Rightarrow> bool" where
  "boot_ok c k cl \<longleftrightarrow> wf_cfg c \<and> SNRT_CLUSTER_DM_CORE_NUM c = 1 \<and> cl < unat (SNRT_CLUSTER_NUM c)
     \<and> unat (SNRT_CLUSTER_NUM c) * unat (SNRT_CLUSTER_CORE_NUM c) < 2 ^ 31
     \<and> sect_ok (tdata_start k) (tdata_end k) \<and> sect_ok (tbss_start k) (tbss_end k) \<and> sect_ok (bss_start k) (bss_end k)
     \<and> sect_ok (cdata_start k) (cdata_end k) \<and> sect_ok (cbss_start k) (cbss_end k)
     \<and> 4 dvd unat (l3_allocator_addr k) \<and> unat (l3_allocator_addr k) + 12 < 2 ^ 32
     \<and> 4 dvd unat (SNRT_TCDM_START_ADDR c) \<and> 4 dvd unat (SNRT_CLUSTER_OFFSET c) \<and> 4 dvd unat (SNRT_TCDM_SIZE c)
     \<and> tcdm_start c cl + unat (SNRT_TCDM_SIZE c) < 2 ^ 32
     \<and> tls_size k + 7 \<le> 1032 \<and> 16 \<le> cls_size k \<and> unat (SNRT_CLUSTER_CORE_NUM c) * 1032 + 8 + cls_size k \<le> unat (SNRT_TCDM_SIZE c)
     \<and> 4 dvd unat (cls_ptr_offset k) \<and> tdata_size k \<le> unat (cls_ptr_offset k) \<and> unat (cls_ptr_offset k) + 4 \<le> tls_size k
     \<and> apart_from (tcdm_start c cl) (unat (SNRT_TCDM_SIZE c)) (unat (tdata_start k)) (tdata_size k)
     \<and> apart_from (tcdm_start c cl) (unat (SNRT_TCDM_SIZE c)) (unat (cdata_start k)) (cdata_size k)
     \<and> apart_from (tcdm_start c cl) (unat (SNRT_TCDM_SIZE c)) (unat (bss_start k)) (bss_size k)
     \<and> apart_from (tcdm_start c cl) (unat (SNRT_TCDM_SIZE c)) (unat (l3_allocator_addr k)) 12
     \<and> apart_from (unat (bss_start k)) (bss_size k) (unat (tdata_start k)) (tdata_size k)
     \<and> apart_from (unat (bss_start k)) (bss_size k) (unat (cdata_start k)) (cdata_size k)
     \<and> apart_from (unat (l3_allocator_addr k)) 12 (unat (tdata_start k)) (tdata_size k)
     \<and> apart_from (unat (l3_allocator_addr k)) 12 (unat (cdata_start k)) (cdata_size k)"

lemma boot_okD:
  assumes "boot_ok c k cl"
  shows "wf_cfg c" "SNRT_CLUSTER_DM_CORE_NUM c = 1" "cl < unat (SNRT_CLUSTER_NUM c)" "unat (SNRT_CLUSTER_NUM c) * unat (SNRT_CLUSTER_CORE_NUM c) < 2 ^ 31"
    "sect_ok (tdata_start k) (tdata_end k)" "sect_ok (tbss_start k) (tbss_end k)" "sect_ok (bss_start k) (bss_end k)"
    "sect_ok (cdata_start k) (cdata_end k)" "sect_ok (cbss_start k) (cbss_end k)"
    "4 dvd unat (l3_allocator_addr k)" "unat (l3_allocator_addr k) + 12 < 2 ^ 32"
    "4 dvd unat (SNRT_TCDM_START_ADDR c)" "4 dvd unat (SNRT_CLUSTER_OFFSET c)" "4 dvd unat (SNRT_TCDM_SIZE c)"
    "tcdm_start c cl + unat (SNRT_TCDM_SIZE c) < 2 ^ 32" "tls_size k + 7 \<le> 1032" "16 \<le> cls_size k"
    "unat (SNRT_CLUSTER_CORE_NUM c) * 1032 + 8 + cls_size k \<le> unat (SNRT_TCDM_SIZE c)"
    "4 dvd unat (cls_ptr_offset k)" "tdata_size k \<le> unat (cls_ptr_offset k)" "unat (cls_ptr_offset k) + 4 \<le> tls_size k"
  using assms unfolding boot_ok_def by blast+

lemma boot_apart:
  assumes "boot_ok c k cl"
  shows "apart_from (tcdm_start c cl) (unat (SNRT_TCDM_SIZE c)) (unat (tdata_start k)) (tdata_size k)"
    "apart_from (tcdm_start c cl) (unat (SNRT_TCDM_SIZE c)) (unat (cdata_start k)) (cdata_size k)"
    "apart_from (tcdm_start c cl) (unat (SNRT_TCDM_SIZE c)) (unat (bss_start k)) (bss_size k)"
    "apart_from (tcdm_start c cl) (unat (SNRT_TCDM_SIZE c)) (unat (l3_allocator_addr k)) 12"
    "apart_from (unat (bss_start k)) (bss_size k) (unat (tdata_start k)) (tdata_size k)"
    "apart_from (unat (bss_start k)) (bss_size k) (unat (cdata_start k)) (cdata_size k)"
    "apart_from (unat (l3_allocator_addr k)) 12 (unat (tdata_start k)) (tdata_size k)"
    "apart_from (unat (l3_allocator_addr k)) 12 (unat (cdata_start k)) (cdata_size k)"
  using assms unfolding boot_ok_def by blast+

section \<open>Addresses\<close>

definition cls_top :: "snrt_cfg \<Rightarrow> linker \<Rightarrow> nat \<Rightarrow> nat" where
  "cls_top c k cl = tcdm_start c cl + unat (SNRT_TCDM_SIZE c) - cls_size k"

definition tls_at :: "snrt_cfg \<Rightarrow> linker \<Rightarrow> nat \<Rightarrow> nat \<Rightarrow> nat" where
  "tls_at c k cl i = (cls_top c k cl - 8 - i * 1032 - tls_size k) div 8 * 8"

abbreviation "cores_of c \<equiv> unat (SNRT_CLUSTER_CORE_NUM c)"

lemma boot_sizes:
  assumes "boot_ok c k cl" "i < cores_of c"
  shows "8 + i * 1032 + tls_size k + 7 \<le> cls_top c k cl - tcdm_start c cl" "tcdm_start c cl \<le> cls_top c k cl"
    "cls_top c k cl + cls_size k = tcdm_start c cl + unat (SNRT_TCDM_SIZE c)" "4 dvd cls_size k" "4 dvd tls_size k" "4 dvd tdata_size k" "4 dvd cdata_size k"
    "4 dvd cls_top c k cl"
proof -
  note B = boot_okD [OF assms(1)]
  have "Suc i * 1032 \<le> cores_of c * 1032" using assms(2) by (intro mult_le_mono1) simp
  then show "8 + i * 1032 + tls_size k + 7 \<le> cls_top c k cl - tcdm_start c cl" using B(16, 18) by (simp add: cls_top_def)
  show "tcdm_start c cl \<le> cls_top c k cl" and e: "cls_top c k cl + cls_size k = tcdm_start c cl + unat (SNRT_TCDM_SIZE c)"
    using B(18) by (simp_all add: cls_top_def)
  show "4 dvd cls_size k" "4 dvd tls_size k" "4 dvd tdata_size k" "4 dvd cdata_size k"
    using B(5, 6, 8, 9) by (simp_all add: cls_size_def tls_size_def tdata_size_def cdata_size_def sect_ok_def dvd_diff_nat)
  moreover have "4 dvd cls_top c k cl + cls_size k" unfolding e tcdm_start_def using B(12-14) by simp
  ultimately show "4 dvd cls_top c k cl" by (simp add: dvd_add_left_iff)
qed

lemma sect_word: "sect_ok a e \<Longrightarrow> e - a = of_nat (unat e - unat a)"
  by (metis sect_ok_def u32_of_unat unat_minus_no_underflow)

lemma cls_base_nat:
  assumes "boot_ok c k cl" "i < cores_of c"
  shows "unat (snrt_cls_base_addr c k (hart_of c cl i)) = cls_top c k cl"
proof -
  note B = boot_okD [OF assms(1)] and S = boot_sizes [OF assms]
  have "snrt_cluster_idx c (hart_of c cl i) = of_nat cl"
    using hart_cluster_idx [OF B(1, 3) assms(2)] by (metis u32_of_unat)
  then have "snrt_cls_base_addr c k (hart_of c cl i) + of_nat (cls_size k) = of_nat (tcdm_start c cl + unat (SNRT_TCDM_SIZE c))"
    unfolding snrt_cls_base_addr_def Let_def sect_word [OF B(8)] sect_word [OF B(9)] tcdm_start_def
    by (simp add: cls_size_def cdata_size_def)
  then have "snrt_cls_base_addr c k (hart_of c cl i) = of_nat (cls_top c k cl)" unfolding S(3) [symmetric] by simp
  then show ?thesis using S(3) B(15) by (intro unat_eqI) simp_all
qed

lemma sint_small: "unat (w :: u32) < 2 ^ 31 \<Longrightarrow> sint w = int (unat w)"
  using sint_of_nat_small [of "unat w"] by (simp only: u32_of_unat)

lemma sdiv_nat: "int a sdiv int b = int (a div b)"
  by (cases "a = 0"; cases "b = 0") (simp_all add: signed_divide_int_def zdiv_int)

text \<open>Registers \<open>a2\<close> and \<open>a0\<close> of core \<open>i\<close>.\<close>

lemma crt0_return_word:
  assumes "boot_ok c k cl" "i < cores_of c"
  shows "crt0_return_addr c k (hart_of c cl i) = of_nat (cls_top c k cl) - 8"
proof -
  note B = boot_okD [OF assms(1)] and S = boot_sizes [OF assms]
  let ?a0 = "hart_of c cl i - SNRT_BASE_HARTID c"
  have g: "unat ?a0 = cl * cores_of c + i" using hart_global_idx [OF B(1, 3) assms(2)] by (simp add: team_defs)
  have "cl * cores_of c + i < 2 ^ 31" using cluster_linear_bound [OF B(3) assms(2)] B(4) by simp
  then have s0: "sint ?a0 = int (cl * cores_of c + i)" using sint_small [of ?a0] g by (simp only:)
  have "cores_of c < 2 ^ 31"
    using B(3, 4) by (metis le_less_trans mult_le_mono1 nat_mult_1 Suc_leI not_less_zero gr_zeroI One_nat_def)
  then have s1: "sint (SNRT_CLUSTER_CORE_NUM c) = int (cores_of c)" by (rule sint_small)
  have t0: "word_of_int (sint ?a0 sdiv sint (SNRT_CLUSTER_CORE_NUM c)) = (of_nat cl :: u32)"
    unfolding s0 s1 sdiv_nat radix_digits(1) [OF assms(2)] by simp
  have "crt0_return_addr c k (hart_of c cl i) = of_nat (tcdm_start c cl + unat (SNRT_TCDM_SIZE c)) - of_nat (cls_size k) - 8"
    unfolding crt0_return_addr_def Let_def t0 sect_word [OF B(8)] sect_word [OF B(9)]
    by (simp add: cls_size_def cdata_size_def tcdm_start_def algebra_simps)
  also have "\<dots> = of_nat (cls_top c k cl) - 8" unfolding S(3) [symmetric] by simp
  finally show ?thesis .
qed

lemma crt0_return_nat:
  assumes "boot_ok c k cl" "i < cores_of c"
  shows "unat (crt0_return_addr c k (hart_of c cl i)) = cls_top c k cl - 8"
proof -
  note S = boot_sizes [OF assms] and B = boot_okD [OF assms(1)]
  have "8 \<le> cls_top c k cl" using S(1) by linarith
  then have "of_nat (cls_top c k cl) - 8 = (of_nat (cls_top c k cl - 8) :: u32)" by (simp add: of_nat_diff)
  then show ?thesis unfolding crt0_return_word [OF assms] using S(3) B(15) by (intro unat_eqI) simp_all
qed

lemma crt0_tp_nat:
  assumes "boot_ok c k cl" "i < cores_of c"
  shows "unat (crt0_tp c k (hart_of c cl i)) = tls_at c k cl i"
proof -
  note B = boot_okD [OF assms(1)] and S = boot_sizes [OF assms]
  have a0: "(hart_of c cl i - SNRT_BASE_HARTID c) mod SNRT_CLUSTER_CORE_NUM c = of_nat i"
    using hart_core_idx [OF B(1, 3) assms(2)] by (simp add: team_defs) (metis u32_of_unat)
  have p: "push_bit n (of_nat i :: u32) = of_nat (i * 2 ^ n)" for n by (simp add: push_bit_eq_mult)
  let ?sp = "of_nat (cls_top c k cl) - 8 - of_nat (i * 2 ^ 10) - of_nat (i * 2 ^ 3) - of_nat (tdata_size k) - of_nat (unat (tbss_end k) - unat (tbss_start k)) :: u32"
  have tp: "crt0_tp c k (hart_of c cl i) = ?sp AND NOT (mask 3)"
    unfolding crt0_tp_def Let_def a0 p SNRT_LOG2_STACK_SIZE_def sect_word [OF B(5)] sect_word [OF B(6)] crt0_return_word [OF assms]
    by (simp add: mask_eq_exp_minus_1 tdata_size_def)
  have "?sp = of_nat (cls_top c k cl) - of_nat (8 + i * 1032 + tls_size k)" by (simp add: tls_size_def algebra_simps)
  also have "\<dots> = of_nat (cls_top c k cl - (8 + i * 1032 + tls_size k))" using S(1) by (subst of_nat_diff) simp_all
  finally have sp: "unat ?sp = cls_top c k cl - 8 - i * 1032 - tls_size k" using S(3) B(15) by (intro unat_eqI) simp_all
  show ?thesis unfolding tp unat_and_not_mask sp tls_at_def by (simp add: minus_mod_eq_div_mult)
qed

section \<open>The code of a core on word indices\<close>

definition clear_row :: "nat \<Rightarrow> nat \<Rightarrow> instr list" where
  "clear_row dst n = map (\<lambda>i. Asg (M (dst + i)) (\<lambda>_. 0) []) [0..<n]"

lemma clear_row_targets: "x \<in> targets (clear_row dst n) \<longleftrightarrow> (\<exists>i<n. x = M (dst + i))"
  by (auto simp: clear_row_def targets_def image_image)

lemma run_clear_row: "run (clear_row dst n) s (M x) = (if dst \<le> x \<and> x < dst + n then 0 else s (M x))"
  by (induction n) (auto simp: clear_row_def)

lemma word_at_nat:
  assumes "4 dvd unat a" "unat a + 4 * i < 2 ^ 32"
  shows "word_at (a + 4 * of_nat i) = M (unat a div 4 + i)"
proof -
  have "unat (a + 4 * of_nat i) = unat a + 4 * i" using assms(2) by (intro unat_eqI) simp_all
  then show ?thesis using assms(1) by (simp add: word_at_def div_add)
qed

lemma sect_trips: "sect_ok p e \<Longrightarrow> trips (unat p) (unat e) 4 = (unat e - unat p) div 4"
proof -
  assume a: "sect_ok p e"
  then obtain q where "unat e - unat p = 4 * q" by (metis sect_ok_def dvd_diff_nat dvdE)
  then show ?thesis by (simp add: trips_def)
qed

lemma words_nat:
  assumes "sect_ok p e" "4 dvd unat dst" "unat dst + (unat e - unat p) < 2 ^ 32"
  shows "copy_words dst p e = Some (copy_row (unat dst div 4) (unat p div 4) ((unat e - unat p) div 4), dst + of_nat (unat e - unat p))"
    "clear_words dst p e = Some (clear_row (unat dst div 4) ((unat e - unat p) div 4), dst + of_nat (unat e - unat p))"
proof -
  let ?n = "(unat e - unat p) div 4"
  have n: "4 * ?n = unat e - unat p" using assms(1) by (simp add: sect_ok_def)
  have r: "for_range p e 4 = Some (map (\<lambda>i. p + of_nat i * 4) [0..<?n])"
    using for_range_trips [of 4 e p] assms(1) by (simp add: sect_trips) (simp add: sect_ok_def)
  have d: "word_at (dst + 4 * of_nat i) = M (unat dst div 4 + i)" if "i < ?n" for i
    using that n assms(2, 3) by (intro word_at_nat) auto
  have "word_at (p + 4 * of_nat i) = M (unat p div 4 + i)" if "i < ?n" for i
    using that n assms(1) unat_lt_2p [of e] by (intro word_at_nat) (auto simp: sect_ok_def)
  then have q: "word_at (p + of_nat i * 4) = M (unat p div 4 + i)" if "i < ?n" for i using that by (simp add: mult.commute)
  have "(of_nat (4 * ?n) :: u32) = of_nat (unat e - unat p)" by (simp only: n)
  then have "4 * of_nat ?n = (of_nat (unat e - unat p) :: u32)" by (simp only: of_nat_mult of_nat_numeral)
  then show "copy_words dst p e = Some (copy_row (unat dst div 4) (unat p div 4) ?n, dst + of_nat (unat e - unat p))"
    "clear_words dst p e = Some (clear_row (unat dst div 4) ?n, dst + of_nat (unat e - unat p))"
    by (simp_all add: copy_words_def clear_words_def r copy_row_def clear_row_def d q del: of_nat_diff)
qed

definition boot_tls :: "snrt_cfg \<Rightarrow> linker \<Rightarrow> nat \<Rightarrow> nat \<Rightarrow> instr list" where
  "boot_tls c k cl i = (let T = tls_at c k cl i div 4 in
     copy_row T (unat (tdata_start k) div 4) (tdata_size k div 4)
     @ clear_row (T + tdata_size k div 4) ((tls_size k - tdata_size k) div 4))"

definition boot_cls :: "snrt_cfg \<Rightarrow> linker \<Rightarrow> u32 \<Rightarrow> u32 \<Rightarrow> nat \<Rightarrow> instr list" where
  "boot_cls c k l1_start l1_end cl = (let C = cls_top c k cl div 4; l3 = unat (l3_allocator_addr k) div 4 in
     copy_row C (unat (cdata_start k) div 4) (cdata_size k div 4)
     @ clear_row (C + cdata_size k div 4) ((cls_size k - cdata_size k) div 4)
     @ [Asg (M (C + 1)) (\<lambda>_. ucast (ALIGN_UP l1_start MIN_CHUNK_SIZE)) [], Asg (M (C + 2)) (\<lambda>_. ucast (l1_end - l1_start)) [],
        Asg (M (C + 3)) hd [M (C + 1)], Asg (M l3) (\<lambda>_. ucast (ALIGN_UP (edram k) MIN_CHUNK_SIZE)) [],
        Asg (M (l3 + 1)) (\<lambda>_. 0) [], Asg (M (l3 + 2)) hd [M l3]])"

definition boot_code :: "snrt_cfg \<Rightarrow> linker \<Rightarrow> u32 \<Rightarrow> u32 \<Rightarrow> nat \<Rightarrow> nat \<Rightarrow> instr list" where
  "boot_code c k l1_start l1_end cl i = (let dm = (Suc i = cores_of c) in
     boot_tls c k cl i
     @ (if cl = 0 \<and> dm then clear_row (unat (bss_start k) div 4) (bss_size k div 4) else [])
     @ [Asg (M (tls_at c k cl i div 4 + unat (cls_ptr_offset k) div 4)) (\<lambda>_. ucast (of_nat (cls_top c k cl) :: u32)) []]
     @ (if dm then boot_cls c k l1_start l1_end cl else []))"

lemma tls_range:
  assumes "boot_ok c k cl" "i < cores_of c"
  shows "tcdm_start c cl \<le> tls_at c k cl i" "tls_at c k cl i + tls_size k + i * 1032 + 8 \<le> cls_top c k cl"
    "cls_top c k cl \<le> tls_at c k cl i + Suc i * 1032 + 8" "4 dvd tls_at c k cl i"
proof -
  note S = boot_sizes [OF assms] and B = boot_okD(16) [OF assms(1)]
  define a where "a = cls_top c k cl - 8 - i * 1032 - tls_size k"
  have t: "tls_at c k cl i = a - a mod 8" by (simp add: tls_at_def a_def minus_mod_eq_div_mult)
  have "a mod 8 \<le> 7" using mod_less_divisor [of 8 a] by simp
  moreover have "a + 8 + i * 1032 + tls_size k = cls_top c k cl" "tcdm_start c cl + 7 \<le> a" using S(1, 2) unfolding a_def by linarith+
  ultimately show "tcdm_start c cl \<le> tls_at c k cl i" "tls_at c k cl i + tls_size k + i * 1032 + 8 \<le> cls_top c k cl"
    "cls_top c k cl \<le> tls_at c k cl i + Suc i * 1032 + 8" using B unfolding t by auto
  show "4 dvd tls_at c k cl i" unfolding tls_at_def by (rule dvd_mult) simp
qed

lemma hart_dm:
  assumes "boot_ok c k cl" "i < cores_of c"
  shows "snrt_is_dm_core c (hart_of c cl i) \<longleftrightarrow> Suc i = cores_of c" "snrt_cluster_idx c (hart_of c cl i) = 0 \<longleftrightarrow> cl = 0"
proof -
  note B = boot_okD [OF assms(1)]
  show "snrt_is_dm_core c (hart_of c cl i) \<longleftrightarrow> Suc i = cores_of c"
    using hart_is_compute [OF B(1, 3) assms(2)] assms(2) B(2) by (auto simp: snrt_is_dm_core_def)
  show "snrt_cluster_idx c (hart_of c cl i) = 0 \<longleftrightarrow> cl = 0" using hart_cluster_idx [OF B(1, 3) assms(2)] by (metis unat_eq_zero)
qed

text \<open>The three parts that depend on the addresses.\<close>

lemma init_tls_nat:
  assumes "boot_ok c k cl" "i < cores_of c"
  shows "snrt_init_tls k (crt0_tp c k (hart_of c cl i)) = Some (boot_tls c k cl i)"
proof -
  note B = boot_okD [OF assms(1)] and S = boot_sizes [OF assms] and R = tls_range [OF assms] and tp = crt0_tp_nat [OF assms]
  let ?tp = "crt0_tp c k (hart_of c cl i)"
  have top: "tls_at c k cl i + tls_size k < 2 ^ 32" using R(2) S(3) B(15) by linarith
  have c: "copy_words ?tp (tdata_start k) (tdata_end k) = Some (copy_row (tls_at c k cl i div 4) (unat (tdata_start k) div 4) (tdata_size k div 4), ?tp + of_nat (tdata_size k))"
    using words_nat(1) [OF B(5), of ?tp] R(4) top unfolding tp tdata_size_def tls_size_def by simp
  have u: "unat (?tp + of_nat (tdata_size k)) = tls_at c k cl i + tdata_size k"
    using tp top by (intro unat_eqI) (simp_all add: tls_size_def flip: tp)
  have "clear_words (?tp + of_nat (tdata_size k)) (tbss_start k) (tbss_end k)
    = Some (clear_row ((tls_at c k cl i + tdata_size k) div 4) ((tls_size k - tdata_size k) div 4), ?tp + of_nat (tdata_size k) + of_nat (tls_size k - tdata_size k))"
    using words_nat(2) [OF B(6), of "?tp + of_nat (tdata_size k)"] R(4) S(6) top unfolding u by (simp add: tls_size_def)
  then show ?thesis using c R(4) S(6) by (simp add: snrt_init_tls_def boot_tls_def Let_def div_add)
qed

lemma init_cls_nat:
  assumes "boot_ok c k cl" "i < cores_of c"
  shows "\<exists>rest. snrt_init_cls c k (crt0_tp c k (hart_of c cl i)) (hart_of c cl i)
      = Some (Asg (M (tls_at c k cl i div 4 + unat (cls_ptr_offset k) div 4)) (\<lambda>_. ucast (of_nat (cls_top c k cl) :: u32)) [] # rest)
    \<and> rest @ snrt_init_libs c k (hart_of c cl i) l1_start l1_end = (if Suc i = cores_of c then boot_cls c k l1_start l1_end cl else [])"
proof -
  note B = boot_okD [OF assms(1)] and S = boot_sizes [OF assms] and R = tls_range [OF assms] and tp = crt0_tp_nat [OF assms] and cb = cls_base_nat [OF assms]
  let ?tp = "crt0_tp c k (hart_of c cl i)" and ?C = "snrt_cls_base_addr c k (hart_of c cl i)"
  have top: "tls_at c k cl i + tls_size k < 2 ^ 32" "cls_top c k cl + cls_size k < 2 ^ 32" using R(2) S(3) B(15) by linarith+
  have C: "?C = of_nat (cls_top c k cl)" by (metis cb u32_of_unat)
  have "unat (?tp + cls_ptr_offset k) = tls_at c k cl i + unat (cls_ptr_offset k)"
    using tp top(1) B(21) by (subst unat_plus_no_overflow) simp_all
  then have p: "word_at (?tp + cls_ptr_offset k) = M (tls_at c k cl i div 4 + unat (cls_ptr_offset k) div 4)"
    using R(4) B(19) by (simp add: word_at_def div_add)
  have c: "copy_words ?C (cdata_start k) (cdata_end k) = Some (copy_row (cls_top c k cl div 4) (unat (cdata_start k) div 4) (cdata_size k div 4), ?C + of_nat (cdata_size k))"
    using words_nat(1) [OF B(8), of ?C] S(8) top(2) unfolding cb cdata_size_def cls_size_def by simp
  have u: "unat (?C + of_nat (cdata_size k)) = cls_top c k cl + cdata_size k"
    using top(2) by (intro unat_eqI) (simp_all add: cls_size_def C)
  have z: "clear_words (?C + of_nat (cdata_size k)) (cbss_start k) (cbss_end k)
    = Some (clear_row ((cls_top c k cl + cdata_size k) div 4) ((cls_size k - cdata_size k) div 4), ?C + of_nat (cdata_size k) + of_nat (cls_size k - cdata_size k))"
    using words_nat(2) [OF B(9), of "?C + of_nat (cdata_size k)"] S(7, 8) top(2) unfolding u by (simp add: cls_size_def)
  have w: "word_at (?C + 4 * of_nat j) = M (cls_top c k cl div 4 + j)" if "j < 4" for j
    using word_at_nat [of ?C j] S(8) top(2) B(17) that unfolding cb by simp
  have l: "word_at (l3_allocator_addr k + 4 * of_nat j) = M (unat (l3_allocator_addr k) div 4 + j)" if "j < 3" for j
    using word_at_nat [of "l3_allocator_addr k" j] B(10, 11) that by simp
  have "snrt_init_libs c k (hart_of c cl i) l1_start l1_end = (if Suc i = cores_of c then
      (let C = cls_top c k cl div 4; l3 = unat (l3_allocator_addr k) div 4 in
       [Asg (M (C + 1)) (\<lambda>_. ucast (ALIGN_UP l1_start MIN_CHUNK_SIZE)) [], Asg (M (C + 2)) (\<lambda>_. ucast (l1_end - l1_start)) [],
        Asg (M (C + 3)) hd [M (C + 1)], Asg (M l3) (\<lambda>_. ucast (ALIGN_UP (edram k) MIN_CHUNK_SIZE)) [],
        Asg (M (l3 + 1)) (\<lambda>_. 0) [], Asg (M (l3 + 2)) hd [M l3]]) else [])"
    using w [of 1] w [of 2] w [of 3] l [of 0] l [of 1] l [of 2] hart_dm(1) [OF assms] by (simp add: snrt_init_libs_def Let_def add.assoc)
  then show ?thesis using c z hart_dm(1) [OF assms] S(7, 8) by (simp add: snrt_init_cls_def p C boot_cls_def Let_def div_add)
qed

lemma main_init_nat:
  assumes "boot_ok c k cl" "i < cores_of c"
  shows "snrt_main_init c k l1_start l1_end (hart_of c cl i) = Some (boot_code c k l1_start l1_end cl i)"
proof -
  note B = boot_okD [OF assms(1)]
  have "clear_words (bss_start k) (bss_start k) (bss_end k) = Some (clear_row (unat (bss_start k) div 4) (bss_size k div 4), bss_start k + of_nat (bss_size k))"
    using words_nat(2) [OF B(7), of "bss_start k"] B(7) unfolding bss_size_def by (simp add: sect_ok_def)
  then show ?thesis
    using init_tls_nat [OF assms] init_cls_nat [OF assms, of l1_start l1_end] hart_dm [OF assms]
    by (auto simp: snrt_main_init_def snrt_init_bss_def boot_code_def Let_def)
qed

text \<open>The word for the return value of \<open>main\<close>, and the store that clears it.\<close>

definition return_word :: "snrt_cfg \<Rightarrow> linker \<Rightarrow> nat \<Rightarrow> loc" where
  "return_word c k cl = M ((cls_top c k cl - 8) div 4)"

definition clear_return :: "snrt_cfg \<Rightarrow> linker \<Rightarrow> nat \<Rightarrow> instr" where
  "clear_return c k cl = Asg (return_word c k cl) (\<lambda>_. 0) []"

lemma cluster_start_nat:
  assumes "boot_ok c k cl"
  shows "cluster_start c k l1_start l1_end cl = Some (map (\<lambda>i. map Act (clear_return c k cl # boot_code c k l1_start l1_end cl i) @ [Bar]) [0..<cores_of c])"
  unfolding cluster_start_def using main_init_nat [OF assms] crt0_return_nat [OF assms]
  by (intro those_Some) (simp add: crt0_init_stack_def clear_return_def return_word_def word_at_def)

section \<open>What the cores touch\<close>

text \<open>A range of \<open>n\<close> bytes from \<open>a\<close>, as words.\<close>

definition words_of :: "nat \<Rightarrow> nat \<Rightarrow> loc set" where
  "words_of a n = (\<lambda>j. M (a div 4 + j)) ` {..<n div 4}"

lemma words_of_byte:
  assumes "4 dvd a" "4 dvd n"
  shows "x \<in> words_of a n \<longleftrightarrow> (\<exists>m. x = M m \<and> a \<le> 4 * m \<and> 4 * m < a + n)"
proof -
  obtain p q where pq: "a = 4 * p" "n = 4 * q" using assms by (auto elim!: dvdE)
  have "(\<exists>j<q. x = M (p + j)) \<longleftrightarrow> (\<exists>m. x = M m \<and> p \<le> m \<and> m < p + q)"
  proof
    assume "\<exists>m. x = M m \<and> p \<le> m \<and> m < p + q"
    then obtain m where "x = M m" "p \<le> m" "m < p + q" by blast
    then show "\<exists>j<q. x = M (p + j)" by (intro exI [of _ "m - p"]) auto
  qed auto
  then show ?thesis by (auto simp: words_of_def pq)
qed

lemma words_of_apart:
  assumes "4 dvd a" "4 dvd n" "4 dvd b" "4 dvd m" "a + n \<le> b \<or> b + m \<le> a" "x \<in> words_of a n"
  shows "x \<notin> words_of b m"
  using assms(5, 6) unfolding words_of_byte [OF assms(1, 2)] words_of_byte [OF assms(3, 4)] by auto

lemma row_words:
  "targets (copy_row (a div 4) p (n div 4)) = words_of a n" "targets (clear_row (a div 4) (n div 4)) = words_of a n"
  by (auto simp: copy_row_targets clear_row_targets words_of_def)

definition boot_sources :: "linker \<Rightarrow> loc set" where
  "boot_sources k = words_of (unat (tdata_start k)) (tdata_size k) \<union> words_of (unat (cdata_start k)) (cdata_size k)"

definition tls_words :: "snrt_cfg \<Rightarrow> linker \<Rightarrow> nat \<Rightarrow> nat \<Rightarrow> loc set" where
  "tls_words c k cl i = words_of (tls_at c k cl i) (tls_size k)"

definition dm_words :: "snrt_cfg \<Rightarrow> linker \<Rightarrow> nat \<Rightarrow> loc set" where
  "dm_words c k cl = words_of (cls_top c k cl) (cls_size k) \<union> words_of (unat (l3_allocator_addr k)) 12
     \<union> (if cl = 0 then words_of (unat (bss_start k)) (bss_size k) else {})"

lemma boot_disjoint:
  assumes "boot_ok c k cl" "i < cores_of c"
  shows "j < cores_of c \<Longrightarrow> i \<noteq> j \<Longrightarrow> x \<in> tls_words c k cl i \<Longrightarrow> x \<notin> tls_words c k cl j"
    "x \<in> tls_words c k cl i \<Longrightarrow> x \<notin> dm_words c k cl" "x \<in> boot_sources k \<Longrightarrow> x \<notin> tls_words c k cl i" "x \<in> boot_sources k \<Longrightarrow> x \<notin> dm_words c k cl"
proof -
  note B = boot_okD [OF assms(1)] and S = boot_sizes [OF assms] and A = boot_apart [OF assms(1), unfolded apart_from_def]
  note T = words_of_byte [OF tls_range(4) [OF assms] S(5)] and R = tls_range [OF assms]
  note C = words_of_byte [OF S(8, 4)]
  have d: "4 dvd unat (tdata_start k)" "4 dvd unat (cdata_start k)" "4 dvd unat (bss_start k)" "4 dvd bss_size k" "4 dvd (12 :: nat)"
    using B(5, 7, 8) by (simp_all add: sect_ok_def bss_size_def dvd_diff_nat)
  note D = words_of_byte [OF d(1) S(6)] words_of_byte [OF d(2) S(7)] words_of_byte [OF d(3, 4)] words_of_byte [OF B(10) d(5)]
  have w: "tls_at c k cl i + tls_size k \<le> cls_top c k cl" using R(2) by linarith
  show "x \<notin> tls_words c k cl j" if "j < cores_of c" "i \<noteq> j" "x \<in> tls_words c k cl i"
  proof -
    note R' = tls_range [OF assms(1) that(1)]
    have "tls_at c k cl i + tls_size k \<le> tls_at c k cl j \<or> tls_at c k cl j + tls_size k \<le> tls_at c k cl i"
    proof (cases "i < j")
      case True
      then have "Suc i * 1032 \<le> j * 1032" by (intro mult_le_mono1) simp
      then show ?thesis using R(3) R'(2) by linarith
    next
      case False
      then have "Suc j * 1032 \<le> i * 1032" using that(2) by (intro mult_le_mono1) simp
      then show ?thesis using R(2) R'(3) by linarith
    qed
    then show ?thesis using words_of_apart [OF R(4) S(5) R'(4) S(5)] that(3) unfolding tls_words_def by blast
  qed
  show "x \<notin> dm_words c k cl" if "x \<in> tls_words c k cl i"
    using that w R(1) S(3) A(3, 4) unfolding dm_words_def tls_words_def T C Un_iff if_split_mem2 D by (auto split: if_splits)
  show "x \<notin> tls_words c k cl i" if "x \<in> boot_sources k"
    using that w R(1) S(3) A(1, 2) unfolding boot_sources_def tls_words_def T Un_iff D by auto
  show "x \<notin> dm_words c k cl" if "x \<in> boot_sources k"
  proof -
    have "unat (tdata_start k) + tdata_size k \<le> cls_top c k cl \<or> cls_top c k cl + cls_size k \<le> unat (tdata_start k)"
      "unat (cdata_start k) + cdata_size k \<le> cls_top c k cl \<or> cls_top c k cl + cls_size k \<le> unat (cdata_start k)"
      using S(2, 3) A(1, 2) by linarith+
    note t = this
    have "x \<notin> words_of (cls_top c k cl) (cls_size k) \<and> x \<notin> words_of (unat (l3_allocator_addr k)) 12 \<and> x \<notin> words_of (unat (bss_start k)) (bss_size k)"
    proof (cases "x \<in> words_of (unat (tdata_start k)) (tdata_size k)")
      case True
      note a = words_of_apart [OF d(1) S(6) _ _ _ True]
      show ?thesis using a [OF S(8, 4) t(1)] a [OF B(10) d(5)] a [OF d(3, 4)] A(5, 7) by blast
    next
      case False
      then have c: "x \<in> words_of (unat (cdata_start k)) (cdata_size k)" using that by (simp add: boot_sources_def)
      note a = words_of_apart [OF d(2) S(7) _ _ _ c]
      show ?thesis using a [OF S(8, 4) t(2)] a [OF B(10) d(5)] a [OF d(3, 4)] A(6, 8) by blast
    qed
    then show ?thesis by (auto simp: dm_words_def)
  qed
qed

lemma words_of_split:
  assumes "4 dvd a" "4 dvd n" "4 dvd m" "n \<le> m"
  shows "words_of a m = words_of a n \<union> words_of (a + n) (m - n)"
proof -
  have "4 dvd a + n" "4 dvd m - n" using assms by (simp_all add: dvd_diff_nat)
  then show ?thesis using assms(4)
    by (intro set_eqI) (auto simp: words_of_byte [OF assms(1, 3)] words_of_byte [OF assms(1, 2)] words_of_byte)
qed

lemma clear_row_defined: "defined X (clear_row dst n)"
  by (induction n) (simp_all add: clear_row_def)

lemma boot_tls_targets: "boot_ok c k cl \<Longrightarrow> i < cores_of c \<Longrightarrow> targets (boot_tls c k cl i) = tls_words c k cl i"
proof -
  assume a: "boot_ok c k cl" "i < cores_of c"
  note S = boot_sizes [OF a] and R = tls_range [OF a]
  have e: "tls_at c k cl i div 4 + tdata_size k div 4 = (tls_at c k cl i + tdata_size k) div 4" using R(4) S(6) by (simp add: div_add)
  have "tdata_size k \<le> tls_size k" by (simp add: tls_size_def)
  then show ?thesis unfolding boot_tls_def Let_def targets_simps row_words e tls_words_def
    by (rule words_of_split [OF R(4) S(6, 5), symmetric])
qed

lemma boot_cls_targets:
  assumes "boot_ok c k cl" "i < cores_of c"
  shows "targets (boot_cls c k l1_start l1_end cl) = words_of (cls_top c k cl) (cls_size k) \<union> words_of (unat (l3_allocator_addr k)) 12"
proof -
  note S = boot_sizes [OF assms] and B = boot_okD [OF assms(1)]
  have e: "cls_top c k cl div 4 + cdata_size k div 4 = (cls_top c k cl + cdata_size k) div 4" using S(7, 8) by (simp add: div_add)
  have le: "cdata_size k \<le> cls_size k" by (simp add: cls_size_def)
  have "4 \<le> cls_size k div 4" using B(17) by simp
  then have "M (cls_top c k cl div 4 + j) \<in> words_of (cls_top c k cl) (cls_size k)" if "j < 4" for j using that by (auto simp: words_of_def)
  from this [of 1] this [of 2] this [of 3]
  have "{M (cls_top c k cl div 4 + 1), M (cls_top c k cl div 4 + 2), M (cls_top c k cl div 4 + 3)} \<subseteq> words_of (cls_top c k cl) (cls_size k)" by simp
  moreover have "words_of (unat (l3_allocator_addr k)) 12
      = {M (unat (l3_allocator_addr k) div 4), M (unat (l3_allocator_addr k) div 4 + 1), M (unat (l3_allocator_addr k) div 4 + 2)}"
    by (simp add: words_of_def lessThan_nat_numeral lessThan_Suc) blast
  ultimately show ?thesis
    unfolding boot_cls_def Let_def targets_simps row_words e words_of_split [OF S(8, 7, 4) le] by auto
qed

lemma boot_code_touches:
  assumes "boot_ok c k cl" "i < cores_of c"
  shows "x \<in> targets (boot_code c k l1_start l1_end cl i) \<Longrightarrow> x \<in> tls_words c k cl i \<or> Suc i = cores_of c \<and> x \<in> dm_words c k cl"
    "defined (boot_sources k) (boot_code c k l1_start l1_end cl i)"
proof -
  note S = boot_sizes [OF assms] and B = boot_okD [OF assms(1)]
  have "unat (cls_ptr_offset k) div 4 < tls_size k div 4" using B(19, 21) S(5) by (auto elim!: dvdE)
  then have p: "M (tls_at c k cl i div 4 + unat (cls_ptr_offset k) div 4) \<in> tls_words c k cl i" by (auto simp: tls_words_def words_of_def)
  show "x \<in> tls_words c k cl i \<or> Suc i = cores_of c \<and> x \<in> dm_words c k cl" if "x \<in> targets (boot_code c k l1_start l1_end cl i)"
    using that p by (auto simp: boot_code_def Let_def boot_tls_targets [OF assms] boot_cls_targets [OF assms] row_words dm_words_def split: if_splits)
  have "defined (boot_sources k) (boot_tls c k cl i)"
    by (auto simp: boot_tls_def Let_def clear_row_defined boot_sources_def words_of_def intro!: copy_row_defined)
  moreover have "defined (boot_sources k) (boot_cls c k l1_start l1_end cl)"
    by (auto simp: boot_cls_def Let_def clear_row_defined boot_sources_def words_of_def intro!: copy_row_defined)
  ultimately show "defined (boot_sources k) (boot_code c k l1_start l1_end cl i)"
    by (auto simp: boot_code_def Let_def clear_row_defined intro: defined_mono)
qed

text \<open>The stacks of the cores, with the thread-local storages at their tops, and the return word above them.\<close>

definition stack_words :: "snrt_cfg \<Rightarrow> linker \<Rightarrow> nat \<Rightarrow> loc set" where
  "stack_words c k cl = words_of (cls_top c k cl - 8 - cores_of c * 1032) (cores_of c * 1032)"

lemma tls_in_stack:
  assumes "boot_ok c k cl" "i < cores_of c"
  shows "tls_words c k cl i \<subseteq> stack_words c k cl"
proof
  note S = boot_sizes [OF assms] and R = tls_range [OF assms] and B = boot_okD [OF assms(1)]
  fix x assume "x \<in> tls_words c k cl i"
  then obtain m where m: "x = M m" "tls_at c k cl i \<le> 4 * m" "4 * m < tls_at c k cl i + tls_size k"
    unfolding tls_words_def words_of_byte [OF R(4) S(5)] by blast
  have "Suc i * 1032 \<le> cores_of c * 1032" using assms(2) by (intro mult_le_mono1) simp
  moreover have "cores_of c * 1032 + 8 \<le> cls_top c k cl" using B(18) S(3) by linarith
  ultimately have "cls_top c k cl - 8 - cores_of c * 1032 \<le> 4 * m" "4 * m < cls_top c k cl - 8 - cores_of c * 1032 + cores_of c * 1032"
    using R(2, 3) m(2, 3) by linarith+
  then show "x \<in> stack_words c k cl"
    unfolding stack_words_def using m(1) S(8) by (subst words_of_byte) (auto intro!: dvd_diff_nat)
qed

lemma return_apart:
  assumes "boot_ok c k cl" "i < cores_of c"
  shows "return_word c k cl \<notin> tls_words c k cl i" "return_word c k cl \<notin> dm_words c k cl" "return_word c k cl \<notin> boot_sources k"
proof -
  note B = boot_okD [OF assms(1)] and S = boot_sizes [OF assms] and A = boot_apart [OF assms(1), unfolded apart_from_def] and R = tls_range [OF assms]
  have d: "4 dvd unat (tdata_start k)" "4 dvd unat (cdata_start k)" "4 dvd unat (bss_start k)" "4 dvd bss_size k" "4 dvd (12 :: nat)" "4 dvd (4 :: nat)"
    using B(5, 7, 8) by (simp_all add: sect_ok_def bss_size_def dvd_diff_nat)
  have r: "tcdm_start c cl \<le> cls_top c k cl - 8" "8 \<le> cls_top c k cl" "4 dvd cls_top c k cl - 8" using S(1, 8) by (auto intro!: dvd_diff_nat)
  have w: "return_word c k cl \<in> words_of (cls_top c k cl - 8) 4" by (simp add: return_word_def words_of_def)
  note a = words_of_apart [OF r(3) d(6) _ _ _ w]
  show "return_word c k cl \<notin> tls_words c k cl i"
    unfolding tls_words_def using R(2) by (intro a R(4) S(5)) linarith
  have "return_word c k cl \<notin> words_of (cls_top c k cl) (cls_size k)" using r(2) by (intro a S(4, 8)) linarith
  moreover have "return_word c k cl \<notin> words_of (unat (l3_allocator_addr k)) 12" "return_word c k cl \<notin> words_of (unat (bss_start k)) (bss_size k)"
    "return_word c k cl \<notin> words_of (unat (tdata_start k)) (tdata_size k)" "return_word c k cl \<notin> words_of (unat (cdata_start k)) (cdata_size k)"
    using r(1, 2) S(3) A(1-4) by (intro a B(10) d S(6, 7); linarith)+
  ultimately show "return_word c k cl \<notin> dm_words c k cl" "return_word c k cl \<notin> boot_sources k"
    by (auto simp: dm_words_def boot_sources_def)
qed

lemma return_untouched:
  assumes "boot_ok c k cl" "i < cores_of c"
  shows "untouched (return_word c k cl) (boot_code c k l1_start l1_end cl i)"
proof -
  note touch = boot_code_touches [OF assms, where l1_start = l1_start and l1_end = l1_end] and A = return_apart [OF assms]
  have "return_word c k cl \<notin> targets (boot_code c k l1_start l1_end cl i)" using touch(1) A(1, 2) by blast
  then show ?thesis unfolding untouched_def using defined_sources [OF touch(2)] A(3) by blast
qed

section \<open>Cores in parallel\<close>

abbreviation "boot_threads c k l1_start l1_end cl \<equiv> map (\<lambda>i. map Act (clear_return c k cl # boot_code c k l1_start l1_end cl i) @ [Bar]) [0..<cores_of c]"

lemma boot_race_free:
  assumes "boot_ok c k cl"
  shows "matched 2 (boot_threads c k l1_start l1_end cl)" "race_free 2 (boot_threads c k l1_start l1_end cl)"
proof -
  have "0 < cores_of c" using boot_okD(1) [OF assms] by (simp add: wf_cfg_def)
  then show "matched 2 (boot_threads c k l1_start l1_end cl)" by (auto simp: matched_def)
  have "indep a b" if "i < cores_of c" "j < cores_of c" "i \<noteq> j" "a \<in> set (boot_code c k l1_start l1_end cl i)" "b \<in> set (boot_code c k l1_start l1_end cl j)" for i j a b
  proof -
    have t: "target e \<in> tls_words c k cl m \<or> Suc m = cores_of c \<and> target e \<in> dm_words c k cl"
      and s: "y \<in> set (sources e) \<Longrightarrow> y \<in> boot_sources k \<or> y \<in> tls_words c k cl m \<or> Suc m = cores_of c \<and> y \<in> dm_words c k cl"
      if "m < cores_of c" "e \<in> set (boot_code c k l1_start l1_end cl m)" for m e y
      using boot_code_touches(1) [OF assms that(1), of _ l1_start l1_end] defined_sources [OF boot_code_touches(2) [OF assms that(1)] that(2)] that(2)
      by (auto simp: targets_def)
    note D = boot_disjoint [OF assms]
    have "target a \<noteq> y" if "y = target b \<or> y \<in> set (sources b)" for y
      using t [OF \<open>i < cores_of c\<close> \<open>a \<in> _\<close>] t [OF \<open>j < cores_of c\<close> \<open>b \<in> _\<close>] s [OF \<open>j < cores_of c\<close> \<open>b \<in> _\<close>, of y] that \<open>i \<noteq> j\<close>
        D(1) [OF \<open>i < cores_of c\<close> \<open>j < cores_of c\<close>] D(2) [OF \<open>i < cores_of c\<close>] D(2) [OF \<open>j < cores_of c\<close>] D(3) [OF \<open>i < cores_of c\<close>] D(4) [OF \<open>i < cores_of c\<close>] by auto
    moreover have "target b \<noteq> y" if "y \<in> set (sources a)" for y
      using t [OF \<open>j < cores_of c\<close> \<open>b \<in> _\<close>] s [OF \<open>i < cores_of c\<close> \<open>a \<in> _\<close>, of y] that \<open>i \<noteq> j\<close>
        D(1) [OF \<open>i < cores_of c\<close> \<open>j < cores_of c\<close>] D(2) [OF \<open>i < cores_of c\<close>] D(2) [OF \<open>j < cores_of c\<close>] D(3) [OF \<open>j < cores_of c\<close>] D(4) [OF \<open>j < cores_of c\<close>] by auto
    ultimately show ?thesis unfolding indep_def by blast
  qed
  moreover have "indep (clear_return c k cl) a" if "i < cores_of c" "a \<in> set (boot_code c k l1_start l1_end cl i)" for i a
    using return_untouched [OF assms that(1), of l1_start l1_end] that(2) by (auto simp: untouched_def indep_def clear_return_def targets_def)
  moreover have "indep (clear_return c k cl) (clear_return c k cl)" by (simp add: indep_def clear_return_def)
  ultimately show "race_free 2 (boot_threads c k l1_start l1_end cl)"
    by (auto simp: race_free_def less_Suc_eq numeral_2_eq_2 intro: indep_sym)
qed

text \<open>The store that the cores one after the other leave.\<close>

definition boot_state :: "snrt_cfg \<Rightarrow> linker \<Rightarrow> u32 \<Rightarrow> u32 \<Rightarrow> nat \<Rightarrow> store \<Rightarrow> store" where
  "boot_state c k l1_start l1_end cl s = (run (concat (map (boot_code c k l1_start l1_end cl) [0..<cores_of c])) s)(return_word c k cl := 0)"

lemma boot_seq_run:
  assumes "boot_ok c k cl"
  shows "seq_run 2 (boot_threads c k l1_start l1_end cl) s = boot_state c k l1_start l1_end cl s"
proof -
  have z: "concat (map (\<lambda>x. []) xs) = ([] :: instr list)" for xs :: "nat list" by (induction xs) auto
  have "0 < cores_of c" using boot_okD(1) [OF assms] by (simp add: wf_cfg_def)
  then have "run (concat (map (\<lambda>i. clear_return c k cl # boot_code c k l1_start l1_end cl i) [0..<cores_of c])) s
    = boot_state c k l1_start l1_end cl s"
    unfolding clear_return_def boot_state_def by (subst run_store_first) (auto intro: return_untouched [OF assms])
  then show ?thesis by (simp add: seq_run_def numeral_2_eq_2 phase_code_def comp_def del: fun_upd_apply) (simp only: z run_simps)
qed

text \<open>Each word ends up as the core that writes it leaves it.\<close>

lemma boot_word:
  assumes "boot_ok c k cl" "i < cores_of c" "y \<in> targets (boot_code c k l1_start l1_end cl i)"
  shows "boot_state c k l1_start l1_end cl s y = run (boot_code c k l1_start l1_end cl i) s y"
proof -
  have "y \<noteq> return_word c k cl" using return_untouched [OF assms(1, 2), of l1_start l1_end] assms(3) by (auto simp: untouched_def)
  moreover have "run (concat (map (boot_code c k l1_start l1_end cl) [0..<cores_of c])) s y = run (boot_code c k l1_start l1_end cl i) s y"
  proof (rule run_concat_at [where X = "boot_sources k"])
    note D = boot_disjoint [OF assms(1)]
    fix j assume "j \<in> set [0..<cores_of c]" and ne: "j \<noteq> i"
    then have j: "j < cores_of c" by simp
    show "y \<notin> targets (boot_code c k l1_start l1_end cl j)"
      using boot_code_touches(1) [OF assms(1, 2), of y l1_start l1_end] boot_code_touches(1) [OF assms(1) j, of y l1_start l1_end] assms(3) ne
        D(1) [OF assms(2) j, of y] D(2) [OF assms(2), of y] D(2) [OF j, of y] by auto
    show "x \<notin> boot_sources k" if "x \<in> targets (boot_code c k l1_start l1_end cl j)" for x
      using boot_code_touches(1) [OF assms(1) j that] D(3) [OF j, of x] D(4) [OF j, of x] by auto
  qed (use assms boot_code_touches(2) in auto)
  ultimately show ?thesis by (simp add: boot_state_def)
qed

section \<open>The words of a core\<close>

lemma in_words: "4 dvd a \<Longrightarrow> 4 * j < n \<Longrightarrow> 4 dvd n \<Longrightarrow> M (a div 4 + j) \<in> words_of a n"
  by (auto simp: words_of_def elim!: dvdE)

lemma words_apart_cells:
  assumes "\<And>x. x \<in> words_of a n \<Longrightarrow> x \<notin> words_of b m" "i < n div 4" "j < m div 4"
  shows "a div 4 + i \<noteq> b div 4 + j"
  using assms(1) [of "M (a div 4 + i)"] assms(2, 3) by (auto simp: words_of_def)

lemma copy_clear_run:
  assumes "4 dvd d" "4 dvd n" "4 dvd m" "n \<le> m" "\<And>x. x \<in> words_of p n \<Longrightarrow> x \<notin> words_of d m" "4 * j < m"
  shows "run (copy_row (d div 4) (p div 4) (n div 4) @ clear_row (d div 4 + n div 4) ((m - n) div 4)) s (M (d div 4 + j))
    = (if 4 * j < n then s (M (p div 4 + j)) else 0)"
proof -
  obtain x y where xy: "n = 4 * x" "m = 4 * y" using assms(2, 3) by (auto elim!: dvdE)
  have "p div 4 + a \<noteq> d div 4 + b" if "a < x" "b < x" for a b
    using words_apart_cells [where i = a and j = b, OF assms(5)] that assms(4) by (simp add: xy)
  then show ?thesis using assms(4, 6) by (simp add: xy run_copy_row run_clear_row flip: diff_mult_distrib2)
qed

lemma boot_tls_run:
  assumes "boot_ok c k cl" "i < cores_of c" "4 * j < tls_size k"
  shows "run (boot_code c k l1_start l1_end cl i) s (M (tls_at c k cl i div 4 + j))
    = (if 4 * j = unat (cls_ptr_offset k) then ucast (of_nat (cls_top c k cl) :: u32)
       else if 4 * j < tdata_size k then s (M (unat (tdata_start k) div 4 + j)) else 0)"
proof -
  note S = boot_sizes [OF assms(1, 2)] and B = boot_okD [OF assms(1)] and R = tls_range [OF assms(1, 2)]
  let ?y = "M (tls_at c k cl i div 4 + j)"
  have y: "?y \<in> tls_words c k cl i" unfolding tls_words_def by (rule in_words [OF R(4) assms(3) S(5)])
  have dm: "?y \<notin> dm_words c k cl" by (rule boot_disjoint(2) [OF assms(1, 2) y])
  have "x \<notin> words_of (tls_at c k cl i) (tls_size k)" if "x \<in> words_of (unat (tdata_start k)) (tdata_size k)" for x
    using boot_disjoint(3) [OF assms(1, 2), of x] that by (auto simp: boot_sources_def tls_words_def)
  then have t: "run (boot_tls c k cl i) s ?y = (if 4 * j < tdata_size k then s (M (unat (tdata_start k) div 4 + j)) else 0)"
    unfolding boot_tls_def Let_def by (intro copy_clear_run [OF R(4) S(6, 5) _ _ assms(3)]) (simp_all add: tls_size_def)
  have c: "?y \<notin> targets (if Suc i = cores_of c then boot_cls c k l1_start l1_end cl else [])"
    "?y \<notin> targets (if cl = 0 \<and> Suc i = cores_of c then clear_row (unat (bss_start k) div 4) (bss_size k div 4) else [])"
    using dm by (auto simp: boot_cls_targets [OF assms(1, 2)] dm_words_def row_words split: if_splits)
  have "j = unat (cls_ptr_offset k) div 4 \<longleftrightarrow> 4 * j = unat (cls_ptr_offset k)" using B(19) by (auto elim!: dvdE)
  then show ?thesis unfolding boot_code_def Let_def run_simps run_other [OF c(1)] by (simp add: run_other [OF c(2)] t)
qed

lemma boot_cls_run:
  assumes "boot_ok c k cl" "i < cores_of c"
  shows "4 * j < cls_size k \<Longrightarrow> run (boot_cls c k l1_start l1_end cl) u (M (cls_top c k cl div 4 + j))
      = (if j = 1 \<or> j = 3 then ucast (ALIGN_UP l1_start MIN_CHUNK_SIZE) else if j = 2 then ucast (l1_end - l1_start)
         else if 4 * j < cdata_size k then u (M (unat (cdata_start k) div 4 + j)) else 0)"
    "j < 3 \<Longrightarrow> run (boot_cls c k l1_start l1_end cl) u (M (unat (l3_allocator_addr k) div 4 + j))
      = (if j = 1 then 0 else ucast (ALIGN_UP (edram k) MIN_CHUNK_SIZE))"
proof -
  note S = boot_sizes [OF assms] and B = boot_okD [OF assms(1)]
  let ?C = "cls_top c k cl div 4" and ?l = "unat (l3_allocator_addr k) div 4"
  have "x \<notin> words_of (cls_top c k cl) (cls_size k)" if "x \<in> words_of (unat (cdata_start k)) (cdata_size k)" for x
    using boot_disjoint(4) [OF assms, of x] that by (auto simp: boot_sources_def dm_words_def)
  then have cc: "run (copy_row ?C (unat (cdata_start k) div 4) (cdata_size k div 4) @ clear_row (?C + cdata_size k div 4) ((cls_size k - cdata_size k) div 4)) u (M (?C + j))
      = (if 4 * j < cdata_size k then u (M (unat (cdata_start k) div 4 + j)) else 0)" if "4 * j < cls_size k" for j
    using that by (intro copy_clear_run [OF S(8, 7, 4)]) (simp_all add: cls_size_def)
  have nl: "x \<notin> words_of (unat (l3_allocator_addr k)) 12" if "x \<in> words_of (cls_top c k cl) (cls_size k)" for x
    using boot_apart(4) [OF assms(1), unfolded apart_from_def] S(2, 3) by (intro words_of_apart [OF S(8, 4) B(10) _ _ that]) auto
  have ne: "?C + a \<noteq> ?l + b" if "4 * a < cls_size k" "b < 3" for a b
    using that S(4) by (intro words_apart_cells [OF nl]) (auto elim!: dvdE)
  have ne0: "?C + a \<noteq> ?l" if "4 * a < cls_size k" for a using ne [OF that, of 0] by simp
  show "run (boot_cls c k l1_start l1_end cl) u (M (?C + j))
      = (if j = 1 \<or> j = 3 then ucast (ALIGN_UP l1_start MIN_CHUNK_SIZE) else if j = 2 then ucast (l1_end - l1_start)
         else if 4 * j < cdata_size k then u (M (unat (cdata_start k) div 4 + j)) else 0)" if "4 * j < cls_size k"
    unfolding boot_cls_def Let_def append_assoc [symmetric] using ne0 [OF that] ne [OF that, of 1] ne [OF that, of 2] cc [OF that] by (auto simp: fun_upd_apply)
  show "run (boot_cls c k l1_start l1_end cl) u (M (?l + j)) = (if j = 1 then 0 else ucast (ALIGN_UP (edram k) MIN_CHUNK_SIZE))" if "j < 3"
    unfolding boot_cls_def Let_def using that by (auto simp: less_Suc_eq numeral_3_eq_3)
qed

lemma boot_dm_run:
  assumes "boot_ok c k cl" "Suc i = cores_of c"
  shows "4 * j < cls_size k \<Longrightarrow> run (boot_code c k l1_start l1_end cl i) s (M (cls_top c k cl div 4 + j))
      = (if j = 1 \<or> j = 3 then ucast (ALIGN_UP l1_start MIN_CHUNK_SIZE) else if j = 2 then ucast (l1_end - l1_start)
         else if 4 * j < cdata_size k then s (M (unat (cdata_start k) div 4 + j)) else 0)"
    "j < 3 \<Longrightarrow> run (boot_code c k l1_start l1_end cl i) s (M (unat (l3_allocator_addr k) div 4 + j))
      = (if j = 1 then 0 else ucast (ALIGN_UP (edram k) MIN_CHUNK_SIZE))"
    "cl = 0 \<Longrightarrow> y \<in> words_of (unat (bss_start k)) (bss_size k) \<Longrightarrow> y \<notin> words_of (unat (l3_allocator_addr k)) 12 \<Longrightarrow>
      run (boot_code c k l1_start l1_end cl i) s y = 0"
proof -
  have i: "i < cores_of c" using assms(2) by simp
  note S = boot_sizes [OF assms(1) i] and B = boot_okD [OF assms(1)] and D = boot_disjoint [OF assms(1) i]
  define u where "u = run (boot_tls c k cl i @ (if cl = 0 then clear_row (unat (bss_start k) div 4) (bss_size k div 4) else [])
     @ [Asg (M (tls_at c k cl i div 4 + unat (cls_ptr_offset k) div 4)) (\<lambda>_. ucast (of_nat (cls_top c k cl) :: u32)) []]) s"
  have code: "run (boot_code c k l1_start l1_end cl i) s = run (boot_cls c k l1_start l1_end cl) u" using assms(2) by (simp add: boot_code_def u_def)
  have p: "M (tls_at c k cl i div 4 + unat (cls_ptr_offset k) div 4) \<in> tls_words c k cl i"
    unfolding tls_words_def using B(19, 21) tls_range(4) [OF assms(1) i] S(5) by (intro in_words) auto
  have src: "u x = s x" if "x \<in> boot_sources k" for x
    unfolding u_def using D(3, 4) [OF that] p by (intro run_other) (auto simp: boot_tls_targets [OF assms(1) i] row_words dm_words_def)
  have "M (unat (cdata_start k) div 4 + j) \<in> boot_sources k" if "4 * j < cdata_size k"
    using in_words [of "unat (cdata_start k)" j "cdata_size k"] that B(8) S(7) by (auto simp: boot_sources_def sect_ok_def)
  then show "run (boot_code c k l1_start l1_end cl i) s (M (cls_top c k cl div 4 + j))
      = (if j = 1 \<or> j = 3 then ucast (ALIGN_UP l1_start MIN_CHUNK_SIZE) else if j = 2 then ucast (l1_end - l1_start)
         else if 4 * j < cdata_size k then s (M (unat (cdata_start k) div 4 + j)) else 0)" if "4 * j < cls_size k"
    unfolding code boot_cls_run(1) [OF assms(1) i that] using src by simp
  show "run (boot_code c k l1_start l1_end cl i) s (M (unat (l3_allocator_addr k) div 4 + j)) = (if j = 1 then 0 else ucast (ALIGN_UP (edram k) MIN_CHUNK_SIZE))" if "j < 3"
    unfolding code by (rule boot_cls_run(2) [OF assms(1) i that])
  show "run (boot_code c k l1_start l1_end cl i) s y = 0" if "cl = 0" and y: "y \<in> words_of (unat (bss_start k)) (bss_size k)" "y \<notin> words_of (unat (l3_allocator_addr k)) 12"
  proof -
    have d: "4 dvd unat (bss_start k)" "4 dvd bss_size k" using B(7) by (simp_all add: sect_ok_def bss_size_def dvd_diff_nat)
    have "y \<notin> words_of (cls_top c k cl) (cls_size k)"
      using boot_apart(3) [OF assms(1), unfolded apart_from_def] S(2, 3) by (intro words_of_apart [OF d S(8, 4) _ y(1)]) auto
    then have "run (boot_code c k l1_start l1_end cl i) s y = u y" unfolding code using y(2) by (intro run_other) (simp add: boot_cls_targets [OF assms(1) i])
    also have "\<dots> = run (clear_row (unat (bss_start k) div 4) (bss_size k div 4)) (run (boot_tls c k cl i) s) y"
      using p D(2) [OF p] y(1) that(1) by (auto simp: dm_words_def u_def)
    also have "\<dots> = 0" using y(1) by (auto simp: words_of_def run_clear_row)
    finally show ?thesis .
  qed
qed

section \<open>The state in front of main\<close>

text \<open>The thread-local storage of hart \<open>h\<close> is a copy of \<open>.tdata\<close> followed by zeroes, with \<open>_cls_ptr\<close> set.\<close>

definition tls_ready :: "snrt_cfg \<Rightarrow> linker \<Rightarrow> u32 \<Rightarrow> store \<Rightarrow> store \<Rightarrow> bool" where
  "tls_ready c k h s t \<longleftrightarrow> (\<forall>j. 4 * j < tls_size k \<longrightarrow> t (word_at (crt0_tp c k h + 4 * of_nat j))
     = (if 4 * j = unat (cls_ptr_offset k) then ucast (snrt_cls_base_addr c k h)
        else if 4 * j < tdata_size k then s (word_at (tdata_start k + 4 * of_nat j)) else 0))"

text \<open>The cluster-local storage is a copy of \<open>.cdata\<close> followed by zeroes, with the L1 allocator set up, and so is the L3 allocator.\<close>

definition cls_ready :: "snrt_cfg \<Rightarrow> linker \<Rightarrow> u32 \<Rightarrow> u32 \<Rightarrow> u32 \<Rightarrow> store \<Rightarrow> store \<Rightarrow> bool" where
  "cls_ready c k l1_start l1_end h s t \<longleftrightarrow> (\<forall>j. 4 * j < cls_size k \<longrightarrow> t (word_at (snrt_cls_base_addr c k h + 4 * of_nat j))
     = (if j = 1 \<or> j = 3 then ucast (ALIGN_UP l1_start MIN_CHUNK_SIZE) else if j = 2 then ucast (l1_end - l1_start)
        else if 4 * j < cdata_size k then s (word_at (cdata_start k + 4 * of_nat j)) else 0))
     \<and> (\<forall>j<3. t (word_at (l3_allocator_addr k + 4 * of_nat j)) = (if j = 1 then 0 else ucast (ALIGN_UP (edram k) MIN_CHUNK_SIZE)))"

lemma sect_word_at:
  assumes "sect_ok a e" "4 * j < unat e - unat a"
  shows "word_at (a + 4 * of_nat j) = M (unat a div 4 + j)"
proof (rule word_at_nat)
  show "4 dvd unat a" using assms(1) by (simp add: sect_ok_def)
  have "unat a + 4 * j < unat e" using assms(2) by linarith
  then show "unat a + 4 * j < 2 ^ 32" using unat_lt_2p [of e] by simp
qed

lemma tls_ready_nat:
  assumes "boot_ok c k cl" "i < cores_of c"
  shows "tls_ready c k (hart_of c cl i) s t \<longleftrightarrow> (\<forall>j. 4 * j < tls_size k \<longrightarrow> t (M (tls_at c k cl i div 4 + j))
     = (if 4 * j = unat (cls_ptr_offset k) then ucast (of_nat (cls_top c k cl) :: u32)
        else if 4 * j < tdata_size k then s (M (unat (tdata_start k) div 4 + j)) else 0))"
proof -
  note S = boot_sizes [OF assms] and B = boot_okD [OF assms(1)] and R = tls_range [OF assms] and tp = crt0_tp_nat [OF assms]
  have top: "tls_at c k cl i + tls_size k < 2 ^ 32" using R(2) S(3) B(15) by linarith
  have "word_at (crt0_tp c k (hart_of c cl i) + 4 * of_nat j) = M (tls_at c k cl i div 4 + j)" if "4 * j < tls_size k" for j
    using word_at_nat [of "crt0_tp c k (hart_of c cl i)" j] R(4) top that unfolding tp by simp
  moreover have "word_at (tdata_start k + 4 * of_nat j) = M (unat (tdata_start k) div 4 + j)" if "4 * j < tdata_size k" for j
    using that unfolding tdata_size_def by (rule sect_word_at [OF B(5)])
  moreover have "snrt_cls_base_addr c k (hart_of c cl i) = of_nat (cls_top c k cl)" by (metis cls_base_nat [OF assms] u32_of_unat)
  ultimately show ?thesis unfolding tls_ready_def by auto
qed

lemma cls_ready_nat:
  assumes "boot_ok c k cl" "i < cores_of c"
  shows "cls_ready c k l1_start l1_end (hart_of c cl i) s t \<longleftrightarrow> (\<forall>j. 4 * j < cls_size k \<longrightarrow> t (M (cls_top c k cl div 4 + j))
     = (if j = 1 \<or> j = 3 then ucast (ALIGN_UP l1_start MIN_CHUNK_SIZE) else if j = 2 then ucast (l1_end - l1_start)
        else if 4 * j < cdata_size k then s (M (unat (cdata_start k) div 4 + j)) else 0))
     \<and> (\<forall>j<3. t (M (unat (l3_allocator_addr k) div 4 + j)) = (if j = 1 then 0 else ucast (ALIGN_UP (edram k) MIN_CHUNK_SIZE)))"
proof -
  note S = boot_sizes [OF assms] and B = boot_okD [OF assms(1)] and cb = cls_base_nat [OF assms]
  have top: "cls_top c k cl + cls_size k < 2 ^ 32" using S(3) B(15) by linarith
  have "word_at (snrt_cls_base_addr c k (hart_of c cl i) + 4 * of_nat j) = M (cls_top c k cl div 4 + j)" if "4 * j < cls_size k" for j
    using word_at_nat [of "snrt_cls_base_addr c k (hart_of c cl i)" j] S(8) top that unfolding cb by simp
  moreover have "word_at (cdata_start k + 4 * of_nat j) = M (unat (cdata_start k) div 4 + j)" if "4 * j < cdata_size k" for j
    using that unfolding cdata_size_def by (rule sect_word_at [OF B(8)])
  moreover have "word_at (l3_allocator_addr k + 4 * of_nat j) = M (unat (l3_allocator_addr k) div 4 + j)" if "j < 3" for j
    using word_at_nat [of "l3_allocator_addr k" j] B(10, 11) that by simp
  ultimately show ?thesis unfolding cls_ready_def by auto
qed

text \<open>The words of the allocators are those that \<open>snrt_alloc_init\<close> of \<open>Alloc\<close> sets up.\<close>

lemma cls_ready_alloc:
  fixes a :: alloc_state
  assumes "cls_ready c k l1_start l1_end h s t" "16 \<le> cls_size k" "snrt_is_dm_core c h"
  defines "a' \<equiv> snrt_alloc_init c h l1_start l1_end (edram k) a"
  shows "t (word_at (snrt_cls_base_addr c k h + 4)) = ucast (al_base (cls_l1_allocator (as_cls a')))"
    "t (word_at (snrt_cls_base_addr c k h + 8)) = ucast (al_size (cls_l1_allocator (as_cls a')))"
    "t (word_at (snrt_cls_base_addr c k h + 12)) = ucast (snrt_l1_next a')"
    "t (word_at (l3_allocator_addr k + 8)) = ucast (snrt_l3_next a')"
proof -
  have w: "4 * j < cls_size k" if "j < 4" for j using that assms(2) by simp
  note A = snrt_alloc_init_def upd_l1_def snrt_l1_next_def snrt_l3_next_def Let_def
  show "t (word_at (snrt_cls_base_addr c k h + 4)) = ucast (al_base (cls_l1_allocator (as_cls a')))"
    "t (word_at (snrt_cls_base_addr c k h + 8)) = ucast (al_size (cls_l1_allocator (as_cls a')))"
    "t (word_at (snrt_cls_base_addr c k h + 12)) = ucast (snrt_l1_next a')"
    using assms(1, 3) [unfolded cls_ready_def] w [of 1] w [of 2] w [of 3] by (auto simp: a'_def A dest: spec [of _ 1] spec [of _ 2] spec [of _ 3])
  show "t (word_at (l3_allocator_addr k + 8)) = ucast (snrt_l3_next a')"
    using assms(1, 3) [unfolded cls_ready_def] by (auto simp: a'_def A dest: spec [of _ 2])
qed

text \<open>What the cores leave, one after the other.\<close>

lemma boot_result:
  fixes s :: store
  assumes ok: "boot_ok c k cl"
  shows "i < unat (SNRT_CLUSTER_CORE_NUM c) \<Longrightarrow> tls_ready c k (hart_of c cl i) s (boot_state c k l1_start l1_end cl s)"
    "i < unat (SNRT_CLUSTER_CORE_NUM c) \<Longrightarrow> cls_ready c k l1_start l1_end (hart_of c cl i) s (boot_state c k l1_start l1_end cl s)"
    "cl = 0 \<Longrightarrow> y \<in> words_of (unat (bss_start k)) (bss_size k) - words_of (unat (l3_allocator_addr k)) 12 \<Longrightarrow>
      boot_state c k l1_start l1_end cl s y = 0"
    "y \<notin> dm_words c k cl \<Longrightarrow> y \<notin> stack_words c k cl \<Longrightarrow> y \<noteq> return_word c k cl \<Longrightarrow> boot_state c k l1_start l1_end cl s y = s y"
proof -
  let ?r = "boot_state c k l1_start l1_end cl s"
  have "0 < cores_of c" using boot_okD(1) [OF ok] by (simp add: wf_cfg_def)
  then obtain d where d: "Suc d = cores_of c" "d < cores_of c" by (metis Suc_pred lessI)
  have dm: "?r y = run (boot_code c k l1_start l1_end cl d) s y" if "y \<in> dm_words c k cl" for y
  proof (rule boot_word [OF ok d(2)])
    show "y \<in> targets (boot_code c k l1_start l1_end cl d)"
      using that d(1) by (auto simp: boot_code_def Let_def boot_cls_targets [OF ok d(2)] row_words dm_words_def split: if_splits)
  qed
  show "tls_ready c k (hart_of c cl i) s ?r" if i: "i < unat (SNRT_CLUSTER_CORE_NUM c)"
    unfolding tls_ready_nat [OF ok i]
  proof (intro allI impI)
    fix j assume j: "4 * j < tls_size k"
    have "M (tls_at c k cl i div 4 + j) \<in> targets (boot_code c k l1_start l1_end cl i)"
      using in_words [OF tls_range(4) [OF ok i] j boot_sizes(5) [OF ok i]] boot_tls_targets [OF ok i] by (simp add: boot_code_def Let_def tls_words_def)
    then show "?r (M (tls_at c k cl i div 4 + j)) = (if 4 * j = unat (cls_ptr_offset k) then ucast (of_nat (cls_top c k cl) :: u32)
        else if 4 * j < tdata_size k then s (M (unat (tdata_start k) div 4 + j)) else 0)"
      using boot_word [OF ok i] boot_tls_run [OF ok i j] by simp
  qed
  show "cls_ready c k l1_start l1_end (hart_of c cl i) s ?r" if i: "i < unat (SNRT_CLUSTER_CORE_NUM c)"
  proof -
    note S = boot_sizes [OF ok i]
    have "M (cls_top c k cl div 4 + j) \<in> dm_words c k cl" if "4 * j < cls_size k" for j
      using in_words [OF S(8) that S(4)] by (simp add: dm_words_def)
    moreover have "M (unat (l3_allocator_addr k) div 4 + j) \<in> dm_words c k cl" if "j < 3" for j
      using in_words [OF boot_okD(10) [OF ok], of j 12] that by (simp add: dm_words_def)
    ultimately show ?thesis unfolding cls_ready_nat [OF ok i] using dm boot_dm_run(1, 2) [OF ok d(1)] by simp
  qed
  show "?r y = 0" if "cl = 0" "y \<in> words_of (unat (bss_start k)) (bss_size k) - words_of (unat (l3_allocator_addr k)) 12"
    using that dm [of y] boot_dm_run(3) [OF ok d(1) that(1)] by (simp add: dm_words_def)
  show "?r y = s y" if "y \<notin> dm_words c k cl" "y \<notin> stack_words c k cl" "y \<noteq> return_word c k cl"
  proof -
    have "y \<notin> targets (boot_code c k l1_start l1_end cl i)" if "i < cores_of c" for i
      using boot_code_touches(1) [OF ok that, of y l1_start l1_end] tls_in_stack [OF ok that] \<open>y \<notin> dm_words c k cl\<close> \<open>y \<notin> stack_words c k cl\<close> by blast
    then show ?thesis unfolding boot_state_def using that(3) by (auto intro!: run_other)
  qed
qed

text \<open>
  C16: the start-up code of a cluster. Every run of its cores up to the barrier in front of \<open>main\<close> has at most as many steps as the
  cores have stores and barriers and is stuck only when all cores have passed the barrier. Then the thread-local storage of every
  core and the cluster-local storage with its allocator are initialised, the word for the return value of \<open>main\<close>, which
  all cores store to, is zero, the \<open>.bss\<close> section is zero if this is cluster 0, and no word outside of these and of
  the stacks of the cores has changed; in particular the storages of different cores do not overlap. Nothing is
  said about the rest of the stacks, where the compiled code keeps its frames.
\<close>

theorem cluster_start_correct:
  assumes ok: "boot_ok c k cl"
  shows "\<exists>ts. cluster_start c k l1_start l1_end cl = Some ts \<and> (\<forall>n x. (cstep ^^ n) (s, ts) x \<longrightarrow>
    n \<le> events ts \<and> (final x \<or> (\<exists>y. cstep x y)) \<and>
    (final x \<longrightarrow> (\<forall>i<unat (SNRT_CLUSTER_CORE_NUM c). tls_ready c k (hart_of c cl i) s (fst x) \<and> cls_ready c k l1_start l1_end (hart_of c cl i) s (fst x))
       \<and> (cl = 0 \<longrightarrow> (\<forall>y\<in>words_of (unat (bss_start k)) (bss_size k) - words_of (unat (l3_allocator_addr k)) 12. fst x y = 0))
       \<and> fst x (return_word c k cl) = 0
       \<and> (\<forall>y. y \<notin> dm_words c k cl \<longrightarrow> y \<notin> stack_words c k cl \<longrightarrow> y \<noteq> return_word c k cl \<longrightarrow> fst x y = s y)))"
proof (intro exI conjI allI impI ballI)
  let ?ts = "boot_threads c k l1_start l1_end cl"
  show "cluster_start c k l1_start l1_end cl = Some ?ts" by (rule cluster_start_nat [OF ok])
  fix n x assume r: "(cstep ^^ n) (s, ?ts) x"
  note runs = race_free_runs [OF boot_race_free [OF ok] r, unfolded boot_seq_run [OF ok]]
  show "n \<le> events ?ts" "final x \<or> (\<exists>y. cstep x y)" by (fact runs)+
  assume f: "final x"
  note x = runs(3) [OF f]
  show "tls_ready c k (hart_of c cl i) s (fst x)" "cls_ready c k l1_start l1_end (hart_of c cl i) s (fst x)" if "i < unat (SNRT_CLUSTER_CORE_NUM c)" for i
    unfolding x by (rule boot_result(1, 2) [OF ok that])+
  show "fst x y = 0" if "cl = 0" "y \<in> words_of (unat (bss_start k)) (bss_size k) - words_of (unat (l3_allocator_addr k)) 12" for y
    unfolding x by (rule boot_result(3) [OF ok that])
  show "fst x (return_word c k cl) = 0" unfolding x boot_state_def by simp
  show "fst x y = s y" if "y \<notin> dm_words c k cl" "y \<notin> stack_words c k cl" "y \<noteq> return_word c k cl" for y
    unfolding x by (rule boot_result(4) [OF ok that])
qed

definition demo_link :: linker where
  "demo_link = \<lparr> tdata_start = 0x80001000, tdata_end = 0x80001008, tbss_start = 0x80001008, tbss_end = 0x80001010,
     bss_start = 0x80002000, bss_end = 0x80002010, cdata_start = 0x80003000, cdata_end = 0x80003004, cbss_start = 0x80003004,
     cbss_end = 0x80003014, cls_ptr_offset = 12, l3_allocator_addr = 0x80002000, edram = 0x80004001 \<rparr>"

lemma demo_boot_ok: "boot_ok default_cfg demo_link 0"
  by (simp add: boot_ok_def sect_ok_def demo_link_def tls_size_def tdata_size_def cls_size_def cdata_size_def bss_size_def tcdm_start_def apart_from_def default_cfg_wf)
    (simp add: default_cfg_def)

theorem cluster_start_correct_witness:
  "\<exists>ts n x. cluster_start default_cfg demo_link 0x10000000 0x1001FF00 0 = Some ts
     \<and> (cstep ^^ n) (case_loc of_nat (\<lambda>_ _. 0), ts) x \<and> final x
     \<and> tls_ready default_cfg demo_link (hart_of default_cfg 0 3) (case_loc of_nat (\<lambda>_ _. 0)) (fst x)
     \<and> fst x (word_at 0x8000200C) = 0 \<and> fst x (word_at 0x1001FFE4) = 0 \<and> fst x (word_at 0x10000000) = of_nat (0x10000000 div 4)"
proof -
  let ?s = "case_loc of_nat (\<lambda>_ _. 0) :: store"
  obtain ts where ts: "cluster_start default_cfg demo_link 0x10000000 0x1001FF00 0 = Some ts"
    and runs: "\<forall>n x. (cstep ^^ n) (?s, ts) x \<longrightarrow> n \<le> events ts \<and> (final x \<or> (\<exists>y. cstep x y)) \<and>
    (final x \<longrightarrow> (\<forall>i<unat (SNRT_CLUSTER_CORE_NUM default_cfg). tls_ready default_cfg demo_link (hart_of default_cfg 0 i) ?s (fst x)
         \<and> cls_ready default_cfg demo_link 0x10000000 0x1001FF00 (hart_of default_cfg 0 i) ?s (fst x))
       \<and> ((0 :: nat) = 0 \<longrightarrow> (\<forall>y\<in>words_of (unat (bss_start demo_link)) (bss_size demo_link) - words_of (unat (l3_allocator_addr demo_link)) 12. fst x y = 0))
       \<and> fst x (return_word default_cfg demo_link 0) = 0
       \<and> (\<forall>y. y \<notin> dm_words default_cfg demo_link 0 \<longrightarrow> y \<notin> stack_words default_cfg demo_link 0 \<longrightarrow> y \<noteq> return_word default_cfg demo_link 0 \<longrightarrow> fst x y = ?s y))"
    using cluster_start_correct [OF demo_boot_ok, of "0x10000000" "0x1001FF00" ?s] by blast
  obtain n x where x: "(cstep ^^ n) (?s, ts) x" "final x"
    using bounded_reaches [of cstep "(?s, ts)" "events ts" final] runs by blast
  have "(3 :: nat) < unat (SNRT_CLUSTER_CORE_NUM default_cfg)" by (simp add: default_cfg_def)
  then have "tls_ready default_cfg demo_link (hart_of default_cfg 0 3) ?s (fst x)" using runs x by blast
  moreover have "word_at 0x8000200C \<in> words_of (unat (bss_start demo_link)) (bss_size demo_link) - words_of (unat (l3_allocator_addr demo_link)) 12"
    by (auto simp: word_at_def words_of_def demo_link_def bss_size_def image_iff)
  then have "fst x (word_at 0x8000200C) = 0" using runs x by blast
  moreover have "return_word default_cfg demo_link 0 = word_at 0x1001FFE4"
    by (simp add: return_word_def word_at_def cls_top_def cls_size_def cdata_size_def tcdm_start_def demo_link_def default_cfg_def)
  then have "fst x (word_at 0x1001FFE4) = 0" using runs x by metis
  moreover have "word_at 0x10000000 \<notin> dm_words default_cfg demo_link 0" "word_at 0x10000000 \<notin> stack_words default_cfg demo_link 0"
    "word_at 0x10000000 \<noteq> return_word default_cfg demo_link 0"
    by (auto simp: dm_words_def stack_words_def return_word_def words_of_def word_at_def cls_top_def cls_size_def cdata_size_def bss_size_def
      tcdm_start_def demo_link_def default_cfg_def)
  then have "fst x (word_at 0x10000000) = ?s (word_at 0x10000000)" using runs x by blast
  then have "fst x (word_at 0x10000000) = of_nat (0x10000000 div 4)" by (simp add: word_at_def)
  ultimately show ?thesis using ts x by blast
qed

end
