(* ===== verification/Ssr.thy ===== *)
theory Ssr
  imports Prelude
begin

text \<open>
  Stream semantic registers: the configuration functions of \<open>sw/snRuntime/src/ssr.h\<close>, the
  address generator they program (\<open>snitch_ssr_addr_gen.sv\<close>, affine streams) and the
  repetition counter of a data mover (\<open>snitch_ssr.sv\<close>). The main result is that the strides the
  functions write make the generator walk exactly the loop nest the caller asks for.
\<close>

section \<open>The address generator\<close>

text \<open>
  The widths of the loop counters and of the repetition counter are parameters of the
  hardware; pointers are kept at 32 bits.
\<close>

record ssr_hw =
  IndexWidth :: nat
  RptWidth :: nat

text \<open>
  Configuration registers are shadowed: the running job keeps its own copy, and a job
  that is started while another one runs waits.
\<close>

record agen =
  sh_bound :: "nat \<Rightarrow> u32"
  sh_stride :: "nat \<Rightarrow> u32"
  sh_rep :: u32
  bound :: "nat \<Rightarrow> u32"
  stride :: "nat \<Rightarrow> u32"
  rep :: u32
  pointer :: u32
  index :: "nat \<Rightarrow> u32"
  dims :: nat
  wr :: bool
  idle :: bool
  pending :: "(u32 \<times> nat \<times> bool) option"
  rep_q :: u32

definition start_job :: "u32 \<times> nat \<times> bool \<Rightarrow> agen \<Rightarrow> agen" where
  "start_job j a = a\<lparr> bound := sh_bound a, stride := sh_stride a, rep := sh_rep a, pointer := fst j,
     dims := fst (snd j), wr := snd (snd j), idle := False, pending := None \<rparr>"

text \<open>The loops that are in their last iteration, and the innermost one that is not.\<close>

definition loop_last :: "agen \<Rightarrow> nat \<Rightarrow> bool" where
  "loop_last a i \<longleftrightarrow> index a i = bound a i \<or> dims a < i"

definition first_open :: "agen \<Rightarrow> nat" where
  "first_open a = length (takeWhile (loop_last a) [0..<4])"

definition agen_step :: "agen \<Rightarrow> agen" where
  "agen_step a = (let k = first_open a; d = k = 4;
       b = a\<lparr> pointer := pointer a + stride a (min k 3),
              index := (\<lambda>i. if i < k then 0 else if i = k then index a i + 1 else index a i), idle := d \<rparr>
     in case pending a of
          Some j \<Rightarrow> if d then start_job j b else b
        | None \<Rightarrow> b)"

text \<open>A register access takes the current element; after the last repetition the generator moves on.\<close>

definition lane_pop :: "agen \<Rightarrow> u32 \<times> agen" where
  "lane_pop a = (pointer a, if rep_q a = rep a then agen_step (a\<lparr> rep_q := 0 \<rparr>) else a\<lparr> rep_q := rep_q a + 1 \<rparr>)"

section \<open>Configuration\<close>

definition REG_REPEAT :: nat where "REG_REPEAT = 1"
definition REG_BOUNDS :: nat where "REG_BOUNDS = 2"
definition REG_STRIDES :: nat where "REG_STRIDES = 6"
definition REG_RPTR :: nat where "REG_RPTR = 24"
definition REG_WPTR :: nat where "REG_WPTR = 28"

text \<open>
  A configuration write: registers of 16 and above are the aliases that start a job, with
  the write flag in bit 2 and the number of loops in bits 1 and 0 of the register number. The
  hardware holds back a write that finds a job waiting until that job has been taken; no
  statement about a stream depends on such a write, since all of them start from generators with no
  waiting job.
\<close>

definition agen_write :: "ssr_hw \<Rightarrow> nat \<Rightarrow> u32 \<Rightarrow> agen \<Rightarrow> agen" where
  "agen_write hw reg v a = (
    if reg = 1 then a\<lparr> sh_rep := take_bit (RptWidth hw) v \<rparr>
    else if 2 \<le> reg \<and> reg < 6 then a\<lparr> sh_bound := (sh_bound a)(reg - 2 := take_bit (IndexWidth hw) v) \<rparr>
    else if 6 \<le> reg \<and> reg < 10 then a\<lparr> sh_stride := (sh_stride a)(reg - 6 := v AND NOT (mask 3)) \<rparr>
    else if 24 \<le> reg \<and> reg < 32 then
      (let j = (v, reg mod 4, bit reg 2) in if idle a then start_job j a else a\<lparr> pending := Some j \<rparr>)
    else a)"

text \<open>The three data movers of a core.\<close>

type_synonym ssrs = "nat \<Rightarrow> agen"

definition SNRT_SSR_DM_ALL :: nat where "SNRT_SSR_DM_ALL = 31"

definition write_ssr_cfg :: "ssr_hw \<Rightarrow> nat \<Rightarrow> nat \<Rightarrow> u32 \<Rightarrow> ssrs \<Rightarrow> ssrs" where
  "write_ssr_cfg hw reg dm v l = (\<lambda>d. if dm = SNRT_SSR_DM_ALL \<or> d = dm then agen_write hw reg v (l d) else l d)"

definition snrt_ssr_loop_1d :: "ssr_hw \<Rightarrow> nat \<Rightarrow> u32 \<Rightarrow> u32 \<Rightarrow> ssrs \<Rightarrow> ssrs" where
  "snrt_ssr_loop_1d hw dm b0 s0 l = (
    let b0 = b0 - 1;
        l = write_ssr_cfg hw (REG_BOUNDS + 0) dm b0 l;
        a = 0
    in write_ssr_cfg hw (REG_STRIDES + 0) dm (s0 - a) l)"

definition snrt_ssr_loop_2d :: "ssr_hw \<Rightarrow> nat \<Rightarrow> u32 \<Rightarrow> u32 \<Rightarrow> u32 \<Rightarrow> u32 \<Rightarrow> ssrs \<Rightarrow> ssrs" where
  "snrt_ssr_loop_2d hw dm b0 b1 s0 s1 l = (
    let b0 = b0 - 1; b1 = b1 - 1;
        l = write_ssr_cfg hw (REG_BOUNDS + 0) dm b0 l;
        l = write_ssr_cfg hw (REG_BOUNDS + 1) dm b1 l;
        a = 0;
        l = write_ssr_cfg hw (REG_STRIDES + 0) dm (s0 - a) l;
        a = a + s0 * b0
    in write_ssr_cfg hw (REG_STRIDES + 1) dm (s1 - a) l)"

definition snrt_ssr_loop_3d :: "ssr_hw \<Rightarrow> nat \<Rightarrow> u32 \<Rightarrow> u32 \<Rightarrow> u32 \<Rightarrow> u32 \<Rightarrow> u32 \<Rightarrow> u32 \<Rightarrow> ssrs \<Rightarrow> ssrs" where
  "snrt_ssr_loop_3d hw dm b0 b1 b2 s0 s1 s2 l = (
    let b0 = b0 - 1; b1 = b1 - 1; b2 = b2 - 1;
        l = write_ssr_cfg hw (REG_BOUNDS + 0) dm b0 l;
        l = write_ssr_cfg hw (REG_BOUNDS + 1) dm b1 l;
        l = write_ssr_cfg hw (REG_BOUNDS + 2) dm b2 l;
        a = 0;
        l = write_ssr_cfg hw (REG_STRIDES + 0) dm (s0 - a) l;
        a = a + s0 * b0;
        l = write_ssr_cfg hw (REG_STRIDES + 1) dm (s1 - a) l;
        a = a + s1 * b1
    in write_ssr_cfg hw (REG_STRIDES + 2) dm (s2 - a) l)"

definition snrt_ssr_loop_4d ::
  "ssr_hw \<Rightarrow> nat \<Rightarrow> u32 \<Rightarrow> u32 \<Rightarrow> u32 \<Rightarrow> u32 \<Rightarrow> u32 \<Rightarrow> u32 \<Rightarrow> u32 \<Rightarrow> u32 \<Rightarrow> ssrs \<Rightarrow> ssrs" where
  "snrt_ssr_loop_4d hw dm b0 b1 b2 b3 s0 s1 s2 s3 l = (
    let b0 = b0 - 1; b1 = b1 - 1; b2 = b2 - 1; b3 = b3 - 1;
        l = write_ssr_cfg hw (REG_BOUNDS + 0) dm b0 l;
        l = write_ssr_cfg hw (REG_BOUNDS + 1) dm b1 l;
        l = write_ssr_cfg hw (REG_BOUNDS + 2) dm b2 l;
        l = write_ssr_cfg hw (REG_BOUNDS + 3) dm b3 l;
        a = 0;
        l = write_ssr_cfg hw (REG_STRIDES + 0) dm (s0 - a) l;
        a = a + s0 * b0;
        l = write_ssr_cfg hw (REG_STRIDES + 1) dm (s1 - a) l;
        a = a + s1 * b1;
        l = write_ssr_cfg hw (REG_STRIDES + 2) dm (s2 - a) l;
        a = a + s2 * b2
    in write_ssr_cfg hw (REG_STRIDES + 3) dm (s3 - a) l)"

definition snrt_ssr_repeat :: "ssr_hw \<Rightarrow> nat \<Rightarrow> u32 \<Rightarrow> ssrs \<Rightarrow> ssrs" where
  "snrt_ssr_repeat hw dm count l = write_ssr_cfg hw REG_REPEAT dm (count - 1) l"

definition snrt_ssr_read :: "ssr_hw \<Rightarrow> nat \<Rightarrow> nat \<Rightarrow> u32 \<Rightarrow> ssrs \<Rightarrow> ssrs" where
  "snrt_ssr_read hw dm dim ptr l = write_ssr_cfg hw (REG_RPTR + dim) dm ptr l"

definition snrt_ssr_write :: "ssr_hw \<Rightarrow> nat \<Rightarrow> nat \<Rightarrow> u32 \<Rightarrow> ssrs \<Rightarrow> ssrs" where
  "snrt_ssr_write hw dm dim ptr l = write_ssr_cfg hw (REG_WPTR + dim) dm ptr l"

section \<open>The walk of the generator\<close>

text \<open>
  The stride registers hold differences: the distance between successive iterations of
  loop \<open>i\<close> is the register plus the way the inner loops have come.
\<close>

definition span :: "agen \<Rightarrow> nat \<Rightarrow> u32" where
  "span a i = (if i = 0 then stride a 0
     else if i = 1 then stride a 1 + stride a 0 * bound a 0
     else if i = 2 then stride a 2 + stride a 0 * bound a 0 + (stride a 1 + stride a 0 * bound a 0) * bound a 1
     else stride a 3 + stride a 0 * bound a 0 + (stride a 1 + stride a 0 * bound a 0) * bound a 1
       + (stride a 2 + stride a 0 * bound a 0 + (stride a 1 + stride a 0 * bound a 0) * bound a 1) * bound a 2)"

text \<open>The last value of each loop counter, and the number of the current element.\<close>

definition last_index :: "agen \<Rightarrow> nat \<Rightarrow> nat" where
  "last_index a i = (if i \<le> dims a then unat (bound a i) else 0)"

definition position :: "agen \<Rightarrow> nat" where
  "position a = unat (index a 0) + Suc (last_index a 0) * (unat (index a 1)
     + Suc (last_index a 1) * (unat (index a 2) + Suc (last_index a 2) * unat (index a 3)))"

definition agen_ok :: "u32 \<Rightarrow> agen \<Rightarrow> bool" where
  "agen_ok base a \<longleftrightarrow> (\<forall>i<4. unat (index a i) \<le> last_index a i)
     \<and> pointer a = base + index a 0 * span a 0 + index a 1 * span a 1 + index a 2 * span a 2 + index a 3 * span a 3"

lemma rep_q_irrelevant [simp]:
  "span (a\<lparr> rep_q := x \<rparr>) = span a" "last_index (a\<lparr> rep_q := x \<rparr>) = last_index a"
  "position (a\<lparr> rep_q := x \<rparr>) = position a" "agen_ok base (a\<lparr> rep_q := x \<rparr>) = agen_ok base a"
  "first_open (a\<lparr> rep_q := x \<rparr>) = first_open a"
proof -
  show s: "span (a\<lparr> rep_q := x \<rparr>) = span a" and l: "last_index (a\<lparr> rep_q := x \<rparr>) = last_index a"
    by (simp_all add: fun_eq_iff span_def last_index_def)
  show "position (a\<lparr> rep_q := x \<rparr>) = position a" "agen_ok base (a\<lparr> rep_q := x \<rparr>) = agen_ok base a"
    by (simp_all add: position_def agen_ok_def s l)
  have "loop_last (a\<lparr> rep_q := x \<rparr>) = loop_last a" by (simp add: fun_eq_iff loop_last_def)
  then show "first_open (a\<lparr> rep_q := x \<rparr>) = first_open a" by (simp add: first_open_def)
qed

lemma all_less_4: "(\<forall>i<4. P i) \<longleftrightarrow> P 0 \<and> P 1 \<and> P 2 \<and> P (3 :: nat)"
  by (auto simp: numeral_eq_Suc less_Suc_eq)

lemma first_open_eq:
  "first_open a = (if \<not> loop_last a 0 then 0 else if \<not> loop_last a 1 then 1 else if \<not> loop_last a 2 then 2
     else if \<not> loop_last a 3 then 3 else 4)"
proof -
  have "[0..<4] = [0, 1, 2, 3 :: nat]" by code_simp
  then show ?thesis by (simp add: first_open_def)
qed

lemma last_iff:
  assumes "agen_ok base a" "i < 4"
  shows "loop_last a i \<longleftrightarrow> unat (index a i) = last_index a i"
proof (cases "i \<le> dims a")
  case True
  then show ?thesis by (auto simp: loop_last_def last_index_def unsigned_word_eqI)
next
  case False
  moreover have "unat (index a i) \<le> last_index a i" using assms by (simp add: agen_ok_def)
  ultimately have "unat (index a i) = 0" by (simp add: last_index_def)
  then show ?thesis using False by (simp add: loop_last_def last_index_def)
qed

text \<open>A step that is not the last moves to the next element.\<close>

lemma step_frame:
  assumes "first_open a \<noteq> 4"
  shows "bound (agen_step a) = bound a" "stride (agen_step a) = stride a" "rep (agen_step a) = rep a" "dims (agen_step a) = dims a"
    "rep_q (agen_step a) = rep_q a" "wr (agen_step a) = wr a" "idle (agen_step a) = False" "pending (agen_step a) = pending a"
    "sh_bound (agen_step a) = sh_bound a" "sh_stride (agen_step a) = sh_stride a" "sh_rep (agen_step a) = sh_rep a"
  using assms by (simp_all add: agen_step_def Let_def split: option.splits)

lemma index_inc:
  assumes "unat (x :: u32) < n" "n < 2 ^ 32"
  shows "unat (x + 1) = unat x + 1"
  using assms by (subst unat_plus_no_overflow) simp_all

lemma agen_step_ok:
  assumes ok: "agen_ok base a" and op: "first_open a \<noteq> 4"
  shows "agen_ok base (agen_step a) \<and> position (agen_step a) = Suc (position a)"
proof -
  note F = step_frame [OF op]
  have sp: "span (agen_step a) = span a" "last_index (agen_step a) = last_index a"
    using F by (simp_all add: span_def last_index_def fun_eq_iff)
  let ?k = "first_open a"
  have k: "?k < 4" using op by (simp add: first_open_eq split: if_splits)
  have idx: "index (agen_step a) = (\<lambda>i. if i < ?k then 0 else if i = ?k then index a i + 1 else index a i)"
    and ptr: "pointer (agen_step a) = pointer a + stride a ?k"
    using op k by (simp_all add: agen_step_def Let_def min_def split: option.splits)
  have nl: "\<not> loop_last a ?k" and ll: "\<And>i. i < ?k \<Longrightarrow> loop_last a i"
    using op by (auto simp: first_open_eq less_Suc_eq numeral_eq_Suc split: if_splits)
  have lt: "unat (index a ?k) < last_index a ?k"
    using ok nl k last_iff [OF ok k] by (simp add: agen_ok_def le_neq_implies_less)
  have kd: "?k \<le> dims a" using nl by (simp add: loop_last_def)
  have inc: "unat (index a ?k + 1) = unat (index a ?k) + 1"
    using lt unat_lt_2p [of "bound a ?k"] kd by (intro index_inc [of _ "last_index a ?k"]) (simp_all add: last_index_def)
  have le: "unat (index a i) \<le> last_index a i" if "i < 4" for i using ok that by (simp add: agen_ok_def)
  have full: "index a i = bound a i" "unat (index a i) = last_index a i" if "i < ?k" for i
    using ll [OF that] that kd k last_iff [OF ok, of i] by (auto simp: loop_last_def)
  have "?k = 0 \<or> ?k = 1 \<or> ?k = 2 \<or> ?k = 3" using k by linarith
  then have "agen_ok base (agen_step a)"
    unfolding agen_ok_def sp idx ptr all_less_4
    using ok [unfolded agen_ok_def] full(1) lt inc le
    by (elim disjE) (simp_all add: span_def algebra_simps)
  moreover have "position (agen_step a) = Suc (position a)"
    using \<open>?k = 0 \<or> ?k = 1 \<or> ?k = 2 \<or> ?k = 3\<close> full(2) inc
    unfolding position_def sp idx by (elim disjE) (simp_all add: algebra_simps)
  ultimately show ?thesis by blast
qed

section \<open>Elements of a stream\<close>

definition lane_after :: "nat \<Rightarrow> agen \<Rightarrow> agen" where
  "lane_after p a = ((\<lambda>a. snd (lane_pop a)) ^^ p) a"

definition lane_addr :: "agen \<Rightarrow> nat \<Rightarrow> u32" where
  "lane_addr a p = fst (lane_pop (lane_after p a))"

definition stream_len :: "agen \<Rightarrow> nat" where
  "stream_len a = Suc (last_index a 0) * (Suc (last_index a 1) * (Suc (last_index a 2) * Suc (last_index a 3)))"

lemma position_last:
  assumes "agen_ok base a" "first_open a = 4"
  shows "Suc (position a) = stream_len a"
proof -
  have "loop_last a i" if "i < 4" for i
    using assms(2) that by (auto simp: first_open_eq less_Suc_eq numeral_eq_Suc split: if_splits)
  then have "unat (index a i) = last_index a i" if "i < 4" for i using last_iff [OF assms(1) that] that by blast
  then show ?thesis by (simp add: position_def stream_len_def algebra_simps)
qed

text \<open>A job at its beginning.\<close>

definition fresh :: "agen \<Rightarrow> bool" where
  "fresh a \<longleftrightarrow> (\<forall>i<4. index a i = 0) \<and> rep_q a = 0"

lemma fresh_ok: "fresh a \<Longrightarrow> agen_ok (pointer a) a \<and> position a = 0"
  by (simp add: fresh_def agen_ok_def position_def)

text \<open>While the stream lasts, the number of accesses determines element and repetition.\<close>

definition same_job :: "agen \<Rightarrow> agen \<Rightarrow> bool" where
  "same_job a b \<longleftrightarrow> bound b = bound a \<and> stride b = stride a \<and> rep b = rep a \<and> dims b = dims a \<and> wr b = wr a
     \<and> pending b = pending a \<and> sh_bound b = sh_bound a \<and> sh_stride b = sh_stride a \<and> sh_rep b = sh_rep a"

lemma lane_after_Suc: "lane_after (Suc p) a = snd (lane_pop (lane_after p a))"
  by (simp add: lane_after_def)

lemma lane_after_spec:
  assumes "fresh a" "p < Suc (unat (rep a)) * stream_len a"
  shows "agen_ok (pointer a) (lane_after p a) \<and> same_job a (lane_after p a)
    \<and> position (lane_after p a) = p div Suc (unat (rep a)) \<and> unat (rep_q (lane_after p a)) = p mod Suc (unat (rep a))"
  using assms(2)
proof (induction p)
  case 0
  then show ?case using fresh_ok [OF assms(1)] assms(1) by (simp add: lane_after_def same_job_def fresh_def)
next
  case (Suc p)
  let ?b = "lane_after p a" and ?R = "Suc (unat (rep a))"
  have IH: "agen_ok (pointer a) ?b" "same_job a ?b" "position ?b = p div ?R" "unat (rep_q ?b) = p mod ?R"
    using Suc by auto
  have len: "stream_len ?b = stream_len a" using IH(2) by (simp add: same_job_def stream_len_def last_index_def)
  show ?case
  proof (cases "rep_q ?b = rep ?b")
    case True
    then have m: "p mod ?R = ?R - 1" using IH(2,4) by (simp add: same_job_def)
    then have d: "Suc p div ?R = Suc (p div ?R)" "Suc p mod ?R = 0" by (simp_all add: div_Suc mod_Suc)
    let ?c = "?b\<lparr> rep_q := 0 \<rparr>"
    have c: "agen_ok (pointer a) ?c" "first_open ?c = first_open ?b" "position ?c = position ?b"
      using IH(1) by simp_all
    have "first_open ?b \<noteq> 4"
    proof
      assume "first_open ?b = 4"
      then have "Suc (p div ?R) = stream_len a" using position_last [OF IH(1)] IH(3) len by simp
      moreover have "Suc p div ?R < stream_len a" using Suc.prems by (metis less_mult_imp_div_less mult.commute)
      ultimately show False using d by simp
    qed
    then have op: "first_open ?c \<noteq> 4" using c(2) by simp
    have e: "lane_after (Suc p) a = agen_step ?c" using True by (simp add: lane_after_Suc lane_pop_def)
    show ?thesis
      using agen_step_ok [OF c(1) op] step_frame [OF op] IH(2,3) c(3) d unfolding e by (simp add: same_job_def)
  next
    case False
    then have "unat (rep_q ?b) \<noteq> unat (rep a)" using IH(2) by (auto simp: same_job_def dest: unsigned_word_eqI)
    moreover have "p mod ?R < ?R" by simp
    ultimately have m: "Suc (p mod ?R) < ?R" using IH(4) by linarith
    then have d: "Suc p div ?R = p div ?R" "Suc p mod ?R = Suc (p mod ?R)" by (simp_all add: div_Suc mod_Suc)
    have "unat (rep_q ?b + 1) = unat (rep_q ?b) + 1"
      using m IH(4) unat_lt_2p [of "rep a"] by (intro index_inc [of _ "unat (rep a)"]) simp_all
    moreover have e: "lane_after (Suc p) a = ?b\<lparr> rep_q := rep_q ?b + 1 \<rparr>" using False by (simp add: lane_after_Suc lane_pop_def)
    ultimately show ?thesis
      using IH d unfolding e by (simp add: same_job_def)
  qed
qed

text \<open>The digits of an element number are the loop counters.\<close>

lemma mixed_radix:
  fixes x y c :: nat
  assumes "x < c" "x' < c" "x + c * y = x' + c * y'"
  shows "x = x' \<and> y = y'"
  using assms by (metis div_mult_self4 div_less mod_less mod_mult_self4 add_0 less_nat_zero_code mult.commute add.commute)

lemma radix_bound:
  fixes x y c d :: nat
  assumes "x < c" "y < d"
  shows "x + c * y < c * d"
proof -
  have "x + c * y < c * Suc y" using assms(1) by simp
  also have "\<dots> \<le> c * d" using assms(2) by (intro mult_le_mono2) simp
  finally show ?thesis .
qed

lemma radix_div:
  fixes x y c :: nat
  assumes "x < c"
  shows "(x + c * y) div c = y"
  using assms by simp

lemma radix_mod:
  fixes x y c :: nat
  assumes "x < c"
  shows "(x + c * y) mod c = x"
  using assms by simp

lemma lane_addr_digits:
  assumes f: "fresh a" and d: "d0 < Suc (last_index a 0)" "d1 < Suc (last_index a 1)" "d2 < Suc (last_index a 2)" "d3 < Suc (last_index a 3)"
    and t: "t < Suc (unat (rep a))"
    and p: "p = t + Suc (unat (rep a)) * (d0 + Suc (last_index a 0) * (d1 + Suc (last_index a 1) * (d2 + Suc (last_index a 2) * d3)))"
  shows "lane_addr a p = pointer a + of_nat d0 * span a 0 + of_nat d1 * span a 1 + of_nat d2 * span a 2 + of_nat d3 * span a 3"
proof -
  let ?R = "Suc (unat (rep a))" and ?b = "lane_after p a" and ?l = "\<lambda>i. Suc (last_index a i)"
  let ?v = "d0 + ?l 0 * (d1 + ?l 1 * (d2 + ?l 2 * d3))"
  have "?v < stream_len a" unfolding stream_len_def by (intro radix_bound d)
  then have "p < ?R * stream_len a" unfolding p using t by (intro radix_bound)
  note S = lane_after_spec [OF f this]
  have same: "last_index ?b = last_index a" "span ?b = span a"
    using S by (simp_all add: same_job_def last_index_def span_def fun_eq_iff)
  have le: "unat (index ?b i) < ?l i" if "i < 4" for i using S that same(1) by (simp add: agen_ok_def less_Suc_eq_le)
  have pd: "p div ?R = ?v" unfolding p by (rule radix_div [OF t])
  have "position ?b = p div ?R" using S by blast
  then have "position ?b = ?v" unfolding pd .
  then have eq: "unat (index ?b 0) + ?l 0 * (unat (index ?b 1) + ?l 1 * (unat (index ?b 2) + ?l 2 * unat (index ?b 3))) = ?v"
    by (simp only: position_def same)
  have e0: "unat (index ?b 0) = d0" "unat (index ?b 1) + ?l 1 * (unat (index ?b 2) + ?l 2 * unat (index ?b 3)) = d1 + ?l 1 * (d2 + ?l 2 * d3)"
    using mixed_radix [OF _ d(1) eq] le [of 0] by simp_all
  have e1: "unat (index ?b 1) = d1" "unat (index ?b 2) + ?l 2 * unat (index ?b 3) = d2 + ?l 2 * d3"
    using mixed_radix [OF _ d(2) e0(2)] le [of 1] by simp_all
  have e2: "unat (index ?b 2) = d2" "unat (index ?b 3) = d3"
    using mixed_radix [OF _ d(3) e1(2)] le [of 2] by simp_all
  have i: "index ?b 0 = of_nat d0" "index ?b 1 = of_nat d1" "index ?b 2 = of_nat d2" "index ?b 3 = of_nat d3"
    unfolding e0(1) [symmetric] e1(1) [symmetric] e2 [symmetric] by simp_all
  have "pointer ?b = pointer a + index ?b 0 * span a 0 + index ?b 1 * span a 1 + index ?b 2 * span a 2 + index ?b 3 * span a 3"
    using S same by (simp add: agen_ok_def)
  then show ?thesis by (simp only: lane_addr_def lane_pop_def fst_conv i)
qed

text \<open>A data mover that has finished its last job.\<close>

definition ssr_ready :: "agen \<Rightarrow> bool" where
  "ssr_ready a \<longleftrightarrow> idle a \<and> (\<forall>i<4. index a i = 0) \<and> rep_q a = 0 \<and> pending a = None"

lemma lane_pop_after: "lane_pop (lane_after p a) = (lane_addr a p, lane_after (Suc p) a)"
  by (simp add: lane_addr_def lane_after_Suc)

lemma lane_after_0 [simp]: "lane_after 0 a = a"
  by (simp add: lane_after_def)

text \<open>After its last element a data mover is ready for the next job.\<close>

lemma position_full:
  assumes ok: "agen_ok base a" and p: "Suc (position a) = stream_len a"
  shows "first_open a = 4"
proof -
  let ?l = "last_index a" and ?i = "\<lambda>k. unat (index a k)"
  have le: "?i k < Suc (?l k)" if "k < 4" for k using ok that by (simp add: agen_ok_def less_Suc_eq_le)
  have "?i 0 + Suc (?l 0) * (?i 1 + Suc (?l 1) * (?i 2 + Suc (?l 2) * ?i 3))
      = ?l 0 + Suc (?l 0) * (?l 1 + Suc (?l 1) * (?l 2 + Suc (?l 2) * ?l 3))"
    using p by (simp add: position_def stream_len_def algebra_simps)
  then have "?i 0 = ?l 0 \<and> ?i 1 + Suc (?l 1) * (?i 2 + Suc (?l 2) * ?i 3) = ?l 1 + Suc (?l 1) * (?l 2 + Suc (?l 2) * ?l 3)"
    using le [of 0] by (intro mixed_radix [of _ "Suc (?l 0)"]) simp_all
  moreover from this have "?i 1 = ?l 1 \<and> ?i 2 + Suc (?l 2) * ?i 3 = ?l 2 + Suc (?l 2) * ?l 3"
    using le [of 1] by (intro mixed_radix [of _ "Suc (?l 1)"]) simp_all
  moreover from this have "?i 2 = ?l 2 \<and> ?i 3 = ?l 3"
    using le [of 2] by (intro mixed_radix [of _ "Suc (?l 2)"]) simp_all
  ultimately show ?thesis using last_iff [OF ok] by (simp add: first_open_eq)
qed

lemma same_job_len: "same_job a b \<Longrightarrow> stream_len b = stream_len a"
  by (simp add: same_job_def stream_len_def last_index_def)

lemma lane_after_end:
  assumes f: "fresh a" and pend: "pending a = None"
  shows "let b = lane_after (Suc (unat (rep a)) * stream_len a) a in
    ssr_ready b \<and> sh_bound b = sh_bound a \<and> sh_stride b = sh_stride a \<and> sh_rep b = sh_rep a"
proof -
  define R where "R = Suc (unat (rep a))"
  define L where "L = stream_len a"
  define p where "p = unat (rep a) + R * (L - 1)"
  have L: "0 < L" by (simp add: L_def stream_len_def)
  have e: "R * L = Suc p" using L by (cases L) (simp_all add: p_def R_def)
  have "p div R = L - 1" unfolding p_def by (rule radix_div) (simp add: R_def)
  moreover have "p mod R = unat (rep a)" unfolding p_def by (rule radix_mod) (simp add: R_def)
  moreover have "p < R * L" using e by simp
  ultimately have S: "agen_ok (pointer a) (lane_after p a)" "same_job a (lane_after p a)"
    "position (lane_after p a) = L - 1" "unat (rep_q (lane_after p a)) = unat (rep a)"
    using lane_after_spec [OF f, of p] by (simp_all add: R_def L_def)
  let ?b = "lane_after p a"
  have "Suc (position ?b) = stream_len ?b" using S(3) L same_job_len [OF S(2)] by (simp add: L_def)
  then have fo: "first_open ?b = 4" by (rule position_full [OF S(1)])
  have "rep_q ?b = rep a" using S(4) by (rule unsigned_word_eqI)
  then have q: "rep_q ?b = rep ?b" using S(2) by (simp add: same_job_def)
  have "lane_after (R * L) a = agen_step (?b\<lparr> rep_q := 0 \<rparr>)" using q unfolding e by (simp add: lane_after_Suc lane_pop_def)
  then show ?thesis
    using S(2) fo pend unfolding R_def [symmetric] L_def [symmetric] by (simp add: agen_step_def same_job_def ssr_ready_def Let_def)
qed

section \<open>Programming a stream\<close>

text \<open>What the functions need of the hardware: bounds and counts that fit, strides of whole words.\<close>

definition fits :: "nat \<Rightarrow> u32 \<Rightarrow> bool" where
  "fits w b \<longleftrightarrow> b \<noteq> 0 \<and> unat b \<le> 2 ^ w"

lemma fits_reg:
  assumes "fits w b"
  shows "unat (take_bit w (b - 1)) = unat b - 1" "take_bit w (b - 1) = b - 1"
proof -
  have b: "0 < unat b" "unat b \<le> 2 ^ w" using assms by (auto simp: fits_def unat_gt_0)
  then have e: "unat (b - 1) = unat b - 1" by (subst unat_minus_no_underflow) simp_all
  moreover have "unat b - 1 < 2 ^ w" using b by linarith
  ultimately show u: "unat (take_bit w (b - 1)) = unat b - 1"
    by (simp add: unsigned_take_bit_eq take_bit_nat_eq_self)
  have "unat (take_bit w (b - 1)) = unat (b - 1)" using u e by simp
  then show "take_bit w (b - 1) = b - 1" by (rule unsigned_word_eqI)
qed

lemma fits_pos: "fits w b \<Longrightarrow> Suc (unat b - 1) = unat b"
  by (simp add: fits_def unat_gt_0)

lemma word_stride: "(8 * k :: u32) AND NOT (mask 3) = 8 * k"
proof -
  have "8 * k = push_bit 3 k" by (simp add: push_bit_eq_mult)
  then show ?thesis by (intro bit_word_eqI) (auto simp: bit_simps)
qed

lemma word_stride_diff:
  "(8 * k - 8 * x :: u32) AND NOT (mask 3) = 8 * k - 8 * x"
  using word_stride [of "k - x"] by (simp add: algebra_simps)

lemmas ssr_defs = snrt_ssr_loop_1d_def snrt_ssr_loop_2d_def snrt_ssr_loop_3d_def snrt_ssr_loop_4d_def snrt_ssr_repeat_def
  snrt_ssr_read_def snrt_ssr_write_def write_ssr_cfg_def agen_write_def REG_REPEAT_def REG_BOUNDS_def REG_STRIDES_def
  REG_RPTR_def REG_WPTR_def Let_def

section \<open>Configurations\<close>

text \<open>
  What the shadow registers ask for: \<open>r\<close> repetitions of a nest of four loops with bounds \<open>b\<close>
  and distances \<open>s\<close>, innermost first. A job is started from a configuration at an address.
\<close>

definition ssr_cfg :: "agen \<Rightarrow> nat \<Rightarrow> nat \<Rightarrow> nat list \<Rightarrow> u32 list \<Rightarrow> bool" where
  "ssr_cfg a d r b s \<longleftrightarrow> (let j = start_job (0, d, False) a in
     Suc (unat (rep j)) = r \<and> map (\<lambda>i. Suc (last_index j i)) [0, 1, 2, 3] = b \<and> map (span j) [0, 1, 2, 3] = s)"

definition ssr_job :: "agen \<Rightarrow> nat \<Rightarrow> u32 \<Rightarrow> agen" where
  "ssr_job a d ptr = start_job (ptr, d, False) a"

lemma snrt_ssr_read_job:
  assumes "idle (l dm)" "dm < 31" "d < 4"
  shows "snrt_ssr_read hw dm d ptr l = l(dm := ssr_job (l dm) d ptr)"
proof -
  have "\<not> bit (24 :: nat) 2" "\<not> bit (25 :: nat) 2" "\<not> bit (26 :: nat) 2" "\<not> bit (27 :: nat) 2" by code_simp+
  moreover have "d = 0 \<or> d = 1 \<or> d = 2 \<or> d = 3" using assms(3) by linarith
  ultimately have "\<not> bit (24 + d) 2" "(24 + d) mod 4 = d" by (elim disjE; simp)+
  then show ?thesis using assms
    by (auto simp: snrt_ssr_read_def write_ssr_cfg_def agen_write_def REG_RPTR_def ssr_job_def SNRT_SSR_DM_ALL_def fun_eq_iff)
qed

lemma ssr_job_pointer:
  "rep (ssr_job a d p) = rep (start_job (0, d, False) a)" "last_index (ssr_job a d p) = last_index (start_job (0, d, False) a)"
  "span (ssr_job a d p) = span (start_job (0, d, False) a)" "pointer (ssr_job a d p) = p" "pending (ssr_job a d p) = None"
  by (simp_all add: ssr_job_def start_job_def last_index_def span_def fun_eq_iff)

lemma ssr_job_fresh: "ssr_ready a \<Longrightarrow> fresh (ssr_job a d p)"
  by (simp add: ssr_ready_def fresh_def ssr_job_def start_job_def)

lemma ssr_cfg_job:
  assumes "ssr_cfg a d r [b0, b1, b2, b3] s"
  shows "Suc (unat (rep (ssr_job a d p))) = r" "Suc (last_index (ssr_job a d p) 0) = b0" "Suc (last_index (ssr_job a d p) 1) = b1"
    "Suc (last_index (ssr_job a d p) 2) = b2" "Suc (last_index (ssr_job a d p) 3) = b3"
    "s = [span (ssr_job a d p) 0, span (ssr_job a d p) 1, span (ssr_job a d p) 2, span (ssr_job a d p) 3]"
  using assms by (simp_all add: ssr_cfg_def ssr_job_pointer Let_def)

lemma ssr_job_addr:
  assumes "ssr_ready a" and c: "ssr_cfg a d r [b0, b1, b2, b3] [s0, s1, s2, s3]"
    and i: "t < r" "i0 < b0" "i1 < b1" "i2 < b2" "i3 < b3"
  shows "lane_addr (ssr_job a d ptr) (t + r * (i0 + b0 * (i1 + b1 * (i2 + b2 * i3))))
    = ptr + of_nat i0 * s0 + of_nat i1 * s1 + of_nat i2 * s2 + of_nat i3 * s3"
proof -
  let ?j = "ssr_job a d ptr"
  note e = ssr_cfg_job [OF c, where p = ptr]
  have sp: "span ?j 0 = s0" "span ?j 1 = s1" "span ?j 2 = s2" "span ?j 3 = s3" using e(6) by simp_all
  show ?thesis
    using lane_addr_digits [OF ssr_job_fresh [OF assms(1), of d ptr], unfolded e(1-5), OF i(2-5,1) refl]
    by (simp only: sp ssr_job_pointer(4))
qed

lemma ssr_job_end:
  assumes "ssr_ready a" and c: "ssr_cfg a d r [b0, b1, b2, b3] s"
  shows "ssr_ready (lane_after (r * (b0 * (b1 * (b2 * b3)))) (ssr_job a d ptr))
    \<and> ssr_cfg (lane_after (r * (b0 * (b1 * (b2 * b3)))) (ssr_job a d ptr)) d r [b0, b1, b2, b3] s"
proof -
  let ?j = "ssr_job a d ptr"
  have e: "Suc (unat (rep ?j)) * stream_len ?j = r * (b0 * (b1 * (b2 * b3)))"
    unfolding stream_len_def ssr_cfg_job [OF c] ..
  let ?b = "lane_after (r * (b0 * (b1 * (b2 * b3)))) ?j"
  have "ssr_ready ?b \<and> sh_bound ?b = sh_bound ?j \<and> sh_stride ?b = sh_stride ?j \<and> sh_rep ?b = sh_rep ?j"
    using lane_after_end [OF ssr_job_fresh [OF assms(1)], of d ptr] unfolding e by (simp add: ssr_job_pointer Let_def)
  then have b: "ssr_ready ?b" "sh_bound ?b = sh_bound a" "sh_stride ?b = sh_stride a" "sh_rep ?b = sh_rep a"
    by (simp_all add: ssr_job_def start_job_def)
  have "ssr_cfg ?b = ssr_cfg a"
    using b by (simp add: ssr_cfg_def fun_eq_iff start_job_def last_index_def span_def Let_def)
  then show ?thesis using b(1) c by simp
qed

section \<open>Writing streams\<close>

text \<open>A job that writes visits the same places as one that reads.\<close>

lemma snrt_ssr_write_job:
  assumes "idle (l dm)" "dm < 31" "d < 4"
  shows "snrt_ssr_write hw dm d ptr l = l(dm := (ssr_job (l dm) d ptr)\<lparr> wr := True \<rparr>)"
proof -
  have "bit (28 :: nat) 2" "bit (29 :: nat) 2" "bit (30 :: nat) 2" "bit (31 :: nat) 2" by code_simp+
  moreover have "d = 0 \<or> d = 1 \<or> d = 2 \<or> d = 3" using assms(3) by linarith
  ultimately have "bit (28 + d) 2" "(28 + d) mod 4 = d" by (elim disjE; simp)+
  then show ?thesis using assms
    by (auto simp: snrt_ssr_write_def write_ssr_cfg_def agen_write_def REG_WPTR_def ssr_job_def start_job_def SNRT_SSR_DM_ALL_def fun_eq_iff)
qed

lemma lane_pop_wr:
  assumes "pending a = None"
  shows "fst (lane_pop (a\<lparr> wr := b \<rparr>)) = fst (lane_pop a)" "snd (lane_pop (a\<lparr> wr := b \<rparr>)) = (snd (lane_pop a))\<lparr> wr := b \<rparr>"
    "pending (snd (lane_pop a)) = None"
proof -
  have fo: "first_open (a\<lparr> wr := b, rep_q := 0 \<rparr>) = first_open (a\<lparr> rep_q := 0 \<rparr>)"
    by (simp add: first_open_def loop_last_def [abs_def])
  show "fst (lane_pop (a\<lparr> wr := b \<rparr>)) = fst (lane_pop a)" by (simp add: lane_pop_def)
  show "pending (snd (lane_pop a)) = None" using assms by (simp add: lane_pop_def agen_step_def Let_def)
  show "snd (lane_pop (a\<lparr> wr := b \<rparr>)) = (snd (lane_pop a))\<lparr> wr := b \<rparr>"
  proof (cases "rep_q a = rep a")
    case True
    then show ?thesis using assms fo by (intro agen.equality) (simp_all add: lane_pop_def agen_step_def Let_def fun_eq_iff del: rep_q_irrelevant)
  qed (simp add: lane_pop_def)
qed

lemma lane_after_wr:
  assumes "pending a = None"
  shows "lane_after p (a\<lparr> wr := b \<rparr>) = (lane_after p a)\<lparr> wr := b \<rparr> \<and> pending (lane_after p a) = None"
  by (induction p) (use assms lane_pop_wr in \<open>simp_all add: lane_after_Suc\<close>)

lemma lane_addr_wr: "pending a = None \<Longrightarrow> lane_addr (a\<lparr> wr := b \<rparr>) p = lane_addr a p"
  by (simp add: lane_addr_def lane_after_wr lane_pop_wr)

section \<open>Configuration functions\<close>

text \<open>A configuration function touches its own data mover only, and starts nothing.\<close>

lemma write_ssr_cfg_frame: "d \<noteq> dm \<Longrightarrow> dm < 31 \<Longrightarrow> write_ssr_cfg hw reg dm v l d = l d"
  by (simp add: write_ssr_cfg_def SNRT_SSR_DM_ALL_def)

lemma ssr_frame:
  assumes "d \<noteq> dm" "dm < 31"
  shows "snrt_ssr_loop_1d hw dm b0 s0 l d = l d" "snrt_ssr_loop_2d hw dm b0 b1 s0 s1 l d = l d"
    "snrt_ssr_loop_3d hw dm b0 b1 b2 s0 s1 s2 l d = l d" "snrt_ssr_loop_4d hw dm b0 b1 b2 b3 s0 s1 s2 s3 l d = l d"
    "snrt_ssr_repeat hw dm r l d = l d" "snrt_ssr_read hw dm dim p l d = l d" "snrt_ssr_write hw dm dim p l d = l d"
  using assms write_ssr_cfg_frame
  by (simp_all add: snrt_ssr_loop_1d_def snrt_ssr_loop_2d_def snrt_ssr_loop_3d_def snrt_ssr_loop_4d_def snrt_ssr_repeat_def
      snrt_ssr_read_def snrt_ssr_write_def Let_def)

lemma write_ssr_cfg_ready: "reg < 24 \<Longrightarrow> ssr_ready (write_ssr_cfg hw reg dm v l d) = ssr_ready (l d)"
  by (simp add: write_ssr_cfg_def agen_write_def ssr_ready_def)

lemma ssr_ready_cfg:
  "ssr_ready (snrt_ssr_loop_2d hw dm b0 b1 s0 s1 l d) = ssr_ready (l d)"
  "ssr_ready (snrt_ssr_loop_3d hw dm b0 b1 b2 s0 s1 s2 l d) = ssr_ready (l d)"
  "ssr_ready (snrt_ssr_loop_4d hw dm b0 b1 b2 b3 s0 s1 s2 s3 l d) = ssr_ready (l d)"
  "ssr_ready (snrt_ssr_repeat hw dm r l d) = ssr_ready (l d)"
  by (simp_all add: snrt_ssr_loop_2d_def snrt_ssr_loop_3d_def snrt_ssr_loop_4d_def snrt_ssr_repeat_def REG_BOUNDS_def REG_STRIDES_def REG_REPEAT_def
      write_ssr_cfg_ready Let_def)

text \<open>The configuration functions, for bounds that fit the counters and strides of whole words.\<close>

lemma cfg_4d:
  assumes "a = snrt_ssr_loop_4d hw dm b0 b1 b2 b3 s0 s1 s2 s3 l dm" and r: "sh_rep (l dm) = 0"
    and hw: "fits (IndexWidth hw) b0" "fits (IndexWidth hw) b1" "fits (IndexWidth hw) b2" "fits (IndexWidth hw) b3"
    and s: "s0 = 8 * k0" "s1 = 8 * k1" "s2 = 8 * k2" "s3 = 8 * k3"
  shows "ssr_cfg a 3 1 [unat b0, unat b1, unat b2, unat b3] [s0, s1, s2, s3]"
proof -
  have st: "(s1 - s0 * (b0 - 1)) AND NOT (mask 3) = s1 - s0 * (b0 - 1)"
    "(s2 - (s0 * (b0 - 1) + s1 * (b1 - 1))) AND NOT (mask 3) = s2 - (s0 * (b0 - 1) + s1 * (b1 - 1))"
    "(s3 - (s0 * (b0 - 1) + s1 * (b1 - 1) + s2 * (b2 - 1))) AND NOT (mask 3) = s3 - (s0 * (b0 - 1) + s1 * (b1 - 1) + s2 * (b2 - 1))"
    "s0 AND NOT (mask 3) = s0"
    using word_stride [of k0] word_stride [of "k1 - k0 * (b0 - 1)"] word_stride [of "k2 - (k0 * (b0 - 1) + k1 * (b1 - 1))"]
      word_stride [of "k3 - (k0 * (b0 - 1) + k1 * (b1 - 1) + k2 * (b2 - 1))"]
    unfolding s by (simp_all add: algebra_simps)
  have un: "unat (b - 1) = unat b - 1" if "fits w b" for w b using fits_reg [OF that] by simp
  show ?thesis
    unfolding ssr_cfg_def assms(1)
    using st hw [THEN fits_reg(2)] hw [THEN fits_pos] hw [THEN un] r
    by (simp add: ssr_defs start_job_def last_index_def span_def)
qed

lemma cfg_3d:
  assumes "a = snrt_ssr_repeat hw dm r (snrt_ssr_loop_3d hw dm b0 b1 b2 s0 s1 s2 l) dm"
    and z: "sh_bound (l dm) 3 = 0" "sh_stride (l dm) 3 = x"
    and hw: "fits (IndexWidth hw) b0" "fits (IndexWidth hw) b1" "fits (IndexWidth hw) b2" "fits (RptWidth hw) r"
    and s: "s0 = 8 * k0" "s1 = 8 * k1" "s2 = 8 * k2"
  shows "\<exists>s3. ssr_cfg a 3 (unat r) [unat b0, unat b1, unat b2, 1] [s0, s1, s2, s3]"
proof -
  have st: "(s1 - s0 * (b0 - 1)) AND NOT (mask 3) = s1 - s0 * (b0 - 1)"
    "(s2 - (s0 * (b0 - 1) + s1 * (b1 - 1))) AND NOT (mask 3) = s2 - (s0 * (b0 - 1) + s1 * (b1 - 1))"
    "s0 AND NOT (mask 3) = s0"
    using word_stride [of k0] word_stride [of "k1 - k0 * (b0 - 1)"] word_stride [of "k2 - (k0 * (b0 - 1) + k1 * (b1 - 1))"]
    unfolding s by (simp_all add: algebra_simps)
  have un: "unat (b - 1) = unat b - 1" if "fits w b" for w b using fits_reg [OF that] by simp
  show ?thesis
    unfolding ssr_cfg_def assms(1)
    using st hw [THEN fits_reg(2)] hw [THEN fits_pos] hw [THEN un] z
    by (simp add: ssr_defs start_job_def last_index_def span_def)
qed

lemma cfg_2d:
  assumes "a = snrt_ssr_loop_2d hw dm b0 b1 s0 s1 l dm" and r: "sh_rep (l dm) = 0"
    and hw: "fits (IndexWidth hw) b0" "fits (IndexWidth hw) b1" and s: "s0 = 8 * k0" "s1 = 8 * k1"
  shows "\<exists>s2 s3. ssr_cfg a 1 1 [unat b0, unat b1, 1, 1] [s0, s1, s2, s3]"
proof -
  have st: "(s1 - s0 * (b0 - 1)) AND NOT (mask 3) = s1 - s0 * (b0 - 1)" "s0 AND NOT (mask 3) = s0"
    using word_stride [of k0] word_stride [of "k1 - k0 * (b0 - 1)"] unfolding s by (simp_all add: algebra_simps)
  have un: "unat (b - 1) = unat b - 1" if "fits w b" for w b using fits_reg [OF that] by simp
  show ?thesis
    unfolding ssr_cfg_def assms(1)
    using st hw [THEN fits_reg(2)] hw [THEN fits_pos] hw [THEN un] r
    by (simp add: ssr_defs start_job_def last_index_def span_def)
qed

text \<open>With three dimensions the outermost loop is switched off.\<close>

lemma cfg_3d_of_3:
  assumes "a = snrt_ssr_repeat hw dm r (snrt_ssr_loop_3d hw dm b0 b1 b2 s0 s1 s2 l) dm"
    and hw: "fits (IndexWidth hw) b0" "fits (IndexWidth hw) b1" "fits (IndexWidth hw) b2" "fits (RptWidth hw) r"
    and s: "s0 = 8 * k0" "s1 = 8 * k1" "s2 = 8 * k2"
  shows "\<exists>s3. ssr_cfg a 2 (unat r) [unat b0, unat b1, unat b2, 1] [s0, s1, s2, s3]"
proof -
  have st: "(s1 - s0 * (b0 - 1)) AND NOT (mask 3) = s1 - s0 * (b0 - 1)"
    "(s2 - (s0 * (b0 - 1) + s1 * (b1 - 1))) AND NOT (mask 3) = s2 - (s0 * (b0 - 1) + s1 * (b1 - 1))"
    "s0 AND NOT (mask 3) = s0"
    using word_stride [of k0] word_stride [of "k1 - k0 * (b0 - 1)"] word_stride [of "k2 - (k0 * (b0 - 1) + k1 * (b1 - 1))"]
    unfolding s by (simp_all add: algebra_simps)
  have un: "unat (b - 1) = unat b - 1" if "fits w b" for w b using fits_reg [OF that] by simp
  show ?thesis
    unfolding ssr_cfg_def assms(1)
    using st hw [THEN fits_reg(2)] hw [THEN fits_pos] hw [THEN un]
    by (simp add: ssr_defs start_job_def last_index_def span_def)
qed

text \<open>
  C11: a four-dimensional read stream. With bounds and repetition count that fit the
  counters and strides of whole words, the accesses of the data mover are the loop nest
  the caller asks for: repetition \<open>t\<close> of element \<open>(i0, i1, i2, i3)\<close>, counted with the innermost
  loop first, is the word at \<open>ptr + i0 s0 + i1 s1 + i2 s2 + i3 s3\<close>.
\<close>

theorem ssr_stream_4d:
  assumes hw: "fits (IndexWidth hw) b0" "fits (IndexWidth hw) b1" "fits (IndexWidth hw) b2" "fits (IndexWidth hw) b3"
      "fits (RptWidth hw) r"
    and s: "s0 = 8 * k0" "s1 = 8 * k1" "s2 = 8 * k2" "s3 = 8 * k3" and l: "ssr_ready (l dm)"
    and i: "i0 < unat b0" "i1 < unat b1" "i2 < unat b2" "i3 < unat b3" "t < unat r"
    and l': "l' = snrt_ssr_read hw dm 3 ptr (snrt_ssr_repeat hw dm r (snrt_ssr_loop_4d hw dm b0 b1 b2 b3 s0 s1 s2 s3 l))"
  shows "lane_addr (l' dm) (t + unat r * (i0 + unat b0 * (i1 + unat b1 * (i2 + unat b2 * i3))))
    = ptr + of_nat i0 * s0 + of_nat i1 * s1 + of_nat i2 * s2 + of_nat i3 * s3"
proof -
  let ?a = "l' dm"
  have st: "(s1 - s0 * (b0 - 1)) AND NOT (mask 3) = s1 - s0 * (b0 - 1)"
    "(s2 - (s0 * (b0 - 1) + s1 * (b1 - 1))) AND NOT (mask 3) = s2 - (s0 * (b0 - 1) + s1 * (b1 - 1))"
    "(s3 - (s0 * (b0 - 1) + s1 * (b1 - 1) + s2 * (b2 - 1))) AND NOT (mask 3) = s3 - (s0 * (b0 - 1) + s1 * (b1 - 1) + s2 * (b2 - 1))"
    "s0 AND NOT (mask 3) = s0"
    using word_stride [of k0] word_stride [of "k1 - k0 * (b0 - 1)"] word_stride [of "k2 - (k0 * (b0 - 1) + k1 * (b1 - 1))"]
      word_stride [of "k3 - (k0 * (b0 - 1) + k1 * (b1 - 1) + k2 * (b2 - 1))"]
    unfolding s by (simp_all add: algebra_simps)
  have a: "fresh ?a" "pointer ?a = ptr" "rep ?a = r - 1" "dims ?a = 3" "bound ?a 0 = b0 - 1" "bound ?a 1 = b1 - 1"
    "bound ?a 2 = b2 - 1" "bound ?a 3 = b3 - 1"
    "stride ?a 0 = s0" "stride ?a 1 = s1 - s0 * (b0 - 1)" "stride ?a 2 = s2 - (s0 * (b0 - 1) + s1 * (b1 - 1))"
    "stride ?a 3 = s3 - (s0 * (b0 - 1) + s1 * (b1 - 1) + s2 * (b2 - 1))"
    using l st hw [THEN fits_reg(2)] unfolding l'
    by (simp_all add: ssr_defs start_job_def fresh_def ssr_ready_def)
  have sp: "span ?a 0 = s0" "span ?a 1 = s1" "span ?a 2 = s2" "span ?a 3 = s3"
    unfolding span_def a by simp_all
  have un: "unat (b - 1) = unat b - 1" if "fits w b" for w b using fits_reg [OF that] by simp
  have li: "Suc (last_index ?a 0) = unat b0" "Suc (last_index ?a 1) = unat b1" "Suc (last_index ?a 2) = unat b2"
    "Suc (last_index ?a 3) = unat b3" "Suc (unat (rep ?a)) = unat r"
    using a(3-8) hw un fits_pos by (simp_all add: last_index_def)
  show ?thesis
    using lane_addr_digits [OF a(1), unfolded li, OF i refl] unfolding sp a(2) .
qed

definition demo_ssr :: ssrs where
  "demo_ssr = (\<lambda>_. \<lparr> sh_bound = (\<lambda>_. 0), sh_stride = (\<lambda>_. 0), sh_rep = 0, bound = (\<lambda>_. 0), stride = (\<lambda>_. 0), rep = 0,
     pointer = 0, index = (\<lambda>_. 0), dims = 0, wr = False, idle = True, pending = None, rep_q = 0 \<rparr>)"

definition demo_hw :: ssr_hw where
  "demo_hw = \<lparr> IndexWidth = 18, RptWidth = 4 \<rparr>"

lemma demo_ready: "ssr_ready (demo_ssr dm)"
  by (simp add: ssr_ready_def demo_ssr_def)

theorem ssr_stream_4d_witness:
  "lane_addr (snrt_ssr_read demo_hw 1 3 0x1000 (snrt_ssr_repeat demo_hw 1 2
       (snrt_ssr_loop_4d demo_hw 1 8 5 4 3 8 64 512 0 demo_ssr)) 1)
     (1 + unat (2 :: u32) * (7 + unat (8 :: u32) * (4 + unat (5 :: u32) * (3 + unat (4 :: u32) * 2))))
   = 0x1000 + of_nat 7 * 8 + of_nat 4 * 64 + of_nat 3 * 512 + of_nat 2 * 0"
  by (rule ssr_stream_4d [where hw = demo_hw and l = demo_ssr and dm = 1, of 8 5 4 3 2 8 1 64 8 512 64 0 0])
    (simp_all add: demo_hw_def fits_def demo_ready)

end
