(* ===== verification/Fp_Core.thy ===== *)
theory Fp_Core
  imports Ssr
begin

text \<open>
  The floating-point side of a core: the register file with its three stream registers, the
  instructions the inline assembly of the kernels uses, and the hardware loop
  \<open>frep.o\<close> of the sequencer (\<open>snitch_sequencer.sv\<close>). The arithmetic unit is a third-party
  component and stays a parameter: a function from an operation and its operands to a
  64-bit register value. Lemmas give the effect of an unrolled accumulation under \<open>frep.o\<close>.
\<close>

section \<open>Registers and instructions\<close>

text \<open>
  The names the kernels' assembly gives to its operands are registers of the model: \<open>ft0\<close> to
  \<open>ft2\<close> are 0 to 2, the accumulators \<open>c0\<close> to \<open>c7\<close> are 10 to 17, the \<open>reduce_reg\<close> operands 20 to 27.
\<close>

record fp_core =
  fregs :: "nat \<Rightarrow> u64"
  lanes :: ssrs
  ssr_on :: bool
  cmem :: mem

datatype fop = fmadd_d | fmul_d | fadd_d | fmax_d | vfmul_s | vfadd_s | vfmax_s | vfmac_s | vfmac_h | vfsum_s | vfsumex_s_h | vfdotpex_s_h | vfdotpex_h_b
  | vfcpka_s_s | vfcpka_h_s | vfcpkb_h_s | vfcpka_b_s | vfcpkb_b_s | vfcpkc_b_s | vfcpkd_b_s

type_synonym fpu = "fop \<Rightarrow> u64 list \<Rightarrow> u64"

definition acc :: "nat \<Rightarrow> nat" where "acc i = 10 + i"
definition red :: "nat \<Rightarrow> nat" where "red i = 20 + i"
definition zero_reg :: nat where "zero_reg = 30"

text \<open>While streaming is enabled, a stream register stands for the next element of its stream.\<close>

definition is_stream :: "fp_core \<Rightarrow> nat \<Rightarrow> bool" where
  "is_stream s r \<longleftrightarrow> ssr_on s \<and> r < 3"

definition read_fr :: "nat \<Rightarrow> fp_core \<Rightarrow> u64 \<times> fp_core" where
  "read_fr r s = (if is_stream s r
     then (let (addr, l) = lane_pop (lanes s r) in (load64 (cmem s) addr, s\<lparr> lanes := (lanes s)(r := l) \<rparr>))
     else (fregs s r, s))"

definition write_fr :: "nat \<Rightarrow> u64 \<Rightarrow> fp_core \<Rightarrow> fp_core" where
  "write_fr r v s = (if is_stream s r
     then (let (addr, l) = lane_pop (lanes s r) in s\<lparr> lanes := (lanes s)(r := l), cmem := store64 (cmem s) addr v \<rparr>)
     else s\<lparr> fregs := (fregs s)(r := v) \<rparr>)"

fun read_frs :: "nat list \<Rightarrow> fp_core \<Rightarrow> u64 list \<times> fp_core" where
  "read_frs [] s = ([], s)"
| "read_frs (r # rs) s = (let (v, s) = read_fr r s; (vs, s) = read_frs rs s in (v # vs, s))"

text \<open>
  An arithmetic instruction names its source registers in operand order; an accumulating
  one also reads its destination. A single-precision load boxes its value.
\<close>

datatype finstr = FOp fop nat "nat list" | Fld nat u32 | Flw nat u32

definition nan_box :: "u32 \<Rightarrow> u64" where
  "nan_box v = ucast v OR push_bit 32 (mask 32)"

fun exec_fi :: "fpu \<Rightarrow> finstr \<Rightarrow> fp_core \<Rightarrow> fp_core" where
  "exec_fi fpu (FOp op rd srcs) s = (let (vs, s) = read_frs srcs s in write_fr rd (fpu op vs) s)"
| "exec_fi fpu (Fld rd a) s = write_fr rd (load64 (cmem s) a) s"
| "exec_fi fpu (Flw rd a) s = write_fr rd (nan_box (load32 (cmem s) a)) s"

definition run_fis :: "fpu \<Rightarrow> finstr list \<Rightarrow> fp_core \<Rightarrow> fp_core" where
  "run_fis fpu is s = fold (exec_fi fpu) is s"

text \<open>
  \<open>frep.o n, k\<close> repeats the next \<open>k\<close> instructions \<open>n + 1\<close> times; the sequencer keeps 16 bits
  of the iteration count.
\<close>

datatype asm = I finstr | Frep u32 nat

definition plain :: "asm list \<Rightarrow> finstr list" where
  "plain is = [i. I i \<leftarrow> is]"

fun run_asm :: "fpu \<Rightarrow> asm list \<Rightarrow> fp_core \<Rightarrow> fp_core" where
  "run_asm fpu [] s = s"
| "run_asm fpu (I i # is) s = run_asm fpu is (exec_fi fpu i s)"
| "run_asm fpu (Frep n k # is) s =
     run_asm fpu (drop k is) ((run_fis fpu (plain (take k is)) ^^ Suc (unat (take_bit 16 n))) s)"

definition snrt_ssr_enable :: "fp_core \<Rightarrow> fp_core" where
  "snrt_ssr_enable s = s\<lparr> ssr_on := True \<rparr>"

definition snrt_ssr_disable :: "fp_core \<Rightarrow> fp_core" where
  "snrt_ssr_disable s = s\<lparr> ssr_on := False \<rparr>"

text \<open>Statements of the surrounding C code: register variables and array accesses.\<close>

definition set_fr :: "nat \<Rightarrow> u64 \<Rightarrow> fp_core \<Rightarrow> fp_core" where
  "set_fr r v s = s\<lparr> fregs := (fregs s)(r := v) \<rparr>"

definition put64 :: "u32 \<Rightarrow> u64 \<Rightarrow> fp_core \<Rightarrow> fp_core" where
  "put64 a v s = s\<lparr> cmem := store64 (cmem s) a v \<rparr>"

definition put32 :: "u32 \<Rightarrow> u32 \<Rightarrow> fp_core \<Rightarrow> fp_core" where
  "put32 a v s = s\<lparr> cmem := store32 (cmem s) a v \<rparr>"

definition on_ssrs :: "(ssrs \<Rightarrow> ssrs) \<Rightarrow> fp_core \<Rightarrow> fp_core" where
  "on_ssrs f s = s\<lparr> lanes := f (lanes s) \<rparr>"

text \<open>The loop \<open>for (uint32_t i = 0; i < n; i++)\<close>.\<close>

definition for_u32 :: "u32 \<Rightarrow> (u32 \<Rightarrow> 's \<Rightarrow> 's) \<Rightarrow> 's \<Rightarrow> 's" where
  "for_u32 n body s = fold (\<lambda>i. body (of_nat i)) [0..<unat n] s"

section \<open>Two streams\<close>

text \<open>The core consumes the streams of the jobs \<open>a\<close> and \<open>b\<close> in lockstep and has read \<open>p\<close> elements of each.\<close>

definition streaming :: "agen \<Rightarrow> agen \<Rightarrow> nat \<Rightarrow> fp_core \<Rightarrow> bool" where
  "streaming a b p s \<longleftrightarrow> ssr_on s \<and> lanes s 0 = lane_after p a \<and> lanes s 1 = lane_after p b"

definition elem0 :: "agen \<Rightarrow> mem \<Rightarrow> nat \<Rightarrow> u64" where
  "elem0 a m p = load64 m (lane_addr a p)"

text \<open>One instruction that combines the next elements with register \<open>r\<close>.\<close>

definition pair_step :: "(u64 \<Rightarrow> u64 \<Rightarrow> u64 \<Rightarrow> u64) \<Rightarrow> agen \<Rightarrow> agen \<Rightarrow> nat \<Rightarrow> nat \<Rightarrow> fp_core \<Rightarrow> fp_core" where
  "pair_step f a b p r s = s\<lparr> fregs := (fregs s)(r := f (elem0 a (cmem s) p) (elem0 b (cmem s) p) (fregs s r)),
     lanes := (lanes s)(0 := lane_after (Suc p) a, 1 := lane_after (Suc p) b) \<rparr>"

lemma lane_upd_swap: "(l :: ssrs)(Suc 0 := x, 0 := y) = l(0 := y, Suc 0 := x)"
  by (rule fun_upd_twist) simp

lemma exec_pair:
  assumes "streaming a b p s" "3 \<le> r"
  shows "exec_fi fpu (FOp op r [0, 1, r]) s = pair_step (\<lambda>x y c. fpu op [x, y, c]) a b p r s"
    and "exec_fi fpu (FOp op r [1, 0, r]) s = pair_step (\<lambda>x y c. fpu op [y, x, c]) a b p r s"
    and "exec_fi fpu (FOp op r [1, 0]) s = pair_step (\<lambda>x y c. fpu op [y, x]) a b p r s"
  using assms unfolding streaming_def pair_step_def elem0_def
  by (simp_all add: read_fr_def write_fr_def is_stream_def lane_pop_after Let_def lane_upd_swap)

section \<open>Unrolled accumulation\<close>

text \<open>
  The effect of \<open>n\<close> rounds over \<open>u\<close> accumulators: accumulator \<open>i\<close> takes elements \<open>i\<close>, \<open>u + i\<close>,
  \<open>2 u + i\<close> and so on of both streams.
\<close>

definition accumulate :: "(u64 \<Rightarrow> u64 \<Rightarrow> u64 \<Rightarrow> u64) \<Rightarrow> (nat \<Rightarrow> u64) \<Rightarrow> (nat \<Rightarrow> u64) \<Rightarrow> nat \<Rightarrow> u64 \<Rightarrow> u64" where
  "accumulate f x y n c = fold (\<lambda>k. f (x k) (y k)) [0..<n] c"

lemma accumulate_simps [simp]:
  "accumulate f x y 0 c = c" "accumulate f x y (Suc n) c = f (x n) (y n) (accumulate f x y n c)"
  by (simp_all add: accumulate_def)

lemma accumulate_cong:
  assumes "\<And>k. k < n \<Longrightarrow> x k = x' k" "\<And>k. k < n \<Longrightarrow> y k = y' k" "c = c'"
  shows "accumulate f x y n c = accumulate f x' y' n c'"
  using assms by (induction n) simp_all

definition rounds :: "(u64 \<Rightarrow> u64 \<Rightarrow> u64 \<Rightarrow> u64) \<Rightarrow> agen \<Rightarrow> agen \<Rightarrow> nat \<Rightarrow> nat \<Rightarrow> nat \<Rightarrow> fp_core \<Rightarrow> fp_core" where
  "rounds f a b p u n s = s\<lparr>
     fregs := (\<lambda>r. if 10 \<le> r \<and> r < 10 + u
       then accumulate f (\<lambda>k. elem0 a (cmem s) (p + u * k + (r - 10))) (\<lambda>k. elem0 b (cmem s) (p + u * k + (r - 10))) n (fregs s r)
       else fregs s r),
     lanes := (lanes s)(0 := lane_after (p + u * n) a, 1 := lane_after (p + u * n) b) \<rparr>"

lemma rounds_streaming: "streaming a b p s \<Longrightarrow> streaming a b (p + u * n) (rounds f a b p u n s)"
  by (simp add: streaming_def rounds_def)

text \<open>One round is a sequence of instructions that each serve one accumulator.\<close>

definition serves :: "fpu \<Rightarrow> (u64 \<Rightarrow> u64 \<Rightarrow> u64 \<Rightarrow> u64) \<Rightarrow> (nat \<Rightarrow> finstr) \<Rightarrow> bool" where
  "serves fpu f g \<longleftrightarrow> (\<forall>i a b p s. streaming a b p s \<longrightarrow> exec_fi fpu (g i) s = pair_step f a b p (acc i) s)"

lemma serves_instr:
  "serves fpu (\<lambda>x y c. fpu op [x, y, c]) (\<lambda>i. FOp op (acc i) [0, 1, acc i])"
  "serves fpu (\<lambda>x y c. fpu op [y, x, c]) (\<lambda>i. FOp op (acc i) [1, 0, acc i])"
  "serves fpu (\<lambda>x y c. fpu op [y, x]) (\<lambda>i. FOp op (acc i) [1, 0])"
  unfolding serves_def by (intro allI impI exec_pair; simp add: acc_def)+

lemma one_round:
  assumes g: "serves fpu f g" and s: "streaming a b p s"
  shows "run_fis fpu (map g [0..<u]) s = s\<lparr>
     fregs := (\<lambda>r. if 10 \<le> r \<and> r < 10 + u then f (elem0 a (cmem s) (p + (r - 10))) (elem0 b (cmem s) (p + (r - 10))) (fregs s r)
       else fregs s r),
     lanes := (lanes s)(0 := lane_after (p + u) a, 1 := lane_after (p + u) b) \<rparr>"
proof (induction u)
  case 0
  then show ?case using s by (intro fp_core.equality) (auto simp: run_fis_def streaming_def fun_eq_iff)
next
  case (Suc u)
  let ?t = "run_fis fpu (map g [0..<u]) s"
  have "streaming a b (p + u) ?t" unfolding Suc using s by (simp add: streaming_def)
  then have "run_fis fpu (map g [0..<Suc u]) s = pair_step f a b (p + u) (acc u) ?t"
    using g by (simp add: run_fis_def serves_def)
  then show ?case unfolding Suc by (auto simp: pair_step_def acc_def fun_eq_iff less_Suc_eq)
qed

lemma frep_rounds:
  assumes g: "serves fpu f g" and s: "streaming a b p s"
  shows "(run_fis fpu (map g [0..<u]) ^^ n) s = rounds f a b p u n s"
proof (induction n)
  case 0
  then show ?case using s by (intro fp_core.equality) (auto simp: rounds_def streaming_def fun_eq_iff)
next
  case (Suc n)
  have "streaming a b (p + u * n) (rounds f a b p u n s)" by (rule rounds_streaming [OF s])
  from one_round [OF g this] show ?case
    by (simp add: Suc rounds_def fun_eq_iff algebra_simps)
qed


text \<open>The assembly of a single unrolled hardware loop.\<close>

lemma plain_instrs [simp]: "plain (map I is) = is"
  by (induction "is") (simp_all add: plain_def)

lemma run_asm_instrs: "run_asm fpu (map I is) s = run_fis fpu is s"
  by (induction "is" arbitrary: s) (simp_all add: run_fis_def)

lemma run_asm_frep:
  assumes "serves fpu f g" "streaming a b p s" "unat n < 2 ^ 16"
  shows "run_asm fpu (Frep n u # map I (map g [0..<u]) @ rest) s = run_asm fpu rest (rounds f a b p u (Suc (unat n)) s)"
proof -
  have "unat (take_bit 16 n) = unat n" using assms(3) by (simp add: unsigned_take_bit_eq take_bit_nat_eq_self)
  then show ?thesis
    using frep_rounds [OF assms(1,2), where n = "Suc (unat n)" and u = u] by (simp del: funpow.simps map_map)
qed

text \<open>Filling the accumulators before the loop and storing them after it.\<close>

definition set_accs :: "nat \<Rightarrow> (nat \<Rightarrow> u64) \<Rightarrow> fp_core \<Rightarrow> fp_core" where
  "set_accs u v s = s\<lparr> fregs := (\<lambda>r. if 10 \<le> r \<and> r < 10 + u then v (r - 10) else fregs s r) \<rparr>"

lemma set_accs_frame [simp]:
  "streaming a b p (set_accs u v s) = streaming a b p s" "cmem (set_accs u v s) = cmem s" "lanes (set_accs u v s) = lanes s"
  "ssr_on (set_accs u v s) = ssr_on s"
  by (simp_all add: set_accs_def streaming_def)

lemma fregs_set_accs: "i < u \<Longrightarrow> fregs (set_accs u v s) (acc i) = v i"
  by (simp add: set_accs_def acc_def)

lemma set_accs_0 [simp]: "set_accs 0 v s = s"
proof -
  have "(\<lambda>r. if 10 \<le> r \<and> r < 10 + 0 then v (r - 10) else fregs s r) = fregs s" by (auto simp: fun_eq_iff)
  then show ?thesis by (simp add: set_accs_def)
qed

lemma fill_const: "fold (\<lambda>i. set_fr (acc i) (v i)) [0..<u] s = set_accs u v s"
proof (induction u)
  case (Suc u)
  then show ?case by (auto simp: set_accs_def set_fr_def acc_def fun_eq_iff less_Suc_eq)
qed simp

lemma fill_load: "fold (\<lambda>i. exec_fi fpu (Fld (acc i) (a i))) [0..<u] s = set_accs u (\<lambda>i. load64 (cmem s) (a i)) s"
proof (induction u)
  case (Suc u)
  then show ?case by (auto simp: set_accs_def write_fr_def is_stream_def acc_def fun_eq_iff less_Suc_eq)
qed simp

lemma spill: "fold (\<lambda>i s. put64 (a i) (fregs s (r i)) s) [0..<u] s
    = s\<lparr> cmem := stores (map (\<lambda>i. (a i, fregs s (r i))) [0..<u]) (cmem s) \<rparr>"
  by (induction u) (simp_all add: put64_def)

text \<open>An accumulator after the loop, when it started from a prepared value.\<close>

lemma rounds_frame [simp]:
  "cmem (rounds f a b p u n s) = cmem s" "ssr_on (rounds f a b p u n s) = ssr_on s"
  by (simp_all add: rounds_def)

lemma fregs_rounds:
  "i < u \<Longrightarrow> fregs (rounds f a b p u n s) (acc i)
    = accumulate f (\<lambda>k. elem0 a (cmem s) (p + u * k + i)) (\<lambda>k. elem0 b (cmem s) (p + u * k + i)) n (fregs s (acc i))"
  by (simp add: rounds_def acc_def)

section \<open>Reference kernels\<close>

text \<open>
  One result element of a reduction: the old value is prepared by \<open>g\<close>, \<open>n\<close> products are
  accumulated and the element is written back.
\<close>

definition cell_value :: "(u64 \<Rightarrow> u64 \<Rightarrow> u64 \<Rightarrow> u64) \<Rightarrow> (u64 \<Rightarrow> u64) \<Rightarrow> nat \<Rightarrow> (nat \<Rightarrow> u32) \<Rightarrow> (nat \<Rightarrow> u32) \<Rightarrow> u32 \<Rightarrow> mem \<Rightarrow> u64" where
  "cell_value f g n x y c m = accumulate f (\<lambda>k. load64 m (x k)) (\<lambda>k. load64 m (y k)) n (g (load64 m c))"

definition cell :: "(u64 \<Rightarrow> u64 \<Rightarrow> u64 \<Rightarrow> u64) \<Rightarrow> (u64 \<Rightarrow> u64) \<Rightarrow> nat \<Rightarrow> (nat \<Rightarrow> u32) \<Rightarrow> (nat \<Rightarrow> u32) \<Rightarrow> u32 \<Rightarrow> mem \<Rightarrow> mem" where
  "cell f g n x y c m = store64 m c (cell_value f g n x y c m)"

lemma cell_value_cong:
  assumes "\<And>k. k < n \<Longrightarrow> load64 m (x k) = load64 m' (x k) \<and> load64 m (y k) = load64 m' (y k)" "load64 m c = load64 m' c"
  shows "cell_value f g n x y c m = cell_value f g n x y c m'"
  unfolding cell_value_def using assms by (intro accumulate_cong) simp_all

text \<open>A block of elements that are computed together and stored at the end.\<close>

lemma block_cells:
  assumes "\<And>i j. i < u \<Longrightarrow> j < u \<Longrightarrow> i \<noteq> j \<Longrightarrow> apart (c i) (c j)"
    and "\<And>i j k. i < u \<Longrightarrow> j < u \<Longrightarrow> k < n \<Longrightarrow> apart (x i k) (c j) \<and> apart (y i k) (c j)"
  shows "stores (map (\<lambda>i. (c i, cell_value f g n (x i) (y i) (c i) m)) [0..<u]) m = fold (\<lambda>i. cell f g n (x i) (y i) (c i)) [0..<u] m"
  using assms
proof (induction u)
  case (Suc u)
  let ?xs = "map (\<lambda>i. (c i, cell_value f g n (x i) (y i) (c i) m)) [0..<u]"
  let ?m = "stores ?xs m"
  have IH: "?m = fold (\<lambda>i. cell f g n (x i) (y i) (c i)) [0..<u] m" by (rule Suc.IH) (simp_all add: Suc.prems)
  have o: "load64 ?m a = load64 m a" if "\<And>j. j < u \<Longrightarrow> apart a (c j)" for a
    by (rule load64_stores_other) (auto simp: that)
  have "cell_value f g n (x u) (y u) (c u) m = cell_value f g n (x u) (y u) (c u) ?m"
    by (intro cell_value_cong conjI o [symmetric]) (use Suc.prems in auto)
  then have "cell f g n (x u) (y u) (c u) ?m = store64 ?m (c u) (cell_value f g n (x u) (y u) (c u) m)" by (simp add: cell_def)
  then show ?case using IH by simp
qed simp

text \<open>The loops over all elements, and the loads that no element disturbs.\<close>

definition cells :: "(u64 \<Rightarrow> u64 \<Rightarrow> u64 \<Rightarrow> u64) \<Rightarrow> (u64 \<Rightarrow> u64) \<Rightarrow> nat \<Rightarrow> ('i \<Rightarrow> nat \<Rightarrow> u32) \<Rightarrow> ('i \<Rightarrow> nat \<Rightarrow> u32) \<Rightarrow> ('i \<Rightarrow> u32) \<Rightarrow> 'i list \<Rightarrow> mem \<Rightarrow> mem" where
  "cells f g n x y c is m = fold (\<lambda>i. cell f g n (x i) (y i) (c i)) is m"

lemma cells_simps [simp]:
  "cells f g n x y c [] m = m" "cells f g n x y c (i # is) m = cells f g n x y c is (cell f g n (x i) (y i) (c i) m)"
  "cells f g n x y c (is @ js) m = cells f g n x y c js (cells f g n x y c is m)"
  by (simp_all add: cells_def)

lemma load64_cell_other: "apart a c \<Longrightarrow> load64 (cell f g n x y c m) a = load64 m a"
  by (simp add: cell_def load64_store64_other)

lemma load64_cells_other:
  assumes "\<And>i. i \<in> set is \<Longrightarrow> apart a (c i)"
  shows "load64 (cells f g n x y c is m) a = load64 m a"
  using assms
proof (induction "is" arbitrary: m)
  case (Cons i "is")
  have i: "apart a (c i)" by (rule Cons.prems) simp
  have "load64 (cells f g n x y c is (cell f g n (x i) (y i) (c i) m)) a = load64 (cell f g n (x i) (y i) (c i) m) a"
    by (rule Cons.IH) (simp add: Cons.prems)
  then show ?case by (simp add: load64_cell_other [OF i])
qed simp

lemma load32_of_load64: "load32 m a = ucast (load64 m a)"
  by (rule bit_word_eqI) (auto simp: load64_def bit_simps)

lemma load32_cells_other:
  assumes "\<And>i. i \<in> set is \<Longrightarrow> apart a (c i)"
  shows "load32 (cells f g n x y c is m) a = load32 m a"
  unfolding load32_of_load64 using load64_cells_other [of "is" a c, OF assms] by simp

text \<open>
  Results, operands and the word at \<open>q\<close> occupy different memory.
\<close>

definition disjoint_ops :: "u32 \<Rightarrow> ('i \<Rightarrow> u32) \<Rightarrow> ('i \<Rightarrow> nat \<Rightarrow> u32) \<Rightarrow> ('i \<Rightarrow> nat \<Rightarrow> u32) \<Rightarrow> nat \<Rightarrow> 'i list \<Rightarrow> bool" where
  "disjoint_ops q c x y n is \<longleftrightarrow> (\<forall>i\<in>set is. apart q (c i) \<and> (\<forall>j\<in>set is. (i \<noteq> j \<longrightarrow> apart (c j) (c i))
     \<and> (\<forall>k\<in>set [0..<n]. apart (x j k) (c i) \<and> apart (y j k) (c i))))"

lemma disjoint_opsD:
  assumes "disjoint_ops q c x y n is" "i \<in> set is"
  shows "apart q (c i)" "j \<in> set is \<Longrightarrow> i \<noteq> j \<Longrightarrow> apart (c j) (c i)"
    "j \<in> set is \<Longrightarrow> k < n \<Longrightarrow> apart (x j k) (c i)" "j \<in> set is \<Longrightarrow> k < n \<Longrightarrow> apart (y j k) (c i)"
  using assms by (auto simp: disjoint_ops_def)

text \<open>Operands outside an array of results are enough.\<close>

lemma disjoint_region:
  assumes c: "\<And>i. i \<in> set is \<Longrightarrow> unat (c i) = lo + 8 * w i" "inj_on w (set is)" "\<And>i. i \<in> set is \<Longrightarrow> lo + 8 * w i + 8 \<le> hi" "hi + 8 \<le> 2 ^ 32"
    and o: "unat q + 8 \<le> lo \<or> hi \<le> unat q \<and> unat q + 8 \<le> 2 ^ 32"
      "\<And>i k. i \<in> set is \<Longrightarrow> k < n \<Longrightarrow> unat (x i k) + 8 \<le> lo \<or> hi \<le> unat (x i k) \<and> unat (x i k) + 8 \<le> 2 ^ 32"
      "\<And>i k. i \<in> set is \<Longrightarrow> k < n \<Longrightarrow> unat (y i k) + 8 \<le> lo \<or> hi \<le> unat (y i k) \<and> unat (y i k) + 8 \<le> 2 ^ 32"
  shows "disjoint_ops q c x y n is"
proof -
  have out: "apart a (c i)" if "unat a + 8 \<le> lo \<or> hi \<le> unat a \<and> unat a + 8 \<le> 2 ^ 32" "i \<in> set is" for a i
    using that(1)
  proof
    assume "unat a + 8 \<le> lo"
    then show ?thesis using c(1,3) [OF that(2)] c(4) by (intro apart_below) linarith+
  next
    assume "hi \<le> unat a \<and> unat a + 8 \<le> 2 ^ 32"
    then show ?thesis using c(1,3) [OF that(2)] by (subst apart_sym, intro apart_below) linarith+
  qed
  have cc: "apart (c j) (c i)" if "i \<in> set is" "j \<in> set is" "i \<noteq> j" for i j
  proof -
    have "w i \<noteq> w j" using that c(2) by (auto dest: inj_onD)
    then consider "w j < w i" | "w i < w j" by linarith
    then show ?thesis
    proof cases
      case 1
      then show ?thesis using c(1,3) [OF that(1)] c(1) [OF that(2)] c(4) by (intro apart_below) linarith+
    next
      case 2
      then show ?thesis using c(1,3) [OF that(2)] c(1) [OF that(1)] c(4) by (subst apart_sym, intro apart_below) linarith+
    qed
  qed
  show ?thesis unfolding disjoint_ops_def using out o cc by auto
qed

lemma disjoint_block:
  assumes "disjoint_ops q c x y n is" "\<And>i. i < u \<Longrightarrow> e i \<in> set is" "inj_on e {0..<u}"
  shows "stores (map (\<lambda>i. (c (e i), cell_value f g n (x (e i)) (y (e i)) (c (e i)) m)) [0..<u]) m = cells f g n x y c (map e [0..<u]) m"
proof -
  have "stores (map (\<lambda>i. (c (e i), cell_value f g n (x (e i)) (y (e i)) (c (e i)) m)) [0..<u]) m
      = fold (\<lambda>i. cell f g n (x (e i)) (y (e i)) (c (e i))) [0..<u] m"
  proof (intro block_cells conjI)
    fix i j
    assume ij: "i < u" "j < u" "i \<noteq> j"
    then have "e j \<noteq> e i" using assms(3) by (auto dest: inj_onD)
    then show "apart (c (e i)) (c (e j))" using ij assms(2) by (intro disjoint_opsD(2) [OF assms(1)])
  qed (auto intro: disjoint_opsD(3,4) [OF assms(1)] assms(2))
  then show ?thesis by (simp add: cells_def fold_map comp_def)
qed

text \<open>Each element has its value of the beginning when elements and operands do not overlap.\<close>

lemma load64_cells:
  assumes i: "i \<in> set is" and d: "distinct is"
    and c: "\<And>i j. i \<in> set is \<Longrightarrow> j \<in> set is \<Longrightarrow> i \<noteq> j \<Longrightarrow> apart (c i) (c j)"
    and xy: "\<And>i j k. i \<in> set is \<Longrightarrow> j \<in> set is \<Longrightarrow> k < n \<Longrightarrow> apart (x i k) (c j) \<and> apart (y i k) (c j)"
  shows "load64 (cells f g n x y c is m) (c i) = cell_value f g n (x i) (y i) (c i) m"
  using assms
proof (induction "is" arbitrary: m)
  case (Cons j "is")
  let ?m = "cell f g n (x j) (y j) (c j) m"
  show ?case
  proof (cases "i = j")
    case True
    have "load64 (cells f g n x y c is ?m) (c j) = load64 ?m (c j)"
      by (rule load64_cells_other, rule Cons.prems(3)) (use Cons.prems(2) in auto)
    then show ?thesis using True by (simp add: cell_def load64_store64_same)
  next
    case False
    then have i: "i \<in> set is" using Cons.prems(1) by simp
    have "load64 (cells f g n x y c is ?m) (c i) = cell_value f g n (x i) (y i) (c i) ?m"
      using i by (rule Cons.IH) (use Cons.prems(2-4) in auto)
    also have "\<dots> = cell_value f g n (x i) (y i) (c i) m"
      by (intro cell_value_cong conjI load64_cell_other) (use Cons.prems(3,4) i False in auto)
    finally show ?thesis by simp
  qed
qed simp

lemma cells_cong_init:
  assumes d: "disjoint_ops q c x y n es" "distinct is" "set is \<subseteq> set es"
    and g: "\<And>i. i \<in> set is \<Longrightarrow> g (load64 m (c i)) = g' (load64 m (c i))"
  shows "cells f g n x y c is m = cells f g' n x y c is m"
  using d(2,3) g
proof (induction "is" arbitrary: m)
  case (Cons i "is")
  have e: "cell f g n (x i) (y i) (c i) m = cell f g' n (x i) (y i) (c i) m"
    using Cons.prems(3) [of i] by (simp add: cell_def cell_value_def)
  have l: "load64 (cell f g' n (x i) (y i) (c i) m) (c j) = load64 m (c j)" if "j \<in> set is" for j
    using Cons.prems(1,2) that by (intro load64_cell_other disjoint_opsD(2) [OF d(1)]) auto
  show ?case unfolding cells_simps e
    by (rule Cons.IH) (use Cons.prems l in auto)
qed simp

section \<open>Straight-line code\<close>

text \<open>Rows of instructions with consecutive destination registers.\<close>

definition set_regs :: "nat \<Rightarrow> nat \<Rightarrow> (nat \<Rightarrow> u64) \<Rightarrow> fp_core \<Rightarrow> fp_core" where
  "set_regs B u v s = s\<lparr> fregs := (\<lambda>r. if B \<le> r \<and> r < B + u then v (r - B) else fregs s r) \<rparr>"

lemma set_regs_frame [simp]:
  "streaming a b p (set_regs B u v s) = streaming a b p s" "cmem (set_regs B u v s) = cmem s" "lanes (set_regs B u v s) = lanes s"
  "ssr_on (set_regs B u v s) = ssr_on s"
  by (simp_all add: set_regs_def streaming_def)

lemma set_regs_0: "set_regs B 0 v s = s"
proof -
  have "(\<lambda>r. if B \<le> r \<and> r < B + 0 then v (r - B) else fregs s r) = fregs s" by (auto simp: fun_eq_iff)
  then show ?thesis by (simp add: set_regs_def)
qed

lemma set_regs_Suc: "set_regs B (Suc u) v s = (set_regs B u v s)\<lparr> fregs := (fregs (set_regs B u v s))(B + u := v u) \<rparr>"
  by (auto simp: set_regs_def fun_eq_iff less_Suc_eq)

lemma fregs_set_regs: "fregs (set_regs B u v s) r = (if B \<le> r \<and> r < B + u then v (r - B) else fregs s r)"
  by (simp add: set_regs_def)

lemma read_frs_plain: "(\<And>r. r \<in> set rs \<Longrightarrow> 3 \<le> r) \<Longrightarrow> read_frs rs s = (map (fregs s) rs, s)"
  by (induction rs) (simp_all add: read_fr_def is_stream_def leD)

lemma exec_fop_plain:
  assumes "3 \<le> rd" "\<And>r. r \<in> set srcs \<Longrightarrow> 3 \<le> r"
  shows "exec_fi fpu (FOp op rd srcs) s = s\<lparr> fregs := (fregs s)(rd := fpu op (map (fregs s) srcs)) \<rparr>"
  using assms by (simp add: read_frs_plain write_fr_def is_stream_def)

lemma fop_row:
  assumes "3 \<le> B" "\<And>i r. i < u \<Longrightarrow> r \<in> set (src i) \<Longrightarrow> 3 \<le> r \<and> (r < B \<or> B + i \<le> r)"
  shows "run_fis fpu (map (\<lambda>i. FOp op (B + i) (src i)) [0..<u]) s = set_regs B u (\<lambda>i. fpu op (map (fregs s) (src i))) s"
  using assms(2)
proof (induction u)
  case 0
  then show ?case by (simp add: run_fis_def set_regs_0)
next
  case (Suc u)
  let ?t = "set_regs B u (\<lambda>i. fpu op (map (fregs s) (src i))) s"
  have t: "run_fis fpu (map (\<lambda>i. FOp op (B + i) (src i)) [0..<u]) s = ?t"
    by (rule Suc.IH, rule Suc.prems) simp_all
  have e: "map (fregs ?t) (src u) = map (fregs s) (src u)" using Suc.prems [of u] by (fastforce simp: fregs_set_regs)
  have "exec_fi fpu (FOp op (B + u) (src u)) ?t = ?t\<lparr> fregs := (fregs ?t)(B + u := fpu op (map (fregs ?t) (src u))) \<rparr>"
    using assms(1) Suc.prems [of u] by (intro exec_fop_plain) auto
  also have "\<dots> = set_regs B (Suc u) (\<lambda>i. fpu op (map (fregs s) (src i))) s" by (simp only: e set_regs_Suc)
  finally show ?case using t by (simp add: run_fis_def del: exec_fi.simps)
qed

lemma flw_row:
  assumes "3 \<le> B"
  shows "run_fis fpu (map (\<lambda>i. Flw (B + i) (a i)) [0..<u]) s = set_regs B u (\<lambda>i. nan_box (load32 (cmem s) (a i))) s"
proof (induction u)
  case 0
  then show ?case by (simp add: run_fis_def set_regs_0)
next
  case (Suc u)
  then show ?case using assms by (simp add: run_fis_def set_regs_Suc write_fr_def is_stream_def)
qed

lemma run_asm_append: "run_asm fpu (map I is @ rest) s = run_asm fpu rest (run_fis fpu is s)"
  by (induction "is" arbitrary: s) (simp_all add: run_fis_def)

section \<open>Loop nests over blocks\<close>

text \<open>
  A kernel that handles block \<open>j\<close> of row \<open>m\<close> by a piece of code which reads \<open>8 K\<close> elements of
  each stream and changes memory by \<open>ref m j\<close> works through all blocks in order.
\<close>

definition block_step :: "agen \<Rightarrow> agen \<Rightarrow> nat \<Rightarrow> nat \<Rightarrow> nat \<Rightarrow> (nat \<Rightarrow> nat \<Rightarrow> fp_core \<Rightarrow> fp_core) \<Rightarrow> (nat \<Rightarrow> nat \<Rightarrow> mem \<Rightarrow> mem) \<Rightarrow> bool" where
  "block_step a b K M N8 blk ref \<longleftrightarrow> (\<forall>m<M. \<forall>j<N8. \<forall>s. streaming a b (8 * (K * (j + N8 * m))) s \<longrightarrow>
     streaming a b (8 * (K * (Suc j + N8 * m))) (blk m j s) \<and> cmem (blk m j s) = ref m j (cmem s))"

lemma blocks_in_row:
  assumes "block_step a b K M N8 blk ref" "m < M" "streaming a b (8 * (K * (N8 * m))) s"
  shows "j \<le> N8 \<Longrightarrow> streaming a b (8 * (K * (j + N8 * m))) (fold (blk m) [0..<j] s)
    \<and> cmem (fold (blk m) [0..<j] s) = fold (ref m) [0..<j] (cmem s)"
  by (induction j) (use assms in \<open>simp_all add: block_step_def\<close>)

lemma blocks_in_rows:
  assumes "block_step a b K M N8 blk ref" "streaming a b 0 s"
  shows "i \<le> M \<Longrightarrow> streaming a b (8 * (K * (N8 * i))) (fold (\<lambda>m. fold (blk m) [0..<N8]) [0..<i] s)
    \<and> cmem (fold (\<lambda>m. fold (blk m) [0..<N8]) [0..<i] s) = fold (\<lambda>m. fold (ref m) [0..<N8]) [0..<i] (cmem s)"
proof (induction i)
  case 0
  then show ?case using assms(2) by simp
next
  case (Suc i)
  then show ?case using blocks_in_row [OF assms(1), of i _ N8] by simp
qed

text \<open>The loop variable of the C code advances by a constant.\<close>

lemma fold_stepping:
  "fold (\<lambda>_ (n, s). (n + of_nat d, blk n s)) [0..<j] (0 :: u32, s) = (of_nat (d * j), fold (\<lambda>i. blk (of_nat (d * i))) [0..<j] s)"
  by (induction j) (simp_all add: algebra_simps)

end
