(* ===== verification/Gemm.thy ===== *)
theory Gemm
  imports Fp_Core
begin

text \<open>
  The double-precision matrix multiplication kernels of \<open>sw/applications/src/kernels/gemm.c\<close>
  (\<open>sw/blas/gemm/src/gemm.h\<close> holds the same code): the plain loops and the version that feeds a
  hardware loop from two streams. The main results are that the optimised kernel computes what
  the plain one does, that it leaves the data movers ready, and that a configuration
  made once serves any number of tiles.
\<close>

section \<open>The plain kernel\<close>

text \<open>
  A \<open>double\<close> is its 64-bit pattern. How the compiler evaluates a product and a product that is
  added to an accumulator is a parameter: with \<open>-ffast-math\<close> the latter is one fused operation.
\<close>

definition at8 :: "u32 \<Rightarrow> u32 \<Rightarrow> u32" where
  "at8 p i = p + 8 * i"

definition gemm_fp64_baseline ::
  "(u64 \<Rightarrow> u64 \<Rightarrow> u64) \<Rightarrow> (u64 \<Rightarrow> u64 \<Rightarrow> u64 \<Rightarrow> u64) \<Rightarrow> u32 \<Rightarrow> u32 \<Rightarrow> u32 \<Rightarrow> u32 \<Rightarrow> u32 \<Rightarrow> u32 \<Rightarrow> u32 \<Rightarrow> u32 \<Rightarrow> u32
    \<Rightarrow> u32 \<Rightarrow> u32 \<Rightarrow> u64 \<Rightarrow> mem \<Rightarrow> mem" where
  "gemm_fp64_baseline mul_d mac_d M N K A ldA ta B ldB tb C ldC ALPHA mem = (
    if ta = 0 \<and> tb = 0 then
      for_u32 M (\<lambda>m. for_u32 N (\<lambda>n mem.
        let c0 = mul_d ALPHA (load64 mem (at8 C (m * ldC + n)));
            c0 = for_u32 K (\<lambda>k c0. mac_d (load64 mem (at8 A (k + m * ldA))) (load64 mem (at8 B (k * ldB + n))) c0) c0
        in store64 mem (at8 C (m * ldC + n)) c0)) mem
    else if ta \<noteq> 0 \<and> tb = 0 then
      for_u32 M (\<lambda>m. for_u32 N (\<lambda>n mem.
        let c0 = mul_d ALPHA (load64 mem (at8 C (m * ldC + n)));
            c0 = for_u32 K (\<lambda>k c0. mac_d (load64 mem (at8 A (k * M * ldA + m * ldA))) (load64 mem (at8 B (k * ldB + n))) c0) c0
        in store64 mem (at8 C (m * ldC + n)) c0)) mem
    else if ta = 0 \<and> tb \<noteq> 0 then
      for_u32 M (\<lambda>m. for_u32 N (\<lambda>n mem.
        let c0 = mul_d ALPHA (load64 mem (at8 C (m * ldC + n)));
            c0 = for_u32 K (\<lambda>k c0. mac_d (load64 mem (at8 A (k + m * ldA))) (load64 mem (at8 B (k + n * ldB))) c0) c0
        in store64 mem (at8 C (m * ldC + n)) c0)) mem
    else
      for_u32 M (\<lambda>m. for_u32 N (\<lambda>n mem.
        let c0 = mul_d ALPHA (load64 mem (at8 C (m * ldC + n)));
            c0 = for_u32 K (\<lambda>k c0. mac_d (load64 mem (at8 A (k * M * ldA + m * ldA))) (load64 mem (at8 B (k + n * ldB))) c0) c0
        in store64 mem (at8 C (m * ldC + n)) c0)) mem)"

section \<open>The streaming kernel\<close>

definition gemm_fp64_setup :: "ssr_hw \<Rightarrow> u32 \<Rightarrow> u32 \<Rightarrow> u32 \<Rightarrow> u32 \<Rightarrow> u32 \<Rightarrow> u32 \<Rightarrow> u32 \<Rightarrow> ssrs \<Rightarrow> ssrs" where
  "gemm_fp64_setup hw M N K ldA ta ldB tb l = (
    let unroll = 8;
        l = (if ta \<noteq> 0
          then snrt_ssr_repeat hw 0 unroll (snrt_ssr_loop_3d hw 0 K (N div unroll) M (8 * ldA) 0 (8 * 8) l)
          else snrt_ssr_repeat hw 0 unroll (snrt_ssr_loop_3d hw 0 K (N div unroll) M 8 0 (8 * ldA) l))
    in if tb \<noteq> 0
       then snrt_ssr_loop_4d hw 1 unroll K (N div unroll) M (8 * ldB) 8 (8 * ldB * unroll) 0 l
       else snrt_ssr_loop_4d hw 1 unroll K (N div unroll) M 8 (8 * ldB) (8 * unroll) 0 l)"

text \<open>Eight columns of one row: load or clear the accumulators, the hardware loop, store.\<close>

definition gemm_fp64_block :: "fpu \<Rightarrow> u32 \<Rightarrow> u32 \<Rightarrow> u32 \<Rightarrow> u32 \<Rightarrow> u32 \<Rightarrow> u32 \<Rightarrow> fp_core \<Rightarrow> fp_core" where
  "gemm_fp64_block fpu K C ldC ALPHA m n s = (
    let s = (if load32 (cmem s) ALPHA \<noteq> 0
          then fold (\<lambda>i. exec_fi fpu (Fld (acc i) (at8 C (m * ldC + n + of_nat i)))) [0..<8] s
          else fold (\<lambda>i. set_fr (acc i) 0) [0..<8] s);
        s = run_asm fpu (Frep (K - 1) 8 # map I (map (\<lambda>i. FOp fmadd_d (acc i) [0, 1, acc i]) [0..<8])) s
    in fold (\<lambda>i s. put64 (at8 C (m * ldC + n + of_nat i)) (fregs s (acc i)) s) [0..<8] s)"

text \<open>A leftover column.\<close>

definition gemm_fp64_column ::
  "(u64 \<Rightarrow> u64 \<Rightarrow> u64 \<Rightarrow> u64) \<Rightarrow> u32 \<Rightarrow> u32 \<Rightarrow> u32 \<Rightarrow> u32 \<Rightarrow> u32 \<Rightarrow> u32 \<Rightarrow> u32 \<Rightarrow> u32 \<Rightarrow> u32 \<Rightarrow> u32 \<Rightarrow> fp_core \<Rightarrow> fp_core" where
  "gemm_fp64_column mac_d K A ldA B ldB C ldC ALPHA m n s = (
    let c = (if load32 (cmem s) ALPHA \<noteq> 0 then load64 (cmem s) (at8 C (m * ldC + n)) else 0);
        c = for_u32 K (\<lambda>k c. mac_d (load64 (cmem s) (at8 A (k + m * ldA))) (load64 (cmem s) (at8 B (k + n * ldB))) c) c
    in put64 (at8 C (m * ldC + n)) c s)"

definition for_from_u32 :: "u32 \<Rightarrow> u32 \<Rightarrow> (u32 \<Rightarrow> 's \<Rightarrow> 's) \<Rightarrow> 's \<Rightarrow> 's" where
  "for_from_u32 lo n body s = fold (\<lambda>i. body (of_nat i)) [unat lo..<unat n] s"

definition gemm_fp64_row ::
  "fpu \<Rightarrow> (u64 \<Rightarrow> u64 \<Rightarrow> u64 \<Rightarrow> u64) \<Rightarrow> u32 \<Rightarrow> u32 \<Rightarrow> u32 \<Rightarrow> u32 \<Rightarrow> u32 \<Rightarrow> u32 \<Rightarrow> u32 \<Rightarrow> u32 \<Rightarrow> u32 \<Rightarrow> u32 \<Rightarrow> fp_core \<Rightarrow> fp_core" where
  "gemm_fp64_row fpu mac_d N K A ldA B ldB C ldC ALPHA m s = (
    let unroll = 8;
        (n, s) = for_u32 (N div unroll) (\<lambda>n0 (n, s). (n + unroll, gemm_fp64_block fpu K C ldC ALPHA m n s)) (0, s);
        s = snrt_ssr_disable s;
        s = for_from_u32 n N (gemm_fp64_column mac_d K A ldA B ldB C ldC ALPHA m) s
    in snrt_ssr_enable s)"

definition gemm_fp64_opt ::
  "ssr_hw \<Rightarrow> fpu \<Rightarrow> (u64 \<Rightarrow> u64 \<Rightarrow> u64 \<Rightarrow> u64) \<Rightarrow> u32 \<Rightarrow> u32 \<Rightarrow> u32 \<Rightarrow> u32 \<Rightarrow> u32 \<Rightarrow> u32 \<Rightarrow> u32 \<Rightarrow> u32 \<Rightarrow> u32 \<Rightarrow> u32
    \<Rightarrow> u32 \<Rightarrow> u32 \<Rightarrow> u32 \<Rightarrow> fp_core \<Rightarrow> fp_core" where
  "gemm_fp64_opt hw fpu mac_d M N K A ldA ta B ldB tb C ldC ALPHA setup_SSR s = (
    let s = (if setup_SSR \<noteq> 0 then on_ssrs (gemm_fp64_setup hw M N K ldA ta ldB tb) s else s);
        s = on_ssrs (snrt_ssr_read hw 0 3 A) s;
        s = on_ssrs (snrt_ssr_read hw 1 3 B) s;
        s = snrt_ssr_enable s;
        s = for_u32 M (gemm_fp64_row fpu mac_d N K A ldA B ldB C ldC ALPHA) s
    in snrt_ssr_disable s)"

section \<open>Loops\<close>

lemma for_u32_fold: "for_u32 n body s = fold (\<lambda>i. body (of_nat i)) [0..<unat n] s"
  by (simp add: for_u32_def)

lemma for_u32_accumulate:
  "for_u32 n (\<lambda>k c. f (x k) (y k) c) c = accumulate f (\<lambda>k. x (of_nat k)) (\<lambda>k. y (of_nat k)) (unat n) c"
  by (simp add: for_u32_def accumulate_def)

text \<open>The elements of the result in the order of the plain loops.\<close>

definition grid :: "nat \<Rightarrow> nat \<Rightarrow> (nat \<times> nat) list" where
  "grid M N = concat (map (\<lambda>m. map (Pair m) [0..<N]) [0..<M])"

lemma fold_grid: "fold (\<lambda>m. fold (\<lambda>n. h (m, n)) [0..<N]) [0..<M] s = fold h (grid M N) s"
  by (induction M) (simp_all add: grid_def fold_map comp_def)

lemma set_grid [simp]: "set (grid M N) = {0..<M} \<times> {0..<N}"
  by (auto simp: grid_def)

lemma grid_Suc: "grid (Suc M) N = grid M N @ map (Pair M) [0..<N]"
  by (simp add: grid_def)

text \<open>Addresses of the operands of an element and of the element itself.\<close>

definition gemm_a :: "u32 \<Rightarrow> u32 \<Rightarrow> nat \<times> nat \<Rightarrow> nat \<Rightarrow> u32" where
  "gemm_a A ldA e k = at8 A (of_nat k + of_nat (fst e) * ldA)"

definition gemm_b :: "u32 \<Rightarrow> u32 \<Rightarrow> u32 \<Rightarrow> nat \<times> nat \<Rightarrow> nat \<Rightarrow> u32" where
  "gemm_b B ldB tb e k = at8 B (if tb \<noteq> 0 then of_nat k + of_nat (snd e) * ldB else of_nat k * ldB + of_nat (snd e))"

definition gemm_c :: "u32 \<Rightarrow> u32 \<Rightarrow> nat \<times> nat \<Rightarrow> u32" where
  "gemm_c C ldC e = at8 C (of_nat (fst e) * ldC + of_nat (snd e))"

definition gemm_ref ::
  "(u64 \<Rightarrow> u64 \<Rightarrow> u64 \<Rightarrow> u64) \<Rightarrow> (u64 \<Rightarrow> u64) \<Rightarrow> u32 \<Rightarrow> u32 \<Rightarrow> u32 \<Rightarrow> u32 \<Rightarrow> u32 \<Rightarrow> u32 \<Rightarrow> u32 \<Rightarrow> u32 \<Rightarrow> (nat \<times> nat) list \<Rightarrow> mem \<Rightarrow> mem" where
  "gemm_ref f g K A ldA B ldB tb C ldC es =
     cells f g (unat K) (gemm_a A ldA) (gemm_b B ldB tb) (gemm_c C ldC) es"

lemma baseline_ref:
  "gemm_fp64_baseline mul_d mac_d M N K A ldA 0 B ldB tb C ldC ALPHA mem
    = gemm_ref mac_d (mul_d ALPHA) K A ldA B ldB tb C ldC (grid (unat M) (unat N)) mem"
  unfolding gemm_ref_def cells_def fold_grid [symmetric]
  by (simp add: gemm_fp64_baseline_def for_u32_def [abs_def] accumulate_def cell_def [abs_def] cell_value_def
      gemm_a_def [abs_def] gemm_b_def [abs_def] gemm_c_def Let_def)


section \<open>The streaming kernel computes the reference\<close>

definition fma :: "fpu \<Rightarrow> u64 \<Rightarrow> u64 \<Rightarrow> u64 \<Rightarrow> u64" where
  "fma fpu x y c = fpu fmadd_d [x, y, c]"

text \<open>What an accumulator starts from.\<close>

definition start_value :: "u32 \<Rightarrow> u64 \<Rightarrow> u64" where
  "start_value alpha c = (if alpha \<noteq> 0 then c else 0)"

lemma fmadd_serves: "serves fpu (fma fpu) (\<lambda>i. FOp fmadd_d (acc i) [0, 1, acc i])"
  using serves_instr(1) [of fpu fmadd_d] by (simp add: fma_def [abs_def])

lemma block_spec:
  assumes s: "streaming a b p s" and K: "0 < unat K" "unat K \<le> 2 ^ 16"
    and x: "\<And>i k. i < 8 \<Longrightarrow> k < unat K \<Longrightarrow> lane_addr a (p + 8 * k + i) = gemm_a A ldA (m, n + i) k"
    and y: "\<And>i k. i < 8 \<Longrightarrow> k < unat K \<Longrightarrow> lane_addr b (p + 8 * k + i) = gemm_b B ldB tb (m, n + i) k"
    and d: "disjoint_ops ALPHA (gemm_c C ldC) (gemm_a A ldA) (gemm_b B ldB tb) (unat K) es" "\<And>i. i < 8 \<Longrightarrow> (m, n + i) \<in> set es"
    and t_def: "t = gemm_fp64_block fpu K C ldC ALPHA (of_nat m) (of_nat n) s"
  shows "streaming a b (p + 8 * unat K) t"
    and "cmem t = gemm_ref (fma fpu) (start_value (load32 (cmem s) ALPHA)) K A ldA B ldB tb C ldC (map (\<lambda>i. (m, n + i)) [0..<8]) (cmem s)"
proof -
  let ?g = "start_value (load32 (cmem s) ALPHA)" and ?c = "gemm_c C ldC"
  have c: "at8 C (of_nat m * ldC + of_nat n + of_nat i) = ?c (m, n + i)" for i
    by (simp add: gemm_c_def add.assoc)
  define u where "u = set_accs 8 (\<lambda>i. ?g (load64 (cmem s) (?c (m, n + i)))) s"
  have init: "(if load32 (cmem s) ALPHA \<noteq> 0
      then fold (\<lambda>i. exec_fi fpu (Fld (acc i) (?c (m, n + i)))) [0..<8] s
      else fold (\<lambda>i. set_fr (acc i) 0) [0..<8] s) = u"
    unfolding u_def fill_load fill_const [where v = "\<lambda>_. 0"] by (simp add: start_value_def)
  have "unat (K - 1) = unat K - 1" using K(1) by (subst unat_minus_no_underflow) simp_all
  then have k1: "Suc (unat (K - 1)) = unat K" "unat (K - 1) < 2 ^ 16" using K by linarith+
  have us: "streaming a b p u" using s by (simp add: u_def)
  let ?r = "rounds (fma fpu) a b p 8 (unat K) u"
  have loop: "run_asm fpu (Frep (K - 1) 8 # map I (map (\<lambda>i. FOp fmadd_d (acc i) [0, 1, acc i]) [0..<8])) u = ?r"
    using run_asm_frep [OF fmadd_serves us k1(2), where u = 8 and rest = "[]"] unfolding k1(1) by (simp del: map_map)
  have t: "t = ?r\<lparr> cmem := stores (map (\<lambda>i. (?c (m, n + i), fregs ?r (acc i))) [0..<8]) (cmem s) \<rparr>"
    unfolding t_def gemm_fp64_block_def c init Let_def loop spill by (simp add: u_def)
  show "streaming a b (p + 8 * unat K) t"
    using rounds_streaming [OF us, of 8 "unat K" "fma fpu"] unfolding t by (simp add: streaming_def)
  have "fregs ?r (acc i) = cell_value (fma fpu) ?g (unat K) (gemm_a A ldA (m, n + i)) (gemm_b B ldB tb (m, n + i)) (?c (m, n + i)) (cmem s)"
    if "i < 8" for i
    unfolding fregs_rounds [OF that] cell_value_def
    by (rule accumulate_cong) (simp_all add: u_def fregs_set_accs that elem0_def x y)
  then have "cmem t = stores (map (\<lambda>i. (?c (m, n + i), cell_value (fma fpu) ?g (unat K) (gemm_a A ldA (m, n + i))
      (gemm_b B ldB tb (m, n + i)) (?c (m, n + i)) (cmem s))) [0..<8]) (cmem s)"
    unfolding t by (auto intro!: arg_cong [where f = "\<lambda>xs. stores xs (cmem s)"] map_cong)
  then show "cmem t = gemm_ref (fma fpu) ?g K A ldA B ldB tb C ldC (map (\<lambda>i. (m, n + i)) [0..<8]) (cmem s)"
    unfolding gemm_ref_def using d by (subst (asm) disjoint_block [OF d(1), where e = "\<lambda>i. (m, n + i)"]) (auto simp: inj_on_def)
qed

lemma column_spec:
  assumes "tb \<noteq> 0"
  shows "gemm_fp64_column f K A ldA B ldB C ldC ALPHA (of_nat m) (of_nat n) s
    = s\<lparr> cmem := gemm_ref f (start_value (load32 (cmem s) ALPHA)) K A ldA B ldB tb C ldC [(m, n)] (cmem s) \<rparr>"
  using assms
  by (simp add: gemm_fp64_column_def for_u32_def accumulate_def gemm_ref_def cell_def cell_value_def gemm_a_def gemm_b_def gemm_c_def
      start_value_def put64_def Let_def)

lemma gemm_ref_alpha:
  assumes "disjoint_ops ALPHA (gemm_c C ldC) x y n es" "set is \<subseteq> set es"
  shows "load32 (gemm_ref f g K A ldA B ldB tb C ldC is m) ALPHA = load32 m ALPHA"
  unfolding gemm_ref_def using assms by (intro load32_cells_other disjoint_opsD(1) [OF assms(1)]) auto

lemma columns_spec:
  assumes tb: "tb \<noteq> 0" and d: "disjoint_ops ALPHA (gemm_c C ldC) x y k es" "Pair m ` set ns \<subseteq> set es"
  shows "fold (\<lambda>n. gemm_fp64_column f K A ldA B ldB C ldC ALPHA (of_nat m) (of_nat n)) ns s
    = s\<lparr> cmem := gemm_ref f (start_value (load32 (cmem s) ALPHA)) K A ldA B ldB tb C ldC (map (Pair m) ns) (cmem s) \<rparr>"
  using d(2)
proof (induction ns arbitrary: s)
  case Nil
  then show ?case by (simp add: gemm_ref_def)
next
  case (Cons n ns)
  let ?m = "gemm_ref f (start_value (load32 (cmem s) ALPHA)) K A ldA B ldB tb C ldC [(m, n)] (cmem s)"
  have al: "load32 ?m ALPHA = load32 (cmem s) ALPHA"
    using Cons.prems by (intro gemm_ref_alpha [OF d(1)]) auto
  have "fold (\<lambda>n. gemm_fp64_column f K A ldA B ldB C ldC ALPHA (of_nat m) (of_nat n)) (n # ns) s
      = fold (\<lambda>n. gemm_fp64_column f K A ldA B ldB C ldC ALPHA (of_nat m) (of_nat n)) ns (s\<lparr> cmem := ?m \<rparr>)"
    by (simp add: column_spec [OF tb])
  also have "\<dots> = s\<lparr> cmem := gemm_ref f (start_value (load32 (cmem s) ALPHA)) K A ldA B ldB tb C ldC (map (Pair m) ns) ?m \<rparr>"
    by (subst Cons.IH) (use Cons.prems al in auto)
  finally show ?case by (simp add: gemm_ref_def)
qed

text \<open>What the two streams have to deliver, element by element.\<close>

definition delivers :: "agen \<Rightarrow> (nat \<times> nat \<Rightarrow> nat \<Rightarrow> u32) \<Rightarrow> nat \<Rightarrow> nat \<Rightarrow> nat \<Rightarrow> bool" where
  "delivers a x M N8 K \<longleftrightarrow> (\<forall>m<M. \<forall>n<N8. \<forall>k<K. \<forall>i<8. lane_addr a (8 * (K * (n + N8 * m)) + 8 * k + i) = x (m, 8 * n + i) k)"

lemma row_blocks:
  assumes s: "streaming a b (8 * (unat K * (N8 * m))) s" and K: "0 < unat K" "unat K \<le> 2 ^ 16"
    and st: "delivers a (gemm_a A ldA) M N8 (unat K)" "delivers b (gemm_b B ldB tb) M N8 (unat K)" "m < M"
    and d: "disjoint_ops ALPHA (gemm_c C ldC) (gemm_a A ldA) (gemm_b B ldB tb) (unat K) es" "Pair m ` {0..<8 * N8} \<subseteq> set es"
    and j: "j \<le> N8"
  shows "\<exists>t. fold (\<lambda>_ (n, s). (n + 8, gemm_fp64_block fpu K C ldC ALPHA (of_nat m) n s)) [0..<j] (0, s) = (of_nat (8 * j), t)
    \<and> streaming a b (8 * (unat K * (j + N8 * m))) t
    \<and> cmem t = gemm_ref (fma fpu) (start_value (load32 (cmem s) ALPHA)) K A ldA B ldB tb C ldC (map (Pair m) [0..<8 * j]) (cmem s)"
  using j
proof (induction j)
  case 0
  then show ?case using s by (simp add: gemm_ref_def)
next
  case (Suc j)
  let ?g = "start_value (load32 (cmem s) ALPHA)"
  let ?F = "fold (\<lambda>_ (n, s). (n + 8, gemm_fp64_block fpu K C ldC ALPHA (of_nat m) n s))"
  obtain t where t: "?F [0..<j] (0, s) = (of_nat (8 * j), t)" "streaming a b (8 * (unat K * (j + N8 * m))) t"
    "cmem t = gemm_ref (fma fpu) ?g K A ldA B ldB tb C ldC (map (Pair m) [0..<8 * j]) (cmem s)"
    using Suc by auto
  let ?u = "gemm_fp64_block fpu K C ldC ALPHA (of_nat m) (of_nat (8 * j)) t"
  have al: "load32 (cmem t) ALPHA = load32 (cmem s) ALPHA"
    unfolding t(3) using d(2) Suc.prems by (intro gemm_ref_alpha [OF d(1)]) auto
  have x: "lane_addr a (8 * (unat K * (j + N8 * m)) + 8 * k + i) = gemm_a A ldA (m, 8 * j + i) k"
    "lane_addr b (8 * (unat K * (j + N8 * m)) + 8 * k + i) = gemm_b B ldB tb (m, 8 * j + i) k" if "i < 8" "k < unat K" for i k
    using st Suc.prems that by (simp_all add: delivers_def)
  have mem: "(m, 8 * j + i) \<in> set es" if "i < 8" for i using d(2) Suc.prems that by auto
  note B = block_spec [OF t(2) K x d(1) mem refl]
  have l: "[0..<8 * Suc j] = [0..<8 * j] @ map (\<lambda>i. 8 * j + i) [0..<8]"
    by (simp add: upt_add_eq_append [of 0 "8 * j" 8, simplified add.commute] map_add_upt add.commute)
  have "cmem ?u = gemm_ref (fma fpu) ?g K A ldA B ldB tb C ldC (map (\<lambda>i. (m, 8 * j + i)) [0..<8]) (cmem t)"
    using B(2) unfolding al .
  then have "cmem ?u = gemm_ref (fma fpu) ?g K A ldA B ldB tb C ldC (map (Pair m) [0..<8 * Suc j]) (cmem s)"
    unfolding t(3) l by (simp add: gemm_ref_def comp_def)
  moreover have "streaming a b (8 * (unat K * (Suc j + N8 * m))) ?u" using B(1) by (simp add: algebra_simps)
  moreover have "?F [0..<Suc j] (0, s) = (of_nat (8 * Suc j), ?u)" using t(1) by (simp add: algebra_simps)
  ultimately show ?case by blast
qed

lemma streaming_toggle [simp]:
  "ssr_on s \<Longrightarrow> snrt_ssr_enable (snrt_ssr_disable s) = s"
  by (simp add: snrt_ssr_enable_def snrt_ssr_disable_def)

lemma row_spec:
  assumes s: "streaming a b (8 * (unat K * (N8 * m))) s" and K: "0 < unat K" "unat K \<le> 2 ^ 16"
    and st: "delivers a (gemm_a A ldA) M N8 (unat K)" "delivers b (gemm_b B ldB tb) M N8 (unat K)" "m < M"
    and d: "disjoint_ops ALPHA (gemm_c C ldC) (gemm_a A ldA) (gemm_b B ldB tb) (unat K) es" "Pair m ` {0..<unat N} \<subseteq> set es"
    and N8: "N8 = unat N div 8" and lay: "tb \<noteq> 0 \<or> 8 dvd unat N"
    and t_def: "t = gemm_fp64_row fpu (fma fpu) N K A ldA B ldB C ldC ALPHA (of_nat m) s"
  shows "streaming a b (8 * (unat K * (N8 * Suc m))) t \<and>
    cmem t = gemm_ref (fma fpu) (start_value (load32 (cmem s) ALPHA)) K A ldA B ldB tb C ldC (map (Pair m) [0..<unat N]) (cmem s)"
proof -
  let ?g = "start_value (load32 (cmem s) ALPHA)" and ?R = "gemm_ref (fma fpu) (start_value (load32 (cmem s) ALPHA)) K A ldA B ldB tb C ldC"
  have le: "8 * N8 \<le> unat N" unfolding N8 by simp
  have sub: "Pair m ` {0..<8 * N8} \<subseteq> set es" using d(2) le by auto
  obtain u where u: "fold (\<lambda>_ (n, s). (n + 8, gemm_fp64_block fpu K C ldC ALPHA (of_nat m) n s)) [0..<N8] (0, s) = (of_nat (8 * N8), u)"
    "streaming a b (8 * (unat K * (N8 + N8 * m))) u" "cmem u = ?R (map (Pair m) [0..<8 * N8]) (cmem s)"
    using row_blocks [OF s K st d(1) sub order_refl] by blast
  have al: "load32 (cmem u) ALPHA = load32 (cmem s) ALPHA"
    unfolding u(3) using sub by (intro gemm_ref_alpha [OF d(1)]) auto
  have n8: "unat (N div 8) = N8" by (simp add: N8 unat_div)
  have n: "unat (of_nat (8 * N8) :: u32) = 8 * N8" using le unat_lt_2p [of N] by (intro unat_of_nat_small) linarith
  let ?cols = "fold (\<lambda>n. gemm_fp64_column (fma fpu) K A ldA B ldB C ldC ALPHA (of_nat m) (of_nat n)) [8 * N8..<unat N]"
  have row: "t = snrt_ssr_enable (?cols (snrt_ssr_disable u))"
    unfolding t_def gemm_fp64_row_def Let_def for_u32_def n8 u(1) for_from_u32_def case_prod_conv n ..
  have "?cols (snrt_ssr_disable u) = (snrt_ssr_disable u)\<lparr> cmem := ?R (map (Pair m) [8 * N8..<unat N]) (cmem u) \<rparr>"
  proof (cases "tb = 0")
    case True
    then have "8 * N8 = unat N" using lay by (simp add: N8)
    then show ?thesis by (simp add: gemm_ref_def snrt_ssr_disable_def)
  next
    case False
    have "Pair m ` set [8 * N8..<unat N] \<subseteq> set es" using d(2) by auto
    from columns_spec [OF False d(1) this] show ?thesis using al by (simp add: snrt_ssr_disable_def)
  qed
  then have t: "t = u\<lparr> cmem := ?R (map (Pair m) [8 * N8..<unat N]) (cmem u) \<rparr>"
    using u(2) unfolding row by (simp add: snrt_ssr_enable_def snrt_ssr_disable_def streaming_def)
  have "[0..<unat N] = [0..<8 * N8] @ [8 * N8..<unat N]" using upt_add_eq_append [of 0 "8 * N8" "unat N - 8 * N8"] le by simp
  then have "cmem t = ?R (map (Pair m) [0..<unat N]) (cmem s)"
    unfolding t by (simp add: u(3) gemm_ref_def)
  moreover have "streaming a b (8 * (unat K * (N8 * Suc m))) t" using u(2) unfolding t by (simp add: streaming_def)
  ultimately show ?thesis by blast
qed

lemma rows_spec:
  assumes s: "streaming a b 0 s" and K: "0 < unat K" "unat K \<le> 2 ^ 16"
    and st: "delivers a (gemm_a A ldA) M N8 (unat K)" "delivers b (gemm_b B ldB tb) M N8 (unat K)"
    and d: "disjoint_ops ALPHA (gemm_c C ldC) (gemm_a A ldA) (gemm_b B ldB tb) (unat K) (grid M (unat N))"
    and N8: "N8 = unat N div 8" and lay: "tb \<noteq> 0 \<or> 8 dvd unat N"
  shows "j \<le> M \<Longrightarrow> t = fold (\<lambda>m. gemm_fp64_row fpu (fma fpu) N K A ldA B ldB C ldC ALPHA (of_nat m)) [0..<j] s \<Longrightarrow>
    streaming a b (8 * (unat K * (N8 * j))) t \<and>
    cmem t = gemm_ref (fma fpu) (start_value (load32 (cmem s) ALPHA)) K A ldA B ldB tb C ldC (grid j (unat N)) (cmem s)"
proof (induction j arbitrary: t)
  case 0
  then show ?case using s by (simp add: grid_def gemm_ref_def)
next
  case (Suc j)
  let ?R = "gemm_ref (fma fpu) (start_value (load32 (cmem s) ALPHA)) K A ldA B ldB tb C ldC"
  define u where "u = fold (\<lambda>m. gemm_fp64_row fpu (fma fpu) N K A ldA B ldB C ldC ALPHA (of_nat m)) [0..<j] s"
  have IH: "streaming a b (8 * (unat K * (N8 * j))) u" "cmem u = ?R (grid j (unat N)) (cmem s)"
    using Suc.IH [OF _ u_def] Suc.prems(1) by simp_all
  have al: "load32 (cmem u) ALPHA = load32 (cmem s) ALPHA"
    unfolding IH(2) using Suc.prems(1) by (intro gemm_ref_alpha [OF d]) auto
  have "Pair j ` {0..<unat N} \<subseteq> set (grid M (unat N))" using Suc.prems(1) by auto
  note r = row_spec [OF IH(1) K st _ d this N8 lay, of t fpu]
  have "t = gemm_fp64_row fpu (fma fpu) N K A ldA B ldB C ldC ALPHA (of_nat j) u" using Suc.prems(2) by (simp add: u_def)
  then have "streaming a b (8 * (unat K * (N8 * Suc j))) t" "cmem t = ?R (map (Pair j) [0..<unat N]) (cmem u)"
    using r Suc.prems(1) al by simp_all
  then show ?case by (simp add: IH(2) grid_Suc gemm_ref_def)
qed

section \<open>Configuration of the streams\<close>

definition gemm_cfg :: "nat \<Rightarrow> nat \<Rightarrow> nat \<Rightarrow> u32 \<Rightarrow> u32 \<Rightarrow> u32 \<Rightarrow> ssrs \<Rightarrow> bool" where
  "gemm_cfg M N8 K ldA ldB tb l \<longleftrightarrow> ssr_ready (l 0) \<and> ssr_ready (l 1)
     \<and> (\<exists>s3. ssr_cfg (l 0) 3 8 [K, N8, M, 1] [8, 0, 8 * ldA, s3])
     \<and> ssr_cfg (l 1) 3 1 [8, K, N8, M] (if tb \<noteq> 0 then [8 * ldB, 8, 8 * ldB * 8, 0] else [8, 8 * ldB, 64, 0])"

lemma cfg_delivers:
  assumes c: "gemm_cfg M N8 K ldA ldB tb l"
  shows "delivers (ssr_job (l 0) 3 A) (gemm_a A ldA) M N8 K" "delivers (ssr_job (l 1) 3 B) (gemm_b B ldB tb) M N8 K"
proof -
  obtain s3 where a: "ssr_ready (l 0)" "ssr_cfg (l 0) 3 8 [K, N8, M, 1] [8, 0, 8 * ldA, s3]" and b: "ssr_ready (l 1)"
    using c by (auto simp: gemm_cfg_def)
  show "delivers (ssr_job (l 0) 3 A) (gemm_a A ldA) M N8 K"
    unfolding delivers_def
  proof (intro allI impI)
    fix m n k i
    assume "m < M" "n < N8" "k < K" "i < (8 :: nat)"
    then have "lane_addr (ssr_job (l 0) 3 A) (i + 8 * (k + K * (n + N8 * (m + M * 0))))
        = A + of_nat k * 8 + of_nat n * 0 + of_nat m * (8 * ldA) + of_nat 0 * s3"
      by (intro ssr_job_addr [OF a]) simp_all
    moreover have "i + 8 * (k + K * (n + N8 * (m + M * 0))) = 8 * (K * (n + N8 * m)) + 8 * k + i" by simp
    ultimately show "lane_addr (ssr_job (l 0) 3 A) (8 * (K * (n + N8 * m)) + 8 * k + i) = gemm_a A ldA (m, 8 * n + i) k"
      by (simp add: gemm_a_def at8_def algebra_simps)
  qed
  show "delivers (ssr_job (l 1) 3 B) (gemm_b B ldB tb) M N8 K"
    unfolding delivers_def
  proof (intro allI impI)
    fix m n k i
    assume i: "m < M" "n < N8" "k < K" "i < (8 :: nat)"
    have e: "0 + 1 * (i + 8 * (k + K * (n + N8 * m))) = 8 * (K * (n + N8 * m)) + 8 * k + i" by simp
    show "lane_addr (ssr_job (l 1) 3 B) (8 * (K * (n + N8 * m)) + 8 * k + i) = gemm_b B ldB tb (m, 8 * n + i) k"
    proof (cases "tb = 0")
      case True
      then have "ssr_cfg (l 1) 3 1 [8, K, N8, M] [8, 8 * ldB, 64, 0]" using c by (simp add: gemm_cfg_def)
      from ssr_job_addr [OF b this _ i(4,3,2,1), of 0 B] show ?thesis
        unfolding e by (simp add: True gemm_b_def at8_def algebra_simps)
    next
      case False
      then have "ssr_cfg (l 1) 3 1 [8, K, N8, M] [8 * ldB, 8, 8 * ldB * 8, 0]" using c by (simp add: gemm_cfg_def)
      from ssr_job_addr [OF b this _ i(4,3,2,1), of 0 B] show ?thesis
        unfolding e by (simp add: False gemm_b_def at8_def algebra_simps)
    qed
  qed
qed

lemma cfg_after:
  assumes c: "gemm_cfg M N8 K ldA ldB tb l"
    and l': "l' 0 = lane_after (8 * (K * (N8 * M))) (ssr_job (l 0) 3 A)" "l' 1 = lane_after (8 * (K * (N8 * M))) (ssr_job (l 1) 3 B)"
  shows "gemm_cfg M N8 K ldA ldB tb l'"
proof -
  obtain s3 where a: "ssr_ready (l 0)" "ssr_cfg (l 0) 3 8 [K, N8, M, 1] [8, 0, 8 * ldA, s3]"
    using c by (auto simp: gemm_cfg_def)
  have "ssr_ready (l' 0) \<and> ssr_cfg (l' 0) 3 8 [K, N8, M, 1] [8, 0, 8 * ldA, s3]"
    using ssr_job_end [OF a, of A] unfolding l'(1) by (simp only: mult_1_right)
  moreover have "ssr_ready (l' 1) \<and> ssr_cfg (l' 1) 3 1 [8, K, N8, M] S" if "ssr_cfg (l 1) 3 1 [8, K, N8, M] S" for S
    using c ssr_job_end [OF _ that, of B] unfolding l'(2) gemm_cfg_def by (simp only: mult_1_left)
  ultimately show ?thesis using c unfolding gemm_cfg_def by blast
qed

text \<open>What a fresh configuration needs: bounds that fit and no remains in registers the kernel does not write.\<close>

definition gemm_setup_ok :: "ssr_hw \<Rightarrow> u32 \<Rightarrow> u32 \<Rightarrow> u32 \<Rightarrow> ssrs \<Rightarrow> bool" where
  "gemm_setup_ok hw M N K l \<longleftrightarrow> ssr_ready (l 0) \<and> ssr_ready (l 1) \<and> sh_bound (l 0) 3 = 0 \<and> sh_rep (l 1) = 0
     \<and> fits (IndexWidth hw) M \<and> fits (IndexWidth hw) (N div 8) \<and> fits (IndexWidth hw) K \<and> fits (IndexWidth hw) 8 \<and> fits (RptWidth hw) 8"

lemma setup_cfg:
  assumes "gemm_setup_ok hw M N K l"
  shows "gemm_cfg (unat M) (unat N div 8) (unat K) ldA ldB tb (gemm_fp64_setup hw M N K ldA 0 ldB tb l)"
proof -
  let ?dm0 = "snrt_ssr_repeat hw 0 8 (snrt_ssr_loop_3d hw 0 K (N div 8) M 8 0 (8 * ldA) l)"
  let ?l = "gemm_fp64_setup hw M N K ldA 0 ldB tb l"
  have z0: "?l 0 = ?dm0 0" and z1: "?dm0 1 = l 1"
    by (simp_all add: gemm_fp64_setup_def ssr_frame Let_def)
  have h: "sh_bound (l 0) 3 = 0" "sh_rep (?dm0 1) = 0" "fits (IndexWidth hw) K" "fits (IndexWidth hw) (N div 8)" "fits (IndexWidth hw) M"
    "fits (IndexWidth hw) 8" "fits (RptWidth hw) 8"
    using assms unfolding z1 by (simp_all add: gemm_setup_ok_def)
  have u: "unat (N div 8) = unat N div 8" "unat (8 :: u32) = 8" by (simp_all add: unat_div)
  have "\<exists>s3. ssr_cfg (?l 0) 3 (unat (8 :: u32)) [unat K, unat (N div 8), unat M, 1] [8, 0, 8 * ldA, s3]"
    by (rule cfg_3d [where l = l and dm = 0, OF z0 h(1) refl h(3-5,7), where ?k0.0 = 1 and ?k1.0 = 0 and ?k2.0 = ldA]) simp_all
  moreover have "ssr_cfg (?l 1) 3 1 [unat (8 :: u32), unat K, unat (N div 8), unat M] (if tb \<noteq> 0 then [8 * ldB, 8, 8 * ldB * 8, 0] else [8, 8 * ldB, 64, 0])"
  proof (cases "tb = 0")
    case True
    have "ssr_cfg (?l 1) 3 1 [unat (8 :: u32), unat K, unat (N div 8), unat M] [8, 8 * ldB, 64, 0]"
      by (rule cfg_4d [where l = ?dm0 and dm = 1, OF _ h(2,6,3,4,5), where ?k0.0 = 1 and ?k1.0 = ldB and ?k2.0 = 8 and ?k3.0 = 0]) (simp_all add: gemm_fp64_setup_def Let_def True)
    then show ?thesis using True by simp
  next
    case False
    have "ssr_cfg (?l 1) 3 1 [unat (8 :: u32), unat K, unat (N div 8), unat M] [8 * ldB, 8, 8 * ldB * 8, 0]"
      by (rule cfg_4d [where l = ?dm0 and dm = 1, OF _ h(2,6,3,4,5), where ?k0.0 = ldB and ?k1.0 = 1 and ?k2.0 = "8 * ldB" and ?k3.0 = 0]) (simp_all add: gemm_fp64_setup_def Let_def False)
    then show ?thesis using False by simp
  qed
  moreover have "ssr_ready (?l 0) \<and> ssr_ready (?l 1)"
    using assms by (simp add: gemm_setup_ok_def gemm_fp64_setup_def ssr_ready_cfg Let_def)
  ultimately show ?thesis unfolding gemm_cfg_def u by blast
qed

section \<open>The kernel as a whole\<close>

lemma gemm_fp64_opt_ref:
  assumes K: "0 < unat K" "unat K \<le> 2 ^ 16"
    and c: "if setup_SSR \<noteq> 0 then gemm_setup_ok hw M N K (lanes s)
      else gemm_cfg (unat M) (unat N div 8) (unat K) ldA ldB tb (lanes s)"
    and d: "disjoint_ops ALPHA (gemm_c C ldC) (gemm_a A ldA) (gemm_b B ldB tb) (unat K) (grid (unat M) (unat N))"
    and lay: "tb \<noteq> 0 \<or> 8 dvd unat N"
    and t: "t = gemm_fp64_opt hw fpu (fma fpu) M N K A ldA 0 B ldB tb C ldC ALPHA setup_SSR s"
  shows "cmem t = gemm_ref (fma fpu) (start_value (load32 (cmem s) ALPHA)) K A ldA B ldB tb C ldC (grid (unat M) (unat N)) (cmem s)
    \<and> gemm_cfg (unat M) (unat N div 8) (unat K) ldA ldB tb (lanes t)"
proof -
  define l where "l = (if setup_SSR \<noteq> 0 then gemm_fp64_setup hw M N K ldA 0 ldB tb (lanes s) else lanes s)"
  have cfg: "gemm_cfg (unat M) (unat N div 8) (unat K) ldA ldB tb l"
    using c setup_cfg unfolding l_def by (auto split: if_splits)
  have i: "idle (l 0)" "idle (l 1)" using cfg by (simp_all add: gemm_cfg_def ssr_ready_def)
  let ?a = "ssr_job (l 0) 3 A" and ?b = "ssr_job (l 1) 3 B"
  let ?s = "s\<lparr> lanes := l(0 := ?a, 1 := ?b), ssr_on := True \<rparr>"
  have r: "snrt_ssr_read hw 1 3 B (snrt_ssr_read hw 0 3 A l) = l(0 := ?a, 1 := ?b)"
    using i by (simp add: snrt_ssr_read_job)
  have "t = snrt_ssr_disable (fold (\<lambda>m. gemm_fp64_row fpu (fma fpu) N K A ldA B ldB C ldC ALPHA (of_nat m)) [0..<unat M] ?s)"
    using r unfolding t gemm_fp64_opt_def Let_def for_u32_def
    by (simp add: on_ssrs_def snrt_ssr_enable_def l_def split: if_splits)
  moreover have "streaming ?a ?b 0 ?s" by (simp add: streaming_def)
  note R = rows_spec [OF this K cfg_delivers(1) [OF cfg, of A] cfg_delivers(2) [OF cfg, of B] d refl lay order_refl refl, of fpu]
  ultimately have m: "cmem t = gemm_ref (fma fpu) (start_value (load32 (cmem s) ALPHA)) K A ldA B ldB tb C ldC (grid (unat M) (unat N)) (cmem s)"
    and e: "lanes t 0 = lane_after (8 * (unat K * (unat N div 8 * unat M))) ?a" "lanes t 1 = lane_after (8 * (unat K * (unat N div 8 * unat M))) ?b"
    by (simp_all add: snrt_ssr_disable_def streaming_def)
  show ?thesis using m cfg_after [OF cfg e] by blast
qed

lemma distinct_grid: "distinct (grid M N)"
  by (induction M) (auto simp: grid_def distinct_map inj_on_def)

text \<open>
  C3: the streaming kernel is equivalent to the plain loops. For an untransposed first matrix,
  bounds that fit the hardware, operands that do not overlap the result and idle
  data movers without remains of an earlier configuration, \<open>gemm_fp64_opt\<close> leaves
  in memory exactly what \<open>gemm_fp64_baseline\<close> does. The compiler has to fuse the product of the
  plain loop like the instruction \<open>fmadd.d\<close>, and scaling by the factor must agree with loading
  or clearing the accumulators. Leftover columns are only right for a transposed second matrix.
\<close>

theorem gemm_fp64_opt_correct:
  assumes "0 < unat K" "unat K \<le> 2 ^ 16" "setup_SSR \<noteq> 0" "gemm_setup_ok hw M N K (lanes s)"
    and d: "disjoint_ops ALPHA (gemm_c C ldC) (gemm_a A ldA) (gemm_b B ldB tb) (unat K) (grid (unat M) (unat N))"
    and "tb \<noteq> 0 \<or> unat N mod 8 = 0"
    and mac: "\<And>x y c. mac_d x y c = fpu fmadd_d [x, y, c]"
    and scale: "\<And>e. e \<in> set (grid (unat M) (unat N)) \<Longrightarrow> mul_d factor (load64 (cmem s) (gemm_c C ldC e))
      = (if load32 (cmem s) ALPHA \<noteq> 0 then load64 (cmem s) (gemm_c C ldC e) else 0)"
  shows "cmem (gemm_fp64_opt hw fpu mac_d M N K A ldA 0 B ldB tb C ldC ALPHA setup_SSR s)
    = gemm_fp64_baseline mul_d mac_d M N K A ldA 0 B ldB tb C ldC factor (cmem s)"
proof -
  have m: "mac_d = fma fpu" using mac by (simp add: fun_eq_iff fma_def)
  have c: "if setup_SSR \<noteq> 0 then gemm_setup_ok hw M N K (lanes s)
      else gemm_cfg (unat M) (unat N div 8) (unat K) ldA ldB tb (lanes s)" using assms by simp
  have lay: "tb \<noteq> 0 \<or> 8 dvd unat N" using assms by auto
  have "gemm_ref (fma fpu) (start_value (load32 (cmem s) ALPHA)) K A ldA B ldB tb C ldC (grid (unat M) (unat N)) (cmem s)
      = gemm_ref (fma fpu) (mul_d factor) K A ldA B ldB tb C ldC (grid (unat M) (unat N)) (cmem s)"
    unfolding gemm_ref_def by (rule cells_cong_init [OF d distinct_grid order_refl]) (simp only: scale start_value_def)
  then show ?thesis
    using gemm_fp64_opt_ref [OF assms(1,2) c d lay refl, of fpu] unfolding m baseline_ref by simp
qed

text \<open>A small instance: one row of nine columns, with an integer multiplier in place of the arithmetic unit.\<close>

definition demo_fpu :: fpu where
  "demo_fpu op vs = (case vs of [x, y, c] \<Rightarrow> x * y + c | _ \<Rightarrow> 0)"

definition demo_core :: fp_core where
  "demo_core = \<lparr> fregs = (\<lambda>_. 0), lanes = demo_ssr, ssr_on = False, cmem = (\<lambda>a. if a = 0x4000 then 1 else ucast a) \<rparr>"

lemma unat_at8: "unat p + 8 * i < 2 ^ 32 \<Longrightarrow> unat (at8 p (of_nat i)) = unat p + 8 * i"
proof -
  assume a: "unat p + 8 * i < 2 ^ 32"
  then have "unat (of_nat (8 * i) :: u32) = 8 * i" by (intro unat_of_nat_small) simp
  then show "unat (at8 p (of_nat i)) = unat p + 8 * i"
    using a unat_plus_no_overflow [of p "of_nat (8 * i)"] by (simp add: at8_def)
qed

lemma at8_of_nat:
  "unat p + 8 * (k + 2 * n) < 2 ^ 32 \<Longrightarrow> unat (at8 p (of_nat k + of_nat n * 2)) = unat p + 8 * (k + 2 * n)"
  using unat_at8 [of p "k + 2 * n"] by (simp add: mult.commute)

lemma demo_setup_ok: "gemm_setup_ok demo_hw 1 9 2 (lanes demo_core)"
  by (simp add: gemm_setup_ok_def demo_core_def demo_ready demo_hw_def fits_def) (simp add: demo_ssr_def)

lemma demo_disjoint:
  "disjoint_ops 0x4000 (gemm_c 0x3000 9) (gemm_a 0x1000 2) (gemm_b 0x2000 2 1) (unat (2 :: u32)) (grid (unat (1 :: u32)) (unat (9 :: u32)))"
  by (rule disjoint_region [where lo = "0x3000" and hi = "0x3048" and w = snd])
    (auto simp: gemm_c_def gemm_a_def gemm_b_def at8_of_nat inj_on_def unat_at8)

theorem gemm_fp64_opt_correct_witness:
  "cmem (gemm_fp64_opt demo_hw demo_fpu (\<lambda>x y c. x * y + c) 1 9 2 0x1000 2 0 0x2000 2 1 0x3000 9 0x4000 1 demo_core)
    = gemm_fp64_baseline (\<lambda>a c. a * c) (\<lambda>x y c. x * y + c) 1 9 2 0x1000 2 0 0x2000 2 1 0x3000 9 1 (cmem demo_core)"
proof -
  have "load32 (cmem demo_core) 0x4000 \<noteq> 0" by (simp add: demo_core_def load32_def)
  then show ?thesis
    by (intro gemm_fp64_opt_correct demo_setup_ok demo_disjoint) (simp_all add: demo_fpu_def)
qed

text \<open>
  One configuration serves several tiles. After a call that configures the streams, the data
  movers are idle again and keep the configuration, so a call without \<open>setup_SSR\<close>
  on other matrices of the same shape computes the plain product as well.
\<close>

theorem gemm_fp64_opt_reuse:
  assumes K: "0 < unat K" "unat K \<le> 2 ^ 16" and c: "gemm_setup_ok hw M N K (lanes s)"
    and d: "disjoint_ops ALPHA (gemm_c C ldC) (gemm_a A ldA) (gemm_b B ldB tb) (unat K) (grid (unat M) (unat N))"
    and d': "disjoint_ops ALPHA' (gemm_c C' ldC') (gemm_a A' ldA) (gemm_b B' ldB tb) (unat K) (grid (unat M) (unat N))"
    and lay: "tb \<noteq> 0 \<or> unat N mod 8 = 0"
    and t: "t = gemm_fp64_opt hw fpu (fma fpu) M N K A ldA 0 B ldB tb C ldC ALPHA 1 s"
    and scale: "\<And>e. e \<in> set (grid (unat M) (unat N)) \<Longrightarrow> mul_d factor (load64 (cmem t) (gemm_c C' ldC' e))
      = (if load32 (cmem t) ALPHA' \<noteq> 0 then load64 (cmem t) (gemm_c C' ldC' e) else 0)"
  shows "cmem (gemm_fp64_opt hw fpu (fma fpu) M N K A' ldA 0 B' ldB tb C' ldC' ALPHA' 0 t)
    = gemm_fp64_baseline mul_d (fma fpu) M N K A' ldA 0 B' ldB tb C' ldC' factor (cmem t)"
proof -
  have lay': "tb \<noteq> 0 \<or> 8 dvd unat N" using lay by auto
  have "gemm_cfg (unat M) (unat N div 8) (unat K) ldA ldB tb (lanes t)"
    using gemm_fp64_opt_ref [OF K _ d lay' t] c by simp
  then have c': "if (0 :: u32) \<noteq> 0 then gemm_setup_ok hw M N K (lanes t)
      else gemm_cfg (unat M) (unat N div 8) (unat K) ldA ldB tb (lanes t)" by simp
  have "gemm_ref (fma fpu) (start_value (load32 (cmem t) ALPHA')) K A' ldA B' ldB tb C' ldC' (grid (unat M) (unat N)) (cmem t)
      = gemm_ref (fma fpu) (mul_d factor) K A' ldA B' ldB tb C' ldC' (grid (unat M) (unat N)) (cmem t)"
    unfolding gemm_ref_def by (rule cells_cong_init [OF d' distinct_grid order_refl]) (simp only: scale start_value_def)
  then show ?thesis
    using gemm_fp64_opt_ref [OF K c' d' lay' refl, of fpu] unfolding baseline_ref by simp
qed

lemma demo_disjoint2:
  "disjoint_ops 0x8000 (gemm_c 0x7000 9) (gemm_a 0x5000 2) (gemm_b 0x6000 2 1) (unat (2 :: u32)) (grid (unat (1 :: u32)) (unat (9 :: u32)))"
  by (rule disjoint_region [where lo = "0x7000" and hi = "0x7048" and w = snd])
    (auto simp: gemm_c_def gemm_a_def gemm_b_def at8_of_nat inj_on_def unat_at8)

theorem gemm_fp64_opt_reuse_witness:
  "cmem (gemm_fp64_opt demo_hw demo_fpu (fma demo_fpu) 1 9 2 0x5000 2 0 0x6000 2 1 0x7000 9 0x8000 0
      (gemm_fp64_opt demo_hw demo_fpu (fma demo_fpu) 1 9 2 0x1000 2 0 0x2000 2 1 0x3000 9 0x4000 1 demo_core))
    = gemm_fp64_baseline (\<lambda>a c. if load32 (cmem (gemm_fp64_opt demo_hw demo_fpu (fma demo_fpu) 1 9 2 0x1000 2 0 0x2000 2 1 0x3000 9 0x4000 1 demo_core)) 0x8000 \<noteq> 0 then c else a)
      (fma demo_fpu) 1 9 2 0x5000 2 0 0x6000 2 1 0x7000 9 0
      (cmem (gemm_fp64_opt demo_hw demo_fpu (fma demo_fpu) 1 9 2 0x1000 2 0 0x2000 2 1 0x3000 9 0x4000 1 demo_core))"
  by (rule gemm_fp64_opt_reuse [OF _ _ demo_setup_ok demo_disjoint demo_disjoint2 _ refl]) simp_all

end
