(* ===== verification/Axpy.thy ===== *)
theory Axpy
  imports Gemm Team
begin

text \<open>
  The vector addition \<open>z = a x + y\<close> of \<open>sw/blas/axpy/src/axpy.h\<close>: every compute core of a cluster takes
  one slice of the vectors. The plain loop and the version with three streams under a
  hardware loop; the main result is what the cluster computes when the cores run one after the other in any order.
\<close>

section \<open>The kernel\<close>

text \<open>
  \<open>core_idx\<close>, \<open>frac\<close> and \<open>offset\<close> are of type \<open>int\<close>; the division is unsigned. How the compiler evaluates
  \<open>a * x + y\<close> is the parameter \<open>madd\<close>. The operand \<open>a\<close> of the assembly is a register of the model.
\<close>

definition axpy_frac :: "snrt_cfg \<Rightarrow> u32 \<Rightarrow> u32" where
  "axpy_frac c l = l div snrt_cluster_compute_core_num c"

definition axpy_offset :: "snrt_cfg \<Rightarrow> u32 \<Rightarrow> u32 \<Rightarrow> u32" where
  "axpy_offset c hartid l = snrt_cluster_core_idx c hartid * axpy_frac c l"

definition axpy_baseline :: "(u64 \<Rightarrow> u64 \<Rightarrow> u64 \<Rightarrow> u64) \<Rightarrow> snrt_cfg \<Rightarrow> u32 \<Rightarrow> u32 \<Rightarrow> u64 \<Rightarrow> u32 \<Rightarrow> u32 \<Rightarrow> u32 \<Rightarrow> mem \<Rightarrow> mem" where
  "axpy_baseline madd c hartid l a x y z m = snd (fold (\<lambda>i (offset, m).
     (offset + 1, store64 m (at8 z offset) (madd a (load64 m (at8 x offset)) (load64 m (at8 y offset)))))
     [0..<nat (sint (axpy_frac c l))] (axpy_offset c hartid l, m))"

definition a_reg :: nat where "a_reg = 28"

definition axpy :: "ssr_hw \<Rightarrow> fpu \<Rightarrow> snrt_cfg \<Rightarrow> u32 \<Rightarrow> u32 \<Rightarrow> u64 \<Rightarrow> u32 \<Rightarrow> u32 \<Rightarrow> u32 \<Rightarrow> fp_core \<Rightarrow> fp_core" where
  "axpy hw fpu c hartid l a x y z s = (
    let frac = axpy_frac c l;
        offset = axpy_offset c hartid l;
        s = on_ssrs (snrt_ssr_loop_1d hw SNRT_SSR_DM_ALL frac 8) s;
        s = on_ssrs (snrt_ssr_read hw 0 0 (at8 x offset)) s;
        s = on_ssrs (snrt_ssr_read hw 1 0 (at8 y offset)) s;
        s = on_ssrs (snrt_ssr_write hw 2 0 (at8 z offset)) s;
        s = snrt_ssr_enable s;
        s = set_fr a_reg a s;
        s = run_asm fpu [Frep (frac - 1) 1, I (FOp fmadd_d 2 [a_reg, 0, 1])] s
    in snrt_ssr_disable s)"

section \<open>Three streams\<close>

definition streaming3 :: "agen \<Rightarrow> agen \<Rightarrow> agen \<Rightarrow> nat \<Rightarrow> fp_core \<Rightarrow> bool" where
  "streaming3 A B C p s \<longleftrightarrow> ssr_on s \<and> lanes s 0 = lane_after p A \<and> lanes s 1 = lane_after p B \<and> lanes s 2 = lane_after p C"

definition axpy_elem :: "fpu \<Rightarrow> u64 \<Rightarrow> u32 \<Rightarrow> u32 \<Rightarrow> u32 \<Rightarrow> mem \<Rightarrow> mem" where
  "axpy_elem fpu a x y z m = store64 m z (fpu fmadd_d [a, load64 m x, load64 m y])"

lemma axpy_instr:
  assumes "streaming3 A B C p s" "t = exec_fi fpu (FOp fmadd_d 2 [a_reg, 0, 1]) s"
  shows "streaming3 A B C (Suc p) t" "fregs t = fregs s"
    "cmem t = axpy_elem fpu (fregs s a_reg) (lane_addr A p) (lane_addr B p) (lane_addr C p) (cmem s)"
  using assms
  by (simp_all add: streaming3_def a_reg_def axpy_elem_def read_fr_def write_fr_def is_stream_def lane_pop_after Let_def)

lemma axpy_rounds:
  assumes "streaming3 A B C 0 s" "t = (run_fis fpu [FOp fmadd_d 2 [a_reg, 0, 1]] ^^ n) s"
  shows "streaming3 A B C n t \<and> fregs t = fregs s
    \<and> cmem t = fold (\<lambda>i. axpy_elem fpu (fregs s a_reg) (lane_addr A i) (lane_addr B i) (lane_addr C i)) [0..<n] (cmem s)"
  using assms(2)
proof (induction n arbitrary: t)
  case 0
  then show ?case using assms(1) by simp
next
  case (Suc n)
  let ?u = "(run_fis fpu [FOp fmadd_d 2 [a_reg, 0, 1]] ^^ n) s"
  have one: "run_fis fpu [i] u = exec_fi fpu i u" for i u by (simp add: run_fis_def)
  have t: "t = exec_fi fpu (FOp fmadd_d 2 [a_reg, 0, 1]) ?u" unfolding Suc.prems by (simp only: funpow.simps comp_apply one)
  note u = Suc.IH [OF refl]
  show ?case using u axpy_instr [OF conjunct1 [OF u] t] by simp
qed

text \<open>
  All data movers are configured at once. The function does not set the repetition count, which has to be
  left at one element per access.
\<close>

lemma cfg_1d_all:
  assumes "fits (IndexWidth hw) b0" "s0 = 8 * k0" "sh_rep (l d) = 0"
  shows "\<exists>s1 s2 s3. ssr_cfg (snrt_ssr_loop_1d hw SNRT_SSR_DM_ALL b0 s0 l d) 0 1 [unat b0, 1, 1, 1] [s0, s1, s2, s3]"
proof -
  have "s0 AND NOT (mask 3) = s0" unfolding assms(2) by (rule word_stride)
  moreover have "unat (b0 - 1) = unat b0 - 1" using fits_reg [OF assms(1)] by simp
  ultimately show ?thesis
    using assms fits_reg(2) [OF assms(1)] fits_pos [OF assms(1)]
    by (simp add: ssr_cfg_def ssr_defs start_job_def last_index_def span_def)
qed

lemma stream_1d:
  assumes "ssr_ready a" "ssr_cfg a 0 1 [n, 1, 1, 1] (8 # ss)" "length ss = 3"
  shows "i < n \<Longrightarrow> lane_addr (ssr_job a 0 (at8 p o')) i = at8 p (o' + of_nat i)" "ssr_ready (lane_after n (ssr_job a 0 q))"
proof -
  obtain s1 s2 s3 where ss: "ss = [s1, s2, s3]" using assms(3) by (auto simp: numeral_eq_Suc length_Suc_conv)
  show "lane_addr (ssr_job a 0 (at8 p o')) i = at8 p (o' + of_nat i)" if "i < n"
    using ssr_job_addr [OF assms(1) assms(2) [unfolded ss], of 0 i 0 0 0 "at8 p o'"] that
    by (simp add: at8_def algebra_simps)
  show "ssr_ready (lane_after n (ssr_job a 0 q))"
    using ssr_job_end [OF assms(1) assms(2), of q] by simp
qed

section \<open>One core\<close>

text \<open>The slice of a core, element by element.\<close>

definition axpy_slice :: "fpu \<Rightarrow> u64 \<Rightarrow> u32 \<Rightarrow> u32 \<Rightarrow> u32 \<Rightarrow> u32 \<Rightarrow> nat \<Rightarrow> mem \<Rightarrow> mem" where
  "axpy_slice fpu a x y z o' n m =
     fold (\<lambda>i. axpy_elem fpu a (at8 x (o' + of_nat i)) (at8 y (o' + of_nat i)) (at8 z (o' + of_nat i))) [0..<n] m"

lemma axpy_baseline_slice:
  assumes "unat (axpy_frac c l) < 2 ^ 31"
  shows "axpy_baseline (\<lambda>a x y. fpu fmadd_d [a, x, y]) c hartid l a x y z m
    = axpy_slice fpu a x y z (axpy_offset c hartid l) (unat (axpy_frac c l)) m"
proof -
  have n: "nat (sint (axpy_frac c l)) = unat (axpy_frac c l)"
    using sint_of_nat_small [OF assms] by simp
  have "fold (\<lambda>i (offset, m). (offset + 1, store64 m (at8 z offset) (fpu fmadd_d [a, load64 m (at8 x offset), load64 m (at8 y offset)])))
      [0..<n] (o', m) = (o' + of_nat n, axpy_slice fpu a x y z o' n m)" for n o'
    by (induction n) (simp_all add: axpy_slice_def axpy_elem_def algebra_simps)
  then show ?thesis by (simp add: axpy_baseline_def n)
qed

definition axpy_ready :: "ssrs \<Rightarrow> bool" where
  "axpy_ready l \<longleftrightarrow> (\<forall>d<3. ssr_ready (l d) \<and> sh_rep (l d) = 0)"

lemma axpy_core:
  assumes "fits (IndexWidth hw) (axpy_frac c l)" "unat (axpy_frac c l) \<le> 2 ^ 16" "axpy_ready (lanes s)"
    and t: "t = axpy hw fpu c hartid l a x y z s"
  shows "cmem t = axpy_slice fpu a x y z (axpy_offset c hartid l) (unat (axpy_frac c l)) (cmem s)"
    and "\<forall>d<3. ssr_ready (lanes t d)"
proof -
  let ?F = "axpy_frac c l" and ?o = "axpy_offset c hartid l"
  define L where "L = snrt_ssr_loop_1d hw SNRT_SSR_DM_ALL ?F 8 (lanes s)"
  have rd: "ssr_ready (L d)" "idle (L d)" "\<exists>ss. length ss = 3 \<and> ssr_cfg (L d) 0 1 [unat ?F, 1, 1, 1] (8 # ss)" if "d < 3" for d
  proof -
    have s: "ssr_ready (lanes s d)" "sh_rep (lanes s d) = 0" using assms(3) that by (simp_all add: axpy_ready_def)
    show "ssr_ready (L d)" using s(1) by (simp add: L_def snrt_ssr_loop_1d_def write_ssr_cfg_ready REG_BOUNDS_def REG_STRIDES_def Let_def)
    then show "idle (L d)" by (simp add: ssr_ready_def)
    obtain s1 s2 s3 where "ssr_cfg (L d) 0 1 [unat ?F, 1, 1, 1] [8, s1, s2, s3]"
      using cfg_1d_all [of hw ?F 8 1 "lanes s" d, OF assms(1) _ s(2)] unfolding L_def by auto
    then show "\<exists>ss. length ss = 3 \<and> ssr_cfg (L d) 0 1 [unat ?F, 1, 1, 1] (8 # ss)" by (intro exI [of _ "[s1, s2, s3]"]) simp
  qed
  define A where "A = ssr_job (L 0) 0 (at8 x ?o)"
  define B where "B = ssr_job (L 1) 0 (at8 y ?o)"
  define C where "C = ssr_job (L 2) 0 (at8 z ?o)"
  define v where "v = s\<lparr> lanes := L(0 := A, 1 := B, 2 := C\<lparr> wr := True \<rparr>), ssr_on := True, fregs := (fregs s)(a_reg := a) \<rparr>"
  have pc: "pending C = None" by (simp add: C_def ssr_job_pointer)
  have f: "Suc (unat (take_bit 16 (?F - 1))) = unat ?F"
  proof -
    have "unat (?F - 1) = unat ?F - 1" using fits_reg [OF assms(1)] by simp
    moreover have "0 < unat ?F" using assms(1) by (simp add: fits_def unat_gt_0)
    ultimately show ?thesis using assms(2) by (simp add: unsigned_take_bit_eq take_bit_nat_eq_self)
  qed
  have "t = snrt_ssr_disable (run_asm fpu [Frep (?F - 1) 1, I (FOp fmadd_d 2 [a_reg, 0, 1])] v)"
    using rd(2) [of 0] rd(2) [of 1] rd(2) [of 2]
    by (simp add: t axpy_def Let_def on_ssrs_def L_def [symmetric] snrt_ssr_read_job snrt_ssr_write_job snrt_ssr_enable_def set_fr_def
        v_def A_def B_def C_def del: run_asm.simps)
  also have "\<dots> = snrt_ssr_disable ((run_fis fpu [FOp fmadd_d 2 [a_reg, 0, 1]] ^^ unat ?F) v)"
    using f by (simp add: plain_def del: funpow.simps)
  finally have t': "t = snrt_ssr_disable ((run_fis fpu [FOp fmadd_d 2 [a_reg, 0, 1]] ^^ unat ?F) v)" .
  have "streaming3 A B (C\<lparr> wr := True \<rparr>) 0 v" by (simp add: streaming3_def v_def)
  note r = axpy_rounds [OF this refl, where fpu = fpu and n = "unat ?F"]
  have "cmem t = fold (\<lambda>i. axpy_elem fpu a (lane_addr A i) (lane_addr B i) (lane_addr C i)) [0..<unat ?F] (cmem s)"
    using r by (simp add: t' snrt_ssr_disable_def v_def lane_addr_wr [OF pc])
  also have "\<dots> = axpy_slice fpu a x y z ?o (unat ?F) (cmem s)"
    unfolding axpy_slice_def A_def B_def C_def
    using rd(1,3) [of 0] rd(1,3) [of 1] rd(1,3) [of 2] by (intro fold_cong refl) (auto simp: stream_1d(1))
  finally show "cmem t = axpy_slice fpu a x y z ?o (unat ?F) (cmem s)" .
  have e: "ssr_ready (lane_after (unat ?F) (ssr_job (L d) 0 q))" if "d < 3" for d q
    using rd(1,3) [OF that] stream_1d(2) by blast
  have "lanes t 0 = lane_after (unat ?F) A" "lanes t 1 = lane_after (unat ?F) B" "lanes t 2 = (lane_after (unat ?F) C)\<lparr> wr := True \<rparr>"
    using r lane_after_wr [OF pc] by (simp_all add: t' streaming3_def snrt_ssr_disable_def)
  then have "ssr_ready (lanes t 0)" "ssr_ready (lanes t 1)" "ssr_ready (lanes t 2)"
    using e by (simp_all add: A_def B_def C_def ssr_ready_def)
  then show "\<forall>d<3. ssr_ready (lanes t d)" by (auto simp: numeral_eq_Suc less_Suc_eq)
qed

section \<open>The cluster\<close>

text \<open>Elements that do not overlap each other or other elements' operands.\<close>

lemma load64_axpy_other:
  assumes "\<And>i. i \<in> set is \<Longrightarrow> apart q (z i)"
  shows "load64 (fold (\<lambda>i. axpy_elem fpu a (x i) (y i) (z i)) is m) q = load64 m q"
  using assms by (induction "is" arbitrary: m) (simp_all add: axpy_elem_def load64_store64_other)

lemma load64_axpy:
  assumes "i \<in> set is" "distinct is"
    and ap: "\<And>i j. i \<in> set is \<Longrightarrow> j \<in> set is \<Longrightarrow> i \<noteq> j \<Longrightarrow> apart (z i) (z j) \<and> apart (x i) (z j) \<and> apart (y i) (z j)"
  shows "load64 (fold (\<lambda>i. axpy_elem fpu a (x i) (y i) (z i)) is m) (z i) = fpu fmadd_d [a, load64 m (x i), load64 m (y i)]"
  using assms
proof (induction "is" arbitrary: m)
  case (Cons j "is")
  let ?m = "axpy_elem fpu a (x j) (y j) (z j) m"
  show ?case
  proof (cases "i = j")
    case True
    have "apart (z j) (z k)" if "k \<in> set is" for k using Cons.prems(2,3) that by auto
    then have "load64 (fold (\<lambda>i. axpy_elem fpu a (x i) (y i) (z i)) is ?m) (z j) = load64 ?m (z j)" by (rule load64_axpy_other)
    also have "\<dots> = fpu fmadd_d [a, load64 m (x j), load64 m (y j)]" by (simp add: axpy_elem_def load64_store64_same)
    finally show ?thesis using True by simp
  next
    case False
    then have "load64 (fold (\<lambda>i. axpy_elem fpu a (x i) (y i) (z i)) is ?m) (z i) = fpu fmadd_d [a, load64 ?m (x i), load64 ?m (y i)]"
      using Cons.prems by (intro Cons.IH) auto
    moreover have "load64 ?m (x i) = load64 m (x i)" "load64 ?m (y i) = load64 m (y i)"
      using Cons.prems(1) Cons.prems(3) [of i j] False by (auto simp: axpy_elem_def load64_store64_other)
    ultimately show ?thesis by simp
  qed
qed simp

text \<open>A vector that is the result itself or lies outside it.\<close>

definition clear_of :: "u32 \<Rightarrow> u32 \<Rightarrow> nat \<Rightarrow> bool" where
  "clear_of x z n \<longleftrightarrow> x = z \<or> unat x + 8 * n \<le> unat z \<or> unat z + 8 * n \<le> unat x \<and> unat x + 8 * n \<le> 2 ^ 32"

lemma clear_apart:
  assumes z: "unat z + 8 * n \<le> 2 ^ 32" and c: "clear_of x z n" and ij: "i < n" "j < n" "i \<noteq> j"
  shows "apart (at8 x (of_nat i)) (at8 z (of_nat j))"
proof -
  have x: "unat x + 8 * n \<le> 2 ^ 32" using z c by (auto simp: clear_of_def)
  have u: "unat (at8 x (of_nat i)) = unat x + 8 * i" "unat (at8 z (of_nat j)) = unat z + 8 * j"
    using unat_at8 [of x i] unat_at8 [of z j] x z ij by simp_all
  consider "unat x + 8 * i + 8 \<le> unat z + 8 * j" | "unat z + 8 * j + 8 \<le> unat x + 8 * i"
    using c ij unfolding clear_of_def by (cases "i < j") fastforce+
  then show ?thesis
  proof cases
    case 1
    then show ?thesis using z ij unfolding u [symmetric] by (intro apart_below) (simp_all add: u)
  next
    case 2
    then show ?thesis using x ij unfolding u [symmetric] by (subst apart_sym, intro apart_below) (simp_all add: u)
  qed
qed

text \<open>The elements of a list of cores, in the order in which they run.\<close>

definition axpy_indices :: "nat \<Rightarrow> nat list \<Rightarrow> nat list" where
  "axpy_indices F cs = concat (map (\<lambda>k. [k * F..<k * F + F]) cs)"

lemma slice_of:
  fixes e k F :: nat
  assumes "0 < F"
  shows "k * F \<le> e \<and> e < k * F + F \<longleftrightarrow> e div F = k"
proof
  assume "k * F \<le> e \<and> e < k * F + F"
  then show "e div F = k" by (intro div_nat_eqI) (simp_all add: mult.commute)
next
  assume "e div F = k"
  then show "k * F \<le> e \<and> e < k * F + F" using dividend_less_div_times [OF assms, of e] by auto
qed

lemma axpy_indices_mem:
  assumes "0 < F"
  shows "e \<in> set (axpy_indices F cs) \<longleftrightarrow> e div F \<in> set cs"
  using slice_of [OF assms] by (auto simp: axpy_indices_def)

lemma distinct_axpy_indices:
  assumes "distinct cs" "0 < F"
  shows "distinct (axpy_indices F cs)"
  using assms(1)
proof (induction cs)
  case (Cons k cs)
  have "set [k * F..<k * F + F] \<inter> set (axpy_indices F cs) = {}"
    using Cons.prems slice_of [OF assms(2), of k] axpy_indices_mem [OF assms(2)] by auto
  then show ?case using Cons by (simp add: axpy_indices_def)
qed (simp add: axpy_indices_def)

text \<open>The cores of a list run one after the other, each from its own state.\<close>

definition axpy_cluster :: "ssr_hw \<Rightarrow> fpu \<Rightarrow> snrt_cfg \<Rightarrow> nat \<Rightarrow> u32 \<Rightarrow> u64 \<Rightarrow> u32 \<Rightarrow> u32 \<Rightarrow> u32 \<Rightarrow> (nat \<Rightarrow> fp_core) \<Rightarrow> nat list \<Rightarrow> mem \<Rightarrow> mem" where
  "axpy_cluster hw fpu c cl l a x y z st cs m =
     fold (\<lambda>k m. cmem (axpy hw fpu c (hart_of c cl k) l a x y z ((st k)\<lparr> cmem := m \<rparr>))) cs m"

definition axpy_at :: "fpu \<Rightarrow> u64 \<Rightarrow> u32 \<Rightarrow> u32 \<Rightarrow> u32 \<Rightarrow> nat \<Rightarrow> mem \<Rightarrow> mem" where
  "axpy_at fpu a x y z i = axpy_elem fpu a (at8 x (of_nat i)) (at8 y (of_nat i)) (at8 z (of_nat i))"

lemma axpy_slice_indices:
  assumes "o' = of_nat (k * F)"
  shows "axpy_slice fpu a x y z o' F m = fold (axpy_at fpu a x y z) [k * F..<k * F + F] m"
proof -
  have "[k * F..<k * F + F] = map (\<lambda>i. k * F + i) [0..<F]" by (simp add: map_add_upt add.commute)
  then show ?thesis by (simp add: axpy_slice_def axpy_at_def fold_map comp_def assms)
qed

lemma axpy_cores:
  assumes c: "wf_cfg c" "cl < unat (SNRT_CLUSTER_NUM c)" and N: "N = unat (snrt_cluster_compute_core_num c)"
    and F: "F = unat l div N" "0 < F" "F \<le> 2 ^ 16" "F \<le> 2 ^ IndexWidth hw"
    and cs: "set cs \<subseteq> {..<N}" and st: "\<And>k. k < N \<Longrightarrow> axpy_ready (lanes (st k))"
  shows "axpy_cluster hw fpu c cl l a x y z st cs m = fold (axpy_at fpu a x y z) (axpy_indices F cs) m"
    and "axpy_cluster hw fpu c cl l a x y z st cs m
      = fold (\<lambda>k. axpy_baseline (\<lambda>a x y. fpu fmadd_d [a, x, y]) c (hart_of c cl k) l a x y z) cs m"
proof -
  have f: "unat (axpy_frac c l) = F" by (simp add: axpy_frac_def unat_div N F(1))
  have fits: "fits (IndexWidth hw) (axpy_frac c l)" using f F(2,4) by (auto simp: fits_def)
  have o': "axpy_offset c (hart_of c cl k) l = of_nat (k * F)" if "k < N" for k
  proof -
    have "k < unat (SNRT_CLUSTER_CORE_NUM c)" using that compute_core_num_nat [OF c(1)] N by simp
    then have "snrt_cluster_core_idx c (hart_of c cl k) = of_nat k"
      using hart_core_idx [OF c] by (metis u32_of_unat)
    moreover have "axpy_frac c l = of_nat F" using f by (metis u32_of_unat)
    ultimately show ?thesis by (simp add: axpy_offset_def)
  qed
  have one: "cmem (axpy hw fpu c (hart_of c cl k) l a x y z ((st k)\<lparr> cmem := m \<rparr>)) = axpy_slice fpu a x y z (of_nat (k * F)) F m"
    if "k < N" for k m
    using axpy_core(1) [OF fits _ _ refl, of "(st k)\<lparr> cmem := m \<rparr>"] st [OF that] F(3) f o' [OF that] by simp
  have eq: "axpy_cluster hw fpu c cl l a x y z st cs m = fold (\<lambda>k. axpy_slice fpu a x y z (of_nat (k * F)) F) cs m"
    unfolding axpy_cluster_def using one cs by (intro fold_cong refl) auto
  show "axpy_cluster hw fpu c cl l a x y z st cs m = fold (axpy_at fpu a x y z) (axpy_indices F cs) m"
    unfolding eq by (induction cs arbitrary: m) (simp_all add: axpy_indices_def axpy_slice_indices [OF refl] del: of_nat_mult)
  have "axpy_baseline (\<lambda>a x y. fpu fmadd_d [a, x, y]) c (hart_of c cl k) l a x y z = axpy_slice fpu a x y z (of_nat (k * F)) F" if "k < N" for k
    using axpy_baseline_slice [of c l fpu "hart_of c cl k"] F(3) f o' [OF that] by (simp add: fun_eq_iff)
  then show "axpy_cluster hw fpu c cl l a x y z st cs m
      = fold (\<lambda>k. axpy_baseline (\<lambda>a x y. fpu fmadd_d [a, x, y]) c (hart_of c cl k) l a x y z) cs m"
    unfolding eq using cs by (intro fold_cong refl) auto
qed

text \<open>
  C28: the vector addition of a cluster. Each of the \<open>N\<close> compute cores runs the streaming kernel
  on vectors of \<open>l\<close> elements, one core after the other in any order; \<open>x\<close> and \<open>y\<close> may be the result or lie outside it. Then the memory
  is the one the plain loops produce, the first \<open>N * (l div N)\<close> elements of \<open>z\<close> are \<open>a x + y\<close> of the operands
  before the call, and all other memory, with the remaining elements of \<open>z\<close>, is unchanged.
\<close>

theorem axpy_cluster_correct:
  assumes c: "wf_cfg c" "cl < unat (SNRT_CLUSTER_NUM c)" and N: "N = unat (snrt_cluster_compute_core_num c)"
    and F: "F = unat l div N" "0 < F" "F \<le> 2 ^ 16" "F \<le> 2 ^ IndexWidth hw"
    and cs: "set cs = {..<N}" "distinct cs" and st: "\<And>k. k < N \<Longrightarrow> axpy_ready (lanes (st k))"
    and mem: "unat z + 8 * unat l \<le> 2 ^ 32" "clear_of x z (unat l)" "clear_of y z (unat l)"
    and m': "m' = axpy_cluster hw fpu c cl l a x y z st cs m" and i: "i < N * F" and q: "\<And>j. j < N * F \<Longrightarrow> apart q (at8 z (of_nat j))"
  shows "m' = fold (\<lambda>k. axpy_baseline (\<lambda>a x y. fpu fmadd_d [a, x, y]) c (hart_of c cl k) l a x y z) cs m
    \<and> load64 m' (at8 z (of_nat i)) = fpu fmadd_d [a, load64 m (at8 x (of_nat i)), load64 m (at8 y (of_nat i))]
    \<and> load64 m' q = load64 m q"
proof (intro conjI)
  have cs': "set cs \<subseteq> {..<N}" using cs(1) by simp
  have r: "m' = fold (axpy_at fpu a x y z) (axpy_indices F cs) m" unfolding m' by (rule axpy_cores(1) [OF c N F cs' st])
  show "m' = fold (\<lambda>k. axpy_baseline (\<lambda>a x y. fpu fmadd_d [a, x, y]) c (hart_of c cl k) l a x y z) cs m"
    unfolding m' by (rule axpy_cores(2) [OF c N F cs' st])
  have ix: "set (axpy_indices F cs) = {..<N * F}"
    using axpy_indices_mem [OF F(2), of _ cs] cs(1) F(2) by (auto simp: div_less_iff_less_mult)
  have NF: "N * F \<le> unat l" using F(1) by simp
  have zz: "clear_of z z (unat l)" by (simp add: clear_of_def)
  show "load64 m' (at8 z (of_nat i)) = fpu fmadd_d [a, load64 m (at8 x (of_nat i)), load64 m (at8 y (of_nat i))]"
    unfolding r axpy_at_def [abs_def]
    using i ix NF distinct_axpy_indices [OF cs(2) F(2)] mem clear_apart [OF mem(1)] zz
    by (intro load64_axpy [where x = "\<lambda>i. at8 x (of_nat i)" and y = "\<lambda>i. at8 y (of_nat i)" and z = "\<lambda>i. at8 z (of_nat i)"]) simp_all
  show "load64 m' q = load64 m q"
    unfolding r axpy_at_def [abs_def] using q ix by (intro load64_axpy_other) simp
qed

text \<open>Nineteen elements on eight cores: the last core runs first, and the elements behind the sixteenth stay.\<close>

theorem axpy_cluster_correct_witness:
  "axpy_cluster demo_hw demo_fpu default_cfg 0 19 3 0x1000 0x2000 0x3000 (\<lambda>_. demo_core) [7, 6, 5, 4, 3, 2, 1, 0] (cmem demo_core)
      = fold (\<lambda>k. axpy_baseline (\<lambda>a x y. demo_fpu fmadd_d [a, x, y]) default_cfg (hart_of default_cfg 0 k) 19 3 0x1000 0x2000 0x3000)
          [7, 6, 5, 4, 3, 2, 1, 0] (cmem demo_core)
    \<and> load64 (axpy_cluster demo_hw demo_fpu default_cfg 0 19 3 0x1000 0x2000 0x3000 (\<lambda>_. demo_core) [7, 6, 5, 4, 3, 2, 1, 0] (cmem demo_core)) (at8 0x3000 (of_nat 15))
      = demo_fpu fmadd_d [3, load64 (cmem demo_core) (at8 0x1000 (of_nat 15)), load64 (cmem demo_core) (at8 0x2000 (of_nat 15))]
    \<and> load64 (axpy_cluster demo_hw demo_fpu default_cfg 0 19 3 0x1000 0x2000 0x3000 (\<lambda>_. demo_core) [7, 6, 5, 4, 3, 2, 1, 0] (cmem demo_core)) (at8 0x3000 (of_nat 18))
      = load64 (cmem demo_core) (at8 0x3000 (of_nat 18))"
proof (rule axpy_cluster_correct [where N = 8 and F = 2 and z = "0x3000", OF _ _ _ _ _ _ _ _ _ _ _ _ _ refl])
  show "wf_cfg default_cfg" by simp
  show "8 = unat (snrt_cluster_compute_core_num default_cfg)" by (simp add: team_defs default_cfg_def)
  show "set [7, 6, 5, 4, 3, 2, 1, 0] = {..<8 :: nat}" by (auto simp: numeral_eq_Suc less_Suc_eq)
  show "axpy_ready (lanes demo_core)" for k :: nat
    using demo_ready by (simp add: axpy_ready_def demo_core_def) (simp add: demo_ssr_def)
  show "apart (at8 0x3000 (of_nat 18)) (at8 0x3000 (of_nat j))" if "j < 8 * 2" for j
    using that by (intro clear_apart [where n = 19]) (simp_all add: clear_of_def)
qed (simp_all add: default_cfg_def demo_hw_def clear_of_def)

end
