(* ===== verification/Barrier.thy ===== *)
theory Barrier
  imports Prelude
begin

text \<open>
  The software barrier \<open>snrt_partial_barrier\<close> of \<open>sw/snRuntime/src/sync.h\<close>, executed by
  \<open>n\<close> harts in any interleaving of its memory accesses, any number of times in a row.
\<close>

section \<open>State and operation\<close>

text \<open>
  The shared \<open>snrt_barrier_t\<close> and, per hart, the statement it is about to execute with
  its local variables \<open>prev_it\<close> and \<open>cnt\<close>. \<open>passed\<close> counts the barriers a hart has left;
  it only observes.
\<close>

datatype bphase = BOut
  | BRead u32
  | BAdded u32 u32
  | BReset
  | BIncr
  | BSpin u32

record snrt_barrier_t =
  b_cnt :: u32
  b_iteration :: u32

record barrier_state =
  barr :: snrt_barrier_t
  bpc :: "nat \<Rightarrow> bphase"
  passed :: "nat \<Rightarrow> nat"

definition goto :: "nat \<Rightarrow> bphase \<Rightarrow> barrier_state \<Rightarrow> barrier_state" where
  "goto h p s = s\<lparr> bpc := (bpc s)(h := p) \<rparr>"

definition leave :: "nat \<Rightarrow> barrier_state \<Rightarrow> barrier_state" where
  "leave h s = s\<lparr> bpc := (bpc s)(h := BOut), passed := (passed s)(h := passed s h + 1) \<rparr>"

text \<open>The next access of hart \<open>h\<close> in \<open>snrt_partial_barrier(barr, n)\<close>.\<close>

definition snrt_partial_barrier :: "u32 \<Rightarrow> nat \<Rightarrow> barrier_state \<Rightarrow> barrier_state" where
  "snrt_partial_barrier n h s = (case bpc s h of
      BOut \<Rightarrow> goto h (BRead (b_iteration (barr s))) s
    | BRead prev_it \<Rightarrow> (let c = b_cnt (barr s) + 1 in
        goto h (BAdded prev_it c) (s\<lparr> barr := (barr s)\<lparr> b_cnt := c \<rparr> \<rparr>))
    | BAdded prev_it c \<Rightarrow> goto h (if c = n then BReset else BSpin prev_it) s
    | BReset \<Rightarrow> goto h BIncr (s\<lparr> barr := (barr s)\<lparr> b_cnt := 0 \<rparr> \<rparr>)
    | BIncr \<Rightarrow> leave h (s\<lparr> barr := (barr s)\<lparr> b_iteration := b_iteration (barr s) + 1 \<rparr> \<rparr>)
    | BSpin prev_it \<Rightarrow> (if prev_it = b_iteration (barr s) then s else leave h s))"

definition barrier_step :: "u32 \<Rightarrow> barrier_state \<Rightarrow> barrier_state \<Rightarrow> bool" where
  "barrier_step n s t \<longleftrightarrow> (\<exists>h < unat n. t = snrt_partial_barrier n h s)"

text \<open>The barrier object is zero initialised; the iteration may start anywhere.\<close>

definition barrier_init :: "u32 \<Rightarrow> barrier_state \<Rightarrow> bool" where
  "barrier_init n s \<longleftrightarrow> 0 < n \<and> barr s = \<lparr> b_cnt = 0, b_iteration = 0 \<rparr>
     \<and> (\<forall>h < unat n. bpc s h = BOut \<and> passed s h = 0)"

section \<open>The invariant\<close>

text \<open>
  In generation \<open>R\<close> a hart has left \<open>R\<close> barriers, or \<open>R - 1\<close> when it has been released
  and not noticed yet.
\<close>

definition hart_ok :: "u32 \<Rightarrow> nat \<Rightarrow> bphase \<Rightarrow> nat \<Rightarrow> bool" where
  "hart_ok n R p k \<longleftrightarrow> (case p of
      BOut \<Rightarrow> k = R
    | BRead pr \<Rightarrow> k = R \<and> pr = of_nat R
    | BAdded pr c \<Rightarrow> k = R \<and> pr = of_nat R \<or> Suc k = R \<and> pr = of_nat k \<and> c \<noteq> n
    | BReset \<Rightarrow> k = R
    | BIncr \<Rightarrow> k = R
    | BSpin pr \<Rightarrow> k = R \<and> pr = of_nat R \<or> Suc k = R \<and> pr = of_nat k)"

definition counted :: "bphase \<Rightarrow> bool" where
  "counted p \<longleftrightarrow> (case p of BOut \<Rightarrow> False | BRead _ \<Rightarrow> False | _ \<Rightarrow> True)"

definition arrived :: "u32 \<Rightarrow> nat \<Rightarrow> barrier_state \<Rightarrow> nat set" where
  "arrived n R s = {h. h < unat n \<and> passed s h = R \<and> counted (bpc s h)}"

text \<open>The hart that closes the generation.\<close>

definition closes :: "u32 \<Rightarrow> bphase \<Rightarrow> bool" where
  "closes n p \<longleftrightarrow> (case p of BAdded pr c \<Rightarrow> c = n | BReset \<Rightarrow> True | BIncr \<Rightarrow> True | _ \<Rightarrow> False)"

definition harts_ok :: "u32 \<Rightarrow> nat \<Rightarrow> barrier_state \<Rightarrow> bool" where
  "harts_ok n R s \<longleftrightarrow> (\<forall>h < unat n. hart_ok n R (bpc s h) (passed s h))"

definition one_closer :: "u32 \<Rightarrow> barrier_state \<Rightarrow> bool" where
  "one_closer n s \<longleftrightarrow> (\<forall>h < unat n. \<forall>k < unat n. closes n (bpc s h) \<longrightarrow> closes n (bpc s k) \<longrightarrow> h = k)"

definition count_ok :: "u32 \<Rightarrow> nat \<Rightarrow> barrier_state \<Rightarrow> bool" where
  "count_ok n R s \<longleftrightarrow> (if \<exists>h < unat n. bpc s h = BIncr then b_cnt (barr s) = 0
     else unat (b_cnt (barr s)) = card (arrived n R s))"

definition closer_ok :: "u32 \<Rightarrow> nat \<Rightarrow> barrier_state \<Rightarrow> bool" where
  "closer_ok n R s \<longleftrightarrow> ((\<exists>h < unat n. closes n (bpc s h)) \<longleftrightarrow> arrived n R s = {..<unat n})"

definition barrier_inv :: "u32 \<Rightarrow> nat \<Rightarrow> barrier_state \<Rightarrow> bool" where
  "barrier_inv n R s \<longleftrightarrow> 0 < n \<and> b_iteration (barr s) = of_nat R
     \<and> harts_ok n R s \<and> one_closer n s \<and> count_ok n R s \<and> closer_ok n R s"

lemmas phase_defs = hart_ok_def counted_def closes_def

lemma arrived_subset: "arrived n R s \<subseteq> {..<unat n}"
  by (auto simp: arrived_def)

lemma finite_arrived [simp]: "finite (arrived n R s)"
  by (rule finite_subset [OF arrived_subset]) simp

lemma arrived_card_le: "card (arrived n R s) \<le> unat n"
  using card_mono [OF _ arrived_subset, of n R s] by simp

lemma bpc_goto [simp]: "bpc (goto h p s) = (bpc s)(h := p)" "passed (goto h p s) = passed s"
  "barr (goto h p s) = barr s"
  by (simp_all add: goto_def)

lemma bpc_leave [simp]: "bpc (leave h s) = (bpc s)(h := BOut)"
  "passed (leave h s) = (passed s)(h := passed s h + 1)" "barr (leave h s) = barr s"
  by (simp_all add: leave_def)

lemma inv_hart: "barrier_inv n R s \<Longrightarrow> h < unat n \<Longrightarrow> hart_ok n R (bpc s h) (passed s h)"
  by (simp add: barrier_inv_def harts_ok_def)

lemma harts_ok_upd:
  assumes "harts_ok n R s" "\<And>k. k \<noteq> h \<Longrightarrow> bpc t k = bpc s k \<and> passed t k = passed s k"
    "hart_ok n R (bpc t h) (passed t h)"
  shows "harts_ok n R t"
  using assms unfolding harts_ok_def by metis

text \<open>A step that neither counts the hart nor changes whether it closes the generation.\<close>

lemma inv_neutral:
  assumes inv: "barrier_inv n R s" and h: "h < unat n"
    and same: "counted p = counted (bpc s h)" "closes n p = closes n (bpc s h)"
    and ninc: "bpc s h \<noteq> BIncr" "p \<noteq> BIncr" and ok: "hart_ok n R p (passed s h)"
  shows "barrier_inv n R (goto h p s)" (is "barrier_inv n R ?t")
proof -
  have arr: "arrived n R ?t = arrived n R s" using same by (auto simp: arrived_def)
  have cl: "closes n (bpc ?t k) = closes n (bpc s k)" for k using same by simp
  have inc: "bpc ?t k = BIncr \<longleftrightarrow> bpc s k = BIncr" for k using ninc by simp
  have "harts_ok n R ?t"
    by (rule harts_ok_upd [where h = h and s = s]) (use inv ok in \<open>auto simp: barrier_inv_def\<close>)
  then show ?thesis
    using inv unfolding barrier_inv_def one_closer_def count_ok_def closer_ok_def arr cl inc by simp
qed

text \<open>The atomic increment: the hart is counted, and closes when it is the last.\<close>

lemma inv_add:
  assumes inv: "barrier_inv n R s" and h: "h < unat n" and pc: "bpc s h = BRead pr"
  defines "c \<equiv> b_cnt (barr s) + 1"
  shows "barrier_inv n R (goto h (BAdded pr c) (s\<lparr> barr := (barr s)\<lparr> b_cnt := c \<rparr> \<rparr>))"
    (is "barrier_inv n R ?t")
proof -
  let ?A = "arrived n R s"
  have ok: "passed s h = R" "pr = of_nat R" using inv_hart [OF inv h] pc by (auto simp: hart_ok_def)
  have nA: "h \<notin> ?A" using pc by (simp add: arrived_def counted_def)
  then have notall: "?A \<noteq> {..<unat n}" using h by auto
  then have noclose: "\<not> closes n (bpc s k)" if "k < unat n" for k
    using inv that by (auto simp: barrier_inv_def closer_ok_def)
  then have noincr: "\<not> (\<exists>k < unat n. bpc s k = BIncr)" by (force simp: closes_def)
  then have cnt: "unat (b_cnt (barr s)) = card ?A" using inv by (simp add: barrier_inv_def count_ok_def)
  have arr: "arrived n R ?t = insert h ?A" using h ok by (auto simp: arrived_def counted_def)
  have card: "card (insert h ?A) = Suc (card ?A)" using nA by simp
  have le: "Suc (card ?A) \<le> unat n" using arrived_card_le [of n R ?t] arr card by simp
  then have c: "unat c = Suc (card ?A)"
    using cnt unat_lt_2p [of n] by (simp add: c_def unat_plus_no_overflow)
  have full: "insert h ?A = {..<unat n} \<longleftrightarrow> c = n"
  proof
    assume "insert h ?A = {..<unat n}"
    then have "card (insert h ?A) = unat n" by simp
    then show "c = n" using c card by (intro unsigned_word_eqI [where 'a = nat]) simp
  next
    assume "c = n"
    then have "card (insert h ?A) = card {..<unat n}" using c card by simp
    then show "insert h ?A = {..<unat n}"
      using arrived_subset [of n R ?t] arr by (metis card_subset_eq finite_lessThan)
  qed
  have "harts_ok n R ?t"
    by (rule harts_ok_upd [where h = h and s = s]) (use inv ok in \<open>auto simp: barrier_inv_def hart_ok_def\<close>)
  moreover have "one_closer n ?t" using noclose by (auto simp: one_closer_def)
  moreover have "closer_ok n R ?t"
    using noclose full h by (auto simp: closer_ok_def arr) (auto simp: closes_def)
  moreover have "count_ok n R ?t" using noincr c card by (auto simp: count_ok_def arr)
  ultimately show ?thesis using inv by (simp add: barrier_inv_def)
qed

text \<open>The closing hart resets the counter, then opens the next generation.\<close>

lemma closer_facts:
  assumes inv: "barrier_inv n R s" and h: "h < unat n" and cl: "closes n (bpc s h)"
  shows "k < unat n \<Longrightarrow> k \<noteq> h \<Longrightarrow> \<not> closes n (bpc s k)"
    and "arrived n R s = {..<unat n}"
  using assms by (auto simp: barrier_inv_def one_closer_def closer_ok_def)

lemma inv_reset:
  assumes inv: "barrier_inv n R s" and h: "h < unat n" and pc: "bpc s h = BReset"
  shows "barrier_inv n R (goto h BIncr (s\<lparr> barr := (barr s)\<lparr> b_cnt := 0 \<rparr> \<rparr>))" (is "barrier_inv n R ?t")
proof -
  have cl: "closes n (bpc ?t k) = closes n (bpc s k)" for k using pc by (simp add: closes_def)
  have arr: "arrived n R ?t = arrived n R s" using pc by (auto simp: arrived_def counted_def)
  have "harts_ok n R ?t"
    by (rule harts_ok_upd [where h = h and s = s])
      (use inv inv_hart [OF inv h] pc in \<open>auto simp: barrier_inv_def hart_ok_def\<close>)
  moreover have "count_ok n R ?t" using h by (auto simp: count_ok_def)
  ultimately show ?thesis
    using inv unfolding barrier_inv_def one_closer_def closer_ok_def arr cl by simp
qed

lemma inv_incr:
  assumes inv: "barrier_inv n R s" and h: "h < unat n" and pc: "bpc s h = BIncr"
  shows "barrier_inv n (Suc R) (leave h (s\<lparr> barr := (barr s)\<lparr> b_iteration := b_iteration (barr s) + 1 \<rparr> \<rparr>))"
    (is "barrier_inv n (Suc R) ?t")
proof -
  have clh: "closes n (bpc s h)" using pc by (simp add: closes_def)
  note F = closer_facts [OF inv h clh]
  have at: "passed s k = R \<and> counted (bpc s k)" if "k < unat n" for k
    using F(2) that by (auto simp: arrived_def)
  have other: "hart_ok n (Suc R) (bpc s k) (passed s k)" if "k < unat n" "k \<noteq> h" for k
    using at [OF that(1)] F(1) [OF that] inv_hart [OF inv that(1)]
    by (auto simp: phase_defs split: bphase.splits)
  have ncl: "\<not> closes n (bpc ?t k)" if "k < unat n" for k
    using F(1) [OF that] by (auto simp: closes_def)
  have arr: "arrived n (Suc R) ?t = {}"
    using at by (auto simp: arrived_def counted_def split: if_splits)
  have "harts_ok n (Suc R) ?t"
    using other at [OF h] by (auto simp: harts_ok_def) (simp add: hart_ok_def)
  moreover have "one_closer n ?t" using ncl by (auto simp: one_closer_def)
  moreover have "closer_ok n (Suc R) ?t"
    unfolding closer_ok_def arr using ncl h by (metis empty_iff lessThan_iff)
  moreover have "count_ok n (Suc R) ?t"
  proof -
    have "b_cnt (barr s) = 0"
      using inv h pc by (auto simp: barrier_inv_def count_ok_def split: if_splits)
    then show ?thesis unfolding count_ok_def arr by simp
  qed
  ultimately show ?thesis using inv by (simp add: barrier_inv_def)
qed

lemma inv_leave:
  assumes inv: "barrier_inv n R s" and h: "h < unat n" and pc: "bpc s h = BSpin pr"
    and free: "pr \<noteq> b_iteration (barr s)"
  shows "barrier_inv n R (leave h s)" (is "barrier_inv n R ?t")
proof -
  have k: "Suc (passed s h) = R"
    using inv_hart [OF inv h] pc free inv by (auto simp: hart_ok_def barrier_inv_def)
  have cl: "closes n (bpc ?t j) = closes n (bpc s j)" for j using pc by (simp add: closes_def)
  have inc: "bpc ?t j = BIncr \<longleftrightarrow> bpc s j = BIncr" for j using pc by simp
  have bt: "barr ?t = barr s" by simp
  have arr: "arrived n R ?t = arrived n R s" using k by (auto simp: arrived_def counted_def)
  have "harts_ok n R ?t"
    by (rule harts_ok_upd [where h = h and s = s])
      (use inv k in \<open>auto simp: barrier_inv_def hart_ok_def\<close>)
  then show ?thesis
    using inv unfolding barrier_inv_def one_closer_def count_ok_def closer_ok_def arr cl inc bt by simp
qed

lemma inv_step:
  assumes inv: "barrier_inv n R s" and h: "h < unat n"
  shows "barrier_inv n (if bpc s h = BIncr then Suc R else R) (snrt_partial_barrier n h s)"
proof (cases "bpc s h")
  case BOut
  have "barrier_inv n R (goto h (BRead (b_iteration (barr s))) s)"
    using inv_hart [OF inv h] inv BOut
    by (intro inv_neutral [OF inv h]) (auto simp: phase_defs barrier_inv_def)
  then show ?thesis using BOut by (simp add: snrt_partial_barrier_def)
next
  case (BAdded pr c)
  have "barrier_inv n R (goto h (if c = n then BReset else BSpin pr) s)"
    using inv_hart [OF inv h] BAdded by (intro inv_neutral [OF inv h]) (auto simp: phase_defs)
  then show ?thesis using BAdded by (simp add: snrt_partial_barrier_def)
qed (use inv_add [OF assms] inv_reset [OF assms] inv_incr [OF assms] inv_leave [OF assms] inv
     in \<open>auto simp: snrt_partial_barrier_def Let_def\<close>)

definition barrier_ok :: "u32 \<Rightarrow> barrier_state \<Rightarrow> bool" where
  "barrier_ok n s \<longleftrightarrow> (\<exists>R. barrier_inv n R s)"

interpretation barrier: inductive_invariant "barrier_init n" "barrier_step n" "barrier_ok n"
proof
  fix s
  assume i: "barrier_init n s"
  then have "\<not> closes n (bpc s h)" "bpc s h \<noteq> BIncr" if "h < unat n" for h
    using that by (auto simp: barrier_init_def closes_def)
  moreover have "arrived n 0 s = {}" using i by (auto simp: arrived_def barrier_init_def counted_def)
  ultimately have "barrier_inv n 0 s"
    using i by (auto simp: barrier_inv_def harts_ok_def one_closer_def count_ok_def closer_ok_def
        barrier_init_def hart_ok_def word_less_nat_alt)
  then show "barrier_ok n s" by (auto simp: barrier_ok_def)
next
  fix s t
  assume "barrier_ok n s" "barrier_step n s t"
  then show "barrier_ok n t" by (auto simp: barrier_ok_def barrier_step_def dest: inv_step)
qed

section \<open>Progress\<close>

lemma word_succ_neq: "(of_nat (Suc k) :: u32) \<noteq> of_nat k"
  by simp

lemma not_all_spin:
  assumes inv: "barrier_inv n R s"
  shows "\<exists>h < unat n. bpc s h \<noteq> BSpin (b_iteration (barr s))"
proof (rule ccontr)
  assume "\<not> ?thesis"
  then have all: "bpc s h = BSpin (b_iteration (barr s))" if "h < unat n" for h using that by blast
  have "passed s h = R" if "h < unat n" for h
    using inv_hart [OF inv that] all [OF that] inv by (auto simp: hart_ok_def barrier_inv_def)
  then have "arrived n R s = {..<unat n}" using all by (auto simp: arrived_def counted_def)
  then show False using inv all by (auto simp: barrier_inv_def closer_ok_def closes_def)
qed

definition rank :: "bphase \<Rightarrow> nat" where
  "rank p = (case p of BOut \<Rightarrow> 0 | BSpin _ \<Rightarrow> 1 | BIncr \<Rightarrow> 2 | BReset \<Rightarrow> 3 | BAdded _ _ \<Rightarrow> 4 | BRead _ \<Rightarrow> 5)"

definition work :: "u32 \<Rightarrow> barrier_state \<Rightarrow> nat" where
  "work n s = (\<Sum>h<unat n. rank (bpc s h))"

lemma step_other:
  "k \<noteq> h \<Longrightarrow> bpc (snrt_partial_barrier n h s) k = bpc s k \<and> passed (snrt_partial_barrier n h s) k = passed s k"
  by (simp add: snrt_partial_barrier_def Let_def split: bphase.splits)

lemma step_rank:
  assumes "bpc s h \<noteq> BOut" "bpc s h \<noteq> BSpin (b_iteration (barr s))"
  shows "rank (bpc (snrt_partial_barrier n h s) h) < rank (bpc s h)"
  using assms by (auto simp: snrt_partial_barrier_def Let_def rank_def split: bphase.splits)

lemma step_work:
  assumes "h < unat n" "bpc s h \<noteq> BOut" "bpc s h \<noteq> BSpin (b_iteration (barr s))"
  shows "work n (snrt_partial_barrier n h s) < work n s"
  unfolding work_def
proof (rule sum_strict_mono_ex1)
  show "\<forall>k\<in>{..<unat n}. rank (bpc (snrt_partial_barrier n h s) k) \<le> rank (bpc s k)"
    using step_other [of _ h n s] step_rank [OF assms(2,3), of n] by (metis less_imp_le order_refl)
qed (use step_rank [OF assms(2,3), of n] assms(1) in auto)

text \<open>All harts are inside barrier \<open>R\<close>, or barrier \<open>R\<close> is open and the harts are leaving it.\<close>

definition gather :: "u32 \<Rightarrow> nat \<Rightarrow> barrier_state \<Rightarrow> bool" where
  "gather n R s \<longleftrightarrow> barrier_inv n R s \<and> (\<forall>h < unat n. passed s h = R \<and> bpc s h \<noteq> BOut)"

definition scatter :: "u32 \<Rightarrow> nat \<Rightarrow> barrier_state \<Rightarrow> bool" where
  "scatter n R s \<longleftrightarrow> barrier_inv n (Suc R) s
     \<and> (\<forall>h < unat n. passed s h = R \<or> passed s h = Suc R \<and> bpc s h = BOut)"

lemma gather_step:
  assumes "gather n R s" "h < unat n"
  shows "gather n R (snrt_partial_barrier n h s) \<or> scatter n R (snrt_partial_barrier n h s)"
proof -
  let ?t = "snrt_partial_barrier n h s"
  have inv: "barrier_inv n R s" and at: "\<And>k. k < unat n \<Longrightarrow> passed s k = R \<and> bpc s k \<noteq> BOut"
    using assms(1) by (auto simp: gather_def)
  note I = inv_step [OF inv assms(2)] and O = step_other [of _ h n s]
  show ?thesis
  proof (cases "bpc s h = BIncr")
    case True
    then have "passed ?t h = Suc R \<and> bpc ?t h = BOut"
      using at [OF assms(2)] by (simp add: snrt_partial_barrier_def)
    then show ?thesis using True I at O unfolding scatter_def by metis
  next
    case False
    have "bpc s h \<noteq> BSpin pr" if "pr \<noteq> b_iteration (barr s)" for pr
      using inv_hart [OF inv assms(2)] at [OF assms(2)] inv that by (auto simp: hart_ok_def barrier_inv_def)
    then have "passed ?t h = R \<and> bpc ?t h \<noteq> BOut"
      using False at [OF assms(2)] by (auto simp: snrt_partial_barrier_def Let_def split: bphase.splits)
    then show ?thesis using False I at O unfolding gather_def by metis
  qed
qed

lemma scatter_step:
  assumes "scatter n R s" "h < unat n" "passed s h = R"
  shows "scatter n R (snrt_partial_barrier n h s)"
    and "bpc s h \<noteq> BOut" "bpc s h \<noteq> BSpin (b_iteration (barr s))"
proof -
  let ?t = "snrt_partial_barrier n h s"
  have inv: "barrier_inv n (Suc R) s" using assms(1) by (simp add: scatter_def)
  have it: "b_iteration (barr s) = of_nat (Suc R)" using inv by (simp add: barrier_inv_def)
  have pc: "bpc s h = BSpin (of_nat R) \<or> (\<exists>c. bpc s h = BAdded (of_nat R) c \<and> c \<noteq> n)"
    using inv_hart [OF inv assms(2)] assms(3) by (auto simp: hart_ok_def split: bphase.splits)
  then show "bpc s h \<noteq> BOut" "bpc s h \<noteq> BSpin (b_iteration (barr s))"
    using it by auto
  have "passed ?t h = R \<or> passed ?t h = Suc R \<and> bpc ?t h = BOut"
    using pc assms(3) it by (auto simp: snrt_partial_barrier_def)
  moreover have "barrier_inv n (Suc R) ?t" using inv_step [OF inv assms(2)] pc by auto
  ultimately show "scatter n R ?t"
    using assms(1) step_other [of _ h n s] unfolding scatter_def by metis
qed

lemma all_leave:
  assumes "gather n R s \<or> scatter n R s"
  shows "\<exists>t. (barrier_step n)\<^sup>*\<^sup>* s t \<and> (\<forall>h < unat n. passed t h = Suc R \<and> bpc t h = BOut)"
  using assms
proof (induction "work n s" arbitrary: s rule: less_induct)
  case less
  show ?case
  proof (cases "scatter n R s \<and> (\<forall>h < unat n. passed s h \<noteq> R)")
    case True
    then show ?thesis by (intro exI [of _ s]) (auto simp: scatter_def)
  next
    case False
    obtain h where h: "h < unat n" "bpc s h \<noteq> BOut" "bpc s h \<noteq> BSpin (b_iteration (barr s))"
      and next_ok: "gather n R (snrt_partial_barrier n h s) \<or> scatter n R (snrt_partial_barrier n h s)"
    proof (cases "scatter n R s")
      case True
      then show thesis using False scatter_step [OF True] that by blast
    next
      case False
      then have "gather n R s" using less.prems by blast
      then show thesis
        using not_all_spin [of n R s] gather_step [of n R s] that by (auto simp: gather_def)
    qed
    then obtain t where "(barrier_step n)\<^sup>*\<^sup>* (snrt_partial_barrier n h s) t"
        "\<forall>h < unat n. passed t h = Suc R \<and> bpc t h = BOut"
      using less.hyps [OF step_work [OF h] next_ok] by blast
    moreover have "barrier_step n s (snrt_partial_barrier n h s)" using h by (auto simp: barrier_step_def)
    ultimately show ?thesis by (meson converse_rtranclp_into_rtranclp)
  qed
qed

section \<open>Properties\<close>

lemma hart_ok_bounds: "hart_ok n R p k \<Longrightarrow> k \<le> R \<and> R \<le> k + (if counted p then 1 else 0)"
  by (cases p) (auto simp: phase_defs)

lemma barrier_arrival:
  assumes "barrier_ok n s" "h < unat n" "k < unat n"
  shows "passed s h \<le> passed s k + (if counted (bpc s k) then 1 else 0)"
proof -
  obtain R where "barrier_inv n R s" using assms(1) by (auto simp: barrier_ok_def)
  from hart_ok_bounds [OF inv_hart [OF this assms(2)]] hart_ok_bounds [OF inv_hart [OF this assms(3)]]
  show ?thesis by linarith
qed

text \<open>
  C2: barrier safety. Under every interleaving, however often the barrier is used and
  however the 32-bit iteration wraps, a hart has left a barrier only if every
  participating hart has already been counted in that barrier.
\<close>

theorem partial_barrier_safe:
  assumes "reachable (barrier_init n) (barrier_step n) s" "h < unat n" "k < unat n"
  shows "passed s h \<le> passed s k + (if counted (bpc s k) then 1 else 0)"
  using barrier_arrival [OF barrier.inv_reachable [OF assms(1)] assms(2,3)] .

definition barrier_start :: barrier_state where
  "barrier_start = \<lparr> barr = \<lparr> b_cnt = 0, b_iteration = 0 \<rparr>, bpc = (\<lambda>_. BOut), passed = (\<lambda>_. 0) \<rparr>"

definition barrier_run :: "u32 \<Rightarrow> nat list \<Rightarrow> barrier_state" where
  "barrier_run n hs = fold (snrt_partial_barrier n) hs barrier_start"

lemma barrier_run_reachable:
  assumes "0 < n" "\<forall>h\<in>set hs. h < unat n"
  shows "reachable (barrier_init n) (barrier_step n) (barrier_run n hs)"
  using assms(2)
proof (induction hs rule: rev_induct)
  case Nil
  then show ?case
    using assms(1) by (auto simp: barrier_run_def barrier_init_def barrier_start_def intro!: reach_init)
next
  case (snoc h hs)
  then have "reachable (barrier_init n) (barrier_step n) (barrier_run n hs)" by simp
  moreover have "barrier_step n (barrier_run n hs) (barrier_run n (hs @ [h]))"
    using snoc.prems by (auto simp: barrier_step_def barrier_run_def)
  ultimately show ?case by (rule reach_step)
qed

theorem partial_barrier_safe_witness:
  "passed (barrier_run 2 [0, 0, 1, 0, 1, 1, 1, 1]) 1 = 1
   \<and> passed (barrier_run 2 [0, 0, 1, 0, 1, 1, 1, 1]) 1
     \<le> passed (barrier_run 2 [0, 0, 1, 0, 1, 1, 1, 1]) 0
       + (if counted (bpc (barrier_run 2 [0, 0, 1, 0, 1, 1, 1, 1]) 0) then 1 else 0)"
proof
  show "passed (barrier_run 2 [0, 0, 1, 0, 1, 1, 1, 1]) 1 = 1" by code_simp
  show "passed (barrier_run 2 [0, 0, 1, 0, 1, 1, 1, 1]) 1
     \<le> passed (barrier_run 2 [0, 0, 1, 0, 1, 1, 1, 1]) 0
       + (if counted (bpc (barrier_run 2 [0, 0, 1, 0, 1, 1, 1, 1]) 0) then 1 else 0)"
    by (rule partial_barrier_safe [OF barrier_run_reachable]) simp_all
qed

text \<open>
  C13: barrier liveness. As soon as all \<open>n\<close> harts have entered barrier \<open>R\<close>, a finite
  number of further steps brings all of them out of it.
\<close>

theorem partial_barrier_opens:
  assumes "reachable (barrier_init n) (barrier_step n) s"
    and "\<forall>h < unat n. passed s h = R \<and> bpc s h \<noteq> BOut"
  shows "\<exists>t. (barrier_step n)\<^sup>*\<^sup>* s t \<and> (\<forall>h < unat n. passed t h = Suc R \<and> bpc t h = BOut)"
proof -
  obtain Q where Q: "barrier_inv n Q s"
    using barrier.inv_reachable [OF assms(1)] by (auto simp: barrier_ok_def)
  show ?thesis
  proof (cases "Q = R")
    case True
    then show ?thesis using Q assms(2) by (intro all_leave) (simp add: gather_def)
  next
    case False
    have n: "0 < unat n" using Q by (simp add: barrier_inv_def word_less_nat_alt)
    have "Q = Suc R"
      using hart_ok_bounds [OF inv_hart [OF Q n]] assms(2) n False by (auto split: if_splits)
    then show ?thesis using Q assms(2) by (intro all_leave) (simp add: scatter_def)
  qed
qed

theorem partial_barrier_opens_witness:
  "\<exists>t. (barrier_step 2)\<^sup>*\<^sup>* (barrier_run 2 [0, 0, 1, 0]) t \<and> passed t 0 = 1 \<and> passed t 1 = 1"
proof -
  let ?s = "barrier_run 2 [0, 0, 1, 0]"
  have "passed ?s h = 0 \<and> bpc ?s h \<noteq> BOut" if "h = 0 \<or> h = 1" for h
    using that by (auto simp: barrier_run_def barrier_start_def snrt_partial_barrier_def goto_def)
  moreover have "h = 0 \<or> h = 1" if "h < unat (2 :: u32)" for h using that by auto
  ultimately have "\<forall>h < unat (2 :: u32). passed ?s h = 0 \<and> bpc ?s h \<noteq> BOut" by blast
  moreover have "reachable (barrier_init 2) (barrier_step 2) ?s"
    by (rule barrier_run_reachable) simp_all
  ultimately obtain t where "(barrier_step 2)\<^sup>*\<^sup>* ?s t" "\<forall>h < unat (2 :: u32). passed t h = Suc 0 \<and> bpc t h = BOut"
    using partial_barrier_opens by blast
  then show ?thesis by (intro exI [of _ t]) simp
qed

end
