(* ===== verification/Global_Barrier.thy ===== *)
theory Global_Barrier
  imports Team Barrier
begin

text \<open>
  The hardware cluster barrier (\<open>hw/ip/snitch_cluster/src/snitch_barrier.sv\<close>, reached by
  \<open>snrt_cluster_hw_barrier\<close>) and \<open>snrt_global_barrier\<close> of \<open>sw/snRuntime/src/sync.h\<close>:
  the data movers of all clusters meet in the software barrier, then the cores of each
  cluster meet in its hardware barrier.
\<close>

section \<open>State and operations\<close>

text \<open>The state of a port of the hardware barrier (\<open>barrier_state_e\<close>).\<close>

datatype barrier_port = HIdle | HWait | HTake

text \<open>
  Cores are named by cluster and core index. \<open>sw\<close> is the global software barrier, run
  by the data movers, one per cluster; \<open>gpassed\<close> counts the global barriers left.
\<close>

record gstate =
  sw :: barrier_state
  hw :: "nat \<Rightarrow> nat \<Rightarrow> barrier_port"
  gpassed :: "nat \<Rightarrow> nat \<Rightarrow> nat"

definition set_port :: "nat \<Rightarrow> nat \<Rightarrow> barrier_port \<Rightarrow> gstate \<Rightarrow> gstate" where
  "set_port i k p s = s\<lparr> hw := (hw s)(i := (hw s i)(k := p)) \<rparr>"

text \<open>
  The load of the barrier register by core \<open>k\<close> of cluster \<open>i\<close>: an idle port starts to
  wait, a waiting port holds the request back, a taken port answers and is idle again.
\<close>

definition snrt_cluster_hw_barrier :: "nat \<Rightarrow> nat \<Rightarrow> gstate \<Rightarrow> gstate" where
  "snrt_cluster_hw_barrier i k s = (case hw s i k of
      HIdle \<Rightarrow> set_port i k HWait s
    | HWait \<Rightarrow> s
    | HTake \<Rightarrow> (set_port i k HIdle s)\<lparr> gpassed := (gpassed s)(i := (gpassed s i)(k := gpassed s i k + 1)) \<rparr>)"

text \<open>\<open>take_barrier\<close>: when every port of the cluster waits, all are taken.\<close>

definition take_barrier :: "snrt_cfg \<Rightarrow> nat \<Rightarrow> gstate \<Rightarrow> gstate" where
  "take_barrier c i s = (if \<forall>k\<in>{..<unat (snrt_cluster_core_num c)}. hw s i k = HWait
     then s\<lparr> hw := (hw s)(i := (\<lambda>k. HTake)) \<rparr> else s)"

text \<open>
  The next access of core \<open>k\<close> of cluster \<open>i\<close> in \<open>snrt_global_barrier\<close>. The body of the
  data mover's branch is that of \<open>snrt_partial_barrier\<close> with the number of clusters; when
  it is through, the core goes on to the hardware barrier.
\<close>

definition snrt_global_barrier :: "snrt_cfg \<Rightarrow> nat \<Rightarrow> nat \<Rightarrow> gstate \<Rightarrow> gstate" where
  "snrt_global_barrier c i k s =
    (if snrt_is_dm_core c (hart_of c i k) \<and> hw s i k = HIdle then
       (let t = snrt_partial_barrier (snrt_cluster_num c) i (sw s)
        in if passed t i \<noteq> passed (sw s) i then snrt_cluster_hw_barrier i k (s\<lparr> sw := t \<rparr>)
           else s\<lparr> sw := t \<rparr>)
     else snrt_cluster_hw_barrier i k s)"

inductive global_step :: "snrt_cfg \<Rightarrow> gstate \<Rightarrow> gstate \<Rightarrow> bool" for c where
  core: "i < unat (snrt_cluster_num c) \<Longrightarrow> k < unat (snrt_cluster_core_num c) \<Longrightarrow>
    global_step c s (snrt_global_barrier c i k s)"
| take: "i < unat (snrt_cluster_num c) \<Longrightarrow> global_step c s (take_barrier c i s)"

definition global_init :: "snrt_cfg \<Rightarrow> gstate \<Rightarrow> bool" where
  "global_init c s \<longleftrightarrow> barrier_init (snrt_cluster_num c) (sw s)
     \<and> (\<forall>i k. hw s i k = HIdle \<and> gpassed s i k = 0)"

section \<open>The invariant\<close>

definition one_dm :: "snrt_cfg \<Rightarrow> bool" where
  "one_dm c \<longleftrightarrow> wf_cfg c \<and> SNRT_CLUSTER_DM_CORE_NUM c = 1"

abbreviation dm_idx :: "snrt_cfg \<Rightarrow> nat" where
  "dm_idx c \<equiv> unat (SNRT_CLUSTER_CORE_NUM c) - 1"

definition in_hw :: "barrier_port \<Rightarrow> nat" where
  "in_hw p = (if p = HIdle then 0 else 1)"

text \<open>A cluster gathers with all counts equal, or scatters after its barrier was taken.\<close>

definition cluster_ok :: "nat \<Rightarrow> (nat \<Rightarrow> barrier_port) \<Rightarrow> (nat \<Rightarrow> nat) \<Rightarrow> bool" where
  "cluster_ok m ports ps \<longleftrightarrow> (\<exists>r. (\<forall>k<m. ps k = r \<and> ports k \<noteq> HTake)
     \<or> (\<forall>k<m. ps k = r \<and> ports k = HTake \<or> ps k = Suc r \<and> ports k \<noteq> HTake))"

definition global_inv :: "snrt_cfg \<Rightarrow> gstate \<Rightarrow> bool" where
  "global_inv c s \<longleftrightarrow> barrier_ok (SNRT_CLUSTER_NUM c) (sw s)
     \<and> (\<forall>i < unat (SNRT_CLUSTER_NUM c).
          passed (sw s) i = gpassed s i (dm_idx c) + in_hw (hw s i (dm_idx c))
          \<and> cluster_ok (unat (SNRT_CLUSTER_CORE_NUM c)) (hw s i) (gpassed s i))"

lemma is_dm_idx:
  assumes "one_dm c" "i < unat (SNRT_CLUSTER_NUM c)" "k < unat (SNRT_CLUSTER_CORE_NUM c)"
  shows "snrt_is_dm_core c (hart_of c i k) \<longleftrightarrow> k = dm_idx c"
  using single_dm_core assms by (simp add: one_dm_def)

lemma cluster_ok_wait:
  assumes "cluster_ok m ports ps" "ports k = HIdle"
  shows "cluster_ok m (ports(k := HWait)) ps"
  using assms unfolding cluster_ok_def by (metis barrier_port.distinct fun_upd_apply)

lemma cluster_ok_answer:
  assumes "cluster_ok m ports ps" "ports k = HTake" "k < m"
  shows "cluster_ok m (ports(k := HIdle)) (ps(k := Suc (ps k)))"
proof -
  obtain r where "\<forall>j<m. ps j = r \<and> ports j = HTake \<or> ps j = Suc r \<and> ports j \<noteq> HTake"
    using assms unfolding cluster_ok_def by metis
  then show ?thesis using assms unfolding cluster_ok_def by (intro exI [of _ r]) auto
qed

lemma cluster_ok_take:
  assumes "cluster_ok m ports ps" "\<forall>k<m. ports k = HWait"
  shows "cluster_ok m (\<lambda>_. HTake) ps"
  using assms unfolding cluster_ok_def by (metis barrier_port.distinct(5))

lemma cluster_ok_arrival:
  assumes "cluster_ok m ports ps" "k < m" "j < m"
  shows "ps k \<le> ps j + in_hw (ports j)"
  using assms unfolding cluster_ok_def in_hw_def by (auto; metis Suc_n_not_le_n le_Suc_eq nle_le barrier_port.distinct)

lemma hw_barrier_simps [simp]:
  "sw (snrt_cluster_hw_barrier i k s) = sw s"
  "sw (set_port i k p s) = sw s" "gpassed (set_port i k p s) = gpassed s"
  "hw (set_port i k p s) = (hw s)(i := (hw s i)(k := p))"
  by (simp_all add: snrt_cluster_hw_barrier_def set_port_def split: barrier_port.splits)

lemma hw_barrier_other:
  "j \<noteq> i \<Longrightarrow> hw (snrt_cluster_hw_barrier i k s) j = hw s j \<and> gpassed (snrt_cluster_hw_barrier i k s) j = gpassed s j"
  by (simp add: snrt_cluster_hw_barrier_def split: barrier_port.splits)

lemma hw_barrier_cluster_ok:
  assumes "cluster_ok m (hw s i) (gpassed s i)" "k < m"
  shows "cluster_ok m (hw (snrt_cluster_hw_barrier i k s) i) (gpassed (snrt_cluster_hw_barrier i k s) i)"
  using assms
  by (simp add: snrt_cluster_hw_barrier_def cluster_ok_wait cluster_ok_answer split: barrier_port.splits)

text \<open>The hardware barrier keeps the balance of a core unless it starts to wait.\<close>

lemma hw_barrier_balance:
  assumes "hw s i k \<noteq> HIdle \<or> j \<noteq> k"
  shows "gpassed (snrt_cluster_hw_barrier i k s) i j + in_hw (hw (snrt_cluster_hw_barrier i k s) i j)
    = gpassed s i j + in_hw (hw s i j)"
  using assms by (auto simp: snrt_cluster_hw_barrier_def in_hw_def split: barrier_port.splits)

lemma hw_barrier_enter:
  assumes "hw s i k = HIdle"
  shows "gpassed (snrt_cluster_hw_barrier i k s) i k + in_hw (hw (snrt_cluster_hw_barrier i k s) i k)
    = Suc (gpassed s i k + in_hw (hw s i k))"
  using assms by (simp add: snrt_cluster_hw_barrier_def in_hw_def)

lemma sw_step_passed:
  "passed (snrt_partial_barrier n i b) i = passed b i \<or> passed (snrt_partial_barrier n i b) i = Suc (passed b i)"
  by (simp add: snrt_partial_barrier_def Let_def split: bphase.splits)

lemma global_inv_upd:
  assumes inv: "global_inv c s" and "barrier_ok (SNRT_CLUSTER_NUM c) (sw t)"
    and "\<And>j. j \<noteq> i \<Longrightarrow> hw t j = hw s j \<and> gpassed t j = gpassed s j \<and> passed (sw t) j = passed (sw s) j"
    and "passed (sw t) i = gpassed t i (dm_idx c) + in_hw (hw t i (dm_idx c))"
    and "cluster_ok (unat (SNRT_CLUSTER_CORE_NUM c)) (hw t i) (gpassed t i)"
  shows "global_inv c t"
  unfolding global_inv_def
proof (intro conjI allI impI)
  fix j
  assume "j < unat (SNRT_CLUSTER_NUM c)"
  with assms show "passed (sw t) j = gpassed t j (dm_idx c) + in_hw (hw t j (dm_idx c))"
    by (cases "j = i") (simp_all add: global_inv_def)
  from \<open>j < unat (SNRT_CLUSTER_NUM c)\<close> assms
  show "cluster_ok (unat (SNRT_CLUSTER_CORE_NUM c)) (hw t j) (gpassed t j)"
    by (cases "j = i") (simp_all add: global_inv_def)
qed (rule assms(2))

lemma global_inv_hw:
  assumes inv: "global_inv c s" and "i < unat (SNRT_CLUSTER_NUM c)" "k < unat (SNRT_CLUSTER_CORE_NUM c)"
    and "hw s i k \<noteq> HIdle \<or> k \<noteq> dm_idx c"
  shows "global_inv c (snrt_cluster_hw_barrier i k s)"
  using hw_barrier_balance [of s i k "dm_idx c"] hw_barrier_cluster_ok [of _ s i k] hw_barrier_other [of _ i k s] assms
  by (intro global_inv_upd [OF inv, where i = i]) (auto simp: global_inv_def)

lemma global_inv_sw:
  assumes inv: "global_inv c s" and i: "i < unat (SNRT_CLUSTER_NUM c)" and idle: "hw s i (dm_idx c) = HIdle"
    and k: "dm_idx c < unat (SNRT_CLUSTER_CORE_NUM c)"
  defines "b \<equiv> snrt_partial_barrier (SNRT_CLUSTER_NUM c) i (sw s)"
  shows "global_inv c (if passed b i \<noteq> passed (sw s) i
    then snrt_cluster_hw_barrier i (dm_idx c) (s\<lparr> sw := b \<rparr>) else s\<lparr> sw := b \<rparr>)"
proof -
  have ok: "barrier_ok (SNRT_CLUSTER_NUM c) b"
    using inv i barrier.inv_step [of "SNRT_CLUSTER_NUM c" "sw s" b]
    by (auto simp: global_inv_def b_def barrier_step_def)
  have cl: "cluster_ok (unat (SNRT_CLUSTER_CORE_NUM c)) (hw s i) (gpassed s i)"
    and bal: "passed (sw s) i = gpassed s i (dm_idx c) + in_hw (hw s i (dm_idx c))"
    using inv i by (auto simp: global_inv_def)
  have oth: "passed b j = passed (sw s) j" if "j \<noteq> i" for j
    using step_other [OF that] by (simp add: b_def)
  let ?u = "snrt_cluster_hw_barrier i (dm_idx c) (s\<lparr> sw := b \<rparr>)"
  have "global_inv c ?u" if "passed b i \<noteq> passed (sw s) i"
  proof -
    have "passed b i = Suc (passed (sw s) i)"
      using that sw_step_passed [of "SNRT_CLUSTER_NUM c" i "sw s"] by (simp add: b_def)
    then show ?thesis
      using ok oth bal cl k idle hw_barrier_enter [of "s\<lparr> sw := b \<rparr>" i "dm_idx c"]
        hw_barrier_cluster_ok [of _ "s\<lparr> sw := b \<rparr>" i "dm_idx c"] hw_barrier_other [of _ i "dm_idx c" "s\<lparr> sw := b \<rparr>"]
      by (intro global_inv_upd [OF inv, where i = i]) auto
  qed
  moreover have "global_inv c (s\<lparr> sw := b \<rparr>)" if "passed b i = passed (sw s) i"
    using ok oth bal cl that by (intro global_inv_upd [OF inv, where i = i]) auto
  ultimately show ?thesis by auto
qed

lemma global_inv_step:
  assumes dm: "one_dm c" and inv: "global_inv c s" and st: "global_step c s t"
  shows "global_inv c t"
  using st
proof cases
  case (core i k)
  then have ik: "i < unat (SNRT_CLUSTER_NUM c)" "k < unat (SNRT_CLUSTER_CORE_NUM c)"
    by (simp_all add: snrt_cluster_num_def snrt_cluster_core_num_def)
  show ?thesis
  proof (cases "k = dm_idx c \<and> hw s i k = HIdle")
    case True
    then have k: "dm_idx c = k" and "hw s i k = HIdle" "snrt_is_dm_core c (hart_of c i k)"
      using is_dm_idx [OF dm ik] by blast+
    then have "t = (let b = snrt_partial_barrier (SNRT_CLUSTER_NUM c) i (sw s) in if passed b i \<noteq> passed (sw s) i
        then snrt_cluster_hw_barrier i k (s\<lparr> sw := b \<rparr>) else s\<lparr> sw := b \<rparr>)"
      using core(1) by (simp add: snrt_global_barrier_def snrt_cluster_num_def)
    then show ?thesis
      using global_inv_sw [OF inv ik(1), unfolded k, OF \<open>hw s i k = HIdle\<close> ik(2)] by (simp only: Let_def)
  next
    case False
    then have "t = snrt_cluster_hw_barrier i k s"
      using core(1) is_dm_idx [OF dm ik] by (auto simp: snrt_global_barrier_def)
    then show ?thesis using global_inv_hw [OF inv ik] False by blast
  qed
next
  case (take i)
  then have i: "i < unat (SNRT_CLUSTER_NUM c)" by (simp add: snrt_cluster_num_def)
  have d: "dm_idx c < unat (SNRT_CLUSTER_CORE_NUM c)" using dm by (auto simp: one_dm_def wf_cfg_def)
  show ?thesis
  proof (cases "\<forall>k<unat (SNRT_CLUSTER_CORE_NUM c). hw s i k = HWait")
    case True
    then show ?thesis
      using take(1) inv i d cluster_ok_take [of _ "hw s i" "gpassed s i"]
      by (intro global_inv_upd [OF inv, where i = i])
        (auto simp: take_barrier_def snrt_cluster_core_num_def global_inv_def in_hw_def)
  next
    case False
    then have "t = s" using take(1) by (auto simp: take_barrier_def snrt_cluster_core_num_def)
    then show ?thesis using inv by simp
  qed
qed

lemma global_inv_init: "global_init c s \<Longrightarrow> global_inv c s"
  using barrier.inv_init [of "SNRT_CLUSTER_NUM c" "sw s"]
  by (auto simp: global_init_def global_inv_def snrt_cluster_num_def in_hw_def cluster_ok_def)
    (auto simp: barrier_init_def)

interpretation global: inductive_invariant "\<lambda>s. one_dm c \<and> global_init c s" "\<lambda>s t. one_dm c \<and> global_step c s t" "global_inv c"
  by unfold_locales (auto intro: global_inv_init global_inv_step)

section \<open>Properties\<close>

text \<open>
  C14: what the global barrier guarantees, on a platform with one data mover per
  cluster: a core has left its \<open>r\<close>-th global barrier only if every core of its own
  cluster has reached the hardware barrier of that round and the data mover of every
  other cluster has been counted in the software barrier of that round.
\<close>

theorem global_barrier_safe:
  assumes "one_dm c" "reachable (\<lambda>s. one_dm c \<and> global_init c s) (\<lambda>s t. one_dm c \<and> global_step c s t) s"
    and "i < unat (snrt_cluster_num c)" "k < unat (snrt_cluster_core_num c)"
  shows "(\<forall>k' < unat (snrt_cluster_core_num c). gpassed s i k \<le> gpassed s i k' + in_hw (hw s i k'))
    \<and> (\<forall>j < unat (snrt_cluster_num c). gpassed s i k
          \<le> passed (sw s) j + (if counted (bpc (sw s) j) then 1 else 0))"
proof -
  have inv: "global_inv c s" by (rule global.inv_reachable [OF assms(2)])
  have d: "dm_idx c < unat (SNRT_CLUSTER_CORE_NUM c)" using assms(1) by (auto simp: one_dm_def wf_cfg_def)
  have own: "gpassed s i k \<le> gpassed s i k' + in_hw (hw s i k')" if "k' < unat (SNRT_CLUSTER_CORE_NUM c)" for k'
    using cluster_ok_arrival [of "unat (SNRT_CLUSTER_CORE_NUM c)" "hw s i" "gpassed s i" k k'] inv assms(3,4) that
    by (simp add: global_inv_def snrt_cluster_num_def snrt_cluster_core_num_def)
  have "gpassed s i k \<le> passed (sw s) i"
    using own [OF d] inv assms(3) by (simp add: global_inv_def snrt_cluster_num_def)
  then have "gpassed s i k \<le> passed (sw s) j + (if counted (bpc (sw s) j) then 1 else 0)"
    if "j < unat (SNRT_CLUSTER_NUM c)" for j
    using barrier_arrival [of "SNRT_CLUSTER_NUM c" "sw s" i j] inv assms(3) that
    by (fastforce simp: global_inv_def snrt_cluster_num_def)
  then show ?thesis using own by (simp add: snrt_cluster_num_def snrt_cluster_core_num_def)
qed

text \<open>Two clusters of one compute core and one data mover each, and a schedule of them.\<close>

definition two_clusters :: snrt_cfg where
  "two_clusters = default_cfg\<lparr> SNRT_CLUSTER_CORE_NUM := 2, SNRT_CLUSTER_NUM := 2 \<rparr>"

datatype sched = Core nat nat | Fire nat

primrec sched_step :: "snrt_cfg \<Rightarrow> sched \<Rightarrow> gstate \<Rightarrow> gstate" where
  "sched_step c (Core i k) s = snrt_global_barrier c i k s"
| "sched_step c (Fire i) s = take_barrier c i s"

primrec sched_ok :: "snrt_cfg \<Rightarrow> sched \<Rightarrow> bool" where
  "sched_ok c (Core i k) \<longleftrightarrow> i < unat (snrt_cluster_num c) \<and> k < unat (snrt_cluster_core_num c)"
| "sched_ok c (Fire i) \<longleftrightarrow> i < unat (snrt_cluster_num c)"

definition global_run :: "snrt_cfg \<Rightarrow> sched list \<Rightarrow> gstate" where
  "global_run c es = fold (sched_step c) es
     \<lparr> sw = barrier_start, hw = (\<lambda>_ _. HIdle), gpassed = (\<lambda>_ _. 0) \<rparr>"

lemma global_run_reachable:
  assumes "one_dm c" "0 < snrt_cluster_num c" "list_all (sched_ok c) es"
  shows "reachable (\<lambda>s. one_dm c \<and> global_init c s) (\<lambda>s t. one_dm c \<and> global_step c s t) (global_run c es)"
  using assms(3)
proof (induction es rule: rev_induct)
  case Nil
  then show ?case
    using assms(1,2) by (auto simp: global_run_def global_init_def barrier_init_def barrier_start_def intro!: reach_init)
next
  case (snoc e es)
  then have "reachable (\<lambda>s. one_dm c \<and> global_init c s) (\<lambda>s t. one_dm c \<and> global_step c s t) (global_run c es)"
    by simp
  moreover have "global_step c (global_run c es) (global_run c (es @ [e]))"
    using snoc.prems by (cases e) (auto simp: global_run_def intro: global_step.intros)
  ultimately show ?case using assms(1) by (auto intro: reach_step)
qed

text \<open>The data mover of cluster 1 closes the software barrier while its compute core works.\<close>

definition escape_run :: "sched list" where
  "escape_run = [Core 0 0, Core 0 1, Core 0 1, Core 0 1, Core 1 1, Core 1 1, Core 1 1, Core 1 1, Core 1 1,
     Core 0 1, Fire 0, Core 0 0]"

lemma two_clusters_dm: "one_dm two_clusters" "0 < snrt_cluster_num two_clusters"
  by (simp_all add: one_dm_def wf_cfg_def two_clusters_def default_cfg_def snrt_cluster_num_def)

theorem global_barrier_safe_witness:
  "gpassed (global_run two_clusters escape_run) 0 0 = 1
   \<and> gpassed (global_run two_clusters escape_run) 0 0
     \<le> passed (sw (global_run two_clusters escape_run)) 1
        + (if counted (bpc (sw (global_run two_clusters escape_run)) 1) then 1 else 0)"
proof
  show "gpassed (global_run two_clusters escape_run) 0 0 = 1" by code_simp
  have "list_all (sched_ok two_clusters) escape_run" by code_simp
  note R = global_run_reachable [OF two_clusters_dm this]
  have n: "snrt_cluster_num two_clusters = 2" "snrt_cluster_core_num two_clusters = 2"
    by (simp_all add: two_clusters_def snrt_cluster_num_def snrt_cluster_core_num_def)
  show "gpassed (global_run two_clusters escape_run) 0 0
     \<le> passed (sw (global_run two_clusters escape_run)) 1
        + (if counted (bpc (sw (global_run two_clusters escape_run)) 1) then 1 else 0)"
    using global_barrier_safe [OF two_clusters_dm(1) R, of 0 0] n by simp
qed

text \<open>
  C37: what the global barrier does not guarantee. On two clusters there is an execution
  in which a compute core of cluster 0 has left the first global barrier while the compute
  core of cluster 1 has not entered it: only the data movers meet across clusters, and
  they do so before the hardware barrier of their own cluster.
\<close>

theorem global_barrier_compute_core_escapes:
  "\<exists>s. reachable (\<lambda>s. one_dm two_clusters \<and> global_init two_clusters s)
        (\<lambda>s t. one_dm two_clusters \<and> global_step two_clusters s t) s
    \<and> gpassed s 0 0 = 1 \<and> gpassed s 1 0 = 0 \<and> hw s 1 0 = HIdle
    \<and> snrt_is_compute_core two_clusters (hart_of two_clusters 1 0)"
proof (intro exI conjI)
  show "reachable (\<lambda>s. one_dm two_clusters \<and> global_init two_clusters s)
        (\<lambda>s t. one_dm two_clusters \<and> global_step two_clusters s t) (global_run two_clusters escape_run)"
    by (rule global_run_reachable [OF two_clusters_dm]) code_simp
qed code_simp+

end
