(* ===== verification/Mutex.thy ===== *)
theory Mutex
  imports Prelude
begin

text \<open>
  The spin locks of \<open>sw/snRuntime/src/sync.h\<close> (identical code in the host runtime):
  the inline assembly of acquire, test-and-test-and-set acquire and release as
  instruction lists, executed by any number of harts in any interleaving of single
  instructions. The client of the lock is the read-modify-write of a shared word,
  which is what every user of the lock in the repository does.
\<close>

section \<open>The inline assembly\<close>

text \<open>
  The instructions of the three blocks. All work on register \<open>t0\<close> and the lock word;
  \<open>AMOSWAP\<close> is \<open>amoswap.w.aq t0,t0,(lock)\<close> and \<open>AMOSWAP_X0\<close> is
  \<open>amoswap.w.rl x0,x0,(lock)\<close>. A branch names the index of its label.
\<close>

datatype lock_instr = LI u32 | LW | BNEZ nat | AMOSWAP | AMOSWAP_X0

definition snrt_mutex_acquire :: "lock_instr list" where
  "snrt_mutex_acquire = [LI 1, AMOSWAP, BNEZ 1]"

definition snrt_mutex_ttas_acquire :: "lock_instr list" where
  "snrt_mutex_ttas_acquire = [LW, BNEZ 0, LI 1, AMOSWAP, BNEZ 3]"

definition snrt_mutex_release :: "lock_instr list" where
  "snrt_mutex_release = [AMOSWAP_X0]"

text \<open>One instruction on the lock word, the register and the program counter.\<close>

fun exec_lock :: "lock_instr \<Rightarrow> u32 \<times> u32 \<times> nat \<Rightarrow> u32 \<times> u32 \<times> nat" where
  "exec_lock (LI v) (m, t, pc) = (m, v, pc + 1)"
| "exec_lock LW (m, t, pc) = (m, m, pc + 1)"
| "exec_lock (BNEZ tgt) (m, t, pc) = (m, t, if t \<noteq> 0 then tgt else pc + 1)"
| "exec_lock AMOSWAP (m, t, pc) = (t, m, pc + 1)"
| "exec_lock AMOSWAP_X0 (m, t, pc) = (0, t, pc + 1)"

section \<open>Harts that use the lock\<close>

text \<open>
  A critical section loads the word at an address and stores it back modified. A hart
  is outside, at an instruction of the acquire code, about to load, about to store
  what it computed from the loaded value, or at the release instruction.
\<close>

type_synonym rmw = "u32 \<times> (u32 \<Rightarrow> u32)"

datatype phase = Outside
  | Acquiring "lock_instr list" nat rmw
  | CsLoad rmw
  | CsStore rmw u32
  | Releasing

record mutex_state =
  mtx :: u32
  words :: "u32 \<Rightarrow> u32"
  phase :: "nat \<Rightarrow> phase"
  t0 :: "nat \<Rightarrow> u32"
  committed :: "rmw list"

definition apply_rmw :: "rmw \<Rightarrow> (u32 \<Rightarrow> u32) \<Rightarrow> (u32 \<Rightarrow> u32)" where
  "apply_rmw f ws = ws(fst f := snd f (ws (fst f)))"

definition is_acquire :: "lock_instr list \<Rightarrow> bool" where
  "is_acquire code \<longleftrightarrow> code = snrt_mutex_acquire \<or> code = snrt_mutex_ttas_acquire"

inductive mutex_step :: "nat \<Rightarrow> mutex_state \<Rightarrow> mutex_state \<Rightarrow> bool" where
  call: "phase s h = Outside \<Longrightarrow> is_acquire code \<Longrightarrow>
    mutex_step h s (s\<lparr> phase := (phase s)(h := Acquiring code 0 f) \<rparr>)"
| spin: "phase s h = Acquiring code pc f \<Longrightarrow> pc < length code \<Longrightarrow>
    exec_lock (code ! pc) (mtx s, t0 s h, pc) = (m', t', pc') \<Longrightarrow>
    mutex_step h s (s\<lparr> mtx := m', t0 := (t0 s)(h := t'),
      phase := (phase s)(h := if pc' < length code then Acquiring code pc' f else CsLoad f) \<rparr>)"
| load: "phase s h = CsLoad f \<Longrightarrow>
    mutex_step h s (s\<lparr> phase := (phase s)(h := CsStore f (words s (fst f))) \<rparr>)"
| store: "phase s h = CsStore f r \<Longrightarrow>
    mutex_step h s (s\<lparr> words := (words s)(fst f := snd f r), committed := committed s @ [f],
      phase := (phase s)(h := Releasing) \<rparr>)"
| release: "phase s h = Releasing \<Longrightarrow>
    exec_lock (snrt_mutex_release ! 0) (mtx s, t0 s h, 0) = (m', t', pc') \<Longrightarrow>
    mutex_step h s (s\<lparr> mtx := m', t0 := (t0 s)(h := t'), phase := (phase s)(h := Outside) \<rparr>)"

inductive_cases mutex_stepE: "mutex_step h s t"

definition mutex_init :: "(u32 \<Rightarrow> u32) \<Rightarrow> mutex_state \<Rightarrow> bool" where
  "mutex_init ws s \<longleftrightarrow> mtx s = 0 \<and> words s = ws \<and> (\<forall>h. phase s h = Outside) \<and> committed s = []"

definition mutex_any :: "mutex_state \<Rightarrow> mutex_state \<Rightarrow> bool" where
  "mutex_any s t \<longleftrightarrow> (\<exists>h. mutex_step h s t)"

section \<open>The invariant\<close>

definition in_section :: "phase \<Rightarrow> bool" where
  "in_section p \<longleftrightarrow> (case p of CsLoad f \<Rightarrow> True | CsStore f r \<Rightarrow> True | Releasing \<Rightarrow> True | _ \<Rightarrow> False)"

text \<open>A hart owns the lock from the swap that returned 0 to its release.\<close>

definition owner :: "phase \<Rightarrow> u32 \<Rightarrow> bool" where
  "owner p t \<longleftrightarrow> (case p of
      Acquiring code pc f \<Rightarrow> pc = length code - 1 \<and> t = 0
    | _ \<Rightarrow> in_section p)"

definition owns :: "mutex_state \<Rightarrow> nat \<Rightarrow> bool" where
  "owns s h \<longleftrightarrow> owner (phase s h) (t0 s h)"

definition lock_ok :: "u32 \<Rightarrow> (nat \<Rightarrow> bool) \<Rightarrow> bool" where
  "lock_ok m P \<longleftrightarrow> m = 0 \<and> (\<forall>h. \<not> P h) \<or> m = 1 \<and> (\<exists>!h. P h)"

definition acquiring_ok :: "phase \<Rightarrow> u32 \<Rightarrow> bool" where
  "acquiring_ok p t \<longleftrightarrow> (case p of
      Acquiring code pc f \<Rightarrow> is_acquire code \<and> pc < length code
        \<and> (pc = length code - 2 \<longrightarrow> t = 1) \<and> (pc = length code - 1 \<longrightarrow> t = 0 \<or> t = 1)
    | _ \<Rightarrow> True)"

definition store_ok :: "(u32 \<Rightarrow> u32) \<Rightarrow> phase \<Rightarrow> bool" where
  "store_ok ws p \<longleftrightarrow> (case p of CsStore f r \<Rightarrow> r = ws (fst f) | _ \<Rightarrow> True)"

definition mutex_inv :: "(u32 \<Rightarrow> u32) \<Rightarrow> mutex_state \<Rightarrow> bool" where
  "mutex_inv ws s \<longleftrightarrow> lock_ok (mtx s) (owns s)
     \<and> (\<forall>h. acquiring_ok (phase s h) (t0 s h))
     \<and> (\<forall>h. store_ok (words s) (phase s h))
     \<and> words s = fold apply_rmw (committed s) ws"

lemmas phase_defs = owner_def in_section_def acquiring_ok_def store_ok_def

lemma lock_ok_unique: "lock_ok m P \<Longrightarrow> P h \<Longrightarrow> P k \<Longrightarrow> h = k"
  by (auto simp: lock_ok_def)

text \<open>How a step of one hart moves the ownership.\<close>

lemma lock_ok_same:
  "lock_ok m P \<Longrightarrow> (\<And>k. k \<noteq> h \<Longrightarrow> Q k = P k) \<Longrightarrow> Q h = P h \<Longrightarrow> lock_ok m Q"
  unfolding lock_ok_def by metis

lemma lock_ok_take:
  "lock_ok 0 P \<Longrightarrow> (\<And>k. k \<noteq> h \<Longrightarrow> Q k = P k) \<Longrightarrow> Q h \<Longrightarrow> lock_ok 1 Q"
  unfolding lock_ok_def by (metis zero_neq_one)

lemma lock_ok_drop:
  "lock_ok m P \<Longrightarrow> (\<And>k. k \<noteq> h \<Longrightarrow> Q k = P k) \<Longrightarrow> P h \<Longrightarrow> \<not> Q h \<Longrightarrow> lock_ok 0 Q"
  unfolding lock_ok_def by metis

text \<open>The acquire codes, instruction by instruction.\<close>

lemma acquire_cases:
  assumes "is_acquire code" "pc < length code"
  obtains "code = snrt_mutex_acquire" "pc = 0" | "code = snrt_mutex_acquire" "pc = 1"
    | "code = snrt_mutex_acquire" "pc = 2" | "code = snrt_mutex_ttas_acquire" "pc = 0"
    | "code = snrt_mutex_ttas_acquire" "pc = 1" | "code = snrt_mutex_ttas_acquire" "pc = 2"
    | "code = snrt_mutex_ttas_acquire" "pc = 3" | "code = snrt_mutex_ttas_acquire" "pc = 4"
proof -
  have "pc = 0 \<or> pc = 1 \<or> pc = 2 \<or> code = snrt_mutex_ttas_acquire \<and> (pc = 3 \<or> pc = 4)"
    using assms by (auto simp: is_acquire_def snrt_mutex_acquire_def snrt_mutex_ttas_acquire_def)
  then show thesis
    using assms(1) that by (auto simp: is_acquire_def)
qed

definition after_spin :: "lock_instr list \<Rightarrow> nat \<Rightarrow> rmw \<Rightarrow> phase" where
  "after_spin code pc f = (if pc < length code then Acquiring code pc f else CsLoad f)"

lemma exec_acquire_step:
  assumes "acquiring_ok (Acquiring code pc f) t" "m = 0 \<or> m = 1"
    "exec_lock (code ! pc) (m, t, pc) = (m', t', pc')"
  shows "acquiring_ok (after_spin code pc' f) t'"
    and "m' = m \<and> owner (after_spin code pc' f) t' = owner (Acquiring code pc f) t
      \<or> m = 0 \<and> m' = 1 \<and> \<not> owner (Acquiring code pc f) t \<and> owner (after_spin code pc' f) t'"
proof -
  have "is_acquire code" "pc < length code" using assms(1) by (simp_all add: acquiring_ok_def)
  then have "acquiring_ok (after_spin code pc' f) t' \<and> (m' = m \<and> owner (after_spin code pc' f) t' = owner (Acquiring code pc f) t
      \<or> m = 0 \<and> m' = 1 \<and> \<not> owner (Acquiring code pc f) t \<and> owner (after_spin code pc' f) t')"
    by (cases rule: acquire_cases; use assms in
        \<open>auto simp: snrt_mutex_acquire_def snrt_mutex_ttas_acquire_def after_spin_def phase_defs
          is_acquire_def split: if_splits\<close>)
  then show "acquiring_ok (after_spin code pc' f) t'"
    and "m' = m \<and> owner (after_spin code pc' f) t' = owner (Acquiring code pc f) t
      \<or> m = 0 \<and> m' = 1 \<and> \<not> owner (Acquiring code pc f) t \<and> owner (after_spin code pc' f) t'"
    by blast+
qed

text \<open>Every kind of step keeps the invariant.\<close>

lemma mutex_inv_local:
  assumes "mutex_inv ws s" "words t = words s" "committed t = committed s"
    and "\<And>k. k \<noteq> h \<Longrightarrow> phase t k = phase s k \<and> t0 t k = t0 s k"
    and "lock_ok (mtx t) (owns t)" "acquiring_ok (phase t h) (t0 t h)" "store_ok (words s) (phase t h)"
  shows "mutex_inv ws t"
proof -
  have "acquiring_ok (phase s k) (t0 s k)" "store_ok (words s) (phase s k)" for k
    using assms(1) by (auto simp: mutex_inv_def)
  then have "acquiring_ok (phase t k) (t0 t k) \<and> store_ok (words t) (phase t k)" for k
    using assms(2,4,6,7) by (cases "k = h") simp_all
  then show ?thesis using assms(1,2,3,5) by (simp add: mutex_inv_def)
qed

lemma mutex_inv_lock: "mutex_inv ws s \<Longrightarrow> lock_ok (mtx s) (owns s)"
  by (simp add: mutex_inv_def)

lemma mutex_inv_call:
  assumes "mutex_inv ws s" "phase s h = Outside" "is_acquire code"
  shows "mutex_inv ws (s\<lparr> phase := (phase s)(h := Acquiring code 0 f) \<rparr>)"
proof (rule mutex_inv_local [OF assms(1), where h = h])
  have len: "2 < length code"
    using assms(3) by (auto simp: is_acquire_def snrt_mutex_acquire_def snrt_mutex_ttas_acquire_def)
  show "lock_ok (mtx (s\<lparr> phase := (phase s)(h := Acquiring code 0 f) \<rparr>))
      (owns (s\<lparr> phase := (phase s)(h := Acquiring code 0 f) \<rparr>))"
    using mutex_inv_lock [OF assms(1)] len assms(2)
    by (auto simp: owns_def phase_defs elim!: lock_ok_same [where h = h])
qed (use assms in \<open>auto simp: phase_defs is_acquire_def snrt_mutex_acquire_def snrt_mutex_ttas_acquire_def\<close>)

lemma mutex_inv_spin:
  assumes inv: "mutex_inv ws s" and ph: "phase s h = Acquiring code pc f"
    and ex: "exec_lock (code ! pc) (mtx s, t0 s h, pc) = (m', t', pc')"
  shows "mutex_inv ws (s\<lparr> mtx := m', t0 := (t0 s)(h := t'), phase := (phase s)(h := after_spin code pc' f) \<rparr>)"
    (is "mutex_inv ws ?t")
proof -
  have ok: "acquiring_ok (Acquiring code pc f) (t0 s h)" and lk: "lock_ok (mtx s) (owns s)"
    using inv ph by (auto simp: mutex_inv_def dest: spec [of _ h])
  then have m: "mtx s = 0 \<or> mtx s = 1" by (auto simp: lock_ok_def)
  note E = exec_acquire_step [OF ok m ex]
  have oth: "owns ?t k = owns s k" if "k \<noteq> h" for k using that by (simp add: owns_def)
  have "lock_ok m' (owns ?t)"
    using E(2)
  proof (elim disjE conjE)
    assume "m' = mtx s" "owner (after_spin code pc' f) t' = owner (Acquiring code pc f) (t0 s h)"
    then show ?thesis using lk oth ph by (auto simp: owns_def intro: lock_ok_same [where h = h and P = "owns s"])
  next
    assume "mtx s = 0" "m' = 1" "owner (after_spin code pc' f) t'"
    then show ?thesis using lk oth by (auto simp: owns_def intro: lock_ok_take [where h = h and P = "owns s"])
  qed
  then show ?thesis
    using E(1) by (intro mutex_inv_local [OF inv, where h = h]) (auto simp: store_ok_def after_spin_def)
qed

lemma mutex_inv_load:
  assumes "mutex_inv ws s" "phase s h = CsLoad f"
  shows "mutex_inv ws (s\<lparr> phase := (phase s)(h := CsStore f (words s (fst f))) \<rparr>)" (is "mutex_inv ws ?t")
proof (rule mutex_inv_local [OF assms(1), where h = h])
  show "lock_ok (mtx ?t) (owns ?t)"
    using mutex_inv_lock [OF assms(1)] assms(2)
    by (auto simp: owns_def phase_defs elim!: lock_ok_same [where h = h])
qed (auto simp: phase_defs)

lemma mutex_inv_store:
  assumes inv: "mutex_inv ws s" and ph: "phase s h = CsStore f r"
  shows "mutex_inv ws (s\<lparr> words := (words s)(fst f := snd f r), committed := committed s @ [f],
    phase := (phase s)(h := Releasing) \<rparr>)" (is "mutex_inv ws ?t")
proof -
  have own: "owns s h" and lk: "lock_ok (mtx s) (owns s)" and r: "r = words s (fst f)"
    using inv ph by (auto simp: mutex_inv_def owns_def phase_defs dest: spec [of _ h])
  have "store_ok ws' (phase s k)" if "k \<noteq> h" for k ws'
  proof -
    have "\<not> owns s k" using lock_ok_unique [OF lk own] that by blast
    then show ?thesis by (auto simp: owns_def phase_defs split: phase.splits)
  qed
  moreover have "lock_ok (mtx s) (owns ?t)"
    using lk ph by (auto simp: owns_def phase_defs elim!: lock_ok_same [where h = h])
  ultimately show ?thesis
    using inv r by (auto simp: mutex_inv_def apply_rmw_def acquiring_ok_def store_ok_def)
qed

lemma mutex_inv_release:
  assumes "mutex_inv ws s" "phase s h = Releasing"
  shows "mutex_inv ws (s\<lparr> mtx := 0, t0 := (t0 s)(h := t'), phase := (phase s)(h := Outside) \<rparr>)"
    (is "mutex_inv ws ?t")
proof (rule mutex_inv_local [OF assms(1), where h = h])
  have "owns s h" using assms(2) by (simp add: owns_def phase_defs)
  then show "lock_ok (mtx ?t) (owns ?t)"
    using lock_ok_drop [OF mutex_inv_lock [OF assms(1)], of h "owns ?t"]
    by (simp add: owns_def phase_defs)
qed (auto simp: phase_defs)

lemma mutex_inv_step: "mutex_inv ws s \<Longrightarrow> mutex_step h s t \<Longrightarrow> mutex_inv ws t"
  by (erule mutex_stepE)
    (auto simp: snrt_mutex_release_def mutex_inv_call mutex_inv_load mutex_inv_store mutex_inv_release
      intro: mutex_inv_spin simp flip: after_spin_def)

interpretation mutex: inductive_invariant "mutex_init ws" mutex_any "mutex_inv ws"
proof
  show "mutex_init ws s \<Longrightarrow> mutex_inv ws s" for s
    by (simp add: mutex_init_def mutex_inv_def owns_def phase_defs lock_ok_def)
qed (auto simp: mutex_any_def intro: mutex_inv_step)

section \<open>Progress\<close>

text \<open>A hart running alone for at most \<open>n\<close> instructions of its acquire code.\<close>

fun solo :: "nat \<Rightarrow> lock_instr list \<Rightarrow> u32 \<times> u32 \<times> nat \<Rightarrow> u32 \<times> u32 \<times> nat" where
  "solo 0 code c = c"
| "solo (Suc n) code (m, t, pc) =
    (if pc < length code then solo n code (exec_lock (code ! pc) (m, t, pc)) else (m, t, pc))"

lemma mutex_any_spin:
  assumes "phase s h = Acquiring code pc f" "pc < length code"
    "exec_lock (code ! pc) (mtx s, t0 s h, pc) = (m', t', pc')"
  shows "mutex_any s (s\<lparr> mtx := m', t0 := (t0 s)(h := t'), phase := (phase s)(h := after_spin code pc' f) \<rparr>)"
  using mutex_step.spin [OF assms] by (auto simp: mutex_any_def after_spin_def)

lemma solo_steps:
  assumes "phase s h = after_spin code pc f" "solo n code (mtx s, t0 s h, pc) = (m', t', length code)"
  shows "\<exists>t. mutex_any\<^sup>*\<^sup>* s t \<and> phase t h = CsLoad f"
  using assms
proof (induction n arbitrary: s pc)
  case 0
  then show ?case by (auto simp: after_spin_def)
next
  case (Suc n)
  show ?case
  proof (cases "pc < length code")
    case True
    obtain m1 t1 p1 where ex: "exec_lock (code ! pc) (mtx s, t0 s h, pc) = (m1, t1, p1)"
      by (cases "exec_lock (code ! pc) (mtx s, t0 s h, pc)") auto
    let ?u = "s\<lparr> mtx := m1, t0 := (t0 s)(h := t1), phase := (phase s)(h := after_spin code p1 f) \<rparr>"
    have "mutex_any s ?u"
      using Suc.prems True ex by (intro mutex_any_spin) (auto simp: after_spin_def)
    moreover have "\<exists>t. mutex_any\<^sup>*\<^sup>* ?u t \<and> phase t h = CsLoad f"
      using Suc.prems True ex by (intro Suc.IH [of ?u p1]) auto
    ultimately show ?thesis by (meson converse_rtranclp_into_rtranclp)
  next
    case False
    then show ?thesis using Suc.prems by (auto simp: after_spin_def)
  qed
qed

lemma acquire_solo:
  assumes "mutex_inv ws s" "mtx s = 0" "phase s h = Acquiring code pc f"
  shows "\<exists>t. mutex_any\<^sup>*\<^sup>* s t \<and> phase t h = CsLoad f"
proof -
  have ok: "acquiring_ok (Acquiring code pc f) (t0 s h)" and "\<not> owner (Acquiring code pc f) (t0 s h)"
    using assms by (auto simp: mutex_inv_def lock_ok_def owns_def dest: spec [of _ h])
  then have "is_acquire code" "pc < length code" "pc = length code - 1 \<longrightarrow> t0 s h = 1"
    "pc = length code - 2 \<longrightarrow> t0 s h = 1"
    by (auto simp: phase_defs)
  then have "snd (snd (solo 8 code (0, t0 s h, pc))) = length code"
    by (cases rule: acquire_cases)
      (auto simp: snrt_mutex_acquire_def snrt_mutex_ttas_acquire_def numeral_eq_Suc)
  then show ?thesis
    using solo_steps [of s h code pc f 8] assms \<open>pc < length code\<close>
    by (cases "solo 8 code (0, t0 s h, pc)") (simp add: after_spin_def)
qed

lemma acquire_alone:
  assumes "mutex_inv ws s" "phase s h = Acquiring code pc f" "\<not> (\<exists>k. k \<noteq> h \<and> owns s k)"
  shows "\<exists>t. mutex_any\<^sup>*\<^sup>* s t \<and> phase t h = CsLoad f"
proof (cases "owns s h")
  case True
  then have ac: "is_acquire code" "pc = length code - 1" "pc < length code" "t0 s h = 0"
    using assms(1,2) by (auto simp: mutex_inv_def owns_def phase_defs dest: spec [of _ h])
  then have "solo 1 code (mtx s, t0 s h, pc) = (mtx s, 0, length code)"
    by (auto simp: is_acquire_def snrt_mutex_acquire_def snrt_mutex_ttas_acquire_def)
  then show ?thesis using solo_steps [of s h code pc f 1] assms(2) ac(3) by (simp add: after_spin_def)
next
  case False
  then have "\<forall>k. \<not> owns s k" using assms(3) by metis
  then have "mtx s = 0" using assms(1) by (auto simp: mutex_inv_def lock_ok_def)
  then show ?thesis using acquire_solo assms by blast
qed

text \<open>The rest of a critical section runs to the release whatever the others do.\<close>

definition frees :: "nat \<Rightarrow> mutex_state \<Rightarrow> bool" where
  "frees k s \<longleftrightarrow> (\<exists>t. mutex_any\<^sup>*\<^sup>* s t \<and> mtx t = 0 \<and> (\<forall>j. j \<noteq> k \<longrightarrow> phase t j = phase s j))"

lemma frees_step:
  assumes "mutex_any s u" "\<And>j. j \<noteq> k \<Longrightarrow> phase u j = phase s j" "frees k u"
  shows "frees k s"
  using assms unfolding frees_def by (metis converse_rtranclp_into_rtranclp)

lemma frees_releasing:
  assumes "phase s k = Releasing"
  shows "frees k s"
proof -
  let ?u = "s\<lparr> mtx := 0, t0 := (t0 s)(k := t0 s k), phase := (phase s)(k := Outside) \<rparr>"
  have "mutex_any s ?u"
    using mutex_step.release [OF assms, of 0 "t0 s k" 1]
    by (auto simp: mutex_any_def snrt_mutex_release_def)
  then show ?thesis
    unfolding frees_def by (intro exI [of _ ?u]) (simp add: r_into_rtranclp)
qed

lemma frees_store:
  assumes "phase s k = CsStore f r"
  shows "frees k s"
  by (rule frees_step [where u = "s\<lparr> words := (words s)(fst f := snd f r), committed := committed s @ [f],
      phase := (phase s)(k := Releasing) \<rparr>"])
    (use mutex_step.store [OF assms] in \<open>auto simp: mutex_any_def intro: frees_releasing\<close>)

lemma frees_load:
  assumes "phase s k = CsLoad f"
  shows "frees k s"
  by (rule frees_step [where u = "s\<lparr> phase := (phase s)(k := CsStore f (words s (fst f))) \<rparr>"])
    (use mutex_step.load [OF assms] in \<open>auto simp: mutex_any_def intro: frees_store\<close>)

lemma frees_owner:
  assumes inv: "mutex_inv ws s" and own: "owns s k"
  shows "frees k s"
proof (cases "phase s k")
  case (Acquiring code pc f)
  have ac: "is_acquire code" "pc = length code - 1" "pc < length code" "t0 s k = 0"
    using inv own Acquiring by (auto simp: mutex_inv_def owns_def phase_defs dest: spec [of _ k])
  then have ex: "exec_lock (code ! pc) (mtx s, t0 s k, pc) = (mtx s, 0, length code)"
    by (auto simp: is_acquire_def snrt_mutex_acquire_def snrt_mutex_ttas_acquire_def)
  show ?thesis
    by (rule frees_step [OF mutex_any_spin [OF Acquiring ac(3) ex]])
      (auto simp: after_spin_def intro: frees_load)
qed (use own in \<open>auto simp: owns_def phase_defs intro: frees_load frees_store frees_releasing\<close>)

section \<open>Properties\<close>

text \<open>The next step of a hart as a function, to run concrete schedules.\<close>

definition mutex_next :: "lock_instr list \<Rightarrow> rmw \<Rightarrow> nat \<Rightarrow> mutex_state \<Rightarrow> mutex_state" where
  "mutex_next acq g h s = (case phase s h of
      Outside \<Rightarrow> s\<lparr> phase := (phase s)(h := Acquiring acq 0 g) \<rparr>
    | Acquiring code pc f \<Rightarrow> (case exec_lock (code ! pc) (mtx s, t0 s h, pc) of (m', t', pc') \<Rightarrow>
        s\<lparr> mtx := m', t0 := (t0 s)(h := t'), phase := (phase s)(h := after_spin code pc' f) \<rparr>)
    | CsLoad f \<Rightarrow> s\<lparr> phase := (phase s)(h := CsStore f (words s (fst f))) \<rparr>
    | CsStore f r \<Rightarrow> s\<lparr> words := (words s)(fst f := snd f r), committed := committed s @ [f],
        phase := (phase s)(h := Releasing) \<rparr>
    | Releasing \<Rightarrow> (case exec_lock (snrt_mutex_release ! 0) (mtx s, t0 s h, 0) of (m', t', pc') \<Rightarrow>
        s\<lparr> mtx := m', t0 := (t0 s)(h := t'), phase := (phase s)(h := Outside) \<rparr>))"

lemma mutex_next_reachable:
  assumes "reachable (mutex_init ws) mutex_any s" "is_acquire acq"
  shows "reachable (mutex_init ws) mutex_any (mutex_next acq g h s)"
proof (rule reach_step [OF assms(1)])
  have ok: "acquiring_ok (phase s h) (t0 s h)"
    using mutex.inv_reachable [OF assms(1)] by (simp add: mutex_inv_def)
  show "mutex_any s (mutex_next acq g h s)"
  proof (cases "phase s h")
    case (Acquiring code pc f)
    then show ?thesis
      using ok mutex_any_spin [OF Acquiring]
      by (simp add: mutex_next_def acquiring_ok_def split: prod.splits)
  qed (use assms(2) in \<open>auto simp: mutex_next_def mutex_any_def split: prod.splits intro!: exI [of _ h] mutex_step.intros\<close>)
qed

definition mutex_run :: "(lock_instr list \<times> rmw \<times> nat) list \<Rightarrow> mutex_state" where
  "mutex_run es = fold (\<lambda>(acq, g, h). mutex_next acq g h) es
     \<lparr> mtx = 0, words = (\<lambda>_. 0), phase = (\<lambda>_. Outside), t0 = (\<lambda>_. 7), committed = [] \<rparr>"

lemma mutex_run_reachable:
  assumes "list_all (\<lambda>(acq, g, h). is_acquire acq) es"
  shows "reachable (mutex_init (\<lambda>_. 0)) mutex_any (mutex_run es)"
  using assms
proof (induction es rule: rev_induct)
  case Nil
  then show ?case by (auto simp: mutex_run_def mutex_init_def intro!: reach_init)
next
  case (snoc e es)
  then show ?case
    using mutex_next_reachable [of "\<lambda>_. 0" "mutex_run es"] by (cases e) (simp add: mutex_run_def)
qed

definition demo_bit :: rmw where
  "demo_bit = (4, \<lambda>v. v OR 2)"

text \<open>Hart 3 takes the lock and sits in its critical section while hart 5 spins.\<close>

definition demo_sched :: "(lock_instr list \<times> rmw \<times> nat) list" where
  "demo_sched = map (\<lambda>h. (snrt_mutex_acquire, demo_bit, h)) [3, 3, 5, 3, 5, 3, 5, 5, 5, 3]"

lemma demo_reachable: "reachable (mutex_init (\<lambda>_. 0)) mutex_any (mutex_run demo_sched)"
  by (rule mutex_run_reachable) (simp add: demo_sched_def is_acquire_def)

text \<open>
  C1: mutual exclusion and atomicity. Under every interleaving of the acquire,
  test-and-test-and-set and release code by any number of harts, at most one hart is
  between its acquire and its release, and the shared words are always the result of
  the completed read-modify-write operations applied one after the other: none is lost.
\<close>

theorem mutex_exclusion_atomicity:
  assumes "reachable (mutex_init ws) mutex_any s"
  shows "(\<forall>h k. in_section (phase s h) \<and> in_section (phase s k) \<longrightarrow> h = k)
    \<and> words s = fold apply_rmw (committed s) ws"
proof -
  have inv: "mutex_inv ws s" by (rule mutex.inv_reachable [OF assms])
  have "in_section (phase s h) \<Longrightarrow> owns s h" for h
    by (auto simp: owns_def phase_defs split: phase.splits)
  then show ?thesis
    using lock_ok_unique [OF mutex_inv_lock [OF inv]] inv by (auto simp: mutex_inv_def)
qed

theorem mutex_exclusion_atomicity_witness:
  "in_section (phase (mutex_run demo_sched) 3) \<and> \<not> in_section (phase (mutex_run demo_sched) 5)
    \<and> words (mutex_run demo_sched) = fold apply_rmw (committed (mutex_run demo_sched)) (\<lambda>_. 0)"
proof -
  have "in_section (phase (mutex_run demo_sched) 3)" by code_simp
  then show ?thesis using mutex_exclusion_atomicity [OF demo_reachable] by fastforce
qed

text \<open>
  C32: no deadlock. From every reachable state, whichever hart is waiting in an acquire
  can still be brought into its critical section: the current owner can always finish,
  and then the waiting hart wins after a bounded number of its own instructions.
\<close>

theorem mutex_progress:
  assumes "reachable (mutex_init ws) mutex_any s" "phase s h = Acquiring code pc f"
  shows "\<exists>t. mutex_any\<^sup>*\<^sup>* s t \<and> phase t h = CsLoad f"
proof -
  have inv: "mutex_inv ws s" by (rule mutex.inv_reachable [OF assms(1)])
  show ?thesis
  proof (cases "\<exists>k. k \<noteq> h \<and> owns s k")
    case True
    then obtain k where k: "k \<noteq> h" "owns s k" by blast
    then obtain t where t: "mutex_any\<^sup>*\<^sup>* s t" "mtx t = 0" "phase t h = Acquiring code pc f"
      using frees_owner [OF inv k(2)] assms(2) by (auto simp: frees_def)
    then show ?thesis
      using acquire_solo [of ws t h] mutex.inv_star [OF t(1) inv] by (meson rtranclp_trans)
  next
    case False
    then show ?thesis
      using acquire_alone [OF inv assms(2)] by blast
  qed
qed

theorem mutex_progress_witness:
  "\<exists>t. mutex_any\<^sup>*\<^sup>* (mutex_run demo_sched) t \<and> phase t 5 = CsLoad demo_bit"
proof (rule mutex_progress [OF demo_reachable])
  show "phase (mutex_run demo_sched) 5 = Acquiring snrt_mutex_acquire 2 demo_bit"
    by (simp add: mutex_run_def demo_sched_def mutex_next_def snrt_mutex_acquire_def after_spin_def)
qed

end
