(* ===== verification/Occamy_Map.thy ===== *)
theory Occamy_Map
  imports Prelude
begin

text \<open>
  The address computations of \<open>hw/system/occamy/sw/shared/platform/occamy_memory_map.h\<close>,
  shared by the 64-bit host and the 32-bit device runtime: the address type is a word
  of any width and the generated base addresses are the fields of a record.
\<close>

section \<open>Generated constants\<close>

record occamy_cfg =
  CLINT_BASE_ADDR :: u64
  CLINT_MSIP_0_REG_OFFSET :: u64
  CLINT_MSIP_P_FIELDS_PER_REG :: u32
  CLINT_MSIP_P_FIELD_WIDTH :: u32
  SOC_CTRL_BASE_ADDR :: u64
  OCCAMY_SOC_SCRATCH_0_REG_OFFSET :: u64
  OCCAMY_SOC_SCRATCH_FIELDS_PER_REG :: u32
  QUADRANT_0_CLUSTER_0_TCDM_BASE_ADDR :: u64
  QUADRANT_0_CLUSTER_0_PERIPH_BASE_ADDR :: u64
  CL_CLINT_SET_REG_OFFSET :: u64
  CL_CLINT_CLEAR_REG_OFFSET :: u64
  HW_BARRIER_REG_OFFSET :: u64
  QUAD_0_CFG_BASE_ADDR :: u64
  QUAD_RESET_N_REG_OFFSET :: u64
  QUAD_CLK_ENA_REG_OFFSET :: u64
  QUAD_ISOLATE_REG_OFFSET :: u64
  QUAD_ISOLATED_REG_OFFSET :: u64
  QUAD_RO_CACHE_ENABLE_REG_OFFSET :: u64
  QUAD_RO_START_ADDR_LOW_0_REG_OFFSET :: u64

section \<open>Base addresses\<close>

definition clint_msip_base :: "occamy_cfg \<Rightarrow> 'a::len word" where
  "clint_msip_base oc = ucast (CLINT_BASE_ADDR oc + CLINT_MSIP_0_REG_OFFSET oc)"

definition soc_ctrl_scratch_base :: "occamy_cfg \<Rightarrow> 'a::len word" where
  "soc_ctrl_scratch_base oc = ucast (SOC_CTRL_BASE_ADDR oc + OCCAMY_SOC_SCRATCH_0_REG_OFFSET oc)"

definition cluster_clint_set_base :: "occamy_cfg \<Rightarrow> 'a::len word" where
  "cluster_clint_set_base oc = ucast (QUADRANT_0_CLUSTER_0_PERIPH_BASE_ADDR oc + CL_CLINT_SET_REG_OFFSET oc)"

definition cluster_clint_clr_base :: "occamy_cfg \<Rightarrow> 'a::len word" where
  "cluster_clint_clr_base oc = ucast (QUADRANT_0_CLUSTER_0_PERIPH_BASE_ADDR oc + CL_CLINT_CLEAR_REG_OFFSET oc)"

definition cluster_hw_barrier_base :: "occamy_cfg \<Rightarrow> 'a::len word" where
  "cluster_hw_barrier_base oc = ucast (QUADRANT_0_CLUSTER_0_PERIPH_BASE_ADDR oc + HW_BARRIER_REG_OFFSET oc)"

definition quad_cfg_reset_n_base :: "occamy_cfg \<Rightarrow> 'a::len word" where
  "quad_cfg_reset_n_base oc = ucast (QUAD_0_CFG_BASE_ADDR oc + QUAD_RESET_N_REG_OFFSET oc)"

definition quad_cfg_clk_ena_base :: "occamy_cfg \<Rightarrow> 'a::len word" where
  "quad_cfg_clk_ena_base oc = ucast (QUAD_0_CFG_BASE_ADDR oc + QUAD_CLK_ENA_REG_OFFSET oc)"

definition quad_cfg_isolate_base :: "occamy_cfg \<Rightarrow> 'a::len word" where
  "quad_cfg_isolate_base oc = ucast (QUAD_0_CFG_BASE_ADDR oc + QUAD_ISOLATE_REG_OFFSET oc)"

definition quad_cfg_isolated_base :: "occamy_cfg \<Rightarrow> 'a::len word" where
  "quad_cfg_isolated_base oc = ucast (QUAD_0_CFG_BASE_ADDR oc + QUAD_ISOLATED_REG_OFFSET oc)"

definition quad_cfg_ro_cache_enable_base :: "occamy_cfg \<Rightarrow> 'a::len word" where
  "quad_cfg_ro_cache_enable_base oc = ucast (QUAD_0_CFG_BASE_ADDR oc + QUAD_RO_CACHE_ENABLE_REG_OFFSET oc)"

definition quad_cfg_ro_cache_addr_rule_base :: "occamy_cfg \<Rightarrow> 'a::len word" where
  "quad_cfg_ro_cache_addr_rule_base oc = ucast (QUAD_0_CFG_BASE_ADDR oc + QUAD_RO_START_ADDR_LOW_0_REG_OFFSET oc)"

section \<open>Replicated address spaces\<close>

definition cluster_offset :: u32 where
  "cluster_offset = 0x40000"

definition quadrant_cfg_offset :: u32 where
  "quadrant_cfg_offset = 0x10000"

text \<open>The product is a 32-bit product on both sides; only the sum has the address width.\<close>

definition translate_address :: "'a::len word \<Rightarrow> u32 \<Rightarrow> u32 \<Rightarrow> 'a word" where
  "translate_address address inst off = address + ucast (inst * off)"

definition translate_cluster_address :: "'a::len word \<Rightarrow> u32 \<Rightarrow> 'a word" where
  "translate_cluster_address address cluster_idx = translate_address address cluster_idx cluster_offset"

definition translate_quadrant_cfg_address :: "'a::len word \<Rightarrow> u32 \<Rightarrow> 'a word" where
  "translate_quadrant_cfg_address address quadrant_idx = translate_address address quadrant_idx quadrant_cfg_offset"

section \<open>Derived addresses\<close>

definition cluster_clint_clr_addr :: "occamy_cfg \<Rightarrow> u32 \<Rightarrow> 'a::len word" where
  "cluster_clint_clr_addr oc i = translate_cluster_address (cluster_clint_clr_base oc) i"

definition cluster_clint_set_addr :: "occamy_cfg \<Rightarrow> u32 \<Rightarrow> 'a::len word" where
  "cluster_clint_set_addr oc i = translate_cluster_address (cluster_clint_set_base oc) i"

definition cluster_tcdm_start_addr :: "occamy_cfg \<Rightarrow> u32 \<Rightarrow> 'a::len word" where
  "cluster_tcdm_start_addr oc i = translate_cluster_address (ucast (QUADRANT_0_CLUSTER_0_TCDM_BASE_ADDR oc)) i"

definition cluster_tcdm_end_addr :: "occamy_cfg \<Rightarrow> u32 \<Rightarrow> 'a::len word" where
  "cluster_tcdm_end_addr oc i = translate_cluster_address (ucast (QUADRANT_0_CLUSTER_0_PERIPH_BASE_ADDR oc)) i"

definition cluster_hw_barrier_addr :: "occamy_cfg \<Rightarrow> u32 \<Rightarrow> 'a::len word" where
  "cluster_hw_barrier_addr oc i = translate_cluster_address (cluster_hw_barrier_base oc) i"

definition quad_cfg_reset_n_addr :: "occamy_cfg \<Rightarrow> u32 \<Rightarrow> 'a::len word" where
  "quad_cfg_reset_n_addr oc q = translate_quadrant_cfg_address (quad_cfg_reset_n_base oc) q"

definition quad_cfg_clk_ena_addr :: "occamy_cfg \<Rightarrow> u32 \<Rightarrow> 'a::len word" where
  "quad_cfg_clk_ena_addr oc q = translate_quadrant_cfg_address (quad_cfg_clk_ena_base oc) q"

definition quad_cfg_isolate_addr :: "occamy_cfg \<Rightarrow> u32 \<Rightarrow> 'a::len word" where
  "quad_cfg_isolate_addr oc q = translate_quadrant_cfg_address (quad_cfg_isolate_base oc) q"

definition quad_cfg_isolated_addr :: "occamy_cfg \<Rightarrow> u32 \<Rightarrow> 'a::len word" where
  "quad_cfg_isolated_addr oc q = translate_quadrant_cfg_address (quad_cfg_isolated_base oc) q"

definition quad_cfg_ro_cache_enable_addr :: "occamy_cfg \<Rightarrow> u32 \<Rightarrow> 'a::len word" where
  "quad_cfg_ro_cache_enable_addr oc q = translate_quadrant_cfg_address (quad_cfg_ro_cache_enable_base oc) q"

definition quad_cfg_ro_cache_addr_rule_addr :: "occamy_cfg \<Rightarrow> u32 \<Rightarrow> 'a::len word" where
  "quad_cfg_ro_cache_addr_rule_addr oc q = translate_quadrant_cfg_address (quad_cfg_ro_cache_addr_rule_base oc) q"

definition soc_ctrl_scratch_addr :: "occamy_cfg \<Rightarrow> u32 \<Rightarrow> 'a::len word" where
  "soc_ctrl_scratch_addr oc reg_idx = soc_ctrl_scratch_base oc
     + ucast (reg_idx div OCCAMY_SOC_SCRATCH_FIELDS_PER_REG oc * 4)"

definition clint_msip_addr :: "occamy_cfg \<Rightarrow> u32 \<Rightarrow> 'a::len word" where
  "clint_msip_addr oc hartid = clint_msip_base oc + ucast (hartid div CLINT_MSIP_P_FIELDS_PER_REG oc * 4)"

text \<open>A rule is a pair of 64-bit registers, hence the pointer arithmetic on 8-byte elements.\<close>

definition quad_cfg_ro_cache_addr_rule_ptr :: "occamy_cfg \<Rightarrow> u32 \<Rightarrow> u32 \<Rightarrow> 'a::len word" where
  "quad_cfg_ro_cache_addr_rule_ptr oc q rule_idx = quad_cfg_ro_cache_addr_rule_addr oc q + 8 * ucast (2 * rule_idx)"

text \<open>
  \<open>heterogeneous_runtime.h\<close>: the read-only cache rule of a quadrant, a store of two
  64-bit registers, and the enable bit.
\<close>

definition configure_read_only_cache_addr_rule ::
    "occamy_cfg \<Rightarrow> ('a::len word \<Rightarrow> u64) \<Rightarrow> u32 \<Rightarrow> u32 \<Rightarrow> u64 \<Rightarrow> u64 \<Rightarrow> ('a word \<Rightarrow> u64)" where
  "configure_read_only_cache_addr_rule oc rs q rule_idx start_addr end_addr =
    (let rule_ptr = quad_cfg_ro_cache_addr_rule_ptr oc q rule_idx
     in rs(rule_ptr := start_addr, rule_ptr + 8 := end_addr))"

definition enable_read_only_cache :: "occamy_cfg \<Rightarrow> ('a::len word \<Rightarrow> u32) \<Rightarrow> u32 \<Rightarrow> ('a word \<Rightarrow> u32)" where
  "enable_read_only_cache oc rs q = rs(quad_cfg_ro_cache_enable_addr oc q := 1)"

section \<open>Lemmas\<close>

lemma ucast_up_inj:
  assumes "LENGTH('b::len) \<le> LENGTH('a::len)" "(ucast (x :: 'b word) :: 'a word) = ucast y"
  shows "x = y"
proof (rule bit_word_eqI)
  fix n
  assume "n < LENGTH('b)"
  then have "bit x n = bit (ucast x :: 'a word) n" "bit y n = bit (ucast y :: 'a word) n"
    using assms(1) by (auto simp: bit_simps)
  then show "bit x n = bit y n" using assms(2) by simp
qed

lemma unat_ucast_up:
  assumes "LENGTH('b::len) \<le> LENGTH('a::len)"
  shows "unat (ucast (x :: 'b word) :: 'a word) = unat x"
proof -
  have "unat x < 2 ^ LENGTH('a)"
    using unat_lt_2p [of x] assms by (meson less_le_trans one_le_numeral power_increasing)
  then show ?thesis by (simp add: unsigned_ucast_eq take_bit_nat_eq_self)
qed

lemma scale_inj:
  fixes i j off :: u32
  assumes "unat i * unat off < 2 ^ 32" "unat j * unat off < 2 ^ 32" "0 < unat off" "i * off = j * off"
  shows "i = j"
proof -
  have "unat (i * off) = unat i * unat off" "unat (j * off) = unat j * unat off"
    using assms(1,2) by (simp_all add: unat_times_no_overflow)
  then have "unat i = unat j" using assms(3,4) by simp
  then show ?thesis by (rule unsigned_word_eqI)
qed

lemma translate_nat:
  fixes a :: "'a::len word"
  assumes "32 \<le> LENGTH('a)" "unat i * unat off < 2 ^ 32" "unat a + unat i * unat off < 2 ^ LENGTH('a)"
  shows "unat (translate_address a i off) = unat a + unat i * unat off"
proof -
  have "unat (ucast (i * off) :: 'a word) = unat i * unat off"
    using assms(1,2) by (simp add: unat_ucast_up unat_times_no_overflow)
  then show ?thesis using assms(3) by (simp add: translate_address_def unat_plus_no_overflow)
qed

section \<open>Properties\<close>

text \<open>
  C34: the replicated cluster windows do not overlap. For any two clusters whose windows
  lie in the address space, the byte ranges that start at the same base address and span
  at most the cluster offset are disjoint, so a register or TCDM address computed for one
  cluster never falls into another one.
\<close>

theorem cluster_windows_disjoint:
  fixes a :: "'a::len word"
  assumes "32 \<le> LENGTH('a)" "unat i < 2 ^ 14" "unat j < 2 ^ 14" "i \<noteq> j" "len \<le> 0x40000"
    and "unat a + 2 ^ 32 \<le> 2 ^ LENGTH('a) \<or> unat a + (max (unat i) (unat j) + 1) * 0x40000 \<le> 2 ^ LENGTH('a)"
  shows "{unat (translate_cluster_address a i) ..< unat (translate_cluster_address a i) + len}
    \<inter> {unat (translate_cluster_address a j) ..< unat (translate_cluster_address a j) + len} = {}"
proof -
  have T: "unat (translate_cluster_address a k) = unat a + unat k * 0x40000" if "k = i \<or> k = j" for k
  proof -
    have "unat k < 2 ^ 14" using that assms(2,3) by auto
    moreover from this have "unat a + unat k * 0x40000 < 2 ^ LENGTH('a)"
      using assms(6) that by (auto simp: max_def split: if_splits)
    ultimately show ?thesis
      using translate_nat [OF assms(1), of k cluster_offset a]
      by (simp add: translate_cluster_address_def cluster_offset_def)
  qed
  have "unat i \<noteq> unat j" using assms(4) unsigned_word_eqI by metis
  then have "unat i + 1 \<le> unat j \<or> unat j + 1 \<le> unat i" by linarith
  then show ?thesis using T [of i] T [of j] assms(5) by (auto simp: disjoint_iff)
qed

theorem cluster_windows_disjoint_witness:
  "{unat (translate_cluster_address (0x10000000 :: u32) 3) ..< unat (translate_cluster_address (0x10000000 :: u32) 3) + 0x20000}
   \<inter> {unat (translate_cluster_address (0x10000000 :: u32) 4) ..< unat (translate_cluster_address (0x10000000 :: u32) 4) + 0x20000} = {}"
  using cluster_windows_disjoint [of "3" "4" "0x20000" "0x10000000 :: u32"] by simp

end
