(* ===== verification/Interrupts.thy ===== *)
theory Interrupts
  imports Team Mutex Occamy_Map
begin

text \<open>
  Software interrupts: \<open>sw/snRuntime/src/global_interrupts.h\<close> over the shared CLINT,
  \<open>cluster_interrupts.h\<close> over the cluster-local CLINT, the interrupt enables of
  \<open>riscv.h\<close>, and the single-cluster variant \<open>snitch_cluster_global_interrupts.h\<close>.
\<close>

section \<open>The shared CLINT\<close>

text \<open>
  \<open>1 << (hartid & 0x1f)\<close>. The set and clear functions are the read-modify-writes that the
  lock in the communication buffer protects (\<open>snrt_mutex_acquire\<close>, access, release).
\<close>

definition msip_bit :: "u32 \<Rightarrow> u32" where
  "msip_bit hartid = push_bit (unat (hartid AND 0x1f)) 1"

definition snrt_int_sw_clear :: "occamy_cfg \<Rightarrow> u32 \<Rightarrow> rmw" where
  "snrt_int_sw_clear oc hartid = (clint_msip_addr oc hartid, \<lambda>v. v AND NOT (msip_bit hartid))"

definition snrt_int_sw_set :: "occamy_cfg \<Rightarrow> u32 \<Rightarrow> rmw" where
  "snrt_int_sw_set oc hartid = (clint_msip_addr oc hartid, \<lambda>v. v OR msip_bit hartid)"

definition snrt_int_sw_get :: "occamy_cfg \<Rightarrow> (u32 \<Rightarrow> u32) \<Rightarrow> u32 \<Rightarrow> u32" where
  "snrt_int_sw_get oc ws hartid = drop_bit (unat (hartid AND 0x1f)) (ws (clint_msip_addr oc hartid))"

section \<open>The cluster-local CLINT\<close>

text \<open>
  A write to the set register sets the masked bits of \<open>cl_clint_q\<close>, a write to the clear
  register clears them (\<open>snitch_cluster_peripheral.sv\<close>).
\<close>

definition snrt_int_cluster_set :: "u32 \<Rightarrow> u32 \<Rightarrow> u32" where
  "snrt_int_cluster_set msk cl_clint_q = cl_clint_q OR msk"

definition snrt_int_cluster_clr :: "u32 \<Rightarrow> u32 \<Rightarrow> u32" where
  "snrt_int_cluster_clr msk cl_clint_q = cl_clint_q AND NOT msk"

definition snrt_int_clr_mcip :: "snrt_cfg \<Rightarrow> u32 \<Rightarrow> u32 \<Rightarrow> u32" where
  "snrt_int_clr_mcip c hartid q = snrt_int_cluster_clr (push_bit (unat (snrt_cluster_core_idx c hartid)) 1) q"

definition snrt_int_set_mcip :: "snrt_cfg \<Rightarrow> u32 \<Rightarrow> u32 \<Rightarrow> u32" where
  "snrt_int_set_mcip c hartid q = snrt_int_cluster_set (push_bit (unat (snrt_cluster_core_idx c hartid)) 1) q"

text \<open>The single-cluster platform routes the global functions to the cluster CLINT.\<close>

definition cl_int_sw_clear :: "u32 \<Rightarrow> u32 \<Rightarrow> u32" where
  "cl_int_sw_clear hartid q = snrt_int_cluster_clr (push_bit (unat hartid) 1) q"

definition cl_int_sw_set :: "u32 \<Rightarrow> u32 \<Rightarrow> u32" where
  "cl_int_sw_set hartid q = snrt_int_cluster_set (push_bit (unat hartid) 1) q"

section \<open>Interrupt enables\<close>

record csrs =
  mie :: u32
  mstatus :: u32

definition MSTATUS_MIE :: u32 where
  "MSTATUS_MIE = 8"

definition snrt_interrupt_enable :: "u32 \<Rightarrow> csrs \<Rightarrow> csrs" where
  "snrt_interrupt_enable irq s = s\<lparr> mie := mie s OR push_bit (unat irq) 1 \<rparr>"

definition snrt_interrupt_disable :: "u32 \<Rightarrow> csrs \<Rightarrow> csrs" where
  "snrt_interrupt_disable irq s = s\<lparr> mie := mie s AND NOT (push_bit (unat irq) 1) \<rparr>"

definition snrt_interrupt_global_enable :: "csrs \<Rightarrow> csrs" where
  "snrt_interrupt_global_enable s = s\<lparr> mstatus := mstatus s OR MSTATUS_MIE \<rparr>"

definition snrt_interrupt_global_disable :: "csrs \<Rightarrow> csrs" where
  "snrt_interrupt_global_disable s = s\<lparr> mstatus := mstatus s AND NOT MSTATUS_MIE \<rparr>"

section \<open>Lemmas\<close>

text \<open>The software interrupt pending bit of a hart in the CLINT.\<close>

definition pending :: "occamy_cfg \<Rightarrow> ('a::len word \<Rightarrow> u32) \<Rightarrow> u32 \<Rightarrow> bool" where
  "pending oc ws hartid \<longleftrightarrow> bit (ws (clint_msip_addr oc hartid)) (unat hartid mod 32)"

lemma and_1f: "unat (h AND (0x1f :: u32)) = unat h mod 32"
proof -
  have "(0x1f :: u32) = mask 5" by (simp add: mask_eq_exp_minus_1)
  then show ?thesis by (simp only: and_mask_lt) simp
qed

lemma bit_msip_bit: "bit (msip_bit h) n \<longleftrightarrow> n = unat h mod 32"
  by (auto simp: msip_bit_def and_1f bit_simps intro: less_le_trans [OF mod_less_divisor])

text \<open>Two harts share a CLINT register exactly when their identifiers agree above bit 5.\<close>

lemma msip_addr_eq:
  assumes "CLINT_MSIP_P_FIELDS_PER_REG oc = 32" "32 \<le> LENGTH('a::len)"
  shows "(clint_msip_addr oc h :: 'a word) = clint_msip_addr oc t \<longleftrightarrow> unat h div 32 = unat t div 32"
proof -
  have lt: "unat (w div 32) * 4 < 2 ^ 32" for w :: u32
    using unat_lt_2p [of w] by (simp add: unat_div)
  have "(clint_msip_addr oc h :: 'a word) = clint_msip_addr oc t \<longleftrightarrow> h div 32 = t div 32"
    using assms ucast_up_inj [where 'a = 'a and 'b = 32, of "h div 32 * 4" "t div 32 * 4"]
      scale_inj [of "h div 32" 4 "t div 32"] lt [of h] lt [of t]
    by (auto simp: clint_msip_addr_def)
  also have "\<dots> \<longleftrightarrow> unat (h div 32) = unat (t div 32)"
    using unsigned_word_eqI by metis
  finally show ?thesis by (simp add: unat_div)
qed

lemma same_register_bit:
  assumes "unat h div 32 = unat t div 32" "unat h mod 32 = unat t mod 32"
  shows "h = t"
  using assms div_mult_mod_eq [of "unat h" 32] div_mult_mod_eq [of "unat t" 32]
  by (metis unsigned_word_eqI)

lemma pending_set:
  fixes ws :: "'a::len word \<Rightarrow> u32"
  assumes "CLINT_MSIP_P_FIELDS_PER_REG oc = 32" "32 \<le> LENGTH('a)"
  shows "pending oc (ws(clint_msip_addr oc h := ws (clint_msip_addr oc h) OR msip_bit h)) t
    \<longleftrightarrow> t = h \<or> pending oc ws t"
  using msip_addr_eq [OF assms, of t h] same_register_bit [of t h]
  by (auto simp: pending_def bit_msip_bit bit_simps)

lemma pending_clear:
  fixes ws :: "'a::len word \<Rightarrow> u32"
  assumes "CLINT_MSIP_P_FIELDS_PER_REG oc = 32" "32 \<le> LENGTH('a)"
  shows "pending oc (ws(clint_msip_addr oc h := ws (clint_msip_addr oc h) AND NOT (msip_bit h))) t
    \<longleftrightarrow> t \<noteq> h \<and> pending oc ws t"
  using msip_addr_eq [OF assms, of t h] same_register_bit [of t h]
  by (auto simp: pending_def bit_msip_bit bit_simps)

section \<open>Properties\<close>

text \<open>The calls that the harts of the system issue, in the order in which they take the lock.\<close>

datatype int_op = IntSet u32 | IntClear u32

primrec int_rmw :: "occamy_cfg \<Rightarrow> int_op \<Rightarrow> rmw" where
  "int_rmw oc (IntSet h) = snrt_int_sw_set oc h"
| "int_rmw oc (IntClear h) = snrt_int_sw_clear oc h"

text \<open>The abstract interrupt controller: one flag per hart.\<close>

primrec int_flag :: "int_op \<Rightarrow> (u32 \<Rightarrow> bool) \<Rightarrow> (u32 \<Rightarrow> bool)" where
  "int_flag (IntSet h) fs = fs(h := True)"
| "int_flag (IntClear h) fs = fs(h := False)"

lemma pending_int_rmw:
  assumes "CLINT_MSIP_P_FIELDS_PER_REG oc = 32"
  shows "pending oc (apply_rmw (int_rmw oc op) ws) = int_flag op (pending oc ws)"
  using pending_set [OF assms, where 'a = 32] pending_clear [OF assms, where 'a = 32]
  by (cases op) (auto simp: fun_eq_iff apply_rmw_def snrt_int_sw_set_def snrt_int_sw_clear_def)

lemma pending_fold:
  assumes "CLINT_MSIP_P_FIELDS_PER_REG oc = 32"
  shows "pending oc (fold apply_rmw (map (int_rmw oc) ops) ws) = fold int_flag ops (pending oc ws)"
  by (induction ops arbitrary: ws) (simp_all add: pending_int_rmw [OF assms])

text \<open>
  C12: the locked CLINT refines an array of flags. Whatever harts call
  \<open>snrt_int_sw_set\<close> and \<open>snrt_int_sw_clear\<close> concurrently through the spin lock, in any
  interleaving of instructions, the pending bits of all harts are those that the same
  calls give on one flag per hart, in the order in which they were serialised: no call
  disturbs another hart's flag and no update is lost.
\<close>

theorem concurrent_sw_interrupts:
  assumes "CLINT_MSIP_P_FIELDS_PER_REG oc = 32"
    and "reachable (mutex_init ws) mutex_any s" "committed s = map (int_rmw oc) ops"
  shows "pending oc (words s) = fold int_flag ops (pending oc ws)"
proof -
  have "mutex_inv ws s" by (rule mutex.inv_reachable [OF assms(2)])
  then have "words s = fold apply_rmw (map (int_rmw oc) ops) ws"
    using assms(3) by (simp add: mutex_inv_def)
  then show ?thesis using pending_fold [OF assms(1)] by simp
qed

definition demo_occamy :: occamy_cfg where
  "demo_occamy = \<lparr> CLINT_BASE_ADDR = 0x04000000, CLINT_MSIP_0_REG_OFFSET = 0, CLINT_MSIP_P_FIELDS_PER_REG = 32,
     CLINT_MSIP_P_FIELD_WIDTH = 1,
     SOC_CTRL_BASE_ADDR = 0x02000000, OCCAMY_SOC_SCRATCH_0_REG_OFFSET = 0x14, OCCAMY_SOC_SCRATCH_FIELDS_PER_REG = 1,
     QUADRANT_0_CLUSTER_0_TCDM_BASE_ADDR = 0x10000000, QUADRANT_0_CLUSTER_0_PERIPH_BASE_ADDR = 0x10020000,
     CL_CLINT_SET_REG_OFFSET = 0x100, CL_CLINT_CLEAR_REG_OFFSET = 0x108, HW_BARRIER_REG_OFFSET = 0x110,
     QUAD_0_CFG_BASE_ADDR = 0x0b000000, QUAD_RESET_N_REG_OFFSET = 4, QUAD_CLK_ENA_REG_OFFSET = 0,
     QUAD_ISOLATE_REG_OFFSET = 8, QUAD_ISOLATED_REG_OFFSET = 12, QUAD_RO_CACHE_ENABLE_REG_OFFSET = 16,
     QUAD_RO_START_ADDR_LOW_0_REG_OFFSET = 0x100 \<rparr>"

text \<open>Hart 1 raises the interrupt of hart 33 and, while it holds the lock, hart 2 that of hart 1.\<close>

definition demo_ints :: "(lock_instr list \<times> rmw \<times> nat) list" where
  "demo_ints = map (\<lambda>h. (snrt_mutex_acquire, int_rmw demo_occamy (if h = 1 then IntSet 33 else IntSet 1), h))
     [1, 1, 2, 1, 1, 2, 2, 1, 2, 1, 1, 2, 2, 2, 2, 2, 2]"

lemma demo_ints_committed: "committed (mutex_run demo_ints) = map (int_rmw demo_occamy) [IntSet 33, IntSet 1]"
  by (simp add: demo_ints_def mutex_run_def mutex_next_def snrt_mutex_acquire_def snrt_mutex_release_def after_spin_def
      numeral_eq_Suc)

theorem concurrent_sw_interrupts_witness:
  "pending demo_occamy (words (mutex_run demo_ints)) = fold int_flag [IntSet 33, IntSet 1] (pending demo_occamy (\<lambda>_::u32. 0))
   \<and> pending demo_occamy (words (mutex_run demo_ints)) 33"
proof -
  have "reachable (mutex_init (\<lambda>_. 0)) mutex_any (mutex_run demo_ints)"
    by (rule mutex_run_reachable) (simp add: demo_ints_def is_acquire_def)
  then have "pending demo_occamy (words (mutex_run demo_ints)) = fold int_flag [IntSet 33, IntSet 1] (pending demo_occamy (\<lambda>_::u32. 0))"
    using concurrent_sw_interrupts [of demo_occamy "\<lambda>_. 0" "mutex_run demo_ints" "[IntSet 33, IntSet 1]"] demo_ints_committed
    by (simp add: demo_occamy_def)
  then show ?thesis by simp
qed

lemma drop_bit_flag:
  fixes w :: u32
  shows "(\<forall>n. bit (drop_bit m w) n = bit (if bit w m then 1 else 0 :: u32) n) \<longleftrightarrow> (\<forall>n>0. \<not> bit w (m + n))"
proof -
  have "bit (if bit w m then 1 else 0 :: u32) n \<longleftrightarrow> n = 0 \<and> bit w m" for n by (simp add: bit_1_iff)
  moreover have "bit (drop_bit m w) n = bit w (m + n)" for n by (simp add: bit_drop_bit_eq)
  ultimately have "(\<forall>n. bit (drop_bit m w) n = bit (if bit w m then 1 else 0 :: u32) n)
      \<longleftrightarrow> (\<forall>n. bit w (m + n) = (n = 0 \<and> bit w m))" by (simp only:)
  also have "\<dots> \<longleftrightarrow> (\<forall>n>0. \<not> bit w (m + n))"
    by (metis add.right_neutral less_numeral_extra(3) neq0_conv)
  finally show ?thesis .
qed

text \<open>
  \<open>snrt_int_sw_get\<close> is not the 0/1 flag its comment promises. Its result is the
  hart's bit plus everything above it in the shared register: it is 0 or 1 exactly when
  no hart with a higher identifier in the same register is pending.
\<close>

theorem sw_get_reads_neighbours:
  assumes "CLINT_MSIP_P_FIELDS_PER_REG oc = 32"
  shows "snrt_int_sw_get oc ws h = (if pending oc ws h then 1 else 0)
    \<longleftrightarrow> (\<forall>t. unat t div 32 = unat h div 32 \<and> h < t \<longrightarrow> \<not> pending oc ws t)"
proof -
  let ?w = "ws (clint_msip_addr oc h)" and ?m = "unat h mod 32"
  have "snrt_int_sw_get oc ws h = (if pending oc ws h then 1 else 0)
      \<longleftrightarrow> (\<forall>n. bit (drop_bit ?m ?w) n = bit (if bit ?w ?m then 1 else 0 :: u32) n)"
    by (simp only: snrt_int_sw_get_def and_1f pending_def word_eq_bits)
  also have "\<dots> \<longleftrightarrow> (\<forall>n>0. \<not> bit ?w (?m + n))"
    by (rule drop_bit_flag)
  also have "\<dots> \<longleftrightarrow> (\<forall>t. unat t div 32 = unat h div 32 \<and> h < t \<longrightarrow> \<not> pending oc ws t)"
  proof (intro iffI allI impI)
    fix t
    assume up: "\<forall>n>0. \<not> bit ?w (?m + n)" and t: "unat t div 32 = unat h div 32 \<and> h < t"
    have "unat h < unat t" "unat t div 32 = unat h div 32" using t by (simp_all add: word_less_nat_alt)
    then have "?m < unat t mod 32"
      using div_mult_mod_eq [of "unat h" 32] div_mult_mod_eq [of "unat t" 32] by linarith
    then have "\<not> bit ?w (?m + (unat t mod 32 - ?m))" using up by (metis zero_less_diff)
    then show "\<not> pending oc ws t"
      using t \<open>?m < unat t mod 32\<close> msip_addr_eq [OF assms, where 'a = 32, of t h] by (simp add: pending_def)
  next
    fix n :: nat
    assume hi: "\<forall>t. unat t div 32 = unat h div 32 \<and> h < t \<longrightarrow> \<not> pending oc ws t" and n: "0 < n"
    show "\<not> bit ?w (?m + n)"
    proof (cases "?m + n < 32")
      case True
      let ?t = "unat h + n"
      have dm: "?t div 32 = unat h div 32" "?t mod 32 = ?m + n" using add_within_block [OF True] .
      have "unat h div 32 < 2 ^ 27" using unat_lt_2p [of h] by (intro less_mult_imp_div_less) simp
      then have "?t < 2 ^ 32" using dm(1) by simp
      then have t: "unat (of_nat ?t :: u32) = ?t" by (intro unat_of_nat_small) simp
      then have "unat (of_nat ?t :: u32) div 32 = unat h div 32 \<and> h < of_nat ?t"
        using dm n by (simp only: word_less_nat_alt t) simp
      then have "\<not> pending oc ws (of_nat ?t)"
        and "clint_msip_addr oc (of_nat ?t) = (clint_msip_addr oc h :: u32)"
        using hi msip_addr_eq [OF assms, where 'a = 32] by (simp_all del: of_nat_add)
      then show ?thesis unfolding pending_def t dm(2) by simp
    next
      case False
      then show ?thesis by (auto dest: bit_imp_le_length)
    qed
  qed
  finally show ?thesis .
qed


theorem sw_get_reads_neighbours_witness:
  "snrt_int_sw_get demo_occamy (\<lambda>_. 4) 1 = 2 \<and> \<not> pending demo_occamy (\<lambda>_ :: u32. 4) 1
   \<and> (\<exists>t. unat t div 32 = unat (1 :: u32) div 32 \<and> 1 < t \<and> pending demo_occamy (\<lambda>_ :: u32. 4) t)"
proof -
  have "snrt_int_sw_get demo_occamy (\<lambda>_. 4) 1 = 2" by (simp add: snrt_int_sw_get_def)
  moreover have "\<not> pending demo_occamy (\<lambda>_ :: u32. 4) 1" by (simp add: pending_def)
  moreover have "CLINT_MSIP_P_FIELDS_PER_REG demo_occamy = 32" by (simp add: demo_occamy_def)
  ultimately show ?thesis using sw_get_reads_neighbours [of demo_occamy "\<lambda>_. 4" 1] by auto
qed

end
