(* ===== verification/Occamy_Host.thy ===== *)
theory Occamy_Host
  imports Interrupts
begin

text \<open>
  The host (CVA6) runtime of \<open>hw/system/occamy/sw/host/runtime/host.c\<close>: waking up and
  resetting the accelerator, software and timer interrupts, isolation, configuration.
  Addresses are 64-bit; memory-mapped registers are a function from addresses to words.
\<close>

section \<open>State\<close>

text \<open>
  The registers the host writes, its control and status registers, the comparator of the
  timer, and the pending bits of the cluster CLINTs (a write to a set register sets bits).
  Values that hardware provides (\<open>mip\<close>, \<open>mtime\<close>, polled registers) are arguments.
\<close>

record host_state =
  regs :: "u64 \<Rightarrow> u32"
  h_mie :: u64
  h_mstatus :: u64
  csr_701 :: u64
  mtimecmp0 :: u64
  cl_clint :: "u32 \<Rightarrow> u32"

record host_cfg =
  h_map :: occamy_cfg
  N_SNITCHES :: u32
  N_CLUSTERS :: u32
  N_CORES_PER_CLUSTER :: u32
  N_QUADS :: u32
  HBM_XBAR_INTERLEAVED_ENA_ADDR :: u64

definition write_reg :: "u64 \<Rightarrow> u32 \<Rightarrow> host_state \<Rightarrow> host_state" where
  "write_reg a v s = s\<lparr> regs := (regs s)(a := v) \<rparr>"

section \<open>Initialisation\<close>

text \<open>
  \<open>initialize_bss\<close> clears 64-bit words from \<open>__bss_start\<close> while the pointer is below
  \<open>__bss_end\<close>; the memory is indexed by the addresses of its 64-bit words.
\<close>

function initialize_bss :: "nat \<Rightarrow> nat \<Rightarrow> (nat \<Rightarrow> u64) \<Rightarrow> (nat \<Rightarrow> u64)" where
  "initialize_bss p bss_end m = (if p < bss_end then initialize_bss (p + 8) bss_end (m(p := 0)) else m)"
  by pat_completeness auto
termination
  by (relation "measure (\<lambda>(p, e, m). e - p)") auto

declare initialize_bss.simps [simp del]

definition enable_fpu :: "host_state \<Rightarrow> host_state" where
  "enable_fpu s = s\<lparr> h_mstatus := h_mstatus s OR push_bit 13 1 \<rparr>"

definition set_d_cache_enable :: "u16 \<Rightarrow> host_state \<Rightarrow> host_state" where
  "set_d_cache_enable ena s = s\<lparr> csr_701 := ucast ena \<rparr>"

section \<open>Mutual exclusion\<close>

text \<open>The host's copies of the lock routines, on register \<open>x5\<close> (\<open>t0\<close>).\<close>

definition mutex_tas_acquire :: "lock_instr list" where
  "mutex_tas_acquire = [LI 1, AMOSWAP, BNEZ 1]"

definition mutex_ttas_acquire :: "lock_instr list" where
  "mutex_ttas_acquire = [LW, BNEZ 0, LI 1, AMOSWAP, BNEZ 3]"

definition mutex_release :: "lock_instr list" where
  "mutex_release = [AMOSWAP_X0]"

text \<open>They run the device's code, so host and device share one lock correctly.\<close>

lemma host_lock_is_device_lock:
  "mutex_tas_acquire = snrt_mutex_acquire" "mutex_ttas_acquire = snrt_mutex_ttas_acquire"
  "mutex_release = snrt_mutex_release"
  by (simp_all add: mutex_tas_acquire_def mutex_ttas_acquire_def mutex_release_def
      snrt_mutex_acquire_def snrt_mutex_ttas_acquire_def snrt_mutex_release_def)

section \<open>Interrupts\<close>

definition enable_sw_interrupts :: "host_state \<Rightarrow> host_state" where
  "enable_sw_interrupts s = s\<lparr> h_mie := h_mie s OR push_bit 3 1 \<rparr>"

definition disable_sw_interrupts :: "host_state \<Rightarrow> host_state" where
  "disable_sw_interrupts s = s\<lparr> h_mie := h_mie s AND NOT (push_bit 3 1) \<rparr>"

definition enable_timer_interrupts :: "host_state \<Rightarrow> host_state" where
  "enable_timer_interrupts s = s\<lparr> h_mie := h_mie s OR push_bit 7 1 \<rparr>"

definition disable_timer_interrupts :: "host_state \<Rightarrow> host_state" where
  "disable_timer_interrupts s = s\<lparr> h_mie := h_mie s AND NOT (push_bit 7 1) \<rparr>"

definition enable_global_interrupts :: "host_state \<Rightarrow> host_state" where
  "enable_global_interrupts s = s\<lparr> h_mstatus := h_mstatus s OR push_bit 3 1 \<rparr>"

definition timer_interrupts_enabled :: "host_state \<Rightarrow> u32" where
  "timer_interrupts_enabled s = ucast (drop_bit 7 (h_mie s) AND 1)"

definition sw_interrupt_pending :: "u64 \<Rightarrow> u32" where
  "sw_interrupt_pending mip = ucast (mip AND push_bit 3 1)"

definition timer_interrupt_pending :: "u64 \<Rightarrow> u32" where
  "timer_interrupt_pending mip = ucast (mip AND push_bit 7 1)"

definition get_clint_msip_hart :: "occamy_cfg \<Rightarrow> (u64 \<Rightarrow> u32) \<Rightarrow> u32 \<Rightarrow> u32" where
  "get_clint_msip_hart oc rs hartid =
    (let field_offset = hartid mod CLINT_MSIP_P_FIELDS_PER_REG oc;
         lsb_offset = field_offset * CLINT_MSIP_P_FIELD_WIDTH oc
     in drop_bit (unat lsb_offset) (rs (clint_msip_addr oc hartid)) AND 1)"

definition remote_sw_interrupt_pending :: "occamy_cfg \<Rightarrow> (u64 \<Rightarrow> u32) \<Rightarrow> u32 \<Rightarrow> u32" where
  "remote_sw_interrupt_pending oc rs hartid = get_clint_msip_hart oc rs hartid"

definition clear_sw_interrupt_unsafe :: "occamy_cfg \<Rightarrow> u32 \<Rightarrow> (u64 \<Rightarrow> u32) \<Rightarrow> (u64 \<Rightarrow> u32)" where
  "clear_sw_interrupt_unsafe oc hartid rs =
    (let field_offset = hartid mod CLINT_MSIP_P_FIELDS_PER_REG oc;
         lsb_offset = field_offset * CLINT_MSIP_P_FIELD_WIDTH oc;
         a = clint_msip_addr oc hartid
     in rs(a := rs a AND NOT (push_bit (unat lsb_offset) 1)))"

definition set_sw_interrupt_unsafe :: "occamy_cfg \<Rightarrow> u32 \<Rightarrow> (u64 \<Rightarrow> u32) \<Rightarrow> (u64 \<Rightarrow> u32)" where
  "set_sw_interrupt_unsafe oc hartid rs =
    (let field_offset = hartid mod CLINT_MSIP_P_FIELDS_PER_REG oc;
         lsb_offset = field_offset * CLINT_MSIP_P_FIELD_WIDTH oc;
         a = clint_msip_addr oc hartid
     in rs(a := rs a OR push_bit (unat lsb_offset) 1))"

text \<open>
  The polling loops see one value of \<open>mip\<close> after every wake-up; the list holds the values
  in order. None is returned when the values run out before the loop ends.
\<close>

fun wait_sw_interrupt :: "u64 list \<Rightarrow> u64 list option" where
  "wait_sw_interrupt [] = None"
| "wait_sw_interrupt (mip # rest) = (if sw_interrupt_pending mip \<noteq> 0 then Some rest else wait_sw_interrupt rest)"

text \<open>
  The timer bit of \<open>mip\<close> comes from the comparator of the CLINT: it is set while \<open>mtime\<close> is not
  below \<open>mtimecmp\<close>. A wake-up has the value of \<open>mtime\<close> at that moment and the other bits of \<open>mip\<close>.
\<close>

definition clint_mip :: "host_state \<Rightarrow> u64 \<times> u64 \<Rightarrow> u64" where
  "clint_mip s wake = (snd wake AND NOT (push_bit 7 1)) OR (if mtimecmp0 s \<le> fst wake then push_bit 7 1 else 0)"

fun wait_timer_interrupt :: "host_state \<Rightarrow> (u64 \<times> u64) list \<Rightarrow> (u64 \<times> u64) list option" where
  "wait_timer_interrupt s [] = None"
| "wait_timer_interrupt s (wake # rest) =
    (if timer_interrupt_pending (clint_mip s wake) = 0 \<and> timer_interrupts_enabled s \<noteq> 0 then wait_timer_interrupt s rest else Some rest)"

fun wait_sw_interrupt_cleared :: "u64 list \<Rightarrow> u64 list option" where
  "wait_sw_interrupt_cleared [] = None"
| "wait_sw_interrupt_cleared (mip # rest) = (if sw_interrupt_pending mip \<noteq> 0 then wait_sw_interrupt_cleared rest else Some rest)"

fun wait_remote_sw_interrupt_pending :: "occamy_cfg \<Rightarrow> u32 \<Rightarrow> (u64 \<Rightarrow> u32) list \<Rightarrow> (u64 \<Rightarrow> u32) list option" where
  "wait_remote_sw_interrupt_pending oc hartid [] = None"
| "wait_remote_sw_interrupt_pending oc hartid (rs # rest) =
    (if remote_sw_interrupt_pending oc rs hartid \<noteq> 0 then wait_remote_sw_interrupt_pending oc hartid rest else Some rest)"

text \<open>
  \<open>set_sw_interrupts_unsafe\<close>: the loop state is the register pointer, the field index and
  offset, the previous register index, the mask and the registers; the first argument is
  the number of iterations left, so the iteration is the last one when it is 1.
\<close>

definition flush_mask :: "u64 \<Rightarrow> u32 \<Rightarrow> (u64 \<Rightarrow> u32) \<Rightarrow> (u64 \<Rightarrow> u32)" where
  "flush_mask ptr msk rs = (if msk = - 1 then rs(ptr := msk) else rs(ptr := rs ptr OR msk))"

fun sw_interrupts_loop :: "occamy_cfg \<Rightarrow> u32 \<Rightarrow> nat \<Rightarrow> u64 \<Rightarrow> u32 \<Rightarrow> u32 \<Rightarrow> u32 \<Rightarrow> u32 \<Rightarrow> (u64 \<Rightarrow> u32) \<Rightarrow> (u64 \<Rightarrow> u32)" where
  "sw_interrupts_loop oc stride 0 ptr field_idx field_offset prev_reg_idx msk rs = rs(ptr := rs ptr OR msk)"
| "sw_interrupts_loop oc stride (Suc k) ptr field_idx field_offset prev_reg_idx msk rs =
    (let msk1 = msk OR push_bit (unat field_offset) 1;
         field_idx1 = field_idx + stride;
         field_offset1 = field_idx1 mod CLINT_MSIP_P_FIELDS_PER_REG oc;
         reg_idx1 = field_idx1 div CLINT_MSIP_P_FIELDS_PER_REG oc;
         reg_jump = reg_idx1 - prev_reg_idx
     in if k \<noteq> 0 \<and> reg_jump \<noteq> 0
        then sw_interrupts_loop oc stride k (ptr + 4 * ucast reg_jump) field_idx1 field_offset1 reg_idx1 0 (flush_mask ptr msk1 rs)
        else sw_interrupts_loop oc stride k ptr field_idx1 field_offset1 prev_reg_idx msk1 rs)"

definition set_sw_interrupts_unsafe :: "occamy_cfg \<Rightarrow> u32 \<Rightarrow> u32 \<Rightarrow> u32 \<Rightarrow> (u64 \<Rightarrow> u32) \<Rightarrow> (u64 \<Rightarrow> u32)" where
  "set_sw_interrupts_unsafe oc base_hartid num_harts stride rs =
    sw_interrupts_loop oc stride (unat num_harts) (clint_msip_addr oc base_hartid) base_hartid
      (base_hartid mod CLINT_MSIP_P_FIELDS_PER_REG oc) (base_hartid div CLINT_MSIP_P_FIELDS_PER_REG oc) 0 rs"

definition set_cluster_interrupt :: "u32 \<Rightarrow> u32 \<Rightarrow> host_state \<Rightarrow> host_state" where
  "set_cluster_interrupt cluster_id core_id s =
    s\<lparr> cl_clint := (cl_clint s)(cluster_id := snrt_int_cluster_set (push_bit (unat core_id) 1) (cl_clint s cluster_id)) \<rparr>"

text \<open>The locked functions; the lock makes each of them one atomic step (theory \<open>Mutex\<close>).\<close>

definition set_sw_interrupt :: "host_cfg \<Rightarrow> u32 \<Rightarrow> host_state \<Rightarrow> host_state" where
  "set_sw_interrupt hc hartid s = s\<lparr> regs := set_sw_interrupt_unsafe (h_map hc) hartid (regs s) \<rparr>"

definition clear_sw_interrupt :: "host_cfg \<Rightarrow> u32 \<Rightarrow> host_state \<Rightarrow> host_state" where
  "clear_sw_interrupt hc hartid s = s\<lparr> regs := clear_sw_interrupt_unsafe (h_map hc) hartid (regs s) \<rparr>"

section \<open>Device programming\<close>

definition wakeup_snitch :: "host_cfg \<Rightarrow> u32 \<Rightarrow> host_state \<Rightarrow> host_state" where
  "wakeup_snitch hc hartid s = set_sw_interrupt hc hartid s"

definition program_snitches :: "host_cfg \<Rightarrow> u64 \<Rightarrow> u64 \<Rightarrow> host_state \<Rightarrow> host_state" where
  "program_snitches hc snitch_main comm_buffer s =
    write_reg (soc_ctrl_scratch_addr (h_map hc) 2) (ucast comm_buffer)
      (write_reg (soc_ctrl_scratch_addr (h_map hc) 1) (ucast snitch_main) s)"

definition wakeup_cluster :: "u32 \<Rightarrow> host_state \<Rightarrow> host_state" where
  "wakeup_cluster cluster_id s =
    s\<lparr> cl_clint := (cl_clint s)(cluster_id := snrt_int_cluster_set 511 (cl_clint s cluster_id)) \<rparr>"

definition wakeup_snitches :: "host_cfg \<Rightarrow> host_state \<Rightarrow> host_state" where
  "wakeup_snitches hc s = s\<lparr> regs := set_sw_interrupts_unsafe (h_map hc) 1 (N_SNITCHES hc) 1 (regs s) \<rparr>"

definition wakeup_snitches_cl :: "host_cfg \<Rightarrow> host_state \<Rightarrow> host_state" where
  "wakeup_snitches_cl hc s = fold (\<lambda>i. wakeup_cluster (of_nat i)) [0..<unat (N_CLUSTERS hc)] s"

definition wakeup_snitches_selective :: "host_cfg \<Rightarrow> u32 \<Rightarrow> u32 \<Rightarrow> u32 \<Rightarrow> host_state \<Rightarrow> host_state" where
  "wakeup_snitches_selective hc base_hartid num_harts stride s =
    s\<lparr> regs := set_sw_interrupts_unsafe (h_map hc) base_hartid num_harts stride (regs s) \<rparr>"

definition wakeup_master_snitches :: "host_cfg \<Rightarrow> host_state \<Rightarrow> host_state" where
  "wakeup_master_snitches hc s =
    s\<lparr> regs := set_sw_interrupts_unsafe (h_map hc) 1 (N_CLUSTERS hc) (N_CORES_PER_CLUSTER hc) (regs s) \<rparr>"

text \<open>Returns the state after the wait and the \<open>mip\<close> values not yet seen.\<close>

definition wait_snitches_done :: "host_cfg \<Rightarrow> u64 list \<Rightarrow> host_state \<Rightarrow> (host_state \<times> u64 list) option" where
  "wait_snitches_done hc mips s = (case wait_sw_interrupt mips of
      None \<Rightarrow> None | Some rest \<Rightarrow> Some (clear_sw_interrupt hc 0 s, rest))"

section \<open>Reset, clock gating and isolation\<close>

definition set_clk_ena_quad :: "host_cfg \<Rightarrow> u32 \<Rightarrow> u32 \<Rightarrow> host_state \<Rightarrow> host_state" where
  "set_clk_ena_quad hc quad_idx v s = write_reg (quad_cfg_clk_ena_addr (h_map hc) quad_idx) (v AND 1) s"

definition set_reset_n_quad :: "host_cfg \<Rightarrow> u32 \<Rightarrow> u32 \<Rightarrow> host_state \<Rightarrow> host_state" where
  "set_reset_n_quad hc quad_idx v s = write_reg (quad_cfg_reset_n_addr (h_map hc) quad_idx) (v AND 1) s"

definition reset_and_ungate_quad :: "host_cfg \<Rightarrow> u32 \<Rightarrow> host_state \<Rightarrow> host_state" where
  "reset_and_ungate_quad hc q s =
    set_clk_ena_quad hc q 1 (set_reset_n_quad hc q 1 (set_reset_n_quad hc q 0 (set_clk_ena_quad hc q 0 s)))"

definition ISO_MASK_ALL :: u32 where
  "ISO_MASK_ALL = 15"

definition deisolate_quad :: "host_cfg \<Rightarrow> u32 \<Rightarrow> u32 \<Rightarrow> host_state \<Rightarrow> host_state" where
  "deisolate_quad hc quad_idx iso_mask s =
    (let a = quad_cfg_isolate_addr (h_map hc) quad_idx in write_reg a (regs s a AND NOT iso_mask) s)"

definition get_quad_cfg_isolated :: "host_cfg \<Rightarrow> (u64 \<Rightarrow> u32) \<Rightarrow> u32 \<Rightarrow> u32" where
  "get_quad_cfg_isolated hc rs quad_idx = rs (quad_cfg_isolated_addr (h_map hc) quad_idx) AND ISO_MASK_ALL"

definition isolate_quad :: "host_cfg \<Rightarrow> u32 \<Rightarrow> u32 \<Rightarrow> host_state \<Rightarrow> host_state" where
  "isolate_quad hc quad_idx iso_mask s =
    (let a = quad_cfg_isolate_addr (h_map hc) quad_idx in write_reg a (regs s a OR iso_mask) s)"

definition deisolate_all :: "host_cfg \<Rightarrow> host_state \<Rightarrow> host_state" where
  "deisolate_all hc s = fold (\<lambda>i. deisolate_quad hc (of_nat i) ISO_MASK_ALL) [0..<unat (N_QUADS hc)] s"

text \<open>The \<open>i\<close>-th poll sees the registers \<open>obs i\<close>.\<close>

fun check_isolated_from :: "host_cfg \<Rightarrow> nat \<Rightarrow> nat \<Rightarrow> (nat \<Rightarrow> u64 \<Rightarrow> u32) \<Rightarrow> u32 \<Rightarrow> u32 \<Rightarrow> u32" where
  "check_isolated_from hc i 0 obs quadrant_idx iso_mask = 0"
| "check_isolated_from hc i (Suc k) obs quadrant_idx iso_mask =
    (if get_quad_cfg_isolated hc (obs i) quadrant_idx = iso_mask then 1
     else check_isolated_from hc (Suc i) k obs quadrant_idx iso_mask)"

definition check_isolated_timeout :: "host_cfg \<Rightarrow> u32 \<Rightarrow> (nat \<Rightarrow> u64 \<Rightarrow> u32) \<Rightarrow> u32 \<Rightarrow> u32 \<Rightarrow> u32" where
  "check_isolated_timeout hc max_tries obs quadrant_idx iso_mask =
    check_isolated_from hc 0 (unat max_tries) obs quadrant_idx iso_mask"

section \<open>Timers\<close>

text \<open>The conversion divides by \<open>(int64_t)rtc_period\<close>, which truncates 30517.58.\<close>

definition set_timer_interrupt :: "u64 \<Rightarrow> u64 \<Rightarrow> host_state \<Rightarrow> host_state" where
  "set_timer_interrupt mtime interval_ns s = s\<lparr> mtimecmp0 := mtime + interval_ns div 30517 \<rparr>"

definition clear_timer_interrupt :: "u64 \<Rightarrow> host_state \<Rightarrow> host_state" where
  "clear_timer_interrupt mtime s = s\<lparr> mtimecmp0 := mtime + 1 \<rparr>"

definition delay_ns :: "u64 \<Rightarrow> u64 \<Rightarrow> (u64 \<times> u64) list \<Rightarrow> u64 \<Rightarrow> host_state \<Rightarrow> (host_state \<times> (u64 \<times> u64) list) option" where
  "delay_ns mtime_start delay wakes mtime_end s =
    (let s1 = set_timer_interrupt mtime_start delay s;
         s2 = enable_timer_interrupts s1
     in case wait_timer_interrupt s2 wakes of
          None \<Rightarrow> None
        | Some rest \<Rightarrow> Some (clear_timer_interrupt mtime_end (disable_timer_interrupts s2), rest))"

text \<open>\<open>wait_snitches_parked\<close> ignores its argument.\<close>

definition wait_snitches_parked :: "u32 \<Rightarrow> u64 \<Rightarrow> (u64 \<times> u64) list \<Rightarrow> u64 \<Rightarrow> host_state \<Rightarrow> (host_state \<times> (u64 \<times> u64) list) option" where
  "wait_snitches_parked timeout mtime_start wakes mtime_end s = delay_ns mtime_start 100000 wakes mtime_end s"

section \<open>SoC configuration\<close>

definition activate_interleaved_mode_hbm :: "host_cfg \<Rightarrow> host_state \<Rightarrow> host_state" where
  "activate_interleaved_mode_hbm hc s = write_reg (HBM_XBAR_INTERLEAVED_ENA_ADDR hc) 1 s"

definition deactivate_interleaved_mode_hbm :: "host_cfg \<Rightarrow> host_state \<Rightarrow> host_state" where
  "deactivate_interleaved_mode_hbm hc s = write_reg (HBM_XBAR_INTERLEAVED_ENA_ADDR hc) 1 s"

section \<open>Batched interrupts\<close>

text \<open>The CLINT of the platform: 32 one-bit fields per register.\<close>

definition clint_std :: "occamy_cfg \<Rightarrow> bool" where
  "clint_std oc \<longleftrightarrow> CLINT_MSIP_P_FIELDS_PER_REG oc = 32 \<and> CLINT_MSIP_P_FIELD_WIDTH oc = 1"

lemma flush_mask_or [simp]: "flush_mask ptr msk rs = rs(ptr := rs ptr OR msk)"
  by (simp add: flush_mask_def)

lemma set_unsafe_std:
  assumes "clint_std oc"
  shows "set_sw_interrupt_unsafe oc h rs
    = rs(clint_msip_addr oc h := rs (clint_msip_addr oc h) OR push_bit (unat (h mod 32)) 1)"
  using assms by (simp add: set_sw_interrupt_unsafe_def clint_std_def Let_def)

lemma pointer_jump:
  fixes a b :: u32
  assumes "unat a < 2 ^ 27" "unat b < 2 ^ 27" "unat a \<le> unat b"
  shows "ucast (a * 4) + 4 * ucast (b - a) = (ucast (b * 4) :: u64)"
proof (rule unsigned_word_eqI)
  have m: "unat (c * 4 :: u32) = unat c * 4" if "unat c < 2 ^ 27" for c
    using that by (subst unat_times_no_overflow) simp_all
  have j: "unat (b - a) = unat b - unat a" using assms by (simp add: unat_minus_no_underflow)
  have "unat (4 * ucast (b - a) :: u64) = 4 * (unat b - unat a)"
    using assms j by (subst unat_times_no_overflow) (simp_all add: unat_ucast_up)
  then show "unat (ucast (a * 4) + 4 * ucast (b - a) :: u64) = unat (ucast (b * 4) :: u64)"
    using assms m [of a] m [of b]
    by (subst unat_plus_no_overflow) (simp_all add: unat_ucast_up)
qed

lemma loop_fold:
  assumes std: "clint_std oc" and F: "CLINT_MSIP_P_FIELDS_PER_REG oc = 32"
    and "unat f + (k - 1) * unat stride < 2 ^ 32"
    and "ptr = clint_msip_base oc + ucast (prev * 4)" "k \<noteq> 0 \<Longrightarrow> prev = f div 32" "k \<noteq> 0 \<Longrightarrow> off = f mod 32"
  shows "sw_interrupts_loop oc stride k ptr f off prev msk rs
    = fold (set_sw_interrupt_unsafe oc) (map (\<lambda>i. f + of_nat i * stride) [0..<k]) (rs(ptr := rs ptr OR msk))"
  using assms(3-)
proof (induction k arbitrary: ptr f off prev msk rs)
  case 0
  then show ?case by simp
next
  case (Suc k)
  let ?m = "msk OR push_bit (unat off) 1" and ?f = "f + stride"
  have addr: "clint_msip_addr oc f = ptr" using Suc.prems F by (simp add: clint_msip_addr_def)
  have first: "set_sw_interrupt_unsafe oc f (rs(ptr := rs ptr OR msk)) = rs(ptr := rs ptr OR ?m)"
    using Suc.prems addr by (simp add: set_unsafe_std [OF std] or.assoc)
  have shift: "map (\<lambda>i. f + of_nat i * stride) [0..<Suc k] = f # map (\<lambda>i. ?f + of_nat i * stride) [0..<k]"
    unfolding upt_conv_Cons [OF zero_less_Suc] map_Suc_upt [symmetric] by (simp add: algebra_simps)
  have rhs: "fold (set_sw_interrupt_unsafe oc) (map (\<lambda>i. f + of_nat i * stride) [0..<Suc k]) (rs(ptr := rs ptr OR msk))
    = fold (set_sw_interrupt_unsafe oc) (map (\<lambda>i. ?f + of_nat i * stride) [0..<k]) (rs(ptr := rs ptr OR ?m))"
    unfolding shift by (simp only: fold_simps first)
  show ?case
  proof (cases "k = 0")
    case True
    then show ?thesis unfolding rhs by simp
  next
    case False
    have sum: "unat f + unat stride + (k - 1) * unat stride < 2 ^ 32"
      using Suc.prems(1) False by (cases k) (simp_all add: algebra_simps)
    then have uf: "unat ?f = unat f + unat stride" by (subst unat_plus_no_overflow) simp_all
    have lim: "unat ?f + (k - 1) * unat stride < 2 ^ 32" using sum uf by simp
    have reg: "unat (w div 32) < 2 ^ 27" for w :: u32
      using unat_lt_2p [of w] by (simp add: unat_div less_mult_imp_div_less)
    have le: "unat (f div 32) \<le> unat (?f div 32)" unfolding unat_div uf by (simp add: div_le_mono)
    have step: "sw_interrupts_loop oc stride (Suc k) ptr f off prev msk rs =
      (if ?f div 32 - prev \<noteq> 0
       then sw_interrupts_loop oc stride k (ptr + 4 * ucast (?f div 32 - prev)) ?f (?f mod 32) (?f div 32) 0 (rs(ptr := rs ptr OR ?m))
       else sw_interrupts_loop oc stride k ptr ?f (?f mod 32) prev ?m rs)"
      using False by (simp add: F Let_def)
    show ?thesis
    proof (cases "?f div 32 - prev = 0")
      case True
      then have "prev = ?f div 32" by simp
      then have "sw_interrupts_loop oc stride k ptr ?f (?f mod 32) prev ?m rs
        = fold (set_sw_interrupt_unsafe oc) (map (\<lambda>i. ?f + of_nat i * stride) [0..<k]) (rs(ptr := rs ptr OR ?m))"
        using Suc.prems(2) by (intro Suc.IH [OF lim]) simp_all
      then show ?thesis unfolding step rhs using True by simp
    next
      case jump: False
      let ?p = "ptr + 4 * ucast (?f div 32 - prev)" and ?rs = "rs(ptr := rs ptr OR ?m)"
      have p: "?p = clint_msip_base oc + ucast (?f div 32 * 4)"
        using pointer_jump [OF reg reg le] Suc.prems by (simp add: add.assoc)
      have "sw_interrupts_loop oc stride k ?p ?f (?f mod 32) (?f div 32) 0 ?rs
        = fold (set_sw_interrupt_unsafe oc) (map (\<lambda>i. ?f + of_nat i * stride) [0..<k]) (?rs(?p := ?rs ?p OR 0))"
        by (rule Suc.IH [OF lim p]) simp_all
      moreover have "?rs(?p := ?rs ?p OR 0) = ?rs" by (simp only: or.right_neutral fun_upd_triv)
      ultimately show ?thesis unfolding step rhs using jump by (simp only: if_True not_False_eq_True)
    qed
  qed
qed

lemma set_sw_interrupts_fold:
  assumes "clint_std oc" "unat base + (unat n - 1) * unat stride < 2 ^ 32"
  shows "set_sw_interrupts_unsafe oc base n stride rs
    = fold (set_sw_interrupt_unsafe oc) (map (\<lambda>i. base + of_nat i * stride) [0..<unat n]) rs"
proof -
  have F: "CLINT_MSIP_P_FIELDS_PER_REG oc = 32" using assms(1) by (simp add: clint_std_def)
  show ?thesis
    using loop_fold [OF assms(1) F assms(2), of "clint_msip_addr oc base" "base div 32" "base mod 32" 0 rs]
    by (simp add: set_sw_interrupts_unsafe_def F clint_msip_addr_def)
qed

lemma pending_set_unsafe:
  assumes "clint_std oc"
  shows "pending oc (set_sw_interrupt_unsafe oc h rs) t \<longleftrightarrow> t = h \<or> pending oc rs t"
proof -
  have "push_bit (unat (h mod 32)) 1 = msip_bit h" by (simp add: msip_bit_def and_1f unat_mod)
  then show ?thesis
    using assms pending_set [where 'a = 64, of oc] by (simp add: set_unsafe_std clint_std_def)
qed

lemma pending_set_fold:
  assumes "clint_std oc"
  shows "pending oc (fold (set_sw_interrupt_unsafe oc) hs rs) t \<longleftrightarrow> t \<in> set hs \<or> pending oc rs t"
  by (induction hs arbitrary: rs) (auto simp: pending_set_unsafe [OF assms])

section \<open>Properties\<close>

text \<open>
  C8: the batched interrupt routine is equivalent to one interrupt after the other.
  \<open>set_sw_interrupts_unsafe\<close>, which collects the bits of a register in a mask and writes
  every CLINT register once, has the effect of \<open>set_sw_interrupt_unsafe\<close> on the harts
  \<open>base, base + stride, ...\<close> one by one, for every count and every stride whose last
  hart identifier fits 32 bits.
\<close>

theorem set_sw_interrupts_equiv:
  assumes "clint_std oc" "unat base + (unat n - 1) * unat stride < 2 ^ 32"
  shows "set_sw_interrupts_unsafe oc base n stride rs
    = fold (set_sw_interrupt_unsafe oc) (map (\<lambda>i. base + of_nat i * stride) [0..<unat n]) rs"
  by (rule set_sw_interrupts_fold [OF assms])

theorem set_sw_interrupts_equiv_witness:
  "set_sw_interrupts_unsafe demo_occamy 1 5 9 (\<lambda>_. 0)
    = fold (set_sw_interrupt_unsafe demo_occamy) (map (\<lambda>i. 1 + of_nat i * 9) [0..<unat (5 :: u32)]) (\<lambda>_. 0)"
  by (rule set_sw_interrupts_equiv) (simp_all add: clint_std_def demo_occamy_def)

text \<open>
  \<open>wakeup_snitches\<close> interrupts exactly the Snitch harts: afterwards a hart is pending
  if it is one of \<open>1 .. N_SNITCHES\<close> or was pending before, and no other hart is touched.
\<close>

lemma wakeup_snitches_exact:
  assumes "clint_std (h_map hc)" "unat (N_SNITCHES hc) < 2 ^ 32 - 1"
  shows "pending (h_map hc) (regs (wakeup_snitches hc s)) t
    \<longleftrightarrow> 1 \<le> unat t \<and> unat t \<le> unat (N_SNITCHES hc) \<or> pending (h_map hc) (regs s) t"
proof -
  let ?n = "unat (N_SNITCHES hc)"
  have u: "unat (1 + of_nat i :: u32) = Suc i" if "i < ?n" for i
    using that assms(2) by (subst unat_plus_no_overflow) (simp_all add: unat_of_nat_small)
  have "t \<in> set (map (\<lambda>i. 1 + of_nat i * 1) [0..<?n]) \<longleftrightarrow> 1 \<le> unat t \<and> unat t \<le> ?n"
  proof
    assume "t \<in> set (map (\<lambda>i. 1 + of_nat i * 1) [0..<?n])"
    then show "1 \<le> unat t \<and> unat t \<le> ?n" using u by (auto simp: Suc_le_eq)
  next
    assume r: "1 \<le> unat t \<and> unat t \<le> ?n"
    then have "unat (1 + of_nat (unat t - 1) :: u32) = unat t" using u [of "unat t - 1"] by simp
    then have "1 + of_nat (unat t - 1) = t" by (rule unsigned_word_eqI)
    moreover have "unat t - 1 \<in> set [0..<?n]" using r by auto
    ultimately show "t \<in> set (map (\<lambda>i. 1 + of_nat i * 1) [0..<?n])"
      unfolding set_map by (intro image_eqI [where x = "unat t - 1"]) (simp_all only: mult_1_right)
  qed
  then show ?thesis
    using set_sw_interrupts_fold [OF assms(1), of 1 "N_SNITCHES hc" 1 "regs s"] pending_set_fold [OF assms(1)] assms(2)
    by (simp add: wakeup_snitches_def)
qed


lemma check_isolated_from_spec:
  "check_isolated_from hc i k obs q iso_mask
    = (if \<exists>j. i \<le> j \<and> j < i + k \<and> get_quad_cfg_isolated hc (obs j) q = iso_mask then 1 else 0)"
proof (induction k arbitrary: i)
  case (Suc k)
  have "(\<exists>j. i \<le> j \<and> j < i + Suc k \<and> get_quad_cfg_isolated hc (obs j) q = iso_mask)
    \<longleftrightarrow> get_quad_cfg_isolated hc (obs i) q = iso_mask
      \<or> (\<exists>j. Suc i \<le> j \<and> j < Suc i + k \<and> get_quad_cfg_isolated hc (obs j) q = iso_mask)"
    by (metis Suc_le_eq add_Suc add_Suc_right le_eq_less_or_eq less_add_Suc1)
  then show ?case by (auto simp only: check_isolated_from.simps Suc.IH split: if_splits)
qed simp

text \<open>
  The isolation check. \<open>check_isolated_timeout\<close> returns 1 if one of the first
  \<open>max_tries\<close> polls of the \<open>isolated\<close> register equals the requested mask and 0 otherwise.
\<close>

lemma check_isolated_timeout_spec:
  "check_isolated_timeout hc max_tries obs q iso_mask
    = (if \<exists>i < unat max_tries. obs i (quad_cfg_isolated_addr (h_map hc) q) AND 15 = iso_mask then 1 else 0)"
  by (simp add: check_isolated_timeout_def check_isolated_from_spec get_quad_cfg_isolated_def ISO_MASK_ALL_def)






text \<open>
  \<open>deactivate_interleaved_mode_hbm\<close> does not deactivate. It has the same effect as
  \<open>activate_interleaved_mode_hbm\<close> in every state: the enable register holds 1 afterwards.
\<close>

lemma deactivate_interleaved_activates:
  "deactivate_interleaved_mode_hbm hc s = activate_interleaved_mode_hbm hc s
   \<and> regs (deactivate_interleaved_mode_hbm hc s) (HBM_XBAR_INTERLEAVED_ENA_ADDR hc) = 1"
  by (simp add: deactivate_interleaved_mode_hbm_def activate_interleaved_mode_hbm_def write_reg_def)

end
