(* ===== verification/Kmp.thy ===== *)
theory Kmp
  imports Alloc "HOL-Library.Signed_Division"
begin

text \<open>
  The OpenMP entry points of \<open>sw/snRuntime/src/omp/kmp.c\<close>: the work sharing of static
  loops, the microtask wrapper, and the argument block of a fork, with the allocation of
  that block in \<open>omp_init\<close> (\<open>omp.c\<close>).
\<close>

section \<open>Static loop scheduling\<close>

text \<open>
  The values of \<open>enum sched_type\<close> that the function distinguishes, and C arithmetic on
  32-bit integers: \<open>int\<close> values are words read with \<open>sint\<close>; division and remainder truncate.
\<close>

definition kmp_sch_static_chunked :: u32 where
  "kmp_sch_static_chunked = 33"

definition kmp_sch_static :: u32 where
  "kmp_sch_static = 34"

definition c_div :: "u32 \<Rightarrow> u32 \<Rightarrow> u32" where
  "c_div a b = word_of_int (sint a sdiv sint b)"

definition c_mod :: "u32 \<Rightarrow> u32 \<Rightarrow> u32" where
  "c_mod a b = word_of_int (sint a smod sint b)"

text \<open>What the caller passes by reference.\<close>

record loop_bounds =
  plastiter :: u32
  plower :: u32
  pupper :: u32
  pstride :: u32

text \<open>
  \<open>__kmpc_for_static_init_4\<close>. \<open>nbThreads\<close> is the team's \<open>char\<close> (unsigned on RISC-V), \<open>tid\<close> the
  thread number; products with them are unsigned. \<open>has_last\<close> says that \<open>plastiter\<close> is not
  null (the chunked branch does not test it).
\<close>

definition kmpc_for_static_init_4 ::
    "u8 \<Rightarrow> u32 \<Rightarrow> u32 \<Rightarrow> bool \<Rightarrow> u32 \<Rightarrow> u32 \<Rightarrow> loop_bounds \<Rightarrow> loop_bounds" where
  "kmpc_for_static_init_4 nbThreads tid sched has_last incr chunk0 b =
    (let loopSize = c_div (pupper b - plower b) incr + 1;
         globalUpper = pupper b;
         nb = ucast nbThreads :: u32
     in if sched = kmp_sch_static_chunked then
          (let span = incr * chunk0;
               stride = span * nb;
               lower = plower b + span * tid;
               upper = lower + span - incr;
               beginLastChunk = globalUpper - c_mod globalUpper span;
               last = (if c_mod (beginLastChunk - lower) stride = 0 then 1 else 0)
           in b\<lparr> pstride := stride, plower := lower, pupper := upper, plastiter := last \<rparr>)
        else if sched = kmp_sch_static then
          (let chunk = loopSize div nb;
               leftOver = loopSize - chunk * nb;
               (chunk', lower) = (if sint tid < sint leftOver
                  then (chunk + 1, plower b + tid * (chunk + 1) * incr)
                  else (chunk, plower b + tid * chunk * incr + leftOver));
               upper = lower + chunk' * incr - incr;
               last = (if has_last
                  then (if upper = globalUpper \<and> sint lower \<le> sint globalUpper then 1 else 0)
                  else plastiter b)
           in b\<lparr> plower := lower, pupper := upper, plastiter := last, pstride := loopSize \<rparr>)
        else b)"

text \<open>\<open>__kmpc_for_static_init_4u\<close> converts the bounds to signed and back: the same words.\<close>

definition kmpc_for_static_init_4u ::
    "u8 \<Rightarrow> u32 \<Rightarrow> u32 \<Rightarrow> bool \<Rightarrow> u32 \<Rightarrow> u32 \<Rightarrow> loop_bounds \<Rightarrow> loop_bounds" where
  "kmpc_for_static_init_4u nbThreads tid schedtype has_last incr chunk b =
    kmpc_for_static_init_4 nbThreads tid schedtype has_last incr chunk b"

section \<open>The microtask wrapper\<close>

text \<open>
  The switch of \<open>__microtask_wrapper\<close> as it is written: its labels in order, what follows
  each label, and whether a \<open>break\<close> ends it. \<open>Call n\<close> calls the microtask with \<open>n\<close> arguments.
\<close>

datatype micro_action = SnrtExit int | Call nat

type_synonym switch_case = "nat option \<times> micro_action list \<times> bool"

definition microtask_cases :: "switch_case list" where
  "microtask_cases =
    [(None, [SnrtExit (- 1)], False),
     (Some 0, [Call 0], True), (Some 1, [Call 1], True), (Some 2, [Call 2], True), (Some 3, [Call 3], True),
     (Some 4, [Call 4], True), (Some 5, [Call 5], True), (Some 6, [Call 6], True), (Some 7, [Call 7], True),
     (Some 8, [Call 8], False), (Some 9, [Call 9], False), (Some 10, [Call 10], False),
     (Some 11, [Call 11], False), (Some 12, [Call 12], True)]"

text \<open>C's switch: control enters at the matching label, else at \<open>default\<close>, and falls through.\<close>

fun run_cases :: "switch_case list \<Rightarrow> micro_action list" where
  "run_cases [] = []"
| "run_cases ((l, acts, brk) # cs) = (if brk then acts else acts @ run_cases cs)"

definition c_switch :: "nat \<Rightarrow> switch_case list \<Rightarrow> micro_action list" where
  "c_switch v cs = run_cases
    (if \<exists>c\<in>set cs. fst c = Some v then dropWhile (\<lambda>c. fst c \<noteq> Some v) cs
     else dropWhile (\<lambda>c. fst c \<noteq> None) cs)"

text \<open>
  The calls of the microtask, each with the arguments \<open>p_argv[0], ...\<close> read from the
  argument block behind the function pointer. \<open>DispatchEvent argc args n\<close> is the push of the wrapper
  into the queue of the event unit (\<open>Eu\<close>) for \<open>n\<close> threads.
\<close>

datatype micro_event = ExitEvent int | CallEvent u32 "u32 list" | DispatchEvent u32 u32 u32

primrec perform :: "mem \<Rightarrow> u32 \<Rightarrow> micro_action \<Rightarrow> micro_event" where
  "perform m arg (SnrtExit c) = ExitEvent c"
| "perform m arg (Call n) = CallEvent (load32 m arg) (map (\<lambda>i. load32 m (arg + 4 * of_nat (Suc i))) [0..<n])"

definition microtask_wrapper :: "mem \<Rightarrow> u32 \<Rightarrow> u32 \<Rightarrow> micro_event list" where
  "microtask_wrapper m arg argc = map (perform m arg) (c_switch (unat argc) microtask_cases)"

section \<open>Fork\<close>

definition KMP_FORK_MAX_NARGS :: u32 where
  "KMP_FORK_MAX_NARGS = 12"

text \<open>
  \<open>sizeof(omp_t)\<close> and \<open>sizeof(snrt_barrier_t)\<close> on RV32, and the offsets in \<open>omp_t\<close> of
  \<open>plainTeam.nbThreads\<close>, \<open>numThreads\<close> and \<open>maxThreads\<close>.
\<close>

definition SIZEOF_OMP_T :: u32 where
  "SIZEOF_OMP_T = 108"

record omp_state =
  omp_alloc :: alloc_state
  omp_mem :: mem
  kmpc_args :: u32
  omp_p :: u32
  kmpc_barrier :: u32

text \<open>
  The allocations of \<open>omp_init\<close> on core 0 and the zeroing of the barrier; the fields of the
  new \<open>omp_t\<close> that later code reads are written too. The last allocation is the profiling block:
  \<open>omp.h\<close> defines \<open>OPENMP_PROFILE\<close> unconditionally, so it is part of the program.
\<close>

definition omp_init :: "u32 \<Rightarrow> omp_state \<Rightarrow> omp_state" where
  "omp_init nbCores s =
    (let (args, a1) = snrt_l1alloc (4 * KMP_FORK_MAX_NARGS) (omp_alloc s);
         (p, a2) = snrt_l1alloc SIZEOF_OMP_T a1;
         m1 = store32 (store32 (omp_mem s) (p + 92) nbCores) (p + 96) nbCores;
         m2 = m1(p := ucast nbCores);
         m3 = fold (\<lambda>i m. store32 m (p + 28 + 4 * of_nat i) 0) [0..<16] (store32 (store32 m2 (p + 4) 0) (p + 24) 0);
         (bar, a3) = snrt_l1alloc 8 a2;
         m4 = snd (snrt_memset (store32 m3 (p + 100) bar) bar 0 8);
         (prof, a4) = snrt_l1alloc 4 a3
     in \<lparr> omp_alloc = a4, omp_mem = m4, kmpc_args = args, omp_p = p, kmpc_barrier = bar \<rparr>)"

text \<open>\<open>__kmpc_fork_call\<close> up to the dispatch: the argument block is filled from the varargs.\<close>

definition fill_args :: "u32 \<Rightarrow> u32 list \<Rightarrow> u32 \<Rightarrow> mem \<Rightarrow> mem" where
  "fill_args microtask varargs args m =
    fold (\<lambda>i m. store32 m (args + 4 * of_nat i) (varargs ! (i - 1))) [1..<Suc (length varargs)] (store32 m args microtask)"

text \<open>
  A fork by core 0: \<open>parallelRegion\<close> sets the team size (a byte), then every member of the
  team runs the wrapper on the argument block. Any other core, after it has filled the block,
  reports the exit code -1 and then pushes the wrapper into the queue all the same, since
  \<open>snrt_exit\<close> returns; it runs when the event unit gets to it.
\<close>

definition set_team_size :: "u32 \<Rightarrow> omp_state \<Rightarrow> mem \<Rightarrow> mem" where
  "set_team_size num_threads s m = m(omp_p s := ucast num_threads)"

definition kmpc_fork_call :: "u32 \<Rightarrow> u32 \<Rightarrow> u32 \<Rightarrow> u32 list \<Rightarrow> omp_state \<Rightarrow> omp_state \<times> micro_event list" where
  "kmpc_fork_call core_idx microtask num_threads varargs s =
    (let m1 = fill_args microtask varargs (kmpc_args s) (omp_mem s)
     in if core_idx \<noteq> 0 then (s\<lparr> omp_mem := m1 \<rparr>, [ExitEvent (- 1), DispatchEvent (of_nat (length varargs)) (kmpc_args s) num_threads])
        else let m2 = set_team_size num_threads s m1
             in (s\<lparr> omp_mem := m2 \<rparr>, microtask_wrapper m2 (kmpc_args s) (of_nat (length varargs))))"

section \<open>The static partition\<close>

text \<open>The first iteration of thread \<open>t\<close> when \<open>n\<close> iterations are dealt to \<open>nb\<close> threads.\<close>

definition static_lo :: "nat \<Rightarrow> nat \<Rightarrow> nat \<Rightarrow> nat" where
  "static_lo n nb t = (if t < n mod nb then t * (n div nb + 1) else t * (n div nb) + n mod nb)"

lemma static_lo_0 [simp]: "static_lo n nb 0 = 0"
  by (simp add: static_lo_def)

lemma static_lo_step:
  "static_lo n nb (Suc t) = static_lo n nb t + (n div nb + (if t < n mod nb then 1 else 0))"
  by (auto simp: static_lo_def not_less less_Suc_eq_le)

lemma static_lo_end:
  assumes "0 < nb"
  shows "static_lo n nb nb = n"
proof -
  have "\<not> nb < n mod nb" using mod_less_divisor [OF assms, of n] by linarith
  then show ?thesis by (simp add: static_lo_def)
qed

lemma static_lo_mono: "t \<le> t' \<Longrightarrow> static_lo n nb t \<le> static_lo n nb t'"
  by (induction rule: dec_induct) (auto simp: static_lo_step)

lemma static_lo_le:
  assumes "0 < nb" "t \<le> nb"
  shows "static_lo n nb t \<le> n"
  using static_lo_mono [OF assms(2)] static_lo_end [OF assms(1)] by metis

text \<open>Consecutive cut points partition an interval.\<close>

lemma cuts_cover:
  fixes f :: "nat \<Rightarrow> nat"
  assumes "f 0 = 0" "\<And>t. f t \<le> f (Suc t)"
  shows "(\<Union>t<k. {f t ..< f (Suc t)}) = {..<f k}"
proof (induction k)
  case (Suc k)
  have "{..<f k} \<union> {f k ..< f (Suc k)} = {..<f (Suc k)}" using assms(2) [of k] by auto
  then show ?case using Suc by (auto simp: lessThan_Suc)
qed (simp add: assms(1))

lemma sint_offset:
  assumes "- (2 ^ 31) \<le> l" "l + int k < 2 ^ 31"
  shows "sint (word_of_int l + of_nat k :: u32) = l + int k"
proof -
  have "(word_of_int l + of_nat k :: u32) = word_of_int (l + int k)" by simp
  then show ?thesis using assms by (simp only: sint_word_of_int_small)
qed

text \<open>The number of iterations, its quotient and its remainder as the code computes them.\<close>

lemma loop_size_word:
  assumes "int n = u - l + 1" "- (2 ^ 31) \<le> l" "l \<le> u" "u - l + 1 < 2 ^ 31" "sint lo = l" "sint up = u"
  shows "c_div (up - lo) 1 + 1 = of_nat n"
proof -
  have "up = word_of_int u" "lo = word_of_int l" using assms(5,6) by auto
  then have "up - lo = word_of_int (u - l)" by (simp only: of_int_diff)
  then have "sint (up - lo) = u - l" using sint_word_of_int_small [of "u - l"] assms(1,3,4) by simp
  then have "c_div (up - lo) 1 = word_of_int (u - l)" by (simp add: c_div_def)
  then show ?thesis using assms(1) by (metis of_int_1 of_int_add of_int_of_nat_eq)
qed

lemma static_words:
  assumes "0 < nb" "unat nbThreads = nb" "n < 2 ^ 31"
  shows "of_nat n div (ucast (nbThreads :: u8) :: u32) = of_nat (n div nb)"
    and "of_nat n - of_nat (n div nb) * (ucast nbThreads :: u32) = of_nat (n mod nb)"
proof -
  have "unat (ucast nbThreads :: u32) = nb"
    using assms(2) unat_lt_2p [of nbThreads] by (simp add: unsigned_ucast_eq take_bit_nat_eq_self)
  then have u: "(ucast nbThreads :: u32) = of_nat nb" by (metis of_nat_unat ucast_id)
  have nb: "nb < 2 ^ 31" using assms(2) unat_lt_2p [of nbThreads] by simp
  show "of_nat n div (ucast nbThreads :: u32) = of_nat (n div nb)"
  proof (rule unsigned_word_eqI)
    have "n div nb < 2 ^ 31" using assms(3) div_le_dividend [of n nb] by linarith
    then show "unat (of_nat n div (ucast nbThreads :: u32)) = unat (of_nat (n div nb) :: u32)"
      using assms(3) nb by (simp add: u unat_div unat_of_nat_small)
  qed
  have "n = n div nb * nb + n mod nb" by simp
  then have "(of_nat n :: u32) = of_nat (n div nb) * of_nat nb + of_nat (n mod nb)"
    by (metis of_nat_add of_nat_mult)
  then show "of_nat n - of_nat (n div nb) * (ucast nbThreads :: u32) = of_nat (n mod nb)" by (simp add: u)
qed

lemma static_bounds_nat:
  assumes nb: "0 < nb" "t < nb" "unat nbThreads = nb" and n: "int n = u - l + 1"
    and rng: "- (2 ^ 31) < l" "l \<le> u" "u < 2 ^ 31 - 1" "u - l + 1 < 2 ^ 31"
    and b: "sint (plower b) = l" "sint (pupper b) = u"
    and r: "r = kmpc_for_static_init_4 nbThreads (of_nat t) kmp_sch_static has_last 1 chunk b"
  shows "sint (plower r) = l + int (static_lo n nb t)"
    and "sint (pupper r) = l + int (static_lo n nb (Suc t)) - 1"
    and "has_last \<Longrightarrow> plastiter r = (if sint (pupper r) = u \<and> sint (plower r) \<le> u then 1 else 0)"
proof -
  have n31: "n < 2 ^ 31" using n rng(4) by simp
  have t31: "t < 2 ^ 31" using nb unat_lt_2p [of nbThreads] by simp
  have m31: "n mod nb < 2 ^ 31" using n31 mod_less_eq_dividend [of n nb] by linarith
  have wl: "plower b = word_of_int l" using b by auto
  note W = loop_size_word [OF n less_imp_le [OF rng(1)] rng(2,4) b] static_words [OF nb(1,3) n31]
  have cmp: "sint (of_nat t :: u32) < sint (of_nat (n mod nb) :: u32) \<longleftrightarrow> t < n mod nb"
    unfolding sint_of_nat_small [OF t31] sint_of_nat_small [OF m31] by simp
  let ?lo = "static_lo n nb t" and ?hi = "static_lo n nb (Suc t)"
  have lo: "plower r = word_of_int l + of_nat ?lo"
    unfolding r kmpc_for_static_init_4_def Let_def W cmp
    by (simp add: kmp_sch_static_def kmp_sch_static_chunked_def static_lo_def wl
        split: prod.splits if_splits) (auto simp: algebra_simps)
  have up: "pupper r = word_of_int l + of_nat ?hi - 1"
    unfolding r kmpc_for_static_init_4_def Let_def W cmp
    by (simp add: kmp_sch_static_def kmp_sch_static_chunked_def wl static_lo_step
        split: prod.splits if_splits) (auto simp: algebra_simps static_lo_def)
  have hi: "?hi \<le> n" using static_lo_le [of nb "Suc t" n] nb by simp
  then have "?lo \<le> n" using static_lo_step [of n nb t] by simp
  then show low: "sint (plower r) = l + int ?lo"
    unfolding lo using n rng by (intro sint_offset) auto
  have "(word_of_int l + of_nat ?hi - 1 :: u32) = word_of_int (l + int ?hi - 1)" by simp
  then show upp: "sint (pupper r) = l + int ?hi - 1"
    unfolding up using n rng hi by (simp only:) (intro sint_word_of_int_small, auto)
  show "plastiter r = (if sint (pupper r) = u \<and> sint (plower r) \<le> u then 1 else 0)" if "has_last"
    using that b(2) unfolding r kmpc_for_static_init_4_def Let_def
    by (auto simp: kmp_sch_static_def kmp_sch_static_chunked_def signed_word_eqI split: prod.splits)
qed

section \<open>Properties of the schedules\<close>

text \<open>The iterations a thread executes after the call, for increment 1.\<close>

definition thread_iters :: "loop_bounds \<Rightarrow> int set" where
  "thread_iters r = {sint (plower r) .. sint (pupper r)}"

lemma shift_interval: "{l + int a .. l + int b - 1} = (\<lambda>k. l + int k) ` {a ..< b}"
proof -
  have "x \<in> (\<lambda>k. l + int k) ` {a ..< b}" if "l + int a \<le> x" "x \<le> l + int b - 1" for x
    using that by (intro image_eqI [where x = "nat (x - l)"]) auto
  then show ?thesis by auto
qed

definition demo_loop :: loop_bounds where
  "demo_loop = \<lparr> plastiter = 0, plower = 3, pupper = 12, pstride = 1 \<rparr>"

text \<open>
  C17: the static schedule deals out every iteration exactly once. For a loop with
  increment 1 and bounds that leave room for the arithmetic, the ranges that the threads
  of the team receive cover the iteration space, do not overlap, and the last-iteration
  flag is raised exactly in the thread that executes the last iteration.
\<close>

theorem static_schedule_partition:
  assumes nb: "0 < unat nbThreads"
    and rng: "- (2 ^ 31) < sint (plower b)" "sint (plower b) \<le> sint (pupper b)"
      "sint (pupper b) < 2 ^ 31 - 1" "sint (pupper b) - sint (plower b) + 1 < 2 ^ 31"
    and r: "r = (\<lambda>t. kmpc_for_static_init_4 nbThreads (of_nat t) kmp_sch_static True 1 chunk b)"
  shows "(\<Union>t<unat nbThreads. thread_iters (r t)) = {sint (plower b) .. sint (pupper b)}
    \<and> (\<forall>t<unat nbThreads. \<forall>t'<unat nbThreads. t \<noteq> t' \<longrightarrow> thread_iters (r t) \<inter> thread_iters (r t') = {})
    \<and> (\<forall>t<unat nbThreads. plastiter (r t) = (if sint (pupper b) \<in> thread_iters (r t) then 1 else 0))"
proof -
  let ?l = "sint (plower b)" and ?u = "sint (pupper b)" and ?nb = "unat nbThreads"
  define n where "n = nat (?u - ?l + 1)"
  have n: "int n = ?u - ?l + 1" using rng by (simp add: n_def)
  let ?f = "static_lo n ?nb"
  have B: "sint (plower (r t)) = ?l + int (?f t)" "sint (pupper (r t)) = ?l + int (?f (Suc t)) - 1"
    "plastiter (r t) = (if sint (pupper (r t)) = ?u \<and> sint (plower (r t)) \<le> ?u then 1 else 0)" if "t < ?nb" for t
  proof -
    have "r t = kmpc_for_static_init_4 nbThreads (of_nat t) kmp_sch_static True 1 chunk b" by (simp add: r)
    note S = static_bounds_nat [OF nb that refl n rng refl refl this]
    show "sint (plower (r t)) = ?l + int (?f t)" "sint (pupper (r t)) = ?l + int (?f (Suc t)) - 1"
      "plastiter (r t) = (if sint (pupper (r t)) = ?u \<and> sint (plower (r t)) \<le> ?u then 1 else 0)"
      by (rule S(1), rule S(2), rule S(3) [OF TrueI])
  qed
  have I: "thread_iters (r t) = (\<lambda>k. ?l + int k) ` {?f t ..< ?f (Suc t)}" if "t < ?nb" for t
    using B [OF that] by (simp add: thread_iters_def shift_interval)
  have inj: "inj (\<lambda>k. ?l + int k)" by (auto intro: injI)
  have le: "?f (Suc t) \<le> n" if "t < ?nb" for t using static_lo_le [OF nb, of "Suc t" n] that by simp
  have "(\<Union>t<?nb. thread_iters (r t)) = (\<lambda>k. ?l + int k) ` (\<Union>t<?nb. {?f t ..< ?f (Suc t)})"
    using I by (simp add: image_UN)
  also have "\<dots> = (\<lambda>k. ?l + int k) ` {0 ..< n}"
    using cuts_cover [of ?f ?nb] static_lo_end [OF nb] by (simp add: static_lo_step lessThan_atLeast0)
  also have "\<dots> = {?l .. ?u}" using shift_interval [of ?l 0 n] n by simp
  finally have cover: "(\<Union>t<?nb. thread_iters (r t)) = {?l .. ?u}" .
  have disj: "thread_iters (r t) \<inter> thread_iters (r t') = {}" if "t < t'" "t' < ?nb" for t t'
  proof -
    have "?f (Suc t) \<le> ?f t'" using that by (intro static_lo_mono) simp
    then have "{?f t ..< ?f (Suc t)} \<inter> {?f t' ..< ?f (Suc t')} = {}" by auto
    then show ?thesis using I [of t] I [of t'] that by (simp flip: image_Int [OF inj])
  qed
  have last: "plastiter (r t) = (if ?u \<in> thread_iters (r t) then 1 else 0)" if "t < ?nb" for t
    using B [OF that] le [OF that] n by (auto simp: thread_iters_def)
  have "thread_iters (r t) \<inter> thread_iters (r t') = {}" if "t < ?nb" "t' < ?nb" "t \<noteq> t'" for t t'
    using disj [of t t'] disj [of t' t] that by (cases "t < t'") auto
  then show ?thesis using cover last by blast
qed

theorem static_schedule_partition_witness:
  "(\<Union>t<unat (4 :: u8). thread_iters (kmpc_for_static_init_4 4 (of_nat t) kmp_sch_static True 1 0 demo_loop)) = {3 .. 12}"
  using static_schedule_partition [OF _ _ _ _ _ refl, of 4 demo_loop 0] by (simp add: demo_loop_def)

text \<open>
  With an increment other than 1 the static schedule is wrong. The loop 0, 2, 4, 6, 8
  on two threads gives the second thread the bounds 5 and 7: it executes iterations that
  are not in the loop, and nobody executes 6 and 8. The left-over offset of the second
  branch is not scaled by the increment.
\<close>

lemma static_schedule_stride_bug:
  "let b = \<lparr> plastiter = 0, plower = 0, pupper = 8, pstride = 2 \<rparr>;
       r = \<lambda>t. kmpc_for_static_init_4 2 t kmp_sch_static True 2 0 b
   in plower (r 0) = 0 \<and> pupper (r 0) = 4 \<and> plower (r 1) = 5 \<and> pupper (r 1) = 7
      \<and> plastiter (r 0) = 0 \<and> plastiter (r 1) = 0"
  by code_simp

section \<open>The chunked schedule\<close>

text \<open>
  What a thread executes with chunked bounds: starting at its bounds, chunk after chunk at
  distance \<open>pstride\<close>, every \<open>incr\<close>-th value up to the end of the chunk and of the loop.
\<close>

definition chunked_iters :: "int \<Rightarrow> int \<Rightarrow> loop_bounds \<Rightarrow> int set" where
  "chunked_iters incr glob r = {x. \<exists>k m :: nat. x = sint (plower r) + int k * sint (pstride r) + int m * incr
     \<and> x \<le> sint (pupper r) + int k * sint (pstride r) \<and> x \<le> glob}"

lemma smod_eq_0_iff: "(a :: int) smod b = 0 \<longleftrightarrow> b dvd a"
  by (simp add: signed_modulo_int_def sgn_0_0 flip: dvd_eq_mod_eq_0) (metis dvd_0_right)

text \<open>The bounds of thread \<open>t\<close>: the \<open>t\<close>-th chunk.\<close>

lemma chunked_bounds:
  assumes nb: "unat nbThreads = nb" "t < nb" and c: "0 < i" "0 < c"
    and rng: "0 \<le> l" "l + int (i * c * nb) < 2 ^ 31" and b: "sint (plower b) = l"
    and r: "r = kmpc_for_static_init_4 nbThreads (of_nat t) kmp_sch_static_chunked has_last (of_nat i) (of_nat c) b"
  shows "sint (plower r) = l + int (i * c * t)" "sint (pupper r) = l + int (i * c * t) + int (i * c) - int i"
    "sint (pstride r) = int (i * c * nb)"
proof -
  have wl: "plower b = word_of_int l" using b by auto
  have "unat (ucast nbThreads :: u32) = nb"
    using nb(1) unat_lt_2p [of nbThreads] by (simp add: unsigned_ucast_eq take_bit_nat_eq_self)
  then have u: "(ucast nbThreads :: u32) = of_nat nb" by (metis of_nat_unat ucast_id)
  have ct: "i * c * Suc t \<le> i * c * nb" using nb(2) by (intro mult_le_mono2) simp
  have P: "plower r = word_of_int (l + int (i * c * t))" "pstride r = word_of_int (int (i * c * nb))"
    "pupper r = word_of_int (l + int (i * c * t) + int (i * c) - int i)"
    unfolding r kmpc_for_static_init_4_def Let_def by (simp_all add: u wl)
  have lim: "int (i * c * t) + int (i * c) \<le> int (i * c * nb)" using ct by (simp flip: of_nat_mult of_nat_add add: algebra_simps)
  have ic: "int i \<le> int (i * c)" using c by simp
  show "sint (plower r) = l + int (i * c * t)"
    unfolding P using rng lim ic by (intro sint_word_of_int_small) linarith+
  show "sint (pupper r) = l + int (i * c * t) + int (i * c) - int i"
    unfolding P using rng lim ic by (intro sint_word_of_int_small) linarith+
  show "sint (pstride r) = int (i * c * nb)"
    unfolding P using rng by (intro sint_word_of_int_small) linarith+
qed

lemma chunk_index:
  fixes c nb t k m :: nat
  assumes "m < c" "t < nb"
  shows "(c * (t + k * nb) + m) div c mod nb = t"
  using assms by simp

lemma chunked_iters_spec:
  assumes "unat nbThreads = nb" "t < nb" "0 < i" "0 < c"
    and "0 \<le> l" "l + int (i * c * nb) < 2 ^ 31" "sint (plower b) = l"
    and "r = kmpc_for_static_init_4 nbThreads (of_nat t) kmp_sch_static_chunked has_last (of_nat i) (of_nat c) b"
  shows "chunked_iters (int i) glob r = {x. \<exists>j :: nat. x = l + int (i * j) \<and> x \<le> glob \<and> j div c mod nb = t}"
proof -
  note B = chunked_bounds [OF assms]
  have e: "l + int (i * c * t) + int k * int (i * c * nb) + int m * int i = l + int (i * (c * (t + k * nb) + m))" for k m
    by (simp add: algebra_simps)
  have le: "l + int (i * c * t) + int k * int (i * c * nb) + int m * int i
      \<le> l + int (i * c * t) + int (i * c) - int i + int k * int (i * c * nb) \<longleftrightarrow> m < c" for k m
  proof -
    have "int m * int i \<le> int (i * c) - int i \<longleftrightarrow> int i * (int m + 1) \<le> int i * int c" by (simp add: algebra_simps)
    also have "\<dots> \<longleftrightarrow> m < c" using assms(3) by (simp add: mult_le_cancel_left_pos) linarith
    finally show ?thesis by linarith
  qed
  have "x \<in> chunked_iters (int i) glob r \<longleftrightarrow> (\<exists>k m :: nat. x = l + int (i * (c * (t + k * nb) + m)) \<and> m < c \<and> x \<le> glob)" for x
    unfolding chunked_iters_def B mem_Collect_eq e [symmetric] using le by blast
  moreover have "(\<exists>k m :: nat. x = l + int (i * (c * (t + k * nb) + m)) \<and> m < c \<and> x \<le> glob)
      \<longleftrightarrow> (\<exists>j :: nat. x = l + int (i * j) \<and> x \<le> glob \<and> j div c mod nb = t)" for x
  proof
    assume "\<exists>k m :: nat. x = l + int (i * (c * (t + k * nb) + m)) \<and> m < c \<and> x \<le> glob"
    then show "\<exists>j :: nat. x = l + int (i * j) \<and> x \<le> glob \<and> j div c mod nb = t"
      using chunk_index [OF _ assms(2)] by metis
  next
    assume "\<exists>j :: nat. x = l + int (i * j) \<and> x \<le> glob \<and> j div c mod nb = t"
    then obtain j :: nat where j: "x = l + int (i * j)" "x \<le> glob" "j div c mod nb = t" by blast
    have "j = c * (t + j div c div nb * nb) + j mod c"
      using j(3) by (metis add.commute mod_mult_div_eq mult.commute mult_div_mod_eq)
    moreover have "j mod c < c" using assms(4) by simp
    ultimately show "\<exists>k m :: nat. x = l + int (i * (c * (t + k * nb) + m)) \<and> m < c \<and> x \<le> glob"
      using j(1,2) by metis
  qed
  ultimately show ?thesis by blast
qed

lemma c_mod_zero:
  assumes "- (2 ^ 31) < a" "a < 2 ^ 31" "0 < m" "m < 2 ^ 31"
  shows "c_mod (word_of_int a) (word_of_int m) = 0 \<longleftrightarrow> m dvd a"
proof -
  have v: "sint (word_of_int a :: u32) = a" "sint (word_of_int m :: u32) = m"
    using assms by (auto intro: sint_word_of_int_small)
  have "\<bar>a smod m\<bar> < m" using assms(3) by (simp add: signed_modulo_int_def abs_mult sgn_if)
  then have "sint (word_of_int (a smod m) :: u32) = a smod m" using assms(4) by (intro sint_word_of_int_small) auto
  then have "(word_of_int (a smod m) :: u32) = 0 \<longleftrightarrow> a smod m = 0" by (metis of_int_0 signed_0)
  then show ?thesis by (simp add: c_mod_def v smod_eq_0_iff)
qed

lemma chunked_last:
  assumes t: "t < unat nbThreads" and c: "0 < i" "0 < c" and l: "sint (plower b) = 0"
    and u: "0 \<le> sint (pupper b)" and rng: "int (i * c * unat nbThreads) < 2 ^ 31"
    and r: "r = kmpc_for_static_init_4 nbThreads (of_nat t) kmp_sch_static_chunked has_last (of_nat i) (of_nat c) b"
  shows "plastiter r = (if nat (sint (pupper b)) div i div c mod unat nbThreads = t then 1 else 0)"
proof -
  define n where "n = nat (sint (pupper b))"
  let ?s = "i * c" and ?nb = "unat nbThreads"
  have "plower b = word_of_int (sint (plower b))" by simp
  then have wu: "pupper b = word_of_int (int n)" "plower b = word_of_int 0" using u l by (auto simp: n_def)
  have n: "int n < 2 ^ 31" using sint_lt [of "pupper b"] u by (simp add: n_def)
  have "unat (ucast nbThreads :: u32) = ?nb"
    using unat_lt_2p [of nbThreads] by (simp add: unsigned_ucast_eq take_bit_nat_eq_self)
  then have nb: "(ucast nbThreads :: u32) = of_nat ?nb" by (metis of_nat_unat ucast_id)
  have "?s * t < ?s * ?nb" "?s \<le> ?s * ?nb" using t c by simp_all
  then have st: "int (?s * t) < int (?s * ?nb)" and s1: "int ?s \<le> int (?s * ?nb)"
    unfolding of_nat_less_iff of_nat_le_iff .
  have md: "c_mod (word_of_int (int n)) (word_of_int (int ?s)) = word_of_int (int (n mod ?s))"
  proof -
    have v: "sint (word_of_int (int n) :: u32) = int n" "sint (word_of_int (int ?s) :: u32) = int ?s"
      using n s1 rng by (intro sint_word_of_int_small; linarith)+
    show ?thesis unfolding c_mod_def v by (simp add: signed_modulo_int_def zmod_int sgn_if)
  qed
  let ?a = "int n - int (n mod ?s) - int (?s * t)"
  have a: "- (2 ^ 31) < ?a" "?a < 2 ^ 31" using n rng st mod_less_eq_dividend [of n ?s] by linarith+
  have "plastiter r = (if c_mod (word_of_int ?a) (word_of_int (int (?s * ?nb))) = 0 then 1 else 0)"
  proof -
    have w: "(of_nat i * of_nat c :: u32) = word_of_int (int ?s)"
      "(word_of_int (int ?s) * of_nat ?nb :: u32) = word_of_int (int (?s * ?nb))"
      "(word_of_int 0 + word_of_int (int ?s) * of_nat t :: u32) = word_of_int (int (?s * t))" by simp_all
    have "plastiter r = (if c_mod (pupper b - c_mod (pupper b) (of_nat i * of_nat c)
          - (plower b + of_nat i * of_nat c * of_nat t)) (of_nat i * of_nat c * of_nat ?nb) = 0 then 1 else 0)"
      unfolding r kmpc_for_static_init_4_def Let_def nb by simp
    then show ?thesis unfolding w wu md by (simp only: of_int_diff)
  qed
  also have "c_mod (word_of_int ?a) (word_of_int (int (?s * ?nb))) = 0 \<longleftrightarrow> int (?s * ?nb) dvd ?a"
    using a rng st by (intro c_mod_zero) linarith+
  also have "?a = int ?s * (int (n div ?s) - int t)"
  proof -
    have "int n = int (?s * (n div ?s)) + int (n mod ?s)" by (metis mult_div_mod_eq of_nat_add)
    then have "?a = int (?s * (n div ?s)) - int (?s * t)" by linarith
    then show ?thesis by (simp only: of_nat_mult right_diff_distrib)
  qed
  also have "int (?s * ?nb) dvd \<dots> \<longleftrightarrow> int ?nb dvd int (n div ?s) - int t" using c by simp
  also have "\<dots> \<longleftrightarrow> n div ?s mod ?nb = t"
    using t by (metis mod_eq_dvd_iff mod_less nat_int of_nat_mod zmod_int)
  finally show ?thesis by (simp add: n_def div_mult2_eq)
qed

text \<open>
  C22: the chunked schedule deals out the chunks round-robin. For positive increment and
  chunk size, thread \<open>t\<close> executes exactly the iterations whose chunk number is congruent
  to \<open>t\<close> modulo the team size, so every iteration is executed by exactly one thread. When
  the loop starts at 0 the last-iteration flag is raised exactly in the thread whose
  chunks contain the last iteration.
\<close>

theorem chunked_schedule_partition:
  assumes "t < unat nbThreads" "0 < i" "0 < c"
    and "0 \<le> sint (plower b)" "sint (plower b) \<le> sint (pupper b)"
    and "sint (plower b) + int (i * c * unat nbThreads) < 2 ^ 31"
    and r: "r = kmpc_for_static_init_4 nbThreads (of_nat t) kmp_sch_static_chunked True (of_nat i) (of_nat c) b"
  shows "chunked_iters (int i) (sint (pupper b)) r
      = {x. \<exists>j :: nat. x = sint (plower b) + int (i * j) \<and> x \<le> sint (pupper b) \<and> j div c mod unat nbThreads = t}
    \<and> (sint (plower b) = 0 \<longrightarrow> plastiter r
        = (if nat (sint (pupper b)) div i div c mod unat nbThreads = t then 1 else 0))"
proof -
  let ?l = "sint (plower b)" and ?u = "sint (pupper b)" and ?nb = "unat nbThreads"
  have "plastiter r = (if nat ?u div i div c mod ?nb = t then 1 else 0)" if "?l = 0"
    using chunked_last [OF assms(1-3) that _ _ r] assms(5,6) that by simp
  then show ?thesis using chunked_iters_spec [OF refl assms(1-3,4,6) refl r] by blast
qed

definition demo_chunks :: loop_bounds where
  "demo_chunks = \<lparr> plastiter = 0, plower = 0, pupper = 20, pstride = 1 \<rparr>"

theorem chunked_schedule_partition_witness:
  "chunked_iters (int 2) 20 (kmpc_for_static_init_4 3 (of_nat 2) kmp_sch_static_chunked True (of_nat 2) (of_nat 2) demo_chunks)
      = {x. \<exists>j :: nat. x = int (2 * j) \<and> x \<le> 20 \<and> j div 2 mod 3 = 2}
   \<and> plastiter (kmpc_for_static_init_4 3 (of_nat 2) kmp_sch_static_chunked True (of_nat 2) (of_nat 2) demo_chunks) = 1"
  using chunked_schedule_partition [of 2 3 2 2 demo_chunks, OF _ _ _ _ _ _ refl] by (simp add: demo_chunks_def)

text \<open>
  With a lower bound other than 0 the chunked schedule can lose the last-iteration
  flag: for the loop 1 .. 4 in chunks of 2 on two threads no thread sets it, although
  thread 1 executes the last iteration.
\<close>

lemma chunked_lastiter_lost:
  "let b = \<lparr> plastiter = 1, plower = 1, pupper = 4, pstride = 1 \<rparr>;
       r = \<lambda>t. kmpc_for_static_init_4 2 t kmp_sch_static_chunked True 1 2 b
   in plower (r 1) = 3 \<and> pupper (r 1) = 4 \<and> plastiter (r 0) = 0 \<and> plastiter (r 1) = 0"
  by code_simp

section \<open>Properties of the wrapper\<close>

lemma microtask_switch:
  "c_switch argc microtask_cases =
    (if argc \<le> 7 \<or> argc = 12 then [Call argc]
     else if argc \<le> 11 then map Call [argc..<13]
     else [SnrtExit (- 1), Call 0])"
proof (cases "argc \<le> 12")
  case True
  then have "argc \<in> set [0..<13]" by auto
  moreover have "\<forall>a\<in>set [0..<13]. c_switch a microtask_cases =
    (if a \<le> 7 \<or> a = 12 then [Call a] else if a \<le> 11 then map Call [a..<13] else [SnrtExit (- 1), Call 0])"
    by code_simp
  ultimately show ?thesis by blast
next
  case False
  then have "\<not> (\<exists>c\<in>set microtask_cases. fst c = Some argc)" by (auto simp: microtask_cases_def)
  then have "c_switch argc microtask_cases = [SnrtExit (- 1), Call 0]"
    unfolding c_switch_def by (simp add: microtask_cases_def)
  then show ?thesis using False by simp
qed

text \<open>
  How often a microtask runs. With at most 7 arguments or with exactly 12 the wrapper
  calls the microtask once with all its arguments. With 8 to 11 arguments the missing
  \<open>break\<close> statements make it run the microtask again with every larger number of arguments
  up to 12. With more than 12 it signals the error and then still calls the microtask,
  with no arguments.
\<close>

lemma microtask_wrapper_calls:
  "c_switch argc microtask_cases =
    (if argc \<le> 7 \<or> argc = 12 then [Call argc]
     else if argc \<le> 11 then map Call [argc..<13]
     else [SnrtExit (- 1), Call 0])"
  by (rule microtask_switch)

section \<open>Properties of the fork\<close>

text \<open>The words of the argument block.\<close>

definition arg_addr :: "u32 \<Rightarrow> nat \<Rightarrow> u32" where
  "arg_addr args i = args + 4 * of_nat i"

lemma arg_addr_nat:
  assumes "unat args + 4 * i < 2 ^ 32"
  shows "unat (arg_addr args i) = unat args + 4 * i"
proof -
  have "unat (4 * of_nat i :: u32) = 4 * i"
    using assms by (subst unat_times_no_overflow) (simp_all add: unat_of_nat_small)
  then show ?thesis using assms unfolding arg_addr_def by (subst unat_plus_no_overflow) simp_all
qed

lemma fold_stores_load:
  assumes "4 dvd unat args" "unat args + 4 * k < 2 ^ 32" "i \<le> k"
  shows "load32 (fold (\<lambda>i m. store32 m (arg_addr args i) (f i)) [1..<Suc k] m) (arg_addr args i)
    = (if i = 0 then load32 m (arg_addr args 0) else f i)"
  using assms(2,3)
proof (induction k)
  case (Suc k)
  have al: "4 dvd unat (arg_addr args j)" if "j \<le> Suc k" for j
    using assms(1) Suc.prems that by (subst arg_addr_nat) simp_all
  have ne: "arg_addr args (Suc k) \<noteq> arg_addr args i" if "i \<noteq> Suc k"
    using that Suc.prems arg_addr_nat [of args "Suc k"] arg_addr_nat [of args i] by auto
  show ?case
  proof (cases "i = Suc k")
    case False
    then show ?thesis
      using Suc al [of "Suc k"] al [of i] ne by (simp add: load32_store32_other)
  qed simp
qed simp

lemma load_fill_args:
  assumes "4 dvd unat args" "unat args + 4 * length va < 2 ^ 32" "i \<le> length va"
  shows "load32 (fill_args mt va args m) (arg_addr args i) = (if i = 0 then mt else va ! (i - 1))"
proof -
  have "fill_args mt va args m
    = fold (\<lambda>i m. store32 m (arg_addr args i) (va ! (i - 1))) [1..<Suc (length va)] (store32 m args mt)"
    by (simp add: fill_args_def arg_addr_def)
  moreover have "arg_addr args 0 = args" by (simp add: arg_addr_def)
  ultimately show ?thesis
    using fold_stores_load [OF assms, of "\<lambda>i. va ! (i - 1)" "store32 m args mt"] by simp
qed

text \<open>A byte written at word offset 12 is outside the twelve words of the block.\<close>

lemma load32_byte_other:
  assumes "a \<noteq> p" "a + 1 \<noteq> p" "a + 2 \<noteq> p" "a + 3 \<noteq> p"
  shows "load32 (m(p := v)) a = load32 m a"
  using assms by (simp add: load32_def)

lemma team_size_other:
  assumes "omp_p s = arg_addr args 12" "unat args + 52 < 2 ^ 32" "i < 12"
  shows "load32 (set_team_size nt s m) (arg_addr args i) = load32 m (arg_addr args i)"
proof -
  have "arg_addr args i + of_nat j \<noteq> arg_addr args 12" if "j < 4" for j
  proof -
    have "unat (arg_addr args i + of_nat j) = unat args + 4 * i + j"
      using assms(2,3) that by (subst unat_plus_no_overflow) (simp_all add: arg_addr_nat unat_of_nat_small)
    moreover have "unat (arg_addr args 12) = unat args + 48" using assms(2) by (simp add: arg_addr_nat)
    ultimately show ?thesis using assms(3) that by auto
  qed
  from this [of 0] this [of 1] this [of 2] this [of 3] show ?thesis
    unfolding set_team_size_def assms(1) by (intro load32_byte_other) simp_all
qed

lemma omp_init_layout:
  "kmpc_args (omp_init nb s) = snrt_l1_next (omp_alloc s)"
  "omp_p (omp_init nb s) = arg_addr (snrt_l1_next (omp_alloc s)) 12"
proof -
  have "ALIGN_UP (4 * KMP_FORK_MAX_NARGS) MIN_CHUNK_SIZE = 48"
    by (simp add: KMP_FORK_MAX_NARGS_def MIN_CHUNK_SIZE_def ALIGN_UP_def)
  then have "snrt_l1_next (snd (snrt_l1alloc (4 * KMP_FORK_MAX_NARGS) (omp_alloc s))) = snrt_l1_next (omp_alloc s) + 48"
    by (simp add: l1.alloc_next)
  then show "kmpc_args (omp_init nb s) = snrt_l1_next (omp_alloc s)"
    "omp_p (omp_init nb s) = arg_addr (snrt_l1_next (omp_alloc s)) 12"
    using l1.alloc_ret by (auto simp: omp_init_def Let_def arg_addr_def split: prod.splits)
       (metis fst_conv snd_conv l1.alloc_ret)+
qed

lemma fork_events:
  assumes s: "s = omp_init nb s0" and al: "4 dvd unat (snrt_l1_next (omp_alloc s0))"
    and room: "unat (snrt_l1_next (omp_alloc s0)) + 52 < 2 ^ 32"
    and len: "length va \<le> 12"
    and m_def: "m = set_team_size nt s (fill_args mt va (kmpc_args s) (omp_mem s))"
  shows "load32 m (kmpc_args s) = mt"
    and "i < length va \<Longrightarrow> i < 11 \<Longrightarrow> load32 m (kmpc_args s + 4 * of_nat (Suc i)) = va ! i"
proof -
  let ?a = "snrt_l1_next (omp_alloc s0)"
  have p: "kmpc_args s = ?a" "omp_p s = arg_addr ?a 12" using omp_init_layout s by simp_all
  have lim: "unat ?a + 4 * length va < 2 ^ 32" using room len by simp
  note T = team_size_other [OF p(2) room] and F = load_fill_args [OF al lim]
  have a0: "arg_addr ?a 0 = ?a" by (simp add: arg_addr_def)
  show "load32 m (kmpc_args s) = mt"
    using T [of 0] F [of 0] by (simp add: m_def p(1) a0)
  show "load32 m (kmpc_args s + 4 * of_nat (Suc i)) = va ! i" if "i < length va" "i < 11"
    using T [of "Suc i"] F [of "Suc i"] that by (simp add: m_def p(1) arg_addr_def)
qed

definition demo_omp :: omp_state where
  "demo_omp = \<lparr> omp_alloc = \<lparr> as_cls = \<lparr> cls_hw_barrier = 0, cls_l1_allocator =
       \<lparr> al_base = 0x10000000, al_size = 0x20000, al_next = 0x10000000 \<rparr> \<rparr>,
       l3_allocator = \<lparr> al_base = 0, al_size = 0, al_next = 0 \<rparr> \<rparr>,
     omp_mem = (\<lambda>_. 0), kmpc_args = 0, omp_p = 0, kmpc_barrier = 0 \<rparr>"



text \<open>
  Twelve arguments overflow the argument block. The wrapper accepts twelve arguments,
  but the block that \<open>omp_init\<close> allocates has twelve words and the function pointer takes
  the first: the twelfth argument is stored over the team size, and the store of the team
  size then replaces its low byte, so the microtask receives a wrong last argument.
\<close>

theorem fork_twelve_arguments_corrupted:
  assumes "s = omp_init nb s0" "4 dvd unat (snrt_l1_next (omp_alloc s0))"
    "unat (snrt_l1_next (omp_alloc s0)) + 52 < 2 ^ 32" "length va = 12"
  shows "\<exists>x. snd (kmpc_fork_call 0 mt nt va s) = [CallEvent mt (take 11 va @ [x])]
    \<and> ucast x = (ucast nt :: u8)"
proof -
  let ?m = "set_team_size nt s (fill_args mt va (kmpc_args s) (omp_mem s))" and ?a = "kmpc_args s"
  let ?x = "load32 ?m (?a + 4 * of_nat 12)"
  note E = fork_events [OF assms(1-3) eq_imp_le [OF assms(4)] refl, where nt = nt and mt = mt]
  have "map (\<lambda>i. load32 ?m (?a + 4 * of_nat (Suc i))) [0..<12] = take 11 va @ [?x]"
  proof (rule nth_equalityI)
    fix i
    assume "i < length (map (\<lambda>i. load32 ?m (?a + 4 * of_nat (Suc i))) [0..<12])"
    then have "i < 11 \<or> i = 11" by auto
    then show "map (\<lambda>i. load32 ?m (?a + 4 * of_nat (Suc i))) [0..<12] ! i = (take 11 va @ [?x]) ! i"
      using E(2) assms(4) by (auto simp: nth_append)
  qed (simp add: assms(4))
  moreover have "c_switch 12 microtask_cases = [Call 12]" using microtask_switch [of 12] by simp
  moreover have "?m (?a + 4 * of_nat 12) = ucast nt"
    using omp_init_layout [of nb s0] assms(1) by (simp add: set_team_size_def arg_addr_def)
  then have "ucast ?x = (ucast nt :: u8)"
    unfolding load32_def by (intro bit_word_eqI) (auto simp: bit_simps)
  ultimately show ?thesis
    using E(1) assms(4) by (simp add: kmpc_fork_call_def microtask_wrapper_def Let_def)
qed

theorem fork_twelve_arguments_corrupted_witness:
  "\<exists>x. snd (kmpc_fork_call 0 0x80001234 8 (replicate 12 0x1000) (omp_init 8 demo_omp))
      = [CallEvent 0x80001234 (take 11 (replicate 12 0x1000) @ [x])] \<and> ucast x = (ucast (8 :: u32) :: u8)"
  by (rule fork_twelve_arguments_corrupted [OF refl]) (simp_all add: demo_omp_def snrt_l1_next_def)

end
