(* ===== verification/Eu.thy ===== *)
theory Eu
  imports Interrupts
begin

text \<open>
  The event unit of the OpenMP runtime (\<open>sw/snRuntime/src/omp/eu.h\<close>, \<open>eu_decls.h\<close>): the
  main core dispatches jobs to worker cores that sleep in an event loop. Every access to
  the shared structure and to the cluster CLINT is one step; main core and workers
  interleave freely. The configuration is the default one (cluster-local CLINT).
\<close>

section \<open>State\<close>

text \<open>\<open>eu_t\<close>; a job is a function pointer with its data pointer, argument count and threads.\<close>

record job =
  j_fn :: u32
  j_data :: u32
  j_argc :: u32
  j_nthreads :: u32

record eu_t =
  workers_in_loop :: u32
  exit_flag :: u32
  workers_mutex :: u32
  workers_wfi :: u32
  e_fn :: u32
  e_data :: u32
  e_argc :: u32
  e_nthreads :: u32
  e_fini_count :: u32

text \<open>
  The next access of a worker in \<open>eu_event_loop\<close>: count itself in, test the exit flag,
  compare its index with the number of threads, call the function, count itself finished,
  and the four accesses of \<open>worker_wfi\<close>.
\<close>

datatype wpc = WCount | WExitTest | WNthTest | WRun | WFini | WWfiUp | WSleep | WClear | WWfiDown | WDone

text \<open>
  The next access of the main core: the wait of the bootstrap, \<open>eu_dispatch_push\<close>
  (\<open>MPush1\<close> to \<open>MN\<close>), \<open>eu_run_empty\<close> (\<open>MRun0\<close> to \<open>MClr\<close>, with \<open>wake_workers\<close> in \<open>MWake1\<close> to
  \<open>MWake3\<close>), and \<open>eu_exit\<close> (\<open>MX1\<close> to \<open>MX6\<close>). Words are the local variables \<open>scratch\<close>. The test at
  the head of \<open>eu_exit\<close> only reads: it calls \<open>eu_run_empty\<close> when \<open>nthreads\<close> is zero, which
  then returns at once, so \<open>MX1\<close> is the first access that matters.
\<close>

datatype mpc = MBoot | MIdle
  | MPush1 job | MPush2 job u32 | MFn job | MN job
  | MRun0 job | MZero job u32 | MWake1 job u32 | MWake2 job u32 u32 | MWake3 job u32
  | MSelf job u32 | MJoin1 job u32 | MJoin2 job u32 u32 | MClr job u32
  | MX1 | MX2 u32 | MX3 | MX4 | MX5 u32 | MX6 | MEnd

text \<open>
  \<open>todo\<close> is what the main program still wants to run; \<open>finished_jobs\<close> and \<open>ran\<close> (the calls
  each core has made, in order) only observe.
\<close>

record eu_state =
  eu :: eu_t
  clint :: u32
  wpcs :: "nat \<Rightarrow> wpc"
  main :: mpc
  todo :: "job list"
  finished_jobs :: "job list"
  ran :: "nat \<Rightarrow> (u32 \<times> u32 \<times> u32) list"

section \<open>Operations\<close>

definition setw :: "nat \<Rightarrow> wpc \<Rightarrow> eu_state \<Rightarrow> eu_state" where
  "setw w p s = s\<lparr> wpcs := (wpcs s)(w := p) \<rparr>"

definition call_job :: "nat \<Rightarrow> eu_state \<Rightarrow> eu_state" where
  "call_job c s = s\<lparr> ran := (ran s)(c := ran s c @ [(e_fn (eu s), e_data (eu s), e_argc (eu s))]) \<rparr>"

definition upd_eu :: "(eu_t \<Rightarrow> eu_t) \<Rightarrow> eu_state \<Rightarrow> eu_state" where
  "upd_eu f s = s\<lparr> eu := f (eu s) \<rparr>"

text \<open>\<open>worker_wfi\<close>, one access of worker \<open>w\<close>; \<open>snrt_wfi\<close> resumes when its cluster interrupt is pending.\<close>

definition worker_wfi :: "nat \<Rightarrow> eu_state \<Rightarrow> eu_state" where
  "worker_wfi w s = (case wpcs s w of
      WWfiUp \<Rightarrow> setw w WSleep (upd_eu (\<lambda>e. e\<lparr> workers_wfi := workers_wfi e + 1 \<rparr>) s)
    | WSleep \<Rightarrow> (if bit (clint s) w then setw w WClear s else s)
    | WClear \<Rightarrow> setw w WWfiDown (s\<lparr> clint := snrt_int_cluster_clr (push_bit w 1) (clint s) \<rparr>)
    | WWfiDown \<Rightarrow> setw w WExitTest (upd_eu (\<lambda>e. e\<lparr> workers_wfi := workers_wfi e - 1 \<rparr>) s)
    | _ \<Rightarrow> s)"

text \<open>
  \<open>eu_event_loop\<close>, one access of worker \<open>w\<close>. The reads of \<open>fn\<close>, \<open>data\<close> and \<open>argc\<close> for the call
  are one step: the main core writes these fields only while every worker sleeps.
\<close>

definition eu_event_loop :: "nat \<Rightarrow> eu_state \<Rightarrow> eu_state" where
  "eu_event_loop w s = (case wpcs s w of
      WCount \<Rightarrow> setw w WExitTest (upd_eu (\<lambda>e. e\<lparr> workers_in_loop := workers_in_loop e + 1 \<rparr>) s)
    | WExitTest \<Rightarrow> setw w (if exit_flag (eu s) \<noteq> 0 then WDone else WNthTest) s
    | WNthTest \<Rightarrow> setw w (if of_nat w < e_nthreads (eu s) then WRun else WFini) s
    | WRun \<Rightarrow> setw w WFini (call_job w s)
    | WFini \<Rightarrow> setw w WWfiUp (upd_eu (\<lambda>e. e\<lparr> e_fini_count := e_fini_count e + 1 \<rparr>) s)
    | WDone \<Rightarrow> s
    | _ \<Rightarrow> worker_wfi w s)"

text \<open>\<open>wake_workers\<close> writes the mask of all compute cores but core 0.\<close>

definition wake_mask :: "nat \<Rightarrow> u32" where
  "wake_mask numcores = NOT 1 AND (push_bit numcores 1 - 1)"

definition wake_workers :: "nat \<Rightarrow> eu_state \<Rightarrow> eu_state" where
  "wake_workers numcores s = s\<lparr> clint := snrt_int_cluster_set (wake_mask numcores) (clint s) \<rparr>"

definition goto :: "mpc \<Rightarrow> eu_state \<Rightarrow> eu_state" where
  "goto p s = s\<lparr> main := p \<rparr>"

text \<open>\<open>wait_worker_wfi\<close>: the read of \<open>scratch\<close>, and one poll of the counter.\<close>

definition wait_worker_read :: "(u32 \<Rightarrow> mpc) \<Rightarrow> eu_state \<Rightarrow> eu_state" where
  "wait_worker_read p s = goto (p (workers_in_loop (eu s))) s"

definition wait_worker_wfi :: "u32 \<Rightarrow> mpc \<Rightarrow> eu_state \<Rightarrow> eu_state" where
  "wait_worker_wfi x p s = (if workers_wfi (eu s) = x then goto p s else s)"

definition eu_dispatch_push :: "eu_state \<Rightarrow> eu_state" where
  "eu_dispatch_push s = (case main s of
      MPush1 j \<Rightarrow> wait_worker_read (MPush2 j) s
    | MPush2 j x \<Rightarrow> wait_worker_wfi x (MFn j) s
    | MFn j \<Rightarrow> goto (MN j) (upd_eu (\<lambda>e. e\<lparr> e_fn := j_fn j, e_data := j_data j, e_argc := j_argc j \<rparr>) s)
    | MN j \<Rightarrow> goto (MRun0 j) (upd_eu (\<lambda>e. e\<lparr> e_nthreads := j_nthreads j \<rparr>) s)
    | _ \<Rightarrow> s)"

text \<open>\<open>eu_run_empty\<close> as core 0 of a cluster with \<open>n\<close> compute cores calls it.\<close>

definition eu_run_empty :: "nat \<Rightarrow> eu_state \<Rightarrow> eu_state" where
  "eu_run_empty n s = (case main s of
      MRun0 j \<Rightarrow> (let x = e_nthreads (eu s) in
        if x = 0 then s\<lparr> main := MIdle, finished_jobs := finished_jobs s @ [j] \<rparr> else goto (MZero j x) s)
    | MZero j x \<Rightarrow> goto (if 1 < x then MWake1 j x else MSelf j x) (upd_eu (\<lambda>e. e\<lparr> e_fini_count := 0 \<rparr>) s)
    | MWake1 j x \<Rightarrow> wait_worker_read (MWake2 j x) s
    | MWake2 j x y \<Rightarrow> wait_worker_wfi y (MWake3 j x) s
    | MWake3 j x \<Rightarrow> goto (MSelf j x) (wake_workers n s)
    | MSelf j x \<Rightarrow> goto (if 1 < x then MJoin1 j x else MClr j x) (if 0 < e_nthreads (eu s) then call_job 0 s else s)
    | MJoin1 j x \<Rightarrow> goto (MJoin2 j x (workers_in_loop (eu s))) s
    | MJoin2 j x y \<Rightarrow> (if e_fini_count (eu s) = y then goto (MClr j x) s else s)
    | MClr j x \<Rightarrow> (upd_eu (\<lambda>e. e\<lparr> e_nthreads := 0 \<rparr>) s)\<lparr> main := MIdle, finished_jobs := finished_jobs s @ [j] \<rparr>
    | _ \<Rightarrow> s)"

definition eu_exit :: "nat \<Rightarrow> eu_state \<Rightarrow> eu_state" where
  "eu_exit n s = (case main s of
      MX1 \<Rightarrow> wait_worker_read MX2 s
    | MX2 x \<Rightarrow> wait_worker_wfi x MX3 s
    | MX3 \<Rightarrow> goto MX4 (upd_eu (\<lambda>e. e\<lparr> exit_flag := 1 \<rparr>) s)
    | MX4 \<Rightarrow> wait_worker_read MX5 s
    | MX5 x \<Rightarrow> wait_worker_wfi x MX6 s
    | MX6 \<Rightarrow> goto MEnd (wake_workers n s)
    | _ \<Rightarrow> s)"

text \<open>
  The main core, one access: the wait of \<open>snrt_omp_bootstrap\<close>, then for each job
  \<open>eu_dispatch_push\<close> and \<open>eu_run_empty\<close>, the way \<open>parallelRegion\<close> calls them, then \<open>eu_exit\<close>.
\<close>

definition eu_main :: "nat \<Rightarrow> eu_state \<Rightarrow> eu_state" where
  "eu_main n s = (case main s of
      MBoot \<Rightarrow> (if workers_wfi (eu s) = of_nat n - 1 then goto MIdle s else s)
    | MIdle \<Rightarrow> (case todo s of
          [] \<Rightarrow> goto MX1 s
        | j # js \<Rightarrow> s\<lparr> main := MPush1 j, todo := js \<rparr>)
    | MPush1 j \<Rightarrow> eu_dispatch_push s | MPush2 j x \<Rightarrow> eu_dispatch_push s
    | MFn j \<Rightarrow> eu_dispatch_push s | MN j \<Rightarrow> eu_dispatch_push s
    | MX1 \<Rightarrow> eu_exit n s | MX2 x \<Rightarrow> eu_exit n s | MX3 \<Rightarrow> eu_exit n s
    | MX4 \<Rightarrow> eu_exit n s | MX5 x \<Rightarrow> eu_exit n s | MX6 \<Rightarrow> eu_exit n s
    | MEnd \<Rightarrow> s
    | _ \<Rightarrow> eu_run_empty n s)"

definition eu_step :: "nat \<Rightarrow> eu_state \<Rightarrow> eu_state \<Rightarrow> bool" where
  "eu_step n s t \<longleftrightarrow> t = eu_main n s \<or> (\<exists>w\<in>{1..<n}. t = eu_event_loop w s)"

text \<open>After \<open>eu_init\<close>: the structure is zero, the workers are about to enter the loop.\<close>

definition eu_init :: eu_t where
  "eu_init = \<lparr> workers_in_loop = 0, exit_flag = 0, workers_mutex = 0, workers_wfi = 0, e_fn = 0, e_data = 0,
     e_argc = 0, e_nthreads = 0, e_fini_count = 0 \<rparr>"

definition eu_start :: "nat \<Rightarrow> job list \<Rightarrow> eu_state \<Rightarrow> bool" where
  "eu_start n js s \<longleftrightarrow> 0 < n \<and> n < 32 \<and> eu s = eu_init \<and> clint s = 0 \<and> (\<forall>w\<in>{1..<n}. wpcs s w = WCount)
     \<and> main s = MBoot \<and> todo s = js \<and> finished_jobs s = [] \<and> (\<forall>c. ran s c = [])"

lemmas eu_main_defs = eu_main_def eu_dispatch_push_def eu_run_empty_def eu_exit_def wait_worker_read_def
  wait_worker_wfi_def wake_workers_def goto_def

section \<open>The invariant\<close>

definition asleep :: "eu_state \<Rightarrow> nat \<Rightarrow> bool" where
  "asleep s w \<longleftrightarrow> wpcs s w = WSleep \<and> \<not> bit (clint s) w"

text \<open>A worker that has counted itself finished and is going to sleep or asleep.\<close>

definition finished :: "eu_state \<Rightarrow> nat \<Rightarrow> bool" where
  "finished s w \<longleftrightarrow> \<not> bit (clint s) w \<and> (wpcs s w = WWfiUp \<or> wpcs s w = WSleep)"

definition in_wfi :: "wpc \<Rightarrow> bool" where
  "in_wfi p \<longleftrightarrow> p = WSleep \<or> p = WClear \<or> p = WWfiDown"

text \<open>What the phase of the main core says about every worker.\<close>

datatype eu_phase = Boot | Quiet | Parked | Active job | Exiting

definition phase_of :: "mpc \<Rightarrow> eu_phase" where
  "phase_of m = (case m of
      MBoot \<Rightarrow> Boot
    | MIdle \<Rightarrow> Quiet | MPush1 j \<Rightarrow> Quiet | MPush2 j x \<Rightarrow> Quiet | MX1 \<Rightarrow> Quiet | MX2 x \<Rightarrow> Quiet
    | MSelf j x \<Rightarrow> (if 1 < x then Active j else Parked)
    | MJoin1 j x \<Rightarrow> Active j | MJoin2 j x y \<Rightarrow> Active j
    | MClr j x \<Rightarrow> Quiet
    | MEnd \<Rightarrow> Exiting
    | _ \<Rightarrow> Parked)"

definition worker_ok :: "eu_phase \<Rightarrow> eu_state \<Rightarrow> nat \<Rightarrow> bool" where
  "worker_ok ph s w \<longleftrightarrow> (case ph of
      Boot \<Rightarrow> \<not> bit (clint s) w \<and> wpcs s w \<in> {WCount, WExitTest, WNthTest, WFini, WWfiUp, WSleep}
    | Quiet \<Rightarrow> finished s w
    | Parked \<Rightarrow> asleep s w
    | Active j \<Rightarrow> finished s w \<or> bit (clint s) w \<and> wpcs s w \<in> {WSleep, WClear}
        \<or> \<not> bit (clint s) w \<and> wpcs s w \<in> {WWfiDown, WExitTest, WNthTest, WFini}
        \<or> \<not> bit (clint s) w \<and> wpcs s w = WRun \<and> of_nat w < j_nthreads j
    | Exiting \<Rightarrow> bit (clint s) w \<and> wpcs s w \<in> {WSleep, WClear}
        \<or> \<not> bit (clint s) w \<and> wpcs s w \<in> {WWfiDown, WExitTest, WDone})"

text \<open>Whether the worker is through with the current job.\<close>

definition past :: "eu_state \<Rightarrow> nat \<Rightarrow> bool" where
  "past s w \<longleftrightarrow> finished s w \<or> wpcs s w = WFini"

definition job_call :: "job \<Rightarrow> u32 \<times> u32 \<times> u32" where
  "job_call j = (j_fn j, j_data j, j_argc j)"

definition share :: "nat \<Rightarrow> job \<Rightarrow> (u32 \<times> u32 \<times> u32) list" where
  "share c j = (if of_nat c < j_nthreads j then [job_call j] else [])"

definition expected :: "nat \<Rightarrow> job list \<Rightarrow> (u32 \<times> u32 \<times> u32) list" where
  "expected c js = concat (map (share c) js)"

text \<open>What a worker has run of the current job.\<close>

definition clr_share :: "mpc \<Rightarrow> nat \<Rightarrow> (u32 \<times> u32 \<times> u32) list" where
  "clr_share m w = (case m of MClr j x \<Rightarrow> share w j | _ \<Rightarrow> [])"

definition cshare :: "mpc \<Rightarrow> bool \<Rightarrow> nat \<Rightarrow> (u32 \<times> u32 \<times> u32) list" where
  "cshare m b w = (case phase_of m of Active j \<Rightarrow> (if b then share w j else []) | _ \<Rightarrow> clr_share m w)"

definition current_share :: "eu_state \<Rightarrow> nat \<Rightarrow> (u32 \<times> u32 \<times> u32) list" where
  "current_share s w = cshare (main s) (past s w) w"

definition main_share :: "eu_state \<Rightarrow> (u32 \<times> u32 \<times> u32) list" where
  "main_share s = (case main s of
      MJoin1 j x \<Rightarrow> share 0 j | MJoin2 j x y \<Rightarrow> share 0 j | MClr j x \<Rightarrow> share 0 j | _ \<Rightarrow> [])"

definition loaded :: "job \<Rightarrow> eu_t \<Rightarrow> bool" where
  "loaded j e \<longleftrightarrow> e_fn e = j_fn j \<and> e_data e = j_data j \<and> e_argc e = j_argc j"

text \<open>The main core's local variables and the event it has stored.\<close>

definition stored :: "job \<Rightarrow> eu_t \<Rightarrow> bool" where
  "stored j e \<longleftrightarrow> loaded j e \<and> e_nthreads e = j_nthreads j"

definition main_ok :: "nat \<Rightarrow> eu_t \<Rightarrow> mpc \<Rightarrow> bool" where
  "main_ok n e m \<longleftrightarrow> (case m of
      MBoot \<Rightarrow> e_nthreads e = 0
    | MPush2 j x \<Rightarrow> x = of_nat (n - 1)
    | MN j \<Rightarrow> loaded j e
    | MRun0 j \<Rightarrow> stored j e
    | MZero j x \<Rightarrow> stored j e \<and> x = j_nthreads j \<and> x \<noteq> 0
    | MWake1 j x \<Rightarrow> stored j e \<and> x = j_nthreads j \<and> 1 < x \<and> e_fini_count e = 0
    | MWake2 j x y \<Rightarrow> stored j e \<and> x = j_nthreads j \<and> 1 < x \<and> e_fini_count e = 0 \<and> y = of_nat (n - 1)
    | MWake3 j x \<Rightarrow> stored j e \<and> x = j_nthreads j \<and> 1 < x \<and> e_fini_count e = 0
    | MSelf j x \<Rightarrow> stored j e \<and> x = j_nthreads j \<and> x \<noteq> 0
    | MJoin1 j x \<Rightarrow> stored j e \<and> x = j_nthreads j \<and> 1 < x
    | MJoin2 j x y \<Rightarrow> stored j e \<and> x = j_nthreads j \<and> 1 < x \<and> y = of_nat (n - 1)
    | MClr j x \<Rightarrow> x = j_nthreads j \<and> x \<noteq> 0
    | MX2 x \<Rightarrow> x = of_nat (n - 1)
    | MX5 x \<Rightarrow> x = of_nat (n - 1)
    | _ \<Rightarrow> True)"

definition exiting :: "mpc \<Rightarrow> bool" where
  "exiting m \<longleftrightarrow> m = MX4 \<or> (\<exists>x. m = MX5 x) \<or> m = MX6 \<or> m = MEnd"

abbreviation how_many :: "nat \<Rightarrow> (nat \<Rightarrow> bool) \<Rightarrow> nat" where
  "how_many n P \<equiv> card {w \<in> {1..<n}. P w}"

definition counts_ok :: "nat \<Rightarrow> eu_state \<Rightarrow> bool" where
  "counts_ok n s \<longleftrightarrow> workers_wfi (eu s) = of_nat (how_many n (\<lambda>w. in_wfi (wpcs s w)))
     \<and> workers_in_loop (eu s) = of_nat (how_many n (\<lambda>w. wpcs s w \<noteq> WCount))
     \<and> (\<forall>j. phase_of (main s) = Active j \<longrightarrow> e_fini_count (eu s) = of_nat (how_many n (finished s)))"

definition eu_inv :: "nat \<Rightarrow> eu_state \<Rightarrow> bool" where
  "eu_inv n s \<longleftrightarrow> 0 < n \<and> n < 32 \<and> counts_ok n s
     \<and> exit_flag (eu s) = (if exiting (main s) then 1 else 0)
     \<and> (\<forall>w\<in>{1..<n}. worker_ok (phase_of (main s)) s w)
     \<and> (\<forall>w\<in>{1..<n}. ran s w = expected w (finished_jobs s) @ current_share s w)
     \<and> ran s 0 = expected 0 (finished_jobs s) @ main_share s
     \<and> main_ok n (eu s) (main s)"

section \<open>Counting\<close>

lemma how_many_same:
  assumes "\<And>v. v \<in> {1..<n} \<Longrightarrow> Q v = P v"
  shows "how_many n Q = how_many n P"
  using assms by (metis (mono_tags, lifting))

lemma how_many_up:
  assumes "w \<in> {1..<n}" "\<And>v. v \<noteq> w \<Longrightarrow> Q v = P v" "Q w" "\<not> P w"
  shows "how_many n Q = Suc (how_many n P)"
proof -
  have "{v \<in> {1..<n}. Q v} = insert w {v \<in> {1..<n}. P v}"
    using assms(1,3) assms(2) by (auto; metis)
  then show ?thesis using assms(4) by simp
qed

lemma how_many_le: "how_many n P \<le> n - 1"
proof -
  have "card {w \<in> {1..<n}. P w} \<le> card {1..<n}" by (intro card_mono) auto
  then show ?thesis by simp
qed

lemma how_many_all:
  assumes "(of_nat (how_many n P) :: u32) = of_nat (n - 1)" "n < 32" "w \<in> {1..<n}"
  shows "P w"
proof -
  have "how_many n P = n - 1"
    using assms(1,2) how_many_le [of n P] by (intro of_nat_word_inj [where 'a = 32]) auto
  then have "card {w \<in> {1..<n}. P w} = card {1..<n}" by simp
  then have "{w \<in> {1..<n}. P w} = {1..<n}" by (intro card_subset_eq) auto
  then show ?thesis using assms(3) by blast
qed

lemma how_many_everyone: "\<forall>w\<in>{1..<n}. P w \<Longrightarrow> how_many n P = n - 1"
proof -
  assume "\<forall>w\<in>{1..<n}. P w"
  then have "{w \<in> {1..<n}. P w} = {1..<n}" by auto
  then show ?thesis by simp
qed

section \<open>Steps of a worker\<close>

lemma bit_clear_own [simp]: "bit (snrt_int_cluster_clr (2 ^ w) q) v \<longleftrightarrow> bit q v \<and> (v \<noteq> w)"
  by (auto simp: snrt_int_cluster_clr_def bit_simps dest: bit_imp_le_length)

lemma worker_frame:
  assumes "t = eu_event_loop w s"
  shows "v \<noteq> w \<Longrightarrow> wpcs t v = wpcs s v" "v \<noteq> w \<Longrightarrow> bit (clint t) v = bit (clint s) v"
    "v \<noteq> w \<Longrightarrow> ran t v = ran s v"
    "main t = main s" "finished_jobs t = finished_jobs s" "todo t = todo s"
    "exit_flag (eu t) = exit_flag (eu s)" "e_nthreads (eu t) = e_nthreads (eu s)"
    "e_fn (eu t) = e_fn (eu s)" "e_data (eu t) = e_data (eu s)" "e_argc (eu t) = e_argc (eu s)"
  unfolding assms eu_event_loop_def worker_wfi_def
  by (cases "wpcs s w"; simp add: setw_def upd_eu_def call_job_def)+

lemmas worker_defs = eu_event_loop_def worker_wfi_def setw_def upd_eu_def call_job_def

text \<open>The worker itself stays in the states its phase allows and runs its share once.\<close>

lemma worker_own:
  assumes "worker_ok ph s w" "exit_flag (eu s) = (if ph = Exiting then 1 else 0)"
    and "ph = Boot \<Longrightarrow> e_nthreads (eu s) = 0" "\<And>j. ph = Active j \<Longrightarrow> e_nthreads (eu s) = j_nthreads j"
  shows "worker_ok ph (eu_event_loop w s) w"
  using assms
  by (cases "wpcs s w"; cases ph) (auto simp: worker_defs worker_ok_def finished_def asleep_def)

lemma worker_own_share:
  assumes "worker_ok (Active j) s w" "exit_flag (eu s) = 0" "stored j (eu s)"
    and "ran s w = b @ (if past s w then share w j else [])"
  shows "ran (eu_event_loop w s) w = b @ (if past (eu_event_loop w s) w then share w j else [])"
  using assms
  by (cases "wpcs s w")
    (auto simp: worker_defs worker_ok_def past_def finished_def asleep_def share_def stored_def loaded_def job_call_def)

lemma worker_own_idle:
  assumes "worker_ok ph s w" "\<And>j. ph \<noteq> Active j"
  shows "ran (eu_event_loop w s) w = ran s w"
  using assms
  by (cases "wpcs s w"; cases ph) (auto simp: worker_defs worker_ok_def finished_def asleep_def)

text \<open>The three counters follow the worker.\<close>

lemma worker_wfi_count:
  assumes "w \<in> {1..<n}" "workers_wfi (eu s) = of_nat (how_many n (\<lambda>w. in_wfi (wpcs s w)))" "t = eu_event_loop w s"
  shows "workers_wfi (eu t) = of_nat (how_many n (\<lambda>w. in_wfi (wpcs t w)))"
proof -
  have oth: "v \<noteq> w \<Longrightarrow> in_wfi (wpcs t v) = in_wfi (wpcs s v)" for v using worker_frame [OF assms(3)] by simp
  consider "in_wfi (wpcs t w) = in_wfi (wpcs s w)" "workers_wfi (eu t) = workers_wfi (eu s)"
    | "\<not> in_wfi (wpcs s w)" "in_wfi (wpcs t w)" "workers_wfi (eu t) = workers_wfi (eu s) + 1"
    | "in_wfi (wpcs s w)" "\<not> in_wfi (wpcs t w)" "workers_wfi (eu t) = workers_wfi (eu s) - 1"
    unfolding assms(3) by (cases "wpcs s w") (auto simp: worker_defs in_wfi_def)
  then show ?thesis
  proof cases
    case 1
    then have "in_wfi (wpcs t v) = in_wfi (wpcs s v)" for v using oth [of v] by (cases "v = w") auto
    then show ?thesis using 1 assms(2) by simp
  next
    case 2
    then show ?thesis
      using how_many_up [OF assms(1), of "\<lambda>v. in_wfi (wpcs t v)" "\<lambda>v. in_wfi (wpcs s v)"] oth assms(2) by simp
  next
    case 3
    then show ?thesis
      using how_many_up [OF assms(1), of "\<lambda>v. in_wfi (wpcs s v)" "\<lambda>v. in_wfi (wpcs t v)"] oth assms(2) by simp
  qed
qed

lemma worker_loop_count:
  assumes "w \<in> {1..<n}" "workers_in_loop (eu s) = of_nat (how_many n (\<lambda>w. wpcs s w \<noteq> WCount))" "t = eu_event_loop w s"
  shows "workers_in_loop (eu t) = of_nat (how_many n (\<lambda>w. wpcs t w \<noteq> WCount))"
proof -
  have oth: "v \<noteq> w \<Longrightarrow> (wpcs t v \<noteq> WCount) = (wpcs s v \<noteq> WCount)" for v using worker_frame [OF assms(3)] by simp
  consider "(wpcs t w \<noteq> WCount) = (wpcs s w \<noteq> WCount)" "workers_in_loop (eu t) = workers_in_loop (eu s)"
    | "wpcs s w = WCount" "wpcs t w \<noteq> WCount" "workers_in_loop (eu t) = workers_in_loop (eu s) + 1"
    unfolding assms(3) by (cases "wpcs s w") (auto simp: worker_defs)
  then show ?thesis
  proof cases
    case 1
    then have "(wpcs t v \<noteq> WCount) = (wpcs s v \<noteq> WCount)" for v using oth [of v] by (cases "v = w") auto
    then show ?thesis using 1 assms(2) by simp
  next
    case 2
    then show ?thesis
      using how_many_up [OF assms(1), of "\<lambda>v. wpcs t v \<noteq> WCount" "\<lambda>v. wpcs s v \<noteq> WCount"] oth assms(2) by simp
  qed
qed

lemma worker_fini_count:
  assumes "w \<in> {1..<n}" "e_fini_count (eu s) = of_nat (how_many n (finished s))" "t = eu_event_loop w s"
    and "worker_ok (Active j) s w" "exit_flag (eu s) = 0"
  shows "e_fini_count (eu t) = of_nat (how_many n (finished t))"
proof -
  have oth: "v \<noteq> w \<Longrightarrow> finished t v = finished s v" for v
    using worker_frame [OF assms(3)] by (simp add: finished_def)
  consider "finished t w = finished s w" "e_fini_count (eu t) = e_fini_count (eu s)"
    | "\<not> finished s w" "finished t w" "e_fini_count (eu t) = e_fini_count (eu s) + 1"
    using assms(4,5) unfolding assms(3)
    by (cases "wpcs s w") (auto simp: worker_defs worker_ok_def finished_def)
  then show ?thesis
  proof cases
    case 1
    then have "finished t v = finished s v" for v using oth [of v] by (cases "v = w") auto
    then show ?thesis using 1 assms(2) by simp
  next
    case 2
    then show ?thesis using how_many_up [OF assms(1), of "finished t" "finished s"] oth assms(2) by simp
  qed
qed

lemma phase_facts:
  "phase_of m = Boot \<longleftrightarrow> m = MBoot" "phase_of m = Exiting \<longleftrightarrow> m = MEnd"
  "phase_of m \<noteq> Parked \<Longrightarrow> exiting m \<longleftrightarrow> phase_of m = Exiting"
  "phase_of m = Active j \<Longrightarrow> main_ok n e m \<Longrightarrow> stored j e"
  by (auto simp: phase_of_def exiting_def main_ok_def split: mpc.splits if_splits)

lemma main_ok_frame:
  assumes "e_nthreads e' = e_nthreads e" "loaded j e' = loaded j e" "e_fini_count e' = e_fini_count e"
    "\<And>j. loaded j e' = loaded j e"
  shows "main_ok n e' m = main_ok n e m"
  using assms by (simp add: main_ok_def stored_def split: mpc.splits)

lemma main_ok_fini:
  assumes "main_ok n e m" "phase_of m \<noteq> Parked" "e_nthreads e' = e_nthreads e" "\<And>j. loaded j e' = loaded j e"
  shows "main_ok n e' m"
  using assms by (auto simp: main_ok_def stored_def phase_of_def split: mpc.splits if_splits)

lemma parked_stays:
  assumes "worker_ok Parked s w"
  shows "eu_event_loop w s = s"
  using assms by (simp add: worker_ok_def asleep_def eu_event_loop_def worker_wfi_def)

lemma worker_step_inv:
  assumes inv: "eu_inv n s" and w: "w \<in> {1..<n}"
  shows "eu_inv n (eu_event_loop w s)" (is "eu_inv n ?t")
proof (cases "phase_of (main s) = Parked")
  case True
  then show ?thesis using inv w parked_stays [of s w] by (simp add: eu_inv_def)
next
  case np: False
  note F = worker_frame [OF refl, where w = w and s = s]
  let ?ph = "phase_of (main s)"
  have ok: "\<And>v. v \<in> {1..<n} \<Longrightarrow> worker_ok ?ph s v" and m: "main_ok n (eu s) (main s)"
    and cnt: "counts_ok n s" and ran: "\<And>v. v \<in> {1..<n} \<Longrightarrow> ran s v = expected v (finished_jobs s) @ current_share s v"
    and ex: "exit_flag (eu s) = (if exiting (main s) then 1 else 0)"
    using inv by (auto simp: eu_inv_def)
  have ex': "exit_flag (eu s) = (if ?ph = Exiting then 1 else 0)" using ex phase_facts(3) [OF np] by simp
  have act: "stored j (eu s)" if "?ph = Active j" for j using phase_facts(4) [OF that m] .
  have wok: "worker_ok ?ph ?t w"
    using ok [OF w] ex' act m phase_facts(1) by (intro worker_own) (auto simp: stored_def main_ok_def)
  have wok': "worker_ok ?ph ?t v" if "v \<in> {1..<n}" for v
    using wok ok [OF that] F(1,2) [of v] by (cases "v = w") (simp_all add: worker_ok_def finished_def asleep_def split: eu_phase.splits)
  have past: "past ?t v = past s v" if "v \<noteq> w" for v using F(1,2) [OF that] by (simp add: past_def finished_def)
  have r: "ran ?t v = expected v (finished_jobs s) @ current_share ?t v" if "v \<in> {1..<n}" for v
  proof (cases "v = w")
    case True
    show ?thesis
    proof (cases "\<exists>j. ?ph = Active j")
      case act': True
      then obtain j where j: "?ph = Active j" by blast
      then show ?thesis
        using worker_own_share [of j s w "expected w (finished_jobs s)"] ok [OF w] ran [OF w] act [OF j] ex' True F(4)
        by (simp add: current_share_def cshare_def)
    next
      case na: False
      then show ?thesis
        using worker_own_idle [OF ok [OF w]] ran [OF w] True F(4) by (simp add: current_share_def cshare_def split: eu_phase.splits)
    qed
  next
    case False
    then show ?thesis
      using ran [OF that] F(3,4) past [OF False] by (simp add: current_share_def cshare_def split: eu_phase.splits)
  qed
  have c: "counts_ok n ?t"
    using cnt worker_wfi_count [OF w _ refl, of s] worker_loop_count [OF w _ refl, of s]
      worker_fini_count [OF w _ refl _ , of s] ok [OF w] ex' F(4)
    by (auto simp: counts_ok_def)
  have l: "loaded j (eu ?t) = loaded j (eu s)" for j using F(9-11) by (simp add: loaded_def)
  have mo: "main_ok n (eu ?t) (main ?t)" using main_ok_fini [OF m np] F(4,8) l by simp
  have "ran ?t 0 = expected 0 (finished_jobs s) @ main_share ?t"
    using inv w F(3) [of 0] F(4) by (simp add: eu_inv_def main_share_def)
  then show ?thesis
    using inv wok' r c mo F(4-7) unfolding eu_inv_def by simp
qed

section \<open>Steps of the main core\<close>

lemma expected_snoc [simp]: "expected c (js @ [j]) = expected c js @ share c j"
  by (simp add: expected_def)

lemma bit_wake_mask:
  assumes "n < 32"
  shows "bit (wake_mask n) w \<longleftrightarrow> 1 \<le> w \<and> w < n"
proof -
  have "push_bit n 1 - 1 = (mask n :: u32)" by (simp add: mask_eq_exp_minus_1)
  then show ?thesis using assms by (auto simp: wake_mask_def bit_simps bit_1_iff)
qed

text \<open>
  A step of the main core that leaves the CLINT alone keeps the invariant when the new
  phase fits the workers and the books are balanced.
\<close>

lemma main_step_inv:
  assumes inv: "eu_inv n s"
    and t: "wpcs t = wpcs s" "clint t = clint s" "workers_wfi (eu t) = workers_wfi (eu s)"
      "workers_in_loop (eu t) = workers_in_loop (eu s)"
    and ok: "\<And>w. w \<in> {1..<n} \<Longrightarrow> worker_ok (phase_of (main t)) s w"
    and r: "\<And>w. w \<in> {1..<n} \<Longrightarrow> ran t w = expected w (finished_jobs t) @ cshare (main t) (past s w) w"
      "ran t 0 = expected 0 (finished_jobs t) @ main_share t"
    and ex: "exit_flag (eu t) = (if exiting (main t) then 1 else 0)" and m: "main_ok n (eu t) (main t)"
    and fini: "\<And>j. phase_of (main t) = Active j \<Longrightarrow> e_fini_count (eu t) = of_nat (how_many n (finished s))"
  shows "eu_inv n t"
proof -
  have fin: "finished t = finished s" and sl: "asleep t = asleep s"
    using t(1,2) by (auto simp: finished_def asleep_def fun_eq_iff)
  have "worker_ok ph t w = worker_ok ph s w" for ph w
    using t(1,2) fin sl by (simp add: worker_ok_def split: eu_phase.splits)
  moreover have "past t = past s" using fin t(1) by (simp add: past_def fun_eq_iff)
  ultimately show ?thesis
    using inv t ok r ex m fini unfolding eu_inv_def counts_ok_def fin current_share_def by simp
qed

lemma inv_facts:
  assumes "eu_inv n s"
  shows "0 < n" "n < 32" "w \<in> {1..<n} \<Longrightarrow> worker_ok (phase_of (main s)) s w"
    "w \<in> {1..<n} \<Longrightarrow> ran s w = expected w (finished_jobs s) @ cshare (main s) (past s w) w"
    "ran s 0 = expected 0 (finished_jobs s) @ main_share s"
    "exit_flag (eu s) = (if exiting (main s) then 1 else 0)" "main_ok n (eu s) (main s)"
    "workers_wfi (eu s) = of_nat (how_many n (\<lambda>w. in_wfi (wpcs s w)))"
    "workers_in_loop (eu s) = of_nat (how_many n (\<lambda>w. wpcs s w \<noteq> WCount))"
    "phase_of (main s) = Active j \<Longrightarrow> e_fini_count (eu s) = of_nat (how_many n (finished s))"
  using assms by (auto simp: eu_inv_def counts_ok_def current_share_def)

lemma in_loop_all:
  assumes inv: "eu_inv n s" and "main s \<noteq> MBoot"
  shows "workers_in_loop (eu s) = of_nat (n - 1)"
proof -
  have "wpcs s w \<noteq> WCount" if "w \<in> {1..<n}" for w
    using inv_facts(3) [OF inv that] assms(2) phase_facts(1) [of "main s"]
    by (auto simp: worker_ok_def finished_def asleep_def split: eu_phase.splits)
  then have "how_many n (\<lambda>w. wpcs s w \<noteq> WCount) = n - 1" by (intro how_many_everyone) blast
  then show ?thesis using inv_facts(9) [OF inv] by simp
qed

text \<open>When the count of sleepers is complete, everybody sleeps.\<close>

lemma all_asleep:
  assumes inv: "eu_inv n s" and "workers_wfi (eu s) = of_nat (n - 1)" "phase_of (main s) = Quiet \<or> phase_of (main s) = Boot"
    and "w \<in> {1..<n}"
  shows "asleep s w"
proof -
  have "in_wfi (wpcs s w)"
    using how_many_all [of n "\<lambda>w. in_wfi (wpcs s w)" w] inv_facts(2,8) [OF inv] assms(2,4) by simp
  then show ?thesis
    using inv_facts(3) [OF inv assms(4)] assms(3) by (auto simp: worker_ok_def finished_def asleep_def in_wfi_def)
qed

lemma asleep_finished: "asleep s w \<Longrightarrow> finished s w"
  by (simp add: asleep_def finished_def)

lemmas main_defs = eu_main_defs upd_eu_def call_job_def

lemmas book_defs = phase_of_def cshare_def clr_share_def main_share_def exiting_def main_ok_def worker_ok_def

text \<open>The steps, one by one.\<close>

lemma inv_MBoot:
  assumes inv: "eu_inv n s" and m: "main s = MBoot"
  shows "eu_inv n (eu_main n s)"
proof (cases "workers_wfi (eu s) = of_nat n - 1")
  case True
  have "(of_nat n - 1 :: u32) = of_nat (n - 1)" using inv_facts(1) [OF inv] by (simp add: of_nat_diff)
  then have W: "finished s w" if "w \<in> {1..<n}" for w
    using all_asleep [OF inv _ _ that] True m by (simp add: phase_of_def asleep_finished)
  note F = inv_facts [OF inv]
  show ?thesis
    by (rule main_step_inv [OF inv])
      (use W True F(4-7) in \<open>simp_all add: main_defs m book_defs\<close>)
next
  case False
  then show ?thesis using m inv by (simp add: eu_main_defs)
qed

lemma quiet_finished:
  assumes "eu_inv n s" "phase_of (main s) = Quiet" "w \<in> {1..<n}"
  shows "finished s w"
  using inv_facts(3) [OF assms(1,3)] assms(2) by (simp add: worker_ok_def)

lemma parked_asleep:
  assumes "eu_inv n s" "phase_of (main s) = Parked" "w \<in> {1..<n}"
  shows "asleep s w"
  using inv_facts(3) [OF assms(1,3)] assms(2) by (simp add: worker_ok_def)

lemma inv_MIdle:
  assumes inv: "eu_inv n s" and m: "main s = MIdle"
  shows "eu_inv n (eu_main n s)"
proof -
  have W: "finished s w" if "w \<in> {1..<n}" for w using quiet_finished [OF inv _ that] m by (simp add: phase_of_def)
  note F = inv_facts [OF inv]
  show ?thesis
    by (rule main_step_inv [OF inv])
      (use W F(4-7) in \<open>simp_all add: main_defs m book_defs split: list.splits\<close>)
qed

lemma inv_read_loop:
  assumes inv: "eu_inv n s" and m: "main s = MPush1 j \<or> main s = MX1"
  shows "eu_inv n (eu_main n s)"
proof -
  have W: "finished s w" if "w \<in> {1..<n}" for w using quiet_finished [OF inv _ that] m by (auto simp: phase_of_def)
  note F = inv_facts [OF inv]
  have L: "workers_in_loop (eu s) = of_nat (n - 1)" using in_loop_all [OF inv] m by auto
  from m show ?thesis
  proof
    assume m: "main s = MPush1 j"
    show ?thesis
      by (rule main_step_inv [OF inv]) (use W L F(4-7) in \<open>simp_all add: main_defs m book_defs\<close>)
  next
    assume m: "main s = MX1"
    show ?thesis
      by (rule main_step_inv [OF inv]) (use W L F(4-7) in \<open>simp_all add: main_defs m book_defs\<close>)
  qed
qed

lemma inv_wait_sleep:
  assumes inv: "eu_inv n s" and m: "main s = MPush2 j x \<or> main s = MX2 x"
  shows "eu_inv n (eu_main n s)"
proof (cases "workers_wfi (eu s) = x")
  case True
  note F = inv_facts [OF inv]
  have "x = of_nat (n - 1)" using F(7) m by (auto simp: main_ok_def)
  then have W: "asleep s w" if "w \<in> {1..<n}" for w
    using all_asleep [OF inv _ _ that] True m by (auto simp: phase_of_def)
  from m show ?thesis
  proof
    assume m: "main s = MPush2 j x"
    show ?thesis
      by (rule main_step_inv [OF inv]) (use W True F(4-7) in \<open>simp_all add: main_defs m book_defs\<close>)
  next
    assume m: "main s = MX2 x"
    show ?thesis
      by (rule main_step_inv [OF inv]) (use W True F(4-7) in \<open>simp_all add: main_defs m book_defs\<close>)
  qed
next
  case False
  then show ?thesis using m inv by (auto simp: eu_main_defs)
qed

lemma inv_store:
  assumes inv: "eu_inv n s" and m: "main s = MFn j \<or> main s = MN j \<or> main s = MX3"
  shows "eu_inv n (eu_main n s)"
proof -
  have W: "asleep s w" if "w \<in> {1..<n}" for w using parked_asleep [OF inv _ that] m by (auto simp: phase_of_def)
  note F = inv_facts [OF inv]
  from m show ?thesis
  proof (elim disjE)
    assume m: "main s = MFn j"
    show ?thesis
      by (rule main_step_inv [OF inv]) (use W F(4-7) in \<open>simp_all add: main_defs m book_defs loaded_def\<close>)
  next
    assume m: "main s = MN j"
    show ?thesis
      by (rule main_step_inv [OF inv]) (use W F(4-7) in \<open>simp_all add: main_defs m book_defs loaded_def stored_def\<close>)
  next
    assume m: "main s = MX3"
    show ?thesis
      by (rule main_step_inv [OF inv]) (use W F(4-7) in \<open>simp_all add: main_defs m book_defs\<close>)
  qed
qed

lemma inv_MRun0:
  assumes inv: "eu_inv n s" and m: "main s = MRun0 j"
  shows "eu_inv n (eu_main n s)"
proof -
  have W: "asleep s w" "finished s w" if "w \<in> {1..<n}" for w
    using parked_asleep [OF inv _ that] m by (auto simp: phase_of_def asleep_finished)
  note F = inv_facts [OF inv]
  show ?thesis
  proof (cases "j_nthreads j = 0")
    case True
    then have Z: "e_nthreads (eu s) = 0" using F(7) m by (simp add: main_ok_def stored_def)
    show ?thesis
      by (rule main_step_inv [OF inv])
        (use W F(4-7) True Z in \<open>simp_all add: main_defs m book_defs share_def Let_def\<close>)
  next
    case False
    then have Z: "e_nthreads (eu s) = j_nthreads j" using F(7) m by (simp add: main_ok_def stored_def)
    show ?thesis
      by (rule main_step_inv [OF inv])
        (use W F(4-7) False Z in \<open>simp_all add: main_defs m book_defs stored_def Let_def\<close>)
  qed
qed

lemma inv_MZero:
  assumes inv: "eu_inv n s" and m: "main s = MZero j x"
  shows "eu_inv n (eu_main n s)"
proof -
  have W: "asleep s w" if "w \<in> {1..<n}" for w using parked_asleep [OF inv _ that] m by (simp add: phase_of_def)
  note F = inv_facts [OF inv]
  have X: "j_nthreads j \<noteq> 0" using F(7) m by (auto simp: main_ok_def)
  show ?thesis
  proof (cases "1 < x")
    case True
    show ?thesis
      by (rule main_step_inv [OF inv])
        (use W F(4-7) True in \<open>simp_all add: main_defs m book_defs stored_def loaded_def\<close>)
  next
    case False
    show ?thesis
      by (rule main_step_inv [OF inv])
        (use W F(4-7) False X in \<open>simp_all add: main_defs m book_defs stored_def loaded_def\<close>)
  qed
qed

lemma inv_parked_wait:
  assumes inv: "eu_inv n s" and m: "main s = MWake1 j x \<or> main s = MX4 \<or> main s = MWake2 j x y \<or> main s = MX5 y"
  shows "eu_inv n (eu_main n s)"
proof -
  have W: "asleep s w" if "w \<in> {1..<n}" for w using parked_asleep [OF inv _ that] m by (auto simp: phase_of_def)
  have L: "workers_in_loop (eu s) = of_nat (n - 1)" using in_loop_all [OF inv] m by auto
  note F = inv_facts [OF inv]
  from m show ?thesis
  proof (elim disjE)
    assume m: "main s = MWake1 j x"
    have X: "1 < j_nthreads j" using F(7) m by (auto simp: main_ok_def)
    show ?thesis
      by (rule main_step_inv [OF inv]) (use W L F(4-7) X in \<open>simp_all add: main_defs m book_defs\<close>)
  next
    assume m: "main s = MX4"
    show ?thesis
      by (rule main_step_inv [OF inv]) (use W L F(4-7) in \<open>simp_all add: main_defs m book_defs\<close>)
  next
    assume m: "main s = MWake2 j x y"
    have X: "1 < j_nthreads j" using F(7) m by (auto simp: main_ok_def)
    show ?thesis
    proof (cases "workers_wfi (eu s) = y")
      case True
      show ?thesis
        by (rule main_step_inv [OF inv]) (use W F(4-7) X True in \<open>simp_all add: main_defs m book_defs\<close>)
    qed (use m inv in \<open>simp add: eu_main_defs\<close>)
  next
    assume m: "main s = MX5 y"
    show ?thesis
    proof (cases "workers_wfi (eu s) = y")
      case True
      show ?thesis
        by (rule main_step_inv [OF inv]) (use W F(4-7) True in \<open>simp_all add: main_defs m book_defs\<close>)
    qed (use m inv in \<open>simp add: eu_main_defs\<close>)
  qed
qed

text \<open>The wake-up: every worker sleeps and receives its interrupt.\<close>

lemma bit_wake_set:
  assumes "n < 32" "w \<in> {1..<n}"
  shows "bit (snrt_int_cluster_set (wake_mask n) q) w"
  using assms bit_wake_mask [of n w] by (simp add: snrt_int_cluster_set_def bit_simps)

lemma inv_wake:
  assumes inv: "eu_inv n s" and m: "main s = MWake3 j x \<or> main s = MX6"
  shows "eu_inv n (eu_main n s)"
proof -
  note F = inv_facts [OF inv]
  let ?t = "eu_main n s"
  have W: "wpcs s w = WSleep" if "w \<in> {1..<n}" for w
    using parked_asleep [OF inv _ that] m by (auto simp: phase_of_def asleep_def)
  have same: "wpcs ?t = wpcs s" "eu ?t = eu s" "ran ?t = ran s" "finished_jobs ?t = finished_jobs s"
    and set: "clint ?t = snrt_int_cluster_set (wake_mask n) (clint s)"
    using m by (auto simp: eu_main_defs)
  have C: "bit (clint ?t) w" if "w \<in> {1..<n}" for w
    using bit_wake_set [OF F(2) that, of "clint s"] unfolding set .
  have nf: "\<not> finished ?t w" "\<not> past ?t w" if "w \<in> {1..<n}" for w
    using C [OF that] W [OF that] same by (simp_all add: finished_def past_def)
  have h0: "{w. Suc 0 \<le> w \<and> w < n \<and> finished ?t w} = {}" using nf by auto
  from m show ?thesis
  proof
    assume m: "main s = MWake3 j x"
    have X: "1 < j_nthreads j" "x = j_nthreads j" "stored j (eu s)" "e_fini_count (eu s) = 0"
      using F(7) m by (auto simp: main_ok_def)
    then have t: "main ?t = MSelf j (j_nthreads j)" using m by (simp add: eu_main_defs)
    have "j_nthreads j \<noteq> 0" using X(1) by auto
    then show ?thesis
      using F(1,2,4,5,6,8,9) same C W nf X
      unfolding eu_inv_def counts_ok_def current_share_def t by (simp add: m book_defs t h0)
  next
    assume m: "main s = MX6"
    then show ?thesis
      using F same C W
      by (simp add: eu_inv_def counts_ok_def current_share_def eu_main_defs m book_defs)
  qed
qed

lemma share_0: "j_nthreads j \<noteq> 0 \<Longrightarrow> share 0 j = [job_call j]"
  by (simp add: share_def word_gt_0)

lemma inv_MSelf:
  assumes inv: "eu_inv n s" and m: "main s = MSelf j x"
  shows "eu_inv n (eu_main n s)"
proof -
  note F = inv_facts [OF inv]
  have X: "j_nthreads j \<noteq> 0" "x = j_nthreads j" "stored j (eu s)" using F(7) m by (auto simp: main_ok_def)
  then have pos: "0 < e_nthreads (eu s)" and call: "(e_fn (eu s), e_data (eu s), e_argc (eu s)) = job_call j"
    by (auto simp: stored_def loaded_def job_call_def word_gt_0)
  show ?thesis
  proof (cases "1 < j_nthreads j")
    case True
    show ?thesis
      by (rule main_step_inv [OF inv])
        (use F(3-6,10) X True pos call share_0 [OF X(1)] in \<open>simp_all add: main_defs m book_defs\<close>)
  next
    case False
    then have "unat (j_nthreads j) = 1" using X(1) unat_gt_0 [of "j_nthreads j"] by (simp add: word_less_nat_alt del: unat_gt_0)
    then have sh: "share w j = []" if "w \<in> {1..<n}" for w
      using that F(2) by (simp add: share_def word_less_nat_alt unat_of_nat_small)
    have W: "finished s w" if "w \<in> {1..<n}" for w
      using parked_asleep [OF inv _ that] m X False by (simp add: phase_of_def asleep_finished)
    show ?thesis
      by (rule main_step_inv [OF inv])
        (use F(4-6) X False pos call share_0 [OF X(1)] sh W in \<open>simp_all add: main_defs m book_defs\<close>)
  qed
qed

lemma inv_MJoin1:
  assumes inv: "eu_inv n s" and m: "main s = MJoin1 j x"
  shows "eu_inv n (eu_main n s)"
proof -
  note F = inv_facts [OF inv]
  have L: "workers_in_loop (eu s) = of_nat (n - 1)" using in_loop_all [OF inv] m by auto
  have X: "1 < j_nthreads j" using F(7) m by (auto simp: main_ok_def)
  show ?thesis
    by (rule main_step_inv [OF inv]) (use F(3-7,10) L X in \<open>simp_all add: main_defs m book_defs\<close>)
qed

text \<open>The join: the finish count is complete only when every worker is through with the job.\<close>

lemma inv_MJoin2:
  assumes inv: "eu_inv n s" and m: "main s = MJoin2 j x y"
  shows "eu_inv n (eu_main n s)"
proof (cases "e_fini_count (eu s) = y")
  case True
  note F = inv_facts [OF inv]
  have X: "1 < j_nthreads j" "x = j_nthreads j" "y = of_nat (n - 1)" using F(7) m by (auto simp: main_ok_def)
  have "e_fini_count (eu s) = of_nat (how_many n (finished s))" using F(10) m by (simp add: phase_of_def)
  then have W: "finished s w" if "w \<in> {1..<n}" for w
    using how_many_all [of n "finished s" w] that F(2) True X(3) by simp
  then have P: "past s w" if "w \<in> {1..<n}" for w using that by (simp add: past_def)
  have "j_nthreads j \<noteq> 0" using X(1) by auto
  then show ?thesis
    by (intro main_step_inv [OF inv])
      (use F(4-7) True X W P in \<open>simp_all add: main_defs m book_defs\<close>)
qed (use m inv in \<open>simp add: eu_main_defs\<close>)

lemma inv_MClr:
  assumes inv: "eu_inv n s" and m: "main s = MClr j x"
  shows "eu_inv n (eu_main n s)"
proof -
  note F = inv_facts [OF inv]
  have W: "finished s w" if "w \<in> {1..<n}" for w using quiet_finished [OF inv _ that] m by (simp add: phase_of_def)
  show ?thesis
    by (rule main_step_inv [OF inv]) (use F(4-7) W in \<open>simp_all add: main_defs m book_defs\<close>)
qed

lemma main_inv:
  assumes inv: "eu_inv n s"
  shows "eu_inv n (eu_main n s)"
proof (cases "main s")
  case MBoot
  then show ?thesis using inv_MBoot [OF inv] by simp
next
  case MIdle
  then show ?thesis using inv_MIdle [OF inv] by simp
next
  case (MPush1 j)
  then show ?thesis using inv_read_loop [OF inv, of j] by simp
next
  case (MPush2 j x)
  then show ?thesis using inv_wait_sleep [OF inv, of j x] by simp
next
  case (MFn j)
  then show ?thesis using inv_store [OF inv, of j] by simp
next
  case (MN j)
  then show ?thesis using inv_store [OF inv, of j] by simp
next
  case (MRun0 j)
  then show ?thesis using inv_MRun0 [OF inv] by simp
next
  case (MZero j x)
  then show ?thesis using inv_MZero [OF inv] by simp
next
  case (MWake1 j x)
  then show ?thesis using inv_parked_wait [OF inv, of j x] by simp
next
  case (MWake2 j x y)
  then show ?thesis using inv_parked_wait [OF inv, of j x y] by simp
next
  case (MWake3 j x)
  then show ?thesis using inv_wake [OF inv, of j x] by simp
next
  case (MSelf j x)
  then show ?thesis using inv_MSelf [OF inv] by simp
next
  case (MJoin1 j x)
  then show ?thesis using inv_MJoin1 [OF inv] by simp
next
  case (MJoin2 j x y)
  then show ?thesis using inv_MJoin2 [OF inv] by simp
next
  case (MClr j x)
  then show ?thesis using inv_MClr [OF inv] by simp
next
  case MX1
  then show ?thesis using inv_read_loop [OF inv] by simp
next
  case (MX2 x)
  then show ?thesis using inv_wait_sleep [OF inv, of _ x] by simp
next
  case MX3
  then show ?thesis using inv_store [OF inv] by simp
next
  case MX4
  then show ?thesis using inv_parked_wait [OF inv] by simp
next
  case (MX5 x)
  then show ?thesis using inv_parked_wait [OF inv, of _ _ x] by simp
next
  case MX6
  then show ?thesis using inv_wake [OF inv] by simp
next
  case MEnd
  then show ?thesis using inv by (simp add: eu_main_defs)
qed

interpretation eu_sys: inductive_invariant "eu_start n js" "eu_step n" "eu_inv n"
proof
  fix s
  assume s: "eu_start n js s"
  then have C: "\<And>w. w \<in> {1..<n} \<Longrightarrow> wpcs s w = WCount" by (auto simp: eu_start_def)
  then have E: "{w. Suc 0 \<le> w \<and> w < n \<and> in_wfi (wpcs s w)} = {}" "{w. Suc 0 \<le> w \<and> w < n \<and> wpcs s w \<noteq> WCount} = {}"
    by (auto simp: in_wfi_def)
  then show "eu_inv n s"
    using s C by (simp add: eu_start_def eu_inv_def counts_ok_def current_share_def book_defs eu_init_def expected_def E)
next
  fix s t
  assume "eu_inv n s" "eu_step n s t"
  then show "eu_inv n t" using main_inv worker_step_inv by (auto simp: eu_step_def)
qed

text \<open>The jobs are taken in order.\<close>

definition cur_job :: "mpc \<Rightarrow> job list" where
  "cur_job m = (case m of
      MPush1 j \<Rightarrow> [j] | MPush2 j x \<Rightarrow> [j] | MFn j \<Rightarrow> [j] | MN j \<Rightarrow> [j] | MRun0 j \<Rightarrow> [j] | MZero j x \<Rightarrow> [j]
    | MWake1 j x \<Rightarrow> [j] | MWake2 j x y \<Rightarrow> [j] | MWake3 j x \<Rightarrow> [j] | MSelf j x \<Rightarrow> [j]
    | MJoin1 j x \<Rightarrow> [j] | MJoin2 j x y \<Rightarrow> [j] | MClr j x \<Rightarrow> [j] | _ \<Rightarrow> [])"

definition closing :: "mpc \<Rightarrow> bool" where
  "closing m \<longleftrightarrow> exiting m \<or> m = MX1 \<or> (\<exists>x. m = MX2 x) \<or> m = MX3"

definition in_order :: "job list \<Rightarrow> eu_state \<Rightarrow> bool" where
  "in_order js s \<longleftrightarrow> js = finished_jobs s @ cur_job (main s) @ todo s \<and> (closing (main s) \<longrightarrow> todo s = [])"

interpretation eu_order: inductive_invariant "eu_start n js" "eu_step n" "in_order js"
proof
  show "eu_start n js s \<Longrightarrow> in_order js s" for s
    by (simp add: eu_start_def in_order_def cur_job_def closing_def exiting_def)
next
  fix s t
  assume i: "in_order js s" and "eu_step n s t"
  then consider "t = eu_main n s" | w where "t = eu_event_loop w s" by (auto simp: eu_step_def)
  then show "in_order js t"
  proof cases
    case 1
    then show ?thesis using i
      by (cases "main s")
        (simp_all add: main_defs in_order_def cur_job_def closing_def exiting_def Let_def split: list.splits)
  next
    case 2
    then show ?thesis using i worker_frame(4-6) [OF 2] by (simp add: in_order_def)
  qed
qed

section \<open>Every run ends\<close>

definition worker_rank :: "eu_state \<Rightarrow> nat \<Rightarrow> nat" where
  "worker_rank s w = (case wpcs s w of
      WSleep \<Rightarrow> 0 | WClear \<Rightarrow> 8 | WCount \<Rightarrow> 7 | WWfiDown \<Rightarrow> 7 | WExitTest \<Rightarrow> 6 | WNthTest \<Rightarrow> 5 | WRun \<Rightarrow> 4 | WFini \<Rightarrow> 3
    | WWfiUp \<Rightarrow> 2 | WDone \<Rightarrow> 0) + (if bit (clint s) w \<and> wpcs s w \<noteq> WClear then 10 else 0)"

definition main_rank :: "mpc \<Rightarrow> nat" where
  "main_rank m = (case m of
      MBoot \<Rightarrow> 20 | MPush1 j \<Rightarrow> 20 | MPush2 j x \<Rightarrow> 19 | MFn j \<Rightarrow> 18 | MN j \<Rightarrow> 17 | MRun0 j \<Rightarrow> 16 | MZero j x \<Rightarrow> 15
    | MWake1 j x \<Rightarrow> 14 | MWake2 j x y \<Rightarrow> 13 | MWake3 j x \<Rightarrow> 12 | MSelf j x \<Rightarrow> 11 | MJoin1 j x \<Rightarrow> 10 | MJoin2 j x y \<Rightarrow> 9
    | MClr j x \<Rightarrow> 8 | MIdle \<Rightarrow> 7 | MX1 \<Rightarrow> 6 | MX2 x \<Rightarrow> 5 | MX3 \<Rightarrow> 4 | MX4 \<Rightarrow> 3 | MX5 x \<Rightarrow> 2 | MX6 \<Rightarrow> 1 | MEnd \<Rightarrow> 0)"

definition eu_measure :: "nat \<Rightarrow> eu_state \<Rightarrow> nat \<times> nat \<times> nat" where
  "eu_measure n s = (length (todo s), main_rank (main s), sum (worker_rank s) {1..<n})"

abbreviation eu_less :: "((nat \<times> nat \<times> nat) \<times> (nat \<times> nat \<times> nat)) set" where
  "eu_less \<equiv> less_than <*lex*> less_than <*lex*> less_than"

lemma main_decreases:
  assumes "eu_main n s \<noteq> s"
  shows "(eu_measure n (eu_main n s), eu_measure n s) \<in> eu_less"
  using assms
  by (cases "main s") (simp_all add: eu_measure_def main_defs main_rank_def Let_def split: list.splits if_splits)

lemma worker_decreases:
  assumes "eu_event_loop w s \<noteq> s" "w \<in> {1..<n}"
  shows "(eu_measure n (eu_event_loop w s), eu_measure n s) \<in> eu_less"
proof -
  note F = worker_frame [OF refl, where w = w and s = s]
  have "worker_rank (eu_event_loop w s) w < worker_rank s w"
    using assms(1) by (cases "wpcs s w") (auto simp: worker_defs worker_rank_def split: if_splits)
  moreover have "worker_rank (eu_event_loop w s) v = worker_rank s v" if "v \<noteq> w" for v
    using F(1,2) [OF that] by (simp add: worker_rank_def)
  ultimately have "sum (worker_rank (eu_event_loop w s)) {1..<n} < sum (worker_rank s) {1..<n}"
    using assms(2) by (intro sum_strict_mono_ex1) (auto, metis order_refl less_imp_le)
  then show ?thesis using F(4,6) by (simp add: eu_measure_def)
qed

text \<open>A worker that cannot move sleeps without an interrupt or has left the loop.\<close>

lemma fixed_worker:
  assumes "eu_event_loop w s = s"
  shows "asleep s w \<or> wpcs s w = WDone"
proof (rule ccontr)
  assume n: "\<not> ?thesis"
  have "wpcs (eu_event_loop w s) w \<noteq> wpcs s w"
    using n by (cases "wpcs s w") (simp_all add: worker_defs asleep_def)
  then show False using assms by simp
qed

lemma all_in_wfi:
  assumes inv: "eu_inv n s" and "\<And>w. w \<in> {1..<n} \<Longrightarrow> asleep s w"
  shows "workers_wfi (eu s) = of_nat (n - 1)"
proof -
  have "how_many n (\<lambda>w. in_wfi (wpcs s w)) = n - 1"
    using assms(2) by (intro how_many_everyone) (simp add: asleep_def in_wfi_def)
  then show ?thesis using inv_facts(8) [OF inv] by simp
qed

lemma stuck_is_done:
  assumes inv: "eu_inv n s" and st: "\<And>t. eu_step n s t \<Longrightarrow> t = s"
  shows "main s = MEnd \<and> (\<forall>w\<in>{1..<n}. wpcs s w = WDone)"
proof -
  note F = inv_facts [OF inv]
  have m: "eu_main n s = s" using st by (simp add: eu_step_def)
  have fx: "asleep s w \<or> wpcs s w = WDone" if "w \<in> {1..<n}" for w
    using that by (intro fixed_worker st) (auto simp: eu_step_def)
  have slp: "asleep s w" if "w \<in> {1..<n}" "phase_of (main s) \<noteq> Exiting" for w
    using fx [OF that(1)] F(3) [OF that(1)] that(2)
    by (auto simp: worker_ok_def finished_def asleep_def split: eu_phase.splits)
  have wfi: "workers_wfi (eu s) = of_nat (n - 1)" if "phase_of (main s) \<noteq> Exiting"
    using all_in_wfi [OF inv] slp that by blast
  have fini: "e_fini_count (eu s) = of_nat (n - 1)" if "phase_of (main s) = Active j" for j
  proof -
    have "how_many n (finished s) = n - 1" using slp that by (intro how_many_everyone) (simp add: asleep_finished)
    then show ?thesis using F(10) [OF that] by simp
  qed
  have b: "(of_nat n - 1 :: u32) = of_nat (n - 1)" using F(1) by (simp add: of_nat_diff)
  have "main (eu_main n s) \<noteq> main s" if "main s \<noteq> MEnd"
    using that wfi fini F(7) b
    by (cases "main s") (simp_all add: main_defs main_ok_def phase_of_def Let_def split: list.splits)
  then have e: "main s = MEnd" using m by auto
  moreover have "wpcs s w = WDone" if "w \<in> {1..<n}" for w
    using fx [OF that] F(3) [OF that] e by (auto simp: worker_ok_def asleep_def phase_of_def)
  ultimately show ?thesis by blast
qed

section \<open>Properties\<close>

lemma end_books:
  assumes "eu_inv n s" "in_order js s" "main s = MEnd \<and> P"
  shows "main s = MEnd \<and> P \<and> finished_jobs s = js \<and> (\<forall>c<n. ran s c = expected c js)"
proof -
  have f: "finished_jobs s = js" using assms(2,3) by (simp add: in_order_def cur_job_def closing_def exiting_def)
  have "ran s c = expected c js" if "c < n" for c
    using inv_facts(4) [OF assms(1), of c] inv_facts(5) [OF assms(1)] that assms(3) f
    by (cases "c = 0") (auto simp: main_share_def cshare_def clr_share_def phase_of_def)
  then show ?thesis using assms(3) f by blast
qed

text \<open>
  C21: fork-join. Whenever the main core is between two jobs (and after the exit), under every
  interleaving with the workers, the jobs processed so far are a prefix of the requested
  ones, and each compute core has called the functions of exactly those jobs whose
  number of threads exceeds its index, once each, in order, with the job's data and
  argument count.
\<close>

theorem eu_runs_each_job:
  assumes "reachable (eu_start n js) (eu_step n) s" "main s = MIdle \<or> main s = MEnd" "c < n"
  shows "js = finished_jobs s @ todo s \<and> ran s c = expected c (finished_jobs s)"
proof -
  have inv: "eu_inv n s" using eu_sys.inv_reachable [OF assms(1)] .
  have "in_order js s" using eu_order.inv_reachable [OF assms(1)] .
  moreover have "ran s c = expected c (finished_jobs s)"
    using inv_facts(4) [OF inv, of c] inv_facts(5) [OF inv] assms(2,3)
    by (cases "c = 0") (auto simp: main_share_def cshare_def clr_share_def phase_of_def)
  ultimately show ?thesis using assms(2) by (auto simp: in_order_def cur_job_def)
qed

text \<open>
  C10: total correctness. No run goes on for ever (every access that changes the state
  decreases a well-founded measure), and a reachable state in which no core can change
  anything is the regular end: the main core has left \<open>eu_exit\<close>, every worker has left its event
  loop, and every core has run its share of every requested job.
\<close>

theorem eu_total_correctness:
  "wf {(t, s). eu_step n s t \<and> t \<noteq> s} \<and>
   (reachable (eu_start n js) (eu_step n) s \<and> (\<forall>t. eu_step n s t \<longrightarrow> t = s) \<longrightarrow>
      main s = MEnd \<and> (\<forall>w\<in>{1..<n}. wpcs s w = WDone) \<and> finished_jobs s = js \<and> (\<forall>c<n. ran s c = expected c js))"
proof (rule conjI, goal_cases)
  case 1
  have "{(t, s). eu_step n s t \<and> t \<noteq> s} \<subseteq> inv_image eu_less (eu_measure n)"
    using main_decreases worker_decreases by (auto simp: eu_step_def inv_image_def)
  then show ?case by (rule wf_subset [rotated]) (intro wf_inv_image wf_lex_prod wf_less_than)
next
  case 2
  show ?case
  proof
    assume r: "reachable (eu_start n js) (eu_step n) s \<and> (\<forall>t. eu_step n s t \<longrightarrow> t = s)"
    then have inv: "eu_inv n s" and "in_order js s" using eu_sys.inv_reachable eu_order.inv_reachable by blast+
    moreover have "main s = MEnd \<and> (\<forall>w\<in>{1..<n}. wpcs s w = WDone)" using r by (intro stuck_is_done [OF inv]) blast
    ultimately show "main s = MEnd \<and> (\<forall>w\<in>{1..<n}. wpcs s w = WDone) \<and> finished_jobs s = js
        \<and> (\<forall>c<n. ran s c = expected c js)"
      by (rule end_books)
  qed
qed

text \<open>A round-robin run of two cores on one two-thread job.\<close>

definition demo_eu :: eu_state where
  "demo_eu = \<lparr> eu = eu_init, clint = 0, wpcs = (\<lambda>_. WCount), main = MBoot,
     todo = [\<lparr> j_fn = 16, j_data = 32, j_argc = 1, j_nthreads = 2 \<rparr>], finished_jobs = [], ran = (\<lambda>_. []) \<rparr>"

definition eu_run :: "nat \<Rightarrow> nat list \<Rightarrow> eu_state \<Rightarrow> eu_state" where
  "eu_run n ws s = fold (\<lambda>w s. if w = 0 then eu_main n s else eu_event_loop w s) ws s"

lemma eu_run_reachable:
  assumes "reachable (eu_start n js) (eu_step n) s" "set ws \<subseteq> {0..<n}"
  shows "reachable (eu_start n js) (eu_step n) (eu_run n ws s)"
  using assms
proof (induction ws arbitrary: s)
  case (Cons w ws)
  have "eu_step n s (if w = 0 then eu_main n s else eu_event_loop w s)" using Cons.prems(2) by (auto simp: eu_step_def)
  then have "reachable (eu_start n js) (eu_step n) (if w = 0 then eu_main n s else eu_event_loop w s)"
    by (rule reachable.intros(2) [OF Cons.prems(1)])
  then show ?case using Cons by (simp add: eu_run_def)
qed (simp add: eu_run_def)

definition demo_mid :: eu_state where
  "demo_mid = eu_run 2 (replicate 6 1 @ replicate 13 0 @ replicate 8 1 @ replicate 2 0) demo_eu"

definition demo_end :: eu_state where
  "demo_end = eu_run 2 (replicate 7 0 @ replicate 4 1) demo_mid"

lemma eu_demo_reachable:
  "reachable (eu_start 2 (todo demo_eu)) (eu_step 2) demo_mid"
  "reachable (eu_start 2 (todo demo_eu)) (eu_step 2) demo_end"
proof -
  have "reachable (eu_start 2 (todo demo_eu)) (eu_step 2) demo_eu"
    by (rule reachable.intros(1)) (simp add: eu_start_def demo_eu_def)
  then show m: "reachable (eu_start 2 (todo demo_eu)) (eu_step 2) demo_mid"
    unfolding demo_mid_def by (rule eu_run_reachable) auto
  show "reachable (eu_start 2 (todo demo_eu)) (eu_step 2) demo_end"
    unfolding demo_end_def by (rule eu_run_reachable [OF m]) auto
qed

lemma demo_states:
  "main demo_mid = MIdle" "main demo_end = MEnd" "wpcs demo_end 1 = WDone"
  by code_simp+

theorem eu_runs_each_job_witness:
  "main demo_mid = MIdle \<and> finished_jobs demo_mid = todo demo_eu \<and> ran demo_mid 1 = expected 1 (finished_jobs demo_mid)
     \<and> expected 1 (todo demo_eu) = [(16, 32, 1)]"
proof -
  have "todo demo_mid = []" "expected 1 (todo demo_eu) = [(16, 32, 1)]" by code_simp+
  then show ?thesis using eu_runs_each_job [OF eu_demo_reachable(1), of 1] demo_states(1) by simp
qed

theorem eu_total_correctness_witness:
  "main demo_end = MEnd \<and> finished_jobs demo_end = todo demo_eu \<and> ran demo_end 1 = [(16, 32, 1)]"
proof -
  have "eu_main 2 demo_end = demo_end" "eu_event_loop 1 demo_end = demo_end"
    using demo_states(2,3) by (simp_all add: eu_main_defs eu_event_loop_def worker_wfi_def)
  moreover have "{1..<2} = {1 :: nat}" by auto
  ultimately have "eu_step 2 demo_end t \<longrightarrow> t = demo_end" for t by (simp add: eu_step_def)
  moreover have "expected 1 (todo demo_eu) = [(16, 32, 1)]" by code_simp
  ultimately show ?thesis using eu_total_correctness [of 2 "todo demo_eu" demo_end] eu_demo_reachable(2) by simp
qed

end
