(* ===== verification/Dma.thy ===== *)
theory Dma
  imports Prelude "HOL-Library.Monad_Syntax"
begin

text \<open>
  The cluster DMA engine as the runtime drives it (\<open>sw/snRuntime/src/dma.h\<close>): the custom
  instructions the inline assembly emits as \<open>.word\<close> expressions, their decoding
  (\<open>riscv_instr.sv\<close>), the frontend (\<open>axi_dma_tc_snitch_fe.sv\<close>) with its two-dimensional
  extension (\<open>axi_dma_twod_ext.sv\<close>), and \<open>dma_memset\<close> of the applications. The AXI backend is
  not part of the repository: it is the parameter \<open>bk\<close> that moves one burst.
\<close>

section \<open>State\<close>

type_synonym addr_t = "48 word"
type_synonym wmem = "addr_t \<Rightarrow> u8"

text \<open>What the frontend passes on (\<open>twod_req_t\<close>); cache and burst attributes are constant.\<close>

record twod_req =
  r_src :: addr_t
  r_dst :: addr_t
  num_bytes :: addr_t
  stride_src :: addr_t
  stride_dst :: addr_t
  num_repetitions :: addr_t
  decouple_rw :: bool
  is_twod :: bool

text \<open>The integer registers of the core, the frontend registers, the request FIFO, the two
  transfer counters, and the memory.\<close>

record dma =
  regs :: "nat \<Rightarrow> u32"
  req_q :: twod_req
  fifo :: "twod_req list"
  next_id :: u32
  completed_id :: u32
  dmem :: wmem

section \<open>Instructions\<close>

datatype dma_instr =
    DMSRC nat nat | DMDST nat nat | DMCPYI nat nat nat | DMCPY nat nat nat
  | DMSTATI nat nat | DMSTAT nat nat | DMSTR nat nat | DMREP nat

definition field :: "nat \<Rightarrow> nat \<Rightarrow> u32 \<Rightarrow> nat" where
  "field hi lo w = unat (take_bit (hi - lo + 1) (drop_bit lo w))"

text \<open>The patterns of \<open>riscv_instr.sv\<close>: fields the pattern fixes to zero are compared.\<close>

definition dma_decode :: "u32 \<Rightarrow> dma_instr option" where
  "dma_decode w = (
    let f7 = field 31 25 w; rs2 = field 24 20 w; rs1 = field 19 15 w; f3 = field 14 12 w; rd = field 11 7 w
    in if field 6 0 w \<noteq> 0b0101011 \<or> f3 \<noteq> 0 then None
       else if f7 = 0 \<and> rd = 0 then Some (DMSRC rs1 rs2)
       else if f7 = 1 \<and> rd = 0 then Some (DMDST rs1 rs2)
       else if f7 = 2 then Some (DMCPYI rd rs1 rs2)
       else if f7 = 3 then Some (DMCPY rd rs1 rs2)
       else if f7 = 4 \<and> rs1 = 0 then Some (DMSTATI rd rs2)
       else if f7 = 5 \<and> rs1 = 0 then Some (DMSTAT rd rs2)
       else if f7 = 6 \<and> rd = 0 then Some (DMSTR rs1 rs2)
       else if f7 = 7 \<and> rd = 0 \<and> rs2 = 0 then Some (DMREP rs1)
       else None)"

text \<open>
  The core sign-extends the operands it sends to the frontend; \<open>dmsrc\<close> and \<open>dmdst\<close> take the
  low half from the first and the high bits from the second operand.
\<close>

definition hilo :: "u32 \<Rightarrow> u32 \<Rightarrow> addr_t" where
  "hilo lo hi = ucast lo OR push_bit 32 (ucast hi)"

definition wreg :: "nat \<Rightarrow> u32 \<Rightarrow> dma \<Rightarrow> dma" where
  "wreg rd v s = (if rd = 0 then s else s\<lparr> regs := (regs s)(rd := v) \<rparr>)"

definition dma_busy :: "dma \<Rightarrow> bool" where
  "dma_busy s \<longleftrightarrow> next_id s \<noteq> completed_id s"

text \<open>\<open>dmcpy\<close>: accepted when the FIFO of depth \<open>d\<close> has room, otherwise the core is stalled (\<open>None\<close>).\<close>

definition dma_copy :: "nat \<Rightarrow> nat \<Rightarrow> u32 \<Rightarrow> u32 \<Rightarrow> dma \<Rightarrow> dma option" where
  "dma_copy d rd sz cfg s = (
    if length (fifo s) < d then
      let r = (req_q s)\<lparr> num_bytes := scast sz, decouple_rw := bit cfg 0, is_twod := bit cfg 1 \<rparr>
      in Some (wreg rd (next_id s) (s\<lparr> req_q := r, fifo := fifo s @ [r], next_id := next_id s + 1 \<rparr>))
    else None)"

definition dma_stat :: "nat \<Rightarrow> nat \<Rightarrow> u32 \<Rightarrow> dma \<Rightarrow> dma" where
  "dma_stat d rd status s = wreg rd (
     let k = take_bit 2 status in
     if k = 0 then completed_id s
     else if k = 1 then next_id s
     else if k = 2 then of_bool (dma_busy s)
     else of_bool (\<not> length (fifo s) < d)) s"

primrec dma_fe :: "nat \<Rightarrow> dma_instr \<Rightarrow> dma \<Rightarrow> dma option" where
  "dma_fe d (DMSRC rs1 rs2) s = Some (s\<lparr> req_q := (req_q s)\<lparr> r_src := hilo (regs s rs1) (regs s rs2) \<rparr> \<rparr>)"
| "dma_fe d (DMDST rs1 rs2) s = Some (s\<lparr> req_q := (req_q s)\<lparr> r_dst := hilo (regs s rs1) (regs s rs2) \<rparr> \<rparr>)"
| "dma_fe d (DMCPYI rd rs1 imm) s = dma_copy d rd (regs s rs1) (of_nat imm) s"
| "dma_fe d (DMCPY rd rs1 rs2) s = dma_copy d rd (regs s rs1) (regs s rs2) s"
| "dma_fe d (DMSTATI rd imm) s = Some (dma_stat d rd (of_nat imm) s)"
| "dma_fe d (DMSTAT rd rs2) s = Some (dma_stat d rd (regs s rs2) s)"
| "dma_fe d (DMSTR rs1 rs2) s =
     Some (s\<lparr> req_q := (req_q s)\<lparr> stride_src := scast (regs s rs1), stride_dst := scast (regs s rs2) \<rparr> \<rparr>)"
| "dma_fe d (DMREP rs1) s = Some (s\<lparr> req_q := (req_q s)\<lparr> num_repetitions := scast (regs s rs1) \<rparr> \<rparr>)"

text \<open>An instruction word the frontend does not know is an illegal instruction.\<close>

definition exec_word :: "nat \<Rightarrow> u32 \<Rightarrow> dma \<Rightarrow> dma option" where
  "exec_word d w s = Option.bind (dma_decode w) (\<lambda>i. dma_fe d i s)"

section \<open>The bursts of a request\<close>

text \<open>The counter of the two-dimensional extension after its first burst.\<close>

primrec count_down :: "nat \<Rightarrow> addr_t \<Rightarrow> addr_t \<Rightarrow> addr_t \<Rightarrow> addr_t \<Rightarrow> (addr_t \<times> addr_t) list" where
  "count_down 0 ss sd src dst = []"
| "count_down (Suc n) ss sd src dst = (src + ss, dst + sd) # count_down n ss sd (src + ss) (dst + sd)"

definition twod_ext :: "twod_req \<Rightarrow> (addr_t \<times> addr_t) list" where
  "twod_ext r = (
    if \<not> is_twod r \<or> num_repetitions r = 1 then [(r_src r, r_dst r)]
    else if num_repetitions r = 0 then []
    else (r_src r, r_dst r) # count_down (unat (num_repetitions r - 1)) (stride_src r) (stride_dst r) (r_src r) (r_dst r))"

text \<open>
  One request runs: its bursts in order; the completion counter is bumped with the last
  burst, so not at all when there is none.
\<close>

type_synonym backend = "addr_t \<Rightarrow> addr_t \<Rightarrow> nat \<Rightarrow> wmem \<Rightarrow> wmem"

definition run_request :: "backend \<Rightarrow> twod_req \<Rightarrow> wmem \<Rightarrow> wmem" where
  "run_request bk r m = fold (\<lambda>(src, dst). bk src dst (unat (num_bytes r))) (twod_ext r) m"

definition dma_complete :: "backend \<Rightarrow> dma \<Rightarrow> dma" where
  "dma_complete bk s = (case fifo s of
      [] \<Rightarrow> s
    | r # rs \<Rightarrow> s\<lparr> fifo := rs, dmem := run_request bk r (dmem s),
        completed_id := if twod_ext r = [] then completed_id s else completed_id s + 1 \<rparr>)"

section \<open>The runtime functions\<close>

abbreviation word_of_fields :: "u32 \<Rightarrow> u32 \<Rightarrow> u32 \<Rightarrow> u32 \<Rightarrow> u32" where
  "word_of_fields f7 rs2 rs1 rd \<equiv> push_bit 25 f7 OR push_bit 20 rs2 OR push_bit 15 rs1 OR push_bit 12 0b000
     OR push_bit 7 rd OR 0b0101011"

definition set_args :: "(nat \<times> u32) list \<Rightarrow> dma \<Rightarrow> dma" where
  "set_args xs s = fold (\<lambda>(r, v). wreg r v) xs s"

definition snrt_dma_start_1d_wideptr :: "nat \<Rightarrow> u64 \<Rightarrow> u64 \<Rightarrow> u32 \<Rightarrow> dma \<Rightarrow> (u32 \<times> dma) option" where
  "snrt_dma_start_1d_wideptr d dst src sz s = do {
     let s = set_args [(10, ucast dst), (11, ucast (drop_bit 32 dst)), (12, ucast src), (13, ucast (drop_bit 32 src)),
                       (14, sz)] s;
     s \<leftarrow> exec_word d (word_of_fields 0b0000000 13 12 0) s;
     s \<leftarrow> exec_word d (word_of_fields 0b0000001 11 10 0) s;
     s \<leftarrow> exec_word d (word_of_fields 0b0000010 0b00000 14 10) s;
     Some (regs s 10, s)
   }"

definition snrt_dma_start_1d :: "nat \<Rightarrow> u32 \<Rightarrow> u32 \<Rightarrow> u32 \<Rightarrow> dma \<Rightarrow> (u32 \<times> dma) option" where
  "snrt_dma_start_1d d dst src sz s = snrt_dma_start_1d_wideptr d (ucast dst) (ucast src) sz s"

definition snrt_dma_start_2d_wideptr ::
  "nat \<Rightarrow> u64 \<Rightarrow> u64 \<Rightarrow> u32 \<Rightarrow> u32 \<Rightarrow> u32 \<Rightarrow> u32 \<Rightarrow> dma \<Rightarrow> (u32 \<times> dma) option" where
  "snrt_dma_start_2d_wideptr d dst src sz dst_stride src_stride repeat s = do {
     let s = set_args [(10, ucast dst), (11, ucast (drop_bit 32 dst)), (12, ucast src), (13, ucast (drop_bit 32 src)),
                       (14, sz), (15, dst_stride), (16, src_stride), (17, repeat)] s;
     s \<leftarrow> exec_word d (word_of_fields 0b0000000 13 12 0) s;
     s \<leftarrow> exec_word d (word_of_fields 0b0000001 11 10 0) s;
     s \<leftarrow> exec_word d (word_of_fields 0b0000110 15 16 0) s;
     s \<leftarrow> exec_word d (word_of_fields 0b0000111 0 17 0) s;
     s \<leftarrow> exec_word d (word_of_fields 0b0000010 0b00010 14 10) s;
     Some (regs s 10, s)
   }"

definition snrt_dma_start_2d :: "nat \<Rightarrow> u32 \<Rightarrow> u32 \<Rightarrow> u32 \<Rightarrow> u32 \<Rightarrow> u32 \<Rightarrow> u32 \<Rightarrow> dma \<Rightarrow> (u32 \<times> dma) option" where
  "snrt_dma_start_2d d dst src sz dst_stride src_stride repeat s =
     snrt_dma_start_2d_wideptr d (ucast dst) (ucast src) sz dst_stride src_stride repeat s"

text \<open>
  The polling loops. The list says how many requests the engine completes before each
  poll; \<open>None\<close> means the loop is still polling when the list ends. The poll reads its status
  into \<open>t0\<close> (register 5).
\<close>

fun snrt_dma_wait :: "backend \<Rightarrow> nat \<Rightarrow> u32 \<Rightarrow> nat list \<Rightarrow> dma \<Rightarrow> dma option" where
  "snrt_dma_wait bk d tid [] s = None"
| "snrt_dma_wait bk d tid (k # ks) s = do {
     s \<leftarrow> exec_word d (word_of_fields 0b0000100 0b00000 0 5) ((dma_complete bk ^^ k) s);
     if sint (regs s 5 - tid) \<le> 0 then snrt_dma_wait bk d tid ks s else Some s
   }"

fun snrt_dma_wait_all :: "backend \<Rightarrow> nat \<Rightarrow> nat list \<Rightarrow> dma \<Rightarrow> dma option" where
  "snrt_dma_wait_all bk d [] s = None"
| "snrt_dma_wait_all bk d (k # ks) s = do {
     s \<leftarrow> exec_word d (word_of_fields 0b0000100 0b00010 0 5) ((dma_complete bk ^^ k) s);
     if regs s 5 \<noteq> 0 then snrt_dma_wait_all bk d ks s else Some s
   }"

text \<open>\<open>dma_memset\<close>: the core fills the first 64 bytes, the engine copies them onwards.\<close>

primrec fill_loop :: "nat \<Rightarrow> u32 \<Rightarrow> u8 \<Rightarrow> wmem \<Rightarrow> wmem" where
  "fill_loop 0 p v m = m"
| "fill_loop (Suc n) p v m = fill_loop n (p + 1) v (m(ucast p := v))"

definition dma_memset :: "backend \<Rightarrow> nat \<Rightarrow> u32 \<Rightarrow> u8 \<Rightarrow> u32 \<Rightarrow> nat list \<Rightarrow> dma \<Rightarrow> dma option" where
  "dma_memset bk d ptr value len env s = do {
     let s = s\<lparr> dmem := fill_loop 64 ptr value (dmem s) \<rparr>;
     (_, s) \<leftarrow> snrt_dma_start_2d d ptr ptr 64 64 0 (len div 64) s;
     snrt_dma_wait_all bk d env s
   }"

section \<open>The instructions do what the functions want\<close>

lemma decode_words:
  "dma_decode (word_of_fields 0b0000000 13 12 0) = Some (DMSRC 12 13)"
  "dma_decode (word_of_fields 0b0000001 11 10 0) = Some (DMDST 10 11)"
  "dma_decode (word_of_fields 0b0000010 0b00000 14 10) = Some (DMCPYI 10 14 0)"
  "dma_decode (word_of_fields 0b0000010 0b00010 14 10) = Some (DMCPYI 10 14 2)"
  "dma_decode (word_of_fields 0b0000110 15 16 0) = Some (DMSTR 16 15)"
  "dma_decode (word_of_fields 0b0000111 0 17 0) = Some (DMREP 17)"
  "dma_decode (word_of_fields 0b0000100 0b00000 0 5) = Some (DMSTATI 5 0)"
  "dma_decode (word_of_fields 0b0000100 0b00010 0 5) = Some (DMSTATI 5 2)"
  by code_simp+

lemma hilo_split: "hilo (ucast (a :: u64)) (ucast (drop_bit 32 a)) = ucast a"
  unfolding hilo_def by (intro bit_word_eqI) (auto simp: bit_simps)

lemma exec_words:
  "exec_word d (word_of_fields 0b0000000 13 12 0) = dma_fe d (DMSRC 12 13)"
  "exec_word d (word_of_fields 0b0000001 11 10 0) = dma_fe d (DMDST 10 11)"
  "exec_word d (word_of_fields 0b0000010 0b00000 14 10) = dma_fe d (DMCPYI 10 14 0)"
  "exec_word d (word_of_fields 0b0000010 0b00010 14 10) = dma_fe d (DMCPYI 10 14 2)"
  "exec_word d (word_of_fields 0b0000110 15 16 0) = dma_fe d (DMSTR 16 15)"
  "exec_word d (word_of_fields 0b0000111 0 17 0) = dma_fe d (DMREP 17)"
  "exec_word d (word_of_fields 0b0000100 0b00000 0 5) = dma_fe d (DMSTATI 5 0)"
  "exec_word d (word_of_fields 0b0000100 0b00010 0 5) = dma_fe d (DMSTATI 5 2)"
  unfolding exec_word_def decode_words by (rule ext, simp only: bind.simps)+

text \<open>What a state looks like after a request \<open>r\<close> was accepted.\<close>

definition accepted :: "dma \<Rightarrow> twod_req \<Rightarrow> dma \<Rightarrow> bool" where
  "accepted s r t \<longleftrightarrow> fifo t = fifo s @ [r] \<and> next_id t = next_id s + 1 \<and> completed_id t = completed_id s \<and> dmem t = dmem s"

lemma start_1d_accepted:
  assumes "length (fifo s) < d"
  obtains r t where "snrt_dma_start_1d_wideptr d dst src sz s = Some (next_id s, t)" "accepted s r t"
    "r_src r = ucast src" "r_dst r = ucast dst" "num_bytes r = scast sz" "\<not> is_twod r"
proof -
  show thesis
    apply (rule that)
    unfolding snrt_dma_start_1d_wideptr_def exec_words accepted_def
    using assms by (auto simp: Let_def set_args_def wreg_def dma_copy_def hilo_split)
qed

lemma start_2d_accepted:
  assumes "length (fifo s) < d"
  obtains r t where "snrt_dma_start_2d_wideptr d dst src sz ds ss rep s = Some (next_id s, t)" "accepted s r t"
    "r_src r = ucast src" "r_dst r = ucast dst" "num_bytes r = scast sz" "is_twod r"
    "stride_src r = scast ss" "stride_dst r = scast ds" "num_repetitions r = scast rep"
proof -
  show thesis
    apply (rule that)
    unfolding snrt_dma_start_2d_wideptr_def exec_words accepted_def
    using assms by (auto simp: Let_def set_args_def wreg_def dma_copy_def hilo_split)
qed

lemma ucast_narrow: "(ucast (ucast (x :: u32) :: u64) :: addr_t) = ucast x"
  by (intro bit_word_eqI) (auto simp: bit_simps)

lemma start_2d_narrow:
  assumes "length (fifo s) < d"
  obtains r t where "snrt_dma_start_2d d dst src sz ds ss rep s = Some (next_id s, t)" "accepted s r t"
    "r_src r = ucast src" "r_dst r = ucast dst" "num_bytes r = scast sz" "is_twod r"
    "stride_src r = scast ss" "stride_dst r = scast ds" "num_repetitions r = scast rep"
  by (rule start_2d_accepted [OF assms, of "ucast dst" "ucast src" sz ds ss rep])
    (rule that, simp_all add: snrt_dma_start_2d_def ucast_narrow)

section \<open>What the bursts move\<close>

definition copy_bytes :: backend where
  "copy_bytes src dst n m = (\<lambda>a. if unat (a - dst) < n then m (src + (a - dst)) else m a)"

text \<open>
  The contract of the AXI backend: a burst whose source and destination do not overlap, or
  are the same, copies its bytes and touches nothing else.
\<close>

definition moves_bytes :: "backend \<Rightarrow> bool" where
  "moves_bytes bk \<longleftrightarrow> (\<forall>src dst n m. n < 2 ^ 48 \<longrightarrow>
     src = dst \<or> (\<forall>i<n. \<forall>j<n. src + of_nat i \<noteq> dst + of_nat j) \<longrightarrow> bk src dst n m = copy_bytes src dst n m)"

lemma copy_bytes_at:
  assumes "n < 2 ^ 48" "x < n"
  shows "copy_bytes src dst n m (dst + of_nat x) = m (src + of_nat x)"
  using assms unat_of_nat_small [of x, where 'a = 48] by (simp add: copy_bytes_def)

lemma copy_bytes_other:
  assumes "\<And>x. x < n \<Longrightarrow> a \<noteq> dst + of_nat x"
  shows "copy_bytes src dst n m a = m a"
proof -
  have "a = dst + of_nat (unat (a - dst))" by simp
  then have "\<not> unat (a - dst) < n" using assms by blast
  then show ?thesis by (simp add: copy_bytes_def)
qed

lemma copy_bytes_self [simp]: "copy_bytes p p n m = m"
  by (simp add: copy_bytes_def fun_eq_iff)

text \<open>Rows that overlap neither each other nor the sources: everything arrives.\<close>

lemma fold_rows:
  assumes bk: "moves_bytes bk" and n: "n < 2 ^ 48"
    and src: "\<And>i j x y. i < R \<Longrightarrow> j < R \<Longrightarrow> x < n \<Longrightarrow> y < n \<Longrightarrow> src i + of_nat x \<noteq> dst j + of_nat y"
    and sep: "\<And>i j x y. i < R \<Longrightarrow> j < R \<Longrightarrow> i \<noteq> j \<Longrightarrow> x < n \<Longrightarrow> y < n \<Longrightarrow> dst i + of_nat x \<noteq> dst j + of_nat y"
    and res: "res = fold (\<lambda>i. bk (src i) (dst i) n) [0..<R] m"
  shows "(\<forall>i<R. \<forall>x<n. res (dst i + of_nat x) = m (src i + of_nat x))
    \<and> (\<forall>a. (\<forall>i<R. \<forall>x<n. a \<noteq> dst i + of_nat x) \<longrightarrow> res a = m a)"
  unfolding res using src sep
proof (induction R)
  case (Suc R)
  let ?p = "fold (\<lambda>i. bk (src i) (dst i) n) [0..<R] m"
  have IH1: "?p (dst i + of_nat x) = m (src i + of_nat x)" if "i < R" "x < n" for i x
    using Suc.IH Suc.prems that by (simp add: less_Suc_eq)
  have IH2: "?p a = m a" if "\<And>i x. i < R \<Longrightarrow> x < n \<Longrightarrow> a \<noteq> dst i + of_nat x" for a
    using Suc.IH Suc.prems that by (simp add: less_Suc_eq)
  have b: "bk (src R) (dst R) n ?p = copy_bytes (src R) (dst R) n ?p"
    using bk n Suc.prems(1) [of R R] unfolding moves_bytes_def by blast
  have srcR: "?p (src R + of_nat x) = m (src R + of_nat x)" if "x < n" for x
    using that Suc.prems(1) by (intro IH2) simp
  have "copy_bytes (src R) (dst R) n ?p (dst i + of_nat x) = m (src i + of_nat x)" if "i < Suc R" "x < n" for i x
  proof (cases "i = R")
    case True
    then show ?thesis using that srcR copy_bytes_at [OF n that(2)] by simp
  next
    case False
    then have "copy_bytes (src R) (dst R) n ?p (dst i + of_nat x) = ?p (dst i + of_nat x)"
      using that Suc.prems(2) by (intro copy_bytes_other) simp
    then show ?thesis using False that IH1 by simp
  qed
  moreover have "copy_bytes (src R) (dst R) n ?p a = m a" if "\<And>i x. i < Suc R \<Longrightarrow> x < n \<Longrightarrow> a \<noteq> dst i + of_nat x" for a
    using that IH2 [of a] copy_bytes_other [of n a "dst R"] by simp
  ultimately show ?case using b by simp
qed simp

lemma count_down_rows:
  "count_down n ss sd src dst = map (\<lambda>i. (src + of_nat (Suc i) * ss, dst + of_nat (Suc i) * sd)) [0..<n]"
proof (induction n arbitrary: src dst)
  case (Suc n)
  have "[0..<Suc n] = 0 # map Suc [0..<n]" by (simp add: upt_conv_Cons map_Suc_upt del: upt_Suc)
  then show ?case by (simp add: Suc algebra_simps del: upt_Suc)
qed simp

lemma twod_ext_rows:
  assumes "is_twod r" "num_repetitions r \<noteq> 0"
  shows "twod_ext r = map (\<lambda>i. (r_src r + of_nat i * stride_src r, r_dst r + of_nat i * stride_dst r)) [0..<unat (num_repetitions r)]"
proof -
  obtain k where k: "unat (num_repetitions r) = Suc k" using assms(2) gr0_implies_Suc [of "unat (num_repetitions r)"] by (auto simp: unat_gt_0)
  then have k': "unat (num_repetitions r - 1) = k" using unat_minus_no_underflow [of 1 "num_repetitions r"] by simp
  have one: "k = 0" if "num_repetitions r = 1" using that k by simp
  have "twod_ext r = (r_src r, r_dst r) # count_down k (stride_src r) (stride_dst r) (r_src r) (r_dst r)"
    using k' one assms by (simp add: twod_ext_def)
  moreover have "[0..<Suc k] = 0 # map Suc [0..<k]" by (simp add: upt_conv_Cons map_Suc_upt del: upt_Suc)
  ultimately show ?thesis using k by (simp add: count_down_rows del: upt_Suc)
qed

section \<open>Waiting\<close>

definition nonempty_requests :: "dma \<Rightarrow> bool" where
  "nonempty_requests s \<longleftrightarrow> (\<forall>r\<in>set (fifo s). twod_ext r \<noteq> [])"

text \<open>The state after \<open>j\<close> completions, up to the registers of the core.\<close>

definition after :: "backend \<Rightarrow> nat \<Rightarrow> dma \<Rightarrow> dma \<Rightarrow> bool" where
  "after bk j s t \<longleftrightarrow> fifo t = drop j (fifo s) \<and> dmem t = fold (run_request bk) (take j (fifo s)) (dmem s)
     \<and> completed_id t = completed_id s + of_nat (min j (length (fifo s))) \<and> next_id t = next_id s"

lemma after_trans:
  assumes "after bk i s t" "after bk j t u"
  shows "after bk (i + j) s u"
proof -
  have "min (i + j) (length (fifo s)) = min i (length (fifo s)) + min j (length (fifo s) - i)" by auto
  then show ?thesis using assms by (simp add: after_def take_add add.commute)
qed

lemma after_step: "nonempty_requests s \<Longrightarrow> after bk 1 s (dma_complete bk s)"
  by (cases "fifo s") (simp_all add: after_def dma_complete_def nonempty_requests_def)

lemma after_nonempty: "nonempty_requests s \<Longrightarrow> after bk k s t \<Longrightarrow> nonempty_requests t"
  by (auto simp: nonempty_requests_def after_def dest: in_set_dropD)

lemma after_pow: "nonempty_requests s \<Longrightarrow> after bk k s ((dma_complete bk ^^ k) s)"
proof (induction k)
  case (Suc k)
  then show ?case using after_trans [OF Suc.IH after_step] after_nonempty by fastforce
qed (simp add: after_def)

lemma after_wreg [simp]: "after bk k s (wreg r v t) = after bk k s t"
  by (simp add: after_def wreg_def)

lemma sint_diff_small:
  assumes "i < 2 ^ 31" "j < 2 ^ 31"
  shows "sint (of_nat i - of_nat j :: u32) = int i - int j"
proof -
  have "(of_nat i - of_nat j :: u32) = word_of_int (int i - int j)" by simp
  moreover have "- (2 ^ 31) \<le> int i - int j" "int i - int j < 2 ^ 31" using assms by (simp_all add: algebra_simps)
  ultimately show ?thesis by (simp only: sint_word_of_int_small)
qed

lemma dma_wait_loop:
  assumes "nonempty_requests s" "i < length (fifo s)" "length (fifo s) < 2 ^ 31" "i < sum_list env"
    "tid = completed_id s + of_nat i"
  shows "\<exists>t j. snrt_dma_wait bk d tid env s = Some t \<and> i < j \<and> after bk j s t"
  using assms
proof (induction env arbitrary: s i)
  case (Cons k ks)
  let ?c = "(dma_complete bk ^^ k) s" and ?L = "length (fifo s)"
  let ?t = "wreg 5 (completed_id ?c) ?c"
  have A: "after bk k s ?t" using after_pow [OF Cons.prems(1)] by simp
  have "regs ?t 5 - tid = of_nat (min k ?L) - of_nat i"
    using Cons.prems(5) A by (simp add: wreg_def after_def)
  moreover have "min k ?L < 2 ^ 31" "i < 2 ^ 31" using Cons.prems(2,3) by auto
  ultimately have v: "sint (regs ?t 5 - tid) = int (min k ?L) - int i" using sint_diff_small by simp
  have step: "snrt_dma_wait bk d tid (k # ks) s = (if sint (regs ?t 5 - tid) \<le> 0 then snrt_dma_wait bk d tid ks ?t else Some ?t)"
    unfolding snrt_dma_wait.simps exec_words by (simp add: dma_stat_def Let_def)
  show ?case
  proof (cases "i < k")
    case True
    then have "\<not> sint (regs ?t 5 - tid) \<le> 0" using v Cons.prems(2) by simp
    then show ?thesis using A True step by auto
  next
    case False
    then have "sint (regs ?t 5 - tid) \<le> 0" using v by simp
    then have s1: "snrt_dma_wait bk d tid (k # ks) s = snrt_dma_wait bk d tid ks ?t" using step by simp
    have f: "fifo ?t = drop k (fifo s)" "completed_id ?t = completed_id s + of_nat k"
      using A False Cons.prems(2) by (simp_all add: after_def)
    have "nonempty_requests ?t" using after_nonempty [OF Cons.prems(1) A] .
    moreover have "tid = completed_id ?t + of_nat (i - k)" using Cons.prems(5) f(2) False by (simp add: of_nat_diff)
    moreover have "i - k < length (fifo ?t)" "length (fifo ?t) < 2 ^ 31" "i - k < sum_list ks"
      using Cons.prems(2-4) f(1) False by auto
    ultimately obtain t j where t: "snrt_dma_wait bk d tid ks ?t = Some t" "i - k < j" "after bk j ?t t"
      using Cons.IH [of ?t "i - k"] by blast
    then show ?thesis using s1 after_trans [OF A t(3)] by (intro exI [of _ t] exI [of _ "k + j"]) auto
  qed
qed simp

lemma dma_wait_all_loop:
  assumes "nonempty_requests s" "next_id s = completed_id s + of_nat (length (fifo s))" "length (fifo s) < 2 ^ 31"
    "length (fifo s) \<le> sum_list env" "env \<noteq> []"
  shows "\<exists>t. snrt_dma_wait_all bk d env s = Some t \<and> after bk (length (fifo s)) s t"
  using assms
proof (induction env arbitrary: s)
  case (Cons k ks)
  let ?c = "(dma_complete bk ^^ k) s" and ?L = "length (fifo s)"
  let ?t = "wreg 5 (of_bool (dma_busy ?c)) ?c"
  have A: "after bk k s ?t" using after_pow [OF Cons.prems(1)] by simp
  have "dma_busy ?c \<longleftrightarrow> (of_nat ?L :: u32) \<noteq> of_nat (min k ?L)"
    using after_pow [OF Cons.prems(1), of bk k] Cons.prems(2) by (simp add: after_def dma_busy_def)
  also have "\<dots> \<longleftrightarrow> \<not> ?L \<le> k" using Cons.prems(3) of_nat_word_inj [of ?L "min k ?L", where 'a = 32] by (auto simp: min_def)
  finally have v: "regs ?t 5 \<noteq> 0 \<longleftrightarrow> \<not> ?L \<le> k" by (simp add: wreg_def)
  have step: "snrt_dma_wait_all bk d (k # ks) s = (if regs ?t 5 \<noteq> 0 then snrt_dma_wait_all bk d ks ?t else Some ?t)"
    unfolding snrt_dma_wait_all.simps exec_words by (simp add: dma_stat_def Let_def take_bit_numeral_numeral)
  show ?case
  proof (cases "?L \<le> k")
    case True
    then have "after bk ?L s ?t" using A by (simp add: after_def)
    then show ?thesis using step v True by auto
  next
    case False
    then have f: "fifo ?t = drop k (fifo s)" "completed_id ?t = completed_id s + of_nat k" "next_id ?t = next_id s"
      using A by (simp_all add: after_def)
    have "nonempty_requests ?t" using after_nonempty [OF Cons.prems(1) A] .
    moreover have "next_id ?t = completed_id ?t + of_nat (length (fifo ?t))" using Cons.prems(2) f False by (simp add: of_nat_diff)
    moreover have "length (fifo ?t) < 2 ^ 31" "length (fifo ?t) \<le> sum_list ks" "ks \<noteq> []"
      using Cons.prems(3,4) f(1) False by auto
    ultimately obtain t where t: "snrt_dma_wait_all bk d ks ?t = Some t" "after bk (length (fifo ?t)) ?t t"
      using Cons.IH [of ?t] by blast
    then show ?thesis using step v False f(1) after_trans [OF A t(2)] by auto
  qed
qed simp

section \<open>Rows of a 32-bit transfer\<close>

lemma scast_small: "unat (s :: u32) < 2 ^ 31 \<Longrightarrow> (scast s :: addr_t) = of_nat (unat s)"
proof -
  assume "unat s < 2 ^ 31"
  then have "sint (of_nat (unat s) :: u32) = int (unat s)" by (rule sint_of_nat_small)
  moreover have "of_nat (unat s) = s" by simp
  ultimately have "sint s = int (unat s)" by metis
  then show ?thesis by (simp add: scast_eq)
qed

lemma row_address:
  assumes "unat s < 2 ^ 31"
  shows "(ucast (p :: u32) :: addr_t) + of_nat i * scast (s :: u32) + of_nat x = of_nat (unat p + i * unat s + x)"
  using scast_small [OF assms] by simp

text \<open>
  The geometry of a transfer in the 32-bit address space: \<open>n\<close> bytes per row, rows that do
  not overlap, and a source region apart from the destination region.
\<close>

definition region_end :: "u32 \<Rightarrow> u32 \<Rightarrow> u32 \<Rightarrow> u32 \<Rightarrow> nat" where
  "region_end p s rep n = unat p + (unat rep - 1) * unat s + unat n"

definition well_placed :: "u32 \<Rightarrow> u32 \<Rightarrow> u32 \<Rightarrow> u32 \<Rightarrow> u32 \<Rightarrow> u32 \<Rightarrow> bool" where
  "well_placed dst src n ds ss rep \<longleftrightarrow>
     rep \<noteq> 0 \<and> unat rep < 2 ^ 31 \<and> unat n < 2 ^ 31 \<and> unat ds < 2 ^ 31 \<and> unat ss < 2 ^ 31 \<and> n \<le> ds
     \<and> region_end dst ds rep n \<le> 2 ^ 32 \<and> region_end src ss rep n \<le> 2 ^ 32
     \<and> (region_end dst ds rep n \<le> unat src \<or> region_end src ss rep n \<le> unat dst)"

lemma row_bound:
  assumes "i < unat rep" "x < unat n"
  shows "unat p + i * unat s + x < region_end p s rep n"
proof -
  have "i * unat s \<le> (unat rep - 1) * unat s" using assms(1) by (intro mult_le_mono1) simp
  then show ?thesis using assms(2) unfolding region_end_def by linarith
qed

lemma rows_apart:
  fixes i j s x y n :: nat
  assumes "i < j" "x < n" "n \<le> s"
  shows "i * s + x < j * s + y"
proof -
  have "Suc i * s \<le> j * s" using assms(1) by (intro mult_le_mono1) simp
  then show ?thesis using assms(2,3) by simp
qed

abbreviation row :: "u32 \<Rightarrow> u32 \<Rightarrow> nat \<Rightarrow> nat \<Rightarrow> addr_t" where
  "row p s i x \<equiv> of_nat (unat p + i * unat s + x)"

lemma run_request_rows:
  assumes bk: "moves_bytes bk" and w: "well_placed dst src n ds ss rep"
    and r: "r_src r = ucast src" "r_dst r = ucast dst" "num_bytes r = scast n" "is_twod r"
      "stride_src r = scast ss" "stride_dst r = scast ds" "num_repetitions r = scast rep"
  shows "twod_ext r \<noteq> []"
    and "i < unat rep \<Longrightarrow> x < unat n \<Longrightarrow> run_request bk r m (row dst ds i x) = m (row src ss i x)"
    and "(\<And>i x. i < unat rep \<Longrightarrow> x < unat n \<Longrightarrow> a \<noteq> row dst ds i x) \<Longrightarrow> run_request bk r m a = m a"
proof -
  have rep: "unat (scast rep :: addr_t) = unat rep" "unat (scast n :: addr_t) = unat n"
    using w unat_of_nat_small [of "unat rep", where 'a = 48] unat_of_nat_small [of "unat n", where 'a = 48]
    by (simp_all add: well_placed_def scast_small)
  have "scast rep \<noteq> (0 :: addr_t)" using rep(1) w by (metis unat_0 unat_eq_zero well_placed_def)
  then have rows: "twod_ext r = map (\<lambda>i. (ucast src + of_nat i * scast ss, ucast dst + of_nat i * scast ds)) [0..<unat rep]"
    using twod_ext_rows [of r] r rep by simp
  then have run: "run_request bk r m = fold (\<lambda>i. bk (ucast src + of_nat i * scast ss) (ucast dst + of_nat i * scast ds) (unat n)) [0..<unat rep] m"
    for m using r rep by (simp add: run_request_def fold_map comp_def)
  have A: "(ucast src :: addr_t) + of_nat i * scast ss + of_nat x = row src ss i x"
    "(ucast dst :: addr_t) + of_nat i * scast ds + of_nat x = row dst ds i x" for i x
    using w by (simp_all only: row_address well_placed_def)
  have b: "unat dst + i * unat ds + x < 2 ^ 48" "unat src + i * unat ss + x < 2 ^ 48"
    "unat dst + i * unat ds + x < region_end dst ds rep n" "unat src + i * unat ss + x < region_end src ss rep n"
    if "i < unat rep" "x < unat n" for i x
  proof -
    note B = row_bound [OF that, of dst ds] row_bound [OF that, of src ss]
    show "unat dst + i * unat ds + x < region_end dst ds rep n" "unat src + i * unat ss + x < region_end src ss rep n"
      using B .
    have "region_end dst ds rep n \<le> 2 ^ 32" "region_end src ss rep n \<le> 2 ^ 32" using w by (simp_all add: well_placed_def)
    then show "unat dst + i * unat ds + x < 2 ^ 48" "unat src + i * unat ss + x < 2 ^ 48" using B by simp_all
  qed
  have sep: "(row dst ds i x :: addr_t) \<noteq> row dst ds j y"
    if ij: "i < unat rep" "j < unat rep" "i \<noteq> j" "x < unat n" "y < unat n" for i j x y
  proof
    assume "(row dst ds i x :: addr_t) = row dst ds j y"
    then have "unat dst + i * unat ds + x = unat dst + j * unat ds + y"
      using b(1) [OF ij(1,4)] b(1) [OF ij(2,5)] of_nat_word_inj [where 'a = 48] by simp
    moreover have "unat n \<le> unat ds" using w by (simp add: well_placed_def word_le_nat_alt)
    ultimately show False
      using rows_apart [of i j x "unat n" "unat ds" y] rows_apart [of j i y "unat n" "unat ds" x] ij by linarith
  qed
  have srcs: "(row src ss i x :: addr_t) \<noteq> row dst ds j y"
    if ij: "i < unat rep" "j < unat rep" "x < unat n" "y < unat n" for i j x y
  proof
    assume "(row src ss i x :: addr_t) = row dst ds j y"
    then have "unat src + i * unat ss + x = unat dst + j * unat ds + y"
      using b(2) [OF ij(1,3)] b(1) [OF ij(2,4)] of_nat_word_inj [where 'a = 48] by simp
    then show False using w b(4) [OF ij(1,3)] b(3) [OF ij(2,4)] unfolding well_placed_def by linarith
  qed
  have n: "unat n < 2 ^ 48" using w by (simp add: well_placed_def)
  note F = fold_rows [OF bk n, of "unat rep" "\<lambda>i. ucast src + of_nat i * scast ss" "\<lambda>i. ucast dst + of_nat i * scast ds",
      unfolded A, OF srcs sep, OF _ _ _ _ _ _ _ _ _ run]
  show "twod_ext r \<noteq> []" using rows w by (simp add: well_placed_def unat_gt_0)
  show "i < unat rep \<Longrightarrow> x < unat n \<Longrightarrow> run_request bk r m (row dst ds i x) = m (row src ss i x)"
    using F by blast
  show "(\<And>i x. i < unat rep \<Longrightarrow> x < unat n \<Longrightarrow> a \<noteq> row dst ds i x) \<Longrightarrow> run_request bk r m a = m a"
    using F by blast
qed

section \<open>Properties\<close>

text \<open>An engine in which the counters agree with the FIFO.\<close>

definition dma_ok :: "dma \<Rightarrow> bool" where
  "dma_ok s \<longleftrightarrow> next_id s = completed_id s + of_nat (length (fifo s)) \<and> length (fifo s) + 1 < 2 ^ 31 \<and> nonempty_requests s"

lemma accepted_ok:
  assumes "dma_ok s" "accepted s r t" "twod_ext r \<noteq> []" "length (fifo s) + 2 < 2 ^ 31"
  shows "dma_ok t"
  using assms by (auto simp: dma_ok_def accepted_def nonempty_requests_def)

text \<open>The memory once everything that is queued has been moved.\<close>

definition settled :: "backend \<Rightarrow> dma \<Rightarrow> wmem" where
  "settled bk s = fold (run_request bk) (fifo s) (dmem s)"

text \<open>
  C18: a two-dimensional transfer followed by a wait for its identifier. Whatever was
  queued before and however the engine's progress is timed against the polls, the call
  returns the identifier, the wait returns, and by then every byte of every row has been
  moved on top of the effect of the earlier transfers, and no other byte has changed. The
  transfer counters may wrap around.
\<close>

theorem dma_2d_then_wait:
  assumes "moves_bytes bk" "dma_ok s" "length (fifo s) < d" "well_placed dst src n ds ss rep" "length (fifo s) < sum_list env"
  shows "\<exists>tid t u. snrt_dma_start_2d d dst src n ds ss rep s = Some (tid, t) \<and> snrt_dma_wait bk d tid env t = Some u
    \<and> (\<forall>i<unat rep. \<forall>x<unat n. dmem u (row dst ds i x) = settled bk s (row src ss i x))
    \<and> (\<forall>a. (\<forall>i<unat rep. \<forall>x<unat n. a \<noteq> row dst ds i x) \<longrightarrow> dmem u a = settled bk s a)"
proof -
  obtain r t where t: "snrt_dma_start_2d d dst src n ds ss rep s = Some (next_id s, t)" "accepted s r t"
    and r: "r_src r = ucast src" "r_dst r = ucast dst" "num_bytes r = scast n" "is_twod r"
      "stride_src r = scast ss" "stride_dst r = scast ds" "num_repetitions r = scast rep"
    by (rule start_2d_narrow [OF assms(3)])
  note R = run_request_rows [OF assms(1,4) r]
  have "nonempty_requests t" "next_id s = completed_id t + of_nat (length (fifo s))" "length (fifo s) < length (fifo t)"
    "length (fifo t) < 2 ^ 31"
    using assms(2) t(2) R(1) by (auto simp: dma_ok_def accepted_def nonempty_requests_def)
  then obtain u j where u: "snrt_dma_wait bk d (next_id s) env t = Some u" "length (fifo s) < j" "after bk j t u"
    using dma_wait_loop [of t "length (fifo s)" env "next_id s" bk d] assms(5) by blast
  then have "dmem u = run_request bk r (settled bk s)"
    using t(2) by (simp add: after_def accepted_def settled_def)
  then show ?thesis using t(1) u(1) R(2,3) by (intro exI [of _ "next_id s"] exI [of _ t] exI [of _ u] conjI) simp_all
qed

text \<open>A transfer of three rows while another one is queued and the counters are about to wrap.\<close>

definition demo_dma :: dma where
  "demo_dma = \<lparr> regs = (\<lambda>_. 0),
     req_q = \<lparr> r_src = 0, r_dst = 0, num_bytes = 0, stride_src = 0, stride_dst = 0, num_repetitions = 0,
               decouple_rw = False, is_twod = False \<rparr>,
     fifo = [\<lparr> r_src = 0, r_dst = 64, num_bytes = 8, stride_src = 0, stride_dst = 0, num_repetitions = 0,
               decouple_rw = False, is_twod = False \<rparr>],
     next_id = 0, completed_id = 0xFFFFFFFF, dmem = (\<lambda>a. ucast a) \<rparr>"

lemma copy_bytes_moves: "moves_bytes copy_bytes"
  by (simp add: moves_bytes_def)

theorem dma_2d_then_wait_witness:
  "\<exists>tid t u. snrt_dma_start_2d 4 0x2000 0x1000 16 16 32 3 demo_dma = Some (tid, t) \<and> snrt_dma_wait copy_bytes 4 tid [0, 1, 1] t = Some u"
  using dma_2d_then_wait [OF copy_bytes_moves, of demo_dma 4 "0x2000" "0x1000" 16 16 32 3 "[0, 1, 1]"]
  by (auto simp: demo_dma_def dma_ok_def nonempty_requests_def twod_ext_def well_placed_def region_end_def)

text \<open>The loop of \<open>dma_memset\<close>.\<close>

lemma ex_less_Suc_shift: "(\<exists>x<Suc n. P x) \<longleftrightarrow> P 0 \<or> (\<exists>x<n. P (Suc x))"
  using less_Suc_eq_0_disj by auto

lemma fill_loop_spec:
  assumes "unat p + n \<le> 2 ^ 32"
  shows "fill_loop n p v m a = (if \<exists>x<n. a = of_nat (unat p + x) then v else m a)"
  using assms
proof (induction n arbitrary: p m)
  case (Suc n)
  have p0: "(ucast p :: addr_t) = of_nat (unat p)" by simp
  have b: "unat p < 2 ^ 48" "\<And>x. x < Suc n \<Longrightarrow> unat p + x < 2 ^ 48" using Suc.prems by auto
  show ?case
  proof (cases n)
    case 0
    then show ?thesis using p0 by (simp del: of_nat_unat)
  next
    case (Suc k)
    then have u: "unat (p + 1) = Suc (unat p)" using Suc.prems unat_plus_no_overflow [of p 1] by simp
    have "(\<exists>x<n. a = of_nat (unat (p + 1) + x)) \<or> a = of_nat (unat p) \<longleftrightarrow> (\<exists>x<Suc n. a = of_nat (unat p + x))"
      unfolding u ex_less_Suc_shift by auto
    moreover have E: "fill_loop n (p + 1) v (m(ucast p := v)) a = (if \<exists>x<n. a = of_nat (unat (p + 1) + x) then v else (m(ucast p := v)) a)"
      using Suc.prems u by (intro Suc.IH) simp
    ultimately show ?thesis unfolding fill_loop.simps E fun_upd_apply p0 by (simp only: if_split) blast
  qed
qed simp

lemma memset_rows:
  assumes bk: "moves_bytes bk" and R: "unat ptr + Suc R * 64 \<le> 2 ^ 32"
  shows "fold (\<lambda>i. bk (of_nat (unat ptr)) (of_nat (unat ptr + i * 64)) 64) [0..<Suc R] (fill_loop 64 ptr v m) a
    = (if \<exists>x<Suc R * 64. a = of_nat (unat ptr + x) then v else m a)"
proof -
  let ?f = "fill_loop 64 ptr v m" and ?s = "\<lambda>i. of_nat (unat ptr) :: addr_t" and ?d = "\<lambda>i. of_nat (unat ptr + Suc i * 64) :: addr_t"
  let ?res = "fold (\<lambda>i. bk (?s i) (?d i) 64) [0..<R] ?f"
  have lim: "unat ptr + Suc i * 64 + x < 2 ^ 48" "unat ptr + x < 2 ^ 48" if "i < R" "x < 64" for i x
  proof -
    have "Suc i * 64 \<le> R * 64" using that(1) by simp
    then show "unat ptr + Suc i * 64 + x < 2 ^ 48" "unat ptr + x < 2 ^ 48" using that(2) R by simp_all
  qed
  have D: "?d i + of_nat x = of_nat (unat ptr + Suc i * 64 + x)" "?s i + of_nat x = of_nat (unat ptr + x)" for i x
    by simp_all
  have F: "(\<forall>i<R. \<forall>x<64. ?res (?d i + of_nat x) = ?f (?s i + of_nat x))
    \<and> (\<forall>a. (\<forall>i<R. \<forall>x<64. a \<noteq> ?d i + of_nat x) \<longrightarrow> ?res a = ?f a)"
  proof (rule fold_rows [OF bk _ _ _ refl])
    show "?s i + of_nat x \<noteq> ?d j + of_nat y" if "i < R" "j < R" "x < 64" "y < 64" for i j x y
      unfolding D using of_nat_word_inj [of "unat ptr + x" "unat ptr + Suc j * 64 + y", where 'a = 48] lim that by auto
    show "?d i + of_nat x \<noteq> ?d j + of_nat y" if "i < R" "j < R" "i \<noteq> j" "x < 64" "y < 64" for i j x y
      unfolding D
      using of_nat_word_inj [of "unat ptr + Suc i * 64 + x" "unat ptr + Suc j * 64 + y", where 'a = 48] lim that
        rows_apart [of i j x 64 64 y] rows_apart [of j i y 64 64 x] by auto
  qed simp
  have f: "?f b = (if \<exists>x<64. b = of_nat (unat ptr + x) then v else m b)" for b using R by (intro fill_loop_spec) simp
  have "?res a = (if \<exists>x<Suc R * 64. a = of_nat (unat ptr + x) then v else m a)"
  proof (cases "\<exists>i<R. \<exists>x<64. a = ?d i + of_nat x")
    case True
    then obtain i x where ix: "i < R" "x < 64" "a = ?d i + of_nat x" by blast
    then have "?res a = v" using F f [of "?s i + of_nat x"] by (auto simp: D)
    moreover have "Suc i * 64 + x < Suc R * 64" using ix(1,2) by simp
    ultimately show ?thesis using ix(3) D(1) by (metis add.assoc)
  next
    case False
    then have "?res a = ?f a" using F by blast
    moreover have "(\<exists>x<Suc R * 64. a = of_nat (unat ptr + x)) \<longleftrightarrow> (\<exists>x<64. a = of_nat (unat ptr + x))"
    proof
      assume "\<exists>x<Suc R * 64. a = of_nat (unat ptr + x)"
      then obtain x where x: "x < Suc R * 64" "a = of_nat (unat ptr + x)" by blast
      show "\<exists>x<64. a = of_nat (unat ptr + x)"
      proof (cases "x < 64")
        case False2: False
        then have "a = ?d (x div 64 - 1) + of_nat (x mod 64)" "x div 64 - 1 < R" "x mod 64 < 64"
          using x unfolding D by (simp_all add: field_simps)
        then show ?thesis using False by blast
      qed (use x in blast)
    next
      assume "\<exists>x<64. a = of_nat (unat ptr + x)"
      then obtain x where "x < 64" "a = of_nat (unat ptr + x)" by blast
      then show "\<exists>x<Suc R * 64. a = of_nat (unat ptr + x)" by (intro exI [of _ x]) simp
    qed
    ultimately show ?thesis using f by simp
  qed
  moreover have "fold (\<lambda>i. bk (of_nat (unat ptr)) (of_nat (unat ptr + i * 64)) 64) [0..<Suc R] ?f = ?res"
  proof -
    have "bk (?s 0) (?s 0) 64 ?f = ?f" using bk unfolding moves_bytes_def by simp
    moreover have "[0..<Suc R] = 0 # map Suc [0..<R]" by (simp add: upt_conv_Cons map_Suc_upt del: upt_Suc)
    ultimately show ?thesis by (simp add: fold_map comp_def del: upt_Suc)
  qed
  ultimately show ?thesis by simp
qed

definition dma_idle :: "dma \<Rightarrow> bool" where
  "dma_idle s \<longleftrightarrow> fifo s = [] \<and> next_id s = completed_id s"

text \<open>
  C31: \<open>dma_memset\<close> on an idle engine, for a length that is a positive multiple of 64 as its
  comment asks: it returns, and exactly the bytes of the region hold the value.
\<close>

theorem dma_memset_fills:
  assumes "moves_bytes bk" "dma_idle s" "0 < d" "unat len = Suc R * 64" "unat ptr + unat len \<le> 2 ^ 32" "1 \<le> sum_list env"
  shows "\<exists>t. dma_memset bk d ptr v len env s = Some t
    \<and> (\<forall>a. dmem t a = (if \<exists>x<unat len. a = of_nat (unat ptr + x) then v else dmem s a))"
proof -
  let ?s = "s\<lparr> dmem := fill_loop 64 ptr v (dmem s) \<rparr>"
  have "length (fifo ?s) < d" using assms(2,3) by (simp add: dma_idle_def)
  then obtain r t where t: "snrt_dma_start_2d d ptr ptr 64 64 0 (len div 64) ?s = Some (next_id ?s, t)" "accepted ?s r t"
    and r: "r_src r = ucast ptr" "r_dst r = ucast ptr" "num_bytes r = scast (64 :: u32)" "is_twod r"
      "stride_src r = scast (0 :: u32)" "stride_dst r = scast (64 :: u32)" "num_repetitions r = scast (len div 64)"
    by (rule start_2d_narrow)
  have "unat (len div 64) = Suc R" using assms(4) by (simp add: unat_div)
  moreover have "unat (len div 64) < 2 ^ 31" using unat_lt_2p [of len] by (simp add: unat_div)
  ultimately have rep: "(scast (len div 64) :: addr_t) = of_nat (Suc R)" and R: "Suc R < 2 ^ 31" using scast_small by metis+
  then have rep': "unat (scast (len div 64) :: addr_t) = Suc R"
    using unat_of_nat_small [of "Suc R", where 'a = 48] by (simp del: of_nat_Suc)
  then have "scast (len div 64) \<noteq> (0 :: addr_t)" by auto
  then have rows: "twod_ext r = map (\<lambda>i. (of_nat (unat ptr), of_nat (unat ptr + i * 64))) [0..<Suc R]"
    using twod_ext_rows [of r] r rep' by (simp add: mult.commute del: upt_Suc)
  have "nonempty_requests t" "next_id t = completed_id t + of_nat (length (fifo t))" "length (fifo t) = 1"
    using t(2) assms(2) rows by (simp_all add: accepted_def nonempty_requests_def dma_idle_def)
  moreover have "env \<noteq> []" using assms(6) by auto
  ultimately obtain u where u: "snrt_dma_wait_all bk d env t = Some u" "after bk 1 t u"
    using dma_wait_all_loop [of t env bk d] assms(6) by auto
  have "dmem u = run_request bk r (fill_loop 64 ptr v (dmem s))"
    using u(2) t(2) assms(2) by (simp add: after_def accepted_def dma_idle_def)
  then have "dmem u = fold (\<lambda>i. bk (of_nat (unat ptr)) (of_nat (unat ptr + i * 64)) 64) [0..<Suc R] (fill_loop 64 ptr v (dmem s))"
    using r by (simp add: run_request_def rows fold_map comp_def del: upt_Suc of_nat_add of_nat_unat)
  then show ?thesis
    using t(1) u(1) memset_rows [OF assms(1), of ptr R v "dmem s"] assms(4,5) by (simp add: dma_memset_def del: upt_Suc)
qed

theorem dma_memset_fills_witness:
  "\<exists>t. dma_memset copy_bytes 4 0x1000 7 128 [0, 1] (demo_dma\<lparr> fifo := [], next_id := 5, completed_id := 5 \<rparr>) = Some t
     \<and> dmem t 0x107F = 7 \<and> dmem t 0x1080 = 0x80"
proof -
  let ?s = "demo_dma\<lparr> fifo := [], next_id := 5, completed_id := 5 \<rparr>"
  obtain t where t: "dma_memset copy_bytes 4 0x1000 7 128 [0, 1] ?s = Some t"
    "\<And>a. dmem t a = (if \<exists>x<128. a = of_nat (0x1000 + x) then 7 else dmem ?s a)"
    using dma_memset_fills [OF copy_bytes_moves, of ?s 4 128 1 "0x1000" "[0, 1]" 7] by (auto simp: dma_idle_def)
  have "\<exists>x<128. (0x107F :: addr_t) = of_nat (0x1000 + x)" by (intro exI [of _ 127]) simp
  then have "dmem t 0x107F = 7" unfolding t(2) by (simp only: if_True)
  moreover have "\<not> (\<exists>x<128. (0x1080 :: addr_t) = of_nat (0x1000 + x))"
  proof (intro notI, elim exE conjE)
    fix x :: nat
    assume x: "x < 128" "(0x1080 :: addr_t) = of_nat (0x1000 + x)"
    then have "of_nat 0x1080 = (of_nat (0x1000 + x) :: addr_t)" by simp
    then have "0x1080 = 0x1000 + x" using x(1) by (intro of_nat_word_inj [where 'a = 48]) simp_all
    then show False using x(1) by simp
  qed
  then have "dmem t 0x1080 = 0x80" unfolding t(2) by (simp only: if_False) (simp add: demo_dma_def)
  ultimately show ?thesis using t(1) by blast
qed

text \<open>
  C38: for fewer than 64 bytes \<open>dma_memset\<close> never returns: the repetition count is zero, the
  frontend hands out an identifier for the transfer but the engine never counts it as
  completed, and the wait polls for ever.
\<close>

theorem dma_memset_short_hangs:
  assumes "dma_idle s" "unat len < 64"
  shows "dma_memset bk d ptr v len env s = None"
proof (cases "0 < d")
  case True
  let ?s = "s\<lparr> dmem := fill_loop 64 ptr v (dmem s) \<rparr>"
  have "length (fifo ?s) < d" using assms(1) True by (simp add: dma_idle_def)
  then obtain r t where t: "snrt_dma_start_2d d ptr ptr 64 64 0 (len div 64) ?s = Some (next_id ?s, t)" "accepted ?s r t"
    and r: "is_twod r" "num_repetitions r = scast (len div 64)"
    by (rule start_2d_narrow)
  have "unat (len div 64) = unat (0 :: u32)" using assms(2) by (simp add: unat_div)
  then have "len div 64 = 0" by (rule unsigned_word_eqI)
  then have e: "twod_ext r = []" using r by (simp add: twod_ext_def)
  have "next_id u = completed_id u + 1 \<and> (fifo u = [r] \<or> fifo u = []) \<Longrightarrow> snrt_dma_wait_all bk d env u = None" for u
  proof (induction env arbitrary: u)
    case (Cons k ks)
    have c: "next_id ((dma_complete bk ^^ k) u) = completed_id ((dma_complete bk ^^ k) u) + 1
      \<and> (fifo ((dma_complete bk ^^ k) u) = [r] \<or> fifo ((dma_complete bk ^^ k) u) = [])"
      using Cons.prems e by (induction k) (auto simp: dma_complete_def)
    let ?t = "wreg 5 (of_bool (dma_busy ((dma_complete bk ^^ k) u))) ((dma_complete bk ^^ k) u)"
    have step: "snrt_dma_wait_all bk d (k # ks) u = (if regs ?t 5 \<noteq> 0 then snrt_dma_wait_all bk d ks ?t else Some ?t)"
      unfolding snrt_dma_wait_all.simps exec_words by (simp add: dma_stat_def Let_def take_bit_numeral_numeral)
    have "regs ?t 5 \<noteq> 0" using c by (simp add: wreg_def dma_busy_def)
    moreover have "snrt_dma_wait_all bk d ks ?t = None" using c by (intro Cons.IH) (simp add: wreg_def)
    ultimately show ?case using step by simp
  qed simp
  then have "snrt_dma_wait_all bk d env t = None" using t(2) assms(1) by (simp add: accepted_def dma_idle_def)
  then show ?thesis using t(1) by (simp add: dma_memset_def)
next
  case False
  then show ?thesis
    unfolding dma_memset_def snrt_dma_start_2d_def snrt_dma_start_2d_wideptr_def exec_words
    by (simp add: dma_copy_def Let_def)
qed

theorem dma_memset_short_hangs_witness:
  "dma_memset copy_bytes 4 0x1000 7 32 [3, 1, 4] (demo_dma\<lparr> fifo := [], next_id := 5, completed_id := 5 \<rparr>) = None"
  by (rule dma_memset_short_hangs) (simp_all add: dma_idle_def)

end
