(* ===== verification/Dm.thy ===== *)
theory Dm
  imports Interrupts "HOL-Library.Sublist"
begin

text \<open>
  The data mover of the OpenMP runtime (\<open>sw/snRuntime/src/dm.h\<close>): a ring of four transfer
  descriptors between the compute cores and the data mover core, and a request/response
  word for status commands. Every function a compute core calls is the list of its
  accesses to the shared structure; cores, data mover and DMA engine interleave freely.
  The configuration is the default one (cluster-local CLINT).
\<close>

section \<open>State\<close>

definition DM_TASK_QUEUE_SIZE :: nat where
  "DM_TASK_QUEUE_SIZE = 4"

record dm_task_t =
  t_src :: u64
  t_dst :: u64
  t_size :: u32
  t_sstrd :: u32
  t_dstrd :: u32
  t_nreps :: u32
  t_cfg :: u32
  t_twod :: u32

text \<open>\<open>en_stat_t\<close> as the values the code stores; 0 is no request.\<close>

definition STAT_WAIT_IDLE :: u32 where "STAT_WAIT_IDLE = 1"
definition STAT_EXIT :: u32 where "STAT_EXIT = 2"
definition STAT_READY :: u32 where "STAT_READY = 3"

record dm_t =
  queue :: "nat \<Rightarrow> dm_task_t"
  queue_back :: u32
  queue_front :: u32
  queue_fill :: u32
  dm_mutex :: u32
  stat_q :: u32
  stat_p :: u32
  stat_pvalid :: u32
  dm_wfi :: u32

text \<open>What the data mover starts on the DMA engine.\<close>

datatype dma_start = Start1d u64 u64 u32 u32 | Start2d u64 u64 u32 u32 u32 u32 u32

text \<open>The accesses of the client functions.\<close>

datatype prim =
    PollRoom | Lock | Unlock
  | Store1d u64 u64 u32 | Store2d u64 u64 u32 u32 u32 u32 u32 | IncFill | BumpFront
  | WaitWfi | SetIrq
  | PollEmpty | PollNoStat | ClrPvalid | SetStat u32 | PollPvalid

datatype dm_op = Memcpy u64 u64 u32 | Memcpy2d u64 u64 u32 u32 u32 u32 u32 | Start | Wait | WaitReady | Exit

text \<open>The next access of the data mover core in \<open>dm_main\<close>.\<close>

datatype dpc = DFill | DReady | DIssue | DBack | DDec | DStat | DSwitch | DBusy | DPvalid | DClear
  | DSleepFill | DSleepStat | DWfiUp | DWfi | DIrqClr | DWfiDown | DEnd

text \<open>
  The clients have a current call with its remaining accesses and a program of further
  calls; \<open>pushed\<close> (the requests stored so far) only observes. \<open>issued\<close> are the transfers the
  engine has accepted and \<open>ndone\<close> how many of them it has finished.
\<close>

record dm_sys =
  dmt :: dm_t
  irqs :: u32
  dm_pc :: dpc
  do_exit :: bool
  cur_op :: "nat \<Rightarrow> dm_op"
  cur :: "nat \<Rightarrow> prim list"
  calls :: "nat \<Rightarrow> dm_op list"
  issued :: "dma_start list"
  ndone :: nat
  pushed :: "dma_start list"

section \<open>The client functions\<close>

definition wake_dm :: "prim list" where
  "wake_dm = [WaitWfi, SetIrq]"

definition dm_memcpy_async :: "u64 \<Rightarrow> u64 \<Rightarrow> u32 \<Rightarrow> prim list" where
  "dm_memcpy_async dest src n = [PollRoom, Lock, Store1d dest src n, IncFill, BumpFront, Unlock]"

definition dm_memcpy2d_async :: "u64 \<Rightarrow> u64 \<Rightarrow> u32 \<Rightarrow> u32 \<Rightarrow> u32 \<Rightarrow> u32 \<Rightarrow> u32 \<Rightarrow> prim list" where
  "dm_memcpy2d_async src dst sz sstrd dstrd nreps cfg =
     [PollRoom, Lock, Store2d src dst sz sstrd dstrd nreps cfg, IncFill, BumpFront, Unlock]"

definition dm_start :: "prim list" where
  "dm_start = wake_dm"

definition dm_wait :: "prim list" where
  "dm_wait = wake_dm @ [PollEmpty, PollNoStat, Lock, ClrPvalid, SetStat STAT_WAIT_IDLE] @ wake_dm @ [PollPvalid, Unlock]"

definition dm_wait_ready :: "prim list" where
  "dm_wait_ready = [Lock, ClrPvalid, SetStat STAT_READY] @ wake_dm @ [PollPvalid, Unlock]"

definition dm_exit :: "prim list" where
  "dm_exit = SetStat STAT_EXIT # wake_dm"

primrec op_prims :: "dm_op \<Rightarrow> prim list" where
  "op_prims (Memcpy dest src n) = dm_memcpy_async dest src n"
| "op_prims (Memcpy2d src dst sz sstrd dstrd nreps cfg) = dm_memcpy2d_async src dst sz sstrd dstrd nreps cfg"
| "op_prims Start = dm_start"
| "op_prims Wait = dm_wait"
| "op_prims WaitReady = dm_wait_ready"
| "op_prims Exit = dm_exit"

section \<open>Accesses\<close>

definition upd_dm :: "(dm_t \<Rightarrow> dm_t) \<Rightarrow> dm_sys \<Rightarrow> dm_sys" where
  "upd_dm f s = s\<lparr> dmt := f (dmt s) \<rparr>"

definition front_slot :: "dm_t \<Rightarrow> dm_task_t" where
  "front_slot q = queue q (unat (queue_front q))"

definition put_slot :: "dm_task_t \<Rightarrow> dm_t \<Rightarrow> dm_t" where
  "put_slot t q = q\<lparr> queue := (queue q)(unat (queue_front q) := t) \<rparr>"

definition bump :: "u32 \<Rightarrow> u32" where
  "bump i = (i + 1) mod of_nat DM_TASK_QUEUE_SIZE"

text \<open>
  One access on a cluster whose data mover has core index \<open>n\<close>; \<open>None\<close> while a poll fails. The
  stores into a descriptor are one step: the theorems show that no other core accesses it
  meanwhile when there is one client.
\<close>

primrec exec_prim :: "nat \<Rightarrow> prim \<Rightarrow> dm_sys \<Rightarrow> dm_sys option" where
  "exec_prim n PollRoom s = (if of_nat DM_TASK_QUEUE_SIZE \<le> queue_fill (dmt s) then None else Some s)"
| "exec_prim n Lock s = (if dm_mutex (dmt s) \<noteq> 0 then None else Some (upd_dm (\<lambda>q. q\<lparr> dm_mutex := 1 \<rparr>) s))"
| "exec_prim n Unlock s = Some (upd_dm (\<lambda>q. q\<lparr> dm_mutex := 0 \<rparr>) s)"
| "exec_prim n (Store1d dest src sz) s = Some ((upd_dm (\<lambda>q. put_slot ((front_slot q)\<lparr> t_src := src, t_dst := dest,
     t_size := sz, t_twod := 0, t_cfg := 0 \<rparr>) q) s)\<lparr> pushed := pushed s @ [Start1d src dest sz 0] \<rparr>)"
| "exec_prim n (Store2d src dst sz sstrd dstrd nreps cfg) s = Some ((upd_dm (\<lambda>q. put_slot ((front_slot q)\<lparr> t_src := src,
     t_dst := dst, t_size := sz, t_sstrd := sstrd, t_dstrd := dstrd, t_nreps := nreps, t_twod := 1, t_cfg := cfg \<rparr>) q) s)
     \<lparr> pushed := pushed s @ [Start2d src dst sz sstrd dstrd nreps cfg] \<rparr>)"
| "exec_prim n IncFill s = Some (upd_dm (\<lambda>q. q\<lparr> queue_fill := queue_fill q + 1 \<rparr>) s)"
| "exec_prim n BumpFront s = Some (upd_dm (\<lambda>q. q\<lparr> queue_front := bump (queue_front q) \<rparr>) s)"
| "exec_prim n WaitWfi s = (if dm_wfi (dmt s) = 0 then None else Some s)"
| "exec_prim n SetIrq s = Some (s\<lparr> irqs := snrt_int_cluster_set (push_bit n 1) (irqs s) \<rparr>)"
| "exec_prim n PollEmpty s = (if queue_fill (dmt s) \<noteq> 0 then None else Some s)"
| "exec_prim n PollNoStat s = (if stat_q (dmt s) \<noteq> 0 then None else Some s)"
| "exec_prim n ClrPvalid s = Some (upd_dm (\<lambda>q. q\<lparr> stat_pvalid := 0 \<rparr>) s)"
| "exec_prim n (SetStat v) s = Some (upd_dm (\<lambda>q. q\<lparr> stat_q := v \<rparr>) s)"
| "exec_prim n PollPvalid s = (if stat_pvalid (dmt s) = 0 then None else Some s)"

definition client :: "nat \<Rightarrow> nat \<Rightarrow> dm_sys \<Rightarrow> dm_sys" where
  "client n i s = (case cur s i of
      [] \<Rightarrow> (case calls s i of
          [] \<Rightarrow> s
        | c # cs \<Rightarrow> s\<lparr> cur_op := (cur_op s)(i := c), cur := (cur s)(i := op_prims c), calls := (calls s)(i := cs) \<rparr>)
    | p # ps \<Rightarrow> (case exec_prim n p s of None \<Rightarrow> s | Some t \<Rightarrow> t\<lparr> cur := (cur t)(i := ps) \<rparr>))"

section \<open>The data mover core\<close>

definition slot_start :: "dm_task_t \<Rightarrow> dma_start" where
  "slot_start t = (if t_twod t \<noteq> 0
     then Start2d (t_src t) (t_dst t) (t_size t) (t_sstrd t) (t_dstrd t) (t_nreps t) (t_cfg t)
     else Start1d (t_src t) (t_dst t) (t_size t) (t_cfg t))"

definition wfi_dm :: "nat \<Rightarrow> dm_sys \<Rightarrow> dm_sys" where
  "wfi_dm n s = (case dm_pc s of
      DWfiUp \<Rightarrow> (upd_dm (\<lambda>q. q\<lparr> dm_wfi := dm_wfi q + 1 \<rparr>) s)\<lparr> dm_pc := DWfi \<rparr>
    | DWfi \<Rightarrow> (if bit (irqs s) n then s\<lparr> dm_pc := DIrqClr \<rparr> else s)
    | DIrqClr \<Rightarrow> s\<lparr> irqs := snrt_int_cluster_clr (push_bit n 1) (irqs s), dm_pc := DWfiDown \<rparr>
    | DWfiDown \<Rightarrow> (upd_dm (\<lambda>q. q\<lparr> dm_wfi := dm_wfi q - 1 \<rparr>) s)\<lparr> dm_pc := if do_exit s then DEnd else DFill \<rparr>
    | _ \<Rightarrow> s)"

text \<open>\<open>d\<close> is the depth of the engine's request FIFO, which decides whether a start would block.\<close>

definition dm_main :: "nat \<Rightarrow> nat \<Rightarrow> dm_sys \<Rightarrow> dm_sys" where
  "dm_main n d s = (case dm_pc s of
      DFill \<Rightarrow> s\<lparr> dm_pc := if queue_fill (dmt s) \<noteq> 0 then DReady else DStat \<rparr>
    | DReady \<Rightarrow> (if length (issued s) - ndone s < d then s\<lparr> dm_pc := DIssue \<rparr> else s)
    | DIssue \<Rightarrow> s\<lparr> issued := issued s @ [slot_start (queue (dmt s) (unat (queue_back (dmt s))))], dm_pc := DBack \<rparr>
    | DBack \<Rightarrow> (upd_dm (\<lambda>q. q\<lparr> queue_back := bump (queue_back q) \<rparr>) s)\<lparr> dm_pc := DDec \<rparr>
    | DDec \<Rightarrow> (upd_dm (\<lambda>q. q\<lparr> queue_fill := queue_fill q - 1 \<rparr>) s)\<lparr> dm_pc := DStat \<rparr>
    | DStat \<Rightarrow> s\<lparr> dm_pc := if stat_q (dmt s) \<noteq> 0 then DSwitch else DSleepFill \<rparr>
    | DSwitch \<Rightarrow> (let v = stat_q (dmt s) in
        if v = STAT_WAIT_IDLE then s\<lparr> dm_pc := DBusy \<rparr>
        else if v = STAT_EXIT then s\<lparr> do_exit := True, dm_pc := DSleepFill \<rparr>
        else if v = STAT_READY then s\<lparr> dm_pc := DPvalid \<rparr>
        else s\<lparr> dm_pc := DSleepFill \<rparr>)
    | DBusy \<Rightarrow> s\<lparr> dm_pc := if ndone s = length (issued s) then DPvalid else DSleepFill \<rparr>
    | DPvalid \<Rightarrow> (upd_dm (\<lambda>q. q\<lparr> stat_pvalid := 1 \<rparr>) s)\<lparr> dm_pc := DClear \<rparr>
    | DClear \<Rightarrow> (upd_dm (\<lambda>q. q\<lparr> stat_q := 0 \<rparr>) s)\<lparr> dm_pc := DSleepFill \<rparr>
    | DSleepFill \<Rightarrow> s\<lparr> dm_pc := if queue_fill (dmt s) = 0 then DSleepStat else if do_exit s then DEnd else DFill \<rparr>
    | DSleepStat \<Rightarrow> s\<lparr> dm_pc := if stat_q (dmt s) = 0 then DWfiUp else if do_exit s then DEnd else DFill \<rparr>
    | DEnd \<Rightarrow> s
    | _ \<Rightarrow> wfi_dm n s)"

text \<open>The engine finishes transfers in order.\<close>

definition dma_progress :: "dm_sys \<Rightarrow> dm_sys" where
  "dma_progress s = (if ndone s < length (issued s) then s\<lparr> ndone := ndone s + 1 \<rparr> else s)"

definition dm_step :: "nat \<Rightarrow> nat \<Rightarrow> nat \<Rightarrow> dm_sys \<Rightarrow> dm_sys \<Rightarrow> bool" where
  "dm_step p n d s t \<longleftrightarrow> t = dm_main n d s \<or> t = dma_progress s \<or> (\<exists>i<p. t = client n i s)"

text \<open>After \<open>dm_init\<close>: the structure is zero.\<close>

definition dm_init :: dm_t where
  "dm_init = \<lparr> queue = (\<lambda>_. \<lparr> t_src = 0, t_dst = 0, t_size = 0, t_sstrd = 0, t_dstrd = 0, t_nreps = 0, t_cfg = 0, t_twod = 0 \<rparr>),
     queue_back = 0, queue_front = 0, queue_fill = 0, dm_mutex = 0, stat_q = 0, stat_p = 0, stat_pvalid = 0, dm_wfi = 0 \<rparr>"

definition dm_begin :: "dm_sys \<Rightarrow> bool" where
  "dm_begin s \<longleftrightarrow> dmt s = dm_init \<and> irqs s = 0 \<and> dm_pc s = DFill \<and> \<not> do_exit s \<and> (\<forall>i. cur s i = [] \<and> cur_op s i = Start)
     \<and> issued s = [] \<and> ndone s = 0 \<and> pushed s = []"

section \<open>The ring with one client\<close>

text \<open>How many descriptors the counters account for, by the positions of the two cores.\<close>

definition n_popped :: "dpc \<Rightarrow> dma_start list \<Rightarrow> nat" where
  "n_popped pc is = (if pc = DBack \<or> pc = DDec then length is - 1 else length is)"

definition n_back :: "dpc \<Rightarrow> dma_start list \<Rightarrow> nat" where
  "n_back pc is = (if pc = DBack then length is - 1 else length is)"

definition at :: "prim list \<Rightarrow> prim \<Rightarrow> bool" where
  "at ps p \<longleftrightarrow> (\<exists>qs. ps = p # qs)"

definition n_filled :: "prim list \<Rightarrow> dma_start list \<Rightarrow> nat" where
  "n_filled ps xs = (if at ps IncFill then length xs - 1 else length xs)"

definition n_front :: "prim list \<Rightarrow> dma_start list \<Rightarrow> nat" where
  "n_front ps xs = (if at ps IncFill \<or> at ps BumpFront then length xs - 1 else length xs)"

text \<open>A copy that has polled for room and not yet stored its descriptor.\<close>

definition storing :: "prim list \<Rightarrow> bool" where
  "storing ps \<longleftrightarrow> (case ps of Lock # p # _ \<Rightarrow> p \<noteq> ClrPvalid | Store1d _ _ _ # _ \<Rightarrow> True | Store2d _ _ _ _ _ _ _ # _ \<Rightarrow> True | _ \<Rightarrow> False)"

definition ring_ok :: "dm_t \<Rightarrow> dpc \<Rightarrow> prim list \<Rightarrow> dma_start list \<Rightarrow> dma_start list \<Rightarrow> bool" where
  "ring_ok q pc ps is xs \<longleftrightarrow>
     queue_fill q = of_nat (n_filled ps xs - n_popped pc is) \<and> n_popped pc is \<le> n_filled ps xs
   \<and> length xs \<le> n_popped pc is + 4 \<and> (storing ps \<longrightarrow> length xs < n_popped pc is + 4)
   \<and> queue_front q = of_nat (n_front ps xs mod 4) \<and> queue_back q = of_nat (n_back pc is mod 4)
   \<and> length is \<le> n_filled ps xs \<and> take (length is) xs = is
   \<and> (\<forall>k. length is \<le> k \<and> k < length xs \<longrightarrow> slot_start (queue q (k mod 4)) = xs ! k)
   \<and> (pc = DReady \<or> pc = DIssue \<longrightarrow> length is < n_filled ps xs)
   \<and> (pc = DBack \<or> pc = DDec \<longrightarrow> is \<noteq> []) \<and> (at ps IncFill \<or> at ps BumpFront \<longrightarrow> xs \<noteq> [])"

lemmas ring_defs = ring_ok_def n_popped_def n_back_def n_filled_def n_front_def

lemma bump_mod: "bump (of_nat (k mod 4)) = of_nat (Suc k mod 4)"
proof -
  have "k mod 4 < 4" by simp
  then consider "k mod 4 = 0" | "k mod 4 = 1" | "k mod 4 = 2" | "k mod 4 = 3" by linarith
  then show ?thesis by cases (simp_all add: bump_def DM_TASK_QUEUE_SIZE_def mod_Suc)
qed

lemma unat_mod4 [simp]: "unat (of_nat (k mod 4) :: u32) = k mod 4"
  by (rule unat_of_nat_small) (rule less_trans [of _ 4], simp_all)

lemma mod4_slots:
  fixes j k :: nat
  assumes "j < k" "k < j + 4"
  shows "j mod 4 \<noteq> k mod 4"
proof
  assume "j mod 4 = k mod 4"
  then have "4 dvd k - j" using assms(1) by (metis mod_eq_dvd_iff_nat less_imp_le)
  then show False using assms by (auto dest: dvd_imp_le)
qed

text \<open>The data mover's steps on the ring.\<close>

lemma ring_issue:
  assumes "ring_ok q DIssue ps is xs"
  shows "slot_start (queue q (unat (queue_back q))) = xs ! length is \<and> length is < length xs
    \<and> ring_ok q DBack ps (is @ [xs ! length is]) xs"
proof -
  have l: "length is < n_filled ps xs" "queue_back q = of_nat (length is mod 4)" "take (length is) xs = is"
    using assms by (simp_all add: ring_defs split: if_splits)
  have x: "n_filled ps xs \<le> length xs" by (simp add: n_filled_def)
  have "is @ [xs ! length is] = take (Suc (length is)) xs" using l x by (metis less_le_trans take_Suc_conv_app_nth)
  then show ?thesis using assms l x by (auto simp: ring_ok_def n_popped_def n_back_def)
qed

lemma ring_back:
  assumes "ring_ok q DBack ps is xs"
  shows "ring_ok (q\<lparr> queue_back := bump (queue_back q) \<rparr>) DDec ps is xs"
  using assms bump_mod [of "length is - 1"] by (auto simp: ring_ok_def n_popped_def n_back_def)

lemma ring_dec:
  assumes "ring_ok q DDec ps is xs"
  shows "ring_ok (q\<lparr> queue_fill := queue_fill q - 1 \<rparr>) DStat ps is xs"
proof -
  have "is \<noteq> []" "length is \<le> n_filled ps xs" and f: "queue_fill q = of_nat (n_filled ps xs - (length is - 1))"
    using assms by (simp_all only: ring_ok_def n_popped_def) simp_all
  then have "n_filled ps xs - (length is - 1) = Suc (n_filled ps xs - length is)"
    by (cases "is") auto
  then have "queue_fill q - 1 = of_nat (n_filled ps xs - length is)" using f by simp
  then show ?thesis using assms by (auto simp: ring_ok_def n_popped_def n_back_def)
qed

lemma ring_fill_test:
  assumes "ring_ok q DFill ps is xs" "queue_fill q \<noteq> 0"
  shows "ring_ok q DReady ps is xs"
proof -
  have "queue_fill q = of_nat (n_filled ps xs - length is)" using assms(1) by (simp add: ring_ok_def n_popped_def)
  then have "n_filled ps xs - length is \<noteq> 0" using assms(2) by (intro notI) simp
  then have "length is < n_filled ps xs" by simp
  then show ?thesis using assms(1) unfolding ring_ok_def n_popped_def n_back_def by simp
qed

text \<open>Positions outside the queue part do not matter.\<close>

definition ring_neutral :: "dpc \<Rightarrow> bool" where
  "ring_neutral pc \<longleftrightarrow> pc \<notin> {DReady, DIssue, DBack, DDec}"

lemma ring_neutral_cong:
  "ring_neutral pc \<Longrightarrow> ring_neutral pc' \<Longrightarrow> ring_ok q pc ps is xs = ring_ok q pc' ps is xs"
  by (auto simp: ring_ok_def n_popped_def n_back_def ring_neutral_def)

lemma ring_fields:
  assumes "queue q' = queue q" "queue_fill q' = queue_fill q" "queue_front q' = queue_front q" "queue_back q' = queue_back q"
  shows "ring_ok q' pc ps is xs = ring_ok q pc ps is xs"
  using assms by (simp add: ring_ok_def)

text \<open>The client's steps on the ring.\<close>

definition ring_quiet :: "prim list \<Rightarrow> bool" where
  "ring_quiet ps \<longleftrightarrow> \<not> storing ps \<and> \<not> at ps IncFill \<and> \<not> at ps BumpFront"

lemma ring_quiet_cong:
  "ring_quiet ps \<Longrightarrow> ring_quiet ps' \<Longrightarrow> ring_ok q pc ps is xs = ring_ok q pc ps' is xs"
  by (simp add: ring_ok_def n_filled_def n_front_def ring_quiet_def)

lemma ring_poll_room:
  assumes "ring_ok q pc ps is xs" "ring_quiet ps" "\<not> of_nat DM_TASK_QUEUE_SIZE \<le> queue_fill q"
    and "storing ps'" "\<not> at ps' IncFill" "\<not> at ps' BumpFront"
  shows "ring_ok q pc ps' is xs"
proof -
  have le: "n_popped pc is \<le> length xs" "length xs \<le> n_popped pc is + 4"
    and f: "queue_fill q = of_nat (length xs - n_popped pc is)"
    using assms(1,2) by (simp_all only: ring_ok_def n_filled_def ring_quiet_def) simp_all
  have "unat (queue_fill q) = length xs - n_popped pc is"
    unfolding f using le(2) by (intro unat_of_nat_small) simp
  then have "length xs - n_popped pc is < 4"
    using assms(3) by (simp add: DM_TASK_QUEUE_SIZE_def word_le_nat_alt)
  then have "length xs < n_popped pc is + 4" using le by simp
  then show ?thesis using assms unfolding ring_ok_def n_filled_def n_front_def ring_quiet_def by simp
qed

lemma ring_store:
  assumes r: "ring_ok q pc ps is xs" and ps: "storing ps" "\<not> at ps IncFill" "\<not> at ps BumpFront"
    and x: "slot_start t = x" and ps': "at ps' IncFill" "\<not> storing ps'"
  shows "ring_ok (put_slot t q) pc ps' is (xs @ [x])"
proof -
  have len: "length xs < n_popped pc is + 4" "n_popped pc is \<le> length is" "length is \<le> length xs" "take (length is) xs = is"
    and fr: "queue_front q = of_nat (length xs mod 4)"
    using r ps by (simp_all add: ring_ok_def n_filled_def n_front_def n_popped_def)
  have old: "slot_start (queue q (k mod 4)) = xs ! k" if "length is \<le> k" "k < length xs" for k
    using r that by (simp add: ring_ok_def)
  have "slot_start (queue (put_slot t q) (k mod 4)) = (xs @ [x]) ! k" if k: "length is \<le> k" "k < length (xs @ [x])" for k
  proof (cases "k = length xs")
    case True
    then show ?thesis using x fr by (simp add: put_slot_def)
  next
    case False
    then have "k < length xs" using k by simp
    moreover have "k mod 4 \<noteq> length xs mod 4" using mod4_slots [of k "length xs"] len k(1) \<open>k < length xs\<close> by simp
    ultimately show ?thesis using old [OF k(1)] fr by (simp add: put_slot_def nth_append)
  qed
  moreover have "\<not> at ps' BumpFront" using ps'(1) by (auto simp: at_def)
  ultimately show ?thesis
    using r ps ps' len unfolding ring_ok_def n_filled_def n_front_def by (simp add: put_slot_def)
qed

lemma ring_inc:
  assumes r: "ring_ok q pc ps is xs" and ps: "at ps IncFill" "at ps' BumpFront" "\<not> storing ps'"
  shows "ring_ok (q\<lparr> queue_fill := queue_fill q + 1 \<rparr>) pc ps' is xs"
proof -
  have n: "\<not> at ps' IncFill" "\<not> at ps BumpFront" using ps by (auto simp: at_def)
  have "xs \<noteq> []" "n_popped pc is \<le> length xs - 1" and f: "queue_fill q = of_nat (length xs - 1 - n_popped pc is)"
    using r ps(1) by (simp_all only: ring_ok_def n_filled_def) simp_all
  then have "length xs - n_popped pc is = Suc (length xs - 1 - n_popped pc is)" by (cases xs) auto
  then have "queue_fill q + 1 = of_nat (length xs - n_popped pc is)" using f by simp
  moreover have "length is \<le> length xs" "n_popped pc is \<le> length xs" using r ps(1) by (auto simp: ring_ok_def n_filled_def)
  ultimately show ?thesis using r ps n unfolding ring_ok_def n_filled_def n_front_def by auto
qed

lemma ring_bump:
  assumes r: "ring_ok q pc ps is xs" and ps: "at ps BumpFront" "ring_quiet ps'"
  shows "ring_ok (q\<lparr> queue_front := bump (queue_front q) \<rparr>) pc ps' is xs"
proof -
  have n: "\<not> at ps IncFill" using ps by (auto simp: at_def)
  have "xs \<noteq> []" "queue_front q = of_nat ((length xs - 1) mod 4)" using r ps(1) by (simp_all add: ring_ok_def n_front_def)
  then have "bump (queue_front q) = of_nat (length xs mod 4)" using bump_mod [of "length xs - 1"] by simp
  then show ?thesis using r ps n unfolding ring_ok_def n_filled_def n_front_def ring_quiet_def by simp
qed

lemma exec_frame:
  assumes "exec_prim n p s = Some t"
  shows "issued t = issued s" "dm_pc t = dm_pc s" "ndone t = ndone s" "do_exit t = do_exit s"
    "cur t = cur s" "cur_op t = cur_op s" "calls t = calls s"
  using assms by (cases p; auto simp: upd_dm_def split: if_splits)+

definition ring_prim :: "prim \<Rightarrow> bool" where
  "ring_prim p \<longleftrightarrow> (case p of Store1d _ _ _ \<Rightarrow> True | Store2d _ _ _ _ _ _ _ \<Rightarrow> True | IncFill \<Rightarrow> True | BumpFront \<Rightarrow> True | _ \<Rightarrow> False)"

lemma exec_ring_frame:
  assumes "exec_prim n p s = Some t" "\<not> ring_prim p"
  shows "queue (dmt t) = queue (dmt s)" "queue_fill (dmt t) = queue_fill (dmt s)" "queue_front (dmt t) = queue_front (dmt s)"
    "queue_back (dmt t) = queue_back (dmt s)" "pushed t = pushed s"
  using assms by (cases p; auto simp: upd_dm_def ring_prim_def split: if_splits)+

definition is_copy :: "dm_op \<Rightarrow> bool" where
  "is_copy c \<longleftrightarrow> (case c of Memcpy _ _ _ \<Rightarrow> True | Memcpy2d _ _ _ _ _ _ _ \<Rightarrow> True | _ \<Rightarrow> False)"

lemmas stat_defs = STAT_WAIT_IDLE_def STAT_EXIT_def STAT_READY_def

lemmas op_defs = dm_memcpy_async_def dm_memcpy2d_async_def dm_start_def dm_wait_def dm_wait_ready_def dm_exit_def wake_dm_def

lemma noncopy_quiet:
  assumes "\<not> is_copy c" "suffix ps (op_prims c)"
  shows "ring_quiet ps" "ps = p # qs \<Longrightarrow> \<not> ring_prim p"
  using assms
  by (cases c; auto simp: is_copy_def op_defs suffix_Cons ring_quiet_def storing_def at_def ring_prim_def)+

lemma new_op_quiet: "ring_quiet (op_prims c)" "ring_quiet []"
  by (cases c; simp add: op_defs ring_quiet_def storing_def at_def) (simp add: ring_quiet_def storing_def at_def)

text \<open>The accesses of a copy, with the descriptor store \<open>st\<close> in the middle.\<close>

lemma copy_ring:
  assumes r: "ring_ok (dmt s) (dm_pc s) (p # ps) (issued s) (pushed s)" and e: "exec_prim n p s = Some t"
    and sf: "suffix (p # ps) [PollRoom, Lock, st, IncFill, BumpFront, Unlock]"
    and st: "(\<exists>a b c. st = Store1d a b c) \<or> (\<exists>a b c d e f g. st = Store2d a b c d e f g)"
  shows "ring_ok (dmt t) (dm_pc t) ps (issued t) (pushed t)"
proof -
  note E = exec_frame [OF e]
  have stq: "storing [Lock, st, IncFill, BumpFront, Unlock]" "storing [st, IncFill, BumpFront, Unlock]"
    using st by (auto simp: storing_def)
  consider "p = PollRoom" "ps = [Lock, st, IncFill, BumpFront, Unlock]" | "p = Lock" "ps = [st, IncFill, BumpFront, Unlock]"
    | "p = st" "ps = [IncFill, BumpFront, Unlock]" | "p = IncFill" "ps = [BumpFront, Unlock]"
    | "p = BumpFront" "ps = [Unlock]" | "p = Unlock" "ps = []"
    using sf by (auto simp: suffix_Cons)
  then show ?thesis
  proof cases
    case 1
    have "ring_ok (dmt s) (dm_pc s) ps (issued s) (pushed s)"
      by (rule ring_poll_room [OF r]) (use 1 e stq st in \<open>auto simp: ring_quiet_def storing_def at_def split: if_splits\<close>)
    then show ?thesis using 1 e by (simp split: if_splits)
  next
    case 2
    then have "ring_ok (dmt s) (dm_pc s) ps (issued s) (pushed s) = ring_ok (dmt s) (dm_pc s) (p # ps) (issued s) (pushed s)"
      using stq st by (auto simp: ring_ok_def n_filled_def n_front_def at_def)
    then show ?thesis
      using r E exec_ring_frame [OF e] 2 ring_fields [of "dmt t" "dmt s"] by (simp add: ring_prim_def)
  next
    case 3
    have ps: "storing (p # ps)" "\<not> at (p # ps) IncFill" "\<not> at (p # ps) BumpFront" "at ps IncFill" "\<not> storing ps"
      using 3 st stq by (auto simp: at_def storing_def)
    obtain u x where u: "dmt t = put_slot u (dmt s)" "pushed t = pushed s @ [x]" "slot_start u = x"
      using st e 3 by (auto simp: upd_dm_def slot_start_def)
    show ?thesis using ring_store [OF r ps(1-3) u(3) ps(4,5)] u E by simp
  next
    case 4
    then show ?thesis using ring_inc [OF r, of ps] e by (auto simp: at_def storing_def upd_dm_def)
  next
    case 5
    then show ?thesis using ring_bump [OF r, of ps] e by (auto simp: at_def storing_def upd_dm_def ring_quiet_def)
  next
    case 6
    then show ?thesis
      using r E exec_ring_frame [OF e] ring_fields [of "dmt t" "dmt s"] ring_quiet_cong [of "p # ps" ps]
      by (simp add: ring_prim_def ring_quiet_def at_def storing_def)
  qed
qed

lemma client_ring:
  assumes r: "ring_ok (dmt s) (dm_pc s) (p # ps) (issued s) (pushed s)" and e: "exec_prim n p s = Some t"
    and sf: "suffix (p # ps) (op_prims c)"
  shows "ring_ok (dmt t) (dm_pc t) ps (issued t) (pushed t)"
proof (cases "is_copy c")
  case True
  then show ?thesis
    using copy_ring [OF r e] sf by (auto simp: is_copy_def op_defs split: dm_op.splits)
next
  case False
  have "suffix ps (op_prims c)" using sf by (meson suffix_ConsD)
  then have "ring_quiet ps" "ring_quiet (p # ps)" "\<not> ring_prim p" using noncopy_quiet [OF False] sf by blast+
  then show ?thesis
    using r exec_frame [OF e] exec_ring_frame [OF e] ring_fields [of "dmt t" "dmt s"] ring_quiet_cong [of "p # ps" ps] by simp
qed

section \<open>Status requests\<close>

text \<open>
  What holds while the client is in \<open>dm_wait\<close>, by the number of accesses it still has to
  make: after the queue was seen empty (8), after no request was pending (7), until the
  request is set (5), and from then on.
\<close>

definition wait_ok :: "nat \<Rightarrow> dm_sys \<Rightarrow> bool" where
  "wait_ok l s \<longleftrightarrow> (l \<le> 8 \<longrightarrow> issued s = pushed s \<and> ring_neutral (dm_pc s))
    \<and> (5 \<le> l \<and> l \<le> 7 \<longrightarrow> stat_q (dmt s) = 0)
    \<and> (l = 5 \<longrightarrow> stat_pvalid (dmt s) = 0)
    \<and> (l \<le> 4 \<longrightarrow> (stat_q (dmt s) = 0 \<or> stat_q (dmt s) = STAT_WAIT_IDLE)
         \<and> (stat_pvalid (dmt s) \<noteq> 0 \<or> dm_pc s = DPvalid \<or> dm_pc s = DClear \<longrightarrow> ndone s = length (issued s)))
    \<and> (l \<le> 1 \<longrightarrow> ndone s = length (issued s))"

definition in_switch :: "dpc \<Rightarrow> bool" where
  "in_switch pc \<longleftrightarrow> pc \<in> {DSwitch, DBusy, DPvalid, DClear}"

definition dm_inv :: "dm_sys \<Rightarrow> bool" where
  "dm_inv s \<longleftrightarrow> ring_ok (dmt s) (dm_pc s) (cur s 0) (issued s) (pushed s)
    \<and> suffix (cur s 0) (op_prims (cur_op s 0)) \<and> ndone s \<le> length (issued s)
    \<and> (in_switch (dm_pc s) \<longrightarrow> stat_q (dmt s) \<noteq> 0)
    \<and> (cur_op s 0 = Wait \<longrightarrow> wait_ok (length (cur s 0)) s)"

text \<open>When the ring is empty, the data mover is not working on it.\<close>

lemma ring_empty:
  assumes "ring_ok q pc ps is xs" "queue_fill q = 0" "ring_quiet ps"
  shows "is = xs" "ring_neutral pc"
proof -
  have le: "n_popped pc is \<le> length xs" "length xs \<le> n_popped pc is + 4" "length is \<le> length xs" "take (length is) xs = is"
    and f: "queue_fill q = of_nat (length xs - n_popped pc is)"
    and pc: "pc = DReady \<or> pc = DIssue \<longrightarrow> length is < length xs" "pc = DBack \<or> pc = DDec \<longrightarrow> is \<noteq> []"
    using assms(1,3) by (simp_all only: ring_ok_def n_filled_def ring_quiet_def) simp_all
  have "unat (queue_fill q) = length xs - n_popped pc is"
    unfolding f using le(2) by (intro unat_of_nat_small) simp
  then have "length xs = n_popped pc is" using assms(2) le(1) by simp
  then have "ring_neutral pc \<and> length is = length xs"
    using le(3) pc by (cases "is") (auto simp: n_popped_def ring_neutral_def split: if_splits)
  then show "ring_neutral pc" "is = xs" using le(4) by auto
qed

lemma ring_all_issued:
  assumes "ring_ok q pc ps xs xs" "ring_neutral pc"
  shows "queue_fill q = 0"
  using assms by (auto simp: ring_ok_def n_filled_def n_popped_def ring_neutral_def)

text \<open>The client's accesses inside \<open>dm_wait\<close>.\<close>

lemma suffix_head:
  assumes "suffix (p # ps) ys"
  shows "p = ys ! (length ys - length (p # ps)) \<and> length (p # ps) \<le> length ys"
  using assms by (auto simp: suffix_def)

lemma dm_wait_nth:
  assumes "l \<le> 10"
  shows "(dm_wait ! (10 - l), l) \<in> {(WaitWfi, 10), (SetIrq, 9), (PollEmpty, 8), (PollNoStat, 7), (Lock, 6), (ClrPvalid, 5),
      (SetStat STAT_WAIT_IDLE, 4), (WaitWfi, 3), (SetIrq, 2), (PollPvalid, 1), (Unlock, 0)}"
proof -
  have "l \<in> set [0..<11]" using assms by simp
  moreover have "\<forall>l\<in>set [0..<11]. (dm_wait ! (10 - l), l) \<in> {(WaitWfi, 10), (SetIrq, 9), (PollEmpty, 8), (PollNoStat, 7),
      (Lock, 6), (ClrPvalid, 5), (SetStat STAT_WAIT_IDLE, 4), (WaitWfi, 3), (SetIrq, 2), (PollPvalid, 1), (Unlock, 0)}"
    by code_simp
  ultimately show ?thesis by blast
qed

lemma client_wait:
  assumes r: "ring_ok (dmt s) (dm_pc s) (p # ps) (issued s) (pushed s)" and sf: "suffix (p # ps) dm_wait"
    and w: "wait_ok (length (p # ps)) s" and sw: "in_switch (dm_pc s) \<longrightarrow> stat_q (dmt s) \<noteq> 0" and e: "exec_prim n p s = Some t"
  shows "wait_ok (length ps) t"
proof -
  have q: "ring_quiet (p # ps)" using noncopy_quiet(1) [of Wait "p # ps"] sf by (simp add: is_copy_def)
  have L: "length dm_wait = 11" by (simp add: op_defs)
  then have "p = dm_wait ! (10 - length ps)" "length ps \<le> 10"
    using suffix_head [OF sf] by simp_all
  then have "(p, length ps) \<in> {(WaitWfi, 10), (SetIrq, 9), (PollEmpty, 8), (PollNoStat, 7), (Lock, 6), (ClrPvalid, 5),
      (SetStat STAT_WAIT_IDLE, 4), (WaitWfi, 3), (SetIrq, 2), (PollPvalid, 1), (Unlock, 0)}"
    using dm_wait_nth [of "length ps"] by simp
  moreover have m: "queue_fill (dmt s) = 0 \<Longrightarrow> issued s = pushed s \<and> ring_neutral (dm_pc s)" using ring_empty [OF r _ q] by blast
  moreover have w': "wait_ok (Suc (length ps)) s" using w by simp
  moreover have "Some t = exec_prim n p s" using e by simp
  ultimately show ?thesis
    using sw
    by (elim insertE emptyE) (simp_all add: wait_ok_def upd_dm_def in_switch_def split: if_splits)
qed

text \<open>A status handled by the data mover during \<open>dm_wait\<close>.\<close>

lemma dm_main_wait:
  assumes r: "ring_ok (dmt s) (dm_pc s) ps (issued s) (pushed s)" and w: "wait_ok l s"
    and sw: "in_switch (dm_pc s) \<longrightarrow> stat_q (dmt s) \<noteq> 0"
  shows "wait_ok l (dm_main n d s)"
proof (cases "l \<le> 8")
  case True
  then have i: "issued s = pushed s" "ring_neutral (dm_pc s)" using w by (simp_all add: wait_ok_def)
  then have z: "queue_fill (dmt s) = 0" using ring_all_issued r by metis
  show ?thesis
    using w sw i z True
    by (cases "dm_pc s")
      (auto simp: wait_ok_def dm_main_def wfi_dm_def upd_dm_def in_switch_def ring_neutral_def Let_def STAT_WAIT_IDLE_def
        STAT_EXIT_def STAT_READY_def split: if_splits)
next
  case False
  then show ?thesis by (simp add: wait_ok_def)
qed

lemma dm_main_ring:
  assumes "ring_ok (dmt s) (dm_pc s) ps (issued s) (pushed s)" "t = dm_main n d s"
  shows "ring_ok (dmt t) (dm_pc t) ps (issued t) (pushed t)"
proof -
  have neutral: ?thesis
    if "ring_neutral (dm_pc s)" "ring_neutral (dm_pc t)" "issued t = issued s" "pushed t = pushed s"
      "queue (dmt t) = queue (dmt s)" "queue_fill (dmt t) = queue_fill (dmt s)" "queue_front (dmt t) = queue_front (dmt s)"
      "queue_back (dmt t) = queue_back (dmt s)"
    using assms(1) that ring_neutral_cong [OF that(1,2)] ring_fields [of "dmt t" "dmt s"] by simp
  show ?thesis
  proof (cases "dm_pc s")
    case DFill
    then show ?thesis
      using assms ring_fill_test [of "dmt s" ps "issued s" "pushed s"] ring_neutral_cong [of DFill DStat]
      by (simp add: dm_main_def ring_neutral_def)
  next
    case DReady
    have "ring_ok (dmt s) DIssue ps (issued s) (pushed s)" if "ring_ok (dmt s) DReady ps (issued s) (pushed s)"
      using that by (simp add: ring_ok_def n_popped_def n_back_def)
    then show ?thesis using assms DReady by (simp add: dm_main_def)
  next
    case DIssue
    then show ?thesis using assms ring_issue [of "dmt s" ps "issued s" "pushed s"] by (simp add: dm_main_def)
  next
    case DBack
    then show ?thesis using assms ring_back by (simp add: dm_main_def upd_dm_def)
  next
    case DDec
    then show ?thesis using assms ring_dec by (simp add: dm_main_def upd_dm_def)
  qed (rule neutral; simp add: assms(2) dm_main_def wfi_dm_def upd_dm_def ring_neutral_def Let_def; fail)+
qed

lemma dm_main_frame:
  assumes "t = dm_main n d s"
  shows "cur t = cur s" "cur_op t = cur_op s" "calls t = calls s" "pushed t = pushed s" "ndone t = ndone s"
    "length (issued s) \<le> length (issued t)"
  unfolding assms by (cases "dm_pc s"; simp add: dm_main_def wfi_dm_def upd_dm_def Let_def)+

lemma dm_main_switch:
  assumes "in_switch (dm_pc s) \<longrightarrow> stat_q (dmt s) \<noteq> 0" "t = dm_main n d s"
  shows "in_switch (dm_pc t) \<longrightarrow> stat_q (dmt t) \<noteq> 0"
  using assms(1) unfolding assms(2)
  by (cases "dm_pc s"; simp add: dm_main_def wfi_dm_def upd_dm_def Let_def in_switch_def stat_defs)

lemma dm_inv_main:
  assumes inv: "dm_inv s"
  shows "dm_inv (dm_main n d s)"
proof -
  let ?t = "dm_main n d s"
  note F = dm_main_frame [OF refl, where n = n and d = d and s = s]
  have r: "ring_ok (dmt s) (dm_pc s) (cur s 0) (issued s) (pushed s)" and sw: "in_switch (dm_pc s) \<longrightarrow> stat_q (dmt s) \<noteq> 0"
    and w: "cur_op s 0 = Wait \<Longrightarrow> wait_ok (length (cur s 0)) s" and o: "suffix (cur s 0) (op_prims (cur_op s 0))" "ndone s \<le> length (issued s)"
    using inv by (simp_all add: dm_inv_def)
  show ?thesis
    unfolding dm_inv_def F(1-3,5)
    using dm_main_ring [OF r refl, of n d] dm_main_switch [OF sw refl, of n d] dm_main_wait [OF r w sw, of n d] o F(6) by simp
qed

lemma dm_inv_dma: "dm_inv s \<Longrightarrow> dm_inv (dma_progress s)"
  by (auto simp: dma_progress_def dm_inv_def wait_ok_def)

lemma exec_stat:
  assumes "exec_prim n p s = Some t" "suffix (p # ps) (op_prims c)"
  shows "stat_q (dmt t) = stat_q (dmt s) \<or> stat_q (dmt t) \<noteq> 0"
proof (cases "\<exists>v. p = SetStat v")
  case True
  then obtain v where p: "p = SetStat v" by blast
  moreover have "p \<in> set (op_prims c)" using assms(2) set_mono_suffix by fastforce
  ultimately have "v \<noteq> 0" by (cases c) (auto simp: op_defs stat_defs)
  then show ?thesis using p assms(1) by (auto simp: upd_dm_def)
next
  case False
  then show ?thesis using assms(1) by (cases p) (auto simp: upd_dm_def put_slot_def split: if_splits)
qed

lemma dm_inv_client:
  assumes inv: "dm_inv s"
  shows "dm_inv (client n 0 s)"
proof (cases "cur s 0")
  case Nil
  show ?thesis
  proof (cases "calls s 0")
    case (Cons c cs)
    have "ring_ok (dmt s) (dm_pc s) (op_prims c) (issued s) (pushed s)"
      using inv Nil new_op_quiet ring_quiet_cong [of "[]" "op_prims c"] by (simp add: dm_inv_def)
    moreover have "c = Wait \<Longrightarrow> wait_ok (length (op_prims c)) s" by (simp add: wait_ok_def op_defs)
    ultimately show ?thesis using inv Nil Cons by (simp add: client_def dm_inv_def wait_ok_def)
  qed (use inv Nil in \<open>simp add: client_def\<close>)
next
  case (Cons p ps)
  show ?thesis
  proof (cases "exec_prim n p s")
    case None
    then show ?thesis using inv Cons by (simp add: client_def)
  next
    case (Some t)
    note E = exec_frame [OF Some]
    have r: "ring_ok (dmt s) (dm_pc s) (p # ps) (issued s) (pushed s)" and sf: "suffix (p # ps) (op_prims (cur_op s 0))"
      and sw: "in_switch (dm_pc s) \<longrightarrow> stat_q (dmt s) \<noteq> 0" and w: "cur_op s 0 = Wait \<Longrightarrow> wait_ok (length (p # ps)) s"
      using inv Cons by (simp_all add: dm_inv_def)
    have "cur_op s 0 = Wait \<Longrightarrow> wait_ok (length ps) t" using client_wait [OF r _ w sw Some] sf by simp
    moreover have "in_switch (dm_pc t) \<longrightarrow> stat_q (dmt t) \<noteq> 0" using exec_stat [OF Some sf] sw E(2) by auto
    moreover have "suffix ps (op_prims (cur_op s 0))" using sf by (meson suffix_ConsD)
    ultimately show ?thesis
      using client_ring [OF r Some sf] inv E Cons Some by (simp add: client_def dm_inv_def wait_ok_def)
  qed
qed

interpretation dm_one: inductive_invariant dm_begin "dm_step 1 n d" dm_inv
proof
  show "dm_inv s" if "dm_begin s" for s
    using that by (simp add: dm_begin_def dm_inv_def dm_init_def ring_defs in_switch_def storing_def at_def)
  show "dm_inv t" if "dm_inv s" "dm_step 1 n d s t" for s t
    using that dm_inv_main dm_inv_dma dm_inv_client by (auto simp: dm_step_def)
qed

section \<open>The program of the client\<close>

text \<open>The transfers a call asks for, and those its remaining accesses will still store.\<close>

primrec op_requests :: "dm_op \<Rightarrow> dma_start list" where
  "op_requests (Memcpy dest src n) = [Start1d src dest n 0]"
| "op_requests (Memcpy2d src dst sz sstrd dstrd nreps cfg) = [Start2d src dst sz sstrd dstrd nreps cfg]"
| "op_requests Start = []"
| "op_requests Wait = []"
| "op_requests WaitReady = []"
| "op_requests Exit = []"

definition prim_requests :: "prim \<Rightarrow> dma_start list" where
  "prim_requests p = (case p of Store1d dest src n \<Rightarrow> [Start1d src dest n 0]
     | Store2d src dst sz sstrd dstrd nreps cfg \<Rightarrow> [Start2d src dst sz sstrd dstrd nreps cfg] | _ \<Rightarrow> [])"

lemma op_requests_prims: "concat (map prim_requests (op_prims c)) = op_requests c"
  by (cases c) (simp_all add: op_defs prim_requests_def)

definition on_program :: "dm_op list \<Rightarrow> dm_sys \<Rightarrow> bool" where
  "on_program cs s \<longleftrightarrow> concat (map op_requests cs) =
     pushed s @ concat (map prim_requests (cur s 0)) @ concat (map op_requests (calls s 0))"

lemma exec_pushed: "exec_prim n p s = Some t \<Longrightarrow> pushed t = pushed s @ prim_requests p"
  by (cases p) (auto simp: prim_requests_def upd_dm_def split: if_splits)

interpretation dm_program: inductive_invariant "\<lambda>s. dm_begin s \<and> calls s 0 = cs" "dm_step 1 n d" "on_program cs"
proof
  show "on_program cs s" if "dm_begin s \<and> calls s 0 = cs" for s using that by (simp add: on_program_def dm_begin_def)
  fix s t
  assume i: "on_program cs s" and st: "dm_step 1 n d s t"
  from st consider "t = dm_main n d s" | "t = dma_progress s" | "t = client n 0 s" by (auto simp: dm_step_def)
  then show "on_program cs t"
  proof cases
    case 1
    then show ?thesis using i dm_main_frame [OF 1] by (simp add: on_program_def)
  next
    case 2
    then show ?thesis using i by (simp add: on_program_def dma_progress_def)
  next
    case 3
    then show ?thesis
      using i exec_pushed exec_frame
      by (auto simp: on_program_def client_def op_requests_prims split: list.splits option.splits)
  qed
qed

lemma reachable_mono: "reachable I step s \<Longrightarrow> (\<And>s. I s \<Longrightarrow> J s) \<Longrightarrow> reachable J step s"
  by (induction rule: reachable.induct) (auto intro: reachable.intros)

lemma ring_fill:
  assumes "ring_ok q pc ps is xs"
  shows "unat (queue_fill q) \<le> 4"
proof -
  have f: "queue_fill q = of_nat (n_filled ps xs - n_popped pc is)" "length xs \<le> n_popped pc is + 4"
    using assms unfolding ring_ok_def by blast+
  moreover have "n_filled ps xs \<le> length xs" by (simp add: n_filled_def)
  ultimately have le: "n_filled ps xs - n_popped pc is \<le> 4" by linarith
  show ?thesis unfolding f(1) using le by (subst unat_of_nat_small) simp_all
qed

section \<open>Properties\<close>

text \<open>
  C9: one client, any program of calls, any interleaving: the transfers started on the DMA
  engine are, in order and each once, the transfers the program asks for, with all their
  parameters; and the ring of four never holds more than four.
\<close>

theorem dm_transfers_in_order:
  assumes "reachable (\<lambda>s. dm_begin s \<and> calls s 0 = cs) (dm_step 1 n d) s"
  shows "prefix (issued s) (concat (map op_requests cs)) \<and> unat (queue_fill (dmt s)) \<le> DM_TASK_QUEUE_SIZE"
proof -
  have "dm_inv s" using dm_one.inv_reachable [OF reachable_mono [OF assms]] by blast
  then have r: "ring_ok (dmt s) (dm_pc s) (cur s 0) (issued s) (pushed s)" by (simp add: dm_inv_def)
  then have "prefix (issued s) (pushed s)" unfolding ring_ok_def by (metis take_is_prefix)
  moreover have "prefix (pushed s) (concat (map op_requests cs))"
    using dm_program.inv_reachable [OF assms] by (auto simp: on_program_def)
  ultimately show ?thesis using ring_fill [OF r] by (auto simp: DM_TASK_QUEUE_SIZE_def dest: prefix_order.trans)
qed

text \<open>
  C19: when \<open>dm_wait\<close> has returned to the only client, every transfer it had requested before
  has been started and the engine has finished all of them.
\<close>

theorem dm_wait_completes:
  assumes "reachable (\<lambda>s. dm_begin s \<and> calls s 0 = cs) (dm_step 1 n d) s" "cur_op s 0 = Wait" "cur s 0 = []"
  shows "concat (map op_requests cs) = issued s @ concat (map op_requests (calls s 0)) \<and> ndone s = length (issued s)"
proof -
  have "dm_inv s" using dm_one.inv_reachable [OF reachable_mono [OF assms(1)]] by blast
  then have "issued s = pushed s" "ndone s = length (issued s)" using assms(2,3) by (simp_all add: dm_inv_def wait_ok_def)
  then show ?thesis using dm_program.inv_reachable [OF assms(1)] assms(3) by (simp add: on_program_def)
qed

text \<open>
  C20: in every reachable state of the data mover with one client the structure \<open>dm_t\<close> is well formed: both
  indices of the ring and its fill level are in range, what was started is a prefix of what was requested and at most
  four requests behind it, and every request not yet started is in its slot of the ring with all its parameters.
\<close>

theorem dm_state_well_formed:
  assumes "reachable dm_begin (dm_step 1 n d) s"
  shows "unat (queue_front (dmt s)) < DM_TASK_QUEUE_SIZE \<and> unat (queue_back (dmt s)) < DM_TASK_QUEUE_SIZE
    \<and> unat (queue_fill (dmt s)) \<le> DM_TASK_QUEUE_SIZE \<and> prefix (issued s) (pushed s) \<and> ndone s \<le> length (issued s)
    \<and> length (pushed s) \<le> length (issued s) + DM_TASK_QUEUE_SIZE
    \<and> (\<forall>k. length (issued s) \<le> k \<and> k < length (pushed s) \<longrightarrow> slot_start (queue (dmt s) (k mod DM_TASK_QUEUE_SIZE)) = pushed s ! k)"
proof -
  have "dm_inv s" by (rule dm_one.inv_reachable [OF assms])
  then have r: "ring_ok (dmt s) (dm_pc s) (cur s 0) (issued s) (pushed s)" "ndone s \<le> length (issued s)" by (simp_all add: dm_inv_def)
  have "n_popped (dm_pc s) (issued s) \<le> length (issued s)" by (simp add: n_popped_def)
  moreover have "length (pushed s) \<le> n_popped (dm_pc s) (issued s) + 4" "take (length (issued s)) (pushed s) = issued s"
    "queue_front (dmt s) = of_nat (n_front (cur s 0) (pushed s) mod 4)" "queue_back (dmt s) = of_nat (n_back (dm_pc s) (issued s) mod 4)"
    "\<forall>k. length (issued s) \<le> k \<and> k < length (pushed s) \<longrightarrow> slot_start (queue (dmt s) (k mod 4)) = pushed s ! k"
    using r(1) unfolding ring_ok_def by blast+
  ultimately show ?thesis using ring_fill [OF r(1)] r(2) by (auto simp: DM_TASK_QUEUE_SIZE_def) (metis take_is_prefix)
qed

text \<open>Concrete runs: 0 is the data mover, 1 the engine, \<open>i + 2\<close> client \<open>i\<close>.\<close>

definition dm_run :: "nat \<Rightarrow> nat \<Rightarrow> nat list \<Rightarrow> dm_sys \<Rightarrow> dm_sys" where
  "dm_run n d ws s = fold (\<lambda>w s. if w = 0 then dm_main n d s else if w = 1 then dma_progress s else client n (w - 2) s) ws s"

lemma dm_run_reachable:
  assumes "reachable I (dm_step p n d) s" "\<forall>w\<in>set ws. w < p + 2"
  shows "reachable I (dm_step p n d) (dm_run n d ws s)"
  using assms
proof (induction ws arbitrary: s)
  case (Cons w ws)
  have "dm_step p n d s (if w = 0 then dm_main n d s else if w = 1 then dma_progress s else client n (w - 2) s)"
    using Cons.prems(2) by (auto simp: dm_step_def intro!: exI [of _ "w - 2"])
  then show ?case using Cons reachable.intros(2) [OF Cons.prems(1)] by (simp add: dm_run_def)
qed (simp add: dm_run_def)

definition demo_dm :: "dm_op list \<Rightarrow> dm_op list \<Rightarrow> dm_sys" where
  "demo_dm cs ds = \<lparr> dmt = dm_init, irqs = 0, dm_pc = DFill, do_exit = False, cur_op = (\<lambda>_. Start), cur = (\<lambda>_. []),
     calls = (\<lambda>i. if i = 0 then cs else if i = 1 then ds else []), issued = [], ndone = 0, pushed = [] \<rparr>"

lemma demo_begin:
  "reachable (\<lambda>s. dm_begin s \<and> calls s 0 = cs) (dm_step p n d) (demo_dm cs ds)"
  by (rule reachable.intros(1)) (simp add: dm_begin_def demo_dm_def)

definition demo_calls :: "dm_op list" where
  "demo_calls = [Memcpy 64 128 8, Wait, Exit]"

text \<open>A run up to the return of \<open>dm_wait\<close>, with the data mover about to clear the request.\<close>

definition demo_waited :: dm_sys where
  "demo_waited = dm_run 8 2 (replicate 5 0 @ replicate 10 2 @ replicate 12 0 @ [1] @ replicate 6 0 @ replicate 7 2
     @ replicate 8 0 @ replicate 2 2) (demo_dm demo_calls [])"

lemma demo_waited_reachable: "reachable (\<lambda>s. dm_begin s \<and> calls s 0 = demo_calls) (dm_step 1 8 2) demo_waited"
  unfolding demo_waited_def by (intro dm_run_reachable demo_begin) auto

lemma demo_waited_state: "cur_op demo_waited 0 = Wait" "cur demo_waited 0 = []" "dm_pc demo_waited = DClear" "calls demo_waited 0 = [Exit]"
  by code_simp+

theorem dm_transfers_in_order_witness:
  "prefix (issued demo_waited) (concat (map op_requests demo_calls)) \<and> unat (queue_fill (dmt demo_waited)) \<le> DM_TASK_QUEUE_SIZE"
  by (rule dm_transfers_in_order [OF demo_waited_reachable])

theorem dm_state_well_formed_witness:
  "unat (queue_front (dmt demo_waited)) < DM_TASK_QUEUE_SIZE \<and> unat (queue_back (dmt demo_waited)) < DM_TASK_QUEUE_SIZE
    \<and> prefix (issued demo_waited) (pushed demo_waited)"
proof -
  have "reachable dm_begin (dm_step 1 8 2) demo_waited" by (rule reachable_mono [OF demo_waited_reachable]) simp
  then show ?thesis using dm_state_well_formed by blast
qed

theorem dm_wait_completes_witness:
  "issued demo_waited = [Start1d 128 64 8 0] \<and> ndone demo_waited = 1"
proof -
  have "[Start1d 128 64 8 0] = issued demo_waited \<and> ndone demo_waited = length (issued demo_waited)"
    using dm_wait_completes [OF demo_waited_reachable demo_waited_state(1,2)] demo_waited_state(4) by (simp add: demo_calls_def)
  then show ?thesis by (metis One_nat_def length_Cons list.size(3))
qed

text \<open>
  C39: an exit request can be lost. The data mover answers a wait by setting \<open>stat_pvalid\<close> and
  only then clears \<open>stat_q\<close>; a client that sees the answer and calls \<open>dm_exit\<close> in between has
  its request overwritten. From this reachable state on nothing moves: the client is
  through with \<open>dm_exit\<close>, and the data mover sleeps for ever instead of leaving \<open>dm_main\<close>.
\<close>

theorem dm_exit_can_be_lost:
  "let s = dm_run 8 2 (replicate 2 2 @ replicate 4 0 @ replicate 2 2 @ replicate 8 0) demo_waited in
     reachable (\<lambda>s. dm_begin s \<and> calls s 0 = demo_calls) (dm_step 1 8 2) s
   \<and> calls s 0 = [] \<and> cur s 0 = [] \<and> cur_op s 0 = Exit
   \<and> dm_pc s = DWfi \<and> dm_main 8 2 s = s \<and> dma_progress s = s \<and> client 8 0 s = s"
proof -
  let ?s = "dm_run 8 2 (replicate 2 2 @ replicate 4 0 @ replicate 2 2 @ replicate 8 0) demo_waited"
  have r: "reachable (\<lambda>s. dm_begin s \<and> calls s 0 = demo_calls) (dm_step 1 8 2) ?s"
    by (intro dm_run_reachable demo_waited_reachable) auto
  have "calls ?s 0 = []" "cur ?s 0 = []" "cur_op ?s 0 = Exit" "dm_pc ?s = DWfi" "irqs ?s = 0" "ndone ?s = length (issued ?s)"
    by code_simp+
  then show ?thesis using r by (simp add: Let_def dm_main_def wfi_dm_def dma_progress_def client_def)
qed

section \<open>Several clients\<close>

text \<open>A copy up to the moment it has seen a free slot, and the rest of it.\<close>

lemma copy_polls:
  assumes "cur s i = []" "calls s i = Memcpy a b c # cs" "queue_fill (dmt s) < 4"
  shows "dm_run n d [i + 2, i + 2] s = s\<lparr> cur_op := (cur_op s)(i := Memcpy a b c),
    cur := (cur s)(i := [Lock, Store1d a b c, IncFill, BumpFront, Unlock]), calls := (calls s)(i := cs) \<rparr>"
  using assms by (simp add: dm_run_def client_def dm_memcpy_async_def DM_TASK_QUEUE_SIZE_def not_le)

lemma copy_stores:
  assumes "cur s i = [Lock, Store1d a b c, IncFill, BumpFront, Unlock]" "dm_mutex (dmt s) = 0"
  shows "dm_run n d [i + 2, i + 2, i + 2, i + 2, i + 2] s = s\<lparr> dmt := (dmt s)\<lparr>
      queue := (queue (dmt s))(unat (queue_front (dmt s)) := (front_slot (dmt s))\<lparr> t_src := b, t_dst := a, t_size := c, t_twod := 0, t_cfg := 0 \<rparr>),
      queue_fill := queue_fill (dmt s) + 1, queue_front := bump (queue_front (dmt s)), dm_mutex := 0 \<rparr>,
    cur := (cur s)(i := []), pushed := pushed s @ [Start1d b a c 0] \<rparr>"
  using assms by (simp add: dm_run_def client_def upd_dm_def put_slot_def front_slot_def)

text \<open>The first request is overwritten: the ring is overfull, no client is about to store, and the slot that is next holds \<open>x\<close>.\<close>

definition no_store :: "prim list \<Rightarrow> bool" where
  "no_store ps \<longleftrightarrow> ps = [] \<or> hd ps = PollRoom
     \<or> (\<forall>p\<in>set ps. prim_requests p = [] \<and> p \<noteq> IncFill \<and> p \<noteq> BumpFront)"

definition lost_first :: "dma_start \<Rightarrow> dm_sys \<Rightarrow> bool" where
  "lost_first x s \<longleftrightarrow> (if issued s = [] then queue_fill (dmt s) = 5 \<and> queue_back (dmt s) = 0 \<and> slot_start (queue (dmt s) 0) = x
       \<and> dm_pc s \<noteq> DBack \<and> dm_pc s \<noteq> DDec \<and> (\<forall>i. no_store (cur s i))
     else hd (issued s) = x)"

lemma op_no_store: "no_store (op_prims c)"
  by (cases c) (simp_all add: no_store_def op_defs prim_requests_def)

lemma exec_no_store:
  assumes "exec_prim n p s = Some t" "no_store (p # ps)" "queue_fill (dmt s) = 5"
  shows "queue (dmt t) = queue (dmt s) \<and> queue_fill (dmt t) = 5 \<and> queue_back (dmt t) = queue_back (dmt s) \<and> no_store ps"
  using assms by (cases p) (auto simp: no_store_def prim_requests_def upd_dm_def DM_TASK_QUEUE_SIZE_def split: if_splits)

lemma lost_client: "lost_first x s \<Longrightarrow> lost_first x (client n i s)"
proof (cases "cur s i")
  case Nil
  assume "lost_first x s"
  then show ?thesis using Nil op_no_store by (simp add: client_def lost_first_def split: list.splits)
next
  case (Cons p ps)
  assume l: "lost_first x s"
  show ?thesis
  proof (cases "exec_prim n p s")
    case None
    then show ?thesis using l Cons by (simp add: client_def)
  next
    case (Some t)
    have c: "client n i s = t\<lparr> cur := (cur t)(i := ps) \<rparr>" using Cons Some by (simp add: client_def)
    have "no_store (p # ps)" "queue_fill (dmt s) = 5" if "issued s = []"
      using l that Cons by (simp_all add: lost_first_def) metis
    then show ?thesis unfolding c using l exec_frame [OF Some] exec_no_store [OF Some, of ps] by (auto simp: lost_first_def)
  qed
qed

lemma lost_main: "lost_first x s \<Longrightarrow> lost_first x (dm_main n d s)"
  by (cases "dm_pc s") (auto simp: lost_first_def dm_main_def wfi_dm_def upd_dm_def Let_def hd_append split: if_splits)

interpretation dm_lost: inductive_invariant "lost_first x" "dm_step p n d" "lost_first x"
proof
  fix s t assume "lost_first x s" "dm_step p n d s t"
  then show "lost_first x t"
    using lost_main lost_client by (auto simp: dm_step_def) (auto simp: dma_progress_def lost_first_def)
qed

lemma dm_run_star: "\<forall>w\<in>set ws. w < p + 2 \<Longrightarrow> (dm_step p n d)\<^sup>*\<^sup>* s (dm_run n d ws s)"
proof (induction ws arbitrary: s)
  case (Cons w ws)
  let ?t = "if w = 0 then dm_main n d s else if w = 1 then dma_progress s else client n (w - 2) s"
  have "dm_step p n d s ?t" using Cons.prems by (auto simp: dm_step_def intro!: exI [of _ "w - 2"])
  moreover have "(dm_step p n d)\<^sup>*\<^sup>* ?t (dm_run n d ws ?t)" using Cons.prems by (intro Cons.IH) simp
  ultimately show ?case by (simp add: dm_run_def converse_rtranclp_into_rtranclp)
qed (simp add: dm_run_def)

text \<open>Copies that are requested one after the other while the data mover has not yet looked at the ring.\<close>

definition waiting_ring :: "dma_start list \<Rightarrow> dm_sys \<Rightarrow> bool" where
  "waiting_ring xs s \<longleftrightarrow> dm_pc s = DFill \<and> issued s = [] \<and> ndone s = 0 \<and> (\<forall>i. cur s i = []) \<and> pushed s = xs \<and> dm_mutex (dmt s) = 0
     \<and> queue_back (dmt s) = 0 \<and> queue_fill (dmt s) = of_nat (length xs) \<and> queue_front (dmt s) = of_nat (length xs mod 4)"

lemma waiting_copy:
  assumes w: "waiting_ring xs s" and xs: "length xs < 4" and c: "calls s i = Memcpy a b z # cs" and i: "i < p"
  shows "\<exists>t. (dm_step p n d)\<^sup>*\<^sup>* s t \<and> waiting_ring (xs @ [Start1d b a z 0]) t \<and> calls t = (calls s)(i := cs)"
proof -
  define u where "u = dm_run n d [i + 2, i + 2] s"
  define t where "t = dm_run n d [i + 2, i + 2, i + 2, i + 2, i + 2] u"
  have "(of_nat (length xs) :: u32) < 4" using xs by (simp add: word_less_nat_alt unat_of_nat_small)
  then have u: "u = s\<lparr> cur_op := (cur_op s)(i := Memcpy a b z),
      cur := (cur s)(i := [Lock, Store1d a b z, IncFill, BumpFront, Unlock]), calls := (calls s)(i := cs) \<rparr>"
    unfolding u_def using w c by (intro copy_polls) (simp_all add: waiting_ring_def)
  have "cur u i = [Lock, Store1d a b z, IncFill, BumpFront, Unlock]" "dm_mutex (dmt u) = 0" using w by (simp_all add: u waiting_ring_def)
  note t = copy_stores [OF this, of n d, folded t_def]
  have "waiting_ring (xs @ [Start1d b a z 0]) t" "calls t = (calls s)(i := cs)"
    using w bump_mod [of "length xs"] unfolding t by (auto simp: waiting_ring_def u)
  moreover have "(dm_step p n d)\<^sup>*\<^sup>* s u" "(dm_step p n d)\<^sup>*\<^sup>* u t" unfolding u_def t_def using i by (intro dm_run_star; simp)+
  ultimately show ?thesis by (metis rtranclp_trans)
qed

lemma race_for_slot:
  assumes w: "waiting_ring [r1, r2, r3] s" and c: "calls s 0 = Memcpy a4 b4 z4 # cs" "calls s 1 = Memcpy a5 b5 z5 # ds" and p: "2 \<le> p"
  shows "\<exists>t. (dm_step p n d)\<^sup>*\<^sup>* s t \<and> queue_fill (dmt t) = 5 \<and> pushed t = [r1, r2, r3, Start1d b4 a4 z4 0, Start1d b5 a5 z5 0]
    \<and> lost_first (Start1d b5 a5 z5 0) t \<and> issued t = [] \<and> ndone t = 0 \<and> dm_pc t = DFill"
proof -
  define u where "u = dm_run n d [0 + 2, 0 + 2] s"
  define v where "v = dm_run n d [1 + 2, 1 + 2] u"
  define x where "x = dm_run n d [0 + 2, 0 + 2, 0 + 2, 0 + 2, 0 + 2] v"
  define t where "t = dm_run n d [1 + 2, 1 + 2, 1 + 2, 1 + 2, 1 + 2] x"
  have u: "u = s\<lparr> cur_op := (cur_op s)(0 := Memcpy a4 b4 z4),
      cur := (cur s)(0 := [Lock, Store1d a4 b4 z4, IncFill, BumpFront, Unlock]), calls := (calls s)(0 := cs) \<rparr>"
    unfolding u_def using w c(1) by (intro copy_polls) (simp_all add: waiting_ring_def)
  have v: "v = u\<lparr> cur_op := (cur_op u)(1 := Memcpy a5 b5 z5),
      cur := (cur u)(1 := [Lock, Store1d a5 b5 z5, IncFill, BumpFront, Unlock]), calls := (calls u)(1 := ds) \<rparr>"
    unfolding v_def using w c(2) by (intro copy_polls) (simp_all add: waiting_ring_def u)
  have "cur v 0 = [Lock, Store1d a4 b4 z4, IncFill, BumpFront, Unlock]" "dm_mutex (dmt v) = 0" using w by (simp_all add: v u waiting_ring_def)
  note e = copy_stores [OF this, of n d, folded x_def]
  have x: "x = v\<lparr> dmt := dmt x, cur := (cur v)(0 := []), pushed := pushed v @ [Start1d b4 a4 z4 0] \<rparr>"
    and q: "queue_fill (dmt x) = 4" "queue_front (dmt x) = 0" "queue_back (dmt x) = 0" "dm_mutex (dmt x) = 0"
    using w bump_mod [of 3] unfolding e by (simp_all add: v u waiting_ring_def)
  have "cur x 1 = [Lock, Store1d a5 b5 z5, IncFill, BumpFront, Unlock]" by (subst x) (simp add: v)
  note t = copy_stores [OF this q(4), of n d, folded t_def]
  have f: "queue_fill (dmt t) = 5" "queue_back (dmt t) = 0" "slot_start (queue (dmt t) 0) = Start1d b5 a5 z5 0"
    using q unfolding t by (simp_all add: slot_start_def)
  have g: "issued t = []" "ndone t = 0" "dm_pc t = DFill" "cur t = (\<lambda>_. [])" "pushed t = [r1, r2, r3, Start1d b4 a4 z4 0, Start1d b5 a5 z5 0]"
    using w unfolding t e by (auto simp: v u waiting_ring_def)
  have "(dm_step p n d)\<^sup>*\<^sup>* s u" "(dm_step p n d)\<^sup>*\<^sup>* u v" "(dm_step p n d)\<^sup>*\<^sup>* v x" "(dm_step p n d)\<^sup>*\<^sup>* x t"
    unfolding u_def v_def x_def t_def using p by (intro dm_run_star; simp)+
  then have "(dm_step p n d)\<^sup>*\<^sup>* s t" by (metis rtranclp_trans)
  then show ?thesis using f g by (intro exI [of _ t]) (simp add: lost_first_def no_store_def)
qed

text \<open>
  C40: with two or more clients the ring can be overfilled, and a transfer is lost. Whatever the parameters of the transfers, the
  rest of the programs and the number of clients: if the first client copies four times and the second one once, a state can be
  reached in which the fill level is five, because both polled for room before either took the mutex. The first request is then
  lost: in every continuation the first transfer the engine starts, if it starts one, is the fifth request, and it can start it.
\<close>

theorem dm_two_clients_overflow:
  assumes s: "dm_begin s" and p: "2 \<le> p" and d: "0 < d"
    and c: "calls s 0 = [Memcpy a1 b1 z1, Memcpy a2 b2 z2, Memcpy a3 b3 z3, Memcpy a4 b4 z4] @ cs" "calls s 1 = Memcpy a5 b5 z5 # ds"
  shows "\<exists>t. (dm_step p n d)\<^sup>*\<^sup>* s t \<and> unat (queue_fill (dmt t)) = DM_TASK_QUEUE_SIZE + 1 \<and> hd (pushed t) = Start1d b1 a1 z1 0
    \<and> (\<forall>u. (dm_step p n d)\<^sup>*\<^sup>* t u \<longrightarrow> issued u = [] \<or> hd (issued u) = Start1d b5 a5 z5 0)
    \<and> (\<exists>u. (dm_step p n d)\<^sup>*\<^sup>* t u \<and> issued u = [Start1d b5 a5 z5 0])"
proof -
  have i: "0 < p" using p by simp
  have "waiting_ring [] s" using s by (simp add: waiting_ring_def dm_begin_def dm_init_def)
  then obtain s1 where s1: "(dm_step p n d)\<^sup>*\<^sup>* s s1" "waiting_ring [Start1d b1 a1 z1 0] s1"
      "calls s1 = (calls s)(0 := [Memcpy a2 b2 z2, Memcpy a3 b3 z3, Memcpy a4 b4 z4] @ cs)"
    using waiting_copy [of "[]" s 0 a1 b1 z1 _ p n d] c(1) i by auto
  then have "calls s1 0 = Memcpy a2 b2 z2 # [Memcpy a3 b3 z3, Memcpy a4 b4 z4] @ cs" by simp
  from waiting_copy [OF s1(2) _ this i, of n d] obtain s2 where s2: "(dm_step p n d)\<^sup>*\<^sup>* s1 s2"
      "waiting_ring [Start1d b1 a1 z1 0, Start1d b2 a2 z2 0] s2" "calls s2 = (calls s)(0 := [Memcpy a3 b3 z3, Memcpy a4 b4 z4] @ cs)"
    using s1(3) by auto
  then have "calls s2 0 = Memcpy a3 b3 z3 # [Memcpy a4 b4 z4] @ cs" by simp
  from waiting_copy [OF s2(2) _ this i, of n d] obtain s3 where s3: "(dm_step p n d)\<^sup>*\<^sup>* s2 s3"
      "waiting_ring [Start1d b1 a1 z1 0, Start1d b2 a2 z2 0, Start1d b3 a3 z3 0] s3" "calls s3 = (calls s)(0 := Memcpy a4 b4 z4 # cs)"
    using s2(3) by auto
  have "calls s3 0 = Memcpy a4 b4 z4 # cs" "calls s3 1 = Memcpy a5 b5 z5 # ds" using s3(3) c(2) by simp_all
  from race_for_slot [OF s3(2) this p, of n d] obtain t where
    t: "(dm_step p n d)\<^sup>*\<^sup>* s3 t" "queue_fill (dmt t) = 5" "lost_first (Start1d b5 a5 z5 0) t" "issued t = []" "dm_pc t = DFill"
      "hd (pushed t) = Start1d b1 a1 z1 0" "ndone t = 0" by auto
  have "(dm_step p n d)\<^sup>*\<^sup>* s t" using s1(1) s2(1) s3(1) t(1) by (meson rtranclp_trans)
  moreover have "issued u = [] \<or> hd (issued u) = Start1d b5 a5 z5 0" if "(dm_step p n d)\<^sup>*\<^sup>* t u" for u
    using dm_lost.inv_star [OF that t(3)] by (auto simp: lost_first_def split: if_splits)
  moreover have "(dm_step p n d)\<^sup>*\<^sup>* t (dm_run n d [0, 0, 0] t)" by (intro dm_run_star) simp
  moreover have "issued (dm_run n d [0, 0, 0] t) = [Start1d b5 a5 z5 0]"
    using t d by (simp add: dm_run_def dm_main_def lost_first_def)
  ultimately show ?thesis using t(2, 6) by (intro exI [of _ t]) (auto simp: DM_TASK_QUEUE_SIZE_def)
qed

theorem dm_two_clients_overflow_witness:
  "\<exists>t u. (dm_step 8 8 2)\<^sup>*\<^sup>* (demo_dm [Memcpy 1 11 64, Memcpy 2 12 64, Memcpy 3 13 64, Memcpy 4 14 64] [Memcpy 5 15 64]) t
    \<and> unat (queue_fill (dmt t)) = 5 \<and> hd (pushed t) = Start1d 11 1 64 0 \<and> (dm_step 8 8 2)\<^sup>*\<^sup>* t u \<and> issued u = [Start1d 15 5 64 0]"
proof -
  let ?s = "demo_dm [Memcpy 1 11 64, Memcpy 2 12 64, Memcpy 3 13 64, Memcpy 4 14 64] [Memcpy 5 15 64]"
  have b: "dm_begin ?s" "calls ?s 0 = [Memcpy 1 11 64, Memcpy 2 12 64, Memcpy 3 13 64, Memcpy 4 14 64] @ []" "calls ?s 1 = Memcpy 5 15 64 # []"
    by (simp_all add: dm_begin_def demo_dm_def)
  obtain t where t: "(dm_step 8 8 2)\<^sup>*\<^sup>* ?s t" "unat (queue_fill (dmt t)) = DM_TASK_QUEUE_SIZE + 1" "hd (pushed t) = Start1d 11 1 64 0"
      "\<exists>u. (dm_step 8 8 2)\<^sup>*\<^sup>* t u \<and> issued u = [Start1d 15 5 64 0]"
    using dm_two_clients_overflow [OF b(1) _ _ b(2, 3), of 8 2 8] by auto
  then show ?thesis by (auto simp: DM_TASK_QUEUE_SIZE_def)
qed

end
