(* ===== verification/Gemm_Simd.thy ===== *)
theory Gemm_Simd
  imports Gemm
begin

text \<open>
  The packed-SIMD matrix multiplication kernels of \<open>sw/applications/src/kernels/gemm.c\<close> in single,
  half and quarter precision. Each inline assembly block is a list of instructions of the model.
  The results say which value every result word gets, as a term over the operations
  of the arithmetic unit, and that the data movers are ready again afterwards.
\<close>

section \<open>Parts the kernels share\<close>

text \<open>
  The four kernels differ in the element size \<open>sz\<close> and in the number of elements \<open>e\<close> of a vector.
\<close>

definition gemm_simd_setup :: "ssr_hw \<Rightarrow> u32 \<Rightarrow> u32 \<Rightarrow> u32 \<Rightarrow> u32 \<Rightarrow> u32 \<Rightarrow> u32 \<Rightarrow> u32 \<Rightarrow> ssrs \<Rightarrow> ssrs" where
  "gemm_simd_setup hw sz e M N K ldA ldB l = (
    let unroll = 8;
        l = snrt_ssr_loop_3d hw 0 (K div e) (N div unroll) M (sz * e) 0 (sz * ldA) l;
        l = snrt_ssr_repeat hw 0 unroll l
    in snrt_ssr_loop_4d hw 1 unroll (K div e) (N div unroll) M (sz * ldB) (sz * e) (sz * unroll * ldB) 0 l)"

definition gemm_simd_start :: "ssr_hw \<Rightarrow> u32 \<Rightarrow> u32 \<Rightarrow> u32 \<Rightarrow> u32 \<Rightarrow> u32 \<Rightarrow> u32 \<Rightarrow> u32 \<Rightarrow> u32 \<Rightarrow> u32 \<Rightarrow> u32 \<Rightarrow> fp_core \<Rightarrow> fp_core" where
  "gemm_simd_start hw sz e M N K A ldA B ldB setup_SSR s = (
    let s = (if setup_SSR \<noteq> 0 then on_ssrs (gemm_simd_setup hw sz e M N K ldA ldB) s else s);
        s = on_ssrs (snrt_ssr_read hw 0 3 A) s;
        s = on_ssrs (snrt_ssr_read hw 1 3 B) s
    in snrt_ssr_enable s)"

definition row :: "(nat \<Rightarrow> finstr) \<Rightarrow> asm list" where
  "row g = map I (map g [0..<8])"

section \<open>Single precision\<close>

definition gemm_fp32_asm :: "u32 \<Rightarrow> u32 \<Rightarrow> u32 \<Rightarrow> asm list" where
  "gemm_fp32_asm alpha C n_frep =
    (if alpha \<noteq> 0
     then row (\<lambda>i. Flw (red i) (C + 4 * of_nat i)) @ row (\<lambda>i. FOp vfcpka_s_s (red i) [red i, zero_reg])
     else row (\<lambda>i. FOp vfcpka_s_s (red i) [zero_reg, zero_reg]))
    @ row (\<lambda>i. FOp vfmul_s (acc i) [1, 0])
    @ Frep n_frep 8 # row (\<lambda>i. FOp vfmac_s (acc i) [1, 0, acc i])
    @ row (\<lambda>i. FOp vfsum_s (red i) [acc i, red i])
    @ map I [FOp vfcpka_s_s (acc 0) [red 0, red 1], FOp vfcpka_s_s (acc 1) [red 2, red 3],
        FOp vfcpka_s_s (acc 2) [red 4, red 5], FOp vfcpka_s_s (acc 3) [red 6, red 7]]"

definition gemm_fp32_block :: "fpu \<Rightarrow> u32 \<Rightarrow> u32 \<Rightarrow> u32 \<Rightarrow> u32 \<Rightarrow> u32 \<Rightarrow> u32 \<Rightarrow> fp_core \<Rightarrow> fp_core" where
  "gemm_fp32_block fpu n_frep C ldC ALPHA m n s = (
    let C' = C + 4 * (m * ldC + n div 2);
        s = set_fr zero_reg (nan_box 0) s;
        s = run_asm fpu (gemm_fp32_asm (load32 (cmem s) ALPHA) C' (n_frep - 1)) s
    in fold (\<lambda>i s. put64 (C' + 8 * of_nat i) (fregs s (acc i)) s) [0..<4] s)"

definition gemm_fp32_column ::
  "(u32 \<Rightarrow> u32 \<Rightarrow> u32 \<Rightarrow> u32) \<Rightarrow> u32 \<Rightarrow> u32 \<Rightarrow> u32 \<Rightarrow> u32 \<Rightarrow> u32 \<Rightarrow> u32 \<Rightarrow> u32 \<Rightarrow> u32 \<Rightarrow> u32 \<Rightarrow> u32 \<Rightarrow> fp_core \<Rightarrow> fp_core" where
  "gemm_fp32_column mac_s K A ldA B ldB C ldC ALPHA m n s = (
    let c = (if load32 (cmem s) ALPHA \<noteq> 0 then load32 (cmem s) (C + 4 * (m * ldC + n)) else 0);
        c = for_u32 K (\<lambda>k c. mac_s (load32 (cmem s) (A + 4 * (k + m * ldA))) (load32 (cmem s) (B + 4 * (k + n * ldB))) c) c
    in put32 (C + 4 * (m * ldC + n)) c s)"

definition gemm_fp32_opt ::
  "ssr_hw \<Rightarrow> fpu \<Rightarrow> (u32 \<Rightarrow> u32 \<Rightarrow> u32 \<Rightarrow> u32) \<Rightarrow> u32 \<Rightarrow> u32 \<Rightarrow> u32 \<Rightarrow> u32 \<Rightarrow> u32 \<Rightarrow> u32 \<Rightarrow> u32 \<Rightarrow> u32 \<Rightarrow> u32 \<Rightarrow> u32 \<Rightarrow> u32
    \<Rightarrow> fp_core \<Rightarrow> fp_core" where
  "gemm_fp32_opt hw fpu mac_s M N K A ldA B ldB C ldC ALPHA setup_SSR s = (
    let unroll = 8;
        s = gemm_simd_start hw 4 2 M N K A ldA B ldB setup_SSR s;
        n_frep = K div 2 - 1;
        s = for_u32 M (\<lambda>m s.
          let (n, s) = for_u32 (N div unroll) (\<lambda>n0 (n, s). (n + unroll * 2, gemm_fp32_block fpu n_frep C ldC ALPHA m n s)) (0, s);
              s = snrt_ssr_disable s;
              s = for_from_u32 n N (gemm_fp32_column mac_s K A ldA B ldB C ldC ALPHA m) s
          in snrt_ssr_enable s) s
    in snrt_ssr_disable s)"

section \<open>Half precision\<close>

text \<open>The start of the accumulators, the same text in both half precision kernels.\<close>

definition gemm_fp16_init :: "u32 \<Rightarrow> u32 \<Rightarrow> asm list" where
  "gemm_fp16_init alpha C =
    (if alpha \<noteq> 0
     then row (\<lambda>i. Flw (acc i) (C + 4 * of_nat i)) @ row (\<lambda>i. FOp vfcpka_s_s (acc i) [acc i, zero_reg])
     else row (\<lambda>i. FOp vfcpka_s_s (acc i) [zero_reg, zero_reg]))"

definition gemm_fp16_asm :: "u32 \<Rightarrow> u32 \<Rightarrow> u32 \<Rightarrow> asm list" where
  "gemm_fp16_asm alpha C n_frep = gemm_fp16_init alpha C
    @ Frep n_frep 8 # row (\<lambda>i. FOp vfmac_h (acc i) [1, 0, acc i])
    @ row (\<lambda>i. FOp vfcpka_s_s (red i) [zero_reg, zero_reg])
    @ row (\<lambda>i. FOp vfsumex_s_h (red i) [acc i, red i])
    @ row (\<lambda>i. FOp vfcpka_s_s (acc i) [zero_reg, zero_reg])
    @ row (\<lambda>i. FOp vfsum_s (acc i) [red i, acc i])
    @ map I [FOp vfcpka_h_s (acc 0) [acc 0, acc 1, acc 0], FOp vfcpkb_h_s (acc 0) [acc 2, acc 3, acc 0],
        FOp vfcpka_h_s (acc 1) [acc 4, acc 5, acc 1], FOp vfcpkb_h_s (acc 1) [acc 6, acc 7, acc 1]]"

definition gemm_fp16_ex_asm :: "u32 \<Rightarrow> u32 \<Rightarrow> u32 \<Rightarrow> asm list" where
  "gemm_fp16_ex_asm alpha C n_frep = gemm_fp16_init alpha C
    @ Frep n_frep 8 # row (\<lambda>i. FOp vfdotpex_s_h (acc i) [1, 0, acc i])
    @ row (\<lambda>i. FOp vfcpka_s_s (red i) [zero_reg, zero_reg])
    @ row (\<lambda>i. FOp vfsum_s (red i) [acc i, red i])
    @ map I [FOp vfcpka_h_s (acc 0) [red 0, red 1, acc 0], FOp vfcpkb_h_s (acc 0) [red 2, red 3, acc 0],
        FOp vfcpka_h_s (acc 1) [red 4, red 5, acc 1], FOp vfcpkb_h_s (acc 1) [red 6, red 7, acc 1]]"

text \<open>A block of eight columns and the loops around it, for either version of the assembly.\<close>

definition gemm_fp16_block ::
  "(u32 \<Rightarrow> u32 \<Rightarrow> u32 \<Rightarrow> asm list) \<Rightarrow> fpu \<Rightarrow> u32 \<Rightarrow> u32 \<Rightarrow> u32 \<Rightarrow> u32 \<Rightarrow> u32 \<Rightarrow> u32 \<Rightarrow> fp_core \<Rightarrow> fp_core" where
  "gemm_fp16_block code fpu n_frep C ldC ALPHA m n s = (
    let C' = C + 2 * (m * ldC + n);
        s = set_fr zero_reg (nan_box 0) s;
        s = run_asm fpu (code (load32 (cmem s) ALPHA) C' n_frep) s
    in fold (\<lambda>i s. put64 (C' + 8 * of_nat i) (fregs s (acc i)) s) [0..<2] s)"

definition gemm_fp16_opt ::
  "ssr_hw \<Rightarrow> fpu \<Rightarrow> u32 \<Rightarrow> u32 \<Rightarrow> u32 \<Rightarrow> u32 \<Rightarrow> u32 \<Rightarrow> u32 \<Rightarrow> u32 \<Rightarrow> u32 \<Rightarrow> u32 \<Rightarrow> u32 \<Rightarrow> u32 \<Rightarrow> fp_core \<Rightarrow> fp_core" where
  "gemm_fp16_opt hw fpu M N K A ldA B ldB C ldC ALPHA setup_SSR s = (
    let unroll = 8;
        s = gemm_simd_start hw 2 4 M N K A ldA B ldB setup_SSR s;
        n_frep = K div 4 - 1;
        s = for_u32 M (\<lambda>m s.
          snd (for_u32 (N div unroll) (\<lambda>n0 (n, s). (n + unroll, gemm_fp16_block gemm_fp16_asm fpu n_frep C ldC ALPHA m n s)) (0, s))) s
    in snrt_ssr_disable s)"

definition gemm_fp16_ex_opt ::
  "ssr_hw \<Rightarrow> fpu \<Rightarrow> u32 \<Rightarrow> u32 \<Rightarrow> u32 \<Rightarrow> u32 \<Rightarrow> u32 \<Rightarrow> u32 \<Rightarrow> u32 \<Rightarrow> u32 \<Rightarrow> u32 \<Rightarrow> u32 \<Rightarrow> u32 \<Rightarrow> fp_core \<Rightarrow> fp_core" where
  "gemm_fp16_ex_opt hw fpu M N K A ldA B ldB C ldC ALPHA setup_SSR s = (
    let unroll = 8;
        s = gemm_simd_start hw 2 4 M N K A ldA B ldB setup_SSR s;
        n_frep = K div 4 - 1;
        s = for_u32 M (\<lambda>m s.
          snd (for_u32 (N div unroll) (\<lambda>n0 (n, s). (n + unroll, gemm_fp16_block gemm_fp16_ex_asm fpu n_frep C ldC ALPHA m n s)) (0, s))) s
    in snrt_ssr_disable s)"

section \<open>Quarter precision\<close>

definition gemm_fp8_ex_asm :: "u32 \<Rightarrow> asm list" where
  "gemm_fp8_ex_asm n_frep =
    row (\<lambda>i. FOp vfcpka_s_s (acc i) [zero_reg, zero_reg])
    @ Frep n_frep 8 # row (\<lambda>i. FOp vfdotpex_h_b (acc i) [1, 0, acc i])
    @ row (\<lambda>i. FOp vfcpka_s_s (red i) [zero_reg, zero_reg])
    @ row (\<lambda>i. FOp vfsumex_s_h (red i) [acc i, red i])
    @ map I [FOp vfcpka_b_s (acc 0) [red 0, red 1, acc 0], FOp vfcpkb_b_s (acc 0) [red 2, red 3, acc 0],
        FOp vfcpkc_b_s (acc 0) [red 4, red 5, acc 0], FOp vfcpkd_b_s (acc 0) [red 6, red 7, acc 0]]"

definition gemm_fp8_block :: "fpu \<Rightarrow> u32 \<Rightarrow> u32 \<Rightarrow> u32 \<Rightarrow> u32 \<Rightarrow> u32 \<Rightarrow> fp_core \<Rightarrow> fp_core" where
  "gemm_fp8_block fpu n_frep C ldC m n s = (
    let C' = C + (m * ldC + n);
        s = set_fr zero_reg (nan_box 0) s;
        s = run_asm fpu (gemm_fp8_ex_asm n_frep) s
    in put64 C' (fregs s (acc 0)) s)"

definition gemm_fp8_ex_opt ::
  "ssr_hw \<Rightarrow> fpu \<Rightarrow> u32 \<Rightarrow> u32 \<Rightarrow> u32 \<Rightarrow> u32 \<Rightarrow> u32 \<Rightarrow> u32 \<Rightarrow> u32 \<Rightarrow> u32 \<Rightarrow> u32 \<Rightarrow> u32 \<Rightarrow> u32 \<Rightarrow> fp_core \<Rightarrow> fp_core" where
  "gemm_fp8_ex_opt hw fpu M N K A ldA B ldB C ldC ALPHA setup_SSR s = (
    if load32 (cmem s) ALPHA \<noteq> 0 then s
    else let unroll = 8;
        s = gemm_simd_start hw 1 8 M N K A ldA B ldB setup_SSR s;
        n_frep = K div 8 - 1;
        s = for_u32 M (\<lambda>m s.
          snd (for_u32 (N div unroll) (\<lambda>n0 (n, s). (n + unroll, gemm_fp8_block fpu n_frep C ldC m n s)) (0, s))) s
    in snrt_ssr_disable s)"

section \<open>Reference blocks\<close>

text \<open>
  The matrices as arrays of vectors: \<open>lda\<close> and \<open>ldb\<close> are the distances of rows in 64-bit words.
  A column accumulates one vector operation per word of the inner dimension.
\<close>

definition vdot :: "fpu \<Rightarrow> fop \<Rightarrow> nat \<Rightarrow> u32 \<Rightarrow> u32 \<Rightarrow> u32 \<Rightarrow> u32 \<Rightarrow> nat \<Rightarrow> nat \<Rightarrow> mem \<Rightarrow> u64 \<Rightarrow> u64" where
  "vdot fpu op K A lda B ldb m n mem = accumulate (\<lambda>x y c. fpu op [y, x, c])
     (\<lambda>k. load64 mem (gemm_a A lda (m, n) k)) (\<lambda>k. load64 mem (gemm_b B ldb 1 (m, n) k)) K"

definition zero2 :: "fpu \<Rightarrow> u64" where
  "zero2 fpu = fpu vfcpka_s_s [nan_box 0, nan_box 0]"

definition pack_start :: "fpu \<Rightarrow> u32 \<Rightarrow> u32 \<Rightarrow> mem \<Rightarrow> nat \<Rightarrow> u64" where
  "pack_start fpu alpha C mem i =
     (if alpha \<noteq> 0 then fpu vfcpka_s_s [nan_box (load32 mem (C + 4 * of_nat i)), nan_box 0] else zero2 fpu)"

definition gemm_fp32_ref :: "fpu \<Rightarrow> nat \<Rightarrow> u32 \<Rightarrow> u32 \<Rightarrow> u32 \<Rightarrow> u32 \<Rightarrow> u32 \<Rightarrow> u32 \<Rightarrow> u32 \<Rightarrow> nat \<Rightarrow> nat \<Rightarrow> mem \<Rightarrow> mem" where
  "gemm_fp32_ref fpu K A lda B ldb C ldC ALPHA m j mem = (
    let C' = C + 4 * (of_nat m * ldC + of_nat (8 * j));
        first = (\<lambda>i. fpu vfmul_s [load64 mem (gemm_b B ldb 1 (m, 8 * j + i) 0), load64 mem (gemm_a A lda (m, 8 * j + i) 0)]);
        dot = (\<lambda>i. accumulate (\<lambda>x y c. fpu vfmac_s [y, x, c]) (\<lambda>k. load64 mem (gemm_a A lda (m, 8 * j + i) (Suc k)))
          (\<lambda>k. load64 mem (gemm_b B ldb 1 (m, 8 * j + i) (Suc k))) (K - 1) (first i));
        r = (\<lambda>i. fpu vfsum_s [dot i, pack_start fpu (load32 mem ALPHA) C' mem i])
    in stores (map (\<lambda>i. (C' + 8 * of_nat i, fpu vfcpka_s_s [r (2 * i), r (2 * i + 1)])) [0..<4]) mem)"

definition gemm_fp16_ref :: "fpu \<Rightarrow> nat \<Rightarrow> u32 \<Rightarrow> u32 \<Rightarrow> u32 \<Rightarrow> u32 \<Rightarrow> u32 \<Rightarrow> u32 \<Rightarrow> u32 \<Rightarrow> nat \<Rightarrow> nat \<Rightarrow> mem \<Rightarrow> mem" where
  "gemm_fp16_ref fpu K A lda B ldb C ldC ALPHA m j mem = (
    let C' = C + 2 * (of_nat m * ldC + of_nat (8 * j));
        dot = (\<lambda>i. vdot fpu vfmac_h K A lda B ldb m (8 * j + i) mem (pack_start fpu (load32 mem ALPHA) C' mem i));
        r = (\<lambda>i. fpu vfsum_s [fpu vfsumex_s_h [dot i, zero2 fpu], zero2 fpu])
    in stores [(C', fpu vfcpkb_h_s [r 2, r 3, fpu vfcpka_h_s [r 0, r 1, r 0]]),
               (C' + 8, fpu vfcpkb_h_s [r 6, r 7, fpu vfcpka_h_s [r 4, r 5, r 1]])] mem)"

definition gemm_fp16_ex_ref :: "fpu \<Rightarrow> nat \<Rightarrow> u32 \<Rightarrow> u32 \<Rightarrow> u32 \<Rightarrow> u32 \<Rightarrow> u32 \<Rightarrow> u32 \<Rightarrow> u32 \<Rightarrow> nat \<Rightarrow> nat \<Rightarrow> mem \<Rightarrow> mem" where
  "gemm_fp16_ex_ref fpu K A lda B ldb C ldC ALPHA m j mem = (
    let C' = C + 2 * (of_nat m * ldC + of_nat (8 * j));
        dot = (\<lambda>i. vdot fpu vfdotpex_s_h K A lda B ldb m (8 * j + i) mem (pack_start fpu (load32 mem ALPHA) C' mem i));
        r = (\<lambda>i. fpu vfsum_s [dot i, zero2 fpu])
    in stores [(C', fpu vfcpkb_h_s [r 2, r 3, fpu vfcpka_h_s [r 0, r 1, dot 0]]),
               (C' + 8, fpu vfcpkb_h_s [r 6, r 7, fpu vfcpka_h_s [r 4, r 5, dot 1]])] mem)"

definition gemm_fp8_ref :: "fpu \<Rightarrow> nat \<Rightarrow> u32 \<Rightarrow> u32 \<Rightarrow> u32 \<Rightarrow> u32 \<Rightarrow> u32 \<Rightarrow> u32 \<Rightarrow> nat \<Rightarrow> nat \<Rightarrow> mem \<Rightarrow> mem" where
  "gemm_fp8_ref fpu K A lda B ldb C ldC m j mem = (
    let dot = (\<lambda>i. vdot fpu vfdotpex_h_b K A lda B ldb m (8 * j + i) mem (zero2 fpu));
        r = (\<lambda>i. fpu vfsumex_s_h [dot i, zero2 fpu])
    in store64 mem (C + (of_nat m * ldC + of_nat (8 * j)))
         (fpu vfcpkd_b_s [r 6, r 7, fpu vfcpkc_b_s [r 4, r 5, fpu vfcpkb_b_s [r 2, r 3, fpu vfcpka_b_s [r 0, r 1, dot 0]]]]))"

section \<open>The assembly blocks compute the reference\<close>

lemma run_row: "run_asm fpu (row g @ rest) s = run_asm fpu rest (run_fis fpu (map g [0..<8]) s)"
  unfolding row_def by (rule run_asm_append)

lemma fop_row_acc:
  assumes "\<And>i r. i < 8 \<Longrightarrow> r \<in> set (src i) \<Longrightarrow> 3 \<le> r \<and> (r < 10 \<or> 10 + i \<le> r)"
  shows "run_fis fpu (map (\<lambda>i. FOp op (acc i) (src i)) [0..<8]) s = set_regs 10 8 (\<lambda>i. fpu op (map (fregs s) (src i))) s"
  unfolding acc_def by (rule fop_row) (use assms in simp_all)

lemma fop_row_red:
  assumes "\<And>i r. i < 8 \<Longrightarrow> r \<in> set (src i) \<Longrightarrow> 3 \<le> r \<and> (r < 20 \<or> 20 + i \<le> r)"
  shows "run_fis fpu (map (\<lambda>i. FOp op (red i) (src i)) [0..<8]) s = set_regs 20 8 (\<lambda>i. fpu op (map (fregs s) (src i))) s"
  unfolding red_def by (rule fop_row) (use assms in simp_all)

lemma flw_row_acc: "run_fis fpu (map (\<lambda>i. Flw (acc i) (a i)) [0..<8]) s = set_regs 10 8 (\<lambda>i. nan_box (load32 (cmem s) (a i))) s"
  unfolding acc_def by (rule flw_row) simp

lemma flw_row_red: "run_fis fpu (map (\<lambda>i. Flw (red i) (a i)) [0..<8]) s = set_regs 20 8 (\<lambda>i. nan_box (load32 (cmem s) (a i))) s"
  unfolding red_def by (rule flw_row) simp

text \<open>Registers after each kind of row.\<close>

lemma regs_after [simp]:
  "i < 8 \<Longrightarrow> fregs (set_regs 10 8 v s) (acc i) = v i" "i < 8 \<Longrightarrow> fregs (set_regs 20 8 v s) (red i) = v i"
  "i < 8 \<Longrightarrow> fregs (set_regs 20 8 v s) (acc i) = fregs s (acc i)" "fregs (set_regs 10 8 v s) (red i) = fregs s (red i)"
  "fregs (set_regs 10 8 v s) zero_reg = fregs s zero_reg" "fregs (set_regs 20 8 v s) zero_reg = fregs s zero_reg"
  "fregs (rounds f a b p 8 n s) (red i) = fregs s (red i)" "fregs (rounds f a b p 8 n s) zero_reg = fregs s zero_reg"
  by (simp_all add: fregs_set_regs acc_def red_def zero_reg_def rounds_def)

lemma exec_pack:
  assumes "list_all (\<lambda>r. 3 \<le> r) srcs"
  shows "exec_fi fpu (FOp op (acc i) srcs) s = s\<lparr> fregs := (fregs s)(acc i := fpu op (map (fregs s) srcs)) \<rparr>"
  using assms by (intro exec_fop_plain) (simp_all add: acc_def list_all_iff)

lemma reg_eq: "acc i = acc j \<longleftrightarrow> i = j" "red i = acc j \<longleftrightarrow> j = i + 10" "acc j = red i \<longleftrightarrow> j = i + 10"
  by (auto simp: acc_def red_def)

lemma vfrep:
  assumes "streaming a b p s" "unat n < 2 ^ 16"
  shows "run_asm fpu (Frep n 8 # row (\<lambda>i. FOp op (acc i) [1, 0, acc i]) @ rest) s
    = run_asm fpu rest (rounds (\<lambda>x y c. fpu op [y, x, c]) a b p 8 (Suc (unat n)) s)"
  unfolding row_def by (rule run_asm_frep [OF serves_instr(2) assms])

lemma set_regs_again: "set_regs B u v (set_regs B u w s) = set_regs B u v s"
  by (simp add: set_regs_def fun_eq_iff)

lemma set_regs_cong:
  assumes "\<And>i. i < u \<Longrightarrow> v i = w i"
  shows "set_regs B u v s = set_regs B u w s"
proof -
  have "(\<lambda>r. if B \<le> r \<and> r < B + u then v (r - B) else fregs s r) = (\<lambda>r. if B \<le> r \<and> r < B + u then w (r - B) else fregs s r)"
    using assms by (auto simp: fun_eq_iff)
  then show ?thesis by (simp only: set_regs_def)
qed

lemma plain_regs: "3 \<le> acc i" "3 \<le> red i" "3 \<le> zero_reg"
  by (simp_all add: acc_def red_def zero_reg_def)

lemma zero_row_acc:
  "fregs s zero_reg = nan_box 0 \<Longrightarrow>
    run_fis fpu (map (\<lambda>i. FOp vfcpka_s_s (acc i) [zero_reg, zero_reg]) [0..<8]) s = set_regs 10 8 (\<lambda>_. zero2 fpu) s"
  by (subst fop_row_acc) (simp_all add: zero2_def, simp_all add: zero_reg_def)

lemma zero_row_red:
  "fregs s zero_reg = nan_box 0 \<Longrightarrow>
    run_fis fpu (map (\<lambda>i. FOp vfcpka_s_s (red i) [zero_reg, zero_reg]) [0..<8]) s = set_regs 20 8 (\<lambda>_. zero2 fpu) s"
  by (subst fop_row_red) (simp_all add: zero2_def, simp_all add: zero_reg_def)

lemma reduce_row_red:
  "run_fis fpu (map (\<lambda>i. FOp op (red i) [acc i, red i]) [0..<8]) s = set_regs 20 8 (\<lambda>i. fpu op [fregs s (acc i), fregs s (red i)]) s"
  by (subst fop_row_red) (auto simp: acc_def red_def)

lemma reduce_row_acc:
  "run_fis fpu (map (\<lambda>i. FOp op (acc i) [red i, acc i]) [0..<8]) s = set_regs 10 8 (\<lambda>i. fpu op [fregs s (red i), fregs s (acc i)]) s"
  by (subst fop_row_acc) (auto simp: acc_def red_def)

lemma pack_row_acc:
  assumes "fregs s zero_reg = nan_box 0"
  shows "run_fis fpu (map (\<lambda>i. FOp vfcpka_s_s (acc i) [acc i, zero_reg]) [0..<8]) (set_regs 10 8 v s)
    = set_regs 10 8 (\<lambda>i. fpu vfcpka_s_s [v i, nan_box 0]) s"
proof -
  have "run_fis fpu (map (\<lambda>i. FOp vfcpka_s_s (acc i) [acc i, zero_reg]) [0..<8]) (set_regs 10 8 v s)
      = set_regs 10 8 (\<lambda>i. fpu vfcpka_s_s (map (fregs (set_regs 10 8 v s)) [acc i, zero_reg])) (set_regs 10 8 v s)"
    by (rule fop_row_acc) (auto simp: acc_def zero_reg_def)
  also have "\<dots> = set_regs 10 8 (\<lambda>i. fpu vfcpka_s_s [v i, nan_box 0]) s"
    unfolding set_regs_again by (rule set_regs_cong) (simp add: assms)
  finally show ?thesis .
qed

lemma pack_row_red:
  assumes "fregs s zero_reg = nan_box 0"
  shows "run_fis fpu (map (\<lambda>i. FOp vfcpka_s_s (red i) [red i, zero_reg]) [0..<8]) (set_regs 20 8 v s)
    = set_regs 20 8 (\<lambda>i. fpu vfcpka_s_s [v i, nan_box 0]) s"
proof -
  have "run_fis fpu (map (\<lambda>i. FOp vfcpka_s_s (red i) [red i, zero_reg]) [0..<8]) (set_regs 20 8 v s)
      = set_regs 20 8 (\<lambda>i. fpu vfcpka_s_s (map (fregs (set_regs 20 8 v s)) [red i, zero_reg])) (set_regs 20 8 v s)"
    by (rule fop_row_red) (auto simp: red_def zero_reg_def)
  also have "\<dots> = set_regs 20 8 (\<lambda>i. fpu vfcpka_s_s [v i, nan_box 0]) s"
    unfolding set_regs_again by (rule set_regs_cong) (simp add: assms)
  finally show ?thesis .
qed

lemma fp16_init:
  assumes "fregs s zero_reg = nan_box 0"
  shows "run_asm fpu (gemm_fp16_init alpha C @ rest) s = run_asm fpu rest (set_regs 10 8 (pack_start fpu alpha C (cmem s)) s)"
proof (cases "alpha = 0")
  case True
  then show ?thesis by (simp only: gemm_fp16_init_def run_row zero_row_acc assms pack_start_def [abs_def] if_False simp_thms)
next
  case False
  then show ?thesis
    by (simp only: gemm_fp16_init_def append.assoc run_row flw_row_acc pack_row_acc assms pack_start_def [abs_def] if_True simp_thms)
qed

text \<open>A vector column as the streams deliver it.\<close>

lemma rounds_vdot:
  assumes "\<And>i k. i < 8 \<Longrightarrow> k < K \<Longrightarrow> lane_addr a (p + 8 * k + i) = gemm_a A lda (m, n + i) k"
    and "\<And>i k. i < 8 \<Longrightarrow> k < K \<Longrightarrow> lane_addr b (p + 8 * k + i) = gemm_b B ldb 1 (m, n + i) k" and "i < 8"
  shows "fregs (rounds (\<lambda>x y c. fpu op [y, x, c]) a b p 8 K s) (acc i) = vdot fpu op K A lda B ldb m (n + i) (cmem s) (fregs s (acc i))"
  unfolding fregs_rounds [OF assms(3)] vdot_def by (rule accumulate_cong) (simp_all add: elem0_def assms)

lemma fp16_ex_asm_spec:
  assumes s: "streaming a b p s" and z: "fregs s zero_reg = nan_box 0" and K: "unat n_frep < 2 ^ 16" "K = Suc (unat n_frep)"
    and x: "\<And>i k. i < 8 \<Longrightarrow> k < K \<Longrightarrow> lane_addr a (p + 8 * k + i) = gemm_a A lda (m, n + i) k"
    and y: "\<And>i k. i < 8 \<Longrightarrow> k < K \<Longrightarrow> lane_addr b (p + 8 * k + i) = gemm_b B ldb 1 (m, n + i) k"
    and v: "dot = (\<lambda>i. vdot fpu vfdotpex_s_h K A lda B ldb m (n + i) (cmem s) (pack_start fpu alpha C (cmem s) i))"
      "r = (\<lambda>i. fpu vfsum_s [dot i, zero2 fpu])"
    and t: "t = run_asm fpu (gemm_fp16_ex_asm alpha C n_frep) s"
  shows "streaming a b (p + 8 * K) t \<and> cmem t = cmem s
    \<and> fregs t (acc 0) = fpu vfcpkb_h_s [r 2, r 3, fpu vfcpka_h_s [r 0, r 1, dot 0]]
    \<and> fregs t (acc 1) = fpu vfcpkb_h_s [r 6, r 7, fpu vfcpka_h_s [r 4, r 5, dot 1]]"
proof -
  let ?u = "set_regs 10 8 (pack_start fpu alpha C (cmem s)) s"
  let ?w = "rounds (\<lambda>x y c. fpu vfdotpex_s_h [y, x, c]) a b p 8 K ?u"
  have u: "streaming a b p ?u" using s by simp
  have w: "streaming a b (p + 8 * K) ?w" by (rule rounds_streaming [OF u])
  have zw: "fregs ?w zero_reg = nan_box 0" using z by simp
  have sw: "fregs ?w (acc i) = dot i" if "i < 8" for i
    using rounds_vdot [OF x y that, where s = ?u and op = vfdotpex_s_h and fpu = fpu] that unfolding v(1) by simp
  define h where "h = set_regs 20 8 r ?w"
  have "t = run_asm fpu (map I [FOp vfcpka_h_s (acc 0) [red 0, red 1, acc 0], FOp vfcpkb_h_s (acc 0) [red 2, red 3, acc 0],
        FOp vfcpka_h_s (acc 1) [red 4, red 5, acc 1], FOp vfcpkb_h_s (acc 1) [red 6, red 7, acc 1]])
      (run_fis fpu (map (\<lambda>i. FOp vfsum_s (red i) [acc i, red i]) [0..<8]) (set_regs 20 8 (\<lambda>_. zero2 fpu) ?w))"
    unfolding t gemm_fp16_ex_asm_def fp16_init [OF z] append_Cons vfrep [OF u K(1)] run_row K(2) [symmetric] zero_row_red [OF zw] ..
  also have "run_fis fpu (map (\<lambda>i. FOp vfsum_s (red i) [acc i, red i]) [0..<8]) (set_regs 20 8 (\<lambda>_. zero2 fpu) ?w) = h"
    unfolding reduce_row_red set_regs_again h_def by (rule set_regs_cong) (simp add: sw v(2))
  finally have t': "t = run_asm fpu (map I [FOp vfcpka_h_s (acc 0) [red 0, red 1, acc 0], FOp vfcpkb_h_s (acc 0) [red 2, red 3, acc 0],
        FOp vfcpka_h_s (acc 1) [red 4, red 5, acc 1], FOp vfcpkb_h_s (acc 1) [red 6, red 7, acc 1]]) h" .
  have h: "fregs h (red i) = r i" "fregs h (acc i) = dot i" if "i < 8" for i using that sw by (simp_all add: h_def)
  show ?thesis
    using w h unfolding t'
    by (simp add: exec_pack plain_regs reg_eq streaming_def h_def del: exec_fi.simps)
qed

lemma fp16_asm_spec:
  assumes s: "streaming a b p s" and z: "fregs s zero_reg = nan_box 0" and K: "unat n_frep < 2 ^ 16" "K = Suc (unat n_frep)"
    and x: "\<And>i k. i < 8 \<Longrightarrow> k < K \<Longrightarrow> lane_addr a (p + 8 * k + i) = gemm_a A lda (m, n + i) k"
    and y: "\<And>i k. i < 8 \<Longrightarrow> k < K \<Longrightarrow> lane_addr b (p + 8 * k + i) = gemm_b B ldb 1 (m, n + i) k"
    and v: "dot = (\<lambda>i. vdot fpu vfmac_h K A lda B ldb m (n + i) (cmem s) (pack_start fpu alpha C (cmem s) i))"
      "r = (\<lambda>i. fpu vfsum_s [fpu vfsumex_s_h [dot i, zero2 fpu], zero2 fpu])"
    and t: "t = run_asm fpu (gemm_fp16_asm alpha C n_frep) s"
  shows "streaming a b (p + 8 * K) t \<and> cmem t = cmem s
    \<and> fregs t (acc 0) = fpu vfcpkb_h_s [r 2, r 3, fpu vfcpka_h_s [r 0, r 1, r 0]]
    \<and> fregs t (acc 1) = fpu vfcpkb_h_s [r 6, r 7, fpu vfcpka_h_s [r 4, r 5, r 1]]"
proof -
  let ?u = "set_regs 10 8 (pack_start fpu alpha C (cmem s)) s"
  let ?w = "rounds (\<lambda>x y c. fpu vfmac_h [y, x, c]) a b p 8 K ?u"
  have u: "streaming a b p ?u" using s by simp
  have w: "streaming a b (p + 8 * K) ?w" by (rule rounds_streaming [OF u])
  have zw: "fregs ?w zero_reg = nan_box 0" using z by simp
  have sw: "fregs ?w (acc i) = dot i" if "i < 8" for i
    using rounds_vdot [OF x y that, where s = ?u and op = vfmac_h and fpu = fpu] that unfolding v(1) by simp
  define g where "g = set_regs 20 8 (\<lambda>i. fpu vfsumex_s_h [dot i, zero2 fpu]) ?w"
  have g: "fregs g (red i) = fpu vfsumex_s_h [dot i, zero2 fpu]" if "i < 8" for i using that by (simp add: g_def)
  have zg: "fregs g zero_reg = nan_box 0" using zw by (simp add: g_def)
  have r1: "run_fis fpu (map (\<lambda>i. FOp vfsumex_s_h (red i) [acc i, red i]) [0..<8]) (set_regs 20 8 (\<lambda>_. zero2 fpu) ?w) = g"
    unfolding reduce_row_red set_regs_again g_def by (rule set_regs_cong) (simp add: sw)
  define h where "h = set_regs 10 8 r g"
  have r2: "run_fis fpu (map (\<lambda>i. FOp vfsum_s (acc i) [red i, acc i]) [0..<8]) (set_regs 10 8 (\<lambda>_. zero2 fpu) g) = h"
    unfolding reduce_row_acc set_regs_again h_def by (rule set_regs_cong) (simp add: g v(2))
  have t': "t = run_asm fpu (map I [FOp vfcpka_h_s (acc 0) [acc 0, acc 1, acc 0], FOp vfcpkb_h_s (acc 0) [acc 2, acc 3, acc 0],
        FOp vfcpka_h_s (acc 1) [acc 4, acc 5, acc 1], FOp vfcpkb_h_s (acc 1) [acc 6, acc 7, acc 1]]) h"
    unfolding t gemm_fp16_asm_def fp16_init [OF z] append_Cons vfrep [OF u K(1)] run_row K(2) [symmetric] zero_row_red [OF zw]
      r1 zero_row_acc [OF zg] r2 ..
  have h: "fregs h (acc i) = r i" if "i < 8" for i using that by (simp add: h_def)
  show ?thesis
    using w h unfolding t'
    by (simp add: exec_pack plain_regs reg_eq streaming_def h_def g_def del: exec_fi.simps)
qed

lemma fp8_asm_spec:
  assumes s: "streaming a b p s" and z: "fregs s zero_reg = nan_box 0" and K: "unat n_frep < 2 ^ 16" "K = Suc (unat n_frep)"
    and x: "\<And>i k. i < 8 \<Longrightarrow> k < K \<Longrightarrow> lane_addr a (p + 8 * k + i) = gemm_a A lda (m, n + i) k"
    and y: "\<And>i k. i < 8 \<Longrightarrow> k < K \<Longrightarrow> lane_addr b (p + 8 * k + i) = gemm_b B ldb 1 (m, n + i) k"
    and v: "dot = (\<lambda>i. vdot fpu vfdotpex_h_b K A lda B ldb m (n + i) (cmem s) (zero2 fpu))"
      "r = (\<lambda>i. fpu vfsumex_s_h [dot i, zero2 fpu])"
    and t: "t = run_asm fpu (gemm_fp8_ex_asm n_frep) s"
  shows "streaming a b (p + 8 * K) t \<and> cmem t = cmem s
    \<and> fregs t (acc 0) = fpu vfcpkd_b_s [r 6, r 7, fpu vfcpkc_b_s [r 4, r 5, fpu vfcpkb_b_s [r 2, r 3, fpu vfcpka_b_s [r 0, r 1, dot 0]]]]"
proof -
  let ?u = "set_regs 10 8 (\<lambda>_. zero2 fpu) s"
  let ?w = "rounds (\<lambda>x y c. fpu vfdotpex_h_b [y, x, c]) a b p 8 K ?u"
  have u: "streaming a b p ?u" using s by simp
  have w: "streaming a b (p + 8 * K) ?w" by (rule rounds_streaming [OF u])
  have zw: "fregs ?w zero_reg = nan_box 0" using z by simp
  have sw: "fregs ?w (acc i) = dot i" if "i < 8" for i
    using rounds_vdot [OF x y that, where s = ?u and op = vfdotpex_h_b and fpu = fpu] that unfolding v(1) by simp
  define h where "h = set_regs 20 8 r ?w"
  have r1: "run_fis fpu (map (\<lambda>i. FOp vfsumex_s_h (red i) [acc i, red i]) [0..<8]) (set_regs 20 8 (\<lambda>_. zero2 fpu) ?w) = h"
    unfolding reduce_row_red set_regs_again h_def by (rule set_regs_cong) (simp add: sw v(2))
  have t': "t = run_asm fpu (map I [FOp vfcpka_b_s (acc 0) [red 0, red 1, acc 0], FOp vfcpkb_b_s (acc 0) [red 2, red 3, acc 0],
        FOp vfcpkc_b_s (acc 0) [red 4, red 5, acc 0], FOp vfcpkd_b_s (acc 0) [red 6, red 7, acc 0]]) h"
    unfolding t gemm_fp8_ex_asm_def run_row zero_row_acc [OF z] append_Cons vfrep [OF u K(1)] K(2) [symmetric] zero_row_red [OF zw] r1 ..
  have h: "fregs h (red i) = r i" "fregs h (acc i) = dot i" if "i < 8" for i using that sw by (simp_all add: h_def)
  show ?thesis
    using w h unfolding t'
    by (simp add: exec_pack plain_regs reg_eq streaming_def h_def del: exec_fi.simps)
qed

text \<open>The single precision block multiplies once before it accumulates.\<close>

lemma fp32_init:
  assumes "fregs s zero_reg = nan_box 0"
  shows "run_asm fpu ((if alpha \<noteq> 0
     then row (\<lambda>i. Flw (red i) (C + 4 * of_nat i)) @ row (\<lambda>i. FOp vfcpka_s_s (red i) [red i, zero_reg])
     else row (\<lambda>i. FOp vfcpka_s_s (red i) [zero_reg, zero_reg])) @ rest) s
    = run_asm fpu rest (set_regs 20 8 (pack_start fpu alpha C (cmem s)) s)"
proof (cases "alpha = 0")
  case True
  then show ?thesis by (simp only: run_row zero_row_red assms pack_start_def [abs_def] if_False simp_thms)
next
  case False
  then show ?thesis
    by (simp only: append.assoc run_row flw_row_red pack_row_red assms pack_start_def [abs_def] if_True simp_thms)
qed

lemma mul_row:
  assumes "streaming a b p s"
  shows "run_fis fpu (map (\<lambda>i. FOp vfmul_s (acc i) [1, 0]) [0..<8]) s = rounds (\<lambda>x y c. fpu vfmul_s [y, x]) a b p 8 1 s"
  using frep_rounds [OF serves_instr(3) [of fpu vfmul_s] assms, where u = 8 and n = 1] by simp

lemma fp32_asm_spec:
  assumes s: "streaming a b p s" and z: "fregs s zero_reg = nan_box 0" and K: "unat n_frep < 2 ^ 16" "K = Suc (Suc (unat n_frep))"
    and x: "\<And>i k. i < 8 \<Longrightarrow> k < K \<Longrightarrow> lane_addr a (p + 8 * k + i) = gemm_a A lda (m, n + i) k"
    and y: "\<And>i k. i < 8 \<Longrightarrow> k < K \<Longrightarrow> lane_addr b (p + 8 * k + i) = gemm_b B ldb 1 (m, n + i) k"
    and v: "dot = (\<lambda>i. accumulate (\<lambda>x y c. fpu vfmac_s [y, x, c]) (\<lambda>k. load64 (cmem s) (gemm_a A lda (m, n + i) (Suc k)))
          (\<lambda>k. load64 (cmem s) (gemm_b B ldb 1 (m, n + i) (Suc k))) (K - 1)
          (fpu vfmul_s [load64 (cmem s) (gemm_b B ldb 1 (m, n + i) 0), load64 (cmem s) (gemm_a A lda (m, n + i) 0)]))"
      "r = (\<lambda>i. fpu vfsum_s [dot i, pack_start fpu alpha C (cmem s) i])"
    and t: "t = run_asm fpu (gemm_fp32_asm alpha C n_frep) s"
  shows "streaming a b (p + 8 * K) t \<and> cmem t = cmem s
    \<and> (\<forall>i<4. fregs t (acc i) = fpu vfcpka_s_s [r (2 * i), r (2 * i + 1)])"
proof -
  let ?u = "set_regs 20 8 (pack_start fpu alpha C (cmem s)) s"
  let ?q = "rounds (\<lambda>x y c. fpu vfmul_s [y, x]) a b p 8 1 ?u"
  let ?w = "rounds (\<lambda>x y c. fpu vfmac_s [y, x, c]) a b (p + 8) 8 (K - 1) ?q"
  have u: "streaming a b p ?u" using s by simp
  have q: "streaming a b (p + 8) ?q" using rounds_streaming [OF u, of 8 1] by simp
  have w: "streaming a b (p + 8 * K) ?w" using rounds_streaming [OF q, of 8 "K - 1"] K(2) by (simp add: add.assoc)
  have K1: "Suc (unat n_frep) = K - 1" using K(2) by simp
  have sq: "fregs ?q (acc i) = fpu vfmul_s [load64 (cmem s) (gemm_b B ldb 1 (m, n + i) 0), load64 (cmem s) (gemm_a A lda (m, n + i) 0)]"
    if "i < 8" for i
    using x [OF that, of 0] y [OF that, of 0] K(2) by (simp add: fregs_rounds that elem0_def)
  have sw: "fregs ?w (acc i) = dot i" if "i < 8" for i
  proof -
    have "accumulate (\<lambda>x y c. fpu vfmac_s [y, x, c]) (\<lambda>k. elem0 a (cmem ?q) (p + 8 + 8 * k + i)) (\<lambda>k. elem0 b (cmem ?q) (p + 8 + 8 * k + i))
        (K - 1) (fregs ?q (acc i)) = dot i"
      unfolding v(1) sq [OF that]
    proof (rule accumulate_cong)
      fix k
      assume "k < K - 1"
      then have "Suc k < K" by simp
      from x [OF that this] y [OF that this]
      show "elem0 a (cmem ?q) (p + 8 + 8 * k + i) = load64 (cmem s) (gemm_a A lda (m, n + i) (Suc k))"
        "elem0 b (cmem ?q) (p + 8 + 8 * k + i) = load64 (cmem s) (gemm_b B ldb 1 (m, n + i) (Suc k))"
        by (simp_all add: elem0_def add.assoc)
    qed simp
    then show ?thesis by (simp only: fregs_rounds [OF that, of _ a b "p + 8" "K - 1" ?q])
  qed
  define h where "h = set_regs 20 8 r ?w"
  have r1: "run_fis fpu (map (\<lambda>i. FOp vfsum_s (red i) [acc i, red i]) [0..<8]) ?w = h"
    unfolding reduce_row_red h_def using sw by (intro set_regs_cong) (simp add: v(2))
  have t': "t = run_asm fpu (map I [FOp vfcpka_s_s (acc 0) [red 0, red 1], FOp vfcpka_s_s (acc 1) [red 2, red 3],
        FOp vfcpka_s_s (acc 2) [red 4, red 5], FOp vfcpka_s_s (acc 3) [red 6, red 7]]) h"
    unfolding t gemm_fp32_asm_def append.assoc fp32_init [OF z] append_Cons mul_row [OF u] vfrep [OF q K(1)] run_row K1 r1 ..
  have h: "fregs h (red i) = r i" if "i < 8" for i using that by (simp add: h_def)
  show ?thesis
    using w h unfolding t' all_less_4
    by (simp add: exec_pack plain_regs reg_eq streaming_def h_def del: exec_fi.simps)
qed

section \<open>Blocks\<close>

lemma delivers_block:
  assumes "delivers a x M N8 K" "m < M" "j < N8" "i < 8" "k < K"
  shows "lane_addr a (8 * (K * (j + N8 * m)) + 8 * k + i) = x (m, 8 * j + i) k"
  using assms by (simp add: delivers_def)

lemma next_block: "8 * (K * (Suc j + N8 * m)) = 8 * (K * (j + N8 * m)) + 8 * (K :: nat)"
  by (simp add: algebra_simps)

lemma clear_zero [simp]:
  "streaming a b p (set_fr zero_reg v s) = streaming a b p s" "cmem (set_fr zero_reg v s) = cmem s" "fregs (set_fr zero_reg v s) zero_reg = v"
  by (simp_all add: streaming_def set_fr_def)

lemma streaming_put64 [simp]: "streaming a b p (put64 c v s) = streaming a b p s"
  by (simp add: streaming_def put64_def)

lemma with_cmem: "cmem (s\<lparr> cmem := m \<rparr>) = m" "streaming a b p (s\<lparr> cmem := m \<rparr>) = streaming a b p s"
  by (simp_all add: streaming_def)

lemma fp16_ex_block_step:
  assumes K: "unat n_frep < 2 ^ 16" "K = Suc (unat n_frep)"
    and d: "delivers a (gemm_a A lda) M N8 K" "delivers b (gemm_b B ldb 1) M N8 K"
  shows "block_step a b K M N8 (\<lambda>m j. gemm_fp16_block gemm_fp16_ex_asm fpu n_frep C ldC ALPHA (of_nat m) (of_nat (8 * j)))
    (gemm_fp16_ex_ref fpu K A lda B ldb C ldC ALPHA)"
  unfolding block_step_def
proof (intro allI impI)
  fix m j s
  assume mj: "m < M" "j < N8" and s: "streaming a b (8 * (K * (j + N8 * m))) s"
  let ?s = "set_fr zero_reg (nan_box 0) s" and ?C = "C + 2 * (of_nat m * ldC + of_nat (8 * j))"
  let ?t = "run_asm fpu (gemm_fp16_ex_asm (load32 (cmem ?s) ALPHA) ?C n_frep) ?s"
  have s': "streaming a b (8 * (K * (j + N8 * m))) ?s" "fregs ?s zero_reg = nan_box 0" using s by simp_all
  note spec = fp16_ex_asm_spec [OF s' K delivers_block [OF d(1) mj] delivers_block [OF d(2) mj] refl refl refl]
  show "streaming a b (8 * (K * (Suc j + N8 * m))) (gemm_fp16_block gemm_fp16_ex_asm fpu n_frep C ldC ALPHA (of_nat m) (of_nat (8 * j)) s)
      \<and> cmem (gemm_fp16_block gemm_fp16_ex_asm fpu n_frep C ldC ALPHA (of_nat m) (of_nat (8 * j)) s)
        = gemm_fp16_ex_ref fpu K A lda B ldb C ldC ALPHA m j (cmem s)"
    unfolding next_block gemm_fp16_block_def gemm_fp16_ex_ref_def Let_def
    using spec [of fpu "load32 (cmem s) ALPHA" ?C] by (simp add: upt_conv_Cons put64_def streaming_def)
qed

lemma fp16_block_step:
  assumes K: "unat n_frep < 2 ^ 16" "K = Suc (unat n_frep)"
    and d: "delivers a (gemm_a A lda) M N8 K" "delivers b (gemm_b B ldb 1) M N8 K"
  shows "block_step a b K M N8 (\<lambda>m j. gemm_fp16_block gemm_fp16_asm fpu n_frep C ldC ALPHA (of_nat m) (of_nat (8 * j)))
    (gemm_fp16_ref fpu K A lda B ldb C ldC ALPHA)"
  unfolding block_step_def
proof (intro allI impI)
  fix m j s
  assume mj: "m < M" "j < N8" and s: "streaming a b (8 * (K * (j + N8 * m))) s"
  let ?s = "set_fr zero_reg (nan_box 0) s" and ?C = "C + 2 * (of_nat m * ldC + of_nat (8 * j))"
  have s': "streaming a b (8 * (K * (j + N8 * m))) ?s" "fregs ?s zero_reg = nan_box 0" using s by simp_all
  note spec = fp16_asm_spec [OF s' K delivers_block [OF d(1) mj] delivers_block [OF d(2) mj] refl refl refl]
  show "streaming a b (8 * (K * (Suc j + N8 * m))) (gemm_fp16_block gemm_fp16_asm fpu n_frep C ldC ALPHA (of_nat m) (of_nat (8 * j)) s)
      \<and> cmem (gemm_fp16_block gemm_fp16_asm fpu n_frep C ldC ALPHA (of_nat m) (of_nat (8 * j)) s)
        = gemm_fp16_ref fpu K A lda B ldb C ldC ALPHA m j (cmem s)"
    unfolding next_block gemm_fp16_block_def gemm_fp16_ref_def Let_def
    using spec [of fpu "load32 (cmem s) ALPHA" ?C] by (simp add: upt_conv_Cons put64_def streaming_def)
qed

lemma fp8_block_step:
  assumes K: "unat n_frep < 2 ^ 16" "K = Suc (unat n_frep)"
    and d: "delivers a (gemm_a A lda) M N8 K" "delivers b (gemm_b B ldb 1) M N8 K"
  shows "block_step a b K M N8 (\<lambda>m j. gemm_fp8_block fpu n_frep C ldC (of_nat m) (of_nat (8 * j))) (gemm_fp8_ref fpu K A lda B ldb C ldC)"
  unfolding block_step_def
proof (intro allI impI)
  fix m j s
  assume mj: "m < M" "j < N8" and s: "streaming a b (8 * (K * (j + N8 * m))) s"
  let ?s = "set_fr zero_reg (nan_box 0) s"
  have s': "streaming a b (8 * (K * (j + N8 * m))) ?s" "fregs ?s zero_reg = nan_box 0" using s by simp_all
  note spec = fp8_asm_spec [OF s' K delivers_block [OF d(1) mj] delivers_block [OF d(2) mj] refl refl refl]
  show "streaming a b (8 * (K * (Suc j + N8 * m))) (gemm_fp8_block fpu n_frep C ldC (of_nat m) (of_nat (8 * j)) s)
      \<and> cmem (gemm_fp8_block fpu n_frep C ldC (of_nat m) (of_nat (8 * j)) s) = gemm_fp8_ref fpu K A lda B ldb C ldC m j (cmem s)"
    unfolding next_block gemm_fp8_block_def gemm_fp8_ref_def Let_def
    using spec [of fpu] by (simp add: put64_def streaming_def)
qed

lemma upt_4: "[0..<4] = [0, 1, 2, 3 :: nat]"
  by (simp add: upt_conv_Cons)

lemma fp32_block_step:
  assumes K: "unat n_frep < 2 ^ 16" "K = Suc (Suc (unat n_frep))" and N8: "16 * N8 < 2 ^ 32"
    and d: "delivers a (gemm_a A lda) M N8 K" "delivers b (gemm_b B ldb 1) M N8 K"
  shows "block_step a b K M N8 (\<lambda>m j. gemm_fp32_block fpu (n_frep + 1) C ldC ALPHA (of_nat m) (of_nat (16 * j)))
    (gemm_fp32_ref fpu K A lda B ldb C ldC ALPHA)"
  unfolding block_step_def
proof (intro allI impI)
  fix m j s
  assume mj: "m < M" "j < N8" and s: "streaming a b (8 * (K * (j + N8 * m))) s"
  let ?s = "set_fr zero_reg (nan_box 0) s" and ?C = "C + 4 * (of_nat m * ldC + of_nat (8 * j))"
  have s': "streaming a b (8 * (K * (j + N8 * m))) ?s" "fregs ?s zero_reg = nan_box 0" using s by simp_all
  have "unat (of_nat (16 * j) div 2 :: u32) = 8 * j" "unat (of_nat (8 * j) :: u32) = 8 * j"
    using mj N8 by (simp_all add: unat_div unat_of_nat_small del: of_nat_mult)
  then have h: "(of_nat (16 * j) div 2 :: u32) = of_nat (8 * j)" by (metis unsigned_word_eqI)
  let ?t = "run_asm fpu (gemm_fp32_asm (load32 (cmem ?s) ALPHA) ?C n_frep) ?s"
  note spec = fp32_asm_spec [OF s' K delivers_block [OF d(1) mj] delivers_block [OF d(2) mj] refl refl refl,
      of fpu "load32 (cmem ?s) ALPHA" ?C]
  have n: "n_frep + 1 - 1 = n_frep" by simp
  have m: "cmem ?t = cmem s" using spec by (simp only: clear_zero)
  have blk: "gemm_fp32_block fpu (n_frep + 1) C ldC ALPHA (of_nat m) (of_nat (16 * j)) s
      = ?t\<lparr> cmem := stores (map (\<lambda>i. (?C + 8 * of_nat i, fregs ?t (acc i))) [0..<4]) (cmem s) \<rparr>"
    unfolding gemm_fp32_block_def Let_def h n spill m ..
  have "cmem (gemm_fp32_block fpu (n_frep + 1) C ldC ALPHA (of_nat m) (of_nat (16 * j)) s)
      = gemm_fp32_ref fpu K A lda B ldb C ldC ALPHA m j (cmem s)"
    unfolding blk gemm_fp32_ref_def Let_def with_cmem
    by (intro arg_cong [where f = "\<lambda>xs. stores xs (cmem s)"] map_cong refl) (use spec in \<open>simp only: clear_zero set_upt atLeastLessThan_iff\<close>)
  moreover have "streaming a b (8 * (K * (Suc j + N8 * m))) (gemm_fp32_block fpu (n_frep + 1) C ldC ALPHA (of_nat m) (of_nat (16 * j)) s)"
    unfolding next_block blk using conjunct1 [OF spec] by (simp only: with_cmem)
  ultimately show "streaming a b (8 * (K * (Suc j + N8 * m))) (gemm_fp32_block fpu (n_frep + 1) C ldC ALPHA (of_nat m) (of_nat (16 * j)) s)
      \<and> cmem (gemm_fp32_block fpu (n_frep + 1) C ldC ALPHA (of_nat m) (of_nat (16 * j)) s)
        = gemm_fp32_ref fpu K A lda B ldb C ldC ALPHA m j (cmem s)" by blast
qed

section \<open>The kernels as a whole\<close>

text \<open>With vectors of eight bytes and rows of whole words the streams are those of a matrix of words.\<close>

lemma simd_setup:
  assumes "sz * e = 8" "sz * ldA = 8 * lda" "sz * ldB = 8 * ldb"
  shows "gemm_simd_setup hw sz e M N K ldA ldB l = gemm_fp64_setup hw M N (K div e) lda 0 ldb 1 l"
proof -
  have "sz * 8 * ldB = 8 * (sz * ldB)" by simp
  then have "sz * 8 * ldB = 8 * ldb * 8" unfolding assms(3) by simp
  then show ?thesis unfolding gemm_simd_setup_def gemm_fp64_setup_def assms Let_def by simp
qed

definition simd_ready :: "ssr_hw \<Rightarrow> u32 \<Rightarrow> u32 \<Rightarrow> u32 \<Rightarrow> u32 \<Rightarrow> u32 \<Rightarrow> u32 \<Rightarrow> ssrs \<Rightarrow> bool" where
  "simd_ready hw M N Kv lda ldb setup_SSR l \<longleftrightarrow> (if setup_SSR \<noteq> 0 then gemm_setup_ok hw M N Kv l
     else gemm_cfg (unat M) (unat N div 8) (unat Kv) lda ldb 1 l)"

lemma simd_kernel:
  assumes e: "sz * e = 8" "sz * ldA = 8 * lda" "sz * ldB = 8 * ldb"
    and c: "simd_ready hw M N (K div e) lda ldb setup_SSR (lanes s)"
    and step: "\<And>a b. delivers a (gemm_a A lda) (unat M) (unat N div 8) (unat (K div e)) \<Longrightarrow>
      delivers b (gemm_b B ldb 1) (unat M) (unat N div 8) (unat (K div e)) \<Longrightarrow>
      block_step a b (unat (K div e)) (unat M) (unat N div 8) blk ref"
    and t: "t = snrt_ssr_disable (fold (\<lambda>m. fold (blk m) [0..<unat N div 8]) [0..<unat M] (gemm_simd_start hw sz e M N K A ldA B ldB setup_SSR s))"
  shows "cmem t = fold (\<lambda>(m, j). ref m j) (grid (unat M) (unat N div 8)) (cmem s)
    \<and> gemm_cfg (unat M) (unat N div 8) (unat (K div e)) lda ldb 1 (lanes t)"
proof -
  define l where "l = (if setup_SSR \<noteq> 0 then gemm_simd_setup hw sz e M N K ldA ldB (lanes s) else lanes s)"
  have cfg: "gemm_cfg (unat M) (unat N div 8) (unat (K div e)) lda ldb 1 l"
    using c setup_cfg unfolding l_def simd_setup [OF e] simd_ready_def by (auto split: if_splits)
  have i: "idle (l 0)" "idle (l 1)" using cfg by (simp_all add: gemm_cfg_def ssr_ready_def)
  let ?a = "ssr_job (l 0) 3 A" and ?b = "ssr_job (l 1) 3 B"
  let ?s = "s\<lparr> lanes := l(0 := ?a, 1 := ?b), ssr_on := True \<rparr>"
  have r: "snrt_ssr_read hw 1 3 B (snrt_ssr_read hw 0 3 A l) = l(0 := ?a, 1 := ?b)"
    using i by (simp add: snrt_ssr_read_job)
  have st: "gemm_simd_start hw sz e M N K A ldA B ldB setup_SSR s = ?s"
    using r unfolding gemm_simd_start_def Let_def by (simp add: on_ssrs_def snrt_ssr_enable_def l_def split: if_splits)
  have "streaming ?a ?b 0 ?s" by (simp add: streaming_def)
  note R = blocks_in_rows [OF step [OF cfg_delivers(1) [OF cfg] cfg_delivers(2) [OF cfg]] this order_refl]
  have m: "cmem t = fold (\<lambda>m. fold (ref m) [0..<unat N div 8]) [0..<unat M] (cmem s)"
    and e: "lanes t 0 = lane_after (8 * (unat (K div e) * (unat N div 8 * unat M))) ?a"
      "lanes t 1 = lane_after (8 * (unat (K div e) * (unat N div 8 * unat M))) ?b"
    using R unfolding t st by (simp_all add: snrt_ssr_disable_def streaming_def)
  show ?thesis
    using m cfg_after [OF cfg e] fold_grid [where h = "\<lambda>(m, j). ref m j"] by simp
qed

lemma steps_8:
  "snd (fold (\<lambda>_ (n, s). (n + 8, blk n s)) [0..<unat ((N :: u32) div 8)] (0 :: u32, s)) = fold (\<lambda>j. blk (of_nat (8 * j))) [0..<unat N div 8] s"
  using fold_stepping [of 8 blk "unat N div 8" s] by (simp add: unat_div)

lemma frep_count:
  assumes "0 < unat (x :: u32)" "unat x \<le> 2 ^ 16"
  shows "unat (x - 1) < 2 ^ 16" "unat x = Suc (unat (x - 1))"
proof -
  have "unat (x - 1) = unat x - 1" using assms(1) by (subst unat_minus_no_underflow) simp_all
  then show "unat (x - 1) < 2 ^ 16" "unat x = Suc (unat (x - 1))" using assms by linarith+
qed

lemma gemm_fp16_opt_blocks:
  assumes e: "2 * ldA = 8 * lda" "2 * ldB = 8 * ldb" and c: "simd_ready hw M N (K div 4) lda ldb setup_SSR (lanes s)"
    and K: "0 < unat (K div 4)" "unat (K div 4) \<le> 2 ^ 16"
    and t: "t = gemm_fp16_opt hw fpu M N K A ldA B ldB C ldC ALPHA setup_SSR s"
  shows "cmem t = fold (\<lambda>(m, j). gemm_fp16_ref fpu (unat (K div 4)) A lda B ldb C ldC ALPHA m j) (grid (unat M) (unat N div 8)) (cmem s)
    \<and> gemm_cfg (unat M) (unat N div 8) (unat (K div 4)) lda ldb 1 (lanes t)"
  by (rule simd_kernel [OF _ e c fp16_block_step [OF frep_count [OF K]]])
    (simp_all add: t gemm_fp16_opt_def Let_def steps_8 for_u32_def del: of_nat_mult)

text \<open>
  C30: the half precision kernel with expanding dot products. Every block of eight columns is
  written as two words that pack the eight column sums, each reduced from the
  dot products that start from the prepared old value; blocks are written row by row, and
  afterwards the data movers are ready for the next tile of the same shape. Columns beyond
  the last full block are not touched.
\<close>

theorem gemm_fp16_ex_opt_blocks:
  assumes e: "2 * ldA = 8 * lda" "2 * ldB = 8 * ldb" and c: "simd_ready hw M N (K div 4) lda ldb setup_SSR (lanes s)"
    and K: "0 < unat (K div 4)" "unat (K div 4) \<le> 2 ^ 16"
    and t: "t = gemm_fp16_ex_opt hw fpu M N K A ldA B ldB C ldC ALPHA setup_SSR s"
  shows "cmem t = fold (\<lambda>(m, j). gemm_fp16_ex_ref fpu (unat (K div 4)) A lda B ldb C ldC ALPHA m j) (grid (unat M) (unat N div 8)) (cmem s)
    \<and> gemm_cfg (unat M) (unat N div 8) (unat (K div 4)) lda ldb 1 (lanes t)"
  by (rule simd_kernel [OF _ e c fp16_ex_block_step [OF frep_count [OF K]]])
    (simp_all add: t gemm_fp16_ex_opt_def Let_def steps_8 for_u32_def del: of_nat_mult)

lemma demo_simd_ready: "simd_ready demo_hw 1 8 (K div e) lda ldb 1 (lanes demo_core)" if "K div e = 1 \<or> K div e = 2"
  using that unfolding simd_ready_def gemm_setup_ok_def
  by (elim disjE) (simp_all add: demo_core_def demo_ready demo_hw_def fits_def, simp_all add: demo_ssr_def)

theorem gemm_fp16_ex_opt_blocks_witness:
  "cmem (gemm_fp16_ex_opt demo_hw demo_fpu 1 8 4 0x1000 4 0x2000 4 0x3000 8 0x4000 1 demo_core)
     = fold (\<lambda>(m, j). gemm_fp16_ex_ref demo_fpu (unat (4 div 4 :: u32)) 0x1000 1 0x2000 1 0x3000 8 0x4000 m j)
         (grid (unat (1 :: u32)) (unat (8 :: u32) div 8)) (cmem demo_core)
   \<and> gemm_cfg (unat (1 :: u32)) (unat (8 :: u32) div 8) (unat (4 div 4 :: u32)) 1 1 1
       (lanes (gemm_fp16_ex_opt demo_hw demo_fpu 1 8 4 0x1000 4 0x2000 4 0x3000 8 0x4000 1 demo_core))"
  by (rule gemm_fp16_ex_opt_blocks [OF _ _ demo_simd_ready _ _ refl]) simp_all

lemma gemm_fp8_ex_opt_blocks:
  assumes e: "ldA = 8 * lda" "ldB = 8 * ldb" and c: "simd_ready hw M N (K div 8) lda ldb setup_SSR (lanes s)"
    and K: "0 < unat (K div 8)" "unat (K div 8) \<le> 2 ^ 16" and al: "load32 (cmem s) ALPHA = 0"
    and t: "t = gemm_fp8_ex_opt hw fpu M N K A ldA B ldB C ldC ALPHA setup_SSR s"
  shows "cmem t = fold (\<lambda>(m, j). gemm_fp8_ref fpu (unat (K div 8)) A lda B ldb C ldC m j) (grid (unat M) (unat N div 8)) (cmem s)
    \<and> gemm_cfg (unat M) (unat N div 8) (unat (K div 8)) lda ldb 1 (lanes t)"
  by (rule simd_kernel [where sz = 1, OF _ _ _ c fp8_block_step [OF frep_count [OF K]]])
    (simp_all add: t e al gemm_fp8_ex_opt_def Let_def steps_8 for_u32_def del: of_nat_mult)

text \<open>Accumulation is not implemented in quarter precision: the kernel returns without any effect.\<close>

lemma gemm_fp8_ex_opt_accumulate:
  "load32 (cmem s) ALPHA \<noteq> 0 \<Longrightarrow> gemm_fp8_ex_opt hw fpu M N K A ldA B ldB C ldC ALPHA setup_SSR s = s"
  by (simp add: gemm_fp8_ex_opt_def)

lemma steps_16:
  "fold (\<lambda>_ (n, s). (n + 16, blk n s)) [0..<unat ((N :: u32) div 8)] (0 :: u32, s)
    = (of_nat (16 * (unat N div 8)), fold (\<lambda>j. blk (of_nat (16 * j))) [0..<unat N div 8] s)"
  using fold_stepping [of 16 blk "unat N div 8" s] by (simp add: unat_div)

lemma fp32_row:
  assumes N: "8 \<le> unat N" "2 * unat N < 2 ^ 32" and on: "\<And>s. ssr_on s \<Longrightarrow> ssr_on (fold (\<lambda>j. blk (of_nat (16 * j))) [0..<unat N div 8] s)"
    and s: "ssr_on s"
  shows "(let (n, s) = for_u32 (N div 8) (\<lambda>n0 (n, s). (n + 8 * 2, blk n s)) (0, s);
        s = snrt_ssr_disable s; s = for_from_u32 n N col s in snrt_ssr_enable s)
    = fold (\<lambda>j. blk (of_nat (16 * j))) [0..<unat N div 8] s"
proof -
  let ?n = "16 * (unat N div 8)"
  have "?n < 2 ^ 32" using N(2) by simp
  then have u: "unat (of_nat ?n :: u32) = ?n" by (intro unat_of_nat_small) simp
  have "unat N \<le> ?n" using N(1) by presburger
  then have "unat N - ?n = 0" "unat N \<le> ?n" by simp_all
  then show ?thesis
    using on [OF s] unfolding for_u32_def for_from_u32_def Let_def by (simp add: steps_16 u del: of_nat_mult)
qed

text \<open>Nothing in a block turns streaming off.\<close>

lemma ssr_on_read: "ssr_on (snd (read_fr r s)) = ssr_on s" "ssr_on (snd (read_frs rs s)) = ssr_on s"
proof -
  show r: "ssr_on (snd (read_fr r s)) = ssr_on s" for r s by (simp add: read_fr_def split: prod.splits)
  show "ssr_on (snd (read_frs rs s)) = ssr_on s"
    by (induction rs arbitrary: s) (simp_all add: Let_def split: prod.splits, metis r snd_conv)
qed

lemma ssr_on_exec [simp]: "ssr_on (exec_fi fpu i s) = ssr_on s"
proof -
  have w: "ssr_on (write_fr r v s) = ssr_on s" for r v s by (simp add: write_fr_def split: prod.splits)
  show ?thesis using ssr_on_read(2) by (cases i) (simp_all add: w split: prod.splits, metis snd_conv)
qed

lemma ssr_on_run_fis [simp]: "ssr_on (run_fis fpu is s) = ssr_on s"
  by (induction "is" arbitrary: s) (simp_all add: run_fis_def)

lemma ssr_on_run_asm [simp]: "ssr_on (run_asm fpu is s) = ssr_on s"
proof (induction fpu "is" s rule: run_asm.induct)
  case (3 fpu n k "is" s)
  have "ssr_on ((run_fis fpu js ^^ i) s) = ssr_on s" for i js by (induction i) simp_all
  then show ?case using 3 by simp
qed simp_all

lemma ssr_on_fp32_block [simp]: "ssr_on (gemm_fp32_block fpu n_frep C ldC ALPHA m n s) = ssr_on s"
  unfolding gemm_fp32_block_def Let_def spill by (simp add: set_fr_def)

lemma ssr_on_fold: "(\<And>i s. ssr_on (f i s) = ssr_on s) \<Longrightarrow> ssr_on (fold f xs s) = ssr_on s"
  by (induction xs arbitrary: s) simp_all

lemma fold_cong_on:
  assumes "\<And>i s. ssr_on s \<Longrightarrow> f i s = g i s \<and> ssr_on (g i s)" "ssr_on s"
  shows "fold f xs s = fold g xs s"
  using assms(2) by (induction xs arbitrary: s) (simp_all add: assms(1))

text \<open>
  C29: the single precision kernel. With at least four elements in the inner dimension, every block of
  eight columns is written as four packed pairs of column sums; the first product is not
  accumulated and the old value enters in the final reduction. Columns beyond the last full
  block are never computed although the code has a loop for them: its counter
  advances by sixteen per block and is already past the end.
\<close>

theorem gemm_fp32_opt_blocks:
  assumes e: "4 * ldA = 8 * lda" "4 * ldB = 8 * ldb" and c: "simd_ready hw M N (K div 2) lda ldb setup_SSR (lanes s)"
    and K: "1 < unat (K div 2)" "unat (K div 2) \<le> 2 ^ 16" and N: "8 \<le> unat N" "2 * unat N < 2 ^ 32"
    and t: "t = gemm_fp32_opt hw fpu mac_s M N K A ldA B ldB C ldC ALPHA setup_SSR s"
  shows "cmem t = fold (\<lambda>(m, j). gemm_fp32_ref fpu (unat (K div 2)) A lda B ldb C ldC ALPHA m j) (grid (unat M) (unat N div 8)) (cmem s)
    \<and> gemm_cfg (unat M) (unat N div 8) (unat (K div 2)) lda ldb 1 (lanes t)"
proof -
  let ?f = "K div 2 - 1 - 1" and ?blk = "\<lambda>m j. gemm_fp32_block fpu (K div 2 - 1) C ldC ALPHA (of_nat m) (of_nat (16 * j))"
  have p: "0 < unat (K div 2)" using K(1) by linarith
  have c1: "unat (K div 2 - 1) < 2 ^ 16" "unat (K div 2) = Suc (unat (K div 2 - 1))" using frep_count [OF p K(2)] by blast+
  then have q: "0 < unat (K div 2 - 1)" "unat (K div 2 - 1) \<le> 2 ^ 16" using K(1) by linarith+
  have c2: "unat ?f < 2 ^ 16" "unat (K div 2) = Suc (Suc (unat ?f))" using frep_count [OF q] c1 by simp_all
  have N8: "16 * (unat N div 8) < 2 ^ 32" using N(2) by simp
  have on: "ssr_on (gemm_simd_start hw 4 2 M N K A ldA B ldB setup_SSR s)" by (simp add: gemm_simd_start_def snrt_ssr_enable_def Let_def)
  have row_on: "ssr_on (fold (?blk m) [0..<unat N div 8] s) = ssr_on s" for m s by (rule ssr_on_fold) simp
  have "t = snrt_ssr_disable (fold (\<lambda>m. fold (?blk m) [0..<unat N div 8]) [0..<unat M] (gemm_simd_start hw 4 2 M N K A ldA B ldB setup_SSR s))"
    unfolding t gemm_fp32_opt_def Let_def for_u32_def [of M]
    by (intro arg_cong [where f = snrt_ssr_disable] fold_cong_on on conjI fp32_row [unfolded Let_def] N) (simp_all add: row_on del: of_nat_mult)
  moreover have "?f + 1 = K div 2 - 1" by simp
  ultimately show ?thesis
    using fp32_block_step [OF c2 N8] by (intro simd_kernel [OF _ e c]) (simp_all del: of_nat_mult)
qed

theorem gemm_fp32_opt_blocks_witness:
  "cmem (gemm_fp32_opt demo_hw demo_fpu (\<lambda>x y c. x * y + c) 1 8 4 0x1000 4 0x2000 4 0x3000 8 0x4000 1 demo_core)
     = fold (\<lambda>(m, j). gemm_fp32_ref demo_fpu (unat (4 div 2 :: u32)) 0x1000 2 0x2000 2 0x3000 8 0x4000 m j)
         (grid (unat (1 :: u32)) (unat (8 :: u32) div 8)) (cmem demo_core)
   \<and> gemm_cfg (unat (1 :: u32)) (unat (8 :: u32) div 8) (unat (4 div 2 :: u32)) 2 2 1
       (lanes (gemm_fp32_opt demo_hw demo_fpu (\<lambda>x y c. x * y + c) 1 8 4 0x1000 4 0x2000 4 0x3000 8 0x4000 1 demo_core))"
  by (rule gemm_fp32_opt_blocks [OF _ _ demo_simd_ready _ _ _ _ refl]) simp_all

end
