(* ===== verification/Conv2d.thy ===== *)
theory Conv2d
  imports Gemm_Simd
begin

text \<open>
  The convolution kernels of \<open>sw/applications/src/kernels/conv2d.c\<close> in double and single precision, up to
  the hardware barrier that ends the convolution proper: output channels are distributed over the
  cores of a cluster, eight output rows are accumulated at a time, and the rows left over are
  handled by a shorter hardware loop. The result is the sum over the filter that the reference
  loops in the comments of the code describe.
\<close>

section \<open>Parameters of a kernel\<close>

text \<open>The two structures of \<open>conv2d.h\<close> have the same fields; integers of 16 bits are promoted when they are used.\<close>

type_synonym u16 = "16 word"

record kernel_fp64 =
  pInBuffer :: u32
  dim_in_x :: u16
  dim_in_y :: u16
  ch_in :: u16
  pWeight :: u32
  ch_out :: u16
  dim_kernel_x :: u16
  dim_kernel_y :: u16
  padding_y_top :: u16
  padding_y_bottom :: u16
  padding_x_left :: u16
  padding_x_right :: u16
  stride_x :: u16
  stride_y :: u16
  bias :: u32
  bias_shift :: u16
  out_shift :: u16
  out_mult :: u16
  pOutBuffer :: u32
  dim_out_x :: u16
  dim_out_y :: u16
  kappa :: u32
  lambda :: u32
  pIm2ColBuffer :: u32
  flag_relu :: u32
  flag_batch_norm :: u32
  flag_y_accumulate_start :: u32
  flag_y_accumulate_end :: u32
  memory_chan :: u32

type_synonym kernel_fp32 = kernel_fp64

definition w32 :: "u16 \<Rightarrow> u32" where
  "w32 x = ucast x"

lemma unat_w32 [simp]: "unat (w32 x) = unat x"
  using unat_lt_2p [of x] by (simp add: w32_def unsigned_ucast_eq take_bit_nat_eq_self)

text \<open>The strides both kernels compute first.\<close>

definition dim_in_eff_x :: "kernel_fp64 \<Rightarrow> u32" where
  "dim_in_eff_x k = w32 (dim_in_x k) + w32 (padding_x_left k) + w32 (padding_x_right k)"

definition input_w_stride :: "kernel_fp64 \<Rightarrow> u32" where
  "input_w_stride k = w32 (ch_in k)"

definition input_h_stride :: "kernel_fp64 \<Rightarrow> u32" where
  "input_h_stride k = input_w_stride k * dim_in_eff_x k"

definition output_w_stride :: "kernel_fp64 \<Rightarrow> u32" where
  "output_w_stride k = w32 (ch_out k)"

definition output_h_stride :: "kernel_fp64 \<Rightarrow> u32" where
  "output_h_stride k = output_w_stride k * w32 (dim_out_x k)"

definition kernel_w_stride :: "kernel_fp64 \<Rightarrow> u32" where
  "kernel_w_stride k = w32 (ch_in k)"

definition kernel_h_stride :: "kernel_fp64 \<Rightarrow> u32" where
  "kernel_h_stride k = kernel_w_stride k * w32 (dim_kernel_x k)"

definition kernel_co_stride :: "kernel_fp64 \<Rightarrow> u32" where
  "kernel_co_stride k = kernel_h_stride k * w32 (dim_kernel_y k)"

text \<open>The output channels of a core: \<open>for (co = compute_id; co < ch_out; co += compute_num)\<close>.\<close>

definition conv_channels :: "u32 \<Rightarrow> u32 \<Rightarrow> u16 \<Rightarrow> nat list" where
  "conv_channels compute_id compute_num ch =
     filter (\<lambda>co. (co - unat compute_id) mod unat compute_num = 0) [unat compute_id..<unat ch]"

text \<open>
  The loops over the rows of one output channel are the same text in all kernels, around different ways
  \<open>setup\<close> to configure the streams and \<open>rows\<close> to compute a band of up to eight rows.
\<close>

definition conv_channel :: "(u32 \<Rightarrow> ssrs \<Rightarrow> ssrs) \<Rightarrow> (u32 \<Rightarrow> u32 \<Rightarrow> fp_core \<Rightarrow> fp_core) \<Rightarrow> kernel_fp64 \<Rightarrow> fp_core \<Rightarrow> fp_core" where
  "conv_channel setup rows k s = (
    let max_unroll = 8;
        cleanup_unroll = w32 (dim_out_y k) mod max_unroll;
        s = (if cleanup_unroll \<noteq> 0 then on_ssrs (setup max_unroll) s else s);
        s = for_u32 (w32 (dim_out_y k) div max_unroll) (rows max_unroll) s
    in if cleanup_unroll \<noteq> 0
       then rows cleanup_unroll (w32 (dim_out_y k) div max_unroll) (on_ssrs (setup cleanup_unroll) s)
       else s)"

section \<open>Double precision\<close>

definition conv_fp64_setup :: "ssr_hw \<Rightarrow> kernel_fp64 \<Rightarrow> u32 \<Rightarrow> ssrs \<Rightarrow> ssrs" where
  "conv_fp64_setup hw k unroll l = (
    let l = snrt_ssr_loop_4d hw 0 unroll (w32 (ch_in k)) (w32 (dim_kernel_x k)) (w32 (dim_kernel_y k))
          (input_h_stride k * w32 (stride_y k) * 8) (1 * 8) (input_w_stride k * 8) (input_h_stride k * 8) l;
        l = snrt_ssr_loop_3d hw 1 (w32 (ch_in k)) (w32 (dim_kernel_x k)) (w32 (dim_kernel_y k))
          (1 * 8) (kernel_w_stride k * 8) (kernel_h_stride k * 8) l
    in snrt_ssr_repeat hw 1 unroll l)"

text \<open>\<open>unroll\<close> output rows at one column of one channel.\<close>

definition conv_fp64_pixels :: "ssr_hw \<Rightarrow> fpu \<Rightarrow> kernel_fp64 \<Rightarrow> u32 \<Rightarrow> u32 \<Rightarrow> u32 \<Rightarrow> u32 \<Rightarrow> fp_core \<Rightarrow> fp_core" where
  "conv_fp64_pixels hw fpu k unroll co h0 w s = (
    let out = (\<lambda>i. pOutBuffer k + 8 * ((h0 * 8 + of_nat i) * output_h_stride k + w * output_w_stride k + co));
        s = (if flag_y_accumulate_start k \<noteq> 0
          then fold (\<lambda>i. set_fr (acc i) 0) [0..<unat unroll] s
          else fold (\<lambda>i. exec_fi fpu (Fld (acc i) (out i))) [0..<unat unroll] s);
        s = on_ssrs (snrt_ssr_read hw 0 3 (pInBuffer k
          + 8 * (h0 * 8 * w32 (stride_y k) * input_h_stride k + w * w32 (stride_x k) * input_w_stride k))) s;
        s = on_ssrs (snrt_ssr_read hw 1 2 (pWeight k + 8 * (co * kernel_co_stride k))) s;
        s = snrt_ssr_enable s;
        s = run_asm fpu (Frep (w32 (dim_kernel_y k) * w32 (dim_kernel_x k) * w32 (ch_in k) - 1) (unat unroll)
          # map I (map (\<lambda>i. FOp fmadd_d (acc i) [0, 1, acc i]) [0..<unat unroll])) s;
        s = snrt_ssr_disable s
    in fold (\<lambda>i s. put64 (out i) (fregs s (acc i)) s) [0..<unat unroll] s)"

definition conv_fp64_rows :: "ssr_hw \<Rightarrow> fpu \<Rightarrow> kernel_fp64 \<Rightarrow> u32 \<Rightarrow> u32 \<Rightarrow> u32 \<Rightarrow> fp_core \<Rightarrow> fp_core" where
  "conv_fp64_rows hw fpu k co unroll h0 = for_u32 (w32 (dim_out_x k)) (conv_fp64_pixels hw fpu k unroll co h0)"

text \<open>
  \<open>occamy_conv_opt_fp64\<close> up to its hardware barrier. What follows the barrier is a pass over the result that runs
  only when one of the flags for batch normalisation and rectification is set.
\<close>

definition conv_fp64_until_barrier :: "ssr_hw \<Rightarrow> fpu \<Rightarrow> kernel_fp64 \<Rightarrow> u32 \<Rightarrow> u32 \<Rightarrow> fp_core \<Rightarrow> fp_core" where
  "conv_fp64_until_barrier hw fpu k compute_id compute_core_num s = (
    let compute_num = (if compute_core_num \<noteq> 0 then compute_core_num else 1);
        s = on_ssrs (conv_fp64_setup hw k 8) s
    in fold (\<lambda>co. conv_channel (conv_fp64_setup hw k) (conv_fp64_rows hw fpu k (of_nat co)) k) (conv_channels compute_id compute_num (ch_out k)) s)"

section \<open>Reference\<close>

text \<open>
  Taps are numbered with the input channel innermost, then the filter column, then the
  filter row; an element is a channel, an output row and an output column.
\<close>

type_synonym pixel = "nat \<times> nat \<times> nat"

definition taps :: "kernel_fp64 \<Rightarrow> nat" where
  "taps k = unat (ch_in k) * (unat (dim_kernel_x k) * unat (dim_kernel_y k))"

definition tap_ci :: "kernel_fp64 \<Rightarrow> nat \<Rightarrow> nat" where
  "tap_ci k t = t mod unat (ch_in k)"

definition tap_fx :: "kernel_fp64 \<Rightarrow> nat \<Rightarrow> nat" where
  "tap_fx k t = t div unat (ch_in k) mod unat (dim_kernel_x k)"

definition tap_fy :: "kernel_fp64 \<Rightarrow> nat \<Rightarrow> nat" where
  "tap_fy k t = t div unat (ch_in k) div unat (dim_kernel_x k)"

text \<open>Operand and result addresses, with elements of \<open>sz\<close> bytes.\<close>

definition conv_in :: "kernel_fp64 \<Rightarrow> pixel \<Rightarrow> nat \<Rightarrow> u32" where
  "conv_in k = (\<lambda>(co, h, w) t. pInBuffer k + 8 * ((of_nat h * w32 (stride_y k) + of_nat (tap_fy k t)) * input_h_stride k
     + (of_nat w * w32 (stride_x k) + of_nat (tap_fx k t)) * input_w_stride k + of_nat (tap_ci k t)))"

definition conv_weight :: "kernel_fp64 \<Rightarrow> pixel \<Rightarrow> nat \<Rightarrow> u32" where
  "conv_weight k = (\<lambda>(co, h, w) t. pWeight k + 8 * (of_nat co * kernel_co_stride k + of_nat (tap_fy k t) * kernel_h_stride k
     + of_nat (tap_fx k t) * kernel_w_stride k + of_nat (tap_ci k t)))"

definition conv_out :: "kernel_fp64 \<Rightarrow> pixel \<Rightarrow> u32" where
  "conv_out k = (\<lambda>(co, h, w). pOutBuffer k + 8 * (of_nat h * output_h_stride k + of_nat w * output_w_stride k + of_nat co))"

definition conv_start :: "kernel_fp64 \<Rightarrow> u64 \<Rightarrow> u64" where
  "conv_start k c = (if flag_y_accumulate_start k \<noteq> 0 then 0 else c)"

abbreviation conv_cells :: "fpu \<Rightarrow> kernel_fp64 \<Rightarrow> pixel list \<Rightarrow> mem \<Rightarrow> mem" where
  "conv_cells fpu k \<equiv> cells (fma fpu) (conv_start k) (taps k) (conv_in k) (conv_weight k) (conv_out k)"

section \<open>One group of pixels\<close>

text \<open>Streams that are configured for \<open>u\<close> rows.\<close>

definition conv_cfg :: "kernel_fp64 \<Rightarrow> nat \<Rightarrow> ssrs \<Rightarrow> bool" where
  "conv_cfg k u l \<longleftrightarrow> ssr_ready (l 0) \<and> ssr_ready (l 1)
     \<and> ssr_cfg (l 0) 3 1 [u, unat (ch_in k), unat (dim_kernel_x k), unat (dim_kernel_y k)]
         [input_h_stride k * w32 (stride_y k) * 8, 8, input_w_stride k * 8, input_h_stride k * 8]
     \<and> (\<exists>s3. ssr_cfg (l 1) 2 u [unat (ch_in k), unat (dim_kernel_x k), unat (dim_kernel_y k), 1]
         [8, kernel_w_stride k * 8, kernel_h_stride k * 8, s3])"

lemma tap_split:
  assumes "t < taps k"
  shows "tap_ci k t < unat (ch_in k)" "tap_fx k t < unat (dim_kernel_x k)" "tap_fy k t < unat (dim_kernel_y k)"
    "t = tap_ci k t + unat (ch_in k) * (tap_fx k t + unat (dim_kernel_x k) * tap_fy k t)"
proof -
  have pos: "0 < unat (ch_in k)" "0 < unat (dim_kernel_x k)" using assms by (auto simp: taps_def intro: gr0I)
  then show "tap_ci k t < unat (ch_in k)" "tap_fx k t < unat (dim_kernel_x k)" by (simp_all add: tap_ci_def tap_fx_def)
  have "t div unat (ch_in k) < unat (dim_kernel_x k) * unat (dim_kernel_y k)"
    using assms by (simp add: taps_def less_mult_imp_div_less mult.commute)
  then show "tap_fy k t < unat (dim_kernel_y k)" by (simp add: tap_fy_def less_mult_imp_div_less mult.commute)
  show "t = tap_ci k t + unat (ch_in k) * (tap_fx k t + unat (dim_kernel_x k) * tap_fy k t)"
    unfolding tap_ci_def tap_fx_def tap_fy_def by simp
qed

lemma conv_streams:
  assumes c: "conv_cfg k u l" and t: "t < taps k" and i: "i < u"
  shows "lane_addr (ssr_job (l 0) 3 (pInBuffer k + 8 * (of_nat h0 * 8 * w32 (stride_y k) * input_h_stride k
        + of_nat w * w32 (stride_x k) * input_w_stride k))) (u * t + i) = conv_in k (co, 8 * h0 + i, w) t"
    and "lane_addr (ssr_job (l 1) 2 (pWeight k + 8 * (of_nat co * kernel_co_stride k))) (u * t + i) = conv_weight k (co, 8 * h0 + i, w) t"
proof -
  note T = tap_split [OF t]
  let ?ci = "tap_ci k t" and ?fx = "tap_fx k t" and ?fy = "tap_fy k t"
  have e0: "0 + 1 * (i + u * (?ci + unat (ch_in k) * (?fx + unat (dim_kernel_x k) * ?fy))) = u * t + i"
    using T(4) by simp
  have e1: "i + u * (?ci + unat (ch_in k) * (?fx + unat (dim_kernel_x k) * (?fy + unat (dim_kernel_y k) * 0))) = u * t + i"
    using T(4) by simp
  have a: "ssr_ready (l 0)" "ssr_cfg (l 0) 3 1 [u, unat (ch_in k), unat (dim_kernel_x k), unat (dim_kernel_y k)]
         [input_h_stride k * w32 (stride_y k) * 8, 8, input_w_stride k * 8, input_h_stride k * 8]"
    using c by (simp_all add: conv_cfg_def)
  show "lane_addr (ssr_job (l 0) 3 (pInBuffer k + 8 * (of_nat h0 * 8 * w32 (stride_y k) * input_h_stride k
        + of_nat w * w32 (stride_x k) * input_w_stride k))) (u * t + i) = conv_in k (co, 8 * h0 + i, w) t"
    using ssr_job_addr [OF a zero_less_one i T(1-3)] unfolding e0 by (simp add: conv_in_def algebra_simps)
  obtain s3 where b: "ssr_ready (l 1)" "ssr_cfg (l 1) 2 u [unat (ch_in k), unat (dim_kernel_x k), unat (dim_kernel_y k), 1]
         [8, kernel_w_stride k * 8, kernel_h_stride k * 8, s3]"
    using c by (auto simp: conv_cfg_def)
  show "lane_addr (ssr_job (l 1) 2 (pWeight k + 8 * (of_nat co * kernel_co_stride k))) (u * t + i) = conv_weight k (co, 8 * h0 + i, w) t"
    using ssr_job_addr [OF b i T(1-3) zero_less_one] unfolding e1 by (simp add: conv_weight_def algebra_simps)
qed

lemma conv_cfg_after:
  assumes c: "conv_cfg k u l"
    and l': "l' 0 = lane_after (u * taps k) (ssr_job (l 0) 3 p)" "l' 1 = lane_after (u * taps k) (ssr_job (l 1) 2 q)"
  shows "conv_cfg k u l'"
proof -
  have a: "ssr_ready (l 0)" "ssr_cfg (l 0) 3 1 [u, unat (ch_in k), unat (dim_kernel_x k), unat (dim_kernel_y k)]
         [input_h_stride k * w32 (stride_y k) * 8, 8, input_w_stride k * 8, input_h_stride k * 8]"
    using c by (simp_all add: conv_cfg_def)
  obtain s3 where b: "ssr_ready (l 1)" "ssr_cfg (l 1) 2 u [unat (ch_in k), unat (dim_kernel_x k), unat (dim_kernel_y k), 1]
         [8, kernel_w_stride k * 8, kernel_h_stride k * 8, s3]"
    using c by (auto simp: conv_cfg_def)
  show ?thesis
    using ssr_job_end [OF a, of p] ssr_job_end [OF b, of q] unfolding conv_cfg_def l' taps_def mult_1_left mult_1_right by blast
qed

lemma conv_frep:
  assumes "0 < taps k" "taps k \<le> 2 ^ 16"
  shows "unat (w32 (dim_kernel_y k) * w32 (dim_kernel_x k) * w32 (ch_in k) - 1) < 2 ^ 16"
    "Suc (unat (w32 (dim_kernel_y k) * w32 (dim_kernel_x k) * w32 (ch_in k) - 1)) = taps k"
proof -
  let ?x = "w32 (dim_kernel_y k) * w32 (dim_kernel_x k) * w32 (ch_in k)"
  have t: "unat (dim_kernel_y k) * unat (dim_kernel_x k) * unat (ch_in k) = taps k" by (simp add: taps_def)
  have "unat (dim_kernel_y k) * unat (dim_kernel_x k) \<le> taps k"
    using assms(1) by (auto simp: taps_def intro: gr0I)
  then have m: "unat (w32 (dim_kernel_y k) * w32 (dim_kernel_x k)) = unat (dim_kernel_y k) * unat (dim_kernel_x k)"
    using assms(2) by (subst unat_times_no_overflow) simp_all
  have x: "unat ?x = taps k" using assms(2) t by (subst unat_times_no_overflow) (simp_all add: m)
  have "0 < unat ?x" "unat ?x \<le> 2 ^ 16" unfolding x using assms by simp_all
  from frep_count [OF this] show "unat (?x - 1) < 2 ^ 16" "Suc (unat (?x - 1)) = taps k" using x by simp_all
qed

lemma pixels_spec:
  assumes c: "conv_cfg k u (lanes s)" and u: "unat unroll = u" and n: "0 < taps k" "taps k \<le> 2 ^ 16"
    and d: "disjoint_ops q (conv_out k) (conv_in k) (conv_weight k) (taps k) es" "\<And>i. i < u \<Longrightarrow> (co, 8 * h0 + i, w) \<in> set es"
    and t_def: "t = conv_fp64_pixels hw fpu k unroll (of_nat co) (of_nat h0) (of_nat w) s"
  shows "conv_cfg k u (lanes t) \<and> cmem t = conv_cells fpu k (map (\<lambda>i. (co, 8 * h0 + i, w)) [0..<u]) (cmem s)"
proof -
  let ?e = "\<lambda>i. (co, 8 * h0 + i, w)" and ?c = "conv_out k"
  have out: "pOutBuffer k + 8 * ((of_nat h0 * 8 + of_nat i) * output_h_stride k + of_nat w * output_w_stride k + of_nat co) = ?c (?e i)" for i
    by (simp add: conv_out_def algebra_simps)
  let ?a = "ssr_job (lanes s 0) 3 (pInBuffer k + 8 * (of_nat h0 * 8 * w32 (stride_y k) * input_h_stride k
        + of_nat w * w32 (stride_x k) * input_w_stride k))"
  let ?b = "ssr_job (lanes s 1) 2 (pWeight k + 8 * (of_nat co * kernel_co_stride k))"
  define v where "v = (set_accs u (\<lambda>i. conv_start k (load64 (cmem s) (?c (?e i)))) s)\<lparr> lanes := (lanes s)(0 := ?a, 1 := ?b), ssr_on := True \<rparr>"
  have i: "idle (lanes s 0)" "idle (lanes s 1)" using c by (simp_all add: conv_cfg_def ssr_ready_def)
  have init: "(if flag_y_accumulate_start k \<noteq> 0 then fold (\<lambda>i. set_fr (acc i) 0) [0..<u] s
      else fold (\<lambda>i. exec_fi fpu (Fld (acc i) (?c (?e i)))) [0..<u] s) = set_accs u (\<lambda>i. conv_start k (load64 (cmem s) (?c (?e i)))) s"
    unfolding fill_load fill_const [where v = "\<lambda>_. 0"] by (simp add: conv_start_def)
  have v: "streaming ?a ?b 0 v" by (simp add: v_def streaming_def)
  let ?r = "rounds (fma fpu) ?a ?b 0 u (taps k) v"
  note loop = run_asm_frep [OF fmadd_serves v conv_frep(1) [OF n], where u = u and rest = "[]", unfolded conv_frep(2) [OF n] append_Nil2 run_asm.simps(1)]
  let ?t = "(snrt_ssr_disable ?r)\<lparr> cmem := stores (map (\<lambda>i. (?c (?e i), fregs ?r (acc i))) [0..<u]) (cmem s) \<rparr>"
  have t: "t = ?t"
    unfolding t_def conv_fp64_pixels_def Let_def u out init spill
    using loop i by (simp add: on_ssrs_def snrt_ssr_read_job snrt_ssr_enable_def snrt_ssr_disable_def v_def del: map_map)
  have l: "lanes t 0 = lane_after (u * taps k) ?a" "lanes t 1 = lane_after (u * taps k) ?b"
    unfolding t by (simp_all add: snrt_ssr_disable_def rounds_def v_def)
  have cv: "cmem v = cmem s" by (simp add: v_def)
  have fv: "fregs v (acc i) = conv_start k (load64 (cmem s) (?c (?e i)))" if "i < u" for i
    using that by (simp add: v_def set_accs_def acc_def)
  have el: "elem0 ?a (cmem s) (0 + u * t + i) = load64 (cmem s) (conv_in k (?e i) t)"
    "elem0 ?b (cmem s) (0 + u * t + i) = load64 (cmem s) (conv_weight k (?e i) t)" if "t < taps k" "i < u" for t i
    by (simp_all only: elem0_def add_0 conv_streams [OF c that, where co = co and ?h0.0 = h0 and w = w])
  have "fregs ?r (acc i) = cell_value (fma fpu) (conv_start k) (taps k) (conv_in k (?e i)) (conv_weight k (?e i)) (?c (?e i)) (cmem s)"
    if "i < u" for i
    unfolding fregs_rounds [OF that] cell_value_def cv
    by (rule accumulate_cong) (simp_all only: el that fv)
  then have "cmem t = stores (map (\<lambda>i. (?c (?e i), cell_value (fma fpu) (conv_start k) (taps k) (conv_in k (?e i)) (conv_weight k (?e i))
      (?c (?e i)) (cmem s))) [0..<u]) (cmem s)"
    unfolding t by (auto intro!: arg_cong [where f = "\<lambda>xs. stores xs (cmem s)"] map_cong)
  then have "cmem t = conv_cells fpu k (map ?e [0..<u]) (cmem s)"
    using d by (subst (asm) disjoint_block [OF d(1), where e = ?e]) (auto simp: inj_on_def)
  then show ?thesis using conv_cfg_after [OF c l] by blast
qed

section \<open>All pixels of a core\<close>

lemma fold_effects:
  assumes "\<And>i s. i \<in> set is \<Longrightarrow> P s \<Longrightarrow> P (f i s) \<and> cmem (f i s) = fold ref (L i) (cmem s)" "P s"
  shows "P (fold f is s) \<and> cmem (fold f is s) = fold ref (concat (map L is)) (cmem s)"
  using assms
proof (induction "is" arbitrary: s)
  case (Cons i "is")
  have i: "P (f i s)" "cmem (f i s) = fold ref (L i) (cmem s)" using Cons.prems by simp_all
  have "P (fold f is (f i s)) \<and> cmem (fold f is (f i s)) = fold ref (concat (map L is)) (cmem (f i s))"
    using i(1) by (intro Cons.IH Cons.prems(1)) simp_all
  then show ?case using i(2) by simp
qed simp

text \<open>
  A channel is worked off in bands of rows, given by the first row divided by eight and the
  number of rows.
\<close>

definition conv_bands :: "kernel_fp64 \<Rightarrow> (nat \<times> nat) list" where
  "conv_bands k = map (\<lambda>h0. (h0, 8)) [0..<unat (dim_out_y k) div 8]
     @ (if unat (dim_out_y k) mod 8 = 0 then [] else [(unat (dim_out_y k) div 8, unat (dim_out_y k) mod 8)])"

text \<open>
  What the parts of a kernel have to do: configure idle data movers for \<open>u\<close> rows, and compute a
  band of a channel in \<open>cs\<close> with the effect \<open>ref\<close> on memory while the configuration lasts.
\<close>

locale conv_kernel =
  fixes k :: kernel_fp64
    and conf :: "u32 \<Rightarrow> ssrs \<Rightarrow> ssrs"
    and rows :: "'c \<Rightarrow> u32 \<Rightarrow> u32 \<Rightarrow> fp_core \<Rightarrow> fp_core"
    and idl :: "ssrs \<Rightarrow> bool"
    and cfg :: "nat \<Rightarrow> ssrs \<Rightarrow> bool"
    and ref :: "'c \<Rightarrow> nat \<times> nat \<Rightarrow> mem \<Rightarrow> mem"
    and cs :: "'c set"
  assumes setup_cfg: "idl l \<Longrightarrow> 0 < unat u \<Longrightarrow> unat u \<le> 8 \<Longrightarrow> cfg (unat u) (conf u l)"
    and cfg_idle: "cfg n l \<Longrightarrow> idl l"
    and rows_effect: "cfg (unat u) (lanes s) \<Longrightarrow> unat u \<le> 8 \<Longrightarrow> c \<in> cs \<Longrightarrow> 8 * h0 + unat u \<le> unat (dim_out_y k) \<Longrightarrow>
      cfg (unat u) (lanes (rows c u (of_nat h0) s)) \<and> cmem (rows c u (of_nat h0) s) = ref c (h0, unat u) (cmem s)"
begin

definition between :: "fp_core \<Rightarrow> bool" where
  "between s \<longleftrightarrow> idl (lanes s) \<and> (unat (dim_out_y k) mod 8 = 0 \<longrightarrow> cfg 8 (lanes s))"

lemma channel_effect:
  assumes b: "between s" and c: "c \<in> cs"
  shows "between (conv_channel conf (rows c) k s) \<and> cmem (conv_channel conf (rows c) k s) = fold (ref c) (conv_bands k) (cmem s)"
proof -
  let ?c = "w32 (dim_out_y k) mod 8" and ?H = "unat (dim_out_y k)"
  have un: "unat ?c = ?H mod 8" "unat (w32 (dim_out_y k) div 8) = ?H div 8" by (simp_all add: unat_mod unat_div)
  have c0: "?c = 0 \<longleftrightarrow> ?H mod 8 = 0" using un(1) by (metis unat_0 unat_eq_zero)
  define s1 where "s1 = (if ?c \<noteq> 0 then on_ssrs (conf 8) s else s)"
  have s1: "cfg 8 (lanes s1)" "cmem s1 = cmem s"
    using b setup_cfg [of "lanes s" 8] c0 by (simp_all add: s1_def between_def on_ssrs_def)
  define s2 where "s2 = for_u32 (w32 (dim_out_y k) div 8) (rows c 8) s1"
  have "cfg 8 (lanes s2) \<and> cmem s2 = fold (ref c) (concat (map (\<lambda>h0. [(h0, 8)]) [0..<?H div 8])) (cmem s1)"
    unfolding s2_def for_u32_def un
  proof (rule fold_effects [where P = "\<lambda>s. cfg 8 (lanes s)", OF _ s1(1)])
    fix h0 and s :: fp_core
    assume "h0 \<in> set [0..<?H div 8]" "cfg 8 (lanes s)"
    then show "cfg 8 (lanes (rows c 8 (of_nat h0) s)) \<and> cmem (rows c 8 (of_nat h0) s) = fold (ref c) [(h0, 8)] (cmem s)"
      using rows_effect [of 8 s c h0] c by simp
  qed
  then have s2: "cfg 8 (lanes s2)" "cmem s2 = fold (ref c) (map (\<lambda>h0. (h0, 8)) [0..<?H div 8]) (cmem s)"
    using s1(2) by (simp_all add: concat_map_singleton)
  define t where "t = conv_channel conf (rows c) k s"
  have t: "t = (if ?c \<noteq> 0 then rows c ?c (w32 (dim_out_y k) div 8) (on_ssrs (conf ?c) s2) else s2)"
    unfolding t_def conv_channel_def Let_def s1_def [symmetric] s2_def [symmetric] ..
  show ?thesis
    unfolding t_def [symmetric]
  proof (cases "?c = 0")
    case True
    then show "between t \<and> cmem t = fold (ref c) (conv_bands k) (cmem s)"
      using s2 cfg_idle [OF s2(1)] c0 unfolding t by (simp add: between_def conv_bands_def)
  next
    case False
    let ?s3 = "on_ssrs (conf ?c) s2"
    have nz: "?H mod 8 \<noteq> 0" using False c0 by blast
    then have s3: "cfg (unat ?c) (lanes ?s3)" "cmem ?s3 = cmem s2"
      using setup_cfg [OF cfg_idle [OF s2(1)], of ?c] un(1) by (simp_all add: on_ssrs_def)
    have e: "w32 (dim_out_y k) div 8 = of_nat (?H div 8)" unfolding un(2) [symmetric] by simp
    have r: "cfg (unat ?c) (lanes t)" "cmem t = ref c (?H div 8, ?H mod 8) (cmem s2)"
      using rows_effect [OF s3(1) _ c, of "?H div 8"] False s3(2) un(1) unfolding t e by simp_all
    show "between t \<and> cmem t = fold (ref c) (conv_bands k) (cmem s)"
      using cfg_idle [OF r(1)] r(2) s2(2) nz by (simp add: between_def conv_bands_def)
  qed
qed

lemma channels_effect:
  assumes l: "idl (lanes s)" and c: "set chs \<subseteq> cs"
  shows "cmem (fold (\<lambda>c. conv_channel conf (rows c) k) chs (on_ssrs (conf 8) s)) = fold (\<lambda>c. fold (ref c) (conv_bands k)) chs (cmem s)"
proof -
  let ?s = "on_ssrs (conf 8) s"
  have "between ?s" using setup_cfg [OF l, of 8] cfg_idle by (auto simp: between_def on_ssrs_def)
  then have "between (fold (\<lambda>c. conv_channel conf (rows c) k) chs ?s)
      \<and> cmem (fold (\<lambda>c. conv_channel conf (rows c) k) chs ?s) = fold (\<lambda>c. fold (ref c) (conv_bands k)) (concat (map (\<lambda>c. [c]) chs)) (cmem ?s)"
    by (rule fold_effects [rotated]) (use channel_effect c in auto)
  then show ?thesis by (simp add: on_ssrs_def concat_map_singleton)
qed

end

section \<open>The double precision kernel\<close>

definition conv_hw :: "ssr_hw \<Rightarrow> kernel_fp64 \<Rightarrow> bool" where
  "conv_hw hw k \<longleftrightarrow> fits (IndexWidth hw) (w32 (ch_in k)) \<and> fits (IndexWidth hw) (w32 (dim_kernel_x k))
     \<and> fits (IndexWidth hw) (w32 (dim_kernel_y k)) \<and> fits (IndexWidth hw) 8 \<and> fits (RptWidth hw) 8"

definition conv_idle :: "ssrs \<Rightarrow> bool" where
  "conv_idle l \<longleftrightarrow> ssr_ready (l 0) \<and> ssr_ready (l 1) \<and> sh_rep (l 0) = 0"

lemma conv_cfg_idle:
  assumes "conv_cfg k u l"
  shows "conv_idle l"
proof -
  have "Suc (unat (sh_rep (l 0))) = 1" using assms by (simp add: conv_cfg_def ssr_cfg_def start_job_def Let_def)
  then show ?thesis using assms by (simp add: conv_idle_def conv_cfg_def unat_eq_zero)
qed

lemma fits_le: "fits w b \<Longrightarrow> unat u \<le> unat b \<Longrightarrow> u \<noteq> 0 \<Longrightarrow> fits w u"
  by (simp add: fits_def)

lemma conv_setup_cfg:
  assumes l: "conv_idle l" and hw: "conv_hw hw k" and u: "unat u \<le> 8" "u \<noteq> 0"
  shows "conv_cfg k (unat u) (conv_fp64_setup hw k u l)"
proof -
  have u8: "fits (IndexWidth hw) u" "fits (RptWidth hw) u"
    using hw u by (auto simp: conv_hw_def intro: fits_le [where b = 8])
  have f: "fits (IndexWidth hw) (w32 (ch_in k))" "fits (IndexWidth hw) (w32 (dim_kernel_x k))" "fits (IndexWidth hw) (w32 (dim_kernel_y k))"
    using hw by (simp_all add: conv_hw_def)
  let ?dm0 = "snrt_ssr_loop_4d hw 0 u (w32 (ch_in k)) (w32 (dim_kernel_x k)) (w32 (dim_kernel_y k))
          (input_h_stride k * w32 (stride_y k) * 8) (1 * 8) (input_w_stride k * 8) (input_h_stride k * 8) l"
  let ?l = "conv_fp64_setup hw k u l"
  have z: "?l 0 = ?dm0 0" by (simp add: conv_fp64_setup_def ssr_frame Let_def)
  have "ssr_cfg (?l 0) 3 1 [unat u, unat (w32 (ch_in k)), unat (w32 (dim_kernel_x k)), unat (w32 (dim_kernel_y k))]
         [input_h_stride k * w32 (stride_y k) * 8, 1 * 8, input_w_stride k * 8, input_h_stride k * 8]"
    by (rule cfg_4d [where l = l and dm = 0, OF z _ u8(1) f,
        where ?k0.0 = "input_h_stride k * w32 (stride_y k)" and ?k1.0 = 1 and ?k2.0 = "input_w_stride k" and ?k3.0 = "input_h_stride k"])
      (use l in \<open>simp_all add: conv_idle_def\<close>)
  moreover have "\<exists>s3. ssr_cfg (?l 1) 2 (unat u) [unat (w32 (ch_in k)), unat (w32 (dim_kernel_x k)), unat (w32 (dim_kernel_y k)), 1]
         [1 * 8, kernel_w_stride k * 8, kernel_h_stride k * 8, s3]"
    by (rule cfg_3d_of_3 [where l = ?dm0 and dm = 1, OF _ f u8(2),
        where ?k0.0 = 1 and ?k1.0 = "kernel_w_stride k" and ?k2.0 = "kernel_h_stride k"])
      (simp_all add: conv_fp64_setup_def Let_def)
  moreover have "ssr_ready (?l 0) \<and> ssr_ready (?l 1)"
    using l by (simp add: conv_idle_def conv_fp64_setup_def ssr_ready_cfg Let_def)
  ultimately show ?thesis by (simp add: conv_cfg_def)
qed

text \<open>The pixels of a band, column by column, and all pixels of a channel.\<close>

definition conv_rows :: "kernel_fp64 \<Rightarrow> nat \<Rightarrow> nat \<Rightarrow> nat \<Rightarrow> pixel list" where
  "conv_rows k co h0 u = concat (map (\<lambda>w. map (\<lambda>i. (co, 8 * h0 + i, w)) [0..<u]) [0..<unat (dim_out_x k)])"

definition conv_pixels :: "kernel_fp64 \<Rightarrow> nat \<Rightarrow> pixel list" where
  "conv_pixels k co = concat (map (\<lambda>(h0, u). conv_rows k co h0 u) (conv_bands k))"

lemma conv_pixels_rows:
  "conv_pixels k co = concat (map (\<lambda>h0. conv_rows k co h0 8) [0..<unat (dim_out_y k) div 8])
     @ conv_rows k co (unat (dim_out_y k) div 8) (unat (dim_out_y k) mod 8)"
proof -
  have "concat (map (\<lambda>w. []) xs) = []" for xs :: "nat list" by (induction xs) simp_all
  then show ?thesis by (simp add: conv_pixels_def conv_bands_def conv_rows_def comp_def)
qed

lemma set_conv_rows: "set (conv_rows k co h0 u) = {(c, h, w). c = co \<and> 8 * h0 \<le> h \<and> h < 8 * h0 + u \<and> w < unat (dim_out_x k)}"
proof -
  have i: "(\<exists>i\<in>{0..<u}. h = 8 * h0 + i) \<longleftrightarrow> 8 * h0 \<le> h \<and> h < 8 * h0 + u" for h
    by (auto intro: bexI [of _ "h - 8 * h0"])
  show ?thesis unfolding conv_rows_def by (auto simp: image_iff i)
qed

lemma set_conv_pixels: "set (conv_pixels k co) = {(c, h, w). c = co \<and> h < unat (dim_out_y k) \<and> w < unat (dim_out_x k)}"
proof -
  let ?H = "unat (dim_out_y k)"
  have h: "(\<exists>h0<?H div 8. 8 * h0 \<le> h \<and> h < 8 * h0 + 8) \<or> 8 * (?H div 8) \<le> h \<and> h < 8 * (?H div 8) + ?H mod 8 \<longleftrightarrow> h < ?H"
    (is "?A \<or> ?B \<longleftrightarrow> _") for h
  proof -
    have H: "8 * (?H div 8) + ?H mod 8 = ?H" "8 * (h div 8) + h mod 8 = h" "h mod 8 < 8" by simp_all
    show ?thesis
    proof
      assume h: "h < ?H"
      show "?A \<or> ?B"
      proof (cases "h div 8 < ?H div 8")
        case True
        then have "h div 8 < ?H div 8 \<and> 8 * (h div 8) \<le> h \<and> h < 8 * (h div 8) + 8" using H by linarith
        then show ?thesis by blast
      next
        case False
        then show ?thesis using h H by linarith
      qed
    next
      assume "?A \<or> ?B"
      then show "h < ?H"
      proof
        assume ?A
        then obtain h0 where "h0 < ?H div 8" "h < 8 * h0 + 8" by blast
        then show ?thesis using H(1) by linarith
      qed (use H in linarith)
    qed
  qed
  have "set (conv_pixels k co) = {(c, h, w). c = co \<and> ((\<exists>h0<?H div 8. 8 * h0 \<le> h \<and> h < 8 * h0 + 8)
      \<or> 8 * (?H div 8) \<le> h \<and> h < 8 * (?H div 8) + ?H mod 8) \<and> w < unat (dim_out_x k)}"
    unfolding conv_pixels_rows by (auto simp: set_conv_rows)
  then show ?thesis by (simp only: h)
qed

lemma distinct_conv_rows: "distinct (conv_rows k co h0 u)"
proof -
  have "distinct (concat (map (\<lambda>w. map (\<lambda>i. (co, 8 * h0 + i, w)) [0..<u]) [0..<n]))" for n
    by (induction n) (auto simp: distinct_map inj_on_def)
  then show ?thesis by (simp add: conv_rows_def)
qed

lemma distinct_conv_pixels: "distinct (conv_pixels k co)"
proof -
  have "distinct (concat (map (\<lambda>h0. conv_rows k co h0 8) [0..<n]))" for n
    by (induction n) (auto simp: distinct_conv_rows set_conv_rows)
  then show ?thesis by (auto simp: conv_pixels_rows distinct_conv_rows set_conv_rows)
qed

text \<open>When the dimensions fit and results overlap no operands, the double precision kernel meets the contract.\<close>

definition conv_legal :: "ssr_hw \<Rightarrow> kernel_fp64 \<Rightarrow> u32 \<Rightarrow> pixel list \<Rightarrow> bool" where
  "conv_legal hw k q es \<longleftrightarrow> 0 < taps k \<and> taps k \<le> 2 ^ 16 \<and> conv_hw hw k
     \<and> disjoint_ops q (conv_out k) (conv_in k) (conv_weight k) (taps k) es"

definition conv_inside :: "kernel_fp64 \<Rightarrow> pixel list \<Rightarrow> nat set" where
  "conv_inside k es = {co. set (conv_pixels k co) \<subseteq> set es}"

lemma conv_insideD: "co \<in> conv_inside k es \<Longrightarrow> h < unat (dim_out_y k) \<Longrightarrow> w < unat (dim_out_x k) \<Longrightarrow> (co, h, w) \<in> set es"
  by (auto simp: conv_inside_def set_conv_pixels)

lemma cells_concat: "fold (\<lambda>p. cells f g n x y c (L p)) ps = cells f g n x y c (concat (map L ps))"
  by (induction ps) (simp_all add: fun_eq_iff)

lemma fp64_rows_effect:
  assumes c: "conv_cfg k (unat u) (lanes s)" and leg: "conv_legal hw k q es" and co: "co \<in> conv_inside k es"
    and h: "8 * h0 + unat u \<le> unat (dim_out_y k)"
  shows "conv_cfg k (unat u) (lanes (conv_fp64_rows hw fpu k (of_nat co) u (of_nat h0) s))
    \<and> cmem (conv_fp64_rows hw fpu k (of_nat co) u (of_nat h0) s) = conv_cells fpu k (conv_rows k co h0 (unat u)) (cmem s)"
proof -
  let ?f = "\<lambda>w. conv_fp64_pixels hw fpu k u (of_nat co) (of_nat h0) (of_nat w)" and ?L = "\<lambda>w. map (\<lambda>i. (co, 8 * h0 + i, w)) [0..<unat u]"
  have n: "0 < taps k" "taps k \<le> 2 ^ 16" and d: "disjoint_ops q (conv_out k) (conv_in k) (conv_weight k) (taps k) es"
    using leg by (simp_all add: conv_legal_def)
  have "conv_cfg k (unat u) (lanes (fold ?f [0..<unat (dim_out_x k)] s)) \<and> cmem (fold ?f [0..<unat (dim_out_x k)] s)
      = fold (\<lambda>w. conv_cells fpu k (?L w)) (concat (map (\<lambda>w. [w]) [0..<unat (dim_out_x k)])) (cmem s)"
  proof (rule fold_effects [where P = "\<lambda>s. conv_cfg k (unat u) (lanes s)", OF _ c])
    fix w and s :: fp_core
    assume w: "w \<in> set [0..<unat (dim_out_x k)]" and c: "conv_cfg k (unat u) (lanes s)"
    have "(co, 8 * h0 + i, w) \<in> set es" if "i < unat u" for i using that w h by (intro conv_insideD [OF co]) simp_all
    from pixels_spec [OF c refl n d this refl]
    show "conv_cfg k (unat u) (lanes (?f w s)) \<and> cmem (?f w s) = fold (\<lambda>w. conv_cells fpu k (?L w)) [w] (cmem s)" by simp
  qed
  then show ?thesis
    by (simp add: conv_fp64_rows_def for_u32_def concat_map_singleton cells_concat conv_rows_def)
qed

interpretation fp64: conv_kernel k "conv_fp64_setup hw k" "\<lambda>co. conv_fp64_rows hw fpu k (of_nat co)"
  "\<lambda>l. conv_legal hw k q es \<and> conv_idle l" "\<lambda>u l. conv_legal hw k q es \<and> conv_cfg k u l"
  "\<lambda>co (h0, u). conv_cells fpu k (conv_rows k co h0 u)" "conv_inside k es"
  for k hw fpu q es
proof
  fix l u
  assume "conv_legal hw k q es \<and> conv_idle l" "0 < unat (u :: u32)" "unat u \<le> 8"
  then show "conv_legal hw k q es \<and> conv_cfg k (unat u) (conv_fp64_setup hw k u l)"
    by (intro conjI conv_setup_cfg) (auto simp: unat_gt_0 conv_legal_def)
qed (use conv_cfg_idle fp64_rows_effect in auto)

definition conv_order :: "kernel_fp64 \<Rightarrow> nat list \<Rightarrow> pixel list" where
  "conv_order k cs = concat (map (conv_pixels k) cs)"

lemma set_conv_order:
  "set (conv_order k cs) = {(co, h, w). co \<in> set cs \<and> h < unat (dim_out_y k) \<and> w < unat (dim_out_x k)}"
  by (auto simp: conv_order_def set_conv_pixels)

lemma distinct_conv_order: "distinct cs \<Longrightarrow> distinct (conv_order k cs)"
  by (induction cs) (auto simp: conv_order_def distinct_conv_pixels set_conv_pixels)

lemma distinct_conv_channels: "distinct (conv_channels i n ch)"
  by (simp add: conv_channels_def)

lemma conv_fp64_cells:
  assumes leg: "conv_legal hw k q (conv_order k cs)" and l: "conv_idle (lanes s)"
  shows "cmem (fold (\<lambda>co. conv_channel (conv_fp64_setup hw k) (conv_fp64_rows hw fpu k (of_nat co)) k) cs (on_ssrs (conv_fp64_setup hw k 8) s))
    = conv_cells fpu k (conv_order k cs) (cmem s)"
proof -
  have "set cs \<subseteq> conv_inside k (conv_order k cs)" by (auto simp: conv_inside_def conv_order_def)
  from fp64.channels_effect [where hw = hw, OF _ this] leg l
  have "cmem (fold (\<lambda>co. conv_channel (conv_fp64_setup hw k) (conv_fp64_rows hw fpu k (of_nat co)) k) cs (on_ssrs (conv_fp64_setup hw k 8) s))
    = fold (\<lambda>co. fold (\<lambda>(h0, u). conv_cells fpu k (conv_rows k co h0 u)) (conv_bands k)) cs (cmem s)" by blast
  then show ?thesis
    by (simp add: case_prod_unfold cells_concat conv_order_def conv_pixels_def [abs_def])
qed

text \<open>
  C4: the double precision convolution. For dimensions that fit the hardware, idle data movers and results that
  overlap neither inputs nor weights, every output pixel of the channels of a core becomes the old
  value (or zero at the start of an accumulation) plus the sum of input times weight over the whole
  filter and all input channels, taken in the order of the reference loops; whether or not the number of rows is
  a multiple of eight. A doubleword \<open>q\<close> apart from the results keeps its value.
\<close>

theorem conv_fp64_correct:
  assumes l: "conv_idle (lanes s)"
    and cs: "cs = conv_channels compute_id (if cores \<noteq> 0 then cores else 1) (ch_out k)"
    and leg: "conv_legal hw k q (conv_order k cs)"
    and p: "co \<in> set cs" "h < unat (dim_out_y k)" "w < unat (dim_out_x k)"
    and t: "t = conv_fp64_until_barrier hw fpu k compute_id cores s"
  shows "load64 (cmem t) (conv_out k (co, h, w))
      = accumulate (fma fpu) (\<lambda>j. load64 (cmem s) (conv_in k (co, h, w) j)) (\<lambda>j. load64 (cmem s) (conv_weight k (co, h, w) j)) (taps k)
          (if flag_y_accumulate_start k \<noteq> 0 then 0 else load64 (cmem s) (conv_out k (co, h, w)))
    \<and> load64 (cmem t) q = load64 (cmem s) q"
proof -
  have d: "disjoint_ops q (conv_out k) (conv_in k) (conv_weight k) (taps k) (conv_order k cs)" using leg by (simp add: conv_legal_def)
  have m: "cmem t = conv_cells fpu k (conv_order k cs) (cmem s)"
    using conv_fp64_cells [OF leg l] unfolding t conv_fp64_until_barrier_def Let_def cs .
  have e: "(co, h, w) \<in> set (conv_order k cs)" using p by (simp add: set_conv_order)
  have di: "distinct (conv_order k cs)" unfolding cs by (intro distinct_conv_order distinct_conv_channels)
  have "load64 (cmem t) (conv_out k (co, h, w))
      = cell_value (fma fpu) (conv_start k) (taps k) (conv_in k (co, h, w)) (conv_weight k (co, h, w)) (conv_out k (co, h, w)) (cmem s)"
    unfolding m by (rule load64_cells [OF e di]) (auto intro: disjoint_opsD [OF d])
  moreover have "load64 (cmem t) q = load64 (cmem s) q"
    unfolding m by (rule load64_cells_other) (rule disjoint_opsD(1) [OF d])
  ultimately show ?thesis by (simp add: cell_value_def conv_start_def)
qed

definition demo_kernel :: kernel_fp64 where
  "demo_kernel = \<lparr> pInBuffer = 0x1000, dim_in_x = 1, dim_in_y = 9, ch_in = 1, pWeight = 0x2000, ch_out = 1, dim_kernel_x = 1,
     dim_kernel_y = 1, padding_y_top = 0, padding_y_bottom = 0, padding_x_left = 0, padding_x_right = 0, stride_x = 1, stride_y = 1,
     bias = 0, bias_shift = 0, out_shift = 0, out_mult = 0, pOutBuffer = 0x3000, dim_out_x = 1, dim_out_y = 9, kappa = 0, lambda = 0,
     pIm2ColBuffer = 0, flag_relu = 0, flag_batch_norm = 0, flag_y_accumulate_start = 1, flag_y_accumulate_end = 1, memory_chan = 0 \<rparr>"

lemma demo_channels: "conv_channels 0 1 (ch_out demo_kernel) = [0]"
  by (simp add: conv_channels_def demo_kernel_def upt_conv_Cons)

lemma demo_conv_disjoint:
  "disjoint_ops 0x4000 (conv_out demo_kernel) (conv_in demo_kernel) (conv_weight demo_kernel) (taps demo_kernel) (conv_order demo_kernel [0])"
proof (rule disjoint_region [where lo = "0x3000" and hi = "0x3048" and w = "\<lambda>(co, h, w). h"])
  fix i :: pixel
  assume i: "i \<in> set (conv_order demo_kernel [0])"
  then obtain h where h: "i = (0, h, 0)" "h < 9" by (auto simp: set_conv_order demo_kernel_def)
  have u: "unat (b + 8 * of_nat h) = unat b + 8 * h" if "unat b < 2 ^ 16" for b :: u32
    using unat_at8 [of b h] that h(2) by (simp add: at8_def)
  show "unat (conv_out demo_kernel i) = 0x3000 + 8 * (case i of (co, h, w) \<Rightarrow> h)"
    using u [of "0x3000"] by (simp add: h conv_out_def demo_kernel_def output_h_stride_def output_w_stride_def w32_def)
  show "0x3000 + 8 * (case i of (co, h, w) \<Rightarrow> h) + 8 \<le> (0x3048 :: nat)" using h by simp
  fix j
  assume "j < taps demo_kernel"
  then have j: "j = 0" by (simp add: taps_def demo_kernel_def)
  show "unat (conv_in demo_kernel i j) + 8 \<le> 0x3000 \<or> 0x3048 \<le> unat (conv_in demo_kernel i j) \<and> unat (conv_in demo_kernel i j) + 8 \<le> 2 ^ 32"
    using u [of "0x1000"] h
    by (simp add: j conv_in_def tap_fx_def tap_fy_def tap_ci_def demo_kernel_def input_h_stride_def input_w_stride_def dim_in_eff_x_def w32_def)
  show "unat (conv_weight demo_kernel i j) + 8 \<le> 0x3000 \<or> 0x3048 \<le> unat (conv_weight demo_kernel i j) \<and> unat (conv_weight demo_kernel i j) + 8 \<le> 2 ^ 32"
    by (simp add: j h conv_weight_def tap_fx_def tap_fy_def tap_ci_def demo_kernel_def)
qed (auto simp: inj_on_def set_conv_order demo_kernel_def)

theorem conv_fp64_correct_witness:
  "load64 (cmem (conv_fp64_until_barrier demo_hw demo_fpu demo_kernel 0 1 demo_core)) (conv_out demo_kernel (0, 8, 0))
      = accumulate (fma demo_fpu) (\<lambda>j. load64 (cmem demo_core) (conv_in demo_kernel (0, 8, 0) j))
          (\<lambda>j. load64 (cmem demo_core) (conv_weight demo_kernel (0, 8, 0) j)) (taps demo_kernel)
          (if flag_y_accumulate_start demo_kernel \<noteq> 0 then 0 else load64 (cmem demo_core) (conv_out demo_kernel (0, 8, 0)))
    \<and> load64 (cmem (conv_fp64_until_barrier demo_hw demo_fpu demo_kernel 0 1 demo_core)) 0x4000 = load64 (cmem demo_core) 0x4000"
proof (rule conv_fp64_correct [where cs = "[0]", OF _ _ _ _ _ _ refl])
  have "conv_hw demo_hw demo_kernel" by (simp add: conv_hw_def demo_hw_def demo_kernel_def fits_def w32_def)
  then show "conv_legal demo_hw demo_kernel 0x4000 (conv_order demo_kernel [0])"
    using demo_conv_disjoint by (simp add: conv_legal_def taps_def demo_kernel_def)
  show "conv_idle (lanes demo_core)"
    using demo_ready by (simp add: conv_idle_def demo_core_def) (simp add: demo_ssr_def)
  show "[0] = conv_channels 0 (if (1 :: u32) \<noteq> 0 then 1 else 1) (ch_out demo_kernel)" using demo_channels by simp
qed (simp_all add: taps_def demo_kernel_def)

end
