(* ===== verification/Conv2d_Fp32.thy ===== *)
theory Conv2d_Fp32
  imports Conv2d
begin

text \<open>
  The single precision convolution of \<open>sw/applications/src/kernels/conv2d.c\<close>, up to the hardware barrier that ends the
  convolution proper: two input channels are multiplied at a time and every sum is reduced from a vector at the end.
\<close>

section \<open>The kernel\<close>

definition conv_fp32_setup :: "ssr_hw \<Rightarrow> kernel_fp32 \<Rightarrow> u32 \<Rightarrow> ssrs \<Rightarrow> ssrs" where
  "conv_fp32_setup hw k unroll l = (
    let l = snrt_ssr_loop_4d hw 0 unroll (w32 (ch_in k) div 2) (w32 (dim_kernel_x k)) (w32 (dim_kernel_y k))
          (input_h_stride k * w32 (stride_y k) * 4) (1 * 8) (input_w_stride k * 4) (input_h_stride k * 4) l;
        l = snrt_ssr_loop_3d hw 1 (w32 (ch_in k) div 2) (w32 (dim_kernel_x k)) (w32 (dim_kernel_y k))
          (1 * 8) (kernel_w_stride k * 4) (kernel_h_stride k * 4) l
    in snrt_ssr_repeat hw 1 unroll l)"

definition conv_fp32_asm :: "kernel_fp32 \<Rightarrow> nat \<Rightarrow> asm list" where
  "conv_fp32_asm k u = Frep (w32 (dim_kernel_y k) * w32 (dim_kernel_x k) * w32 (ch_in k) div 2 - 1) u
     # map I (map (\<lambda>i. FOp vfmac_s (acc i) [0, 1, acc i]) [0..<u])
     @ map I (map (\<lambda>i. FOp vfsum_s (red i) [acc i, red i]) [0..<u])"

definition conv_fp32_pixels :: "ssr_hw \<Rightarrow> fpu \<Rightarrow> kernel_fp32 \<Rightarrow> u32 \<Rightarrow> u32 \<Rightarrow> u32 \<Rightarrow> u32 \<Rightarrow> fp_core \<Rightarrow> fp_core" where
  "conv_fp32_pixels hw fpu k unroll co h0 w s = (
    let out = (\<lambda>i. pOutBuffer k + 4 * (h0 * 8 * output_h_stride k + w * output_w_stride k + co) + 4 * (of_nat i * output_h_stride k));
        s = (if flag_y_accumulate_start k \<noteq> 0
          then fold (\<lambda>i s. set_fr (red i) (nan_box 0) (set_fr (acc i) 0 s)) [0..<unat unroll] s
          else fold (\<lambda>i s. exec_fi fpu (Flw (red i) (out i)) (set_fr (acc i) 0 s)) [0..<unat unroll] s);
        s = on_ssrs (snrt_ssr_read hw 0 3 (pInBuffer k
          + 4 * (h0 * 8 * w32 (stride_y k) * input_h_stride k + w * w32 (stride_x k) * input_w_stride k))) s;
        s = on_ssrs (snrt_ssr_read hw 1 2 (pWeight k + 4 * (co * kernel_co_stride k))) s;
        s = snrt_ssr_enable s;
        s = run_asm fpu (conv_fp32_asm k (unat unroll)) s;
        s = snrt_ssr_disable s
    in fold (\<lambda>i s. put32 (out i) (ucast (fregs s (red i))) s) [0..<unat unroll] s)"

definition conv_fp32_rows :: "ssr_hw \<Rightarrow> fpu \<Rightarrow> kernel_fp32 \<Rightarrow> u32 \<Rightarrow> u32 \<Rightarrow> u32 \<Rightarrow> fp_core \<Rightarrow> fp_core" where
  "conv_fp32_rows hw fpu k co unroll h0 = for_u32 (w32 (dim_out_x k)) (conv_fp32_pixels hw fpu k unroll co h0)"

text \<open>\<open>occamy_conv_opt_fp32\<close> up to its hardware barrier.\<close>

definition conv_fp32_until_barrier :: "ssr_hw \<Rightarrow> fpu \<Rightarrow> kernel_fp32 \<Rightarrow> u32 \<Rightarrow> u32 \<Rightarrow> fp_core \<Rightarrow> fp_core" where
  "conv_fp32_until_barrier hw fpu k compute_id compute_core_num s = (
    let compute_num = (if compute_core_num \<noteq> 0 then compute_core_num else 1);
        s = on_ssrs (conv_fp32_setup hw k 8) s
    in fold (\<lambda>co. conv_channel (conv_fp32_setup hw k) (conv_fp32_rows hw fpu k (of_nat co)) k)
         (conv_channels compute_id compute_num (ch_out k)) s)"

section \<open>Reference\<close>

text \<open>Pairs of input channels are the channels of a kernel with half as many.\<close>

definition half :: "kernel_fp32 \<Rightarrow> kernel_fp64" where
  "half k = k\<lparr> ch_in := ch_in k div 2 \<rparr>"

definition conv_out32 :: "kernel_fp32 \<Rightarrow> pixel \<Rightarrow> u32" where
  "conv_out32 k = (\<lambda>(co, h, w). pOutBuffer k + 4 * (of_nat h * output_h_stride k + of_nat w * output_w_stride k + of_nat co))"

definition stores32 :: "(u32 \<times> u32) list \<Rightarrow> mem \<Rightarrow> mem" where
  "stores32 xs m = fold (\<lambda>(a, v) m. store32 m a v) xs m"

definition conv_sum32 :: "fpu \<Rightarrow> kernel_fp32 \<Rightarrow> mem \<Rightarrow> pixel \<Rightarrow> u64" where
  "conv_sum32 fpu k m e = fpu vfsum_s
     [accumulate (\<lambda>x y c. fpu vfmac_s [x, y, c]) (\<lambda>j. load64 m (conv_in (half k) e j)) (\<lambda>j. load64 m (conv_weight (half k) e j)) (taps (half k)) 0,
      nan_box (if flag_y_accumulate_start k \<noteq> 0 then 0 else load32 m (conv_out32 k e))]"

text \<open>
  A group is a band of rows at one column: channel, first row divided by eight, number of rows, column. The
  groups of a channel come in the order of the loops.
\<close>

type_synonym group = "nat \<times> nat \<times> nat \<times> nat"

definition group_pixels :: "group \<Rightarrow> pixel list" where
  "group_pixels = (\<lambda>(co, h0, u, w). map (\<lambda>i. (co, 8 * h0 + i, w)) [0..<u])"

definition conv_groups :: "kernel_fp64 \<Rightarrow> nat \<Rightarrow> group list" where
  "conv_groups k co = concat (map (\<lambda>(h0, u). map (\<lambda>w. (co, h0, u, w)) [0..<unat (dim_out_x k)]) (conv_bands k))"

lemma group_pixels_conv_rows: "concat (map group_pixels (map (\<lambda>w. (co, h0, u, w)) ws)) = concat (map (\<lambda>w. map (\<lambda>i. (co, 8 * h0 + i, w)) [0..<u]) ws)"
  by (simp add: group_pixels_def comp_def)

lemma conv_groups_pixels: "concat (map group_pixels (conv_groups k co)) = conv_pixels k co"
proof -
  have "concat (map group_pixels (concat (map (\<lambda>(h0, u). map (\<lambda>w. (co, h0, u, w)) [0..<unat (dim_out_x k)]) bs)))
      = concat (map (\<lambda>(h0, u). conv_rows k co h0 u) bs)" for bs
    by (induction bs) (auto simp: conv_rows_def group_pixels_conv_rows simp del: map_map)
  then show ?thesis by (simp add: conv_groups_def conv_pixels_def)
qed

lemma conv_order_groups: "concat (map group_pixels (concat (map (conv_groups k) cs))) = conv_order k cs"
  by (induction cs) (simp_all add: conv_order_def conv_groups_pixels)

definition conv_group32 :: "fpu \<Rightarrow> kernel_fp32 \<Rightarrow> group \<Rightarrow> mem \<Rightarrow> mem" where
  "conv_group32 fpu k g m = stores32 (map (\<lambda>e. (conv_out32 k e, ucast (conv_sum32 fpu k m e))) (group_pixels g)) m"

section \<open>Correctness\<close>

definition even_channels :: "kernel_fp32 \<Rightarrow> bool" where
  "even_channels k \<longleftrightarrow> unat (ch_in k) mod 2 = 0"

lemma w32_half:
  assumes "even_channels k"
  shows "w32 (ch_in k) = 2 * w32 (ch_in k div 2)" "w32 (ch_in k) div 2 = w32 (ch_in k div 2)"
proof -
  let ?c = "unat (ch_in k)"
  have c: "2 * (?c div 2) = ?c" using assms by (auto simp: even_channels_def)
  have "unat (2 * w32 (ch_in k div 2)) = 2 * (?c div 2)"
    using unat_lt_2p [of "ch_in k"] by (subst unat_times_no_overflow) (simp_all add: unat_div)
  then have "unat (w32 (ch_in k)) = unat (2 * w32 (ch_in k div 2))" using c by simp
  then show "w32 (ch_in k) = 2 * w32 (ch_in k div 2)" by (rule unsigned_word_eqI)
  have "unat (w32 (ch_in k) div 2) = unat (w32 (ch_in k div 2))" by (simp add: unat_div)
  then show "w32 (ch_in k) div 2 = w32 (ch_in k div 2)" by (rule unsigned_word_eqI)
qed

lemma half_strides:
  assumes "even_channels k"
  shows "input_w_stride k = 2 * input_w_stride (half k)" "input_h_stride k = 2 * input_h_stride (half k)"
    "kernel_w_stride k = 2 * kernel_w_stride (half k)" "kernel_h_stride k = 2 * kernel_h_stride (half k)"
    "kernel_co_stride k = 2 * kernel_co_stride (half k)"
proof -
  show i: "input_w_stride k = 2 * input_w_stride (half k)" "kernel_w_stride k = 2 * kernel_w_stride (half k)"
    using w32_half(1) [OF assms] by (simp_all add: input_w_stride_def kernel_w_stride_def half_def)
  have "dim_in_eff_x (half k) = dim_in_eff_x k" "dim_kernel_x (half k) = dim_kernel_x k" "dim_kernel_y (half k) = dim_kernel_y k"
    by (simp_all add: dim_in_eff_x_def half_def)
  then show "input_h_stride k = 2 * input_h_stride (half k)" "kernel_h_stride k = 2 * kernel_h_stride (half k)"
    "kernel_co_stride k = 2 * kernel_co_stride (half k)"
    by (simp_all add: input_h_stride_def kernel_h_stride_def kernel_co_stride_def i)
qed

lemma half_fields [simp]:
  "ch_in (half k) = ch_in k div 2" "dim_kernel_x (half k) = dim_kernel_x k" "dim_kernel_y (half k) = dim_kernel_y k"
  "stride_x (half k) = stride_x k" "stride_y (half k) = stride_y k" "pInBuffer (half k) = pInBuffer k" "pWeight (half k) = pWeight k"
  by (simp_all add: half_def)

lemma conv_fp32_setup_half:
  assumes "even_channels k"
  shows "conv_fp32_setup hw k u l = conv_fp64_setup hw (half k) u l"
proof -
  have e: "input_h_stride k * w32 (stride_y k) * 4 = input_h_stride (half k) * w32 (stride_y k) * 8"
    "input_w_stride k * 4 = input_w_stride (half k) * 8" "input_h_stride k * 4 = input_h_stride (half k) * 8"
    "kernel_w_stride k * 4 = kernel_w_stride (half k) * 8" "kernel_h_stride k * 4 = kernel_h_stride (half k) * 8"
    using half_strides [OF assms] by simp_all
  show ?thesis unfolding conv_fp32_setup_def conv_fp64_setup_def half_fields e w32_half(2) [OF assms] ..
qed

lemma conv_frep32:
  assumes ev: "even_channels k" and n: "0 < taps (half k)" "taps (half k) \<le> 2 ^ 16"
  shows "unat (w32 (dim_kernel_y k) * w32 (dim_kernel_x k) * w32 (ch_in k) div 2 - 1) < 2 ^ 16"
    "Suc (unat (w32 (dim_kernel_y k) * w32 (dim_kernel_x k) * w32 (ch_in k) div 2 - 1)) = taps (half k)"
proof -
  let ?x = "w32 (dim_kernel_y k) * w32 (dim_kernel_x k)"
  let ?q = "unat (dim_kernel_y k) * unat (dim_kernel_x k)"
  have c: "2 * (unat (ch_in k) div 2) = unat (ch_in k)" using ev by (auto simp: even_channels_def)
  have t: "?q * (unat (ch_in k) div 2) = taps (half k)" by (simp add: taps_def unat_div)
  have "?q \<le> taps (half k)" using n(1) t by (cases "unat (ch_in k) div 2") auto
  then have m: "unat ?x = ?q" using n(2) by (subst unat_times_no_overflow) simp_all
  have "?q * unat (ch_in k) = ?q * (2 * (unat (ch_in k) div 2))" unfolding c ..
  also have "\<dots> = 2 * taps (half k)" unfolding t [symmetric] by (simp only: mult.left_commute)
  finally have q2: "?q * unat (ch_in k) = 2 * taps (half k)" .
  have "unat (?x * w32 (ch_in k)) = 2 * taps (half k)"
    using n(2) q2 by (subst unat_times_no_overflow) (simp_all add: m)
  then have x: "unat (?x * w32 (ch_in k) div 2) = taps (half k)" by (simp add: unat_div)
  have "0 < unat (?x * w32 (ch_in k) div 2)" "unat (?x * w32 (ch_in k) div 2) \<le> 2 ^ 16" unfolding x using n by simp_all
  from frep_count [OF this] show "unat (?x * w32 (ch_in k) div 2 - 1) < 2 ^ 16" "Suc (unat (?x * w32 (ch_in k) div 2 - 1)) = taps (half k)"
    using x by simp_all
qed

text \<open>Registers and memory around the assembly.\<close>

lemma init32:
  "fold (\<lambda>i s. set_fr (red i) (nan_box 0) (set_fr (acc i) 0 s)) [0..<u] s = set_regs 20 u (\<lambda>_. nan_box 0) (set_accs u (\<lambda>_. 0) s)"
  "fold (\<lambda>i s. exec_fi fpu (Flw (red i) (a i)) (set_fr (acc i) 0 s)) [0..<u] s
    = set_regs 20 u (\<lambda>i. nan_box (load32 (cmem s) (a i))) (set_accs u (\<lambda>_. 0) s)" if "u \<le> 8"
proof -
  show "fold (\<lambda>i s. set_fr (red i) (nan_box 0) (set_fr (acc i) 0 s)) [0..<u] s = set_regs 20 u (\<lambda>_. nan_box 0) (set_accs u (\<lambda>_. 0) s)"
    using that
  proof (induction u)
    case 0
    then show ?case by (simp add: set_regs_0)
  next
    case (Suc u)
    then show ?case by (auto simp: set_regs_def set_accs_def set_fr_def acc_def red_def fun_eq_iff less_Suc_eq)
  qed
  show "fold (\<lambda>i s. exec_fi fpu (Flw (red i) (a i)) (set_fr (acc i) 0 s)) [0..<u] s
    = set_regs 20 u (\<lambda>i. nan_box (load32 (cmem s) (a i))) (set_accs u (\<lambda>_. 0) s)"
    using that
  proof (induction u)
    case 0
    then show ?case by (simp add: set_regs_0)
  next
    case (Suc u)
    then show ?case
      by (auto simp: set_regs_def set_accs_def set_fr_def write_fr_def is_stream_def acc_def red_def fun_eq_iff less_Suc_eq)
  qed
qed

lemma spill32: "fold (\<lambda>i s. put32 (a i) (ucast (fregs s (r i))) s) [0..<u] s
    = s\<lparr> cmem := stores32 (map (\<lambda>i. (a i, ucast (fregs s (r i)))) [0..<u]) (cmem s) \<rparr>"
  by (induction u) (simp_all add: put32_def stores32_def)

lemma sum_row:
  assumes "u \<le> 8"
  shows "run_fis fpu (map (\<lambda>i. FOp vfsum_s (red i) [acc i, red i]) [0..<u]) s = set_regs 20 u (\<lambda>i. fpu vfsum_s [fregs s (acc i), fregs s (red i)]) s"
proof -
  have "run_fis fpu (map (\<lambda>i. FOp vfsum_s (20 + i) [acc i, 20 + i]) [0..<u]) s = set_regs 20 u (\<lambda>i. fpu vfsum_s (map (fregs s) [acc i, 20 + i])) s"
    by (rule fop_row) (use assms in \<open>auto simp: acc_def\<close>)
  then show ?thesis by (simp add: red_def)
qed

text \<open>An accumulation over both streams followed by the reduction of every accumulator.\<close>

lemma reduce_block:
  assumes v: "streaming a b p v" and n: "unat n < 2 ^ 16" "Suc (unat n) = T" and u: "u \<le> 8"
    and h: "h = run_asm fpu (Frep n u # map I (map (\<lambda>i. FOp vfmac_s (acc i) [0, 1, acc i]) [0..<u])
      @ map I (map (\<lambda>i. FOp vfsum_s (red i) [acc i, red i]) [0..<u])) v"
  shows "lanes h 0 = lane_after (p + u * T) a" "lanes h 1 = lane_after (p + u * T) b" "cmem h = cmem v"
    "i < u \<Longrightarrow> fregs h (red i) = fpu vfsum_s [accumulate (\<lambda>x y c. fpu vfmac_s [x, y, c]) (\<lambda>t. elem0 a (cmem v) (p + u * t + i))
      (\<lambda>t. elem0 b (cmem v) (p + u * t + i)) T (fregs v (acc i)), fregs v (red i)]"
proof -
  let ?r = "rounds (\<lambda>x y c. fpu vfmac_s [x, y, c]) a b p u T v"
  have h': "h = set_regs 20 u (\<lambda>i. fpu vfsum_s [fregs ?r (acc i), fregs ?r (red i)]) ?r"
    unfolding h run_asm_frep [OF serves_instr(1) v n(1)] n(2) run_asm_instrs sum_row [OF u] ..
  show "lanes h 0 = lane_after (p + u * T) a" "lanes h 1 = lane_after (p + u * T) b" "cmem h = cmem v"
    unfolding h' by (simp_all add: rounds_def)
  assume i: "i < u"
  then have "fregs ?r (red i) = fregs v (red i)" using u by (simp add: rounds_def red_def)
  then show "fregs h (red i) = fpu vfsum_s [accumulate (\<lambda>x y c. fpu vfmac_s [x, y, c]) (\<lambda>t. elem0 a (cmem v) (p + u * t + i))
      (\<lambda>t. elem0 b (cmem v) (p + u * t + i)) T (fregs v (acc i)), fregs v (red i)]"
    using i unfolding h' by (simp add: fregs_set_regs red_def fregs_rounds)
qed

lemma pixels32_spec:
  assumes ev: "even_channels k" and c: "conv_cfg (half k) u (lanes s)" and u: "unat unroll = u" "u \<le> 8"
    and n: "0 < taps (half k)" "taps (half k) \<le> 2 ^ 16"
    and t_def: "t = conv_fp32_pixels hw fpu k unroll (of_nat co) (of_nat h0) (of_nat w) s"
  shows "conv_cfg (half k) u (lanes t) \<and> cmem t = conv_group32 fpu k (co, h0, u, w) (cmem s)"
proof -
  let ?e = "\<lambda>i. (co, 8 * h0 + i, w)" and ?c = "conv_out32 k" and ?k = "half k"
  have out: "pOutBuffer k + 4 * (of_nat h0 * 8 * output_h_stride k + of_nat w * output_w_stride k + of_nat co) + 4 * (of_nat i * output_h_stride k) = ?c (?e i)" for i
    by (simp add: conv_out32_def algebra_simps)
  let ?p = "pInBuffer ?k + 8 * (of_nat h0 * 8 * w32 (stride_y ?k) * input_h_stride ?k + of_nat w * w32 (stride_x ?k) * input_w_stride ?k)"
  let ?q = "pWeight ?k + 8 * (of_nat co * kernel_co_stride ?k)"
  have ptr: "pInBuffer k + 4 * (of_nat h0 * 8 * w32 (stride_y k) * input_h_stride k + of_nat w * w32 (stride_x k) * input_w_stride k) = ?p"
    "pWeight k + 4 * (of_nat co * kernel_co_stride k) = ?q"
    by (simp_all add: half_strides [OF ev] algebra_simps)
  let ?a = "ssr_job (lanes s 0) 3 ?p" and ?b = "ssr_job (lanes s 1) 2 ?q"
  let ?z = "\<lambda>i. nan_box (if flag_y_accumulate_start k \<noteq> 0 then 0 else load32 (cmem s) (?c (?e i)))"
  define v where "v = (set_regs 20 u ?z (set_accs u (\<lambda>_. 0) s))\<lparr> lanes := (lanes s)(0 := ?a, 1 := ?b), ssr_on := True \<rparr>"
  have i: "idle (lanes s 0)" "idle (lanes s 1)" using c by (simp_all add: conv_cfg_def ssr_ready_def)
  have init: "(if flag_y_accumulate_start k \<noteq> 0 then fold (\<lambda>i s. set_fr (red i) (nan_box 0) (set_fr (acc i) 0 s)) [0..<u] s
      else fold (\<lambda>i s. exec_fi fpu (Flw (red i) (?c (?e i))) (set_fr (acc i) 0 s)) [0..<u] s) = set_regs 20 u ?z (set_accs u (\<lambda>_. 0) s)"
    unfolding init32 [OF u(2)] by simp
  have v: "streaming ?a ?b 0 v" by (simp add: v_def streaming_def)
  let ?h = "run_asm fpu (conv_fp32_asm k u) v"
  note B = reduce_block [OF v conv_frep32 [OF ev n] u(2), where fpu = fpu, OF conv_fp32_asm_def [of k u, THEN arg_cong [where f = "\<lambda>c. run_asm fpu c v"]],
    unfolded add_0]
  have t: "t = (snrt_ssr_disable ?h)\<lparr> cmem := stores32 (map (\<lambda>i. (?c (?e i), ucast (fregs ?h (red i)))) [0..<u]) (cmem s) \<rparr>"
    unfolding t_def conv_fp32_pixels_def Let_def u(1) out ptr init spill32
    using i B(3) by (simp add: on_ssrs_def snrt_ssr_read_job snrt_ssr_enable_def snrt_ssr_disable_def v_def)
  have l: "lanes t 0 = lane_after (u * taps ?k) ?a" "lanes t 1 = lane_after (u * taps ?k) ?b"
    unfolding t using B(1,2) by (simp_all add: snrt_ssr_disable_def)
  have cv: "cmem v = cmem s" by (simp add: v_def)
  have fv: "fregs v (acc i) = 0" "fregs v (red i) = ?z i" if "i < u" for i
    using that u(2) by (simp_all add: v_def set_accs_def fregs_set_regs acc_def red_def)
  have el: "elem0 ?a (cmem s) (u * t + i) = load64 (cmem s) (conv_in ?k (?e i) t)"
    "elem0 ?b (cmem s) (u * t + i) = load64 (cmem s) (conv_weight ?k (?e i) t)" if "t < taps ?k" "i < u" for t i
    by (simp_all only: elem0_def conv_streams [OF c that, where co = co and ?h0.0 = h0 and w = w])
  have ac: "accumulate (\<lambda>x y c. fpu vfmac_s [x, y, c]) (\<lambda>t. elem0 ?a (cmem s) (u * t + i)) (\<lambda>t. elem0 ?b (cmem s) (u * t + i)) (taps ?k) 0
      = accumulate (\<lambda>x y c. fpu vfmac_s [x, y, c]) (\<lambda>j. load64 (cmem s) (conv_in ?k (?e i) j)) (\<lambda>j. load64 (cmem s) (conv_weight ?k (?e i) j)) (taps ?k) 0"
    if "i < u" for i
    by (rule accumulate_cong) (simp_all only: el that)
  have "fregs ?h (red i) = conv_sum32 fpu k (cmem s) (?e i)" if "i < u" for i
    unfolding B(4) [OF that] cv fv [OF that] ac [OF that] conv_sum32_def ..
  then have "cmem t = conv_group32 fpu k (co, h0, u, w) (cmem s)"
    unfolding t conv_group32_def group_pixels_def by (auto intro!: arg_cong [where f = "\<lambda>xs. stores32 xs (cmem s)"] map_cong)
  then show ?thesis using conv_cfg_after [OF c l] by blast
qed

text \<open>With an even number of input channels and dimensions that fit, the single precision kernel meets the contract.\<close>

definition conv_legal32 :: "ssr_hw \<Rightarrow> kernel_fp32 \<Rightarrow> bool" where
  "conv_legal32 hw k \<longleftrightarrow> even_channels k \<and> 0 < taps (half k) \<and> taps (half k) \<le> 2 ^ 16 \<and> conv_hw hw (half k)"

lemma fp32_rows_effect:
  assumes c: "conv_cfg (half k) (unat u) (lanes s)" and leg: "conv_legal32 hw k" and u: "unat u \<le> 8"
    and t: "t = conv_fp32_rows hw fpu k (of_nat co) u (of_nat h0) s"
  shows "conv_cfg (half k) (unat u) (lanes t)
    \<and> cmem t = fold (conv_group32 fpu k) (map (\<lambda>w. (co, h0, unat u, w)) [0..<unat (dim_out_x k)]) (cmem s)"
proof -
  let ?f = "\<lambda>w. conv_fp32_pixels hw fpu k u (of_nat co) (of_nat h0) (of_nat w)" and ?n = "unat (dim_out_x k)"
  have h: "even_channels k" "0 < taps (half k)" "taps (half k) \<le> 2 ^ 16" using leg by (simp_all add: conv_legal32_def)
  have "conv_cfg (half k) (unat u) (lanes (fold ?f [0..<?n] s)) \<and> cmem (fold ?f [0..<?n] s)
      = fold (conv_group32 fpu k) (concat (map (\<lambda>w. [(co, h0, unat u, w)]) [0..<?n])) (cmem s)"
    by (rule fold_effects [where P = "\<lambda>s. conv_cfg (half k) (unat u) (lanes s)", OF _ c])
      (use pixels32_spec [OF h(1) _ refl u h(2,3) refl] in simp)
  then show ?thesis unfolding t conv_fp32_rows_def for_u32_def by simp
qed

interpretation fp32: conv_kernel k "conv_fp32_setup hw k" "\<lambda>co. conv_fp32_rows hw fpu k (of_nat co)"
  "\<lambda>l. conv_legal32 hw k \<and> conv_idle l" "\<lambda>u l. conv_legal32 hw k \<and> conv_cfg (half k) u l"
  "\<lambda>co (h0, u). fold (conv_group32 fpu k) (map (\<lambda>w. (co, h0, u, w)) [0..<unat (dim_out_x k)])" UNIV
  for k hw fpu
proof
  fix l u
  assume a: "conv_legal32 hw k \<and> conv_idle l" "0 < unat (u :: u32)" "unat u \<le> 8"
  then have "conv_cfg (half k) (unat u) (conv_fp64_setup hw (half k) u l)"
    by (intro conv_setup_cfg) (auto simp: unat_gt_0 conv_legal32_def)
  then show "conv_legal32 hw k \<and> conv_cfg (half k) (unat u) (conv_fp32_setup hw k u l)"
    using a by (simp add: conv_fp32_setup_half conv_legal32_def)
next
  fix u s c h0
  assume "conv_legal32 hw k \<and> conv_cfg (half k) (unat (u :: u32)) (lanes (s :: fp_core))" "unat u \<le> 8"
  then show "(conv_legal32 hw k \<and> conv_cfg (half k) (unat u) (lanes (conv_fp32_rows hw fpu k (of_nat c) u (of_nat h0) s)))
      \<and> cmem (conv_fp32_rows hw fpu k (of_nat c) u (of_nat h0) s)
        = (case (h0, unat u) of (h0, u) \<Rightarrow> fold (conv_group32 fpu k) (map (\<lambda>w. (c, h0, u, w)) [0..<unat (dim_out_x k)])) (cmem s)"
    using fp32_rows_effect [OF _ _ _ refl, of k u s hw fpu c h0] by auto
qed (use conv_cfg_idle in auto)

lemma fold_bands:
  "fold (\<lambda>c. fold (\<lambda>(h0, u). fold f (L c h0 u)) bs) cs m = fold f (concat (map (\<lambda>c. concat (map (\<lambda>(h0, u). L c h0 u) bs)) cs)) m"
proof -
  have "fold (\<lambda>(h0, u). fold f (L c h0 u)) bs = fold f (concat (map (\<lambda>(h0, u). L c h0 u) bs))" for c
    by (induction bs) auto
  then show ?thesis by (induction cs arbitrary: m) simp_all
qed

text \<open>
  C24: the single precision convolution. For an even number of input channels, dimensions that fit and idle data
  movers, the kernel acts on memory as the sequence of groups of up to eight output rows, each pixel of a group being the
  reduction of the old value (or zero) and of the vector sum of input times weight over the filter and
  all pairs of input channels; the groups cover each output pixel of the core's channels exactly once.
\<close>

theorem conv_fp32_refines:
  assumes leg: "conv_legal32 hw k" and l: "conv_idle (lanes s)"
    and cs: "cs = conv_channels compute_id (if cores \<noteq> 0 then cores else 1) (ch_out k)"
    and gs: "gs = concat (map (conv_groups k) cs)"
    and t: "t = conv_fp32_until_barrier hw fpu k compute_id cores s"
  shows "cmem t = fold (conv_group32 fpu k) gs (cmem s) \<and> distinct (concat (map group_pixels gs))
    \<and> set (concat (map group_pixels gs)) = {(co, h, w). co \<in> set cs \<and> h < unat (dim_out_y k) \<and> w < unat (dim_out_x k)}"
proof -
  have "cmem t = fold (\<lambda>co. fold (\<lambda>(h0, u). fold (conv_group32 fpu k) (map (\<lambda>w. (co, h0, u, w)) [0..<unat (dim_out_x k)])) (conv_bands k)) cs (cmem s)"
    using fp32.channels_effect [of hw k s cs] leg l unfolding t conv_fp32_until_barrier_def Let_def cs by simp
  then have "cmem t = fold (conv_group32 fpu k) gs (cmem s)" unfolding fold_bands gs conv_groups_def [abs_def] .
  moreover have "distinct (concat (map group_pixels gs))"
    unfolding gs conv_order_groups cs by (intro distinct_conv_order distinct_conv_channels)
  ultimately show ?thesis unfolding gs conv_order_groups by (simp add: set_conv_order)
qed

definition demo_kernel32 :: kernel_fp32 where
  "demo_kernel32 = demo_kernel\<lparr> ch_in := 2 \<rparr>"

theorem conv_fp32_refines_witness:
  "cmem (conv_fp32_until_barrier demo_hw demo_fpu demo_kernel32 0 1 demo_core)
      = fold (conv_group32 demo_fpu demo_kernel32) (concat (map (conv_groups demo_kernel32) [0])) (cmem demo_core)
    \<and> distinct (concat (map group_pixels (concat (map (conv_groups demo_kernel32) [0]))))
    \<and> set (concat (map group_pixels (concat (map (conv_groups demo_kernel32) [0]))))
      = {(co, h, w). co \<in> set [0] \<and> h < unat (dim_out_y demo_kernel32) \<and> w < unat (dim_out_x demo_kernel32)}"
proof (rule conv_fp32_refines [OF _ _ _ refl refl])
  have "conv_hw demo_hw (half demo_kernel32)"
    by (simp add: conv_hw_def demo_hw_def demo_kernel32_def demo_kernel_def half_def fits_def w32_def)
  then show "conv_legal32 demo_hw demo_kernel32"
    by (simp add: conv_legal32_def even_channels_def taps_def demo_kernel32_def demo_kernel_def half_def)
  show "conv_idle (lanes demo_core)"
    using demo_ready by (simp add: conv_idle_def demo_core_def) (simp add: demo_ssr_def)
  show "[0] = conv_channels 0 (if (1 :: u32) \<noteq> 0 then 1 else 1) (ch_out demo_kernel32)"
    using demo_channels by (simp add: demo_kernel32_def)
qed

end
