(* ===== verification/Conv2d_Strip.thy ===== *)
theory Conv2d_Strip
  imports Conv2d_Fp32
begin

text \<open>
  The depthwise convolution of \<open>sw/applications/src/kernels/conv2d.c\<close>, up to the hardware barrier that ends it, and what it
  shares with the convolution on planar input: one pair of streams serves a whole band of output rows, and streaming is switched
  off and on between its columns, so the position in the streams carries from one column to the next.
\<close>

section \<open>The depthwise kernel\<close>

definition conv_dw_setup :: "ssr_hw \<Rightarrow> kernel_fp32 \<Rightarrow> u32 \<Rightarrow> ssrs \<Rightarrow> ssrs" where
  "conv_dw_setup hw k unroll l = (
    let l = snrt_ssr_loop_4d hw 0 unroll (w32 (dim_kernel_x k)) (w32 (dim_kernel_y k)) (w32 (dim_out_x k))
          (input_h_stride k * w32 (stride_y k) * 4) (input_w_stride k * 4) (input_h_stride k * 4) (input_w_stride k * w32 (stride_x k) * 4) l;
        l = snrt_ssr_loop_3d hw 1 (w32 (dim_kernel_x k)) (w32 (dim_kernel_y k)) (w32 (dim_out_x k))
          (kernel_w_stride k * 4) (kernel_h_stride k * 4) 0 l
    in snrt_ssr_repeat hw 1 unroll l)"

text \<open>Results are pairs of single precision numbers; the code indexes them with half the row distance.\<close>

definition conv_dw_pixels :: "fpu \<Rightarrow> kernel_fp32 \<Rightarrow> u32 \<Rightarrow> u32 \<Rightarrow> u32 \<Rightarrow> u32 \<Rightarrow> fp_core \<Rightarrow> fp_core" where
  "conv_dw_pixels fpu k unroll co h0 w s = (
    let out = (\<lambda>i. pOutBuffer k + 4 * (h0 * 8 * output_h_stride k + w * output_w_stride k + co) + 8 * (of_nat i * output_h_stride k div 2));
        s = (if flag_y_accumulate_start k \<noteq> 0
          then fold (\<lambda>i. set_fr (acc i) 0) [0..<unat unroll] s
          else fold (\<lambda>i. exec_fi fpu (Fld (acc i) (out i))) [0..<unat unroll] s);
        s = snrt_ssr_enable s;
        s = run_asm fpu (Frep (w32 (dim_kernel_y k) * w32 (dim_kernel_x k) - 1) (unat unroll)
          # map I (map (\<lambda>i. FOp vfmac_s (acc i) [0, 1, acc i]) [0..<unat unroll])) s;
        s = snrt_ssr_disable s
    in fold (\<lambda>i s. put64 (out i) (fregs s (acc i)) s) [0..<unat unroll] s)"

definition conv_dw_rows :: "ssr_hw \<Rightarrow> fpu \<Rightarrow> kernel_fp32 \<Rightarrow> u32 \<Rightarrow> u32 \<Rightarrow> u32 \<Rightarrow> fp_core \<Rightarrow> fp_core" where
  "conv_dw_rows hw fpu k co unroll h0 s = (
    let s = on_ssrs (snrt_ssr_read hw 0 3 (pInBuffer k + 4 * (h0 * 8 * w32 (stride_y k) * input_h_stride k + co))) s;
        s = on_ssrs (snrt_ssr_read hw 1 2 (pWeight k + 4 * co)) s
    in for_u32 (w32 (dim_out_x k)) (conv_dw_pixels fpu k unroll co h0) s)"

text \<open>\<open>occamy_conv_dw_opt_fp32\<close> up to its hardware barrier; a core takes every \<open>compute_num\<close>-th pair of channels.\<close>

definition conv_dw_until_barrier :: "ssr_hw \<Rightarrow> fpu \<Rightarrow> kernel_fp32 \<Rightarrow> u32 \<Rightarrow> u32 \<Rightarrow> fp_core \<Rightarrow> fp_core" where
  "conv_dw_until_barrier hw fpu k compute_id compute_core_num s = (
    let compute_num = (if compute_core_num \<noteq> 0 then compute_core_num else 1);
        s = on_ssrs (conv_dw_setup hw k 8) s
    in fold (\<lambda>co. conv_channel (conv_dw_setup hw k) (conv_dw_rows hw fpu k (of_nat co)) k)
         (conv_channels (compute_id * 2) (compute_num * 2) (ch_out k)) s)"

section \<open>Streams over a band of rows\<close>

text \<open>
  The configurations of the two kernels share a shape: \<open>u\<close> rows and a filter of \<open>n0\<close> by \<open>n1\<close> elements, for each of \<open>X\<close> columns; the second
  stream repeats every element for each row and starts anew for each column.
\<close>

definition strip_cfg :: "nat \<Rightarrow> nat \<Rightarrow> nat \<Rightarrow> u32 list \<Rightarrow> u32 list \<Rightarrow> nat \<Rightarrow> ssrs \<Rightarrow> bool" where
  "strip_cfg n0 n1 X as bs u l \<longleftrightarrow> ssr_ready (l 0) \<and> ssr_ready (l 1)
     \<and> ssr_cfg (l 0) 3 1 [u, n0, n1, X] as \<and> (\<exists>s3. ssr_cfg (l 1) 2 u [n0, n1, X, 1] (bs @ [0, s3]))"

lemma strip_addr:
  assumes c: "strip_cfg n0 n1 X [a0, a1, a2, a3] [b0, b1] u l" and t: "t < n0 * n1" and i: "i < u" and w: "w < X"
  shows "lane_addr (ssr_job (l 0) 3 p) (u * (n0 * n1 * w) + u * t + i)
      = p + of_nat i * a0 + of_nat (t mod n0) * a1 + of_nat (t div n0) * a2 + of_nat w * a3"
    and "lane_addr (ssr_job (l 1) 2 q) (u * (n0 * n1 * w) + u * t + i) = q + of_nat (t mod n0) * b0 + of_nat (t div n0) * b1"
proof -
  have x: "t mod n0 < n0" "t div n0 < n1" using t by (auto simp: less_mult_imp_div_less mult.commute intro!: mod_less_divisor gr0I)
  have e: "n0 * n1 * w + t = t mod n0 + n0 * (t div n0 + n1 * w)" by (simp add: algebra_simps)
  have e0: "0 + 1 * (i + u * (t mod n0 + n0 * (t div n0 + n1 * w))) = u * (n0 * n1 * w) + u * t + i"
    unfolding e [symmetric] by (simp add: algebra_simps)
  have e1: "i + u * (t mod n0 + n0 * (t div n0 + n1 * (w + X * 0))) = u * (n0 * n1 * w) + u * t + i" using e0 by simp
  have a: "ssr_ready (l 0)" "ssr_cfg (l 0) 3 1 [u, n0, n1, X] [a0, a1, a2, a3]" using c by (simp_all add: strip_cfg_def)
  show "lane_addr (ssr_job (l 0) 3 p) (u * (n0 * n1 * w) + u * t + i)
      = p + of_nat i * a0 + of_nat (t mod n0) * a1 + of_nat (t div n0) * a2 + of_nat w * a3"
    using ssr_job_addr [OF a zero_less_one i x w, of p] unfolding e0 .
  obtain s3 where b: "ssr_ready (l 1)" "ssr_cfg (l 1) 2 u [n0, n1, X, 1] [b0, b1, 0, s3]" using c by (auto simp: strip_cfg_def)
  show "lane_addr (ssr_job (l 1) 2 q) (u * (n0 * n1 * w) + u * t + i) = q + of_nat (t mod n0) * b0 + of_nat (t div n0) * b1"
    using ssr_job_addr [OF b i x w zero_less_one, of q] unfolding e1 by simp
qed

lemma strip_end:
  assumes c: "strip_cfg n0 n1 X as bs u l"
    and l': "l' 0 = lane_after (u * (n0 * n1 * X)) (ssr_job (l 0) 3 p)" "l' 1 = lane_after (u * (n0 * n1 * X)) (ssr_job (l 1) 2 q)"
  shows "strip_cfg n0 n1 X as bs u l'"
proof -
  have a: "ssr_ready (l 0)" "ssr_cfg (l 0) 3 1 [u, n0, n1, X] as" using c by (simp_all add: strip_cfg_def)
  obtain s3 where b: "ssr_ready (l 1)" "ssr_cfg (l 1) 2 u [n0, n1, X, 1] (bs @ [0, s3])" using c by (auto simp: strip_cfg_def)
  have n: "1 * (u * (n0 * (n1 * X))) = u * (n0 * n1 * X)" "u * (n0 * (n1 * (X * 1))) = u * (n0 * n1 * X)" by (simp_all add: mult.assoc)
  show ?thesis
    using ssr_job_end [OF a, of p] ssr_job_end [OF b, of q] unfolding strip_cfg_def l' n by blast
qed

text \<open>Columns are worked off from left to right.\<close>

definition strip_at :: "agen \<Rightarrow> agen \<Rightarrow> nat \<Rightarrow> fp_core \<Rightarrow> bool" where
  "strip_at a b p s \<longleftrightarrow> lanes s 0 = lane_after p a \<and> lanes s 1 = lane_after p b"

lemma strip_columns:
  assumes "\<And>w s. w < X \<Longrightarrow> strip_at a b (u * (n * w)) s \<Longrightarrow> strip_at a b (u * (n * Suc w)) (f w s) \<and> cmem (f w s) = g w (cmem s)" "strip_at a b 0 s"
  shows "j \<le> X \<Longrightarrow> strip_at a b (u * (n * j)) (fold f [0..<j] s) \<and> cmem (fold f [0..<j] s) = fold g [0..<j] (cmem s)"
  by (induction j) (use assms in simp_all)

lemma strip_idle: "strip_cfg n0 n1 X as bs u l \<Longrightarrow> conv_idle l"
  by (auto simp: strip_cfg_def conv_idle_def ssr_cfg_def start_job_def Let_def unat_eq_zero)

lemma strip_setup:
  assumes l: "conv_idle l" and f: "fits (IndexWidth hw) b0" "fits (IndexWidth hw) b1" "fits (IndexWidth hw) X"
    and h8: "fits (IndexWidth hw) 8" "fits (RptWidth hw) 8" and u: "0 < unat u" "unat u \<le> 8"
    and a: "a0 = 8 * k0" "a1 = 8 * k1" "a2 = 8 * k2" "a3 = 8 * k3" and b: "c0 = 8 * m0" "c1 = 8 * m1"
  shows "strip_cfg (unat b0) (unat b1) (unat X) [a0, a1, a2, a3] [c0, c1] (unat u)
    (snrt_ssr_repeat hw 1 u (snrt_ssr_loop_3d hw 1 b0 b1 X c0 c1 0 (snrt_ssr_loop_4d hw 0 u b0 b1 X a0 a1 a2 a3 l)))" (is "strip_cfg _ _ _ _ _ _ ?l")
proof -
  have u0: "u \<noteq> 0" using u(1) by (simp add: unat_gt_0)
  have fu: "fits (IndexWidth hw) u" "fits (RptWidth hw) u" using u u0 by (auto intro: fits_le [OF h8(1)] fits_le [OF h8(2)])
  let ?dm0 = "snrt_ssr_loop_4d hw 0 u b0 b1 X a0 a1 a2 a3 l"
  have z: "?l 0 = ?dm0 0" by (simp add: ssr_frame)
  have "ssr_cfg (?l 0) 3 1 [unat u, unat b0, unat b1, unat X] [a0, a1, a2, a3]"
    by (rule cfg_4d [OF z _ fu(1) f a]) (use l in \<open>simp add: conv_idle_def\<close>)
  moreover have "\<exists>s3. ssr_cfg (?l 1) 2 (unat u) [unat b0, unat b1, unat X, 1] [c0, c1, 0, s3]"
    by (rule cfg_3d_of_3 [where ?k2.0 = 0, OF refl f fu(2) b]) simp
  moreover have "ssr_ready (?l 0) \<and> ssr_ready (?l 1)" using l by (simp add: conv_idle_def ssr_ready_cfg)
  ultimately show ?thesis by (simp add: strip_cfg_def)
qed

section \<open>Correctness of the depthwise kernel\<close>

definition dw_taps :: "kernel_fp32 \<Rightarrow> nat" where
  "dw_taps k = unat (dim_kernel_x k) * unat (dim_kernel_y k)"

definition dw_in :: "kernel_fp32 \<Rightarrow> pixel \<Rightarrow> nat \<Rightarrow> u32" where
  "dw_in k = (\<lambda>(co, h, w) t. pInBuffer k + 4 * ((of_nat h * w32 (stride_y k) + of_nat (t div unat (dim_kernel_x k))) * input_h_stride k
     + (of_nat w * w32 (stride_x k) + of_nat (t mod unat (dim_kernel_x k))) * input_w_stride k + of_nat co))"

definition dw_weight :: "kernel_fp32 \<Rightarrow> pixel \<Rightarrow> nat \<Rightarrow> u32" where
  "dw_weight k = (\<lambda>(co, h, w) t. pWeight k + 4 * (of_nat (t div unat (dim_kernel_x k)) * kernel_h_stride k
     + of_nat (t mod unat (dim_kernel_x k)) * kernel_w_stride k + of_nat co))"

text \<open>
  Channels come in pairs, the dimensions fit the hardware, a band of eight rows of results fits the address space, and
  results overlap neither each other nor operands.
\<close>

definition dw_legal :: "ssr_hw \<Rightarrow> kernel_fp32 \<Rightarrow> u32 \<Rightarrow> pixel list \<Rightarrow> bool" where
  "dw_legal hw k q es \<longleftrightarrow> even_channels k \<and> unat (ch_out k) mod 2 = 0 \<and> 0 < dw_taps k \<and> dw_taps k \<le> 2 ^ 16
     \<and> 8 * (unat (ch_out k) * unat (dim_out_x k)) < 2 ^ 32
     \<and> fits (IndexWidth hw) (w32 (dim_kernel_x k)) \<and> fits (IndexWidth hw) (w32 (dim_kernel_y k))
     \<and> fits (IndexWidth hw) (w32 (dim_out_x k)) \<and> fits (IndexWidth hw) 8 \<and> fits (RptWidth hw) 8
     \<and> disjoint_ops q (conv_out32 k) (dw_in k) (dw_weight k) (dw_taps k) es"

abbreviation vmac :: "fpu \<Rightarrow> u64 \<Rightarrow> u64 \<Rightarrow> u64 \<Rightarrow> u64" where
  "vmac fpu \<equiv> \<lambda>x y c. fpu vfmac_s [x, y, c]"

abbreviation dw_cells :: "fpu \<Rightarrow> kernel_fp32 \<Rightarrow> pixel list \<Rightarrow> mem \<Rightarrow> mem" where
  "dw_cells fpu k \<equiv> cells (vmac fpu) (conv_start k) (dw_taps k) (dw_in k) (dw_weight k) (conv_out32 k)"

definition dw_cfg :: "kernel_fp32 \<Rightarrow> nat \<Rightarrow> ssrs \<Rightarrow> bool" where
  "dw_cfg k = strip_cfg (unat (dim_kernel_x k)) (unat (dim_kernel_y k)) (unat (dim_out_x k))
     [input_h_stride k * w32 (stride_y k) * 4, input_w_stride k * 4, input_h_stride k * 4, input_w_stride k * w32 (stride_x k) * 4]
     [kernel_w_stride k * 4, kernel_h_stride k * 4]"

lemma dw_setup_cfg:
  assumes "dw_legal hw k q es" "conv_idle l" "0 < unat u" "unat u \<le> 8"
  shows "dw_cfg k (unat u) (conv_dw_setup hw k u l)"
proof -
  have ev: "even_channels k" using assms(1) by (simp add: dw_legal_def)
  have "strip_cfg (unat (w32 (dim_kernel_x k))) (unat (w32 (dim_kernel_y k))) (unat (w32 (dim_out_x k)))
     [input_h_stride k * w32 (stride_y k) * 4, input_w_stride k * 4, input_h_stride k * 4, input_w_stride k * w32 (stride_x k) * 4]
     [kernel_w_stride k * 4, kernel_h_stride k * 4] (unat u) (conv_dw_setup hw k u l)"
    unfolding conv_dw_setup_def Let_def
    by (rule strip_setup [where ?k0.0 = "input_h_stride (half k) * w32 (stride_y k)" and ?k1.0 = "input_w_stride (half k)"
          and ?k2.0 = "input_h_stride (half k)" and ?k3.0 = "input_w_stride (half k) * w32 (stride_x k)"
          and ?m0.0 = "kernel_w_stride (half k)" and ?m1.0 = "kernel_h_stride (half k)"])
      (use assms half_strides [OF ev] in \<open>simp_all add: dw_legal_def\<close>)
  then show ?thesis by (simp add: dw_cfg_def)
qed

text \<open>Half the distance of rows, taken as pairs, is the distance of rows.\<close>

lemma dw_row_distance:
  assumes "dw_legal hw k q es" "i < 8"
  shows "8 * (of_nat i * output_h_stride k div 2) = 4 * (of_nat i * output_h_stride k)"
proof -
  let ?x = "unat (ch_out k) * unat (dim_out_x k)"
  have h: "unat (ch_out k) mod 2 = 0" "8 * ?x < 2 ^ 32" using assms(1) by (simp_all add: dw_legal_def)
  have "unat (output_h_stride k) = ?x"
    using h(2) by (simp add: output_h_stride_def output_w_stride_def unat_times_no_overflow)
  moreover have "i * ?x < 2 ^ 32" using assms(2) h(2) mult_le_mono1 [of i 8 ?x] by linarith
  moreover have "unat (of_nat i :: u32) = i" using assms(2) by (intro unat_of_nat_small) simp_all
  ultimately have u: "unat (of_nat i * output_h_stride k) = i * ?x" by (subst unat_times_no_overflow) simp_all
  have "2 dvd i * ?x" using h(1) by auto
  then have "unat (of_nat i * output_h_stride k) mod 2 = 0" unfolding u by auto
  then have "unat (of_nat i * output_h_stride k mod 2) = unat (0 :: u32)" by (simp add: unat_mod)
  then have "of_nat i * output_h_stride k mod 2 = 0" by (rule unsigned_word_eqI)
  then have "2 * (of_nat i * output_h_stride k div 2) = of_nat i * output_h_stride k"
    using word_mod_div_equality [of "of_nat i * output_h_stride k" 2] by (simp add: mult.commute)
  then have "4 * (2 * (of_nat i * output_h_stride k div 2)) = 4 * (of_nat i * output_h_stride k)" by (rule arg_cong [where f = "(*) 4"])
  then show ?thesis by simp
qed

lemma dw_frep:
  assumes "0 < dw_taps k" "dw_taps k \<le> 2 ^ 16"
  shows "unat (w32 (dim_kernel_y k) * w32 (dim_kernel_x k) - 1) < 2 ^ 16" "Suc (unat (w32 (dim_kernel_y k) * w32 (dim_kernel_x k) - 1)) = dw_taps k"
proof -
  let ?x = "w32 (dim_kernel_y k) * w32 (dim_kernel_x k)"
  have x: "unat ?x = dw_taps k"
    using assms(2) by (subst unat_times_no_overflow) (simp_all add: dw_taps_def mult.commute)
  have "0 < unat ?x" "unat ?x \<le> 2 ^ 16" unfolding x using assms by simp_all
  from frep_count [OF this] show "unat (?x - 1) < 2 ^ 16" "Suc (unat (?x - 1)) = dw_taps k" using x by simp_all
qed

lemma dw_pixels_spec:
  assumes c: "dw_cfg k u l" and leg: "dw_legal hw k q es" and u: "unat unroll = u" "u \<le> 8" and w: "w < unat (dim_out_x k)"
    and a: "a = ssr_job (l 0) 3 (pInBuffer k + 4 * (of_nat h0 * 8 * w32 (stride_y k) * input_h_stride k + of_nat co))"
    and b: "b = ssr_job (l 1) 2 (pWeight k + 4 * of_nat co)"
    and s: "strip_at a b (u * (dw_taps k * w)) s" and e: "\<And>i. i < u \<Longrightarrow> (co, 8 * h0 + i, w) \<in> set es"
    and t_def: "t = conv_dw_pixels fpu k unroll (of_nat co) (of_nat h0) (of_nat w) s"
  shows "strip_at a b (u * (dw_taps k * Suc w)) t \<and> cmem t = dw_cells fpu k (map (\<lambda>i. (co, 8 * h0 + i, w)) [0..<u]) (cmem s)"
proof -
  let ?e = "\<lambda>i. (co, 8 * h0 + i, w)" and ?c = "conv_out32 k" and ?T = "dw_taps k" and ?p = "u * (dw_taps k * w)"
  let ?o = "\<lambda>i. pOutBuffer k + 4 * (of_nat h0 * 8 * output_h_stride k + of_nat w * output_w_stride k + of_nat co)
    + 8 * (of_nat i * output_h_stride k div 2)"
  have n: "0 < ?T" "?T \<le> 2 ^ 16" and d: "disjoint_ops q ?c (dw_in k) (dw_weight k) ?T es" using leg by (simp_all add: dw_legal_def)
  have o: "?o i = ?c (?e i)" if "i < u" for i
    using that u(2) by (subst dw_row_distance [OF leg]) (simp_all add: conv_out32_def algebra_simps)
  define v where "v = (set_accs u (\<lambda>i. conv_start k (load64 (cmem s) (?o i))) s)\<lparr> ssr_on := True \<rparr>"
  have init: "(if flag_y_accumulate_start k \<noteq> 0 then fold (\<lambda>i. set_fr (acc i) 0) [0..<u] s
      else fold (\<lambda>i. exec_fi fpu (Fld (acc i) (?o i))) [0..<u] s) = set_accs u (\<lambda>i. conv_start k (load64 (cmem s) (?o i))) s"
    unfolding fill_load fill_const [where v = "\<lambda>_. 0"] by (simp add: conv_start_def)
  have v: "streaming a b ?p v" using s by (simp add: v_def streaming_def strip_at_def)
  let ?r = "rounds (vmac fpu) a b ?p u ?T v"
  note loop = run_asm_frep [OF serves_instr(1) v dw_frep(1) [OF n], where u = u and rest = "[]", unfolded dw_frep(2) [OF n] append_Nil2 run_asm.simps(1)]
  have t: "t = (snrt_ssr_disable ?r)\<lparr> cmem := stores (map (\<lambda>i. (?o i, fregs ?r (acc i))) [0..<u]) (cmem s) \<rparr>"
    unfolding t_def conv_dw_pixels_def Let_def u(1) init spill
    using loop by (simp add: snrt_ssr_enable_def snrt_ssr_disable_def v_def del: map_map)
  have l: "strip_at a b (u * (?T * Suc w)) t"
    unfolding t strip_at_def by (simp add: snrt_ssr_disable_def rounds_def algebra_simps)
  have cv: "cmem v = cmem s" by (simp add: v_def)
  have fv: "fregs v (acc i) = conv_start k (load64 (cmem s) (?c (?e i)))" if "i < u" for i
  proof -
    have "fregs v (acc i) = conv_start k (load64 (cmem s) (?o i))" using that by (simp add: v_def set_accs_def acc_def)
    then show ?thesis unfolding o [OF that] .
  qed
  have el: "elem0 a (cmem s) (?p + u * t + i) = load64 (cmem s) (dw_in k (?e i) t)"
    "elem0 b (cmem s) (?p + u * t + i) = load64 (cmem s) (dw_weight k (?e i) t)" if "t < ?T" "i < u" for t i
    unfolding elem0_def a b dw_taps_def strip_addr [OF c [unfolded dw_cfg_def] that(1) [unfolded dw_taps_def] that(2) w]
    by (simp_all add: dw_in_def dw_weight_def algebra_simps)
  have val: "fregs ?r (acc i) = cell_value (vmac fpu) (conv_start k) ?T (dw_in k (?e i)) (dw_weight k (?e i)) (?c (?e i)) (cmem s)" if "i < u" for i
    unfolding fregs_rounds [OF that] cell_value_def cv by (rule accumulate_cong) (simp_all only: el that fv)
  have m: "map (\<lambda>i. (?o i, fregs ?r (acc i))) [0..<u] = map (\<lambda>i. (?c (?e i), cell_value (vmac fpu) (conv_start k) ?T (dw_in k (?e i)) (dw_weight k (?e i))
      (?c (?e i)) (cmem s))) [0..<u]"
    by (intro map_cong refl) (simp only: o val set_upt atLeastLessThan_iff)
  have "cmem t = stores (map (\<lambda>i. (?o i, fregs ?r (acc i))) [0..<u]) (cmem s)" unfolding t by simp
  then have "cmem t = dw_cells fpu k (map ?e [0..<u]) (cmem s)"
    using e unfolding m by (subst (asm) disjoint_block [OF d, where e = ?e]) (auto simp: inj_on_def)
  then show ?thesis using l by blast
qed

lemma dw_rows_effect:
  assumes c: "dw_cfg k (unat u) (lanes s)" and leg: "dw_legal hw k q es" and u: "unat u \<le> 8" and co: "co \<in> conv_inside k es"
    and h: "8 * h0 + unat u \<le> unat (dim_out_y k)" and t: "t = conv_dw_rows hw fpu k (of_nat co) u (of_nat h0) s"
  shows "dw_cfg k (unat u) (lanes t) \<and> cmem t = dw_cells fpu k (conv_rows k co h0 (unat u)) (cmem s)"
proof -
  let ?X = "unat (dim_out_x k)"
  let ?p = "pInBuffer k + 4 * (of_nat h0 * 8 * w32 (stride_y k) * input_h_stride k + of_nat co)" and ?q = "pWeight k + 4 * of_nat co"
  define a where "a = ssr_job (lanes s 0) 3 ?p"
  define b where "b = ssr_job (lanes s 1) 2 ?q"
  define s1 where "s1 = s\<lparr> lanes := (lanes s)(0 := a, 1 := b) \<rparr>"
  let ?f = "\<lambda>w. conv_dw_pixels fpu k u (of_nat co) (of_nat h0) (of_nat w)" and ?L = "\<lambda>w. map (\<lambda>i. (co, 8 * h0 + i, w)) [0..<unat u]"
  have i: "idle (lanes s 0)" "idle (lanes s 1)" using c by (simp_all add: dw_cfg_def strip_cfg_def ssr_ready_def)
  have t: "t = fold ?f [0..<?X] s1"
    unfolding t conv_dw_rows_def Let_def for_u32_def unat_w32 using i by (simp add: on_ssrs_def snrt_ssr_read_job s1_def a_def b_def)
  have s1: "strip_at a b 0 s1" by (simp add: s1_def strip_at_def)
  have step: "strip_at a b (unat u * (dw_taps k * Suc w)) (?f w s) \<and> cmem (?f w s) = dw_cells fpu k (?L w) (cmem s)"
    if "w < ?X" "strip_at a b (unat u * (dw_taps k * w)) s" for w s
    using that h by (intro dw_pixels_spec [OF c leg refl u _ a_def b_def] conv_insideD [OF co]) simp_all
  have fin: "strip_at a b (unat u * (dw_taps k * ?X)) t" "cmem t = fold (\<lambda>w. dw_cells fpu k (?L w)) [0..<?X] (cmem s1)"
    using strip_columns [where j = ?X and f = ?f and g = "\<lambda>w. dw_cells fpu k (?L w)", OF step s1] unfolding t by simp_all
  have "dw_cfg k (unat u) (lanes t)"
    using fin(1) unfolding dw_cfg_def by (intro strip_end [OF c [unfolded dw_cfg_def]]) (simp_all add: strip_at_def a_def b_def dw_taps_def)
  moreover have "cmem t = dw_cells fpu k (conv_rows k co h0 (unat u)) (cmem s)"
    unfolding fin(2) by (simp add: cells_concat conv_rows_def s1_def)
  ultimately show ?thesis by blast
qed

interpretation dw: conv_kernel k "conv_dw_setup hw k" "\<lambda>co. conv_dw_rows hw fpu k (of_nat co)"
  "\<lambda>l. dw_legal hw k q es \<and> conv_idle l" "\<lambda>u l. dw_legal hw k q es \<and> dw_cfg k u l"
  "\<lambda>co (h0, u). dw_cells fpu k (conv_rows k co h0 u)" "conv_inside k es"
  for k hw fpu q es
proof
  fix u s c h0
  assume "dw_legal hw k q es \<and> dw_cfg k (unat (u :: u32)) (lanes (s :: fp_core))" "unat u \<le> 8" "c \<in> conv_inside k es"
    "8 * h0 + unat u \<le> unat (dim_out_y k)"
  then show "(dw_legal hw k q es \<and> dw_cfg k (unat u) (lanes (conv_dw_rows hw fpu k (of_nat c) u (of_nat h0) s)))
      \<and> cmem (conv_dw_rows hw fpu k (of_nat c) u (of_nat h0) s) = (case (h0, unat u) of (h0, u) \<Rightarrow> dw_cells fpu k (conv_rows k c h0 u)) (cmem s)"
    using dw_rows_effect [OF _ _ _ _ _ refl, of k u s hw q es c h0 fpu] by auto
qed (use dw_setup_cfg strip_idle in \<open>auto simp: dw_cfg_def\<close>)

text \<open>
  C25: the depthwise convolution. Under the conditions of \<open>dw_legal\<close> and with idle data movers, every pair of output elements of
  the channels of a core becomes the old value (or zero at the start of an accumulation) plus the sum over the filter of input times
  weight of the same pair of channels, in the order of the reference loops, whether or not the number of rows is a multiple of
  eight. A doubleword \<open>q\<close> apart from the results keeps its value.
\<close>

theorem conv_dw_correct:
  assumes l: "conv_idle (lanes s)" and leg: "dw_legal hw k q (conv_order k cs)"
    and cs: "cs = conv_channels (compute_id * 2) ((if cores \<noteq> 0 then cores else 1) * 2) (ch_out k)"
    and p: "co \<in> set cs" "h < unat (dim_out_y k)" "w < unat (dim_out_x k)"
    and t: "t = conv_dw_until_barrier hw fpu k compute_id cores s"
  shows "load64 (cmem t) (conv_out32 k (co, h, w))
      = accumulate (\<lambda>x y c. fpu vfmac_s [x, y, c]) (\<lambda>j. load64 (cmem s) (dw_in k (co, h, w) j)) (\<lambda>j. load64 (cmem s) (dw_weight k (co, h, w) j))
          (dw_taps k) (if flag_y_accumulate_start k \<noteq> 0 then 0 else load64 (cmem s) (conv_out32 k (co, h, w)))
    \<and> load64 (cmem t) q = load64 (cmem s) q"
proof -
  have d: "disjoint_ops q (conv_out32 k) (dw_in k) (dw_weight k) (dw_taps k) (conv_order k cs)" using leg by (simp add: dw_legal_def)
  have "set cs \<subseteq> conv_inside k (conv_order k cs)" by (auto simp: conv_inside_def conv_order_def)
  from dw.channels_effect [where hw = hw, OF _ this] leg l
  have "cmem t = fold (\<lambda>co. fold (\<lambda>(h0, u). dw_cells fpu k (conv_rows k co h0 u)) (conv_bands k)) cs (cmem s)"
    unfolding t conv_dw_until_barrier_def Let_def cs by blast
  then have m: "cmem t = dw_cells fpu k (conv_order k cs) (cmem s)"
    by (simp add: case_prod_unfold cells_concat conv_order_def conv_pixels_def [abs_def])
  have e: "(co, h, w) \<in> set (conv_order k cs)" using p by (simp add: set_conv_order)
  have di: "distinct (conv_order k cs)" unfolding cs by (intro distinct_conv_order distinct_conv_channels)
  have "load64 (cmem t) (conv_out32 k (co, h, w))
      = cell_value (vmac fpu) (conv_start k) (dw_taps k) (dw_in k (co, h, w)) (dw_weight k (co, h, w)) (conv_out32 k (co, h, w)) (cmem s)"
    unfolding m by (rule load64_cells [OF e di]) (auto intro: disjoint_opsD [OF d])
  moreover have "load64 (cmem t) q = load64 (cmem s) q"
    unfolding m by (rule load64_cells_other) (rule disjoint_opsD(1) [OF d])
  ultimately show ?thesis by (simp add: cell_value_def conv_start_def)
qed

definition demo_kernel_dw :: kernel_fp32 where
  "demo_kernel_dw = demo_kernel\<lparr> ch_in := 2, ch_out := 2 \<rparr>"

lemma demo_dw_disjoint:
  "disjoint_ops 0x4000 (conv_out32 demo_kernel_dw) (dw_in demo_kernel_dw) (dw_weight demo_kernel_dw) (dw_taps demo_kernel_dw) (conv_order demo_kernel_dw [0])"
proof (rule disjoint_region [where lo = "0x3000" and hi = "0x3048" and w = "\<lambda>(co, h, w). h"])
  fix i :: pixel
  assume i: "i \<in> set (conv_order demo_kernel_dw [0])"
  then obtain h where h: "i = (0, h, 0)" "h < 9" by (auto simp: set_conv_order demo_kernel_dw_def demo_kernel_def)
  have u: "unat (b + 8 * of_nat h) = unat b + 8 * h" if "unat b < 2 ^ 16" for b :: u32
    using unat_at8 [of b h] that h(2) by (simp add: at8_def)
  show "unat (conv_out32 demo_kernel_dw i) = 0x3000 + 8 * (case i of (co, h, w) \<Rightarrow> h)"
    using u [of "0x3000"] by (simp add: h conv_out32_def demo_kernel_dw_def demo_kernel_def output_h_stride_def output_w_stride_def w32_def)
  show "0x3000 + 8 * (case i of (co, h, w) \<Rightarrow> h) + 8 \<le> (0x3048 :: nat)" using h by simp
  fix j
  assume "j < dw_taps demo_kernel_dw"
  then have j: "j = 0" by (simp add: dw_taps_def demo_kernel_dw_def demo_kernel_def)
  show "unat (dw_in demo_kernel_dw i j) + 8 \<le> 0x3000 \<or> 0x3048 \<le> unat (dw_in demo_kernel_dw i j) \<and> unat (dw_in demo_kernel_dw i j) + 8 \<le> 2 ^ 32"
    using u [of "0x1000"] h
    by (simp add: j dw_in_def demo_kernel_dw_def demo_kernel_def input_h_stride_def input_w_stride_def dim_in_eff_x_def w32_def)
  show "unat (dw_weight demo_kernel_dw i j) + 8 \<le> 0x3000 \<or> 0x3048 \<le> unat (dw_weight demo_kernel_dw i j) \<and> unat (dw_weight demo_kernel_dw i j) + 8 \<le> 2 ^ 32"
    by (simp add: j h dw_weight_def demo_kernel_dw_def demo_kernel_def)
qed (auto simp: inj_on_def set_conv_order demo_kernel_dw_def demo_kernel_def)

theorem conv_dw_correct_witness:
  "load64 (cmem (conv_dw_until_barrier demo_hw demo_fpu demo_kernel_dw 0 1 demo_core)) (conv_out32 demo_kernel_dw (0, 8, 0))
      = accumulate (\<lambda>x y c. demo_fpu vfmac_s [x, y, c]) (\<lambda>j. load64 (cmem demo_core) (dw_in demo_kernel_dw (0, 8, 0) j))
          (\<lambda>j. load64 (cmem demo_core) (dw_weight demo_kernel_dw (0, 8, 0) j)) (dw_taps demo_kernel_dw)
          (if flag_y_accumulate_start demo_kernel_dw \<noteq> 0 then 0 else load64 (cmem demo_core) (conv_out32 demo_kernel_dw (0, 8, 0)))
    \<and> load64 (cmem (conv_dw_until_barrier demo_hw demo_fpu demo_kernel_dw 0 1 demo_core)) 0x4000 = load64 (cmem demo_core) 0x4000"
proof (rule conv_dw_correct [where cs = "[0]", OF _ _ _ _ _ _ refl])
  show "dw_legal demo_hw demo_kernel_dw 0x4000 (conv_order demo_kernel_dw [0])"
    using demo_dw_disjoint
    by (simp add: dw_legal_def even_channels_def) (simp add: dw_taps_def demo_hw_def demo_kernel_dw_def demo_kernel_def fits_def w32_def)
  show "conv_idle (lanes demo_core)"
    using demo_ready by (simp add: conv_idle_def demo_core_def) (simp add: demo_ssr_def)
  show "[0] = conv_channels (0 * 2) ((if (1 :: u32) \<noteq> 0 then 1 else 1) * 2) (ch_out demo_kernel_dw)"
    by (simp add: conv_channels_def demo_kernel_dw_def demo_kernel_def upt_conv_Cons)
qed (simp_all add: demo_kernel_dw_def demo_kernel_def)

end
