(* ===== verification/Conv2d_Chw.thy ===== *)
theory Conv2d_Chw
  imports Conv2d_Strip
begin

text \<open>
  The convolution on planar input of \<open>sw/applications/src/kernels/conv2d.c\<close>, up to the hardware barrier that ends it. Input
  channels are accumulated one after the other in memory, two filter columns at a time.
\<close>

section \<open>The kernel on planar input\<close>

definition dim_in_eff_y :: "kernel_fp32 \<Rightarrow> u32" where
  "dim_in_eff_y k = w32 (dim_in_y k) + w32 (padding_y_top k) + w32 (padding_y_bottom k)"

definition input_ci_stride :: "kernel_fp32 \<Rightarrow> u32" where
  "input_ci_stride k = dim_in_eff_x k * dim_in_eff_y k"

definition kernel_ci_stride :: "kernel_fp32 \<Rightarrow> u32" where
  "kernel_ci_stride k = w32 (dim_kernel_x k) * w32 (dim_kernel_y k)"

definition conv_chw_setup :: "ssr_hw \<Rightarrow> kernel_fp32 \<Rightarrow> u32 \<Rightarrow> ssrs \<Rightarrow> ssrs" where
  "conv_chw_setup hw k unroll l = (
    let l = snrt_ssr_loop_4d hw 0 unroll (w32 (dim_kernel_x k) div 2) (w32 (dim_kernel_y k)) (w32 (dim_out_x k))
          (dim_in_eff_x k * w32 (stride_y k) * 4) (1 * 8) (dim_in_eff_x k * 4) (1 * w32 (stride_x k) * 4) l;
        l = snrt_ssr_loop_3d hw 1 (w32 (dim_kernel_x k) div 2) (w32 (dim_kernel_y k)) (w32 (dim_out_x k))
          (1 * 8) (w32 (dim_kernel_x k) * 4) 0 l
    in snrt_ssr_repeat hw 1 unroll l)"

definition conv_chw_asm :: "kernel_fp32 \<Rightarrow> nat \<Rightarrow> asm list" where
  "conv_chw_asm k u = Frep (w32 (dim_kernel_x k) div 2 * w32 (dim_kernel_y k) - 1) u
     # map I (map (\<lambda>i. FOp vfmac_s (acc i) [0, 1, acc i]) [0..<u])
     @ map I (map (\<lambda>i. FOp vfsum_s (red i) [acc i, red i]) [0..<u])"

definition conv_chw_pixels :: "fpu \<Rightarrow> kernel_fp32 \<Rightarrow> u32 \<Rightarrow> u32 \<Rightarrow> u32 \<Rightarrow> u32 \<Rightarrow> u32 \<Rightarrow> fp_core \<Rightarrow> fp_core" where
  "conv_chw_pixels fpu k co ci unroll h0 w s = (
    let out = (\<lambda>i. pOutBuffer k + 4 * (h0 * 8 * output_h_stride k + w * output_w_stride k + co) + 4 * (of_nat i * output_h_stride k));
        s = (if flag_y_accumulate_start k \<noteq> 0 \<and> ci = 0
          then fold (\<lambda>i s. set_fr (red i) (nan_box 0) (set_fr (acc i) 0 s)) [0..<unat unroll] s
          else fold (\<lambda>i s. exec_fi fpu (Flw (red i) (out i)) (set_fr (acc i) 0 s)) [0..<unat unroll] s);
        s = snrt_ssr_enable s;
        s = run_asm fpu (conv_chw_asm k (unat unroll)) s;
        s = snrt_ssr_disable s
    in fold (\<lambda>i s. put32 (out i) (ucast (fregs s (red i))) s) [0..<unat unroll] s)"

definition conv_chw_rows :: "ssr_hw \<Rightarrow> fpu \<Rightarrow> kernel_fp32 \<Rightarrow> u32 \<Rightarrow> u32 \<Rightarrow> u32 \<Rightarrow> u32 \<Rightarrow> fp_core \<Rightarrow> fp_core" where
  "conv_chw_rows hw fpu k co ci unroll h0 s = (
    let s = on_ssrs (snrt_ssr_read hw 0 3 (pInBuffer k + 4 * (h0 * 8 * w32 (stride_y k) * dim_in_eff_x k + ci * input_ci_stride k))) s;
        s = on_ssrs (snrt_ssr_read hw 1 2 (pWeight k + 4 * (ci * kernel_ci_stride k + co * (kernel_ci_stride k * w32 (ch_in k))))) s
    in for_u32 (w32 (dim_out_x k)) (conv_chw_pixels fpu k co ci unroll h0) s)"

text \<open>\<open>occamy_conv_chw_opt_fp32\<close> up to its hardware barrier: the input channels are accumulated one after the other.\<close>

definition conv_chw_until_barrier :: "ssr_hw \<Rightarrow> fpu \<Rightarrow> kernel_fp32 \<Rightarrow> u32 \<Rightarrow> u32 \<Rightarrow> fp_core \<Rightarrow> fp_core" where
  "conv_chw_until_barrier hw fpu k compute_id compute_core_num s = (
    let compute_num = (if compute_core_num \<noteq> 0 then compute_core_num else 1);
        s = on_ssrs (conv_chw_setup hw k 8) s
    in fold (\<lambda>co. for_u32 (w32 (ch_in k)) (\<lambda>ci. conv_channel (conv_chw_setup hw k) (conv_chw_rows hw fpu k (of_nat co) ci) k))
         (conv_channels compute_id compute_num (ch_out k)) s)"

section \<open>Reference\<close>

definition chw_taps :: "kernel_fp32 \<Rightarrow> nat" where
  "chw_taps k = unat (dim_kernel_x k) div 2 * unat (dim_kernel_y k)"

definition chw_in :: "kernel_fp32 \<Rightarrow> nat \<Rightarrow> pixel \<Rightarrow> nat \<Rightarrow> u32" where
  "chw_in k ci = (\<lambda>(co, h, w) t. let n0 = unat (dim_kernel_x k) div 2 in
     pInBuffer k + 4 * (of_nat ci * input_ci_stride k + (of_nat h * w32 (stride_y k) + of_nat (t div n0)) * dim_in_eff_x k
       + of_nat w * w32 (stride_x k) + 2 * of_nat (t mod n0)))"

definition chw_weight :: "kernel_fp32 \<Rightarrow> nat \<Rightarrow> pixel \<Rightarrow> nat \<Rightarrow> u32" where
  "chw_weight k ci = (\<lambda>(co, h, w) t. let n0 = unat (dim_kernel_x k) div 2 in
     pWeight k + 4 * (of_nat co * (kernel_ci_stride k * w32 (ch_in k)) + of_nat ci * kernel_ci_stride k
       + of_nat (t div n0) * w32 (dim_kernel_x k) + 2 * of_nat (t mod n0)))"

definition chw_sum :: "fpu \<Rightarrow> kernel_fp32 \<Rightarrow> nat \<Rightarrow> mem \<Rightarrow> pixel \<Rightarrow> u64" where
  "chw_sum fpu k ci m e = fpu vfsum_s
     [accumulate (\<lambda>x y c. fpu vfmac_s [x, y, c]) (\<lambda>j. load64 m (chw_in k ci e j)) (\<lambda>j. load64 m (chw_weight k ci e j)) (chw_taps k) 0,
      nan_box (if flag_y_accumulate_start k \<noteq> 0 \<and> ci = 0 then 0 else load32 m (conv_out32 k e))]"

definition chw_group :: "fpu \<Rightarrow> kernel_fp32 \<Rightarrow> nat \<Rightarrow> group \<Rightarrow> mem \<Rightarrow> mem" where
  "chw_group fpu k ci g m = stores32 (map (\<lambda>e. (conv_out32 k e, ucast (chw_sum fpu k ci m e))) (group_pixels g)) m"

text \<open>
  A data mover drops the low bits of a stride, so rows of the input, rows of the filter and the horizontal step have to
  be whole pairs of elements.
\<close>

definition chw_legal :: "ssr_hw \<Rightarrow> kernel_fp32 \<Rightarrow> bool" where
  "chw_legal hw k \<longleftrightarrow> unat (dim_kernel_x k) mod 2 = 0 \<and> unat (stride_x k) mod 2 = 0 \<and> unat (dim_in_eff_x k) mod 2 = 0
     \<and> 0 < chw_taps k \<and> chw_taps k \<le> 2 ^ 16
     \<and> fits (IndexWidth hw) (w32 (dim_kernel_x k) div 2) \<and> fits (IndexWidth hw) (w32 (dim_kernel_y k))
     \<and> fits (IndexWidth hw) (w32 (dim_out_x k)) \<and> fits (IndexWidth hw) 8 \<and> fits (RptWidth hw) 8"

definition chw_cfg :: "kernel_fp32 \<Rightarrow> nat \<Rightarrow> ssrs \<Rightarrow> bool" where
  "chw_cfg k = strip_cfg (unat (dim_kernel_x k) div 2) (unat (dim_kernel_y k)) (unat (dim_out_x k))
     [dim_in_eff_x k * w32 (stride_y k) * 4, 1 * 8, dim_in_eff_x k * 4, 1 * w32 (stride_x k) * 4] [1 * 8, w32 (dim_kernel_x k) * 4]"

section \<open>Correctness\<close>

lemma even_word: "unat (x :: u32) mod 2 = 0 \<Longrightarrow> x = 2 * (x div 2)"
proof -
  assume "unat x mod 2 = 0"
  then have "unat (x mod 2) = unat (0 :: u32)" by (simp add: unat_mod)
  then have "x mod 2 = 0" by (rule unsigned_word_eqI)
  then show "x = 2 * (x div 2)" using word_mod_div_equality [of x 2] by (simp add: mult.commute)
qed

lemma chw_setup_cfg:
  assumes "chw_legal hw k" "conv_idle l" "0 < unat u" "unat u \<le> 8"
  shows "chw_cfg k (unat u) (conv_chw_setup hw k u l)"
proof -
  have e: "dim_in_eff_x k = 2 * (dim_in_eff_x k div 2)" "w32 (stride_x k) = 2 * (w32 (stride_x k) div 2)"
    "w32 (dim_kernel_x k) = 2 * (w32 (dim_kernel_x k) div 2)"
    using assms(1) by (auto simp: chw_legal_def intro!: even_word)
  have q: "z * 4 = 8 * (z div 2)" if "z = 2 * (z div 2)" for z :: u32
  proof -
    have "z * 4 = 2 * (z div 2) * 4" using that by (rule arg_cong)
    then show ?thesis by simp
  qed
  have "dim_in_eff_x k * w32 (stride_y k) * 4 = dim_in_eff_x k * 4 * w32 (stride_y k)" by (simp add: mult.commute mult.left_commute)
  then have s: "dim_in_eff_x k * w32 (stride_y k) * 4 = 8 * (dim_in_eff_x k div 2 * w32 (stride_y k))"
    unfolding q [OF e(1)] by (simp add: mult.assoc)
  have "strip_cfg (unat (w32 (dim_kernel_x k) div 2)) (unat (w32 (dim_kernel_y k))) (unat (w32 (dim_out_x k)))
     [dim_in_eff_x k * w32 (stride_y k) * 4, 1 * 8, dim_in_eff_x k * 4, 1 * w32 (stride_x k) * 4] [1 * 8, w32 (dim_kernel_x k) * 4]
     (unat u) (conv_chw_setup hw k u l)"
    unfolding conv_chw_setup_def Let_def
    by (rule strip_setup [OF assms(2) _ _ _ _ _ assms(3,4) s _ q [OF e(1)] _ _ q [OF e(3)], where ?k1.0 = 1 and ?m0.0 = 1 and ?k3.0 = "w32 (stride_x k) div 2"])
      (use assms(1) q [OF e(2)] in \<open>simp_all add: chw_legal_def\<close>)
  then show ?thesis by (simp add: chw_cfg_def unat_div)
qed

lemma chw_frep:
  assumes "0 < chw_taps k" "chw_taps k \<le> 2 ^ 16"
  shows "unat (w32 (dim_kernel_x k) div 2 * w32 (dim_kernel_y k) - 1) < 2 ^ 16"
    "Suc (unat (w32 (dim_kernel_x k) div 2 * w32 (dim_kernel_y k) - 1)) = chw_taps k"
proof -
  let ?x = "w32 (dim_kernel_x k) div 2 * w32 (dim_kernel_y k)"
  have x: "unat ?x = chw_taps k"
    using assms(2) by (subst unat_times_no_overflow) (simp_all add: chw_taps_def unat_div)
  have "0 < unat ?x" "unat ?x \<le> 2 ^ 16" unfolding x using assms by simp_all
  from frep_count [OF this] show "unat (?x - 1) < 2 ^ 16" "Suc (unat (?x - 1)) = chw_taps k" using x by simp_all
qed

lemma chw_pixels_spec:
  assumes c: "chw_cfg k u l" and leg: "chw_legal hw k" and u: "unat unroll = u" "u \<le> 8" and w: "w < unat (dim_out_x k)" and ci: "ci < 2 ^ 16"
    and a: "a = ssr_job (l 0) 3 (pInBuffer k + 4 * (of_nat h0 * 8 * w32 (stride_y k) * dim_in_eff_x k + of_nat ci * input_ci_stride k))"
    and b: "b = ssr_job (l 1) 2 (pWeight k + 4 * (of_nat ci * kernel_ci_stride k + of_nat co * (kernel_ci_stride k * w32 (ch_in k))))"
    and s: "strip_at a b (u * (chw_taps k * w)) s"
    and t_def: "t = conv_chw_pixels fpu k (of_nat co) (of_nat ci) unroll (of_nat h0) (of_nat w) s"
  shows "strip_at a b (u * (chw_taps k * Suc w)) t \<and> cmem t = chw_group fpu k ci (co, h0, u, w) (cmem s)"
proof -
  let ?e = "\<lambda>i. (co, 8 * h0 + i, w)" and ?c = "conv_out32 k" and ?T = "chw_taps k" and ?p = "u * (chw_taps k * w)"
  have n: "0 < ?T" "?T \<le> 2 ^ 16" using leg by (simp_all add: chw_legal_def)
  have out: "pOutBuffer k + 4 * (of_nat h0 * 8 * output_h_stride k + of_nat w * output_w_stride k + of_nat co) + 4 * (of_nat i * output_h_stride k) = ?c (?e i)" for i
    by (simp add: conv_out32_def algebra_simps)
  have "unat (of_nat ci :: u32) = ci" using ci by (intro unat_of_nat_small) simp
  then have z: "(of_nat ci :: u32) = 0 \<longleftrightarrow> ci = 0" by (metis unat_0 unat_eq_zero)
  let ?z = "\<lambda>i. nan_box (if flag_y_accumulate_start k \<noteq> 0 \<and> ci = 0 then 0 else load32 (cmem s) (?c (?e i)))"
  define v where "v = (set_regs 20 u ?z (set_accs u (\<lambda>_. 0) s))\<lparr> ssr_on := True \<rparr>"
  have init: "(if flag_y_accumulate_start k \<noteq> 0 \<and> (of_nat ci :: u32) = 0 then fold (\<lambda>i s. set_fr (red i) (nan_box 0) (set_fr (acc i) 0 s)) [0..<u] s
      else fold (\<lambda>i s. exec_fi fpu (Flw (red i) (?c (?e i))) (set_fr (acc i) 0 s)) [0..<u] s) = set_regs 20 u ?z (set_accs u (\<lambda>_. 0) s)"
    unfolding init32 [OF u(2)] z by simp
  have v: "streaming a b ?p v" using s by (simp add: v_def streaming_def strip_at_def)
  let ?h = "run_asm fpu (conv_chw_asm k u) v"
  note B = reduce_block [OF v chw_frep [OF n] u(2), where fpu = fpu, OF conv_chw_asm_def [of k u, THEN arg_cong [where f = "\<lambda>c. run_asm fpu c v"]]]
  have t: "t = (snrt_ssr_disable ?h)\<lparr> cmem := stores32 (map (\<lambda>i. (?c (?e i), ucast (fregs ?h (red i)))) [0..<u]) (cmem s) \<rparr>"
    unfolding t_def conv_chw_pixels_def Let_def u(1) out init spill32
    using B(3) by (simp add: snrt_ssr_enable_def snrt_ssr_disable_def v_def)
  have l: "strip_at a b (u * (?T * Suc w)) t"
    unfolding t strip_at_def using B(1,2) by (simp add: snrt_ssr_disable_def algebra_simps)
  have cv: "cmem v = cmem s" by (simp add: v_def)
  have fv: "fregs v (acc i) = 0" "fregs v (red i) = ?z i" if "i < u" for i
    using that u(2) by (simp_all add: v_def set_accs_def fregs_set_regs acc_def red_def)
  have el: "elem0 a (cmem s) (?p + u * t + i) = load64 (cmem s) (chw_in k ci (?e i) t)"
    "elem0 b (cmem s) (?p + u * t + i) = load64 (cmem s) (chw_weight k ci (?e i) t)" if "t < ?T" "i < u" for t i
    unfolding elem0_def a b chw_taps_def strip_addr [OF c [unfolded chw_cfg_def] that(1) [unfolded chw_taps_def] that(2) w]
    by (simp_all add: chw_in_def chw_weight_def Let_def algebra_simps)
  have ac: "accumulate (\<lambda>x y c. fpu vfmac_s [x, y, c]) (\<lambda>t. elem0 a (cmem s) (?p + u * t + i)) (\<lambda>t. elem0 b (cmem s) (?p + u * t + i)) ?T 0
      = accumulate (\<lambda>x y c. fpu vfmac_s [x, y, c]) (\<lambda>j. load64 (cmem s) (chw_in k ci (?e i) j)) (\<lambda>j. load64 (cmem s) (chw_weight k ci (?e i) j)) ?T 0"
    if "i < u" for i
    by (rule accumulate_cong) (simp_all only: el that)
  have "fregs ?h (red i) = chw_sum fpu k ci (cmem s) (?e i)" if "i < u" for i
    unfolding B(4) [OF that] cv fv [OF that] ac [OF that] chw_sum_def ..
  then have "cmem t = chw_group fpu k ci (co, h0, u, w) (cmem s)"
    unfolding t chw_group_def group_pixels_def by (auto intro!: arg_cong [where f = "\<lambda>xs. stores32 xs (cmem s)"] map_cong)
  then show ?thesis using l by blast
qed

lemma chw_rows_effect:
  assumes c: "chw_cfg k (unat u) (lanes s)" and leg: "chw_legal hw k" and u: "unat u \<le> 8" and ci: "ci < 2 ^ 16"
    and t: "t = conv_chw_rows hw fpu k (of_nat co) (of_nat ci) u (of_nat h0) s"
  shows "chw_cfg k (unat u) (lanes t)
    \<and> cmem t = fold (chw_group fpu k ci) (map (\<lambda>w. (co, h0, unat u, w)) [0..<unat (dim_out_x k)]) (cmem s)"
proof -
  let ?X = "unat (dim_out_x k)"
  let ?p = "pInBuffer k + 4 * (of_nat h0 * 8 * w32 (stride_y k) * dim_in_eff_x k + of_nat ci * input_ci_stride k)"
  let ?q = "pWeight k + 4 * (of_nat ci * kernel_ci_stride k + of_nat co * (kernel_ci_stride k * w32 (ch_in k)))"
  define a where "a = ssr_job (lanes s 0) 3 ?p"
  define b where "b = ssr_job (lanes s 1) 2 ?q"
  define s1 where "s1 = s\<lparr> lanes := (lanes s)(0 := a, 1 := b) \<rparr>"
  let ?f = "\<lambda>w. conv_chw_pixels fpu k (of_nat co) (of_nat ci) u (of_nat h0) (of_nat w)" and ?g = "\<lambda>w. chw_group fpu k ci (co, h0, unat u, w)"
  have i: "idle (lanes s 0)" "idle (lanes s 1)" using c by (simp_all add: chw_cfg_def strip_cfg_def ssr_ready_def)
  have t: "t = fold ?f [0..<?X] s1"
    unfolding t conv_chw_rows_def Let_def for_u32_def unat_w32 using i by (simp add: on_ssrs_def snrt_ssr_read_job s1_def a_def b_def)
  have s1: "strip_at a b 0 s1" by (simp add: s1_def strip_at_def)
  have step: "strip_at a b (unat u * (chw_taps k * Suc w)) (?f w s) \<and> cmem (?f w s) = ?g w (cmem s)"
    if "w < ?X" "strip_at a b (unat u * (chw_taps k * w)) s" for w s
    using that by (intro chw_pixels_spec [OF c leg refl u _ ci a_def b_def]) simp_all
  have fin: "strip_at a b (unat u * (chw_taps k * ?X)) t" "cmem t = fold ?g [0..<?X] (cmem s1)"
    using strip_columns [where j = ?X and f = ?f and g = ?g, OF step s1] unfolding t by simp_all
  have "chw_cfg k (unat u) (lanes t)"
    using fin(1) unfolding chw_cfg_def by (intro strip_end [OF c [unfolded chw_cfg_def]]) (simp_all add: strip_at_def a_def b_def chw_taps_def)
  then show ?thesis unfolding fin(2) by (simp add: s1_def fold_map comp_def)
qed

text \<open>The contract is met with pairs of an output and an input channel in the role of the channels.\<close>

interpretation chw: conv_kernel k "conv_chw_setup hw k" "\<lambda>(co, ci). conv_chw_rows hw fpu k (of_nat co) (of_nat ci)"
  "\<lambda>l. chw_legal hw k \<and> conv_idle l" "\<lambda>u l. chw_legal hw k \<and> chw_cfg k u l"
  "\<lambda>(co, ci) (h0, u). fold (chw_group fpu k ci) (map (\<lambda>w. (co, h0, u, w)) [0..<unat (dim_out_x k)])" "{(co, ci). ci < 2 ^ 16}"
  for k hw fpu
proof
  fix u s h0 and c :: "nat \<times> nat"
  assume a: "chw_legal hw k \<and> chw_cfg k (unat (u :: u32)) (lanes (s :: fp_core))" "unat u \<le> 8" "c \<in> {(co, ci). ci < 2 ^ 16}"
  obtain co ci where c: "c = (co, ci)" by (cases c)
  show "(chw_legal hw k \<and> chw_cfg k (unat u) (lanes ((case c of (co, ci) \<Rightarrow> conv_chw_rows hw fpu k (of_nat co) (of_nat ci)) u (of_nat h0) s)))
      \<and> cmem ((case c of (co, ci) \<Rightarrow> conv_chw_rows hw fpu k (of_nat co) (of_nat ci)) u (of_nat h0) s)
        = (case c of (co, ci) \<Rightarrow> \<lambda>(h0, u). fold (chw_group fpu k ci) (map (\<lambda>w. (co, h0, u, w)) [0..<unat (dim_out_x k)])) (h0, unat u) (cmem s)"
    unfolding c case_prod_conv using chw_rows_effect [OF _ _ _ _ refl, of k u s hw ci fpu co h0] a by (simp add: c)
qed (use chw_setup_cfg strip_idle in \<open>auto simp: chw_cfg_def\<close>)

text \<open>
  C26: the convolution on planar input. For filters, input rows and horizontal steps of whole pairs, dimensions that fit and idle data
  movers, the kernel acts on memory as the sequence of groups of up to eight output rows, for every output
  channel of the core and every input channel; each pixel of a group becomes the reduction of its old value (zero for the first input
  channel at the start of an accumulation) and of the vector sum of input times weight over the filter. For every
  input channel the groups cover each output pixel of the core's channels exactly once.
\<close>

theorem conv_chw_refines:
  assumes leg: "chw_legal hw k" and l: "conv_idle (lanes s)"
    and cs: "cs = conv_channels compute_id (if cores \<noteq> 0 then cores else 1) (ch_out k)"
    and t: "t = conv_chw_until_barrier hw fpu k compute_id cores s"
  shows "cmem t = fold (\<lambda>co. fold (\<lambda>ci. fold (chw_group fpu k ci) (conv_groups k co)) [0..<unat (ch_in k)]) cs (cmem s)
    \<and> distinct (concat (map group_pixels (concat (map (conv_groups k) cs))))
    \<and> set (concat (map group_pixels (concat (map (conv_groups k) cs))))
        = {(co, h, w). co \<in> set cs \<and> h < unat (dim_out_y k) \<and> w < unat (dim_out_x k)}"
proof -
  let ?n = "unat (ch_in k)"
  let ?chs = "concat (map (\<lambda>co. map (Pair co) [0..<?n]) cs)"
  have pairs: "fold f (concat (map (\<lambda>co. map (Pair co) [0..<?n]) cs)) x = fold (\<lambda>co. fold (\<lambda>ci. f (co, ci)) [0..<?n]) cs x" for f :: "nat \<times> nat \<Rightarrow> 'x \<Rightarrow> 'x" and x
    by (induction cs arbitrary: x) (simp_all add: fold_map comp_def)
  have sub: "set ?chs \<subseteq> {(co, ci). ci < 2 ^ 16}" using unat_lt_2p [of "ch_in k"] by auto
  have g: "(\<lambda>(h0, u). fold (chw_group fpu k ci) (map (\<lambda>w. (co, h0, u, w)) [0..<unat (dim_out_x k)]))
      = (\<lambda>p. fold (chw_group fpu k ci) (case p of (h0, u) \<Rightarrow> map (\<lambda>w. (co, h0, u, w)) [0..<unat (dim_out_x k)]))" for co ci
    by (auto simp: fun_eq_iff)
  have b: "fold (\<lambda>p. fold f (L p)) ps = fold f (concat (map L ps))" for f :: "group \<Rightarrow> mem \<Rightarrow> mem" and L :: "nat \<times> nat \<Rightarrow> group list" and ps
    by (induction ps) simp_all
  have "cmem t = fold (\<lambda>c. fold ((\<lambda>(co, ci) (h0, u). fold (chw_group fpu k ci) (map (\<lambda>w. (co, h0, u, w)) [0..<unat (dim_out_x k)])) c) (conv_bands k))
      ?chs (cmem s)"
    using chw.channels_effect [of hw k s ?chs, OF _ sub] leg l
    unfolding t conv_chw_until_barrier_def Let_def cs [symmetric] for_u32_def unat_w32 pairs by simp
  then have "cmem t = fold (\<lambda>co. fold (\<lambda>ci. fold (chw_group fpu k ci) (conv_groups k co)) [0..<?n]) cs (cmem s)"
    unfolding pairs case_prod_conv g b conv_groups_def .
  moreover have "distinct (concat (map group_pixels (concat (map (conv_groups k) cs))))"
    unfolding conv_order_groups cs by (intro distinct_conv_order distinct_conv_channels)
  ultimately show ?thesis unfolding conv_order_groups by (simp add: set_conv_order)
qed

definition demo_kernel_chw :: kernel_fp32 where
  "demo_kernel_chw = demo_kernel\<lparr> dim_in_x := 2, dim_kernel_x := 2, stride_x := 2 \<rparr>"

theorem conv_chw_refines_witness:
  "cmem (conv_chw_until_barrier demo_hw demo_fpu demo_kernel_chw 0 1 demo_core)
      = fold (\<lambda>co. fold (\<lambda>ci. fold (chw_group demo_fpu demo_kernel_chw ci) (conv_groups demo_kernel_chw co)) [0..<unat (ch_in demo_kernel_chw)]) [0] (cmem demo_core)
    \<and> distinct (concat (map group_pixels (concat (map (conv_groups demo_kernel_chw) [0]))))
    \<and> set (concat (map group_pixels (concat (map (conv_groups demo_kernel_chw) [0]))))
      = {(co, h, w). co \<in> set [0] \<and> h < unat (dim_out_y demo_kernel_chw) \<and> w < unat (dim_out_x demo_kernel_chw)}"
proof (rule conv_chw_refines [OF _ _ _ refl])
  show "chw_legal demo_hw demo_kernel_chw"
    by (simp add: chw_legal_def chw_taps_def dim_in_eff_x_def demo_kernel_chw_def demo_kernel_def demo_hw_def fits_def w32_def)
  show "conv_idle (lanes demo_core)"
    using demo_ready by (simp add: conv_idle_def demo_core_def) (simp add: demo_ssr_def)
  show "[0] = conv_channels 0 (if (1 :: u32) \<noteq> 0 then 1 else 1) (ch_out demo_kernel_chw)"
    using demo_channels by (simp add: demo_kernel_chw_def)
qed

end
