(* ===== verification/Bn_Relu.thy ===== *)
theory Bn_Relu
  imports Conv2d_Chw
begin

text \<open>
  Batch normalisation and rectification in single precision, \<open>bn_relu\<close> of \<open>sw/applications/src/kernels/conv2d.c\<close>: the
  pass that follows a convolution. One stream reads the feature map, a second one
  writes the results back to the same places; pairs of channels are distributed over the cores.
\<close>

section \<open>The kernel\<close>

text \<open>The operands \<open>k\<close> and \<open>l\<close> of the assembly are registers of the model like its other operands.\<close>

definition kappa_reg :: nat where "kappa_reg = 28"
definition lambda_reg :: nat where "lambda_reg = 29"

definition bn_body :: "bool \<Rightarrow> bool \<Rightarrow> nat \<Rightarrow> finstr list" where
  "bn_body bn relu u = (
    if bn \<and> relu then map (\<lambda>i. FOp vfmul_s (acc i) [0, kappa_reg]) [0..<u] @ map (\<lambda>i. FOp vfadd_s (acc i) [acc i, lambda_reg]) [0..<u]
      @ map (\<lambda>i. FOp vfmax_s 1 [acc i, zero_reg]) [0..<u]
    else if bn \<and> \<not> relu then map (\<lambda>i. FOp vfmul_s (acc i) [0, kappa_reg]) [0..<u] @ map (\<lambda>i. FOp vfadd_s 1 [acc i, lambda_reg]) [0..<u]
    else if \<not> bn \<and> relu then map (\<lambda>i. FOp vfmax_s 1 [0, zero_reg]) [0..<u]
    else [])"

text \<open>One hardware loop; with neither flag set no assembly is executed.\<close>

definition bn_asm :: "bool \<Rightarrow> bool \<Rightarrow> u32 \<Rightarrow> nat \<Rightarrow> asm list" where
  "bn_asm bn relu n_frep u = (if bn \<or> relu then Frep n_frep (length (bn_body bn relu u)) # map I (bn_body bn relu u) else [])"

definition bn_streams :: "ssr_hw \<Rightarrow> u32 \<Rightarrow> u32 \<Rightarrow> u32 \<Rightarrow> u32 \<Rightarrow> u32 \<Rightarrow> u32 \<Rightarrow> u32 \<Rightarrow> u32 \<Rightarrow> ssrs \<Rightarrow> ssrs" where
  "bn_streams hw u dim_x h pairs h_stride w_stride compute_num ptr l = (
    let l = snrt_ssr_loop_4d hw 0 u dim_x h pairs (h_stride * 4) (w_stride * 4) (u * h_stride * 4) (compute_num * 8) l;
        l = snrt_ssr_loop_4d hw 1 u dim_x h pairs (h_stride * 4) (w_stride * 4) (u * h_stride * 4) (compute_num * 8) l;
        l = snrt_ssr_repeat hw 1 1 l;
        l = snrt_ssr_read hw 0 3 ptr l
    in snrt_ssr_write hw 1 3 ptr l)"

definition bn_channel :: "fpu \<Rightarrow> u32 \<Rightarrow> u32 \<Rightarrow> bool \<Rightarrow> bool \<Rightarrow> u32 \<Rightarrow> nat \<Rightarrow> u32 \<Rightarrow> fp_core \<Rightarrow> fp_core" where
  "bn_channel fpu kap lam bn relu n_frep u co s = (
    let s = exec_fi fpu (Fld lambda_reg (lam + 8 * co)) s;
        s = exec_fi fpu (Fld kappa_reg (kap + 8 * co)) s;
        s = set_fr zero_reg 0 s;
        s = snrt_ssr_enable s;
        s = run_asm fpu (bn_asm bn relu n_frep u) s
    in snrt_ssr_disable s)"

definition bn_pairs :: "u16 \<Rightarrow> u32 \<Rightarrow> u32" where
  "bn_pairs ch compute_num = (w32 ch + compute_num - 1) div compute_num div 2"

definition bn_relu ::
  "ssr_hw \<Rightarrow> fpu \<Rightarrow> u32 \<Rightarrow> u16 \<Rightarrow> u16 \<Rightarrow> u16 \<Rightarrow> u32 \<Rightarrow> u32 \<Rightarrow> u32 \<Rightarrow> u32 \<Rightarrow> u32 \<Rightarrow> u32 \<Rightarrow> fp_core \<Rightarrow> fp_core" where
  "bn_relu hw fpu pBuffer dim_x dim_y ch kap lam relu batch_norm compute_id compute_core_num s = (
    let compute_num = (if compute_core_num \<noteq> 0 then compute_core_num else 1);
        n_unroll = 4;
        cleanup_unroll = w32 dim_y mod n_unroll;
        w_stride = 1 * w32 ch;
        h_stride = w_stride * w32 dim_x;
        channels = conv_channels compute_id compute_num (ch div 2);
        channel = bn_channel fpu kap lam (batch_norm \<noteq> 0) (relu \<noteq> 0);
        s = on_ssrs (bn_streams hw n_unroll (w32 dim_x) (w32 dim_y div n_unroll) (bn_pairs ch compute_num) h_stride w_stride compute_num
          (pBuffer + 4 * (compute_id * 2))) s;
        s = (if n_unroll \<le> w32 dim_y
          then fold (\<lambda>co. channel (w32 dim_x * (w32 dim_y div n_unroll) - 1) (unat n_unroll) (of_nat co)) channels s
          else s)
    in if cleanup_unroll \<noteq> 0
       then fold (\<lambda>co. channel (w32 dim_x - 1) (unat cleanup_unroll) (of_nat co)) channels
         (on_ssrs (bn_streams hw cleanup_unroll (w32 dim_x) 1 (bn_pairs ch compute_num) h_stride w_stride compute_num
           (pBuffer + 4 * ((w32 dim_y - cleanup_unroll) * h_stride + compute_id * 2))) s)
       else s)"

section \<open>In-place maps\<close>

definition pointwise :: "('i \<Rightarrow> u64 \<Rightarrow> u64) \<Rightarrow> ('i \<Rightarrow> u32) \<Rightarrow> 'i list \<Rightarrow> mem \<Rightarrow> mem" where
  "pointwise G c es m = fold (\<lambda>e m. store64 m (c e) (G e (load64 m (c e)))) es m"

lemma pointwise_simps [simp]:
  "pointwise G c [] m = m" "pointwise G c (e # es) m = pointwise G c es (store64 m (c e) (G e (load64 m (c e))))"
  "pointwise G c (es @ fs) m = pointwise G c fs (pointwise G c es m)"
  by (simp_all add: pointwise_def)

lemma pointwise_map: "pointwise G c (map f es) m = pointwise (\<lambda>e. G (f e)) (\<lambda>e. c (f e)) es m"
  by (simp add: pointwise_def fold_map comp_def)

lemma pointwise_cong:
  assumes "\<And>e. e \<in> set es \<Longrightarrow> c e = c' e \<and> G e = G' e"
  shows "pointwise G c es m = pointwise G' c' es m"
  unfolding pointwise_def using assms by (intro fold_cong) auto

lemma load64_pointwise_other:
  "(\<And>e. e \<in> set es \<Longrightarrow> apart a (c e)) \<Longrightarrow> load64 (pointwise G c es m) a = load64 m a"
  by (induction es arbitrary: m) (simp_all add: load64_store64_other)

definition spread :: "('i \<Rightarrow> u32) \<Rightarrow> 'i set \<Rightarrow> bool" where
  "spread c A \<longleftrightarrow> (\<forall>e\<in>A. \<forall>e'\<in>A. e \<noteq> e' \<longrightarrow> apart (c e) (c e'))"

lemma load64_pointwise:
  assumes "e \<in> set es" "distinct es" "spread c (set es)"
  shows "load64 (pointwise G c es m) (c e) = G e (load64 m (c e))"
  using assms
proof (induction es arbitrary: m)
  case (Cons e' es)
  let ?m = "store64 m (c e') (G e' (load64 m (c e')))"
  show ?case
  proof (cases "e = e'")
    case True
    then have "load64 (pointwise G c es ?m) (c e) = load64 ?m (c e)"
      using Cons.prems by (intro load64_pointwise_other) (auto simp: spread_def)
    then show ?thesis using True by (simp add: load64_store64_same)
  next
    case False
    then have "load64 (pointwise G c es ?m) (c e) = G e (load64 ?m (c e))"
      using Cons.prems by (intro Cons.IH) (auto simp: spread_def)
    moreover have "load64 ?m (c e) = load64 m (c e)"
      using Cons.prems False by (intro load64_store64_other) (auto simp: spread_def)
    ultimately show ?thesis by simp
  qed
qed simp

text \<open>Reading a block before writing it makes no difference.\<close>

lemma stores_pointwise:
  assumes "spread c {p..<p + u}"
  shows "stores (map (\<lambda>i. (c (p + i), G (p + i) (load64 m (c (p + i))))) [0..<u]) m = pointwise G c [p..<p + u] m"
  using assms
proof (induction u)
  case (Suc u)
  let ?m = "stores (map (\<lambda>i. (c (p + i), G (p + i) (load64 m (c (p + i))))) [0..<u]) m"
  have "spread c {p..<p + u}" using Suc.prems by (auto simp: spread_def)
  then have IH: "?m = pointwise G c [p..<p + u] m" by (rule Suc.IH)
  have "load64 ?m (c (p + u)) = load64 m (c (p + u))"
    using Suc.prems by (intro load64_stores_other) (auto simp: spread_def)
  then show ?case using IH by simp
qed simp

section \<open>One round of the hardware loop\<close>

lemma read_row:
  assumes "ssr_on s" "lanes s 0 = lane_after p a" "10 + u \<le> r"
  shows "run_fis fpu (map (\<lambda>i. FOp op (acc i) [0, r]) [0..<u]) s
    = (set_accs u (\<lambda>i. fpu op [elem0 a (cmem s) (p + i), fregs s r]) s)\<lparr> lanes := (lanes s)(0 := lane_after (p + u) a) \<rparr>"
  using assms(3)
proof (induction u)
  case 0
  show ?case using assms(2) by (intro fp_core.equality) (auto simp: run_fis_def)
next
  case (Suc u)
  let ?t = "(set_accs u (\<lambda>i. fpu op [elem0 a (cmem s) (p + i), fregs s r]) s)\<lparr> lanes := (lanes s)(0 := lane_after (p + u) a) \<rparr>"
  have t: "run_fis fpu (map (\<lambda>i. FOp op (acc i) [0, r]) [0..<u]) s = ?t" using Suc.prems by (intro Suc.IH) simp
  have "fregs ?t r = fregs s r" "\<not> r < 3" using Suc.prems by (simp_all add: set_accs_def)
  then have "exec_fi fpu (FOp op (acc u) [0, r]) ?t
      = ?t\<lparr> fregs := (fregs ?t)(acc u := fpu op [elem0 a (cmem s) (p + u), fregs s r]), lanes := (lanes s)(0 := lane_after (Suc (p + u)) a) \<rparr>"
    using assms(1) by (simp add: read_fr_def write_fr_def is_stream_def lane_pop_after elem0_def acc_def Let_def)
  also have "\<dots> = (set_accs (Suc u) (\<lambda>i. fpu op [elem0 a (cmem s) (p + i), fregs s r]) s)\<lparr> lanes := (lanes s)(0 := lane_after (p + Suc u) a) \<rparr>"
    by (intro fp_core.equality) (auto simp: set_accs_def acc_def fun_eq_iff less_Suc_eq)
  finally show ?case using t by (simp add: run_fis_def fun_upd_def del: exec_fi.simps)
qed

lemma write_row:
  assumes "ssr_on s" "lanes s 1 = lane_after p b" "\<And>i r. i < u \<Longrightarrow> r \<in> set (src i) \<Longrightarrow> 3 \<le> r"
  shows "run_fis fpu (map (\<lambda>i. FOp op 1 (src i)) [0..<u]) s
    = s\<lparr> lanes := (lanes s)(1 := lane_after (p + u) b),
         cmem := stores (map (\<lambda>i. (lane_addr b (p + i), fpu op (map (fregs s) (src i)))) [0..<u]) (cmem s) \<rparr>"
  using assms(3)
proof (induction u)
  case 0
  show ?case using assms(2) by (intro fp_core.equality) (auto simp: run_fis_def)
next
  case (Suc u)
  let ?t = "s\<lparr> lanes := (lanes s)(1 := lane_after (p + u) b),
         cmem := stores (map (\<lambda>i. (lane_addr b (p + i), fpu op (map (fregs s) (src i)))) [0..<u]) (cmem s) \<rparr>"
  have t: "run_fis fpu (map (\<lambda>i. FOp op 1 (src i)) [0..<u]) s = ?t" by (rule Suc.IH, rule Suc.prems) simp_all
  have "exec_fi fpu (FOp op 1 (src u)) ?t
      = ?t\<lparr> lanes := (lanes s)(1 := lane_after (Suc (p + u)) b), cmem := store64 (cmem ?t) (lane_addr b (p + u)) (fpu op (map (fregs s) (src u))) \<rparr>"
    using assms(1) read_frs_plain [of "src u" ?t] Suc.prems [of u] by (simp add: write_fr_def is_stream_def lane_pop_after Let_def)
  then show ?case using t by (simp add: run_fis_def fun_upd_def)
qed

lemma read_write_row:
  assumes "streaming a b p s" "3 \<le> r"
  shows "streaming a b (p + u) (run_fis fpu (map (\<lambda>i. FOp op 1 [0, r]) [0..<u]) s)
    \<and> fregs (run_fis fpu (map (\<lambda>i. FOp op 1 [0, r]) [0..<u]) s) = fregs s
    \<and> cmem (run_fis fpu (map (\<lambda>i. FOp op 1 [0, r]) [0..<u]) s)
      = fold (\<lambda>i m. store64 m (lane_addr b (p + i)) (fpu op [load64 m (lane_addr a (p + i)), fregs s r])) [0..<u] (cmem s)"
proof (induction u)
  case 0
  then show ?case using assms(1) by (simp add: run_fis_def)
next
  case (Suc u)
  let ?t = "run_fis fpu (map (\<lambda>i. FOp op 1 [0, r]) [0..<u]) s"
  have "exec_fi fpu (FOp op 1 [0, r]) ?t = ?t\<lparr> lanes := (lanes ?t)(0 := lane_after (Suc (p + u)) a, 1 := lane_after (Suc (p + u)) b),
      cmem := store64 (cmem ?t) (lane_addr b (p + u)) (fpu op [load64 (cmem ?t) (lane_addr a (p + u)), fregs s r]) \<rparr>"
    using Suc assms(2) by (simp add: streaming_def read_fr_def write_fr_def is_stream_def lane_pop_after Let_def)
  moreover have "run_fis fpu (map (\<lambda>i. FOp op 1 [0, r]) [0..<Suc u]) s = exec_fi fpu (FOp op 1 [0, r]) ?t" by (simp add: run_fis_def)
  ultimately show ?case using Suc by (simp add: streaming_def)
qed

definition bn_fun :: "fpu \<Rightarrow> bool \<Rightarrow> bool \<Rightarrow> u64 \<Rightarrow> u64 \<Rightarrow> u64 \<Rightarrow> u64" where
  "bn_fun fpu bn relu kap lam x = (let y = if bn then fpu vfadd_s [fpu vfmul_s [x, kap], lam] else x in if relu then fpu vfmax_s [y, 0] else y)"

lemma bn_round:
  assumes st: "streaming a b p s" and ab: "\<And>i. i < u \<Longrightarrow> lane_addr b (p + i) = lane_addr a (p + i)" and u: "u \<le> 4" and sp: "spread (lane_addr a) {p..<p + u}"
    and f: "bn \<or> relu" and z: "fregs s zero_reg = 0"
    and G: "G = (\<lambda>_. bn_fun fpu bn relu (fregs s kappa_reg) (fregs s lambda_reg))" and t: "t = run_fis fpu (bn_body bn relu u) s"
  shows "streaming a b (p + u) t \<and> cmem t = pointwise G (lane_addr a) [p..<p + u] (cmem s) \<and> (\<forall>r\<ge>20. fregs t r = fregs s r)"
proof (cases bn)
  case False
  then have t': "t = run_fis fpu (map (\<lambda>i. FOp vfmax_s 1 [0, zero_reg]) [0..<u]) s" using f by (simp add: t bn_body_def)
  let ?f = "\<lambda>i m. store64 m (lane_addr b (p + i)) (fpu vfmax_s [load64 m (lane_addr a (p + i)), 0])"
  have "[p..<p + u] = map (\<lambda>i. p + i) [0..<u]" by (simp add: map_add_upt add.commute)
  then have "pointwise G (lane_addr a) [p..<p + u] (cmem s) = fold (\<lambda>i m. store64 m (lane_addr a (p + i)) (fpu vfmax_s [load64 m (lane_addr a (p + i)), 0])) [0..<u] (cmem s)"
    using False f by (simp add: pointwise_map G) (simp add: pointwise_def bn_fun_def)
  also have "\<dots> = fold ?f [0..<u] (cmem s)" by (intro fold_cong refl) (simp add: ab)
  finally show ?thesis using read_write_row [OF st, of zero_reg u fpu vfmax_s] z unfolding t' by (simp add: zero_reg_def)
next
  case True
  have on: "ssr_on s" "lanes s 0 = lane_after p a" "lanes s 1 = lane_after p b" using st by (simp_all add: streaming_def)
  have app: "run_fis fpu (xs @ ys) s = run_fis fpu ys (run_fis fpu xs s)" for xs ys s by (simp add: run_fis_def)
  let ?K = "fregs s kappa_reg" and ?L = "fregs s lambda_reg"
  define s1 where "s1 = (set_accs u (\<lambda>i. fpu vfmul_s [elem0 a (cmem s) (p + i), ?K]) s)\<lparr> lanes := (lanes s)(0 := lane_after (p + u) a) \<rparr>"
  have r1: "run_fis fpu (map (\<lambda>i. FOp vfmul_s (acc i) [0, kappa_reg]) [0..<u]) s = s1"
    unfolding s1_def using u by (intro read_row [OF on(1,2)]) (simp add: kappa_reg_def)
  have s1: "ssr_on s1" "lanes s1 1 = lane_after p b" "lanes s1 0 = lane_after (p + u) a" "cmem s1 = cmem s" using on by (simp_all add: s1_def)
  have a1: "fregs s1 (acc i) = fpu vfmul_s [elem0 a (cmem s) (p + i), ?K]" if "i < u" for i using that by (simp add: s1_def set_accs_def acc_def)
  have o1: "fregs s1 r = fregs s r" if "20 \<le> r" for r using that u by (simp add: s1_def set_accs_def)
  have sto: "stores (map (\<lambda>i. (lane_addr b (p + i), G (p + i) (elem0 a (cmem s) (p + i)))) [0..<u]) (cmem s) = pointwise G (lane_addr a) [p..<p + u] (cmem s)"
  proof -
    have m: "map (\<lambda>i. (lane_addr b (p + i), G (p + i) (elem0 a (cmem s) (p + i)))) [0..<u]
        = map (\<lambda>i. (lane_addr a (p + i), G (p + i) (load64 (cmem s) (lane_addr a (p + i))))) [0..<u]" by (simp add: ab elem0_def)
    show ?thesis unfolding m by (rule stores_pointwise [OF sp])
  qed
  show ?thesis
  proof (cases relu)
    case False
    have t': "t = run_fis fpu (map (\<lambda>i. FOp vfadd_s 1 [acc i, lambda_reg]) [0..<u]) s1"
      using True False by (simp add: t bn_body_def app r1)
    have w: "t = s1\<lparr> lanes := (lanes s1)(1 := lane_after (p + u) b),
        cmem := stores (map (\<lambda>i. (lane_addr b (p + i), fpu vfadd_s (map (fregs s1) [acc i, lambda_reg]))) [0..<u]) (cmem s1) \<rparr>"
      unfolding t' by (rule write_row [OF s1(1,2)]) (auto simp: acc_def lambda_reg_def)
    have m: "map (\<lambda>i. (lane_addr b (p + i), fpu vfadd_s (map (fregs s1) [acc i, lambda_reg]))) [0..<u]
        = map (\<lambda>i. (lane_addr b (p + i), G (p + i) (elem0 a (cmem s) (p + i)))) [0..<u]"
      using True False by (intro map_cong refl) (simp add: a1 o1 lambda_reg_def G bn_fun_def)
    show ?thesis unfolding w m s1(4) sto using s1 o1 by (simp add: streaming_def)
  next
    case rl: True
    define s2 where "s2 = set_regs 10 u (\<lambda>i. fpu vfadd_s (map (fregs s1) [acc i, lambda_reg])) s1"
    have "run_fis fpu (map (\<lambda>i. FOp vfadd_s (10 + i) [acc i, lambda_reg]) [0..<u]) s1 = s2"
      unfolding s2_def using u by (intro fop_row) (auto simp: acc_def lambda_reg_def)
    then have r2: "run_fis fpu (map (\<lambda>i. FOp vfadd_s (acc i) [acc i, lambda_reg]) [0..<u]) s1 = s2" by (simp add: acc_def)
    have s2: "ssr_on s2" "lanes s2 1 = lane_after p b" "lanes s2 0 = lane_after (p + u) a" "cmem s2 = cmem s" using s1 by (simp_all add: s2_def)
    have a2: "fregs s2 (acc i) = fpu vfadd_s [fpu vfmul_s [elem0 a (cmem s) (p + i), ?K], ?L]" if "i < u" for i
      using that a1 [OF that] o1 [of lambda_reg] by (simp add: s2_def fregs_set_regs acc_def lambda_reg_def)
    have o2: "fregs s2 r = fregs s r" if "20 \<le> r" for r using that u o1 by (simp add: s2_def fregs_set_regs)
    have t': "t = run_fis fpu (map (\<lambda>i. FOp vfmax_s 1 [acc i, zero_reg]) [0..<u]) s2"
      using True rl by (simp add: t bn_body_def app r1 r2)
    have w: "t = s2\<lparr> lanes := (lanes s2)(1 := lane_after (p + u) b),
        cmem := stores (map (\<lambda>i. (lane_addr b (p + i), fpu vfmax_s (map (fregs s2) [acc i, zero_reg]))) [0..<u]) (cmem s2) \<rparr>"
      unfolding t' by (rule write_row [OF s2(1,2)]) (auto simp: acc_def zero_reg_def)
    have m: "map (\<lambda>i. (lane_addr b (p + i), fpu vfmax_s (map (fregs s2) [acc i, zero_reg]))) [0..<u]
        = map (\<lambda>i. (lane_addr b (p + i), G (p + i) (elem0 a (cmem s) (p + i)))) [0..<u]"
      using True rl z by (intro map_cong refl) (simp add: a2 o2 zero_reg_def G bn_fun_def)
    show ?thesis unfolding w m s2(4) sto using s2 o2 by (simp add: streaming_def)
  qed
qed

section \<open>Channels and phases\<close>

lemma bn_frep:
  assumes st: "streaming a b p s" and ab: "\<And>q. p \<le> q \<Longrightarrow> q < p + u * n \<Longrightarrow> lane_addr b q = lane_addr a q" and u: "u \<le> 4"
    and sp: "spread (lane_addr a) {p..<p + u * n}" and f: "bn \<or> relu" and z: "fregs s zero_reg = 0"
    and G: "G = (\<lambda>_. bn_fun fpu bn relu (fregs s kappa_reg) (fregs s lambda_reg))"
  shows "streaming a b (p + u * n) ((run_fis fpu (bn_body bn relu u) ^^ n) s)
    \<and> cmem ((run_fis fpu (bn_body bn relu u) ^^ n) s) = pointwise G (lane_addr a) [p..<p + u * n] (cmem s)
    \<and> (\<forall>r\<ge>20. fregs ((run_fis fpu (bn_body bn relu u) ^^ n) s) r = fregs s r)"
  using ab sp
proof (induction n)
  case 0
  then show ?case using st by simp
next
  case (Suc n)
  let ?t = "(run_fis fpu (bn_body bn relu u) ^^ n) s"
  have "spread (lane_addr a) {p..<p + u * n}" using Suc.prems(2) by (auto simp: spread_def)
  then have t: "streaming a b (p + u * n) ?t" "cmem ?t = pointwise G (lane_addr a) [p..<p + u * n] (cmem s)" "\<forall>r\<ge>20. fregs ?t r = fregs s r"
    using Suc.IH Suc.prems(1) by (simp_all add: add.assoc)
  have sp1: "spread (lane_addr a) {p + u * n..<p + u * n + u}" using Suc.prems(2) by (auto simp: spread_def)
  have g: "G = (\<lambda>_. bn_fun fpu bn relu (fregs ?t kappa_reg) (fregs ?t lambda_reg))" using t(3) by (simp add: G kappa_reg_def lambda_reg_def)
  have "fregs ?t zero_reg = 0" using t(3) z by (simp add: zero_reg_def)
  from bn_round [OF t(1) _ u sp1 f this g refl] Suc.prems(1)
  have r: "streaming a b (p + u * n + u) (run_fis fpu (bn_body bn relu u) ?t)"
    "cmem (run_fis fpu (bn_body bn relu u) ?t) = pointwise G (lane_addr a) [p + u * n..<p + u * n + u] (cmem ?t)"
    "\<forall>r\<ge>20. fregs (run_fis fpu (bn_body bn relu u) ?t) r = fregs ?t r"
    by (simp_all add: add.assoc)
  have l: "[p..<p + u * Suc n] = [p..<p + u * n] @ [p + u * n..<p + u * n + u]"
    using upt_add_eq_append [of p "p + u * n" u] by (simp add: algebra_simps)
  show ?case using r t unfolding l by (simp add: algebra_simps)
qed

lemma bn_channel_spec:
  assumes at: "strip_at a b p s" and n: "unat n_frep < 2 ^ 16" "Suc (unat n_frep) = n"
    and ab: "\<And>q. p \<le> q \<Longrightarrow> q < p + u * n \<Longrightarrow> lane_addr b q = lane_addr a q" and u: "u \<le> 4"
    and sp: "spread (lane_addr a) {p..<p + u * n}" and f: "bn \<or> relu" and t: "t = bn_channel fpu kap lam bn relu n_frep u co s"
  shows "strip_at a b (p + u * n) t
    \<and> cmem t = pointwise (\<lambda>_. bn_fun fpu bn relu (load64 (cmem s) (kap + 8 * co)) (load64 (cmem s) (lam + 8 * co))) (lane_addr a) [p..<p + u * n] (cmem s)"
proof -
  define v where "v = s\<lparr> fregs := (fregs s)(lambda_reg := load64 (cmem s) (lam + 8 * co), kappa_reg := load64 (cmem s) (kap + 8 * co), zero_reg := 0), ssr_on := True \<rparr>"
  have v: "streaming a b p v" "fregs v zero_reg = 0" using at by (simp_all add: v_def streaming_def strip_at_def)
  have "unat (take_bit 16 n_frep) = unat n_frep" using n(1) by (simp add: unsigned_take_bit_eq take_bit_nat_eq_self)
  then have "run_asm fpu (bn_asm bn relu n_frep u) v = (run_fis fpu (bn_body bn relu u) ^^ n) v"
    using f n(2) by (simp add: bn_asm_def del: funpow.simps)
  moreover have "t = snrt_ssr_disable (run_asm fpu (bn_asm bn relu n_frep u) v)"
    unfolding t bn_channel_def Let_def
    by (simp add: v_def write_fr_def is_stream_def set_fr_def snrt_ssr_enable_def lambda_reg_def kappa_reg_def zero_reg_def)
  ultimately have t: "t = snrt_ssr_disable ((run_fis fpu (bn_body bn relu u) ^^ n) v)" by simp
  have r: "fregs v kappa_reg = load64 (cmem s) (kap + 8 * co)" "fregs v lambda_reg = load64 (cmem s) (lam + 8 * co)" "cmem v = cmem s"
    by (simp_all add: v_def kappa_reg_def lambda_reg_def zero_reg_def)
  show ?thesis
    using bn_frep [OF v(1) ab u sp f v(2) refl, where fpu = fpu] unfolding t r by (simp add: streaming_def strip_at_def snrt_ssr_disable_def)
qed

lemma bn_phase:
  assumes at: "strip_at a b 0 s" and n: "unat n_frep < 2 ^ 16" "Suc (unat n_frep) = n" and P: "P = u * n" "0 < P"
    and ab: "\<And>q. q < P * J \<Longrightarrow> lane_addr b q = lane_addr a q" and u: "u \<le> 4" and sp: "spread (lane_addr a) {0..<P * J}" and f: "bn \<or> relu"
    and kl: "\<And>j q. j < J \<Longrightarrow> q < P * J \<Longrightarrow> apart (kap + 8 * of_nat (chan j)) (lane_addr a q) \<and> apart (lam + 8 * of_nat (chan j)) (lane_addr a q)"
    and G: "G = (\<lambda>q. bn_fun fpu bn relu (load64 (cmem s) (kap + 8 * of_nat (chan (q div P)))) (load64 (cmem s) (lam + 8 * of_nat (chan (q div P)))))"
  shows "j \<le> J \<Longrightarrow> strip_at a b (P * j) (fold (\<lambda>j. bn_channel fpu kap lam bn relu n_frep u (of_nat (chan j))) [0..<j] s)
    \<and> cmem (fold (\<lambda>j. bn_channel fpu kap lam bn relu n_frep u (of_nat (chan j))) [0..<j] s) = pointwise G (lane_addr a) [0..<P * j] (cmem s)"
proof (induction j)
  case 0
  then show ?case using at by simp
next
  case (Suc j)
  let ?t = "fold (\<lambda>j. bn_channel fpu kap lam bn relu n_frep u (of_nat (chan j))) [0..<j] s"
  have le: "P * j + P \<le> P * J" using mult_le_mono2 [OF Suc.prems, of P] by simp
  have t: "strip_at a b (P * j) ?t" "cmem ?t = pointwise G (lane_addr a) [0..<P * j] (cmem s)" using Suc by simp_all
  have k: "load64 (cmem ?t) (kap + 8 * of_nat (chan j)) = load64 (cmem s) (kap + 8 * of_nat (chan j))"
    "load64 (cmem ?t) (lam + 8 * of_nat (chan j)) = load64 (cmem s) (lam + 8 * of_nat (chan j))"
    unfolding t(2) using kl Suc.prems le by (auto intro!: load64_pointwise_other)
  have sp1: "spread (lane_addr a) {P * j..<P * j + u * n}" using sp le unfolding P(1) by (auto simp: spread_def)
  let ?r = "bn_channel fpu kap lam bn relu n_frep u (of_nat (chan j)) ?t"
  have r: "strip_at a b (P * j + P) ?r"
    "cmem ?r = pointwise (\<lambda>_. bn_fun fpu bn relu (load64 (cmem s) (kap + 8 * of_nat (chan j))) (load64 (cmem s) (lam + 8 * of_nat (chan j))))
      (lane_addr a) [P * j..<P * j + P] (cmem ?t)"
    using bn_channel_spec [OF t(1) n _ u sp1 f refl, of fpu kap lam "of_nat (chan j)"] ab le unfolding k P(1) [symmetric] by simp_all
  have "q div P = j" if "q \<in> set [P * j..<P * j + P]" for q using that P(2) by (intro div_nat_eqI) (simp_all add: mult.commute)
  then have c: "cmem ?r = pointwise G (lane_addr a) [P * j..<P * j + P] (cmem ?t)" unfolding r(2) by (intro pointwise_cong) (simp add: G)
  have l: "[0..<P * Suc j] = [0..<P * j] @ [P * j..<P * j + P]"
    using upt_add_eq_append [of 0 "P * j" P] by (simp add: algebra_simps)
  show ?case using r(1) c t(2) unfolding l by (simp add: algebra_simps)
qed

text \<open>The two jobs of a phase.\<close>

lemma repeat_commute:
  "snrt_ssr_repeat hw dm r (snrt_ssr_loop_4d hw dm b0 b1 b2 b3 s0 s1 s2 s3 l) = snrt_ssr_loop_4d hw dm b0 b1 b2 b3 s0 s1 s2 s3 (snrt_ssr_repeat hw dm r l)"
  by (simp add: ssr_defs fun_eq_iff)

lemma bn_streams_jobs:
  assumes l: "ssr_ready (l 0)" "ssr_ready (l 1)" "sh_rep (l 0) = 0"
    and f: "fits (IndexWidth hw) u" "fits (IndexWidth hw) X" "fits (IndexWidth hw) h" "fits (IndexWidth hw) J"
    and s: "h_stride = 2 * hk" "w_stride = 2 * wk"
    and t: "t = bn_streams hw u X h J h_stride w_stride num ptr l"
  shows "\<exists>c0 c1. t 0 = ssr_job c0 3 ptr \<and> t 1 = (ssr_job c1 3 ptr)\<lparr> wr := True \<rparr> \<and> (\<forall>c\<in>{c0, c1}. ssr_ready c
    \<and> ssr_cfg c 3 1 [unat u, unat X, unat h, unat J] [h_stride * 4, w_stride * 4, u * h_stride * 4, num * 8])"
proof -
  let ?loop = "\<lambda>dm. snrt_ssr_loop_4d hw dm u X h J (h_stride * 4) (w_stride * 4) (u * h_stride * 4) (num * 8)"
  let ?l = "snrt_ssr_repeat hw 1 1 (?loop 1 (?loop 0 l))"
  have k: "h_stride * 4 = 8 * hk" "w_stride * 4 = 8 * wk" "u * h_stride * 4 = 8 * (u * hk)" "num * 8 = 8 * num"
    by (simp_all add: s mult.commute)
  have l0: "?l 0 = ?loop 0 l 0" by (simp add: ssr_frame)
  have l1: "?l 1 = ?loop 1 (snrt_ssr_repeat hw 1 1 (?loop 0 l)) 1" by (simp add: repeat_commute)
  have c0: "ssr_cfg (?l 0) 3 1 [unat u, unat X, unat h, unat J] [h_stride * 4, w_stride * 4, u * h_stride * 4, num * 8]"
    by (rule cfg_4d [OF l0 l(3) f k])
  have c1: "ssr_cfg (?l 1) 3 1 [unat u, unat X, unat h, unat J] [h_stride * 4, w_stride * 4, u * h_stride * 4, num * 8]"
    by (rule cfg_4d [OF l1 _ f k]) (simp add: snrt_ssr_repeat_def write_ssr_cfg_def agen_write_def REG_REPEAT_def)
  have r: "ssr_ready (?l 0)" "ssr_ready (?l 1)" using l by (simp_all add: ssr_ready_cfg)
  then have i: "idle (?l 0)" "idle (?l 1)" by (simp_all add: ssr_ready_def)
  have "t = ?l(0 := ssr_job (?l 0) 3 ptr, 1 := (ssr_job (?l 1) 3 ptr)\<lparr> wr := True \<rparr>)"
    using i unfolding t bn_streams_def Let_def by (simp add: snrt_ssr_read_job snrt_ssr_write_job)
  then have "t 0 = ssr_job (?l 0) 3 ptr" "t 1 = (ssr_job (?l 1) 3 ptr)\<lparr> wr := True \<rparr>" by simp_all
  then show ?thesis using c0 c1 r by blast
qed

section \<open>Phases over pixels\<close>

text \<open>
  A pixel is a pair of channels, a row and a column. A phase visits bands of \<open>u\<close> rows, \<open>H\<close> bands per channel, from row
  \<open>r0\<close> on.
\<close>

definition bn_at :: "u32 \<Rightarrow> u32 \<Rightarrow> u32 \<Rightarrow> pixel \<Rightarrow> u32" where
  "bn_at pBuffer h_stride w_stride = (\<lambda>(co, h, w). pBuffer + 4 * (of_nat h * h_stride + of_nat w * w_stride + 2 * of_nat co))"

definition bn_pix :: "(nat \<Rightarrow> nat) \<Rightarrow> nat \<Rightarrow> nat \<Rightarrow> nat \<Rightarrow> nat \<Rightarrow> nat \<Rightarrow> pixel" where
  "bn_pix chan r0 u X H q = (chan (q div u div X div H), r0 + u * (q div u div X mod H) + q mod u, q div u mod X)"

definition bn_val :: "fpu \<Rightarrow> bool \<Rightarrow> bool \<Rightarrow> u32 \<Rightarrow> u32 \<Rightarrow> mem \<Rightarrow> pixel \<Rightarrow> u64 \<Rightarrow> u64" where
  "bn_val fpu bn relu kap lam m = (\<lambda>(co, h, w). bn_fun fpu bn relu (load64 m (kap + 8 * of_nat co)) (load64 m (lam + 8 * of_nat co)))"

abbreviation bn_disjoint :: "u32 \<Rightarrow> u32 \<Rightarrow> u32 \<Rightarrow> u32 \<Rightarrow> u32 \<Rightarrow> u32 \<Rightarrow> pixel list \<Rightarrow> bool" where
  "bn_disjoint q pBuffer h_stride w_stride kap lam es \<equiv>
    disjoint_ops q (bn_at pBuffer h_stride w_stride) (\<lambda>(co, h, w) _. kap + 8 * of_nat co) (\<lambda>(co, h, w) _. lam + 8 * of_nat co) 1 es"

lemma bn_pix_digits:
  assumes "i < u" "w < X" "h < H"
  shows "bn_pix chan r0 u X H (i + u * (w + X * (h + H * j))) = (chan j, r0 + u * h + i, w)"
  using assms by (simp add: bn_pix_def)

lemma digits:
  fixes q u X H J :: nat
  assumes "q < u * (X * H) * J"
  obtains i w h j where "q = i + u * (w + X * (h + H * j))" "i < u" "w < X" "h < H" "j < J"
proof
  let ?w = "q div u" and ?h = "q div u div X"
  have pos: "0 < u" "0 < X" "0 < H" using assms by (auto intro: gr0I)
  show "q = q mod u + u * (?w mod X + X * (?h mod H + H * (?h div H)))" by simp
  show "q mod u < u" "?w mod X < X" "?h mod H < H" using pos by simp_all
  have "q < u * (X * (H * J))" using assms by (simp add: mult.assoc)
  then have "?w < X * (H * J)" by (simp add: less_mult_imp_div_less mult.commute)
  then have "?h < H * J" by (simp add: less_mult_imp_div_less mult.commute)
  then show "?h div H < J" by (simp add: less_mult_imp_div_less mult.commute)
qed

lemma inj_bn_pix:
  assumes "inj_on chan {..<J}"
  shows "inj_on (bn_pix chan r0 u X H) {0..<u * (X * H) * J}"
proof (rule inj_onI)
  fix q q'
  assume a: "q \<in> {0..<u * (X * H) * J}" "q' \<in> {0..<u * (X * H) * J}" and e: "bn_pix chan r0 u X H q = bn_pix chan r0 u X H q'"
  obtain i w h j where q: "q = i + u * (w + X * (h + H * j))" "i < u" "w < X" "h < H" "j < J" using a(1) by (auto elim: digits)
  obtain i' w' h' j' where q': "q' = i' + u * (w' + X * (h' + H * j'))" "i' < u" "w' < X" "h' < H" "j' < J" using a(2) by (auto elim: digits)
  have e: "chan j = chan j'" "i + u * h = i' + u * h'" "w = w'"
    using e unfolding q(1) q'(1) bn_pix_digits [OF q(2-4)] bn_pix_digits [OF q'(2-4)] by simp_all
  have "j = j'" using inj_onD [OF assms e(1)] q(5) q'(5) by simp
  moreover have "i = i'" "h = h'" using mixed_radix [OF q(2) q'(2) e(2)] by blast+
  ultimately show "q = q'" unfolding q(1) q'(1) by (simp only: e(3))
qed

lemma bn_phase_pixels:
  assumes c: "\<forall>c\<in>{c0, c1}. ssr_ready c \<and> ssr_cfg c 3 1 [u, X, H, J] [h_stride * 4, w_stride * 4, of_nat u * h_stride * 4, num * 8]"
    and l: "lanes s 0 = ssr_job c0 3 ptr" "lanes s 1 = (ssr_job c1 3 ptr)\<lparr> wr := True \<rparr>" and ptr: "ptr = pBuffer + 4 * (of_nat r0 * h_stride + cid * 2)"
    and n: "unat n_frep < 2 ^ 16" "Suc (unat n_frep) = X * H" and u: "0 < u" "u \<le> 4" and f: "bn \<or> relu"
    and chan: "\<And>j. of_nat (chan j) = cid + of_nat j * num" "inj_on chan {..<J}"
    and es: "es = map (bn_pix chan r0 u X H) [0..<u * (X * H) * J]" and d: "bn_disjoint q pBuffer h_stride w_stride kap lam E" "set es \<subseteq> set E"
    and t: "t = fold (\<lambda>j. bn_channel fpu kap lam bn relu n_frep u (of_nat (chan j))) [0..<J] s"
  shows "conv_idle (lanes t) \<and> cmem t = pointwise (bn_val fpu bn relu kap lam (cmem s)) (bn_at pBuffer h_stride w_stride) es (cmem s) \<and> distinct es"
proof -
  let ?P = "u * (X * H)" and ?A = "bn_at pBuffer h_stride w_stride"
  define a where "a = ssr_job c0 3 ptr"
  define b where "b = (ssr_job c1 3 ptr)\<lparr> wr := True \<rparr>"
  have at: "strip_at a b 0 s" using l by (simp add: strip_at_def a_def b_def)
  have pend: "pending (ssr_job c1 3 ptr) = None" by (simp add: ssr_job_pointer)
  have ad: "lane_addr (ssr_job c 3 ptr) p = ?A (bn_pix chan r0 u X H p)" if "c \<in> {c0, c1}" "p < ?P * J" for c p
  proof -
    note pl = that(2)
    obtain i w h j where p: "p = i + u * (w + X * (h + H * j))" "i < u" "w < X" "h < H" "j < J" using pl by (rule digits)
    have rc: "ssr_ready c" "ssr_cfg c 3 1 [u, X, H, J] [h_stride * 4, w_stride * 4, of_nat u * h_stride * 4, num * 8]"
      using c that(1) by blast+
    have "lane_addr (ssr_job c 3 ptr) p = ptr + of_nat i * (h_stride * 4) + of_nat w * (w_stride * 4) + of_nat h * (of_nat u * h_stride * 4) + of_nat j * (num * 8)"
      using ssr_job_addr [OF rc zero_less_one p(2-5), of ptr] unfolding p(1) by simp
    then show ?thesis unfolding p(1) bn_pix_digits [OF p(2-4)] by (simp add: bn_at_def chan(1) ptr algebra_simps)
  qed
  have aa: "lane_addr a p = ?A (bn_pix chan r0 u X H p)" "lane_addr b p = lane_addr a p" if "p < ?P * J" for p
    using ad [OF _ that] by (simp_all add: a_def b_def lane_addr_wr [OF pend])
  have inj: "inj_on (bn_pix chan r0 u X H) {0..<?P * J}" by (rule inj_bn_pix [OF chan(2)])
  have sub: "bn_pix chan r0 u X H p \<in> set E" if "p < ?P * J" for p using that d(2) unfolding es by auto
  have sp: "spread (lane_addr a) {0..<?P * J}"
    unfolding spread_def
  proof (intro ballI impI)
    fix e e'
    assume e: "e \<in> {0..<?P * J}" "e' \<in> {0..<?P * J}" "e \<noteq> e'"
    then have "bn_pix chan r0 u X H e' \<noteq> bn_pix chan r0 u X H e" using inj by (auto dest: inj_onD)
    then show "apart (lane_addr a e) (lane_addr a e')" using e by (simp add: aa disjoint_opsD(2) [OF d(1)] sub)
  qed
  have kl: "apart (kap + 8 * of_nat (chan j)) (lane_addr a p) \<and> apart (lam + 8 * of_nat (chan j)) (lane_addr a p)" if "j < J" "p < ?P * J" for j p
  proof -
    have pos: "0 < X * H" "0 < u" using that(2) by (auto intro: gr0I)
    have "0 + u * (0 + X * (0 + H * j)) < ?P * J" using that(1) pos by simp
    then have "bn_pix chan r0 u X H (0 + u * (0 + X * (0 + H * j))) \<in> set E" by (rule sub)
    then have "(chan j, r0 + u * 0 + 0, 0) \<in> set E" using pos by (subst (asm) bn_pix_digits) (simp_all)
    then show ?thesis using disjoint_opsD(3,4) [OF d(1) sub [OF that(2)], of "(chan j, r0 + u * 0 + 0, 0)" 0] by (simp add: aa that(2))
  qed
  have "0 < X * H" unfolding n(2) [symmetric] by simp
  then have PJ: "0 < ?P" using u(1) by (rule mult_pos_pos [rotated])
  let ?G = "\<lambda>p. bn_fun fpu bn relu (load64 (cmem s) (kap + 8 * of_nat (chan (p div ?P)))) (load64 (cmem s) (lam + 8 * of_nat (chan (p div ?P))))"
  note F = bn_phase [OF at n refl PJ aa(2) u(2) sp f kl refl, where j = J and fpu = fpu, OF _ _ _ order_refl]
  have F: "strip_at a b (?P * J) t" "cmem t = pointwise ?G (lane_addr a) [0..<?P * J] (cmem s)"
    using F unfolding t by simp_all
  have "pointwise ?G (lane_addr a) [0..<?P * J] (cmem s) = pointwise (\<lambda>p. bn_val fpu bn relu kap lam (cmem s) (bn_pix chan r0 u X H p)) (\<lambda>p. ?A (bn_pix chan r0 u X H p)) [0..<?P * J] (cmem s)"
    by (intro pointwise_cong) (simp add: aa bn_val_def bn_pix_def div_mult2_eq)
  then have m: "cmem t = pointwise (bn_val fpu bn relu kap lam (cmem s)) ?A es (cmem s)" unfolding F(2) es pointwise_map .
  have len: "1 * (u * (X * (H * J))) = ?P * J" by (simp add: mult.assoc)
  have e0: "ssr_ready (lane_after (?P * J) (ssr_job c 3 ptr)) \<and> ssr_cfg (lane_after (?P * J) (ssr_job c 3 ptr)) 3 1 [u, X, H, J] [h_stride * 4, w_stride * 4, of_nat u * h_stride * 4, num * 8]"
    if "c \<in> {c0, c1}" for c
    using ssr_job_end [of c 3 1 u X H J _ ptr] c that unfolding len by blast
  have "lanes t 0 = lane_after (?P * J) (ssr_job c0 3 ptr)" "lanes t 1 = (lane_after (?P * J) (ssr_job c1 3 ptr))\<lparr> wr := True \<rparr>"
    using F(1) lane_after_wr [OF pend] by (simp_all add: strip_at_def a_def b_def)
  then have "conv_idle (lanes t)"
    using e0 [of c0] e0 [of c1] by (simp add: conv_idle_def ssr_ready_def ssr_cfg_def start_job_def Let_def unat_eq_zero)
  moreover have "distinct es" unfolding es using inj by (simp add: distinct_map)
  ultimately show ?thesis using m by blast
qed

section \<open>Correctness\<close>

lemma conv_channels_steps:
  assumes "0 < unat num"
  shows "conv_channels cid num ch = map (\<lambda>j. unat cid + j * unat num) [0..<length (conv_channels cid num ch)]"
proof -
  let ?n = "unat num" and ?i = "unat cid"
  have "filter (\<lambda>co. (co - ?i) mod ?n = 0) [?i..<?i + d] = map (\<lambda>j. ?i + j * ?n) [0..<(d + ?n - 1) div ?n]" for d
  proof (induction d)
    case 0
    then show ?case using assms by simp
  next
    case (Suc d)
    have dm: "d div ?n * ?n + d mod ?n = d" by (rule div_mult_mod_eq)
    have s: "(Suc d + ?n - 1) div ?n = Suc (d div ?n)" using assms by (simp add: div_add_self2)
    show ?case
    proof (cases "d mod ?n = 0")
      case True
      then have e: "d div ?n * ?n = d" using dm by linarith
      have "(d + ?n - 1) div ?n = (?n - 1 + d div ?n * ?n) div ?n" unfolding e using assms by (simp add: add.commute)
      also have "\<dots> = d div ?n" by (subst div_mult_self1) (use assms in simp_all)
      finally show ?thesis using Suc True e s by simp
    next
      case False
      then have "d + ?n - 1 = (d mod ?n - 1) + Suc (d div ?n) * ?n" using dm assms by simp
      then have "(d + ?n - 1) div ?n = (d mod ?n - 1 + Suc (d div ?n) * ?n) div ?n" by (rule arg_cong)
      also have "\<dots> = Suc (d div ?n)" using assms mod_less_divisor [OF assms, of d] by (simp del: mult_Suc)
      finally show ?thesis using Suc False s by simp
    qed
  qed
  from this [of "unat ch - ?i"] have "\<exists>J. conv_channels cid num ch = map (\<lambda>j. ?i + j * ?n) [0..<J]"
    unfolding conv_channels_def by (cases "?i \<le> unat ch") (auto intro: exI [of _ 0])
  then obtain J where "conv_channels cid num ch = map (\<lambda>j. ?i + j * ?n) [0..<J]" by blast
  then show ?thesis by simp
qed

definition bn_pixels :: "nat list \<Rightarrow> nat \<Rightarrow> nat \<Rightarrow> pixel list" where
  "bn_pixels cs Y X = concat (map (\<lambda>co. concat (map (\<lambda>h. map (\<lambda>w. (co, h, w)) [0..<X]) [0..<Y])) cs)"

lemma set_bn_pixels: "set (bn_pixels cs Y X) = {(co, h, w). co \<in> set cs \<and> h < Y \<and> w < X}"
  by (auto simp: bn_pixels_def image_iff)

text \<open>
  The map has at least four rows and pairs of channels, the core has as many pairs as the outermost loop of its streams,
  everything fits the hardware, and elements overlap neither each other nor the parameters.
\<close>

definition bn_legal :: "ssr_hw \<Rightarrow> u32 \<Rightarrow> u16 \<Rightarrow> u16 \<Rightarrow> u16 \<Rightarrow> u32 \<Rightarrow> u32 \<Rightarrow> u32 \<Rightarrow> nat list \<Rightarrow> u32 \<Rightarrow> bool" where
  "bn_legal hw pBuffer dim_x dim_y ch kap lam num cs q \<longleftrightarrow>
     unat ch mod 2 = 0 \<and> 4 \<le> unat dim_y \<and> 0 < unat num \<and> length cs = unat (bn_pairs ch num) \<and> unat dim_x * (unat dim_y div 4) \<le> 2 ^ 16
     \<and> fits (IndexWidth hw) 4 \<and> fits (IndexWidth hw) (w32 dim_x) \<and> fits (IndexWidth hw) (w32 dim_y div 4) \<and> fits (IndexWidth hw) 1
     \<and> fits (IndexWidth hw) (bn_pairs ch num)
     \<and> bn_disjoint q pBuffer (w32 ch * w32 dim_x) (w32 ch) kap lam (bn_pixels cs (unat dim_y) (unat dim_x))"

lemma bn_phase_run:
  assumes l: "conv_idle (lanes s)"
    and f: "fits (IndexWidth hw) u" "fits (IndexWidth hw) X" "fits (IndexWidth hw) H" "fits (IndexWidth hw) J" and s: "h_stride = 2 * hk" "w_stride = 2 * wk"
    and ptr: "ptr = pBuffer + 4 * (of_nat r0 * h_stride + cid * 2)" and n: "unat X * unat H \<le> 2 ^ 16" "n_frep = X * H - 1"
    and u: "unat u \<le> 4" and fl: "bn \<or> relu" and num: "0 < unat num" and cs: "cs = map (\<lambda>j. unat cid + j * unat num) [0..<unat J]"
    and d: "bn_disjoint q pBuffer h_stride w_stride kap lam (bn_pixels cs Y (unat X))" "r0 + unat u * unat H \<le> Y"
    and t: "t = fold (\<lambda>co. bn_channel fpu kap lam bn relu n_frep (unat u) (of_nat co)) cs
      (on_ssrs (bn_streams hw u X H J h_stride w_stride num ptr) s)"
  shows "\<exists>es. conv_idle (lanes t) \<and> cmem t = pointwise (bn_val fpu bn relu kap lam (cmem s)) (bn_at pBuffer h_stride w_stride) es (cmem s) \<and> distinct es
    \<and> set es = {(co, h, w). co \<in> set cs \<and> r0 \<le> h \<and> h < r0 + unat u * unat H \<and> w < unat X}"
proof -
  let ?ch = "\<lambda>j. unat cid + j * unat num" and ?s = "on_ssrs (bn_streams hw u X H J h_stride w_stride num ptr) s"
  let ?es = "map (bn_pix ?ch r0 (unat u) (unat X) (unat H)) [0..<unat u * (unat X * unat H) * unat J]"
  have pos: "0 < unat u" "0 < unat X" "0 < unat H" "0 < unat J" using f by (simp_all add: fits_def unat_gt_0)
  obtain c0 c1 where c: "lanes ?s 0 = ssr_job c0 3 ptr" "lanes ?s 1 = (ssr_job c1 3 ptr)\<lparr> wr := True \<rparr>"
    "\<forall>c\<in>{c0, c1}. ssr_ready c \<and> ssr_cfg c 3 1 [unat u, unat X, unat H, unat J] [h_stride * 4, w_stride * 4, of_nat (unat u) * h_stride * 4, num * 8]"
    using bn_streams_jobs [OF _ _ _ f s refl, of "lanes s" num ptr] l by (auto simp: conv_idle_def on_ssrs_def)
  have x: "unat (X * H) = unat X * unat H" using n(1) by (intro unat_times_no_overflow) simp
  have "0 < unat (X * H)" "unat (X * H) \<le> 2 ^ 16" unfolding x using n(1) pos by simp_all
  from frep_count [OF this] have fr: "unat n_frep < 2 ^ 16" "Suc (unat n_frep) = unat X * unat H" unfolding n(2) x by simp_all
  have ch: "of_nat (?ch j) = cid + of_nat j * num" for j by simp
  have inj: "inj_on ?ch {..<unat J}" using num by (auto simp: inj_on_def)
  have set: "set ?es = {(co, h, w). co \<in> set cs \<and> r0 \<le> h \<and> h < r0 + unat u * unat H \<and> w < unat X}" (is "?L = ?R")
  proof (intro set_eqI iffI)
    fix e
    assume "e \<in> ?L"
    then obtain p where p: "p < unat u * (unat X * unat H) * unat J" "e = bn_pix ?ch r0 (unat u) (unat X) (unat H) p" by auto
    then obtain i w h j where ih: "p = i + unat u * (w + unat X * (h + unat H * j))" "i < unat u" "w < unat X" "h < unat H" "j < unat J" by (auto elim: digits)
    have "unat u * h + i < unat u * unat H" using radix_bound [OF ih(2,4)] by simp
    then show "e \<in> ?R" using ih(3,5) unfolding p(2) ih(1) bn_pix_digits [OF ih(2-4)] cs by auto
  next
    fix e
    assume "e \<in> ?R"
    then obtain j h w where e: "e = (?ch j, r0 + h, w)" "j < unat J" "h < unat u * unat H" "w < unat X" by (force simp: cs dest: le_Suc_ex)
    have i: "h mod unat u < unat u" "h div unat u < unat H" using pos e(3) by (simp_all add: less_mult_imp_div_less mult.commute)
    let ?p = "h mod unat u + unat u * (w + unat X * (h div unat u + unat H * j))"
    have "?p < unat u * (unat X * (unat H * unat J))" by (intro radix_bound i e)
    moreover have "e = bn_pix ?ch r0 (unat u) (unat X) (unat H) ?p" unfolding bn_pix_digits [OF i(1) e(4) i(2)] e(1) by simp
    ultimately show "e \<in> ?L" by (auto simp: mult.assoc)
  qed
  have sub: "set ?es \<subseteq> set (bn_pixels cs Y (unat X))" unfolding set set_bn_pixels using d(2) by auto
  have t': "t = fold (\<lambda>j. bn_channel fpu kap lam bn relu n_frep (unat u) (of_nat (?ch j))) [0..<unat J] ?s"
    unfolding t cs by (simp add: fold_map comp_def)
  have cm: "cmem ?s = cmem s" by (simp add: on_ssrs_def)
  from bn_phase_pixels [OF c(3,1,2) ptr fr pos(1) u fl ch inj refl d(1) sub t', unfolded cm] set show ?thesis by blast
qed

text \<open>Both passes together store every element of the core's channels once.\<close>

lemma bn_relu_store:
  assumes l: "conv_idle (lanes s)" and fl: "batch_norm \<noteq> 0 \<or> relu \<noteq> 0" and num: "num = (if cores \<noteq> 0 then cores else 1)"
    and cs: "cs = conv_channels cid num (ch div 2)" and leg: "bn_legal hw pBuffer dim_x dim_y ch kap lam num cs q"
    and t: "t = bn_relu hw fpu pBuffer dim_x dim_y ch kap lam relu batch_norm cid cores s"
  shows "\<exists>es. conv_idle (lanes t) \<and> distinct es \<and> set es = set (bn_pixels cs (unat dim_y) (unat dim_x))
    \<and> cmem t = pointwise (bn_val fpu (batch_norm \<noteq> 0) (relu \<noteq> 0) kap lam (cmem s)) (bn_at pBuffer (w32 ch * w32 dim_x) (w32 ch)) es (cmem s)"
proof -
  let ?Y = "unat dim_y" and ?X = "unat dim_x" and ?J = "bn_pairs ch num" and ?hs = "w32 ch * w32 dim_x" and ?ws = "w32 ch"
  let ?A = "bn_at pBuffer ?hs ?ws" and ?V = "bn_val fpu (batch_norm \<noteq> 0) (relu \<noteq> 0) kap lam" and ?c = "w32 dim_y mod 4" and ?E = "bn_pixels cs ?Y ?X"
  have L: "unat ch mod 2 = 0" "4 \<le> ?Y" "0 < unat num" "length cs = unat ?J" "?X * (?Y div 4) \<le> 2 ^ 16" "fits (IndexWidth hw) 4"
    "fits (IndexWidth hw) (w32 dim_x)" "fits (IndexWidth hw) (w32 dim_y div 4)" "fits (IndexWidth hw) 1" "fits (IndexWidth hw) ?J"
    and d: "bn_disjoint q pBuffer ?hs ?ws kap lam ?E" using leg by (simp_all add: bn_legal_def)
  have ws: "?ws = 2 * (?ws div 2)" using L(1) by (intro even_word) simp
  then have hs: "?hs = 2 * (?ws div 2 * w32 dim_x)" by (metis mult.assoc)
  have cs': "cs = map (\<lambda>j. unat cid + j * unat num) [0..<unat ?J]" using conv_channels_steps [OF L(3), of cid "ch div 2"] L(4) unfolding cs by simp
  have un: "unat ?c = ?Y mod 4" "unat (w32 dim_y div 4) = ?Y div 4" by (simp_all add: unat_mod unat_div)
  have Y: "4 * (?Y div 4) + ?Y mod 4 = ?Y" by simp
  define s1 where "s1 = fold (\<lambda>co. bn_channel fpu kap lam (batch_norm \<noteq> 0) (relu \<noteq> 0) (w32 dim_x * (w32 dim_y div 4) - 1) (unat (4 :: u32)) (of_nat co)) cs
      (on_ssrs (bn_streams hw 4 (w32 dim_x) (w32 dim_y div 4) ?J ?hs ?ws num (pBuffer + 4 * (cid * 2))) s)"
  obtain es1 where s1: "conv_idle (lanes s1)" "cmem s1 = pointwise (?V (cmem s)) ?A es1 (cmem s)" "distinct es1"
    "set es1 = {(co, h, w). co \<in> set cs \<and> h < 4 * (?Y div 4) \<and> w < ?X}"
    using bn_phase_run [OF l L(6,7,8,10) hs ws _ _ refl _ fl L(3) cs', where ?r0.0 = 0 and Y = ?Y and q = q and kap = kap and lam = lam, OF _ _ _ _ _ s1_def] d L(5) un Y
    by auto
  have le: "w32 dim_y \<ge> 4" using L(2) by (simp add: word_le_nat_alt)
  define s2 where "s2 = fold (\<lambda>co. bn_channel fpu kap lam (batch_norm \<noteq> 0) (relu \<noteq> 0) (w32 dim_x * 1 - 1) (unat ?c) (of_nat co)) cs
      (on_ssrs (bn_streams hw ?c (w32 dim_x) 1 ?J ?hs ?ws num (pBuffer + 4 * ((w32 dim_y - ?c) * ?hs + cid * 2))) s1)"
  have t: "t = (if ?c \<noteq> 0 then s2 else s1)"
    unfolding t bn_relu_def Let_def num [symmetric] cs [symmetric] s1_def s2_def using le by simp
  have "\<exists>es2. conv_idle (lanes t) \<and> cmem t = pointwise (?V (cmem s)) ?A es2 (cmem s1) \<and> distinct es2
      \<and> set es2 = {(co, h, w). co \<in> set cs \<and> 4 * (?Y div 4) \<le> h \<and> h < ?Y \<and> w < ?X}"
  proof (cases "?c = 0")
    case True
    then have "?Y mod 4 = 0" using un(1) by (metis unat_0)
    then have "4 * (?Y div 4) = ?Y" using Y by linarith
    then show ?thesis using True s1(1) t by (intro exI [of _ "[]"]) auto
  next
    case False
    have r0: "w32 dim_y - ?c = of_nat (4 * (?Y div 4))"
    proof -
      have "w32 dim_y = of_nat (4 * (?Y div 4) + ?Y mod 4)" unfolding Y by (simp add: w32_def)
      moreover have "?c = of_nat (?Y mod 4)" unfolding un(1) [symmetric] by simp
      ultimately show ?thesis by (simp only: of_nat_add add_diff_cancel_right')
    qed
    have fc: "fits (IndexWidth hw) ?c" using fits_le [OF L(6), of ?c] False un(1) by (simp add: less_imp_le)
    have c4: "unat ?c \<le> 4" unfolding un(1) by (simp add: less_imp_le)
    have X: "?X * 1 \<le> 2 ^ 16" using unat_lt_2p [of dim_x] by simp
    obtain es2 where s2: "conv_idle (lanes s2)" "cmem s2 = pointwise (?V (cmem s1)) ?A es2 (cmem s1)" "distinct es2"
      "set es2 = {(co, h, w). co \<in> set cs \<and> 4 * (?Y div 4) \<le> h \<and> h < ?Y \<and> w < ?X}"
      using bn_phase_run [OF s1(1) fc L(7,9,10) hs ws _ _ refl c4 fl L(3) cs', where ?r0.0 = "4 * (?Y div 4)" and Y = ?Y and q = q and kap = kap and lam = lam,
        OF _ _ _ _ s2_def] d X un Y r0 by auto
    have "load64 (cmem s1) x = load64 (cmem s) x" if "\<And>e. e \<in> set ?E \<Longrightarrow> apart x (?A e)" for x
      unfolding s1(2) using that s1(4) Y by (intro load64_pointwise_other) (auto simp: set_bn_pixels)
    then have "?V (cmem s1) e = ?V (cmem s) e" if "e \<in> set es2" for e
      using that s2(4) disjoint_opsD(3,4) [OF d, of _ e 0] by (cases e) (simp add: bn_val_def set_bn_pixels)
    then have "cmem s2 = pointwise (?V (cmem s)) ?A es2 (cmem s1)" unfolding s2(2) by (intro pointwise_cong) simp
    then show ?thesis using s2 False t by auto
  qed
  then obtain es2 where es2: "conv_idle (lanes t)" "cmem t = pointwise (?V (cmem s)) ?A (es1 @ es2) (cmem s)" "distinct es2"
    "set es2 = {(co, h, w). co \<in> set cs \<and> 4 * (?Y div 4) \<le> h \<and> h < ?Y \<and> w < ?X}" using s1(2) by auto
  have all: "set (es1 @ es2) = set ?E" using Y unfolding set_append s1(4) es2(4) set_bn_pixels by auto
  have "distinct (es1 @ es2)" using s1(3,4) es2(3,4) by auto
  then show ?thesis using es2(1, 2) all by blast
qed

text \<open>
  C27: batch normalisation and rectification. Under the conditions of \<open>bn_legal\<close>, with at least one flag set and idle data
  movers, every pair of elements of the core's channels is replaced by its image under normalisation with
  the parameters of its channels, rectification, or both, as the flags say; whether or not the number of rows is a multiple
  of four. A doubleword \<open>q\<close> apart from the elements keeps its value and the data movers are idle again.
\<close>

theorem bn_relu_correct:
  assumes l: "conv_idle (lanes s)" and fl: "batch_norm \<noteq> 0 \<or> relu \<noteq> 0" and num: "num = (if cores \<noteq> 0 then cores else 1)"
    and cs: "cs = conv_channels cid num (ch div 2)" and leg: "bn_legal hw pBuffer dim_x dim_y ch kap lam num cs q"
    and p: "co \<in> set cs" "h < unat dim_y" "w < unat dim_x" and a: "a = bn_at pBuffer (w32 ch * w32 dim_x) (w32 ch) (co, h, w)"
    and t: "t = bn_relu hw fpu pBuffer dim_x dim_y ch kap lam relu batch_norm cid cores s"
  shows "load64 (cmem t) a = bn_fun fpu (batch_norm \<noteq> 0) (relu \<noteq> 0) (load64 (cmem s) (kap + 8 * of_nat co)) (load64 (cmem s) (lam + 8 * of_nat co))
      (load64 (cmem s) a)
    \<and> load64 (cmem t) q = load64 (cmem s) q \<and> conv_idle (lanes t)"
proof -
  let ?A = "bn_at pBuffer (w32 ch * w32 dim_x) (w32 ch)" and ?V = "bn_val fpu (batch_norm \<noteq> 0) (relu \<noteq> 0) kap lam"
  have d: "bn_disjoint q pBuffer (w32 ch * w32 dim_x) (w32 ch) kap lam (bn_pixels cs (unat dim_y) (unat dim_x))" using leg by (simp add: bn_legal_def)
  obtain es where es: "conv_idle (lanes t)" "distinct es" "set es = set (bn_pixels cs (unat dim_y) (unat dim_x))"
    "cmem t = pointwise (?V (cmem s)) ?A es (cmem s)" using bn_relu_store [OF l fl num cs leg t] by blast
  have "spread ?A (set es)" unfolding es(3) spread_def using disjoint_opsD(2) [OF d] by blast
  moreover have "(co, h, w) \<in> set es" unfolding es(3) set_bn_pixels using p by simp
  ultimately have "load64 (cmem t) a = ?V (cmem s) (co, h, w) (load64 (cmem s) a)" using es(2) unfolding es(4) a by (intro load64_pointwise)
  moreover have "load64 (cmem t) q = load64 (cmem s) q"
    unfolding es(4) using es(3) disjoint_opsD(1) [OF d] by (intro load64_pointwise_other) auto
  ultimately show ?thesis using es(1) by (simp add: bn_val_def)
qed

lemma demo_bn_disjoint: "bn_disjoint 0x4000 0x3000 (w32 2 * w32 1) (w32 2) 0x1000 0x2000 (bn_pixels [0] 5 1)"
proof (rule disjoint_region [where lo = "0x3000" and hi = "0x3028" and w = "\<lambda>(co, h, w). h"])
  fix i :: pixel
  assume "i \<in> set (bn_pixels [0] 5 1)"
  then obtain h where h: "i = (0, h, 0)" "h < 5" by (auto simp: set_bn_pixels)
  have u: "unat (b + 8 * of_nat h) = unat b + 8 * h" if "unat b < 2 ^ 16" for b :: u32
    using unat_at8 [of b h] that h(2) by (simp add: at8_def)
  show "unat (bn_at 0x3000 (w32 2 * w32 1) (w32 2) i) = 0x3000 + 8 * (case i of (co, h, w) \<Rightarrow> h)"
    using u [of "0x3000"] by (simp add: h bn_at_def w32_def)
  show "0x3000 + 8 * (case i of (co, h, w) \<Rightarrow> h) + 8 \<le> (0x3028 :: nat)" using h by simp
  fix j
  show "unat ((case i of (co, h, w) \<Rightarrow> \<lambda>_. 0x1000 + 8 * of_nat co) j :: u32) + 8 \<le> 0x3000
      \<or> 0x3028 \<le> unat ((case i of (co, h, w) \<Rightarrow> \<lambda>_. 0x1000 + 8 * of_nat co) j :: u32) \<and> unat ((case i of (co, h, w) \<Rightarrow> \<lambda>_. 0x1000 + 8 * of_nat co) j :: u32) + 8 \<le> 2 ^ 32"
    by (simp add: h)
  show "unat ((case i of (co, h, w) \<Rightarrow> \<lambda>_. 0x2000 + 8 * of_nat co) j :: u32) + 8 \<le> 0x3000
      \<or> 0x3028 \<le> unat ((case i of (co, h, w) \<Rightarrow> \<lambda>_. 0x2000 + 8 * of_nat co) j :: u32) \<and> unat ((case i of (co, h, w) \<Rightarrow> \<lambda>_. 0x2000 + 8 * of_nat co) j :: u32) + 8 \<le> 2 ^ 32"
    by (simp add: h)
qed (auto simp: inj_on_def set_bn_pixels)

theorem bn_relu_correct_witness:
  "load64 (cmem (bn_relu demo_hw demo_fpu 0x3000 1 5 2 0x1000 0x2000 1 1 0 1 demo_core)) (bn_at 0x3000 (w32 2 * w32 1) (w32 2) (0, 4, 0))
      = bn_fun demo_fpu ((1 :: u32) \<noteq> 0) ((1 :: u32) \<noteq> 0) (load64 (cmem demo_core) (0x1000 + 8 * of_nat 0)) (load64 (cmem demo_core) (0x2000 + 8 * of_nat 0))
          (load64 (cmem demo_core) (bn_at 0x3000 (w32 2 * w32 1) (w32 2) (0, 4, 0)))
    \<and> load64 (cmem (bn_relu demo_hw demo_fpu 0x3000 1 5 2 0x1000 0x2000 1 1 0 1 demo_core)) 0x4000 = load64 (cmem demo_core) 0x4000
    \<and> conv_idle (lanes (bn_relu demo_hw demo_fpu 0x3000 1 5 2 0x1000 0x2000 1 1 0 1 demo_core))"
proof (rule bn_relu_correct [where cs = "[0]" and num = 1, OF _ _ _ _ _ _ _ _ refl refl])
  show "conv_idle (lanes demo_core)"
    using demo_ready by (simp add: conv_idle_def demo_core_def) (simp add: demo_ssr_def)
  show "[0] = conv_channels 0 1 (2 div 2)" by (simp add: conv_channels_def upt_conv_Cons)
  show "bn_legal demo_hw 0x3000 1 5 2 0x1000 0x2000 1 [0] 0x4000"
    using demo_bn_disjoint by (simp add: bn_legal_def) (simp add: bn_pairs_def demo_hw_def fits_def w32_def)
qed simp_all

text \<open>
  A core without a pair of channels starts its streams all the same and never uses them: its data movers stay busy.
\<close>

lemma bn_relu_blocks_idle_core:
  assumes l: "idle (lanes s 0)" and cs: "conv_channels cid (if cores \<noteq> 0 then cores else 1) (ch div 2) = []" and c: "w32 dim_y mod 4 = 0"
  shows "\<not> idle (lanes (bn_relu hw fpu pBuffer dim_x dim_y ch kap lam relu batch_norm cid cores s) 0)"
proof -
  have i: "idle (write_ssr_cfg hw r dm v l d) = idle (l d)" if "r < 24" for r dm v and l :: ssrs and d
    using that by (simp add: write_ssr_cfg_def agen_write_def)
  have "idle (snrt_ssr_loop_4d hw dm b0 b1 b2 b3 s0 s1 s2 s3 l d) = idle (l d)" "idle (snrt_ssr_repeat hw dm x l d) = idle (l d)"
    for dm b0 b1 b2 b3 s0 s1 s2 s3 x and l :: ssrs and d
    by (simp_all add: snrt_ssr_loop_4d_def snrt_ssr_repeat_def REG_BOUNDS_def REG_STRIDES_def REG_REPEAT_def i Let_def)
  then have "\<not> idle (bn_streams hw u X h J hs ws num ptr (lanes s) 0)" for u X h J hs ws num ptr
    using l unfolding bn_streams_def Let_def
    by (simp add: ssr_frame(7) snrt_ssr_read_job ssr_job_def start_job_def)
  then show ?thesis unfolding bn_relu_def Let_def cs using c by (simp add: on_ssrs_def)
qed

end
