(* ===== verification/Maxpool_Layer.thy ===== *)
theory Maxpool_Layer
  imports Tiling
begin

text \<open>
  The max pooling layer: the kernel \<open>maxpool_fp64\<close> (\<open>kernels/maxpool.c\<close>) and the double
  buffered layer around it (\<open>layers/maxpool_layer.c\<close>). The comparison of doubles is the
  parameter \<open>fgt\<close>.
\<close>

section \<open>The kernel\<close>

text \<open>\<open>if (v > max) max = v;\<close>\<close>

definition take_max :: "(u64 \<Rightarrow> u64 \<Rightarrow> bool) \<Rightarrow> u64 list \<Rightarrow> u64" where
  "take_max fgt vs = (if fgt (vs ! 0) (vs ! 1) then vs ! 0 else vs ! 1)"

text \<open>The instructions of core \<open>c\<close>; its register 0 is the variable \<open>max\<close>.\<close>

definition maxpool_fp64 :: "(u64 \<Rightarrow> u64 \<Rightarrow> bool) \<Rightarrow> nat \<Rightarrow> nat \<Rightarrow> nat \<Rightarrow> u32 \<Rightarrow> u32 \<Rightarrow> u32 \<Rightarrow> u32 \<Rightarrow> instr list option" where
  "maxpool_fp64 fgt c ifmap ofmap nci nfh nfw cnum = map_option (\<lambda>cis. concat (map (\<lambda>ci.
     Asg (R c 0) hd [M (ifmap + unat ci)]
     # concat (map (\<lambda>fh. map (\<lambda>fw. Asg (R c 0) (take_max fgt) [M (ifmap + unat ((fh * nfw + fw) * nci + ci)), R c 0])
         (u32_below nfw)) (u32_below nfh))
     @ [Asg (M (ofmap + unat ci)) hd [R c 0]]) cis)) (for_range 0 nci cnum)"

section \<open>The layer\<close>

definition mp_ifmap_size :: "layer_ctx \<Rightarrow> u32" where
  "mp_ifmap_size L = 2 * FH (lay L) * FW (lay L) * TILE_CI (lay L)"

definition mp_ofmap_size :: "layer_ctx \<Rightarrow> u32" where
  "mp_ofmap_size L = 2 * TILE_CI (lay L)"

definition mp_ofmap :: "layer_ctx \<Rightarrow> nat" where
  "mp_ofmap L = tcdm L + unat (mp_ifmap_size L)"

definition mp_load :: "layer_ctx \<Rightarrow> u32 \<Rightarrow> u32 \<Rightarrow> u32 \<Rightarrow> u32 \<Rightarrow> instr list" where
  "mp_load L write_buf oh ow ci = (let l = lay L in concat (map (\<lambda>fh.
     if TILE_CI l = CI l
     then dma_1d (tcdm L + unat (write_buf * (mp_ifmap_size L div 2) + fh * FW l * TILE_CI l))
            (l_ifmap l + unat (((oh * FH l + fh) * IW l + ow * FW l) * CI l))
            (8 * TILE_CI l * FW l)
     else dma_2d (tcdm L + unat (write_buf * (mp_ifmap_size L div 2) + fh * FW l * TILE_CI l))
            (l_ifmap l + unat (((oh * FH l + fh) * IW l + ow * FW l) * CI l + ci))
            (8 * TILE_CI l) (8 * TILE_CI l) (8 * CI l) (FW l)) (u32_below (FH l))))"

definition mp_store :: "layer_ctx \<Rightarrow> u32 \<Rightarrow> u32 \<times> u32 \<times> u32 \<Rightarrow> instr list" where
  "mp_store L read_buf prev = (let l = lay L; (prev_oh, prev_ow, prev_ci) = prev in
     dma_2d (l_ofmap l + unat ((prev_oh * OW l + prev_ow) * CI l + prev_ci))
       (mp_ofmap L + unat (lnot read_buf * (mp_ofmap_size L div 2)))
       (8 * TILE_CI l) (8 * CI l) (8 * TILE_CI l) 1)"

text \<open>The iterations of the two loops: tiles of this cluster, input channels of a tile.\<close>

definition mp_tiles :: "layer_ctx \<Rightarrow> (u32 \<times> u32) list option" where
  "mp_tiles L = layer_iters L (OH (lay L) * OW (lay L))"

text \<open>The data mover core; the last argument holds \<open>prev_oh\<close>, \<open>prev_ow\<close> and \<open>prev_ci\<close>.\<close>

fun mp_dm :: "layer_ctx \<Rightarrow> (u32 \<times> u32) list \<Rightarrow> u32 \<Rightarrow> u32 \<Rightarrow> u32 \<times> u32 \<times> u32 \<Rightarrow> ev list" where
  "mp_dm L [] read_buf write_buf prev = Bar # map Act (mp_store L read_buf prev)"
| "mp_dm L ((tile, ci) # ts) read_buf write_buf prev = (
     let oh = tile div OW (lay L); ow = tile mod OW (lay L) in
     map Act (mp_load L write_buf oh ow ci)
     @ Bar # map Act (if tile = cluster_id L \<and> ci = 0 then [] else mp_store L read_buf prev)
     @ mp_dm L ts (lnot read_buf) (lnot write_buf) (oh, ow, ci))"

text \<open>
  The function ends with a \<open>snrt_dma_wait_all\<close> outside of the branch of the data mover core, so
  every core runs it. Its \<open>dmstati\<close> is an illegal instruction on a core that was built without
  the extension \<open>Xdma\<close>; a core that has the extension and no transfer under way falls through.
\<close>

datatype core_end = Returns | Illegal_instruction

definition wait_all_end :: "bool \<Rightarrow> core_end" where
  "wait_all_end xdma = (if xdma then Returns else Illegal_instruction)"

text \<open>A compute core: its events and how its call ends; \<open>xdma\<close> tells whether it has the extension.\<close>

fun mp_core :: "(u64 \<Rightarrow> u64 \<Rightarrow> bool) \<Rightarrow> layer_ctx \<Rightarrow> bool \<Rightarrow> u32 \<Rightarrow> (u32 \<times> u32) list \<Rightarrow> u32 \<Rightarrow> u32 \<Rightarrow> (ev list \<times> core_end) option" where
  "mp_core fgt L xdma compute_id [] read_buf write_buf = Some ([Bar], wait_all_end xdma)"
| "mp_core fgt L xdma compute_id (t # ts) read_buf write_buf = do {
     is \<leftarrow> maxpool_fp64 fgt (unat compute_id)
       (tcdm L + unat (read_buf * mp_ifmap_size L div 2 + compute_id))
       (mp_ofmap L + unat (write_buf * mp_ofmap_size L div 2 + compute_id))
       (TILE_CI (lay L)) (FH (lay L)) (FW (lay L)) (compute_num L);
     (es, e) \<leftarrow> mp_core fgt L xdma compute_id ts (lnot read_buf) (lnot write_buf);
     Some (Bar # map Act is @ es, e) }"

text \<open>
  All cores of the cluster, the data mover core first, which has the extension; \<open>junk\<close> is what the
  uninitialised \<open>prev_\<close> variables hold.
\<close>

definition maxpool_layer :: "(u64 \<Rightarrow> u64 \<Rightarrow> bool) \<Rightarrow> layer_ctx \<Rightarrow> bool \<Rightarrow> u32 \<times> u32 \<times> u32 \<Rightarrow> (ev list \<times> core_end) list option" where
  "maxpool_layer fgt L xdma junk = do {
     ts \<leftarrow> mp_tiles L;
     cs \<leftarrow> those (map (\<lambda>c. mp_core fgt L xdma c ts 0 0) (u32_below (compute_num L)));
     Some ((mp_dm L ts 0 0 junk, wait_all_end True) # cs) }"

section \<open>Admissible layers\<close>

text \<open>
  The cluster has a tile, the channels split evenly into tiles and a tile over the cores, the
  pooling windows are inside the input, the sizes are below \<open>2 ^ 32\<close>, and the cluster memory,
  the input and the output do not overlap.
\<close>

definition mp_ok :: "layer_ctx \<Rightarrow> bool" where
  "mp_ok L \<longleftrightarrow> grid_ok L \<and> nid L < nOH L * nOW L \<and> nOH L * nOW L + nN L \<le> 2 ^ 32 \<and> 0 < nFH L \<and> 0 < nFW L
     \<and> nOH L * nFH L \<le> nIH L \<and> nOW L * nFW L \<le> nIW L
     \<and> nIH L * nIW L * nCI L < 2 ^ 32 \<and> nOH L * nOW L * nCI L < 2 ^ 32
     \<and> 2 * nFH L * nFW L * nT L < 2 ^ 32 \<and> 8 * nT L * nFW L < 2 ^ 32
     \<and> apart_from (tcdm L) (2 * nFH L * nFW L * nT L + 2 * nT L) (l_ifmap (lay L)) (nIH L * nIW L * nCI L)
     \<and> apart_from (tcdm L) (2 * nFH L * nFW L * nT L + 2 * nT L) (l_ofmap (lay L)) (nOH L * nOW L * nCI L)
     \<and> apart_from (l_ifmap (lay L)) (nIH L * nIW L * nCI L) (l_ofmap (lay L)) (nOH L * nOW L * nCI L)"

definition mp_n :: "layer_ctx \<Rightarrow> nat" where
  "mp_n L = tile_count L (nOH L * nOW L)"

definition mp_ib :: "layer_ctx \<Rightarrow> nat \<Rightarrow> nat" where
  "mp_ib L k = tcdm L + (k mod 2) * (nFH L * nFW L * nT L)"

definition mp_ob :: "layer_ctx \<Rightarrow> nat \<Rightarrow> nat" where
  "mp_ob L k = tcdm L + 2 * nFH L * nFW L * nT L + (k mod 2) * nT L"

definition mp_in :: "layer_ctx \<Rightarrow> nat \<Rightarrow> nat \<Rightarrow> nat \<Rightarrow> nat \<Rightarrow> nat" where
  "mp_in L pix fh fw ch = l_ifmap (lay L) + (((pix div nOW L) * nFH L + fh) * nIW L + (pix mod nOW L) * nFW L + fw) * nCI L + ch"

text \<open>The three parts of the layer on naturals.\<close>

definition mp_ld :: "layer_ctx \<Rightarrow> nat \<Rightarrow> instr list" where
  "mp_ld L k = concat (map (\<lambda>fh. concat (map (\<lambda>fw.
     copy_row (mp_ib L k + (fh * nFW L + fw) * nT L) (mp_in L (tile_row L k) fh fw (tile_chan L k)) (nT L)) [0..<nFW L])) [0..<nFH L])"

definition mp_pool :: "(u64 \<Rightarrow> u64 \<Rightarrow> bool) \<Rightarrow> layer_ctx \<Rightarrow> nat \<Rightarrow> nat \<Rightarrow> nat \<Rightarrow> instr list" where
  "mp_pool fgt L k c ch =
     Asg (R c 0) hd [M (mp_ib L k + ch)]
     # concat (map (\<lambda>fh. map (\<lambda>fw. Asg (R c 0) (take_max fgt) [M (mp_ib L k + (fh * nFW L + fw) * nT L + ch), R c 0]) [0..<nFW L]) [0..<nFH L])
     @ [Asg (M (mp_ob L k + ch)) hd [R c 0]]"

definition mp_cp :: "(u64 \<Rightarrow> u64 \<Rightarrow> bool) \<Rightarrow> layer_ctx \<Rightarrow> nat \<Rightarrow> nat \<Rightarrow> instr list" where
  "mp_cp fgt L k c = concat (map (\<lambda>m. mp_pool fgt L k c (m * nP L + c)) [0..<nT L div nP L])"

definition mp_st :: "layer_ctx \<Rightarrow> nat \<Rightarrow> instr list" where
  "mp_st L k = copy_row (l_ofmap (lay L) + tile_row L k * nCI L + tile_chan L k) (mp_ob L k) (nT L)"

section \<open>The words are the naturals\<close>

lemma mp_okD:
  assumes "mp_ok L"
  shows "nid L < nN L" "nid L < nOH L * nOW L" "nOH L * nOW L + nN L \<le> 2 ^ 32" "0 < nP L" "nP L dvd nT L" "0 < nT L"
    "nT L dvd nCI L" "0 < nCI L" "0 < nFH L" "0 < nFW L" "nOH L * nFH L \<le> nIH L" "nOW L * nFW L \<le> nIW L"
    "nIH L * nIW L * nCI L < 2 ^ 32" "nOH L * nOW L * nCI L < 2 ^ 32" "2 * nFH L * nFW L * nT L < 2 ^ 32"
    "8 * nT L * nFW L < 2 ^ 32" "8 * nCI L < 2 ^ 32"
  using assms by (simp_all only: mp_ok_def grid_ok_def)

lemma mp_grid: "mp_ok L \<Longrightarrow> grid_ok L"
  by (simp add: mp_ok_def)

lemma mp_sizes:
  assumes "mp_ok L"
  shows "nT L \<le> nCI L" "nP L \<le> nT L" "0 < tile_q L" "tile_q L * nT L = nCI L" "0 < nN L" "0 < nOW L"
    "nT L div nP L * nP L = nT L"
  using mp_okD(2) [OF assms] grid_okD [OF mp_grid [OF assms]] by (auto intro!: Nat.gr0I)

lemma mp_row_bound: "mp_ok L \<Longrightarrow> k < mp_n L \<Longrightarrow> tile_row L k < nOH L * nOW L"
  using tile_row_bound [OF mp_grid] by (simp add: mp_n_def)

lemma mp_in_bound:
  assumes "mp_ok L" "pix < nOH L * nOW L" "fh < nFH L" "fw < nFW L" "ch < nCI L"
  shows "((pix div nOW L * nFH L + fh) * nIW L + pix mod nOW L * nFW L + fw) * nCI L + ch < nIH L * nIW L * nCI L"
proof -
  note ok = mp_okD [OF assms(1)] mp_sizes [OF assms(1)]
  have "pix div nOW L < nOH L" using assms(2) by (simp add: less_mult_imp_div_less)
  then have r: "pix div nOW L * nFH L + fh < nIH L" using radix_less [OF _ assms(3)] ok(11) by fastforce
  have "pix mod nOW L * nFW L + fw < nIW L" using radix_less [OF _ assms(4), of "pix mod nOW L" "nOW L"] ok by fastforce
  then have "(pix div nOW L * nFH L + fh) * nIW L + (pix mod nOW L * nFW L + fw) < nIH L * nIW L" by (rule radix_less [OF r])
  then show ?thesis using radix_less [OF _ assms(5)] by (simp add: add.assoc)
qed

lemma mp_size_words:
  assumes "mp_ok L"
  shows "unat (mp_ifmap_size L) = 2 * nFH L * nFW L * nT L" "mp_ifmap_size L div 2 = of_nat (nFH L * nFW L * nT L)"
    "unat (mp_ofmap_size L) = 2 * nT L" "mp_ofmap_size L div 2 = TILE_CI (lay L)"
proof -
  note ok = mp_okD [OF assms] mp_sizes [OF assms]
  show i: "unat (mp_ifmap_size L) = 2 * nFH L * nFW L * nT L"
    using ok by (intro unat_eqI) (simp_all add: mp_ifmap_size_def)
  have "unat (mp_ifmap_size L div 2) = nFH L * nFW L * nT L" by (simp add: unat_div i)
  then show "mp_ifmap_size L div 2 = of_nat (nFH L * nFW L * nT L)" by (metis u32_of_unat)
  show o: "unat (mp_ofmap_size L) = 2 * nT L"
    using ok by (intro unat_eqI) (simp_all add: mp_ofmap_size_def)
  then have "unat (mp_ofmap_size L div 2) = nT L" by (simp add: unat_div)
  then show "mp_ofmap_size L div 2 = TILE_CI (lay L)" by (simp add: word_unat_eq_iff)
qed

lemma bounded_rows: "fh < nFH L \<Longrightarrow> fw < nFW L \<Longrightarrow> j < nT L \<Longrightarrow> (fh * nFW L + fw) * nT L + j < nFH L * nFW L * nT L"
  by (intro radix_less)

lemma mp_load_nat:
  assumes ok: "mp_ok L" and k: "k < mp_n L"
  shows "mp_load L (buf k) (of_nat (tile_row L k div nOW L)) (of_nat (tile_row L k mod nOW L)) (of_nat (tile_chan L k)) = mp_ld L k"
proof -
  note O = mp_okD [OF ok] mp_sizes [OF ok]
  define oh ow ch where w: "oh = tile_row L k div nOW L" "ow = tile_row L k mod nOW L" "ch = tile_chan L k"
  have row: "(if TILE_CI (lay L) = CI (lay L)
     then dma_1d (tcdm L + unat (buf k * (mp_ifmap_size L div 2) + of_nat fh * FW (lay L) * TILE_CI (lay L)))
            (l_ifmap (lay L) + unat (((of_nat oh * FH (lay L) + of_nat fh) * IW (lay L) + of_nat ow * FW (lay L)) * CI (lay L)))
            (8 * TILE_CI (lay L) * FW (lay L))
     else dma_2d (tcdm L + unat (buf k * (mp_ifmap_size L div 2) + of_nat fh * FW (lay L) * TILE_CI (lay L)))
            (l_ifmap (lay L) + unat (((of_nat oh * FH (lay L) + of_nat fh) * IW (lay L) + of_nat ow * FW (lay L)) * CI (lay L) + of_nat ch))
            (8 * TILE_CI (lay L)) (8 * TILE_CI (lay L)) (8 * CI (lay L)) (FW (lay L)))
     = concat (map (\<lambda>fw. copy_row (mp_ib L k + (fh * nFW L + fw) * nT L) (mp_in L (tile_row L k) fh fw ch) (nT L)) [0..<nFW L])"
    (is "?lhs = ?rhs") if fh: "fh < nFH L" for fh
  proof -
    have d: "unat (buf k * (mp_ifmap_size L div 2) + of_nat fh * FW (lay L) * TILE_CI (lay L)) = (k mod 2) * (nFH L * nFW L * nT L) + fh * nFW L * nT L"
    proof (rule unat_eqI)
      have "(k mod 2) * (nFH L * nFW L * nT L) + fh * nFW L * nT L < 2 * (nFH L * nFW L * nT L)"
        using bounded_rows [OF fh O(10) O(6)] by (intro radix_less) auto
      then show "(k mod 2) * (nFH L * nFW L * nT L) + fh * nFW L * nT L < 2 ^ 32" using O(15) by simp
    qed (simp add: buf_def mp_size_words [OF ok])
    have "((oh * nFH L + fh) * nIW L + ow * nFW L) * nCI L + ch < nIH L * nIW L * nCI L"
      using mp_in_bound [OF ok mp_row_bound [OF ok k] fh O(10), of ch] tile_chan_bound [OF mp_grid [OF ok] O(6), of k] by (simp add: w)
    then have s: "unat (((of_nat oh * FH (lay L) + of_nat fh) * IW (lay L) + of_nat ow * FW (lay L)) * CI (lay L) + of_nat ch)
        = ((oh * nFH L + fh) * nIW L + ow * nFW L) * nCI L + ch"
      using O(13) by (intro unat_eqI) simp_all
    have sz: "unat (8 * TILE_CI (lay L) * FW (lay L)) = 8 * (nFW L * nT L)" "unat (8 * TILE_CI (lay L)) = 8 * nT L" "unat (8 * CI (lay L)) = 8 * nCI L"
      using O by (auto intro!: unat_eqI simp: algebra_simps)
    have rows: "?rhs = concat (map (\<lambda>i. copy_row (mp_ib L k + fh * nFW L * nT L + i * nT L)
        (l_ifmap (lay L) + (((oh * nFH L + fh) * nIW L + ow * nFW L) * nCI L + ch) + i * nCI L) (nT L)) [0..<nFW L])"
      by (simp add: mp_in_def w algebra_simps)
    show ?thesis
    proof (cases "TILE_CI (lay L) = CI (lay L)")
      case True
      then have "ch = 0" using O by (simp add: w tile_chan_def tile_q_def)
      then have s0: "unat (((of_nat oh * FH (lay L) + of_nat fh) * IW (lay L) + of_nat ow * FW (lay L)) * CI (lay L))
          = ((oh * nFH L + fh) * nIW L + ow * nFW L) * nCI L" using s by simp
      have c: "nCI L = nT L" using True by simp
      show ?thesis unfolding rows unfolding if_P [OF True] d s0 dma_1d_row [OF sz(1)] \<open>ch = 0\<close> add_0_right
        unfolding c copy_rows_contiguous by (simp add: mp_ib_def add.assoc)
    next
      case False
      then show ?thesis unfolding rows by (simp add: d s dma_2d_rows [OF sz(2, 2, 3)] mp_ib_def add.assoc)
    qed
  qed
  show ?thesis unfolding mp_load_def mp_ld_def Let_def u32_below_def map_map comp_def w [symmetric]
    by (intro arg_cong [of _ _ concat] map_cong refl row) simp
qed

lemma mp_store_nat:
  assumes ok: "mp_ok L" and k: "k < mp_n L"
  shows "mp_store L (buf (Suc k)) (of_nat (tile_row L k div nOW L), of_nat (tile_row L k mod nOW L), of_nat (tile_chan L k)) = mp_st L k"
proof -
  note O = mp_okD [OF ok] mp_sizes [OF ok]
  have b: "tile_row L k * nCI L + tile_chan L k < nOH L * nOW L * nCI L"
    using radix_less [OF mp_row_bound [OF ok k]] tile_chan_bound [OF mp_grid [OF ok] O(6), of k] by simp
  have pw: "(of_nat (tile_row L k div nOW L) * OW (lay L) + of_nat (tile_row L k mod nOW L) :: u32) = of_nat (tile_row L k)"
  proof -
    have "(of_nat (tile_row L k div nOW L) * OW (lay L) + of_nat (tile_row L k mod nOW L) :: u32)
      = of_nat (tile_row L k div nOW L * nOW L + tile_row L k mod nOW L)"
      by (simp only: of_nat_add of_nat_mult u32_of_unat)
    then show ?thesis by (simp only: div_mult_mod_eq)
  qed
  have d: "unat ((of_nat (tile_row L k) * CI (lay L) + of_nat (tile_chan L k)) :: u32) = tile_row L k * nCI L + tile_chan L k"
    using b O(14) by (intro unat_eqI) simp_all
  have "lnot (buf (Suc k)) = buf k" by simp
  then have s: "unat (lnot (buf (Suc k)) * (mp_ofmap_size L div 2)) = (k mod 2) * nT L"
    using O by (intro unat_eqI) (auto simp: mp_size_words [OF ok] buf_def mod_2_eq_odd)
  have "dma_2d (l_ofmap (lay L) + (tile_row L k * nCI L + tile_chan L k)) (mp_ofmap L + (k mod 2) * nT L) (8 * TILE_CI (lay L))
     (8 * CI (lay L)) (8 * TILE_CI (lay L)) 1
     = concat (map (\<lambda>i. copy_row (l_ofmap (lay L) + (tile_row L k * nCI L + tile_chan L k) + i * nCI L) (mp_ofmap L + (k mod 2) * nT L + i * nT L) (nT L)) [0..<1])"
    using O by (intro dma_2d_rows unat_eqI) auto
  then show ?thesis
    by (simp only: mp_store_def Let_def prod.case pw d s) (simp add: mp_st_def mp_ob_def mp_ofmap_def mp_size_words [OF ok] add.assoc)
qed

section \<open>The layer follows the schedule\<close>

lemma mp_tiles_nat:
  assumes ok: "mp_ok L"
  shows "mp_tiles L = Some (map (tile_iter L) [0..<mp_n L])"
proof -
  have "unat (OH (lay L) * OW (lay L)) = nOH L * nOW L" using mp_okD(1, 3) [OF ok] by (intro unat_eqI) auto
  then show ?thesis using layer_iters_nat [OF mp_grid [OF ok], of "OH (lay L) * OW (lay L)"] mp_okD(3) [OF ok]
    by (simp add: mp_tiles_def mp_n_def)
qed

lemma mp_iter_words:
  assumes "mp_ok L" "k < mp_n L"
  shows "of_nat (tile_row L k) div OW (lay L) = of_nat (tile_row L k div nOW L)" "of_nat (tile_row L k) mod OW (lay L) = of_nat (tile_row L k mod nOW L)"
    "tile_iter L k = (cluster_id L, 0) \<longleftrightarrow> k = 0"
proof -
  have "nOH L * nOW L \<le> 2 ^ 32" using mp_okD(3) [OF assms(1)] by simp
  note w = tile_iter_words [OF mp_grid [OF assms(1)] assms(2) [unfolded mp_n_def] this]
  show "tile_iter L k = (cluster_id L, 0) \<longleftrightarrow> k = 0" by (rule w(3))
  have "unat (of_nat (tile_row L k) div OW (lay L)) = tile_row L k div nOW L" "unat (of_nat (tile_row L k) mod OW (lay L)) = tile_row L k mod nOW L"
    using w(1) by (simp_all add: tile_iter_def unat_div unat_mod)
  then show "of_nat (tile_row L k) div OW (lay L) = of_nat (tile_row L k div nOW L)" "of_nat (tile_row L k) mod OW (lay L) = of_nat (tile_row L k mod nOW L)"
    by (metis u32_of_unat)+
qed

definition mp_prev :: "layer_ctx \<Rightarrow> nat \<Rightarrow> u32 \<times> u32 \<times> u32" where
  "mp_prev L k = (of_nat (tile_row L k div nOW L), of_nat (tile_row L k mod nOW L), of_nat (tile_chan L k))"

lemma mp_dm_from:
  assumes ok: "mp_ok L"
  shows "j \<le> mp_n L \<Longrightarrow> 0 < mp_n L \<Longrightarrow> (0 < j \<Longrightarrow> prev = mp_prev L (j - 1)) \<Longrightarrow>
    mp_dm L (map (tile_iter L) [j..<mp_n L]) (buf j) (buf j) prev
      = concat (map (\<lambda>k. map Act (mp_ld L k) @ Bar # map Act (if k = 0 then [] else mp_st L (k - 1))) [j..<mp_n L])
        @ Bar # map Act (mp_st L (mp_n L - 1))"
proof (induction "mp_n L - j" arbitrary: j prev)
  case 0
  then have "j = Suc (mp_n L - 1)" by simp
  then show ?case using 0 mp_store_nat [OF ok, of "mp_n L - 1"] by (simp add: mp_prev_def)
next
  case (Suc d)
  then have j: "j < mp_n L" and up: "[j..<mp_n L] = j # [Suc j..<mp_n L]" by (auto simp: upt_conv_Cons)
  have st: "map Act (if of_nat (tile_row L j) = cluster_id L \<and> of_nat (tile_chan L j) = (0 :: u32) then [] else mp_store L (buf j) prev)
      = map Act (if j = 0 then [] else mp_st L (j - 1))"
    using mp_iter_words(3) [OF ok j] mp_store_nat [OF ok, of "j - 1"] Suc.prems(3) j by (cases j) (auto simp: tile_iter_def mp_prev_def)
  have IH: "mp_dm L (map (tile_iter L) [Suc j..<mp_n L]) (buf (Suc j)) (buf (Suc j)) (mp_prev L j)
      = concat (map (\<lambda>k. map Act (mp_ld L k) @ Bar # map Act (if k = 0 then [] else mp_st L (k - 1))) [Suc j..<mp_n L])
        @ Bar # map Act (mp_st L (mp_n L - 1))"
    using Suc by (intro Suc.hyps(1)) auto
  have "mp_dm L (map (tile_iter L) [j..<mp_n L]) (buf j) (buf j) prev
    = map Act (mp_ld L j) @ Bar # map Act (if j = 0 then [] else mp_st L (j - 1))
      @ mp_dm L (map (tile_iter L) [Suc j..<mp_n L]) (buf (Suc j)) (buf (Suc j)) (mp_prev L j)"
    unfolding up list.map(2) tile_iter_def [of L j] mp_dm.simps Let_def mp_iter_words(1, 2) [OF ok j] st mp_load_nat [OF ok j]
    by (simp add: mp_prev_def)
  then show ?case unfolding IH by (simp add: up)
qed

lemma mp_kernel_nat:
  assumes ok: "mp_ok L" and c: "c < nP L"
  shows "maxpool_fp64 fgt (unat (of_nat c :: u32))
       (tcdm L + unat (buf k * mp_ifmap_size L div 2 + of_nat c)) (mp_ofmap L + unat (buf k * mp_ofmap_size L div 2 + of_nat c))
       (TILE_CI (lay L)) (FH (lay L)) (FW (lay L)) (compute_num L) = Some (mp_cp fgt L k c)"
proof -
  note O = mp_okD [OF ok] mp_sizes [OF ok]
  have pos: "0 < compute_num L" using O by (simp add: unat_gt_0 word_gt_0)
  have c32: "unat (of_nat c :: u32) = c" using c by (intro unat_of_nat_small) (meson less_trans unat_lt_2p)
  have i: "tcdm L + unat (buf k * mp_ifmap_size L div 2 + of_nat c) = mp_ib L k + c"
  proof -
    have "1 * nT L \<le> nFH L * nFW L * nT L" using O by (intro mult_le_mono1) simp
    then have "c < nFH L * nFW L * nT L" using c O(19) by linarith
    then have "k mod 2 * (nFH L * nFW L * nT L) + c < 2 * (nFH L * nFW L * nT L)" by (intro radix_less) auto
    then have "unat (of_nat (k mod 2 * (nFH L * nFW L * nT L)) + of_nat c :: u32) = k mod 2 * (nFH L * nFW L * nT L) + c"
      using O(15) by (intro unat_eqI) simp_all
    then show ?thesis using buf_half [of "mp_ifmap_size L" "nFH L * nFW L * nT L"] by (simp add: mp_size_words [OF ok] mp_ib_def)
  qed
  have o: "mp_ofmap L + unat (buf k * mp_ofmap_size L div 2 + of_nat c) = mp_ob L k + c"
  proof -
    have "k mod 2 * nT L + c < 2 * nT L" using c O by (intro radix_less) auto
    then have "unat (of_nat (k mod 2 * nT L) + of_nat c :: u32) = k mod 2 * nT L + c"
      using O by (intro unat_eqI) simp_all
    then show ?thesis using buf_half [of "mp_ofmap_size L" "nT L"] by (simp add: mp_size_words [OF ok] mp_ob_def mp_ofmap_def)
  qed
  have cs: "for_range 0 (TILE_CI (lay L)) (compute_num L) = Some (map (\<lambda>i. of_nat i * compute_num L) [0..<nT L div nP L])"
    using for_range_trips [OF pos, of "TILE_CI (lay L)" 0] O by (simp add: trips_dvd)
  have ch: "unat (of_nat m * compute_num L) = m * nP L" if "m < nT L div nP L" for m
  proof -
    have "m * nP L < nT L" using radix_less [OF that O(4)] O by simp
    then show ?thesis using O by (intro unat_eqI) simp_all
  qed
  have el: "unat ((of_nat fh * FW (lay L) + of_nat fw) * TILE_CI (lay L) + of_nat m * compute_num L) = (fh * nFW L + fw) * nT L + m * nP L"
    if "m < nT L div nP L" "fh < nFH L" "fw < nFW L" for m fh fw
  proof (rule unat_eqI)
    have "m * nP L < nT L" using radix_less [OF that(1) O(4)] O by simp
    then show "(fh * nFW L + fw) * nT L + m * nP L < 2 ^ 32" using bounded_rows [OF that(2, 3), of "m * nP L"] O(15) by simp
  qed simp
  show ?thesis
    unfolding maxpool_fp64_def cs i o c32 option.map(2) option.inject mp_cp_def mp_pool_def u32_below_def map_map comp_def
    by (intro arg_cong [of _ _ concat] map_cong refl arg_cong2 [of _ _ _ _ Cons] arg_cong2 [of _ _ _ _ append])
      (simp_all add: ch el)
qed

lemma mp_core_from:
  assumes ok: "mp_ok L" and c: "c < nP L"
  shows "j \<le> mp_n L \<Longrightarrow> mp_core fgt L xdma (of_nat c) (map (tile_iter L) [j..<mp_n L]) (buf j) (buf j)
    = Some (concat (map (\<lambda>k. Bar # map Act (mp_cp fgt L k c)) [j..<mp_n L]) @ [Bar], wait_all_end xdma)"
proof (induction "mp_n L - j" arbitrary: j)
  case (Suc d)
  then have up: "[j..<mp_n L] = j # [Suc j..<mp_n L]" by (auto simp: upt_conv_Cons)
  have "mp_core fgt L xdma (of_nat c) (map (tile_iter L) [Suc j..<mp_n L]) (buf (Suc j)) (buf (Suc j))
    = Some (concat (map (\<lambda>k. Bar # map Act (mp_cp fgt L k c)) [Suc j..<mp_n L]) @ [Bar], wait_all_end xdma)"
    using Suc by (intro Suc.hyps(1)) auto
  then show ?case by (simp add: up mp_kernel_nat [OF ok c] del: unat_of_nat)
qed simp

lemma maxpool_layer_nat:
  assumes ok: "mp_ok L"
  shows "maxpool_layer fgt L xdma junk = Some ((dm_events (mp_n L) [] (mp_ld L) (mp_st L), Returns)
    # map (\<lambda>c. (core_events (mp_n L) (\<lambda>k. mp_cp fgt L k c), wait_all_end xdma)) [0..<nP L])"
proof -
  have n: "0 < mp_n L"
    using tile_count_pos [OF mp_grid [OF ok] mp_okD(2) [OF ok]] by (simp add: mp_n_def)
  have "those (map (\<lambda>c. mp_core fgt L xdma c (map (tile_iter L) [0..<mp_n L]) 0 0) (u32_below (compute_num L)))
      = Some (map (\<lambda>c. (core_events (mp_n L) (\<lambda>k. mp_cp fgt L k c), wait_all_end xdma)) [0..<nP L])"
    unfolding u32_below_def map_map comp_def
    using mp_core_from [OF ok, of _ 0 fgt xdma] by (intro those_Some) (simp add: core_events_def)
  moreover have "mp_dm L (map (tile_iter L) [0..<mp_n L]) 0 0 junk = dm_events (mp_n L) [] (mp_ld L) (mp_st L)"
    using mp_dm_from [OF ok, of 0 junk] n by (simp add: dm_events_def dm_block_def)
  ultimately show ?thesis by (simp add: maxpool_layer_def mp_tiles_nat [OF ok] wait_all_end_def)
qed

section \<open>The contract\<close>

definition mp_reg :: "layer_ctx \<Rightarrow> loc \<Rightarrow> region" where
  "mp_reg L x = (case x of R c r \<Rightarrow> RRg c | M a \<Rightarrow>
     let S = nFH L * nFW L * nT L in
     if tcdm L \<le> a \<and> a < tcdm L + 2 * S then RIb ((a - tcdm L) div S)
     else if tcdm L + 2 * S \<le> a \<and> a < tcdm L + 2 * S + 2 * nT L
       then ROb ((a - (tcdm L + 2 * S)) div nT L) ((a - (tcdm L + 2 * S)) mod nT L mod nP L)
     else if l_ifmap (lay L) \<le> a \<and> a < l_ifmap (lay L) + nIH L * nIW L * nCI L then RIn
     else if l_ofmap (lay L) \<le> a \<and> a < l_ofmap (lay L) + nOH L * nOW L * nCI L then ROut else ROther)"

lemma mp_reg_ib: "i < nFH L * nFW L * nT L \<Longrightarrow> mp_reg L (M (mp_ib L k + i)) = RIb (k mod 2)"
  using radix_less [of "k mod 2" 2 i "nFH L * nFW L * nT L"] by (simp add: mp_reg_def mp_ib_def Let_def radix_digits)

lemma mp_reg_ob:
  assumes "j < nT L" shows "mp_reg L (M (mp_ob L k + j)) = ROb (k mod 2) (j mod nP L)"
  using radix_less [of "k mod 2" 2 j "nT L"] assms by (simp add: mp_reg_def mp_ob_def mult.assoc Let_def)

lemma mp_reg_in: "mp_ok L \<Longrightarrow> o' < nIH L * nIW L * nCI L \<Longrightarrow> mp_reg L (M (l_ifmap (lay L) + o')) = RIn"
  by (auto simp: mp_reg_def mp_ok_def apart_from_def mult.assoc Let_def)

lemma mp_reg_out: "mp_ok L \<Longrightarrow> o' < nOH L * nOW L * nCI L \<Longrightarrow> mp_reg L (M (l_ofmap (lay L) + o')) = ROut"
  by (auto simp: mp_reg_def mp_ok_def apart_from_def mult.assoc Let_def)

lemma mp_reg_R [simp]: "mp_reg L (R c r) = RRg c"
  by (simp add: mp_reg_def)

lemma mp_ld_targets:
  "x \<in> targets (mp_ld L k) \<longleftrightarrow> (\<exists>fh<nFH L. \<exists>fw<nFW L. \<exists>j<nT L. x = M (mp_ib L k + ((fh * nFW L + fw) * nT L + j)))"
  by (auto simp: mp_ld_def copy_row_targets add.assoc Bex_def)

lemma mp_cp_targets:
  "x \<in> targets (mp_cp fgt L k c) \<longleftrightarrow> (\<exists>m<nT L div nP L. x = R c 0 \<or> x = M (mp_ob L k + (m * nP L + c)))"
  by (auto simp: mp_cp_def mp_pool_def)

lemma mp_st_targets:
  "x \<in> targets (mp_st L k) \<longleftrightarrow> (\<exists>j<nT L. x = M (l_ofmap (lay L) + (tile_row L k * nCI L + (tile_chan L k + j))))"
  by (simp add: mp_st_def copy_row_targets add.assoc)

lemma mp_ld_defined:
  assumes "mp_ok L" "k < mp_n L"
  shows "defined {x. mp_reg L x = RIn} (mp_ld L k)"
proof -
  have "mp_reg L (M (mp_in L (tile_row L k) fh fw (tile_chan L k) + i)) = RIn" if "fh < nFH L" "fw < nFW L" "i < nT L" for fh fw i
    using mp_reg_in [OF assms(1) mp_in_bound [OF assms(1) mp_row_bound [OF assms] that(1, 2) tile_chan_bound [OF mp_grid [OF assms(1)] that(3), of k]]]
    by (simp add: mp_in_def add.assoc)
  then show ?thesis unfolding mp_ld_def by (auto intro!: defined_concat copy_row_defined)
qed

lemma mp_pool_defined:
  assumes "ch < nT L" "0 < nFH L" "0 < nFW L" "targets (mp_ld L k) \<subseteq> X"
  shows "defined X (mp_pool fgt L k c ch)"
proof -
  have x: "M (mp_ib L k + (fh * nFW L + fw) * nT L + ch) \<in> X" if "fh < nFH L" "fw < nFW L" for fh fw
  proof -
    have "M (mp_ib L k + (fh * nFW L + fw) * nT L + ch) \<in> targets (mp_ld L k)"
      unfolding mp_ld_targets using that assms(1) by (auto simp: add.assoc)
    then show ?thesis using assms(4) by blast
  qed
  have body: "defined Y (map (\<lambda>fw. Asg (R c 0) (take_max fgt) [M (mp_ib L k + (fh * nFW L + fw) * nT L + ch), R c 0]) ws)"
    if "fh < nFH L" "set ws \<subseteq> {..<nFW L}" "X \<subseteq> Y" "R c 0 \<in> Y" for fh ws Y
    using that x by (induction ws) (auto simp: insert_absorb)
  have "defined (insert (R c 0) X) (concat (map (\<lambda>fh. map (\<lambda>fw. Asg (R c 0) (take_max fgt)
      [M (mp_ib L k + (fh * nFW L + fw) * nT L + ch), R c 0]) [0..<nFW L]) [0..<nFH L]))"
    by (rule defined_concat) (auto intro!: body)
  then show ?thesis using x [of 0 0] assms by (simp add: mp_pool_def)
qed

lemma mp_contract:
  assumes ok: "mp_ok L"
  shows "double_buffer (mp_n L) (nP L) (mp_reg L) [] (mp_ld L) (mp_cp fgt L) (mp_st L)"
proof
  note O = mp_okD [OF ok] mp_sizes [OF ok]
  show "0 < mp_n L"
    using tile_count_pos [OF mp_grid [OF ok] O(2)] by (simp add: mp_n_def)
  fix k assume k: "k < mp_n L"
  show "mp_reg L x = RIb (k mod 2)" if "x \<in> targets (mp_ld L k)" for x
    using that mp_reg_ib [OF bounded_rows] by (auto simp: mp_ld_targets)
  show "defined {x. mp_reg L x = RIn} (mp_ld L k)" by (rule mp_ld_defined [OF ok k])
  show "mp_reg L x = ROb (k mod 2) c \<or> mp_reg L x = RRg c" if "c < nP L" "x \<in> targets (mp_cp fgt L k c)" for c x
    using that tile_channel [OF mp_grid [OF ok]] mp_reg_ob by (auto simp: mp_cp_targets)
  show "defined ({x. mp_reg L x = RCon} \<union> targets (mp_ld L k)) (mp_cp fgt L k c)" if "c < nP L" for c
    unfolding mp_cp_def using tile_channel [OF mp_grid [OF ok] _ that] O by (intro defined_concat) (auto intro!: mp_pool_defined)
  show "mp_reg L x = ROut" if x: "x \<in> targets (mp_st L k)" for x
  proof -
    obtain j where j: "j < nT L" "x = M (l_ofmap (lay L) + (tile_row L k * nCI L + (tile_chan L k + j)))"
      using x by (auto simp: mp_st_targets)
    then show ?thesis using mp_reg_out [OF ok radix_less [OF mp_row_bound [OF ok k] tile_chan_bound [OF mp_grid [OF ok] j(1)]]] by simp
  qed
  have "\<exists>c<nP L. M (mp_ob L k + i) \<in> targets (mp_cp fgt L k c) \<and> mp_reg L (M (mp_ob L k + i)) = ROb (k mod 2) c" if "i < nT L" for i
  proof (intro exI conjI)
    have "i < nT L div nP L * nP L" using that O(24) by simp
    then have "i div nP L < nT L div nP L" by (rule less_mult_imp_div_less)
    then show "M (mp_ob L k + i) \<in> targets (mp_cp fgt L k (i mod nP L))"
      unfolding mp_cp_targets by (intro exI [of _ "i div nP L"]) simp
    show "i mod nP L < nP L" using O(4) by simp
    show "mp_reg L (M (mp_ob L k + i)) = ROb (k mod 2) (i mod nP L)" by (rule mp_reg_ob [OF that])
  qed
  then show "defined {x. \<exists>c<nP L. x \<in> targets (mp_cp fgt L k c) \<and> mp_reg L x = ROb (k mod 2) c} (mp_st L k)"
    unfolding mp_st_def by (intro copy_row_defined) simp
  show "x \<notin> targets (mp_st L j)" if a: "j < mp_n L" "j \<noteq> k" "x \<in> targets (mp_st L k)" for j x
  proof
    assume "x \<in> targets (mp_st L j)"
    then obtain i i' where i: "i < nT L" "i' < nT L" "x = M (l_ofmap (lay L) + (tile_row L k * nCI L + (tile_chan L k + i)))"
      "x = M (l_ofmap (lay L) + (tile_row L j * nCI L + (tile_chan L j + i')))"
      using a(3) unfolding mp_st_targets by blast
    then have "tile_row L k * nCI L + (tile_chan L k + i) = tile_row L j * nCI L + (tile_chan L j + i')" by simp
    then show False using tile_inj [OF mp_grid [OF ok] i(1, 2)] a(2) by blast
  qed
qed simp_all

interpretation mp: buffered_layer mp_ok mp_n nP mp_reg "\<lambda>_. []" mp_ld "mp_cp fgt" mp_st for fgt
  by (rule buffered_layer.intro) (rule mp_contract)

section \<open>What a tile computes\<close>

definition mp_fold :: "(u64 \<Rightarrow> u64 \<Rightarrow> bool) \<Rightarrow> layer_ctx \<Rightarrow> (nat \<Rightarrow> nat \<Rightarrow> u64) \<Rightarrow> u64" where
  "mp_fold fgt L v = fold (\<lambda>(fh, fw) m. if fgt (v fh fw) m then v fh fw else m) (List.product [0..<nFH L] [0..<nFW L]) (v 0 0)"

lemma mp_fold_cong:
  assumes "0 < nFH L" "0 < nFW L" "\<And>fh fw. fh < nFH L \<Longrightarrow> fw < nFW L \<Longrightarrow> v fh fw = w fh fw"
  shows "mp_fold fgt L v = mp_fold fgt L w"
  unfolding mp_fold_def using assms by (intro fold_cong) (auto intro!: ext)

text \<open>The pooled value of a pixel and a channel: the largest element of its window.\<close>

definition maxpool_at :: "(u64 \<Rightarrow> u64 \<Rightarrow> bool) \<Rightarrow> layer_ctx \<Rightarrow> store \<Rightarrow> nat \<Rightarrow> nat \<Rightarrow> u64" where
  "maxpool_at fgt L s pix ch = mp_fold fgt L (\<lambda>fh fw. s (M (mp_in L pix fh fw ch)))"

lemma run_max:
  "run (map (\<lambda>a. Asg (R c 0) (take_max fgt) [M (f a), R c 0]) as) (s(R c 0 := v))
     = s(R c 0 := fold (\<lambda>a m. if fgt (s (M (f a))) m then s (M (f a)) else m) as v)"
  by (induction as arbitrary: v) (simp_all add: take_max_def)

lemma run_mp_pool:
  "run (mp_pool fgt L k c ch) s = (let v = mp_fold fgt L (\<lambda>fh fw. s (M (mp_ib L k + (fh * nFW L + fw) * nT L + ch)))
     in s(R c 0 := v, M (mp_ob L k + ch) := v))"
proof -
  have "concat (map (\<lambda>fh. map (\<lambda>fw. Asg (R c 0) (take_max fgt) [M (mp_ib L k + (fh * nFW L + fw) * nT L + ch), R c 0]) [0..<nFW L]) [0..<nFH L])
    = map (\<lambda>p. Asg (R c 0) (take_max fgt) [M (mp_ib L k + (fst p * nFW L + snd p) * nT L + ch), R c 0]) (List.product [0..<nFH L] [0..<nFW L])"
    by (simp add: product_concat_map map_concat comp_def)
  then show ?thesis by (simp add: mp_pool_def run_max mp_fold_def case_prod_unfold Let_def)
qed

lemma ib_not_ob: "i < nFH L * nFW L * nT L \<Longrightarrow> mp_ib L k + i \<noteq> mp_ob L k + j"
  using radix_less [of "k mod 2" 2 i "nFH L * nFW L * nT L"] by (simp add: mp_ib_def mp_ob_def mult.assoc)

lemma run_mp_pools:
  assumes "\<And>c ch. (c, ch) \<in> set ps \<Longrightarrow> ch < nT L" "0 < nFH L" "0 < nFW L"
  shows "run (concat (map (\<lambda>(c, ch). mp_pool fgt L k c ch) ps)) s (M (mp_ob L k + j)) =
    (if j \<in> snd ` set ps then mp_fold fgt L (\<lambda>fh fw. s (M (mp_ib L k + (fh * nFW L + fw) * nT L + j))) else s (M (mp_ob L k + j)))"
  using assms
proof (induction ps rule: rev_induct)
  case (snoc p ps)
  obtain c ch where p: "p = (c, ch)" by (cases p)
  let ?r = "run (concat (map (\<lambda>(c, ch). mp_pool fgt L k c ch) ps)) s"
  have "?r (M (mp_ib L k + (fh * nFW L + fw) * nT L + ch)) = s (M (mp_ib L k + (fh * nFW L + fw) * nT L + ch))"
    if "fh < nFH L" "fw < nFW L" for fh fw
  proof (rule run_other)
    have "ch < nT L" using snoc.prems(1) [of c ch] p by simp
    then show "M (mp_ib L k + (fh * nFW L + fw) * nT L + ch) \<notin> targets (concat (map (\<lambda>(c, ch). mp_pool fgt L k c ch) ps))"
      using ib_not_ob [OF bounded_rows [OF that]] by (auto simp: mp_pool_def add.assoc split: if_splits)
  qed
  then have "mp_fold fgt L (\<lambda>fh fw. ?r (M (mp_ib L k + (fh * nFW L + fw) * nT L + ch)))
      = mp_fold fgt L (\<lambda>fh fw. s (M (mp_ib L k + (fh * nFW L + fw) * nT L + ch)))"
    using snoc.prems by (intro mp_fold_cong) auto
  moreover have "?r (M (mp_ob L k + j)) = (if j \<in> snd ` set ps then mp_fold fgt L (\<lambda>fh fw. s (M (mp_ib L k + (fh * nFW L + fw) * nT L + j)))
      else s (M (mp_ob L k + j)))"
    by (rule snoc.IH) (use snoc.prems in auto)
  ultimately show ?case by (simp add: p run_mp_pool Let_def)
qed simp

lemma mp_comps_value:
  assumes ok: "mp_ok L" and j: "j < nT L"
  shows "run (concat (map (mp_cp fgt L k) [0..<nP L])) s (M (mp_ob L k + j))
    = mp_fold fgt L (\<lambda>fh fw. s (M (mp_ib L k + (fh * nFW L + fw) * nT L + j)))"
proof -
  note O = mp_okD [OF ok] mp_sizes [OF ok]
  let ?ps = "concat (map (\<lambda>c. map (\<lambda>m. (c, m * nP L + c)) [0..<nT L div nP L]) [0..<nP L])"
  have flat: "concat (map (mp_cp fgt L k) cs)
      = concat (map (\<lambda>(c, ch). mp_pool fgt L k c ch) (concat (map (\<lambda>c. map (\<lambda>m. (c, m * nP L + c)) [0..<nT L div nP L]) cs)))" for cs
    by (induction cs) (simp_all add: mp_cp_def comp_def)
  have mem: "j \<in> snd ` set ?ps"
  proof -
    have "j < nT L div nP L * nP L" using j O(24) by simp
    then have "j div nP L < nT L div nP L" by (rule less_mult_imp_div_less)
    then have "(j mod nP L, j) \<in> (\<lambda>m. (j mod nP L, m * nP L + j mod nP L)) ` {0..<nT L div nP L}" by (auto simp: image_iff intro!: bexI [of _ "j div nP L"])
    then have "(j mod nP L, j) \<in> set ?ps" using O(4) by auto
    then show ?thesis by force
  qed
  have "ch < nT L" if "(c, ch) \<in> set ?ps" for c ch using that tile_channel(1) [OF mp_grid [OF ok]] by auto
  then show ?thesis unfolding flat using run_mp_pools [OF _ O(9, 10), of ?ps fgt k s j] mem by simp
qed

lemma mp_load_value:
  assumes ok: "mp_ok L" "k < mp_n L" and f: "fh < nFH L" "fw < nFW L" and j: "j < nT L"
  shows "run (mp_ld L k) s (M (mp_ib L k + (fh * nFW L + fw) * nT L + j)) = s (M (mp_in L (tile_row L k) fh fw (tile_chan L k + j)))"
proof (rule run_parallel)
  have el: "\<exists>fh'<nFH L. \<exists>fw'<nFW L. \<exists>j'<nT L. b = Asg (M (mp_ib L k + ((fh' * nFW L + fw') * nT L + j'))) hd [M (mp_in L (tile_row L k) fh' fw' (tile_chan L k + j'))]"
    if b: "b \<in> set (mp_ld L k)" for b
  proof -
    obtain fh' fw' j' where "fh' < nFH L" "fw' < nFW L" "j' < nT L"
      "b = Asg (M (mp_ib L k + (fh' * nFW L + fw') * nT L + j')) hd [M (mp_in L (tile_row L k) fh' fw' (tile_chan L k) + j')]"
      using b by (auto simp: mp_ld_def copy_row_def)
    then show ?thesis by (intro exI [of _ fh'] exI [of _ fw'] exI [of _ j'] conjI) (simp_all add: mp_in_def add.assoc)
  qed
  show "y \<notin> targets (mp_ld L k)" if b: "b \<in> set (mp_ld L k)" "y \<in> set (sources b)" for b y
  proof -
    note db = mp_contract [OF ok(1)]
    have "y \<in> {x. mp_reg L x = RIn}"
    proof -
      obtain fh' fw' j' where "fh' < nFH L" "fw' < nFW L" "j' < nT L" "y = M (mp_in L (tile_row L k) fh' fw' (tile_chan L k + j'))"
        using el [OF b(1)] b(2) by auto
      then show ?thesis
        using mp_reg_in [OF ok(1) mp_in_bound [OF ok(1) mp_row_bound [OF ok] _ _ tile_chan_bound [OF mp_grid [OF ok(1)]]]] by (simp add: mp_in_def add.assoc)
    qed
    then show ?thesis using double_buffer.ld_target [OF db ok(2)] by fastforce
  qed
  show "operator b (map s (sources b)) = s (M (mp_in L (tile_row L k) fh fw (tile_chan L k + j)))"
    if a: "b \<in> set (mp_ld L k)" "target b = M (mp_ib L k + (fh * nFW L + fw) * nT L + j)" for b
  proof -
    obtain fh' fw' j' where b: "fh' < nFH L" "fw' < nFW L" "j' < nT L"
      "b = Asg (M (mp_ib L k + ((fh' * nFW L + fw') * nT L + j'))) hd [M (mp_in L (tile_row L k) fh' fw' (tile_chan L k + j'))]"
      using el [OF a(1)] by blast
    then have "fh' * nFW L + fw' = fh * nFW L + fw" "j' = j"
      using radix_inj [OF b(3) j, of "fh' * nFW L + fw'" "fh * nFW L + fw"] a(2) by auto
    then show ?thesis using radix_inj [OF b(2) f(2), of fh' fh] by (simp add: b(4))
  qed
  show "M (mp_ib L k + (fh * nFW L + fw) * nT L + j) \<in> targets (mp_ld L k)"
    unfolding mp_ld_targets using f j by (auto simp: add.assoc)
qed

lemma mp_tile_value:
  assumes ok: "mp_ok L" and k: "k < mp_n L" and j: "j < nT L"
  shows "mp.tile_alone fgt L k s (M (l_ofmap (lay L) + (tile_row L k * nCI L + (tile_chan L k + j))))
    = maxpool_at fgt L s (tile_row L k) (tile_chan L k + j)"
proof -
  note db = mp_contract [OF ok]
  let ?t = "run (concat (map (mp_cp fgt L k) [0..<nP L])) (run (mp_ld L k) s)"
  have "mp_ob L k + i \<noteq> l_ofmap (lay L) + tile_row L k * nCI L + tile_chan L k + i'" if "i < nT L" "i' < nT L" for i i'
  proof -
    have "mp_reg L (M (mp_ob L k + i)) \<noteq> mp_reg L (M (l_ofmap (lay L) + tile_row L k * nCI L + tile_chan L k + i'))"
      using mp_reg_ob [OF that(1)] double_buffer.st_target [OF db k] that(2) by (auto simp: mp_st_targets add.assoc)
    then show ?thesis by auto
  qed
  then have "run (mp_st L k) ?t (M (l_ofmap (lay L) + (tile_row L k * nCI L + (tile_chan L k + j)))) = ?t (M (mp_ob L k + j))"
    unfolding mp_st_def using j by (subst run_copy_row) (auto simp: add.assoc)
  also have "\<dots> = mp_fold fgt L (\<lambda>fh fw. run (mp_ld L k) s (M (mp_ib L k + (fh * nFW L + fw) * nT L + j)))"
    by (rule mp_comps_value [OF ok j])
  also have "\<dots> = maxpool_at fgt L s (tile_row L k) (tile_chan L k + j)"
    unfolding maxpool_at_def using mp_okD [OF ok] mp_load_value [OF ok k _ _ j] by (intro mp_fold_cong) auto
  finally show ?thesis by (simp add: mp.tile_alone_def)
qed

text \<open>
  C6: Every interleaving of the data mover core and the compute cores of a cluster that runs
  the max pooling layer on an admissible layer is bounded and never stuck, and it ends with the
  maximum of its window in every output element of the pixels of the cluster (those whose index is
  congruent to the cluster index) and every other output element unchanged. The data mover core
  returns from the call. A compute core returns if it has the extension \<open>Xdma\<close>; without it, as in the
  default cluster, it is stopped by an illegal instruction exception in the final
  \<open>snrt_dma_wait_all\<close>, and what a handler of that exception does is not part of the statement.
\<close>

theorem maxpool_layer_correct:
  assumes ok: "mp_ok L"
  shows "\<exists>ts. maxpool_layer fgt L xdma junk = Some ts
    \<and> map snd ts = Returns # replicate (nP L) (if xdma then Returns else Illegal_instruction)
    \<and> (\<forall>n x. (cstep ^^ n) (s, map fst ts) x \<longrightarrow>
    n \<le> events (map fst ts) \<and> (final x \<or> (\<exists>y. cstep x y)) \<and>
    (final x \<longrightarrow> (\<forall>pix<nOH L * nOW L. \<forall>ch<nCI L. fst x (M (l_ofmap (lay L) + (pix * nCI L + ch)))
       = (if pix mod nN L = nid L then maxpool_at fgt L s pix ch else s (M (l_ofmap (lay L) + (pix * nCI L + ch)))))))"
proof (intro exI conjI allI impI)
  define ts where "ts = (dm_events (mp_n L) [] (mp_ld L) (mp_st L), Returns)
    # map (\<lambda>c. (core_events (mp_n L) (\<lambda>k. mp_cp fgt L k c), wait_all_end xdma)) [0..<nP L]"
  show "maxpool_layer fgt L xdma junk = Some ts" by (simp add: maxpool_layer_nat [OF ok] ts_def)
  show "map snd ts = Returns # replicate (nP L) (if xdma then Returns else Illegal_instruction)"
    by (simp add: ts_def wait_all_end_def comp_def map_replicate_const)
  have fst: "map fst ts = mp.cores fgt L" by (simp add: ts_def mp.cores_def comp_def)
  fix n x assume r: "(cstep ^^ n) (s, map fst ts) x"
  note runs = mp.layer_runs [OF ok r [unfolded fst]]
  show "n \<le> events (map fst ts)" unfolding fst by (fact runs)
  show "final x \<or> (\<exists>y. cstep x y)" by (fact runs)
  fix pix ch assume f: "final x" and p: "pix < nOH L * nOW L" and c: "ch < nCI L"
  show "fst x (M (l_ofmap (lay L) + (pix * nCI L + ch)))
       = (if pix mod nN L = nid L then maxpool_at fgt L s pix ch else s (M (l_ofmap (lay L) + (pix * nCI L + ch))))"
  proof (cases "pix mod nN L = nid L")
    case True
    obtain k j where kj: "k < mp_n L" "j < nT L" "pix = tile_row L k" "ch = tile_chan L k + j" by (rule tile_of [OF mp_grid [OF ok] p True c, folded mp_n_def])
    have "fst x (M (l_ofmap (lay L) + (pix * nCI L + ch))) = mp.tile_alone fgt L k s (M (l_ofmap (lay L) + (pix * nCI L + ch)))"
      using kj(2) by (intro runs(3) [OF f kj(1)]) (auto simp: mp_st_targets kj(3, 4))
    then show ?thesis using True mp_tile_value [OF ok kj(1, 2), of fgt s] by (simp add: kj(3, 4))
  next
    case False
    have "M (l_ofmap (lay L) + (pix * nCI L + ch)) \<notin> targets (mp_st L k)" for k
    proof
      assume "M (l_ofmap (lay L) + (pix * nCI L + ch)) \<in> targets (mp_st L k)"
      then obtain j where "j < nT L" "pix * nCI L + ch = tile_row L k * nCI L + (tile_chan L k + j)" by (auto simp: mp_st_targets)
      then have "pix = tile_row L k" using radix_inj [OF c tile_chan_bound [OF mp_grid [OF ok]]] by blast
      then show False using False tile_row_mod [OF mp_grid [OF ok]] by simp
    qed
    then show ?thesis using runs(4) [OF f] mp_reg_out [OF ok radix_less [OF p c]] False by simp
  qed
qed

definition demo_mp :: layer_ctx where
  "demo_mp = \<lparr> lay = \<lparr> CO = 2, CI = 2, IH = 2, IW = 4, OH = 1, OW = 2, FH = 2, FW = 2, pad = 0, l_ifmap = 100, l_weights = 0,
     l_ofmap = 200, TILE_CI = 1, cluster2cluster = 0, im2col_flag = 0, l_gamma = 0, l_beta = 0, dtype = FP64 \<rparr>,
     tcdm = 0, cluster_num = 1, cluster_id = 0, compute_num = 1 \<rparr>"

lemma demo_mp_ok: "mp_ok demo_mp"
  by (simp add: mp_ok_def grid_ok_def demo_mp_def apart_from_def)

text \<open>The schedule of one layer, with the facts of the contract for its threads.\<close>

interpretation mp_schedule: double_buffer "mp_n demo_mp" "nP demo_mp" "mp_reg demo_mp" "[]" "mp_ld demo_mp" "mp_cp fgt demo_mp" "mp_st demo_mp" for fgt
  by (rule mp_contract [OF demo_mp_ok])

theorem maxpool_layer_correct_witness:
  "\<exists>ts n x. maxpool_layer (\<lambda>x y. y < x) demo_mp False (7, 7, 7) = Some ts \<and> map snd ts = [Returns, Illegal_instruction]
     \<and> (cstep ^^ n) (case_loc of_nat (\<lambda>_ _. 0), map fst ts) x \<and> final x
     \<and> map (\<lambda>i. fst x (M (200 + i))) [0, 1, 2, 3] = [110, 111, 114, 115]"
proof -
  let ?s = "case_loc of_nat (\<lambda>_ _. 0) :: store"
  obtain ts where ts: "maxpool_layer (\<lambda>x y. y < x) demo_mp False (7, 7, 7) = Some ts" "map snd ts = Returns # replicate (nP demo_mp) Illegal_instruction"
    and runs: "\<forall>n x. (cstep ^^ n) (?s, map fst ts) x \<longrightarrow> n \<le> events (map fst ts) \<and> (final x \<or> (\<exists>y. cstep x y)) \<and>
    (final x \<longrightarrow> (\<forall>pix<nOH demo_mp * nOW demo_mp. \<forall>ch<nCI demo_mp. fst x (M (l_ofmap (lay demo_mp) + (pix * nCI demo_mp + ch)))
       = (if pix mod nN demo_mp = nid demo_mp then maxpool_at (\<lambda>x y. y < x) demo_mp ?s pix ch
          else ?s (M (l_ofmap (lay demo_mp) + (pix * nCI demo_mp + ch))))))"
    using maxpool_layer_correct [OF demo_mp_ok, of "\<lambda>x y. y < x" False "(7, 7, 7)" ?s, unfolded if_False] by (elim exE conjE) (rule that)
  obtain n x where x: "(cstep ^^ n) (?s, map fst ts) x" "final x"
    using bounded_reaches [of cstep "(?s, map fst ts)" "events (map fst ts)" final] runs by blast
  have v: "fst x (M (200 + (pix * 2 + ch))) = maxpool_at (\<lambda>x y. y < x) demo_mp ?s pix ch" if "pix < 2" "ch < 2" for pix ch
    using runs [THEN spec [of _ n], THEN spec [of _ x]] x that by (simp add: demo_mp_def)
  have "maxpool_at (\<lambda>x y. y < x) demo_mp ?s 0 0 = 110" "maxpool_at (\<lambda>x y. y < x) demo_mp ?s 0 1 = 111"
    "maxpool_at (\<lambda>x y. y < x) demo_mp ?s 1 0 = 114" "maxpool_at (\<lambda>x y. y < x) demo_mp ?s 1 1 = 115"
    by (simp_all add: maxpool_at_def mp_fold_def mp_in_def demo_mp_def upt_rec)
  then have "map (\<lambda>i. fst x (M (200 + i))) [0, 1, 2, 3] = [110, 111, 114, 115]"
    using v [of 0 0] v [of 0 1] v [of 1 0] v [of 1 1] by simp
  moreover have "map snd ts = [Returns, Illegal_instruction]" using ts(2) by (simp add: demo_mp_def)
  ultimately show ?thesis using ts(1) x by (intro exI [of _ ts] exI [of _ n] exI [of _ x] conjI)
qed

end
