(* ===== verification/Batchnorm_Layer.thy ===== *)
theory Batchnorm_Layer
  imports Tiling Ssr
begin

text \<open>
  The batch normalisation layer: the kernel \<open>batchnorm_fp64\<close> (\<open>kernels/batchnorm.c\<close>), which
  streams a row through two stream semantic registers, and the double buffered layer around
  it (\<open>layers/batchnorm_layer.c\<close>). The fused multiply-add is the parameter \<open>fmadd\<close>.
\<close>

section \<open>The kernel\<close>

text \<open>
  The instructions of core \<open>c\<close> and the state of its data movers afterwards. Registers 1 and 2
  are \<open>g\<close> and \<open>b\<close>; the hardware loop runs its instruction \<open>OW - 1\<close> more times, a count of
  which the sequencer keeps the lower 16 bits.
\<close>

definition batchnorm_fp64 :: "ssr_hw \<Rightarrow> (u64 list \<Rightarrow> u64) \<Rightarrow> nat \<Rightarrow> nat \<Rightarrow> nat \<Rightarrow> nat \<Rightarrow> nat \<Rightarrow> u32 \<Rightarrow> u32 \<Rightarrow> u32 \<Rightarrow> bool
    \<Rightarrow> ssrs \<Rightarrow> (instr list \<times> ssrs) option" where
  "batchnorm_fp64 hw fmadd c ifmap gamma beta ofmap ow nci cnum setup_SSR l = (
     let l = (if setup_SSR then snrt_ssr_loop_2d hw 1 ow (nci div cnum) (nci * 8) (cnum * 8)
                (snrt_ssr_loop_2d hw 0 ow (nci div cnum) (nci * 8) (cnum * 8) l) else l);
         l = snrt_ssr_read hw 0 1 (ptr32 ifmap) l;
         l = snrt_ssr_write hw 1 1 (ptr32 ofmap) l;
         rounds = Suc (unat (take_bit 16 (ow - 1)))
     in map_option (\<lambda>cis. (concat (map (\<lambda>(m, ci).
            [Asg (R c 1) hd [M (gamma + unat ci)], Asg (R c 2) hd [M (beta + unat ci)]]
            @ map (\<lambda>i. Asg (cell_at (lane_addr (l 1) (m * rounds + i))) fmadd [cell_at (lane_addr (l 0) (m * rounds + i)), R c 1, R c 2])
                [0..<rounds]) (enumerate 0 cis)),
          l(0 := lane_after (length cis * rounds) (l 0), 1 := lane_after (length cis * rounds) (l 1)))) (for_range 0 nci cnum))"

section \<open>The layer\<close>

definition bn_map_size :: "layer_ctx \<Rightarrow> u32" where
  "bn_map_size L = 2 * IW (lay L) * TILE_CI (lay L)"

definition bn_gamma :: "layer_ctx \<Rightarrow> nat" where "bn_gamma L = tcdm L + unat (bn_map_size L)"
definition bn_beta :: "layer_ctx \<Rightarrow> nat" where "bn_beta L = bn_gamma L + unat (CI (lay L))"
definition bn_ofmap :: "layer_ctx \<Rightarrow> nat" where "bn_ofmap L = bn_beta L + unat (CI (lay L))"

definition bn_weights :: "layer_ctx \<Rightarrow> instr list" where
  "bn_weights L = dma_1d (bn_gamma L) (l_gamma (lay L)) (8 * CI (lay L)) @ dma_1d (bn_beta L) (l_beta (lay L)) (8 * CI (lay L))"

definition bn_load :: "layer_ctx \<Rightarrow> u32 \<Rightarrow> u32 \<Rightarrow> u32 \<Rightarrow> instr list" where
  "bn_load L write_buf oh ci = (let l = lay L in
     if TILE_CI l = CI l
     then dma_1d (tcdm L + unat (write_buf * bn_map_size L div 2)) (l_ifmap l + unat (oh * IW l * CI l)) (8 * IW l * TILE_CI l)
     else dma_2d (tcdm L + unat (write_buf * bn_map_size L div 2)) (l_ifmap l + unat (oh * IW l * CI l + ci))
            (8 * TILE_CI l) (8 * TILE_CI l) (8 * CI l) (IW l))"

definition bn_store :: "layer_ctx \<Rightarrow> u32 \<Rightarrow> u32 \<times> u32 \<Rightarrow> instr list" where
  "bn_store L read_buf prev = (let l = lay L; (prev_oh, prev_ci) = prev in
     if TILE_CI l = CI l
     then dma_1d (l_ofmap l + unat (prev_oh * OW l * CI l)) (bn_ofmap L + unat (lnot read_buf * (bn_map_size L div 2))) (8 * IW l * CI l)
     else dma_2d (l_ofmap l + unat (prev_oh * OW l * CI l + prev_ci)) (bn_ofmap L + unat (lnot read_buf * (bn_map_size L div 2)))
            (8 * TILE_CI l) (8 * CI l) (8 * TILE_CI l) (IW l))"

text \<open>The data mover core; the last argument holds \<open>prev_oh\<close> and \<open>prev_ci\<close>.\<close>

fun bn_dm :: "layer_ctx \<Rightarrow> (u32 \<times> u32) list \<Rightarrow> u32 \<Rightarrow> u32 \<Rightarrow> u32 \<times> u32 \<Rightarrow> ev list" where
  "bn_dm L [] read_buf write_buf prev = Bar # map Act (bn_store L read_buf prev)"
| "bn_dm L ((oh, ci) # ts) read_buf write_buf prev =
     map Act (if oh = cluster_id L \<and> ci = 0 then bn_weights L else [])
     @ map Act (bn_load L write_buf oh ci)
     @ Bar # map Act (if oh = cluster_id L \<and> ci = 0 then [] else bn_store L read_buf prev)
     @ bn_dm L ts (lnot read_buf) (lnot write_buf) (oh, ci)"

fun bn_core :: "ssr_hw \<Rightarrow> (u64 list \<Rightarrow> u64) \<Rightarrow> layer_ctx \<Rightarrow> u32 \<Rightarrow> (u32 \<times> u32) list \<Rightarrow> u32 \<Rightarrow> u32 \<Rightarrow> ssrs \<Rightarrow> ev list option" where
  "bn_core hw fmadd L compute_id [] read_buf write_buf l = Some [Bar]"
| "bn_core hw fmadd L compute_id ((oh, ci) # ts) read_buf write_buf l = do {
     (is, l') \<leftarrow> batchnorm_fp64 hw fmadd (unat compute_id)
       (tcdm L + unat (read_buf * bn_map_size L div 2 + compute_id))
       (bn_gamma L + unat (ci + compute_id)) (bn_beta L + unat (ci + compute_id))
       (bn_ofmap L + unat (write_buf * bn_map_size L div 2 + compute_id))
       (OW (lay L)) (TILE_CI (lay L)) (compute_num L) (oh = cluster_id L \<and> ci = 0) l;
     es \<leftarrow> bn_core hw fmadd L compute_id ts (lnot read_buf) (lnot write_buf) l';
     Some (Bar # map Act is @ es) }"

text \<open>All cores of the cluster; \<open>ls\<close> are their data movers, \<open>junk\<close> what the uninitialised
  \<open>prev_\<close> variables hold.\<close>

definition batchnorm_layer :: "ssr_hw \<Rightarrow> (u64 list \<Rightarrow> u64) \<Rightarrow> layer_ctx \<Rightarrow> (nat \<Rightarrow> ssrs) \<Rightarrow> u32 \<times> u32 \<Rightarrow> ev list list option" where
  "batchnorm_layer hw fmadd L ls junk = do {
     ts \<leftarrow> layer_iters L (OH (lay L));
     cs \<leftarrow> those (map (\<lambda>c. bn_core hw fmadd L c ts 0 0 (ls (unat c))) (u32_below (compute_num L)));
     Some (bn_dm L ts 0 0 junk # cs) }"

section \<open>Admissible layers\<close>

text \<open>
  Input and output have the same shape, the sizes are below \<open>2 ^ 32\<close>, and the cluster memory, the
  inputs and the output do not overlap.
\<close>

definition bn_ok :: "layer_ctx \<Rightarrow> bool" where
  "bn_ok L \<longleftrightarrow> grid_ok L \<and> nid L < nOH L \<and> nOH L + nN L \<le> 2 ^ 32 \<and> OW (lay L) = IW (lay L) \<and> 0 < nIW L \<and> nOH L \<le> nIH L
     \<and> nIH L * nIW L * nCI L < 2 ^ 32 \<and> 8 * nIW L * nCI L < 2 ^ 32
     \<and> apart_from (tcdm L) (4 * nIW L * nT L + 2 * nCI L) (l_ifmap (lay L)) (nIH L * nIW L * nCI L)
     \<and> apart_from (tcdm L) (4 * nIW L * nT L + 2 * nCI L) (l_gamma (lay L)) (nCI L)
     \<and> apart_from (tcdm L) (4 * nIW L * nT L + 2 * nCI L) (l_beta (lay L)) (nCI L)
     \<and> apart_from (tcdm L) (4 * nIW L * nT L + 2 * nCI L) (l_ofmap (lay L)) (nOH L * nIW L * nCI L)
     \<and> apart_from (l_ifmap (lay L)) (nIH L * nIW L * nCI L) (l_ofmap (lay L)) (nOH L * nIW L * nCI L)
     \<and> apart_from (l_gamma (lay L)) (nCI L) (l_ofmap (lay L)) (nOH L * nIW L * nCI L)
     \<and> apart_from (l_beta (lay L)) (nCI L) (l_ofmap (lay L)) (nOH L * nIW L * nCI L)"

text \<open>The loop bounds fit the counters of the data movers, which are idle and do not repeat, a row
  fits the repetition count of the sequencer, and the cluster memory ends below \<open>2 ^ 32\<close>.\<close>

definition bn_streams_ok :: "ssr_hw \<Rightarrow> layer_ctx \<Rightarrow> (nat \<Rightarrow> ssrs) \<Rightarrow> bool" where
  "bn_streams_ok hw L ls \<longleftrightarrow> fits (IndexWidth hw) (OW (lay L)) \<and> fits (IndexWidth hw) (TILE_CI (lay L) div compute_num L)
     \<and> nOW L \<le> 2 ^ 16 \<and> 8 * (tcdm L + 4 * nIW L * nT L + 2 * nCI L) < 2 ^ 32
     \<and> (\<forall>c<nP L. \<forall>d<2. ssr_ready (ls c d) \<and> sh_rep (ls c d) = 0)"

definition bn_n :: "layer_ctx \<Rightarrow> nat" where "bn_n L = tile_count L (nOH L)"
definition bn_ib :: "layer_ctx \<Rightarrow> nat \<Rightarrow> nat" where "bn_ib L k = tcdm L + (k mod 2) * (nIW L * nT L)"
definition bn_gm :: "layer_ctx \<Rightarrow> nat" where "bn_gm L = tcdm L + 2 * (nIW L * nT L)"
definition bn_bt :: "layer_ctx \<Rightarrow> nat" where "bn_bt L = bn_gm L + nCI L"
definition bn_ob :: "layer_ctx \<Rightarrow> nat \<Rightarrow> nat" where "bn_ob L k = bn_bt L + nCI L + (k mod 2) * (nIW L * nT L)"

definition bn_pre :: "layer_ctx \<Rightarrow> instr list" where
  "bn_pre L = copy_row (bn_gm L) (l_gamma (lay L)) (nCI L) @ copy_row (bn_bt L) (l_beta (lay L)) (nCI L)"

definition bn_ld :: "layer_ctx \<Rightarrow> nat \<Rightarrow> instr list" where
  "bn_ld L k = concat (map (\<lambda>w. copy_row (bn_ib L k + w * nT L)
     (l_ifmap (lay L) + ((tile_row L k * nIW L + w) * nCI L + tile_chan L k)) (nT L)) [0..<nIW L])"

definition bn_block :: "(u64 list \<Rightarrow> u64) \<Rightarrow> layer_ctx \<Rightarrow> nat \<Rightarrow> nat \<Rightarrow> nat \<Rightarrow> instr list" where
  "bn_block fmadd L k c ch =
     [Asg (R c 1) hd [M (bn_gm L + (tile_chan L k + ch))], Asg (R c 2) hd [M (bn_bt L + (tile_chan L k + ch))]]
     @ map (\<lambda>w. Asg (M (bn_ob L k + (w * nT L + ch))) fmadd [M (bn_ib L k + (w * nT L + ch)), R c 1, R c 2]) [0..<nIW L]"

definition bn_cp :: "(u64 list \<Rightarrow> u64) \<Rightarrow> layer_ctx \<Rightarrow> nat \<Rightarrow> nat \<Rightarrow> instr list" where
  "bn_cp fmadd L k c = concat (map (\<lambda>m. bn_block fmadd L k c (m * nP L + c)) [0..<nT L div nP L])"

definition bn_st :: "layer_ctx \<Rightarrow> nat \<Rightarrow> instr list" where
  "bn_st L k = concat (map (\<lambda>w. copy_row (l_ofmap (lay L) + ((tile_row L k * nIW L + w) * nCI L + tile_chan L k))
     (bn_ob L k + w * nT L) (nT L)) [0..<nIW L])"

section \<open>The words are the naturals\<close>

lemma bn_okD:
  assumes "bn_ok L"
  shows "grid_ok L" "nid L < nOH L" "nOH L + nN L \<le> 2 ^ 32" "OW (lay L) = IW (lay L)" "0 < nIW L" "nOH L \<le> nIH L"
    "nIH L * nIW L * nCI L < 2 ^ 32" "8 * nIW L * nCI L < 2 ^ 32" "nIW L * nT L \<le> nIW L * nCI L"
    "8 * (nIW L * nT L) < 2 ^ 32"
proof -
  show "grid_ok L" "nid L < nOH L" "nOH L + nN L \<le> 2 ^ 32" "OW (lay L) = IW (lay L)" "0 < nIW L" "nOH L \<le> nIH L"
    "nIH L * nIW L * nCI L < 2 ^ 32" "8 * nIW L * nCI L < 2 ^ 32" using assms by (simp_all only: bn_ok_def)
  show le: "nIW L * nT L \<le> nIW L * nCI L" using grid_okD(8) [OF \<open>grid_ok L\<close>] by simp
  have "8 * (nIW L * nCI L) < 2 ^ 32" using \<open>8 * nIW L * nCI L < 2 ^ 32\<close> by (simp add: mult.assoc)
  then show "8 * (nIW L * nT L) < 2 ^ 32" using le by linarith
qed

lemma bn_half_nat: "bn_ok L \<Longrightarrow> unat (of_nat (k mod 2 * (nIW L * nT L)) :: u32) = k mod 2 * (nIW L * nT L)"
  using bn_okD(10) [of L] by (intro unat_eqI refl) (simp add: mod_2_eq_odd)

lemma bn_map_size_nat: "bn_ok L \<Longrightarrow> unat (bn_map_size L) = 2 * (nIW L * nT L)"
  using bn_okD(10) [of L] by (intro unat_eqI) (simp_all add: bn_map_size_def)

lemma bn_buffers_nat:
  "bn_ok L \<Longrightarrow> bn_gamma L = bn_gm L" "bn_ok L \<Longrightarrow> bn_beta L = bn_bt L" "bn_ok L \<Longrightarrow> bn_ofmap L = bn_bt L + nCI L"
  by (simp_all add: bn_gamma_def bn_beta_def bn_ofmap_def bn_gm_def bn_bt_def bn_map_size_nat)

lemma bn_sizes_nat:
  assumes "bn_ok L"
  shows "unat (8 * CI (lay L)) = 8 * nCI L" "unat (8 * TILE_CI (lay L)) = 8 * nT L"
    "unat (8 * IW (lay L) * TILE_CI (lay L)) = 8 * (nIW L * nT L)" "unat (8 * IW (lay L) * CI (lay L)) = 8 * (nIW L * nCI L)"
proof -
  note O = bn_okD [OF assms] grid_okD [OF bn_okD(1) [OF assms]]
  show "unat (8 * CI (lay L)) = 8 * nCI L" "unat (8 * TILE_CI (lay L)) = 8 * nT L" using O by (auto intro!: unat_eqI)
  show "unat (8 * IW (lay L) * TILE_CI (lay L)) = 8 * (nIW L * nT L)" using O(10) by (intro unat_eqI) simp_all
  show "unat (8 * IW (lay L) * CI (lay L)) = 8 * (nIW L * nCI L)" using O(8) by (intro unat_eqI) simp_all
qed

lemma bn_weights_nat: "bn_ok L \<Longrightarrow> bn_weights L = bn_pre L"
  by (simp add: bn_weights_def bn_pre_def bn_buffers_nat dma_1d_row bn_sizes_nat)

lemma bn_row_bound:
  assumes ok: "bn_ok L" and r: "row < nOH L" and w: "w < nIW L" and c: "ch < nCI L"
  shows "(row * nIW L + w) * nCI L + ch < nOH L * nIW L * nCI L" "(row * nIW L + w) * nCI L + ch < nIH L * nIW L * nCI L"
proof -
  show o: "(row * nIW L + w) * nCI L + ch < nOH L * nIW L * nCI L" by (intro radix_less r w c)
  also have "\<dots> \<le> nIH L * nIW L * nCI L" using bn_okD(6) [OF ok] by (intro mult_le_mono) simp_all
  finally show "(row * nIW L + w) * nCI L + ch < nIH L * nIW L * nCI L" .
qed

lemma bn_tile_words:
  assumes ok: "bn_ok L" and k: "k < bn_n L"
  shows "unat (fst (tile_iter L k) * IW (lay L) * CI (lay L) + snd (tile_iter L k)) = tile_row L k * nIW L * nCI L + tile_chan L k"
proof (rule unat_eqI)
  have c: "tile_chan L k < nCI L" using tile_chan_bound [OF bn_okD(1) [OF ok], of 0 k] grid_okD(4) [OF bn_okD(1) [OF ok]] by simp
  show "tile_row L k * nIW L * nCI L + tile_chan L k < 2 ^ 32"
    using bn_row_bound(2) [OF ok tile_row_bound [OF bn_okD(1) [OF ok] k [unfolded bn_n_def]] bn_okD(5) [OF ok] c] bn_okD(7) [OF ok] by simp
qed (simp add: tile_iter_def)

lemma tile_whole:
  assumes "TILE_CI (lay L) = CI (lay L)" "grid_ok L"
  shows "tile_chan L k = 0" "snd (tile_iter L k) = 0"
  using assms grid_okD(6) [OF assms(2)] by (simp_all add: tile_chan_def tile_q_def tile_iter_def)

lemma bn_load_nat:
  assumes ok: "bn_ok L" and k: "k < bn_n L"
  shows "bn_load L (buf k) (fst (tile_iter L k)) (snd (tile_iter L k)) = bn_ld L k"
proof -
  note s = bn_tile_words [OF ok k]
  have d: "tcdm L + unat (buf k * bn_map_size L div 2) = bn_ib L k"
    using buf_half(1) [OF bn_map_size_nat [OF ok], of k] bn_half_nat [OF ok, of k] by (simp add: bn_ib_def)
  have rows: "bn_ld L k = concat (map (\<lambda>i. copy_row (bn_ib L k + i * nT L)
      (l_ifmap (lay L) + (tile_row L k * nIW L * nCI L + tile_chan L k) + i * nCI L) (nT L)) [0..<nIW L])"
    by (simp add: bn_ld_def algebra_simps)
  show ?thesis
  proof (cases "TILE_CI (lay L) = CI (lay L)")
    case True
    note w = tile_whole [OF True bn_okD(1) [OF ok], of k]
    have c: "nCI L = nT L" using True by simp
    have "unat (fst (tile_iter L k) * IW (lay L) * CI (lay L)) = tile_row L k * nIW L * nT L" using s by (simp add: w c)
    then show ?thesis unfolding bn_load_def Let_def if_P [OF True] d dma_1d_row [OF bn_sizes_nat(3) [OF ok]] rows
      unfolding c w(1) by (simp add: copy_rows_contiguous)
  next
    case False
    show ?thesis unfolding bn_load_def Let_def if_not_P [OF False] d s rows
      by (rule dma_2d_rows [OF bn_sizes_nat(2) [OF ok] bn_sizes_nat(2) [OF ok] bn_sizes_nat(1) [OF ok] refl])
  qed
qed

lemma bn_store_nat:
  assumes ok: "bn_ok L" and k: "k < bn_n L"
  shows "bn_store L (buf (Suc k)) (tile_iter L k) = bn_st L k"
proof -
  note s = bn_tile_words [OF ok k]
  have d: "bn_ofmap L + unat (lnot (buf (Suc k)) * (bn_map_size L div 2)) = bn_ob L k"
  proof -
    have "lnot (buf (Suc k)) = buf k" by simp
    then show ?thesis using buf_half(3) [OF bn_map_size_nat [OF ok], of k] bn_half_nat [OF ok, of k]
      by (simp only: bn_ob_def bn_buffers_nat [OF ok])
  qed
  have rows: "bn_st L k = concat (map (\<lambda>i. copy_row (l_ofmap (lay L) + (tile_row L k * nIW L * nCI L + tile_chan L k) + i * nCI L)
      (bn_ob L k + i * nT L) (nT L)) [0..<nIW L])"
    by (simp add: bn_st_def algebra_simps)
  obtain oh ci where it: "tile_iter L k = (oh, ci)" by (cases "tile_iter L k")
  note s = bn_tile_words [OF ok k, unfolded it fst_conv snd_conv]
  note ow = bn_okD(4) [OF ok]
  show ?thesis
  proof (cases "TILE_CI (lay L) = CI (lay L)")
    case True
    note w = tile_whole [OF True bn_okD(1) [OF ok], of k, unfolded it snd_conv]
    have c: "nCI L = nT L" using True by simp
    have "unat (oh * IW (lay L) * CI (lay L)) = tile_row L k * nIW L * nT L" using s by (simp add: w c)
    then show ?thesis unfolding bn_store_def Let_def it prod.case if_P [OF True] d ow dma_1d_row [OF bn_sizes_nat(4) [OF ok]] rows
      unfolding c w(1) by (simp add: copy_rows_contiguous)
  next
    case False
    show ?thesis unfolding bn_store_def Let_def it prod.case if_not_P [OF False] d ow s rows
      by (rule dma_2d_rows [OF bn_sizes_nat(2) [OF ok] bn_sizes_nat(1) [OF ok] bn_sizes_nat(2) [OF ok] refl])
  qed
qed

section \<open>The streams\<close>

text \<open>A data mover that is set up for the rows of a tile.\<close>

definition bn_lane :: "layer_ctx \<Rightarrow> agen \<Rightarrow> bool" where
  "bn_lane L a \<longleftrightarrow> ssr_ready a \<and> (\<exists>s2 s3. ssr_cfg a 1 1 [nIW L, nT L div nP L, 1, 1] [TILE_CI (lay L) * 8, compute_num L * 8, s2, s3])"

lemma bn_lane_wr [simp]: "bn_lane L (a\<lparr> wr := b \<rparr>) = bn_lane L a"
  by (simp add: bn_lane_def ssr_ready_def ssr_cfg_def start_job_def last_index_def span_def)

lemma bn_lane_setup:
  assumes ok: "bn_ok L" and hw: "fits (IndexWidth hw) (OW (lay L))" "fits (IndexWidth hw) (TILE_CI (lay L) div compute_num L)"
    and l: "ssr_ready (l dm)" "sh_rep (l dm) = 0"
  shows "bn_lane L (snrt_ssr_loop_2d hw dm (OW (lay L)) (TILE_CI (lay L) div compute_num L) (TILE_CI (lay L) * 8) (compute_num L * 8) l dm)"
proof -
  have s: "TILE_CI (lay L) * 8 = 8 * TILE_CI (lay L)" "compute_num L * 8 = 8 * compute_num L" by simp_all
  show ?thesis
    using cfg_2d [where dm = dm and l = l, OF refl l(2) hw s] l(1)
    unfolding bn_lane_def ssr_ready_cfg by (simp add: bn_okD(4) [OF ok] unat_div)
qed

lemma bn_lane_addr:
  assumes "bn_lane L a" "i < nIW L" "m < nT L div nP L" "8 * (base + (i * nT L + m * nP L)) < 2 ^ 32"
  shows "cell_at (lane_addr (ssr_job a 1 (ptr32 base)) (m * nIW L + i)) = M (base + (i * nT L + m * nP L))"
proof -
  obtain s2 s3 where c: "ssr_cfg a 1 1 [nIW L, nT L div nP L, 1, 1] [TILE_CI (lay L) * 8, compute_num L * 8, s2, s3]" and r: "ssr_ready a"
    using assms(1) by (auto simp: bn_lane_def)
  have "lane_addr (ssr_job a 1 (ptr32 base)) (m * nIW L + i) = ptr32 base + of_nat i * (TILE_CI (lay L) * 8) + of_nat m * (compute_num L * 8)"
    using ssr_job_addr [OF r c zero_less_one assms(2, 3) zero_less_one zero_less_one, of "ptr32 base"] by (simp add: algebra_simps)
  also have "unat \<dots> = 8 * (base + (i * nT L + m * nP L))"
    using assms(4) by (intro unat_eqI) (simp_all add: ptr32_def algebra_simps)
  finally show ?thesis by (simp add: cell_at_def)
qed

lemma bn_lane_end:
  assumes "bn_lane L a"
  shows "bn_lane L (lane_after (nT L div nP L * nIW L) (ssr_job a 1 p))"
proof -
  obtain s2 s3 where c: "ssr_cfg a 1 1 [nIW L, nT L div nP L, 1, 1] [TILE_CI (lay L) * 8, compute_num L * 8, s2, s3]" and r: "ssr_ready a"
    using assms by (auto simp: bn_lane_def)
  show ?thesis using ssr_job_end [OF r c, of p] by (auto simp: bn_lane_def mult.commute)
qed

lemma bn_kernel_nat:
  assumes ok: "bn_ok L" and k: "k < bn_n L" and c: "c < nP L" and st: "bn_streams_ok hw L ls"
    and l: "su \<Longrightarrow> ssr_ready (l 0) \<and> ssr_ready (l 1) \<and> sh_rep (l 0) = 0 \<and> sh_rep (l 1) = 0"
      "\<not> su \<Longrightarrow> bn_lane L (l 0) \<and> bn_lane L (l 1)"
  shows "\<exists>l'. bn_lane L (l' 0) \<and> bn_lane L (l' 1) \<and> batchnorm_fp64 hw fmadd (unat (of_nat c :: u32))
       (tcdm L + unat (buf k * bn_map_size L div 2 + of_nat c))
       (bn_gamma L + unat (snd (tile_iter L k) + of_nat c)) (bn_beta L + unat (snd (tile_iter L k) + of_nat c))
       (bn_ofmap L + unat (buf k * bn_map_size L div 2 + of_nat c))
       (OW (lay L)) (TILE_CI (lay L)) (compute_num L) su l = Some (bn_cp fmadd L k c, l')"
proof -
  note O = bn_okD [OF ok] grid_okD [OF bn_okD(1) [OF ok]]
  have hw: "fits (IndexWidth hw) (OW (lay L))" "fits (IndexWidth hw) (TILE_CI (lay L) div compute_num L)"
    and wide: "nOW L \<le> 2 ^ 16" and top: "8 * (tcdm L + 4 * nIW L * nT L + 2 * nCI L) < 2 ^ 32" using st by (simp_all add: bn_streams_ok_def)
  define q where "q = nT L div nP L"
  have pos: "0 < compute_num L" using O by (simp add: unat_gt_0 word_gt_0)
  have cT: "c < nT L" using c O(19) by simp
  have S: "c < nIW L * nT L" using radix_less [OF O(5) cT] by simp
  have c32: "unat (of_nat c :: u32) = c" using c by (intro unat_of_nat_small) (meson less_trans unat_lt_2p)
  have off: "unat (buf k * bn_map_size L div 2 + of_nat c) = k mod 2 * (nIW L * nT L) + c"
  proof (rule unat_eqI)
    have "k mod 2 * (nIW L * nT L) + c < 2 * (nIW L * nT L)" using S by (intro radix_less) auto
    then show "k mod 2 * (nIW L * nT L) + c < 2 ^ 32" using O(10) by simp
  qed (simp add: buf_half(1) [OF bn_map_size_nat [OF ok]])
  have ch: "unat (snd (tile_iter L k) + of_nat c) = tile_chan L k + c"
    using tile_chan_bound [OF O(1) cT, of k] O(17) by (intro unat_eqI) (simp_all add: tile_iter_def)
  define l1 where "l1 = (if su then snrt_ssr_loop_2d hw 1 (OW (lay L)) (TILE_CI (lay L) div compute_num L) (TILE_CI (lay L) * 8) (compute_num L * 8)
        (snrt_ssr_loop_2d hw 0 (OW (lay L)) (TILE_CI (lay L) div compute_num L) (TILE_CI (lay L) * 8) (compute_num L * 8) l) else l)"
  have lane: "bn_lane L (l1 0)" "bn_lane L (l1 1)"
    using l bn_lane_setup [OF ok hw] by (auto simp: l1_def ssr_frame split: if_splits)
  define bi bo where b: "bi = bn_ib L k + c" "bo = bn_ob L k + c"
  define l2 where "l2 = snrt_ssr_write hw 1 1 (ptr32 bo) (snrt_ssr_read hw 0 1 (ptr32 bi) l1)"
  have l2: "l2 = l1(0 := ssr_job (l1 0) 1 (ptr32 bi), 1 := (ssr_job (l1 1) 1 (ptr32 bo))\<lparr> wr := True \<rparr>)"
    using lane unfolding l2_def by (simp add: bn_lane_def ssr_ready_def snrt_ssr_read_job snrt_ssr_write_job)
  have rounds: "Suc (unat (take_bit 16 (OW (lay L) - 1))) = nIW L"
  proof -
    have "unat (OW (lay L) - 1) = nOW L - 1" using fits_reg [OF hw(1)] by simp
    then show ?thesis using wide O(4, 5) by (simp add: unsigned_take_bit_eq take_bit_nat_eq_self)
  qed
  have cis: "for_range 0 (TILE_CI (lay L)) (compute_num L) = Some (map (\<lambda>i. of_nat i * compute_num L) [0..<q])"
    using for_range_trips [OF pos, of "TILE_CI (lay L)" 0] O by (simp add: trips_dvd q_def)
  have m: "m * nP L + c < nT L" "unat (of_nat m * compute_num L) = m * nP L" if "m < q" for m
  proof -
    show "m * nP L + c < nT L" using tile_channel(1) [OF O(1) _ c] that by (simp add: q_def)
    then show "unat (of_nat m * compute_num L) = m * nP L" using O by (intro unat_eqI) simp_all
  qed
  have el: "w * nT L + (m * nP L + c) < nIW L * nT L" if "w < nIW L" "m < q" for w m
    using that m by (intro radix_less) auto
  have bd: "bn_ib L k + x < tcdm L + 4 * nIW L * nT L + 2 * nCI L" "bn_ob L k + x < tcdm L + 4 * nIW L * nT L + 2 * nCI L"
    if "x < nIW L * nT L" for x
    using radix_less [OF _ that, of "k mod 2" 2] by (simp_all add: bn_ib_def bn_ob_def bn_bt_def bn_gm_def)
  have ad: "cell_at (lane_addr (l2 0) (m * nIW L + w)) = M (bn_ib L k + (w * nT L + (m * nP L + c)))"
    "cell_at (lane_addr (l2 1) (m * nIW L + w)) = M (bn_ob L k + (w * nT L + (m * nP L + c)))" if "w < nIW L" "m < q" for w m
    using bn_lane_addr [OF lane(1) that(1) that(2) [unfolded q_def], of bi] bn_lane_addr [OF lane(2) that(1) that(2) [unfolded q_def], of bo]
      bd [OF el [OF that]] top by (simp_all add: l2 b lane_addr_wr ssr_job_pointer add_ac)
  define l3 where "l3 = l2(0 := lane_after (q * nIW L) (l2 0), 1 := lane_after (q * nIW L) (l2 1))"
  have "bn_lane L (l3 0)" "bn_lane L (l3 1)"
    using bn_lane_end [OF lane(1), of "ptr32 bi"] bn_lane_end [OF lane(2), of "ptr32 bo"]
    by (simp_all add: l3_def l2 q_def lane_after_wr ssr_job_pointer)
  moreover have "batchnorm_fp64 hw fmadd c bi (bn_gm L + (tile_chan L k + c)) (bn_bt L + (tile_chan L k + c)) bo
      (OW (lay L)) (TILE_CI (lay L)) (compute_num L) su l = Some (bn_cp fmadd L k c, l3)"
    unfolding batchnorm_fp64_def Let_def cis rounds l1_def [symmetric] l2_def [symmetric] option.map(2) option.inject prod.inject
  proof (intro conjI)
    show "l2(0 := lane_after (length (map (\<lambda>i. of_nat i * compute_num L) [0..<q]) * nIW L) (l2 0),
        1 := lane_after (length (map (\<lambda>i. of_nat i * compute_num L) [0..<q]) * nIW L) (l2 1)) = l3" by (simp add: l3_def)
    have en: "enumerate 0 (map (\<lambda>i. of_nat i * compute_num L) [0..<q]) = map (\<lambda>m. (m, of_nat m * compute_num L)) [0..<q]"
      by (rule nth_equalityI) (simp_all add: nth_enumerate_eq)
    show "concat (map (\<lambda>(m, ci). [Asg (R c 1) hd [M (bn_gm L + (tile_chan L k + c) + unat ci)], Asg (R c 2) hd [M (bn_bt L + (tile_chan L k + c) + unat ci)]]
        @ map (\<lambda>i. Asg (cell_at (lane_addr (l2 1) (m * nIW L + i))) fmadd [cell_at (lane_addr (l2 0) (m * nIW L + i)), R c 1, R c 2]) [0..<nIW L])
        (enumerate 0 (map (\<lambda>i. of_nat i * compute_num L) [0..<q]))) = bn_cp fmadd L k c"
      unfolding en map_map comp_def bn_cp_def bn_block_def q_def [symmetric] prod.case
      by (intro arg_cong [of _ _ concat] map_cong refl arg_cong2 [of _ _ _ _ append]) (simp_all add: m ad [unfolded One_nat_def])
  qed
  ultimately show ?thesis
    unfolding off ch c32 bn_buffers_nat [OF ok] b bn_ib_def bn_ob_def by (intro exI [of _ l3]) (simp add: add.assoc)
qed

section \<open>The layer follows the schedule\<close>

lemma bn_iter_first:
  assumes "bn_ok L" "k < bn_n L"
  shows "fst (tile_iter L k) = cluster_id L \<and> snd (tile_iter L k) = 0 \<longleftrightarrow> k = 0"
  using tile_iter_words(3) [OF bn_okD(1) [OF assms(1)] assms(2) [unfolded bn_n_def]] bn_okD(3) [OF assms(1)]
  by (simp add: prod_eq_iff)

lemma bn_dm_from:
  assumes ok: "bn_ok L"
  shows "j \<le> bn_n L \<Longrightarrow> 0 < bn_n L \<Longrightarrow> (0 < j \<Longrightarrow> prev = tile_iter L (j - 1)) \<Longrightarrow>
    bn_dm L (map (tile_iter L) [j..<bn_n L]) (buf j) (buf j) prev
      = map Act (if j = 0 then bn_pre L else [])
        @ concat (map (\<lambda>k. map Act (bn_ld L k) @ Bar # map Act (if k = 0 then [] else bn_st L (k - 1))) [j..<bn_n L])
        @ Bar # map Act (bn_st L (bn_n L - 1))"
proof (induction "bn_n L - j" arbitrary: j prev)
  case 0
  then have "j = Suc (bn_n L - 1)" by simp
  then show ?case using 0 bn_store_nat [OF ok, of "bn_n L - 1"] by simp
next
  case (Suc d)
  then have j: "j < bn_n L" and up: "[j..<bn_n L] = j # [Suc j..<bn_n L]" by (auto simp: upt_conv_Cons)
  obtain oh ci where it: "tile_iter L j = (oh, ci)" by (cases "tile_iter L j")
  have first: "oh = cluster_id L \<and> ci = 0 \<longleftrightarrow> j = 0" using bn_iter_first [OF ok j] it by simp
  have st: "(if j = 0 then [] else bn_store L (buf j) prev) = (if j = 0 then [] else bn_st L (j - 1))"
    using bn_store_nat [OF ok, of "j - 1"] Suc.prems(3) j by (cases j) auto
  have IH: "bn_dm L (map (tile_iter L) [Suc j..<bn_n L]) (buf (Suc j)) (buf (Suc j)) (tile_iter L j)
      = map Act (if Suc j = 0 then bn_pre L else [])
        @ concat (map (\<lambda>k. map Act (bn_ld L k) @ Bar # map Act (if k = 0 then [] else bn_st L (k - 1))) [Suc j..<bn_n L])
        @ Bar # map Act (bn_st L (bn_n L - 1))"
    using Suc by (intro Suc.hyps(1)) auto
  have "bn_dm L (map (tile_iter L) [j..<bn_n L]) (buf j) (buf j) prev
    = map Act (if j = 0 then bn_pre L else []) @ map Act (bn_ld L j) @ Bar # map Act (if j = 0 then [] else bn_st L (j - 1))
      @ bn_dm L (map (tile_iter L) [Suc j..<bn_n L]) (buf (Suc j)) (buf (Suc j)) (tile_iter L j)"
    using bn_load_nat [OF ok j] unfolding up list.map(2) it bn_dm.simps first st by (simp add: it bn_weights_nat [OF ok])
  then show ?case unfolding IH by (simp add: up)
qed

lemma bn_core_from:
  assumes ok: "bn_ok L" and c: "c < nP L" and st: "bn_streams_ok hw L ls"
  shows "j \<le> bn_n L \<Longrightarrow> (j = 0 \<Longrightarrow> ssr_ready (l 0) \<and> ssr_ready (l 1) \<and> sh_rep (l 0) = 0 \<and> sh_rep (l 1) = 0) \<Longrightarrow>
      (0 < j \<Longrightarrow> bn_lane L (l 0) \<and> bn_lane L (l 1)) \<Longrightarrow>
    bn_core hw fmadd L (of_nat c) (map (tile_iter L) [j..<bn_n L]) (buf j) (buf j) l
    = Some (concat (map (\<lambda>k. Bar # map Act (bn_cp fmadd L k c)) [j..<bn_n L]) @ [Bar])"
proof (induction "bn_n L - j" arbitrary: j l)
  case (Suc d)
  then have j: "j < bn_n L" and up: "[j..<bn_n L] = j # [Suc j..<bn_n L]" by (auto simp: upt_conv_Cons)
  obtain oh ci where it: "tile_iter L j = (oh, ci)" by (cases "tile_iter L j")
  have first: "oh = cluster_id L \<and> ci = 0 \<longleftrightarrow> j = 0" using bn_iter_first [OF ok j] it by simp
  have "j = 0 \<Longrightarrow> ssr_ready (l 0) \<and> ssr_ready (l 1) \<and> sh_rep (l 0) = 0 \<and> sh_rep (l 1) = 0" "j \<noteq> 0 \<Longrightarrow> bn_lane L (l 0) \<and> bn_lane L (l 1)"
    using Suc.prems(2, 3) by auto
  note K = bn_kernel_nat [OF ok j c st, where su = "j = 0" and l = l and fmadd = fmadd, OF this, unfolded it snd_conv]
  then obtain l' where l': "bn_lane L (l' 0)" "bn_lane L (l' 1)"
    and k: "batchnorm_fp64 hw fmadd (unat (of_nat c :: u32))
       (tcdm L + unat (buf j * bn_map_size L div 2 + of_nat c))
       (bn_gamma L + unat (ci + of_nat c)) (bn_beta L + unat (ci + of_nat c))
       (bn_ofmap L + unat (buf j * bn_map_size L div 2 + of_nat c))
       (OW (lay L)) (TILE_CI (lay L)) (compute_num L) (j = 0) l = Some (bn_cp fmadd L j c, l')" by blast
  have "bn_core hw fmadd L (of_nat c) (map (tile_iter L) [Suc j..<bn_n L]) (buf (Suc j)) (buf (Suc j)) l'
    = Some (concat (map (\<lambda>k. Bar # map Act (bn_cp fmadd L k c)) [Suc j..<bn_n L]) @ [Bar])"
    using Suc l' by (intro Suc.hyps(1)) auto
  then show ?case unfolding up list.map(2) it bn_core.simps first k by simp
qed simp

lemma batchnorm_layer_nat:
  assumes ok: "bn_ok L" and st: "bn_streams_ok hw L ls"
  shows "batchnorm_layer hw fmadd L ls junk = Some (dm_events (bn_n L) (bn_pre L) (bn_ld L) (bn_st L)
    # map (\<lambda>c. core_events (bn_n L) (\<lambda>k. bn_cp fmadd L k c)) [0..<nP L])"
proof -
  have n: "0 < bn_n L" using tile_count_pos [OF bn_okD(1, 2) [OF ok]] by (simp add: bn_n_def)
  have "those (map (\<lambda>c. bn_core hw fmadd L c (map (tile_iter L) [0..<bn_n L]) 0 0 (ls (unat c))) (u32_below (compute_num L)))
      = Some (map (\<lambda>c. core_events (bn_n L) (\<lambda>k. bn_cp fmadd L k c)) [0..<nP L])"
    unfolding u32_below_def map_map comp_def
  proof (rule those_Some)
    fix c assume "c \<in> set [0..<nP L]"
    then have c: "c < nP L" by simp
    have u: "unat (of_nat c :: u32) = c" using c by (intro unat_of_nat_small) (meson less_trans unat_lt_2p)
    have r: "ssr_ready (ls c 0) \<and> ssr_ready (ls c 1) \<and> sh_rep (ls c 0) = 0 \<and> sh_rep (ls c 1) = 0"
      using st c unfolding bn_streams_ok_def by auto
    show "bn_core hw fmadd L (of_nat c) (map (tile_iter L) [0..<bn_n L]) 0 0 (ls (unat (of_nat c :: u32))) = Some (core_events (bn_n L) (\<lambda>k. bn_cp fmadd L k c))"
      using bn_core_from [OF ok c st le0 r, of fmadd] unfolding u by (simp add: core_events_def)
  qed
  moreover have "bn_dm L (map (tile_iter L) [0..<bn_n L]) 0 0 junk = dm_events (bn_n L) (bn_pre L) (bn_ld L) (bn_st L)"
    using bn_dm_from [OF ok, of 0 junk] n by (simp add: dm_events_def dm_block_def)
  moreover have "layer_iters L (OH (lay L)) = Some (map (tile_iter L) [0..<bn_n L])"
    using layer_iters_nat [OF bn_okD(1) [OF ok], of "OH (lay L)"] bn_okD(3) [OF ok] by (simp add: bn_n_def)
  ultimately show ?thesis by (simp add: batchnorm_layer_def)
qed

section \<open>The contract\<close>

definition bn_reg :: "layer_ctx \<Rightarrow> loc \<Rightarrow> region" where
  "bn_reg L x = (case x of R c r \<Rightarrow> RRg c | M a \<Rightarrow>
     let S = nIW L * nT L; o' = bn_bt L + nCI L in
     if tcdm L \<le> a \<and> a < tcdm L + 2 * S then RIb ((a - tcdm L) div S)
     else if bn_gm L \<le> a \<and> a < bn_bt L + nCI L then RCon
     else if o' \<le> a \<and> a < o' + 2 * S then ROb ((a - o') div S) ((a - o') mod S mod nT L mod nP L)
     else if l_ofmap (lay L) \<le> a \<and> a < l_ofmap (lay L) + nOH L * nIW L * nCI L then ROut
     else if l_ifmap (lay L) \<le> a \<and> a < l_ifmap (lay L) + nIH L * nIW L * nCI L \<or> l_gamma (lay L) \<le> a \<and> a < l_gamma (lay L) + nCI L
       \<or> l_beta (lay L) \<le> a \<and> a < l_beta (lay L) + nCI L then RIn else ROther)"

lemma bn_reg_R [simp]: "bn_reg L (R c r) = RRg c"
  by (simp add: bn_reg_def)

lemma bn_reg_ib: "i < nIW L * nT L \<Longrightarrow> bn_reg L (M (bn_ib L k + i)) = RIb (k mod 2)"
  using radix_less [of "k mod 2" 2 i "nIW L * nT L"] by (simp add: bn_reg_def bn_ib_def Let_def radix_digits)

lemma bn_reg_ob:
  assumes "w < nIW L" "j < nT L"
  shows "bn_reg L (M (bn_ob L k + (w * nT L + j))) = ROb (k mod 2) (j mod nP L)"
proof -
  have i: "w * nT L + j < nIW L * nT L" using assms by (rule radix_less)
  have m: "(k mod 2 * (nIW L * nT L) + (w * nT L + j)) mod (nIW L * nT L) = w * nT L + j"
    "(k mod 2 * (nIW L * nT L) + (w * nT L + j)) div (nIW L * nT L) = k mod 2" using i by (simp_all only: radix_digits)
  show ?thesis
    using radix_less [of "k mod 2" 2, OF _ i] m assms(2) by (simp add: bn_reg_def bn_ob_def bn_bt_def bn_gm_def Let_def add.assoc radix_digits)
qed

lemma bn_reg_con: "i < nCI L \<Longrightarrow> bn_reg L (M (bn_gm L + i)) = RCon" "i < nCI L \<Longrightarrow> bn_reg L (M (bn_bt L + i)) = RCon"
  by (simp_all add: bn_reg_def bn_bt_def bn_gm_def Let_def)

text \<open>Addresses outside the cluster memory.\<close>

lemma bn_reg_outside:
  assumes "a < tcdm L \<or> tcdm L + (4 * nIW L * nT L + 2 * nCI L) \<le> a"
  shows "bn_reg L (M a) = (if l_ofmap (lay L) \<le> a \<and> a < l_ofmap (lay L) + nOH L * nIW L * nCI L then ROut
     else if l_ifmap (lay L) \<le> a \<and> a < l_ifmap (lay L) + nIH L * nIW L * nCI L \<or> l_gamma (lay L) \<le> a \<and> a < l_gamma (lay L) + nCI L
       \<or> l_beta (lay L) \<le> a \<and> a < l_beta (lay L) + nCI L then RIn else ROther)"
proof -
  have "\<not> (tcdm L \<le> a \<and> a < tcdm L + 2 * (nIW L * nT L))" "\<not> (bn_gm L \<le> a \<and> a < bn_bt L + nCI L)"
    "\<not> (bn_bt L + nCI L \<le> a \<and> a < bn_bt L + nCI L + 2 * (nIW L * nT L))"
    using assms by (auto simp: bn_bt_def bn_gm_def)
  then show ?thesis by (simp only: bn_reg_def loc.case Let_def if_False)
qed

lemma bn_apart:
  assumes "bn_ok L"
  shows "apart_from (tcdm L) (4 * nIW L * nT L + 2 * nCI L) (l_ifmap (lay L)) (nIH L * nIW L * nCI L)"
    "apart_from (tcdm L) (4 * nIW L * nT L + 2 * nCI L) (l_gamma (lay L)) (nCI L)"
    "apart_from (tcdm L) (4 * nIW L * nT L + 2 * nCI L) (l_beta (lay L)) (nCI L)"
    "apart_from (tcdm L) (4 * nIW L * nT L + 2 * nCI L) (l_ofmap (lay L)) (nOH L * nIW L * nCI L)"
    "apart_from (l_ifmap (lay L)) (nIH L * nIW L * nCI L) (l_ofmap (lay L)) (nOH L * nIW L * nCI L)"
    "apart_from (l_gamma (lay L)) (nCI L) (l_ofmap (lay L)) (nOH L * nIW L * nCI L)"
    "apart_from (l_beta (lay L)) (nCI L) (l_ofmap (lay L)) (nOH L * nIW L * nCI L)"
  using assms by (simp_all only: bn_ok_def)

lemma bn_reg_out: "bn_ok L \<Longrightarrow> i < nOH L * nIW L * nCI L \<Longrightarrow> bn_reg L (M (l_ofmap (lay L) + i)) = ROut"
  using bn_reg_outside [OF apart_fromD(1) [OF bn_apart(4)]] by simp

lemma bn_reg_in:
  assumes "bn_ok L"
  shows "i < nIH L * nIW L * nCI L \<Longrightarrow> bn_reg L (M (l_ifmap (lay L) + i)) = RIn"
    "i < nCI L \<Longrightarrow> bn_reg L (M (l_gamma (lay L) + i)) = RIn" "i < nCI L \<Longrightarrow> bn_reg L (M (l_beta (lay L) + i)) = RIn"
  using bn_reg_outside [OF apart_fromD(1) [OF bn_apart(1) [OF assms]], of i] apart_fromD(2) [OF bn_apart(5) [OF assms], of i]
    bn_reg_outside [OF apart_fromD(1) [OF bn_apart(2) [OF assms]], of i] apart_fromD(2) [OF bn_apart(6) [OF assms], of i]
    bn_reg_outside [OF apart_fromD(1) [OF bn_apart(3) [OF assms]], of i] apart_fromD(2) [OF bn_apart(7) [OF assms], of i]
  by simp_all

lemma bn_ld_targets: "x \<in> targets (bn_ld L k) \<longleftrightarrow> (\<exists>w<nIW L. \<exists>j<nT L. x = M (bn_ib L k + (w * nT L + j)))"
  by (auto simp: bn_ld_def copy_row_targets add.assoc Bex_def)

lemma bn_block_targets:
  "x \<in> targets (bn_block fmadd L k c ch) \<longleftrightarrow> x = R c 1 \<or> x = R c 2 \<or> (\<exists>w<nIW L. x = M (bn_ob L k + (w * nT L + ch)))"
  by (auto simp: bn_block_def)

lemma bn_cp_targets:
  "x \<in> targets (bn_cp fmadd L k c) \<longleftrightarrow>
   (\<exists>m<nT L div nP L. x = R c 1 \<or> x = R c 2 \<or> (\<exists>w<nIW L. x = M (bn_ob L k + (w * nT L + (m * nP L + c)))))"
  by (simp add: bn_cp_def bn_block_targets Bex_def)

lemma bn_st_targets:
  "x \<in> targets (bn_st L k) \<longleftrightarrow> (\<exists>w<nIW L. \<exists>j<nT L. x = M (l_ofmap (lay L) + ((tile_row L k * nIW L + w) * nCI L + (tile_chan L k + j))))"
  by (auto simp: bn_st_def copy_row_targets add.assoc Bex_def)

lemma bn_tile_inj:
  assumes "bn_ok L" "w < nIW L" "w' < nIW L" "j < nT L" "j' < nT L"
    "(tile_row L k * nIW L + w) * nCI L + (tile_chan L k + j) = (tile_row L k' * nIW L + w') * nCI L + (tile_chan L k' + j')"
  shows "k = k' \<and> w = w' \<and> j = j'"
proof -
  note g = bn_okD(1) [OF assms(1)]
  have "tile_row L k * nIW L + w = tile_row L k' * nIW L + w'" "tile_chan L k + j = tile_chan L k' + j'"
    using radix_inj [OF tile_chan_bound [OF g assms(4)] tile_chan_bound [OF g assms(5)] assms(6)] by blast+
  moreover from this(1) have "tile_row L k = tile_row L k'" "w = w'" using radix_inj [OF assms(2, 3)] by blast+
  ultimately show ?thesis using tile_inj [OF g assms(4, 5), of k k'] by simp
qed

lemma bn_block_defined:
  assumes "ch < nT L" "\<And>j. j < nT L \<Longrightarrow> tile_chan L k + j < nCI L"
  shows "defined ({x. bn_reg L x = RCon} \<union> targets (bn_ld L k)) (bn_block fmadd L k c ch)"
proof -
  let ?X = "{x. bn_reg L x = RCon} \<union> targets (bn_ld L k)"
  have B: "defined Y (map (\<lambda>w. Asg (M (bn_ob L k + (w * nT L + ch))) fmadd [M (bn_ib L k + (w * nT L + ch)), R c 1, R c 2]) ws)"
    if "set ws \<subseteq> {..<nIW L}" "?X \<union> {R c 1, R c 2} \<subseteq> Y" for ws Y
    using that
  proof (induction ws arbitrary: Y)
    case (Cons w ws)
    have "M (bn_ib L k + (w * nT L + ch)) \<in> targets (bn_ld L k)" using Cons.prems(1) assms(1) by (auto simp: bn_ld_targets)
    then show ?case using Cons by auto
  qed simp
  have "defined (insert (R c 2) (insert (R c 1) ?X))
      (map (\<lambda>w. Asg (M (bn_ob L k + (w * nT L + ch))) fmadd [M (bn_ib L k + (w * nT L + ch)), R c 1, R c 2]) [0..<nIW L])"
    by (rule B) auto
  then show ?thesis using bn_reg_con assms by (simp add: bn_block_def)
qed

lemma bn_contract:
  assumes ok: "bn_ok L"
  shows "double_buffer (bn_n L) (nP L) (bn_reg L) (bn_pre L) (bn_ld L) (bn_cp fmadd L) (bn_st L)"
proof
  note O = bn_okD [OF ok] grid_okD [OF bn_okD(1) [OF ok]]
  show "0 < bn_n L" using tile_count_pos [OF O(1, 2)] by (simp add: bn_n_def)
  show "bn_reg L x = RCon" if "x \<in> targets (bn_pre L)" for x
    using that bn_reg_con by (auto simp: bn_pre_def copy_row_targets)
  show "defined {x. bn_reg L x = RIn} (bn_pre L)"
    unfolding bn_pre_def defined_append using bn_reg_in(2, 3) [OF ok] by (auto intro!: copy_row_defined)
  fix k assume k: "k < bn_n L"
  note row = tile_row_bound [OF O(1) k [unfolded bn_n_def]]
  show "bn_reg L x = RIb (k mod 2)" if "x \<in> targets (bn_ld L k)" for x
    using that bn_reg_ib [OF radix_less] by (auto simp: bn_ld_targets)
  show "defined {x. bn_reg L x = RIn} (bn_ld L k)"
    unfolding bn_ld_def using bn_reg_in(1) [OF ok bn_row_bound(2) [OF ok row _ tile_chan_bound [OF O(1)]]]
    by (auto intro!: defined_concat copy_row_defined simp: add.assoc)
  show "bn_reg L x = ROb (k mod 2) c \<or> bn_reg L x = RRg c" if "c < nP L" "x \<in> targets (bn_cp fmadd L k c)" for c x
    using that tile_channel [OF O(1)] bn_reg_ob by (auto simp: bn_cp_targets)
  show "defined ({x. bn_reg L x = RCon} \<union> targets (bn_ld L k)) (bn_cp fmadd L k c)" if "c < nP L" for c
    unfolding bn_cp_def using tile_channel [OF O(1) _ that] tile_chan_bound [OF O(1)]
    by (intro defined_concat) (auto intro!: bn_block_defined)
  show "bn_reg L x = ROut" if x: "x \<in> targets (bn_st L k)" for x
  proof -
    obtain w j where "w < nIW L" "j < nT L" "x = M (l_ofmap (lay L) + ((tile_row L k * nIW L + w) * nCI L + (tile_chan L k + j)))"
      using x by (auto simp: bn_st_targets)
    then show ?thesis using bn_reg_out [OF ok bn_row_bound(1) [OF ok row _ tile_chan_bound [OF O(1)]]] by simp
  qed
  have "\<exists>c<nP L. M (bn_ob L k + (w * nT L + j)) \<in> targets (bn_cp fmadd L k c) \<and> bn_reg L (M (bn_ob L k + (w * nT L + j))) = ROb (k mod 2) c"
    if "w < nIW L" "j < nT L" for w j
  proof (intro exI conjI)
    have "j < nT L div nP L * nP L" using that O(23) by simp
    then have "j div nP L < nT L div nP L" by (rule less_mult_imp_div_less)
    then show "M (bn_ob L k + (w * nT L + j)) \<in> targets (bn_cp fmadd L k (j mod nP L))"
      unfolding bn_cp_targets using that by (intro exI [of _ "j div nP L"]) auto
    show "j mod nP L < nP L" using O(12) by simp
    show "bn_reg L (M (bn_ob L k + (w * nT L + j))) = ROb (k mod 2) (j mod nP L)" by (rule bn_reg_ob [OF that])
  qed
  then show "defined {x. \<exists>c<nP L. x \<in> targets (bn_cp fmadd L k c) \<and> bn_reg L x = ROb (k mod 2) c} (bn_st L k)"
    unfolding bn_st_def by (auto intro!: defined_concat copy_row_defined simp: add.assoc)
  show "x \<notin> targets (bn_st L j)" if a: "j < bn_n L" "j \<noteq> k" "x \<in> targets (bn_st L k)" for j x
  proof
    assume "x \<in> targets (bn_st L j)"
    then obtain i i' w w' where i: "w < nIW L" "w' < nIW L" "i < nT L" "i' < nT L"
      "x = M (l_ofmap (lay L) + ((tile_row L k * nIW L + w) * nCI L + (tile_chan L k + i)))"
      "x = M (l_ofmap (lay L) + ((tile_row L j * nIW L + w') * nCI L + (tile_chan L j + i')))"
      using a(3) unfolding bn_st_targets by blast
    then have "(tile_row L k * nIW L + w) * nCI L + (tile_chan L k + i) = (tile_row L j * nIW L + w') * nCI L + (tile_chan L j + i')" by simp
    then show False using bn_tile_inj [OF ok i(1-4)] a(2) by blast
  qed
qed

interpretation bn: buffered_layer bn_ok bn_n nP bn_reg bn_pre bn_ld "bn_cp fmadd" bn_st for fmadd
  by (rule buffered_layer.intro) (rule bn_contract)

section \<open>What a tile computes\<close>

definition batchnorm_at :: "(u64 list \<Rightarrow> u64) \<Rightarrow> layer_ctx \<Rightarrow> store \<Rightarrow> nat \<Rightarrow> nat \<Rightarrow> nat \<Rightarrow> u64" where
  "batchnorm_at fmadd L s row w ch = fmadd [s (M (l_ifmap (lay L) + ((row * nIW L + w) * nCI L + ch))),
     s (M (l_gamma (lay L) + ch)), s (M (l_beta (lay L) + ch))]"

lemma run_bn_block:
  assumes "bn_ok L" "ch < nT L" "w < nIW L" "j < nT L"
  shows "run (bn_block fmadd L k c ch) s (M (bn_ob L k + (w * nT L + j))) =
    (if ch = j then fmadd [s (M (bn_ib L k + (w * nT L + j))), s (M (bn_gm L + (tile_chan L k + j))), s (M (bn_bt L + (tile_chan L k + j)))]
     else s (M (bn_ob L k + (w * nT L + j))))"
proof (cases "ch = j")
  case False
  have "M (bn_ob L k + (w * nT L + j)) \<notin> targets (bn_block fmadd L k c ch)"
    using radix_inj [OF assms(4, 2), of w] False by (auto simp: bn_block_targets)
  then show ?thesis using False by (simp add: run_other)
next
  case True
  let ?g = "s (M (bn_gm L + (tile_chan L k + j)))" and ?b = "s (M (bn_bt L + (tile_chan L k + j)))"
  let ?t = "s(R c 1 := ?g, R c 2 := ?b)"
  let ?is = "map (\<lambda>w. Asg (M (bn_ob L k + (w * nT L + j))) fmadd [M (bn_ib L k + (w * nT L + j)), R c 1, R c 2]) [0..<nIW L]"
  have ne: "bn_ib L k + (v * nT L + j) \<noteq> bn_ob L k + (v' * nT L + j)" if "v < nIW L" for v v'
    using radix_less [of "k mod 2" 2, OF _ radix_less [OF that assms(4)]] by (simp add: bn_ib_def bn_ob_def bn_bt_def bn_gm_def)
  have "run ?is ?t (M (bn_ob L k + (w * nT L + j))) = fmadd [s (M (bn_ib L k + (w * nT L + j))), ?g, ?b]"
  proof (rule run_parallel)
    show "y \<notin> targets ?is" if "b \<in> set ?is" "y \<in> set (sources b)" for b y using that ne ne [THEN not_sym] by auto
    show "operator b (map ?t (sources b)) = fmadd [s (M (bn_ib L k + (w * nT L + j))), ?g, ?b]"
      if "b \<in> set ?is" "target b = M (bn_ob L k + (w * nT L + j))" for b
      using that assms(4) by auto
  qed (use assms(3) in auto)
  then show ?thesis by (simp add: True bn_block_def)
qed

lemma bn_comps_value:
  assumes ok: "bn_ok L" and k: "k < bn_n L" and w: "w < nIW L" and j: "j < nT L"
  shows "run (concat (map (bn_cp fmadd L k) [0..<nP L])) s (M (bn_ob L k + (w * nT L + j)))
    = fmadd [s (M (bn_ib L k + (w * nT L + j))), s (M (bn_gm L + (tile_chan L k + j))), s (M (bn_bt L + (tile_chan L k + j)))]"
proof -
  note O = bn_okD [OF ok] grid_okD [OF bn_okD(1) [OF ok]]
  let ?ps = "\<lambda>cs. concat (map (\<lambda>c. map (\<lambda>m. (c, m * nP L + c)) [0..<nT L div nP L]) cs)"
  let ?B = "\<lambda>(c, ch). bn_block fmadd L k c ch"
  let ?I = "{M (bn_ib L k + (w * nT L + j)), M (bn_gm L + (tile_chan L k + j)), M (bn_bt L + (tile_chan L k + j))}"
  have flat: "concat (map (bn_cp fmadd L k) cs) = concat (map ?B (?ps cs))" for cs
    by (induction cs) (simp_all add: bn_cp_def comp_def)
  have ps: "snd p < nT L" if "p \<in> set (?ps [0..<nP L])" for p using that tile_channel(1) [OF O(1)] by auto
  have "\<exists>p\<in>set (?ps [0..<nP L]). snd p = j"
  proof -
    have "j < nT L div nP L * nP L" using j O(23) by simp
    then have "j div nP L < nT L div nP L" by (rule less_mult_imp_div_less)
    then have "(j mod nP L, j) \<in> (\<lambda>m. (j mod nP L, m * nP L + j mod nP L)) ` {0..<nT L div nP L}"
      by (auto simp: image_iff intro!: bexI [of _ "j div nP L"])
    then have "(j mod nP L, j) \<in> set (?ps [0..<nP L])" using O(12) by auto
    then show ?thesis by force
  qed
  moreover have "run (?B p) t x = t x" if "p \<in> set (?ps [0..<nP L])" "x \<in> ?I" for p t x
  proof -
    have "bn_reg L x = RIb (k mod 2) \<or> bn_reg L x = RCon"
      using that(2) bn_reg_ib [OF radix_less [OF w j]] bn_reg_con [OF tile_chan_bound [OF O(1) j]] by auto
    then have "x \<notin> targets (bn_block fmadd L k (fst p) (snd p))"
      using bn_reg_ob [OF _ ps [OF that(1)]] by (auto simp: bn_block_targets)
    then show ?thesis by (simp add: case_prod_unfold run_other)
  qed
  moreover have "run (?B p) t (M (bn_ob L k + (w * nT L + j))) = (if snd p = j then fmadd [t (M (bn_ib L k + (w * nT L + j))),
      t (M (bn_gm L + (tile_chan L k + j))), t (M (bn_bt L + (tile_chan L k + j)))] else t (M (bn_ob L k + (w * nT L + j))))"
    if "p \<in> set (?ps [0..<nP L])" for p t
    using run_bn_block [OF ok ps [OF that] w j, of fmadd k "fst p" t] by (simp add: case_prod_unfold)
  ultimately show ?thesis unfolding flat
    by (subst run_blocks [where I = ?I and Q = "\<lambda>p. snd p = j" and F = "\<lambda>t. fmadd [t (M (bn_ib L k + (w * nT L + j))),
      t (M (bn_gm L + (tile_chan L k + j))), t (M (bn_bt L + (tile_chan L k + j)))]"]) auto
qed

lemma bn_load_value:
  assumes ok: "bn_ok L" and k: "k < bn_n L" and w: "w < nIW L" and j: "j < nT L"
  shows "run (bn_ld L k) s (M (bn_ib L k + (w * nT L + j))) = s (M (l_ifmap (lay L) + ((tile_row L k * nIW L + w) * nCI L + (tile_chan L k + j))))"
proof (rule run_parallel)
  note db = bn_contract [OF ok]
  have el: "\<exists>v<nIW L. \<exists>i<nT L. b = Asg (M (bn_ib L k + (v * nT L + i))) hd [M (l_ifmap (lay L) + ((tile_row L k * nIW L + v) * nCI L + (tile_chan L k + i)))]"
    if b: "b \<in> set (bn_ld L k)" for b
  proof -
    obtain v i where "v < nIW L" "i < nT L" "b = Asg (M (bn_ib L k + v * nT L + i)) hd
        [M (l_ifmap (lay L) + ((tile_row L k * nIW L + v) * nCI L + tile_chan L k) + i)]"
      using b by (auto simp: bn_ld_def copy_row_def)
    then show ?thesis by (intro exI [of _ v] exI [of _ i] conjI) (simp_all add: add.assoc)
  qed
  show "y \<notin> targets (bn_ld L k)" if a: "b \<in> set (bn_ld L k)" "y \<in> set (sources b)" for b y
  proof -
    obtain v i where "v < nIW L" "i < nT L" "y = M (l_ifmap (lay L) + ((tile_row L k * nIW L + v) * nCI L + (tile_chan L k + i)))"
      using el [OF a(1)] a(2) by auto
    then have "bn_reg L y = RIn"
      using bn_reg_in(1) [OF ok bn_row_bound(2) [OF ok tile_row_bound [OF bn_okD(1) [OF ok] k [unfolded bn_n_def]] _ tile_chan_bound [OF bn_okD(1) [OF ok]]]] by simp
    then show ?thesis using double_buffer.ld_target [OF db k] by fastforce
  qed
  show "operator b (map s (sources b)) = s (M (l_ifmap (lay L) + ((tile_row L k * nIW L + w) * nCI L + (tile_chan L k + j))))"
    if a: "b \<in> set (bn_ld L k)" "target b = M (bn_ib L k + (w * nT L + j))" for b
  proof -
    obtain v i where b: "v < nIW L" "i < nT L"
      "b = Asg (M (bn_ib L k + (v * nT L + i))) hd [M (l_ifmap (lay L) + ((tile_row L k * nIW L + v) * nCI L + (tile_chan L k + i)))]"
      using el [OF a(1)] by blast
    then have "v = w" "i = j" using radix_inj [OF b(2) j, of v w] a(2) by auto
    then show ?thesis by (simp add: b(3))
  qed
  show "M (bn_ib L k + (w * nT L + j)) \<in> targets (bn_ld L k)" using w j by (auto simp: bn_ld_targets)
qed

lemma bn_pre_value:
  assumes ok: "bn_ok L" and c: "ch < nCI L"
  shows "run (bn_pre L) s (M (bn_gm L + ch)) = s (M (l_gamma (lay L) + ch))" "run (bn_pre L) s (M (bn_bt L + ch)) = s (M (l_beta (lay L) + ch))"
proof -
  have ne: "l_gamma (lay L) + i \<noteq> bn_gm L + j" "l_beta (lay L) + i \<noteq> bn_bt L + j" "l_beta (lay L) + i \<noteq> bn_gm L + j" if "i < nCI L" "j < nCI L" for i j
    using bn_reg_in(2, 3) [OF ok that(1)] bn_reg_con [OF that(2)] by (metis region.distinct(1))+
  have "run (copy_row (bn_bt L) (l_beta (lay L)) (nCI L)) t (M (bn_gm L + ch)) = t (M (bn_gm L + ch))" for t
    using c by (intro run_other) (auto simp: copy_row_targets bn_bt_def)
  then show "run (bn_pre L) s (M (bn_gm L + ch)) = s (M (l_gamma (lay L) + ch))"
    using c by (simp add: bn_pre_def run_copy_row ne)
  have "run (copy_row (bn_gm L) (l_gamma (lay L)) (nCI L)) s (M (l_beta (lay L) + ch)) = s (M (l_beta (lay L) + ch))"
    using c by (intro run_other) (auto simp: copy_row_targets ne)
  then show "run (bn_pre L) s (M (bn_bt L + ch)) = s (M (l_beta (lay L) + ch))"
    using c by (simp add: bn_pre_def run_copy_row ne)
qed

lemma bn_tile_value:
  assumes ok: "bn_ok L" and k: "k < bn_n L" and w: "w < nIW L" and j: "j < nT L"
  shows "bn.tile_alone fmadd L k s (M (l_ofmap (lay L) + ((tile_row L k * nIW L + w) * nCI L + (tile_chan L k + j))))
    = batchnorm_at fmadd L s (tile_row L k) w (tile_chan L k + j)"
proof -
  note db = bn_contract [OF ok] and g = bn_okD(1) [OF ok]
  let ?p = "run (bn_pre L) s" and ?t = "run (concat (map (bn_cp fmadd L k) [0..<nP L])) (run (bn_ld L k) (run (bn_pre L) s))"
  let ?y = "\<lambda>v i. M (l_ofmap (lay L) + ((tile_row L k * nIW L + v) * nCI L + (tile_chan L k + i)))"
  have el: "\<exists>v<nIW L. \<exists>i<nT L. b = Asg (?y v i) hd [M (bn_ob L k + (v * nT L + i))]" if b: "b \<in> set (bn_st L k)" for b
  proof -
    obtain v i where "v < nIW L" "i < nT L" "b = Asg (M (l_ofmap (lay L) + ((tile_row L k * nIW L + v) * nCI L + tile_chan L k) + i)) hd
        [M (bn_ob L k + v * nT L + i)]"
      using b by (auto simp: bn_st_def copy_row_def)
    then show ?thesis by (intro exI [of _ v] exI [of _ i] conjI) (simp_all add: add.assoc)
  qed
  have "run (bn_st L k) ?t (?y w j) = ?t (M (bn_ob L k + (w * nT L + j)))"
  proof (rule run_parallel)
    show "y \<notin> targets (bn_st L k)" if a: "b \<in> set (bn_st L k)" "y \<in> set (sources b)" for b y
    proof -
      obtain v i where "v < nIW L" "i < nT L" "y = M (bn_ob L k + (v * nT L + i))" using el [OF a(1)] a(2) by auto
      then show ?thesis using bn_reg_ob double_buffer.st_target [OF db k, of y] by auto
    qed
    show "operator b (map ?t (sources b)) = ?t (M (bn_ob L k + (w * nT L + j)))" if a: "b \<in> set (bn_st L k)" "target b = ?y w j" for b
    proof -
      obtain v i where b: "v < nIW L" "i < nT L" "b = Asg (?y v i) hd [M (bn_ob L k + (v * nT L + i))]" using el [OF a(1)] by blast
      then have "v = w" "i = j" using bn_tile_inj [OF ok b(1) w b(2) j, of k k] a(2) by auto
      then show ?thesis by (simp add: b(3))
    qed
    show "?y w j \<in> targets (bn_st L k)" using w j by (auto simp: bn_st_targets)
  qed
  also have "\<dots> = fmadd [run (bn_ld L k) ?p (M (bn_ib L k + (w * nT L + j))), run (bn_ld L k) ?p (M (bn_gm L + (tile_chan L k + j))),
      run (bn_ld L k) ?p (M (bn_bt L + (tile_chan L k + j)))]"
    by (rule bn_comps_value [OF ok k w j])
  also have "\<dots> = fmadd [?p (M (l_ifmap (lay L) + ((tile_row L k * nIW L + w) * nCI L + (tile_chan L k + j)))),
      ?p (M (bn_gm L + (tile_chan L k + j))), ?p (M (bn_bt L + (tile_chan L k + j)))]"
  proof -
    have "run (bn_ld L k) ?p x = ?p x" if "bn_reg L x = RCon" for x
      using that double_buffer.ld_target [OF db k, of x] by (auto intro: run_other)
    then show ?thesis using bn_load_value [OF ok k w j] bn_reg_con [OF tile_chan_bound [OF g j]] by simp
  qed
  also have "\<dots> = batchnorm_at fmadd L s (tile_row L k) w (tile_chan L k + j)"
  proof -
    have "bn_reg L (M (l_ifmap (lay L) + ((tile_row L k * nIW L + w) * nCI L + (tile_chan L k + j)))) = RIn"
      by (rule bn_reg_in(1) [OF ok bn_row_bound(2) [OF ok tile_row_bound [OF g k [unfolded bn_n_def]] w tile_chan_bound [OF g j]]])
    then have "?p (M (l_ifmap (lay L) + ((tile_row L k * nIW L + w) * nCI L + (tile_chan L k + j))))
        = s (M (l_ifmap (lay L) + ((tile_row L k * nIW L + w) * nCI L + (tile_chan L k + j))))"
      using double_buffer.pre_target [OF db] by (auto intro: run_other)
    then show ?thesis using bn_pre_value [OF ok tile_chan_bound [OF g j]] by (simp add: batchnorm_at_def)
  qed
  finally show ?thesis by (simp add: bn.tile_alone_def)
qed

text \<open>
  C7: Every interleaving of the cores of a cluster that runs the batch normalisation layer on an
  admissible layer is bounded and never stuck, and it ends with the affine image of the input
  under the scale and offset of its channel in every output element of the rows of the cluster,
  and every other output element unchanged. The streams are set up for the first tile only and serve all of them.
\<close>

theorem batchnorm_layer_correct:
  assumes ok: "bn_ok L" and st: "bn_streams_ok hw L ls"
  shows "\<exists>ts. batchnorm_layer hw fmadd L ls junk = Some ts \<and> (\<forall>n x. (cstep ^^ n) (s, ts) x \<longrightarrow>
    n \<le> events ts \<and> (final x \<or> (\<exists>y. cstep x y)) \<and>
    (final x \<longrightarrow> (\<forall>row<nOH L. \<forall>w<nIW L. \<forall>ch<nCI L. fst x (M (l_ofmap (lay L) + ((row * nIW L + w) * nCI L + ch)))
       = (if row mod nN L = nid L then batchnorm_at fmadd L s row w ch else s (M (l_ofmap (lay L) + ((row * nIW L + w) * nCI L + ch)))))))"
proof (intro exI conjI allI impI)
  note g = bn_okD(1) [OF ok]
  show "batchnorm_layer hw fmadd L ls junk = Some (bn.cores fmadd L)" by (simp add: batchnorm_layer_nat [OF ok st] bn.cores_def)
  fix n x assume r: "(cstep ^^ n) (s, bn.cores fmadd L) x"
  note runs = bn.layer_runs [OF ok r]
  show "n \<le> events (bn.cores fmadd L)" "final x \<or> (\<exists>y. cstep x y)" by (fact runs)+
  fix row w ch assume f: "final x" and p: "row < nOH L" and w: "w < nIW L" and c: "ch < nCI L"
  let ?y = "M (l_ofmap (lay L) + ((row * nIW L + w) * nCI L + ch))"
  show "fst x ?y = (if row mod nN L = nid L then batchnorm_at fmadd L s row w ch else s ?y)"
  proof (cases "row mod nN L = nid L")
    case True
    obtain k j where kj: "k < bn_n L" "j < nT L" "row = tile_row L k" "ch = tile_chan L k + j"
      by (rule tile_of [OF g p True c, folded bn_n_def])
    have "fst x ?y = bn.tile_alone fmadd L k s ?y"
      using kj(2) w by (intro runs(3) [OF f kj(1)]) (auto simp: bn_st_targets kj(3, 4))
    then show ?thesis using True bn_tile_value [OF ok kj(1) w kj(2), of fmadd s] by (simp add: kj(3, 4))
  next
    case False
    have "?y \<notin> targets (bn_st L k)" for k
    proof
      assume "?y \<in> targets (bn_st L k)"
      then obtain v j where v: "v < nIW L" "j < nT L" "(row * nIW L + w) * nCI L + ch = (tile_row L k * nIW L + v) * nCI L + (tile_chan L k + j)"
        by (auto simp: bn_st_targets)
      then have "row * nIW L + w = tile_row L k * nIW L + v" using radix_inj [OF c tile_chan_bound [OF g]] by blast
      then have "row = tile_row L k" using radix_inj [OF w v(1)] by blast
      then show False using False tile_row_mod [OF g] by simp
    qed
    then show ?thesis using runs(4) [OF f] bn_reg_out [OF ok bn_row_bound(1) [OF ok p w c]] False by simp
  qed
qed

definition demo_bn :: layer_ctx where
  "demo_bn = \<lparr> lay = \<lparr> CO = 2, CI = 2, IH = 3, IW = 2, OH = 3, OW = 2, FH = 1, FW = 1, pad = 0, l_ifmap = 100, l_weights = 0,
     l_ofmap = 200, TILE_CI = 1, cluster2cluster = 0, im2col_flag = 0, l_gamma = 120, l_beta = 130, dtype = FP64 \<rparr>,
     tcdm = 0, cluster_num = 2, cluster_id = 0, compute_num = 1 \<rparr>"

lemma demo_bn_ok: "bn_ok demo_bn" "bn_streams_ok demo_hw demo_bn (\<lambda>_. demo_ssr)"
  by (simp_all add: bn_ok_def grid_ok_def demo_bn_def apart_from_def bn_streams_ok_def demo_hw_def fits_def demo_ready)
    (simp_all add: demo_ssr_def)

theorem batchnorm_layer_correct_witness:
  "\<exists>ts n x. batchnorm_layer demo_hw (\<lambda>v. v ! 0 * v ! 1 + v ! 2) demo_bn (\<lambda>_. demo_ssr) (7, 7) = Some ts
     \<and> (cstep ^^ n) (case_loc of_nat (\<lambda>_ _. 0), ts) x \<and> final x
     \<and> map (\<lambda>i. fst x (M (200 + i))) [0, 3, 4, 11] = [100 * 120 + 130, 103 * 121 + 131, 204, 111 * 121 + 131]"
proof -
  let ?s = "case_loc of_nat (\<lambda>_ _. 0) :: store" and ?f = "(\<lambda>v. v ! 0 * v ! 1 + v ! 2) :: u64 list \<Rightarrow> u64"
  obtain ts where ts: "batchnorm_layer demo_hw ?f demo_bn (\<lambda>_. demo_ssr) (7, 7) = Some ts"
    and runs: "\<forall>n x. (cstep ^^ n) (?s, ts) x \<longrightarrow> n \<le> events ts \<and> (final x \<or> (\<exists>y. cstep x y)) \<and>
    (final x \<longrightarrow> (\<forall>row<nOH demo_bn. \<forall>w<nIW demo_bn. \<forall>ch<nCI demo_bn. fst x (M (l_ofmap (lay demo_bn) + ((row * nIW demo_bn + w) * nCI demo_bn + ch)))
       = (if row mod nN demo_bn = nid demo_bn then batchnorm_at ?f demo_bn ?s row w ch
          else ?s (M (l_ofmap (lay demo_bn) + ((row * nIW demo_bn + w) * nCI demo_bn + ch))))))"
    using batchnorm_layer_correct [OF demo_bn_ok, of ?f "(7, 7)" ?s] by blast
  obtain n x where x: "(cstep ^^ n) (?s, ts) x" "final x"
    using bounded_reaches [of cstep "(?s, ts)" "events ts" final] runs by blast
  have v: "fst x (M (200 + ((row * 2 + w) * 2 + ch))) = (if row mod 2 = 0 then batchnorm_at ?f demo_bn ?s row w ch
      else ?s (M (200 + ((row * 2 + w) * 2 + ch))))" if "row < 3" "w < 2" "ch < 2" for row w ch
    using runs [THEN spec [of _ n], THEN spec [of _ x]] x that by (simp add: demo_bn_def)
  have "batchnorm_at ?f demo_bn ?s 0 0 0 = 100 * 120 + 130" "batchnorm_at ?f demo_bn ?s 0 1 1 = 103 * 121 + 131"
    "batchnorm_at ?f demo_bn ?s 2 1 1 = 111 * 121 + 131"
    by (simp_all add: batchnorm_at_def demo_bn_def)
  then have "map (\<lambda>i. fst x (M (200 + i))) [0, 3, 4, 11] = [100 * 120 + 130, 103 * 121 + 131, 204, 111 * 121 + 131]"
    using v [of 0 0 0] v [of 0 1 1] v [of 1 0 0] v [of 2 1 1] by simp
  then show ?thesis using ts x by (intro exI [of _ ts] exI [of _ n] exI [of _ x] conjI)
qed

end
