(* ===== verification/Conv2d_Layer.thy ===== *)
theory Conv2d_Layer
  imports Tiling Gemm
begin

text \<open>
  The convolution layer \<open>layers/conv2d_layer.c\<close>: blocks of eight output channels and
  \<open>TILE_CI\<close> input channels, each a pipeline over the tiles of eight pixels of an output row. The data mover
  core loads a padded strip of the input, has the DMA engine rearrange it into one row per
  compute core (\<open>im2col\<close>), and each compute core multiplies its row by the weights with
  \<open>gemm_fp64_opt\<close>. Modelled is the layer without communication between clusters
  (\<open>cluster2cluster\<close> is zero); the fused multiply-add is the parameter \<open>fmadd\<close>.
\<close>

section \<open>Buffers\<close>

text \<open>The macro \<open>min\<close>.\<close>

definition cmin :: "u32 \<Rightarrow> u32 \<Rightarrow> u32" where
  "cmin a b = (if a < b then a else b)"

definition im2col_row_stride :: "layer_ctx \<Rightarrow> u32" where
  "im2col_row_stride L = FW (lay L) * FH (lay L) * TILE_CI (lay L) + 1"

definition im2col_mat_stride :: "layer_ctx \<Rightarrow> u32" where
  "im2col_mat_stride L = im2col_row_stride L * compute_num L"

definition ifmap_row_stride :: "layer_ctx \<Rightarrow> u32" where
  "ifmap_row_stride L = TILE_CI (lay L) * (compute_num L + FW (lay L) - 1)"

definition ifmap_stride :: "layer_ctx \<Rightarrow> u32" where
  "ifmap_stride L = ifmap_row_stride L * FH (lay L)"

definition weights_co_stride :: "layer_ctx \<Rightarrow> u32" where
  "weights_co_stride L = FH (lay L) * FW (lay L) * TILE_CI (lay L) + 1"

definition ofmap_stride :: "layer_ctx \<Rightarrow> u32" where
  "ofmap_stride L = compute_num L * 8"

text \<open>The pointers into the cluster memory; \<open>im2col\<close> is its start.\<close>

definition cv_ifmap :: "layer_ctx \<Rightarrow> nat" where
  "cv_ifmap L = tcdm L + unat (2 * im2col_mat_stride L)"

definition cv_weights :: "layer_ctx \<Rightarrow> nat" where
  "cv_weights L = cv_ifmap L + unat (2 * ifmap_stride L)"

definition cv_ofmap :: "layer_ctx \<Rightarrow> nat" where
  "cv_ofmap L = cv_weights L + unat (compute_num L * weights_co_stride L)"

section \<open>The data mover core\<close>

definition conv_weights :: "layer_ctx \<Rightarrow> u32 \<Rightarrow> u32 \<Rightarrow> instr list" where
  "conv_weights L co ci = (let l = lay L in concat (map (\<lambda>co'.
     if TILE_CI l = CI l
     then dma_1d (cv_weights L + unat (co' * weights_co_stride L)) (l_weights l + unat ((co + co') * FH l * FW l * CI l))
            (8 * CI l * FH l * FW l)
     else dma_2d (cv_weights L + unat (co' * weights_co_stride L)) (l_weights l + unat ((co + co') * FH l * FW l * CI l + ci))
            (8 * TILE_CI l) (8 * TILE_CI l) (8 * CI l) (FH l * FW l)) (u32_below 8)))"

definition cluster_per_quadrant :: "layer_ctx \<Rightarrow> u32" where
  "cluster_per_quadrant L = cmin 4 (cluster_num L)"

text \<open>The row of the output that iteration \<open>oh'\<close> works on.\<close>

definition conv_oh :: "layer_ctx \<Rightarrow> u32 \<Rightarrow> u32" where
  "conv_oh L oh' = (cluster_per_quadrant L - 1 - cluster_id L mod cluster_per_quadrant L + oh') mod OH (lay L)"

text \<open>Intermediate outputs, or zeroes before the first input channels.\<close>

definition conv_load_ofmap :: "layer_ctx \<Rightarrow> u32 \<Rightarrow> u32 \<Rightarrow> u32 \<Rightarrow> u32 \<Rightarrow> u32 \<Rightarrow> instr list" where
  "conv_load_ofmap L write_buf co ci oh ow = (let l = lay L; n_ofmap_pixel_read = cmin (compute_num L) (OW l - ow) in
     if ci \<noteq> 0
     then dma_2d (cv_ofmap L + unat (write_buf * ofmap_stride L)) (l_ofmap l + unat ((oh * OW l + ow) * CO l + co))
            (8 * 8) (8 * 8) (8 * CO l) n_ofmap_pixel_read
     else dma_zero (cv_ofmap L + unat (write_buf * ofmap_stride L)) (8 * 8 * n_ofmap_pixel_read))"

text \<open>One line of the strip, padded with zeroes.\<close>

definition conv_load_line :: "layer_ctx \<Rightarrow> u32 \<Rightarrow> u32 \<Rightarrow> u32 \<Rightarrow> u32 \<Rightarrow> u32 \<Rightarrow> instr list" where
  "conv_load_line L write_buf ci oh ow fh = (let l = lay L;
       n_ifmap_pixel_read = cmin (compute_num L + FW l - 1) (IW l - ow + push_bit 1 (pad l));
       line = write_buf * ifmap_stride L + fh * ifmap_row_stride L in
     if oh + fh < pad l \<or> IH l + drop_bit 1 (FH l - 1) \<le> oh + fh
     then dma_zero (cv_ifmap L + unat line) (8 * TILE_CI l * n_ifmap_pixel_read)
     else let padding_left = (if ow < pad l then pad l - ow else 0);
              padding_right = (if ow + compute_num L + pad l \<le> OW l then 0
                else n_ifmap_pixel_read - drop_bit 1 (FW l - 1) - (IW l - ow))
       in (if padding_left \<noteq> 0 \<or> padding_right \<noteq> 0
             then dma_zero (cv_ifmap L + unat line) (8 * (compute_num L + FW l - 1) * TILE_CI l) else [])
          @ dma_2d (cv_ifmap L + unat (line + padding_left * TILE_CI l))
              (l_ifmap l + unat (((oh + fh - pad l) * IW l + ow - (pad l - padding_left)) * CI l + ci))
              (8 * TILE_CI l) (8 * TILE_CI l) (8 * CI l) (n_ifmap_pixel_read - padding_left - padding_right))"

definition conv_load_ifmap :: "layer_ctx \<Rightarrow> u32 \<Rightarrow> u32 \<Rightarrow> u32 \<Rightarrow> u32 \<Rightarrow> instr list" where
  "conv_load_ifmap L write_buf ci oh ow = concat (map (conv_load_line L write_buf ci oh ow) (u32_below (FH (lay L))))"

text \<open>One row of the matrix per compute core that has a pixel.\<close>

definition conv_im2col :: "layer_ctx \<Rightarrow> u32 \<Rightarrow> u32 \<Rightarrow> u32 \<Rightarrow> instr list" where
  "conv_im2col L write_buf read_buf ow = (let l = lay L in concat (map (\<lambda>n.
     if ow + n < OW l
     then dma_2d (tcdm L + unat (write_buf * im2col_mat_stride L + n * im2col_row_stride L))
            (cv_ifmap L + unat (read_buf * ifmap_stride L + n * TILE_CI l))
            (8 * FW l * TILE_CI l) (8 * FW l * TILE_CI l) (8 * (compute_num L + FW l - 1) * TILE_CI l) (FH l)
     else []) (u32_below (compute_num L))))"

definition conv_store :: "layer_ctx \<Rightarrow> u32 \<Rightarrow> u32 \<Rightarrow> u32 \<times> u32 \<Rightarrow> instr list" where
  "conv_store L read_buf co prev = (let l = lay L; (oh_prev, ow_prev) = prev in
     dma_2d (l_ofmap l + unat ((oh_prev * OW l + ow_prev) * CO l + co)) (cv_ofmap L + unat (lnot read_buf * ofmap_stride L))
       (8 * 8) (8 * CO l) (8 * 8) (cmin (compute_num L) (OW l - ow_prev)))"

text \<open>
  The tiles of one block, as pairs of \<open>ow\<close> and \<open>_oh\<close>, and the blocks, as pairs of \<open>co\<close> and \<open>ci\<close>. The
  state is \<open>read_buf\<close>, \<open>write_buf\<close> and the signed \<open>oh_prev\<close> and \<open>ow_prev\<close>, which outlive a block.
\<close>

type_synonym conv_dm_state = "u32 \<times> u32 \<times> u32 \<times> u32"

fun conv_dm_tiles :: "layer_ctx \<Rightarrow> u32 \<Rightarrow> u32 \<Rightarrow> (u32 \<times> u32) list \<Rightarrow> conv_dm_state \<Rightarrow> ev list \<times> conv_dm_state" where
  "conv_dm_tiles L co ci [] st = ([], st)"
| "conv_dm_tiles L co ci ((ow, oh') # ts) (read_buf, write_buf, oh_prev, ow_prev) = (
     let oh = conv_oh L oh';
         (es, st) = conv_dm_tiles L co ci ts (lnot read_buf, lnot write_buf, oh, ow)
     in (map Act (conv_load_ofmap L write_buf co ci oh ow @ conv_load_ifmap L write_buf ci oh ow @ conv_im2col L write_buf read_buf ow)
         @ Bar # map Act (if 0 <=s oh_prev + ow_prev then conv_store L read_buf co (oh_prev, ow_prev) else []) @ es, st))"

fun conv_dm :: "layer_ctx \<Rightarrow> (u32 \<times> u32) list \<Rightarrow> (u32 \<times> u32) list \<Rightarrow> conv_dm_state \<Rightarrow> ev list" where
  "conv_dm L ts [] st = []"
| "conv_dm L ts ((co, ci) # bs) st = (
     let (es, read_buf, write_buf, prev) = conv_dm_tiles L co ci ts st
     in map Act (conv_weights L co ci) @ es @ Bar # map Act (conv_store L read_buf co prev)
        @ conv_dm L ts bs (read_buf, write_buf, prev))"

section \<open>The compute cores\<close>

text \<open>
  The call \<open>gemm_fp64_opt(1, 8, K, A, 0, 0, B, ldB, 1, C, 0, alpha, setup_SSR)\<close> of core \<open>c\<close> as its
  memory accesses and register assignments, with the state of its data movers afterwards.
  \<open>Conv2d_Result\<close> proves that it leaves the memory that the model of \<open>gemm_fp64_opt\<close> in \<open>Gemm\<close> leaves.
\<close>

definition conv_gemm :: "ssr_hw \<Rightarrow> (u64 list \<Rightarrow> u64) \<Rightarrow> nat \<Rightarrow> u32 \<Rightarrow> nat \<Rightarrow> nat \<Rightarrow> u32 \<Rightarrow> nat \<Rightarrow> u32 \<Rightarrow> bool \<Rightarrow> ssrs \<Rightarrow> instr list \<times> ssrs" where
  "conv_gemm hw fmadd c K A B ldB C alpha setup_SSR l = (
     let l = (if setup_SSR then gemm_fp64_setup hw 1 8 K 0 0 ldB 1 l else l);
         l = snrt_ssr_read hw 0 3 (ptr32 A) l;
         l = snrt_ssr_read hw 1 3 (ptr32 B) l;
         n = Suc (unat (take_bit 16 (K - 1)))
     in (map (\<lambda>i. if alpha \<noteq> 0 then Asg (R c (acc i)) hd [M (C + i)] else Asg (R c (acc i)) (\<lambda>_. 0) []) [0..<8]
         @ concat (map (\<lambda>k. map (\<lambda>i. Asg (R c (acc i)) fmadd
             [cell_at (lane_addr (l 0) (8 * k + i)), cell_at (lane_addr (l 1) (8 * k + i)), R c (acc i)]) [0..<8]) [0..<n])
         @ map (\<lambda>i. Asg (M (C + i)) hd [R c (acc i)]) [0..<8],
         l(0 := lane_after (8 * n) (l 0), 1 := lane_after (8 * n) (l 1))))"

fun conv_core_tiles :: "ssr_hw \<Rightarrow> (u64 list \<Rightarrow> u64) \<Rightarrow> layer_ctx \<Rightarrow> u32 \<Rightarrow> u32 \<Rightarrow> (u32 \<times> u32) list \<Rightarrow> u32 \<times> u32 \<times> ssrs
    \<Rightarrow> ev list \<times> u32 \<times> u32 \<times> ssrs" where
  "conv_core_tiles hw fmadd L compute_id ci [] st = ([], st)"
| "conv_core_tiles hw fmadd L compute_id ci ((ow, oh') # ts) (read_buf, write_buf, l) = (
     let (is, l) = (if ow + compute_id < OW (lay L)
           then conv_gemm hw fmadd (unat compute_id) (FH (lay L) * FW (lay L) * TILE_CI (lay L))
             (tcdm L + unat (read_buf * im2col_mat_stride L + compute_id * im2col_row_stride L)) (cv_weights L)
             (FH (lay L) * FW (lay L) * TILE_CI (lay L) + 1)
             (cv_ofmap L + unat (write_buf * ofmap_stride L + compute_id * 8))
             (if ci \<noteq> 0 \<and> TILE_CI (lay L) \<noteq> CI (lay L) then 0 else 1) (ci = 0 \<and> ow = 0 \<and> oh' = 0) l
           else ([], l));
         (es, st) = conv_core_tiles hw fmadd L compute_id ci ts (lnot read_buf, lnot write_buf, l)
     in (Bar # map Act is @ es, st))"

fun conv_core :: "ssr_hw \<Rightarrow> (u64 list \<Rightarrow> u64) \<Rightarrow> layer_ctx \<Rightarrow> u32 \<Rightarrow> (u32 \<times> u32) list \<Rightarrow> (u32 \<times> u32) list \<Rightarrow> u32 \<times> u32 \<times> ssrs \<Rightarrow> ev list" where
  "conv_core hw fmadd L compute_id ts [] st = []"
| "conv_core hw fmadd L compute_id ts ((co, ci) # bs) st = (
     let (es, st) = conv_core_tiles hw fmadd L compute_id ci ts st
     in es @ Bar # conv_core hw fmadd L compute_id ts bs st)"

section \<open>The layer\<close>

definition conv_blocks :: "layer_ctx \<Rightarrow> (u32 \<times> u32) list option" where
  "conv_blocks L = do {
     cos \<leftarrow> for_range (cluster_id L * compute_num L) (CO (lay L)) (cluster_num L * compute_num L);
     rows \<leftarrow> those (map (\<lambda>co. map_option (map (Pair co)) (for_range 0 (CI (lay L)) (TILE_CI (lay L)))) cos);
     Some (concat rows) }"

definition conv_tiles :: "layer_ctx \<Rightarrow> (u32 \<times> u32) list option" where
  "conv_tiles L = do {
     ows \<leftarrow> for_range 0 (OW (lay L)) (compute_num L);
     Some (concat (map (\<lambda>ow. map (Pair ow) (u32_below (OH (lay L)))) ows)) }"

definition conv2d_layer :: "ssr_hw \<Rightarrow> (u64 list \<Rightarrow> u64) \<Rightarrow> layer_ctx \<Rightarrow> (nat \<Rightarrow> ssrs) \<Rightarrow> ev list list option" where
  "conv2d_layer hw fmadd L ls = (if cluster2cluster (lay L) \<noteq> 0 then None else do {
     bs \<leftarrow> conv_blocks L;
     ts \<leftarrow> conv_tiles L;
     Some (conv_dm L ts bs (0, 0, - 1, - 1) # map (\<lambda>c. conv_core hw fmadd L c ts bs (0, 0, ls (unat c))) (u32_below (compute_num L))) })"

section \<open>Admissible layers\<close>

abbreviation "nCO L \<equiv> unat (CO (lay L))"
abbreviation "npad L \<equiv> unat (pad (lay L))"

definition nK :: "layer_ctx \<Rightarrow> nat" where
  "nK L = nFH L * nFW L * nT L"

definition nW :: "layer_ctx \<Rightarrow> nat" where
  "nW L = 8 + 2 * npad L"

text \<open>The doubles of a strip, and those the layer uses of the cluster memory.\<close>

definition nS :: "layer_ctx \<Rightarrow> nat" where
  "nS L = nFH L * (nW L * nT L)"


definition cv_total :: "layer_ctx \<Rightarrow> nat" where
  "cv_total L = 24 * (nK L + 1) + 2 * nS L + 128"

text \<open>
  A square filter of odd size, an output as large as the input, eight compute cores, channels in groups of
  eight; sizes below \<open>2 ^ 32\<close>; and buffers, inputs and output do not overlap.
\<close>

definition cv_ok :: "layer_ctx \<Rightarrow> bool" where
  "cv_ok L \<longleftrightarrow> cluster2cluster (lay L) = 0 \<and> nP L = 8 \<and> nid L < nN L
     \<and> nFH L = 2 * npad L + 1 \<and> FW (lay L) = FH (lay L) \<and> OH (lay L) = IH (lay L) \<and> OW (lay L) = IW (lay L) \<and> 0 < nIH L \<and> 0 < nIW L
     \<and> 8 dvd nT L \<and> 0 < nT L \<and> nT L dvd nCI L \<and> 0 < nCI L \<and> 8 dvd nCO L
     \<and> nIH L + nIW L + 4 * nFH L + 32 < 2 ^ 31 \<and> nCO L + nN L * 8 < 2 ^ 32 \<and> 8 * nCO L < 2 ^ 32 \<and> 8 * nCI L < 2 ^ 32
     \<and> nIH L * nIW L * nCI L < 2 ^ 32 \<and> nIH L * nIW L * nCO L < 2 ^ 32 \<and> nCO L * (nFH L * nFW L) * nCI L < 2 ^ 32
     \<and> 8 * (nFH L * nFW L * nCI L) < 2 ^ 32 \<and> 8 * (tcdm L + cv_total L) < 2 ^ 32 \<and> nK L \<le> 2 ^ 16
     \<and> apart_from (tcdm L) (cv_total L) (l_ifmap (lay L)) (nIH L * nIW L * nCI L)
     \<and> apart_from (tcdm L) (cv_total L) (l_weights (lay L)) (nCO L * (nFH L * nFW L) * nCI L)
     \<and> apart_from (tcdm L) (cv_total L) (l_ofmap (lay L)) (nIH L * nIW L * nCO L)
     \<and> apart_from (l_ifmap (lay L)) (nIH L * nIW L * nCI L) (l_ofmap (lay L)) (nIH L * nIW L * nCO L)
     \<and> apart_from (l_weights (lay L)) (nCO L * (nFH L * nFW L) * nCI L) (l_ofmap (lay L)) (nIH L * nIW L * nCO L)"

text \<open>The data movers of the cores are idle and fit the shape of the product.\<close>

definition cv_streams_ok :: "ssr_hw \<Rightarrow> layer_ctx \<Rightarrow> (nat \<Rightarrow> ssrs) \<Rightarrow> bool" where
  "cv_streams_ok hw L ls \<longleftrightarrow> (\<forall>c<8. gemm_setup_ok hw 1 8 (FH (lay L) * FW (lay L) * TILE_CI (lay L)) (ls c))"

lemma cv_okD:
  assumes "cv_ok L"
  shows "cluster2cluster (lay L) = 0" "nP L = 8" "nid L < nN L" "nFH L = 2 * npad L + 1" "FW (lay L) = FH (lay L)"
    "OH (lay L) = IH (lay L)" "OW (lay L) = IW (lay L)" "0 < nIH L" "0 < nIW L" "8 dvd nT L" "0 < nT L" "nT L dvd nCI L" "0 < nCI L"
    "8 dvd nCO L" "nIH L + nIW L + 4 * nFH L + 32 < 2 ^ 31" "nCO L + nN L * 8 < 2 ^ 32" "8 * nCO L < 2 ^ 32" "8 * nCI L < 2 ^ 32"
    "nIH L * nIW L * nCI L < 2 ^ 32" "nIH L * nIW L * nCO L < 2 ^ 32" "nCO L * (nFH L * nFW L) * nCI L < 2 ^ 32"
    "8 * (nFH L * nFW L * nCI L) < 2 ^ 32" "8 * (tcdm L + cv_total L) < 2 ^ 32" "nK L \<le> 2 ^ 16"
  using assms unfolding cv_ok_def by blast+

lemma cv_apart:
  assumes "cv_ok L"
  shows "apart_from (tcdm L) (cv_total L) (l_ifmap (lay L)) (nIH L * nIW L * nCI L)"
    "apart_from (tcdm L) (cv_total L) (l_weights (lay L)) (nCO L * (nFH L * nFW L) * nCI L)"
    "apart_from (tcdm L) (cv_total L) (l_ofmap (lay L)) (nIH L * nIW L * nCO L)"
    "apart_from (l_ifmap (lay L)) (nIH L * nIW L * nCI L) (l_ofmap (lay L)) (nIH L * nIW L * nCO L)"
    "apart_from (l_weights (lay L)) (nCO L * (nFH L * nFW L) * nCI L) (l_ofmap (lay L)) (nIH L * nIW L * nCO L)"
  using assms unfolding cv_ok_def by blast+

section \<open>The layer on natural numbers\<close>

text \<open>Buffers: half \<open>h\<close>, core \<open>c\<close>.\<close>

definition cv_im :: "layer_ctx \<Rightarrow> nat \<Rightarrow> nat \<Rightarrow> nat" where
  "cv_im L h c = tcdm L + (h * 8 + c) * (nK L + 1)"

definition cv_if :: "layer_ctx \<Rightarrow> nat \<Rightarrow> nat" where
  "cv_if L h = tcdm L + 16 * (nK L + 1) + h * nS L"

definition cv_wt :: "layer_ctx \<Rightarrow> nat" where
  "cv_wt L = tcdm L + 16 * (nK L + 1) + 2 * nS L"

definition cv_ob :: "layer_ctx \<Rightarrow> nat \<Rightarrow> nat \<Rightarrow> nat" where
  "cv_ob L h c = cv_wt L + 8 * (nK L + 1) + (h * 8 + c) * 8"

text \<open>Tile \<open>k\<close> of a block: its first column, its iteration of the rows, and its row.\<close>

definition cv_n :: "layer_ctx \<Rightarrow> nat" where
  "cv_n L = trips 0 (nIW L) 8 * nIH L"

definition cv_rot :: "layer_ctx \<Rightarrow> nat" where
  "cv_rot L = min 4 (nN L) - 1 - nid L mod min 4 (nN L)"

definition cv_ow :: "layer_ctx \<Rightarrow> nat \<Rightarrow> nat" where "cv_ow L k = k div nIH L * 8"
definition cv_oh :: "layer_ctx \<Rightarrow> nat \<Rightarrow> nat" where "cv_oh L k = (cv_rot L + k mod nIH L) mod nIH L"

definition cv_pix :: "layer_ctx \<Rightarrow> nat \<Rightarrow> nat" where "cv_pix L k = min 8 (nIW L - cv_ow L k)"

definition cv_tile :: "layer_ctx \<Rightarrow> nat \<Rightarrow> u32 \<times> u32" where
  "cv_tile L k = (of_nat (cv_ow L k), of_nat (k mod nIH L))"

text \<open>Block \<open>b\<close>: its first output and its first input channel.\<close>

definition cv_blocks :: "layer_ctx \<Rightarrow> nat" where
  "cv_blocks L = trips (nid L * 8) (nCO L) (nN L * 8) * tile_q L"

definition cv_co :: "layer_ctx \<Rightarrow> nat \<Rightarrow> nat" where "cv_co L b = (nid L + b div tile_q L * nN L) * 8"
definition cv_ci :: "layer_ctx \<Rightarrow> nat \<Rightarrow> nat" where "cv_ci L b = b mod tile_q L * nT L"

definition cv_block :: "layer_ctx \<Rightarrow> nat \<Rightarrow> u32 \<times> u32" where
  "cv_block L b = (of_nat (cv_co L b), of_nat (cv_ci L b))"

definition cv_half :: "layer_ctx \<Rightarrow> nat \<Rightarrow> nat \<Rightarrow> nat" where
  "cv_half L b k = (b * cv_n L + k) mod 2"

text \<open>The parts of the pipeline of block \<open>b\<close>.\<close>

definition cv_pre :: "layer_ctx \<Rightarrow> nat \<Rightarrow> instr list" where
  "cv_pre L b = concat (map (\<lambda>j. concat (map (\<lambda>f. copy_row (cv_wt L + j * (nK L + 1) + f * nT L)
     (l_weights (lay L) + (((cv_co L b + j) * (nFH L * nFW L) + f) * nCI L + cv_ci L b)) (nT L)) [0..<nFH L * nFW L])) [0..<8])"

definition cv_aux :: "layer_ctx \<Rightarrow> nat \<Rightarrow> nat \<Rightarrow> instr list" where
  "cv_aux L b k = (if cv_ci L b = 0 then [] else concat (map (\<lambda>j. copy_row (cv_ob L (cv_half L b k) j)
     (l_ofmap (lay L) + ((cv_oh L k * nIW L + (cv_ow L k + j)) * nCO L + cv_co L b)) 8) [0..<cv_pix L k]))"

text \<open>The pixels of a line of the strip, and how many of them are padding on the left and on the right.\<close>

definition cv_read :: "layer_ctx \<Rightarrow> nat \<Rightarrow> nat" where
  "cv_read L k = min (nW L) (nIW L - cv_ow L k + 2 * npad L)"

definition cv_left :: "layer_ctx \<Rightarrow> nat \<Rightarrow> nat" where "cv_left L k = npad L - cv_ow L k"

definition cv_right :: "layer_ctx \<Rightarrow> nat \<Rightarrow> nat" where
  "cv_right L k = (if cv_ow L k + 8 + npad L \<le> nIW L then 0 else cv_read L k - npad L - (nIW L - cv_ow L k))"

definition cv_copy :: "layer_ctx \<Rightarrow> nat \<Rightarrow> nat \<Rightarrow> nat \<Rightarrow> instr list" where
  "cv_copy L b k fh = concat (map (\<lambda>x. copy_row (cv_if L (cv_half L b k) + fh * (nW L * nT L) + (cv_left L k + x) * nT L)
     (l_ifmap (lay L) + (((cv_oh L k + fh - npad L) * nIW L + (cv_ow L k + cv_left L k + x - npad L)) * nCI L + cv_ci L b)) (nT L))
     [0..<cv_read L k - cv_left L k - cv_right L k])"

definition cv_line :: "layer_ctx \<Rightarrow> nat \<Rightarrow> nat \<Rightarrow> nat \<Rightarrow> instr list" where
  "cv_line L b k fh = (
     if cv_oh L k + fh < npad L \<or> nIH L + npad L \<le> cv_oh L k + fh
     then zero_row (cv_if L (cv_half L b k) + fh * (nW L * nT L)) (cv_read L k * (nT L div 8))
     else (if cv_left L k \<noteq> 0 \<or> cv_right L k \<noteq> 0 then zero_row (cv_if L (cv_half L b k) + fh * (nW L * nT L)) (nW L * (nT L div 8)) else [])
       @ cv_copy L b k fh)"

definition cv_mat :: "layer_ctx \<Rightarrow> nat \<Rightarrow> nat \<Rightarrow> nat \<Rightarrow> instr list" where
  "cv_mat L b k c = concat (map (\<lambda>fh. copy_row (cv_im L (cv_half L b k) c + fh * (nFW L * nT L))
     (cv_if L (cv_half L b k) + fh * (nW L * nT L) + c * nT L) (nFW L * nT L)) [0..<nFH L])"

definition cv_ld :: "layer_ctx \<Rightarrow> nat \<Rightarrow> nat \<Rightarrow> instr list" where
  "cv_ld L b k = (if cv_ci L b = 0 then zero_row (cv_ob L (cv_half L b k) 0) (cv_pix L k) else [])
     @ concat (map (cv_line L b k) [0..<nFH L]) @ concat (map (cv_mat L b k) [0..<cv_pix L k])"

definition cv_cp :: "(u64 list \<Rightarrow> u64) \<Rightarrow> layer_ctx \<Rightarrow> nat \<Rightarrow> nat \<Rightarrow> nat \<Rightarrow> instr list" where
  "cv_cp fmadd L b k c = (let h = cv_half L b k in if c < cv_pix L k then
     map (\<lambda>i. if cv_ci L b = 0 then Asg (R c (acc i)) hd [M (cv_ob L h c + i)] else Asg (R c (acc i)) (\<lambda>_. 0) []) [0..<8]
     @ concat (map (\<lambda>m. map (\<lambda>i. Asg (R c (acc i)) fmadd [M (cv_im L h c + m), M (cv_wt L + i * (nK L + 1) + m), R c (acc i)]) [0..<8]) [0..<nK L])
     @ map (\<lambda>i. Asg (M (cv_ob L h c + i)) hd [R c (acc i)]) [0..<8] else [])"

definition cv_put :: "layer_ctx \<Rightarrow> nat \<Rightarrow> nat \<Rightarrow> nat \<Rightarrow> instr list" where
  "cv_put L b h k = concat (map (\<lambda>j. copy_row (l_ofmap (lay L) + ((cv_oh L k * nIW L + (cv_ow L k + j)) * nCO L + cv_co L b))
     (cv_ob L h j) 8) [0..<cv_pix L k])"

abbreviation "cv_st L b k \<equiv> cv_put L b (cv_half L b k) k"

definition cv_stale :: "layer_ctx \<Rightarrow> nat \<Rightarrow> instr list" where
  "cv_stale L b = (if b = 0 then [] else cv_put L b (cv_half L b 1) (cv_n L - 1))"

end
