(* ===== verification/Conv2d_Words.thy ===== *)
theory Conv2d_Words
  imports Conv2d_Layer
begin

text \<open>
  The convolution layer computes its indices and sizes in 32-bit words. For an admissible layer
  nothing wraps around, and the code of the cores is the one \<open>Conv2d_Layer\<close> describes on natural numbers.
\<close>

section \<open>Sizes\<close>

lemma u32_nat: "unat w = n \<Longrightarrow> w = (of_nat n :: u32)"
  by (metis u32_of_unat)

lemma cv_total_bound: "cv_ok L \<Longrightarrow> cv_total L < 2 ^ 29"
  using cv_okD(23) [of L] by simp

lemma cv_bounds:
  assumes "cv_ok L"
  shows "24 * (nK L + 1) < 2 ^ 29" "2 * nS L < 2 ^ 29" "nFH L < 2 ^ 29" "npad L < 2 ^ 29" "nIH L < 2 ^ 31" "nIW L < 2 ^ 31"
    "nT L < 2 ^ 29" "nW L * nT L < 2 ^ 29" "nW L < 2 ^ 29" "nT L \<le> nCI L"
proof -
  note O = cv_okD [OF assms]
  show *: "24 * (nK L + 1) < 2 ^ 29" "2 * nS L < 2 ^ 29"
    using cv_total_bound [OF assms] by (simp_all add: cv_total_def)
  have "1 * (nW L * nT L) \<le> nS L" using O(4) unfolding nS_def by (intro mult_le_mono1) simp
  then show wt: "nW L * nT L < 2 ^ 29" using *(2) by simp
  have "1 * nT L \<le> nW L * nT L" "nW L * 1 \<le> nW L * nT L" using O(11) by (simp_all add: nW_def)
  then show "nT L < 2 ^ 29" "nW L < 2 ^ 29" using wt by linarith+
  show "nFH L < 2 ^ 29" "npad L < 2 ^ 29" "nIH L < 2 ^ 31" "nIW L < 2 ^ 31" using O(4, 15) by simp_all
  show "nT L \<le> nCI L" using O(12, 13) by (rule dvd_imp_le)
qed

lemma cv_strides:
  assumes "cv_ok L"
  shows "compute_num L = 8" "FH (lay L) * FW (lay L) * TILE_CI (lay L) = of_nat (nK L)"
    "compute_num L + FW (lay L) - 1 = of_nat (nW L)"
    "im2col_row_stride L = of_nat (nK L + 1)" "im2col_mat_stride L = of_nat (8 * (nK L + 1))"
    "ifmap_row_stride L = of_nat (nW L * nT L)" "ifmap_stride L = of_nat (nS L)"
    "weights_co_stride L = of_nat (nK L + 1)" "ofmap_stride L = of_nat 64"
proof -
  note O = cv_okD [OF assms]
  show P: "compute_num L = 8" using u32_nat [OF O(2)] by simp
  show K: "FH (lay L) * FW (lay L) * TILE_CI (lay L) = of_nat (nK L)" by (simp add: nK_def)
  then have K': "FW (lay L) * FH (lay L) * TILE_CI (lay L) = of_nat (nK L)" by (simp add: mult.commute)
  have "FW (lay L) = of_nat (2 * npad L + 1)" unfolding O(5) using u32_nat [OF O(4)] .
  then show W: "compute_num L + FW (lay L) - 1 = of_nat (nW L)" by (simp add: P nW_def)
  show r: "im2col_row_stride L = of_nat (nK L + 1)" by (simp add: im2col_row_stride_def K')
  show "im2col_mat_stride L = of_nat (8 * (nK L + 1))" by (simp add: im2col_mat_stride_def r P)
  show i: "ifmap_row_stride L = of_nat (nW L * nT L)" by (simp add: ifmap_row_stride_def W)
  show "ifmap_stride L = of_nat (nS L)" by (simp add: ifmap_stride_def i nS_def)
  show "weights_co_stride L = of_nat (nK L + 1)" by (simp add: weights_co_stride_def K)
  show "ofmap_stride L = of_nat 64" by (simp add: ofmap_stride_def P)
qed

lemma cv_pointers:
  assumes "cv_ok L"
  shows "cv_ifmap L = cv_if L 0" "cv_weights L = cv_wt L" "cv_ofmap L = cv_ob L 0 0"
proof -
  note S = cv_strides [OF assms] and B = cv_bounds [OF assms]
  have "unat (2 * im2col_mat_stride L) = 16 * (nK L + 1)" "unat (2 * ifmap_stride L) = 2 * nS L"
    "unat (compute_num L * weights_co_stride L) = 8 * (nK L + 1)"
    unfolding S using B by (auto intro!: unat_eqI)
  then show "cv_ifmap L = cv_if L 0" "cv_weights L = cv_wt L" "cv_ofmap L = cv_ob L 0 0"
    by (simp_all add: cv_ifmap_def cv_weights_def cv_ofmap_def cv_if_def cv_wt_def cv_ob_def)
qed

lemma buf_times: "buf k * of_nat m = of_nat (k mod 2 * m)"
  by (simp add: buf_def)

text \<open>Offsets into the buffers; \<open>q\<close> is the number of the tile from the start of the layer.\<close>

lemma half_bound: "q mod 2 * m \<le> (m :: nat)"
  by (simp add: mod_2_eq_odd)

lemma cv_offsets:
  assumes "cv_ok L"
  shows "c < 8 \<Longrightarrow> tcdm L + unat (buf q * im2col_mat_stride L + of_nat c * im2col_row_stride L) = cv_im L (q mod 2) c"
    "i < nS L \<Longrightarrow> cv_ifmap L + unat (buf q * ifmap_stride L + of_nat i) = cv_if L (q mod 2) + i"
    "c < 8 \<Longrightarrow> cv_ofmap L + unat (buf q * ofmap_stride L + of_nat c * 8) = cv_ob L (q mod 2) c"
    "j < 8 \<Longrightarrow> cv_weights L + unat (of_nat j * weights_co_stride L) = cv_wt L + j * (nK L + 1)"
proof -
  note S = cv_strides [OF assms] and B = cv_bounds [OF assms]
  have h: "(q mod 2 * 8 + c) * m \<le> 16 * m" if "c < 8" for c m :: nat
    using that by (intro mult_le_mono1) (simp add: mod_2_eq_odd)
  have "unat (buf q * im2col_mat_stride L + of_nat c * im2col_row_stride L) = (q mod 2 * 8 + c) * (nK L + 1)" if "c < 8"
    unfolding S buf_times using h [OF that, of "nK L + 1"] B(1) by (intro unat_eqI) (simp_all add: algebra_simps)
  then show "c < 8 \<Longrightarrow> tcdm L + unat (buf q * im2col_mat_stride L + of_nat c * im2col_row_stride L) = cv_im L (q mod 2) c"
    by (simp add: cv_im_def)
  have "unat (buf q * ifmap_stride L + of_nat i) = q mod 2 * nS L + i" if "i < nS L"
    unfolding S buf_times using that B(2) by (intro unat_eqI) (simp_all add: mod_2_eq_odd)
  then show "i < nS L \<Longrightarrow> cv_ifmap L + unat (buf q * ifmap_stride L + of_nat i) = cv_if L (q mod 2) + i"
    by (simp add: cv_pointers [OF assms] cv_if_def)
  have "unat (buf q * ofmap_stride L + of_nat c * 8) = (q mod 2 * 8 + c) * 8" if "c < 8"
    unfolding S buf_times using h [OF that, of 8] by (intro unat_eqI) simp_all
  then show "c < 8 \<Longrightarrow> cv_ofmap L + unat (buf q * ofmap_stride L + of_nat c * 8) = cv_ob L (q mod 2) c"
    by (simp add: cv_pointers [OF assms] cv_ob_def)
  have "j * (nK L + 1) \<le> 8 * (nK L + 1)" if "j < 8" using that by (intro mult_le_mono1) simp
  then have "unat (of_nat j * weights_co_stride L) = j * (nK L + 1)" if "j < 8"
    unfolding S using that B(1) by (intro unat_eqI) (simp_all add: algebra_simps)
  then show "j < 8 \<Longrightarrow> cv_weights L + unat (of_nat j * weights_co_stride L) = cv_wt L + j * (nK L + 1)"
    by (simp add: cv_pointers [OF assms])
qed

section \<open>Tiles and blocks\<close>

lemma cv_tile_bounds:
  assumes "cv_ok L" "k < cv_n L"
  shows "cv_ow L k < nIW L" "cv_oh L k < nIH L" "0 < cv_pix L k" "cv_pix L k \<le> 8" "cv_ow L k + cv_pix L k \<le> nIW L"
    "k mod nIH L < nIH L" "c < 8 \<Longrightarrow> c < cv_pix L k \<longleftrightarrow> cv_ow L k + c < nIW L"
proof -
  note O = cv_okD [OF assms(1)]
  have "k div nIH L < trips 0 (nIW L) 8" using assms(2) by (simp add: cv_n_def less_mult_imp_div_less)
  then show ow: "cv_ow L k < nIW L" by (simp add: less_trips cv_ow_def)
  show "cv_oh L k < nIH L" "k mod nIH L < nIH L" using O(8) by (simp_all add: cv_oh_def)
  show "0 < cv_pix L k" "cv_pix L k \<le> 8" "cv_ow L k + cv_pix L k \<le> nIW L" using ow by (auto simp: cv_pix_def)
  show "c < 8 \<Longrightarrow> c < cv_pix L k \<longleftrightarrow> cv_ow L k + c < nIW L" using ow by (auto simp: cv_pix_def)
qed

lemma cv_n_pos: "cv_ok L \<Longrightarrow> 0 < cv_n L"
  using cv_okD(8, 9) [of L] less_trips [of 8 0 0 "nIW L"] by (simp add: cv_n_def)

lemma conv_tiles_nat:
  assumes "cv_ok L"
  shows "conv_tiles L = Some (map (cv_tile L) [0..<cv_n L])"
proof -
  note O = cv_okD [OF assms] and S = cv_strides [OF assms]
  have ows: "for_range 0 (OW (lay L)) (compute_num L) = Some (map (\<lambda>i. of_nat i * 8) [0..<trips 0 (nIW L) 8])"
    using for_range_trips [of "compute_num L" "OW (lay L)" 0] O(2, 7) cv_bounds(6) [OF assms] by (simp add: S(1))
  have it: "(of_nat r * 8, of_nat i) = cv_tile L (r * nIH L + i)" if "i < nIH L" for r i
    using that by (simp add: cv_tile_def cv_ow_def radix_digits)
  have "conv_tiles L = Some (concat (map (\<lambda>r. map (\<lambda>i. cv_tile L (r * nIH L + i)) [0..<nIH L]) [0..<trips 0 (nIW L) 8]))"
    unfolding conv_tiles_def ows u32_below_def O(6) by (simp add: comp_def) (intro arg_cong [of _ _ concat] map_cong refl, simp add: it)
  then show ?thesis by (simp add: map_upt_mult cv_n_def)
qed

lemma conv_oh_nat:
  assumes "cv_ok L"
  shows "conv_oh L (of_nat (k mod nIH L)) = of_nat (cv_oh L k)"
proof -
  note O = cv_okD [OF assms]
  let ?q = "min 4 (nN L)"
  have q: "unat (cluster_per_quadrant L) = ?q" "0 < ?q" "?q \<le> 4"
    using O(3) by (auto simp: cluster_per_quadrant_def cmin_def word_less_nat_alt)
  have "nid L mod ?q < ?q" by (rule mod_less_divisor [OF q(2)])
  then have m: "nid L mod ?q \<le> ?q - 1" by linarith
  have "unat (cluster_per_quadrant L - 1) = ?q - 1" using q by (subst unat_minus_no_underflow) simp_all
  then have "unat (cluster_per_quadrant L - 1 - cluster_id L mod cluster_per_quadrant L) = cv_rot L"
    using m unfolding cv_rot_def by (subst unat_minus_no_underflow) (simp_all only: unat_mod q(1))
  then have r: "cluster_per_quadrant L - 1 - cluster_id L mod cluster_per_quadrant L = of_nat (cv_rot L)" by (rule u32_nat)
  have "cv_rot L \<le> 4" using q by (simp add: cv_rot_def)
  moreover have "k mod nIH L < nIH L" using O(8) by simp
  ultimately have s: "cv_rot L + k mod nIH L < 2 ^ 32" using cv_bounds(5) [OF assms] by simp
  have "unat (conv_oh L (of_nat (k mod nIH L))) = (cv_rot L + k mod nIH L) mod nIH L"
    using s unfolding conv_oh_def r O(6) unat_mod by (simp add: unat_of_nat_small flip: of_nat_add)
  then show ?thesis unfolding cv_oh_def by (rule u32_nat)
qed

lemma cv_block_bounds:
  assumes "cv_ok L" "b < cv_blocks L"
  shows "cv_co L b + 8 \<le> nCO L" "cv_ci L b + nT L \<le> nCI L" "0 < tile_q L" "tile_q L * nT L = nCI L"
proof -
  note O = cv_okD [OF assms(1)]
  show q: "0 < tile_q L" "tile_q L * nT L = nCI L"
    using O(11-13) by (auto simp: tile_q_def dvd_imp_le div_greater_zero_iff)
  have "b div tile_q L < trips (nid L * 8) (nCO L) (nN L * 8)" using assms(2) by (simp add: cv_blocks_def less_mult_imp_div_less)
  then have "cv_co L b < nCO L" using O(3) by (simp add: less_trips cv_co_def algebra_simps)
  moreover have "8 dvd cv_co L b" by (simp add: cv_co_def)
  ultimately show "cv_co L b + 8 \<le> nCO L" using O(14) by (auto elim!: dvdE)
  have "Suc (b mod tile_q L) * nT L \<le> tile_q L * nT L" using q(1) by (intro mult_le_mono1) (simp add: Suc_leI)
  then show "cv_ci L b + nT L \<le> nCI L" by (simp add: cv_ci_def q(2))
qed

lemma conv_blocks_nat:
  assumes "cv_ok L"
  shows "conv_blocks L = Some (map (cv_block L) [0..<cv_blocks L])"
proof -
  note O = cv_okD [OF assms] and S = cv_strides [OF assms]
  have q: "0 < tile_q L" using O(11-13) by (auto simp: tile_q_def dvd_imp_le div_greater_zero_iff)
  have w: "unat (cluster_id L * compute_num L) = nid L * 8" "unat (cluster_num L * compute_num L) = nN L * 8"
    using O(3, 16) by (auto intro!: unat_eqI simp: S(1))
  have pos: "0 < cluster_num L * compute_num L" "0 < TILE_CI (lay L)"
    using O(3, 11) w(2) by (simp_all add: word_gt_0 unat_eq_0 [symmetric] del: unat_eq_zero)
  have cos: "for_range (cluster_id L * compute_num L) (CO (lay L)) (cluster_num L * compute_num L)
      = Some (map (\<lambda>i. of_nat (nid L * 8 + i * nN L * 8)) [0..<trips (nid L * 8) (nCO L) (nN L * 8)])"
    using for_range_trips [OF pos(1), of "CO (lay L)" "cluster_id L * compute_num L"] O(16) unfolding w by (simp add: S(1) algebra_simps)
  have cis: "for_range 0 (CI (lay L)) (TILE_CI (lay L)) = Some (map (\<lambda>i. of_nat i * TILE_CI (lay L)) [0..<tile_q L])"
    using for_range_trips [OF pos(2), of "CI (lay L)" 0] O(11-13, 18) cv_bounds(10) [OF assms] by (simp add: trips_dvd tile_q_def)
  have it: "(of_nat (nid L * 8 + r * nN L * 8), of_nat i * TILE_CI (lay L)) = cv_block L (r * tile_q L + i)" if "i < tile_q L" for r i
    unfolding cv_block_def cv_co_def cv_ci_def radix_digits [OF that] by (simp add: algebra_simps)
  have "conv_blocks L = Some (concat (map (\<lambda>r. map (\<lambda>i. cv_block L (r * tile_q L + i)) [0..<tile_q L]) [0..<trips (nid L * 8) (nCO L) (nN L * 8)]))"
    unfolding conv_blocks_def cos cis
    by (simp add: those_Some [where g = "\<lambda>t. map (Pair t) (map (\<lambda>i. of_nat i * TILE_CI (lay L)) [0..<tile_q L])"] comp_def del: of_nat_mult of_nat_add)
      (intro arg_cong [of _ _ concat] map_cong refl, simp only: atLeastLessThan_iff set_upt it)
  then show ?thesis by (simp add: map_upt_mult cv_blocks_def)
qed

section \<open>Transfers\<close>

lemma cv_ff:
  assumes "cv_ok L"
  shows "unat (FH (lay L) * FW (lay L)) = nFH L * nFW L" "0 < nFH L * nFW L" "nFH L * nFW L \<le> nK L"
proof -
  note O = cv_okD [OF assms]
  show "0 < nFH L * nFW L" using O(4, 5) by simp
  have "nFH L * nFW L * 1 \<le> nFH L * nFW L * nT L" using O(11) by (intro mult_le_mono2) simp
  then show k: "nFH L * nFW L \<le> nK L" by (simp add: nK_def)
  show "unat (FH (lay L) * FW (lay L)) = nFH L * nFW L" using k O(24) by (intro unat_eqI) simp_all
qed

lemma cv_byte_sizes:
  assumes "cv_ok L"
  shows "unat (8 * TILE_CI (lay L)) = 8 * nT L" "unat (8 * CI (lay L)) = 8 * nCI L" "unat (8 * CO (lay L)) = 8 * nCO L"
    "unat (8 * CI (lay L) * FH (lay L) * FW (lay L)) = 8 * (nFH L * nFW L * nCI L)"
    "unat (8 * FW (lay L) * TILE_CI (lay L)) = 8 * (nFW L * nT L)"
    "unat (8 * (compute_num L + FW (lay L) - 1) * TILE_CI (lay L)) = 8 * (nW L * nT L)"
proof -
  note O = cv_okD [OF assms] and B = cv_bounds [OF assms]
  show "unat (8 * TILE_CI (lay L)) = 8 * nT L" "unat (8 * CI (lay L)) = 8 * nCI L" "unat (8 * CO (lay L)) = 8 * nCO L"
    using O(17, 18) B(7) by (auto intro!: unat_eqI)
  show "unat (8 * CI (lay L) * FH (lay L) * FW (lay L)) = 8 * (nFH L * nFW L * nCI L)" using O(22) by (intro unat_eqI) (simp_all add: ac_simps)
  have "nFW L * nT L \<le> nW L * nT L" using O(4, 5) by (intro mult_le_mono1) (simp add: nW_def)
  then have "nFW L * nT L < 2 ^ 29" using B(8) by linarith
  then show "unat (8 * FW (lay L) * TILE_CI (lay L)) = 8 * (nFW L * nT L)" by (intro unat_eqI) simp_all
  show "unat (8 * (compute_num L + FW (lay L) - 1) * TILE_CI (lay L)) = 8 * (nW L * nT L)"
    unfolding cv_strides(3) [OF assms] using B(8) by (intro unat_eqI) simp_all
qed

lemma cv_weight_bound:
  assumes "cv_ok L" "b < cv_blocks L" "j < 8" "f < nFH L * nFW L" "i < nT L"
  shows "((cv_co L b + j) * (nFH L * nFW L) + f) * nCI L + (cv_ci L b + i) < nCO L * (nFH L * nFW L) * nCI L"
  using cv_block_bounds [OF assms(1, 2)] assms(3-) by (intro radix_less) auto

lemma conv_weights_nat:
  assumes ok: "cv_ok L" and b: "b < cv_blocks L"
  shows "conv_weights L (fst (cv_block L b)) (snd (cv_block L b)) = cv_pre L b"
proof -
  note O = cv_okD [OF ok] and Z = cv_byte_sizes [OF ok] and F = cv_ff [OF ok]
  have row: "(if TILE_CI (lay L) = CI (lay L)
     then dma_1d (cv_weights L + unat (of_nat j * weights_co_stride L)) (l_weights (lay L) + unat ((of_nat (cv_co L b) + of_nat j) * FH (lay L) * FW (lay L) * CI (lay L)))
            (8 * CI (lay L) * FH (lay L) * FW (lay L))
     else dma_2d (cv_weights L + unat (of_nat j * weights_co_stride L))
            (l_weights (lay L) + unat ((of_nat (cv_co L b) + of_nat j) * FH (lay L) * FW (lay L) * CI (lay L) + of_nat (cv_ci L b)))
            (8 * TILE_CI (lay L)) (8 * TILE_CI (lay L)) (8 * CI (lay L)) (FH (lay L) * FW (lay L)))
    = concat (map (\<lambda>f. copy_row (cv_wt L + j * (nK L + 1) + f * nT L)
     (l_weights (lay L) + (((cv_co L b + j) * (nFH L * nFW L) + f) * nCI L + cv_ci L b)) (nT L)) [0..<nFH L * nFW L])" if j: "j < 8" for j
  proof -
    let ?s = "(cv_co L b + j) * (nFH L * nFW L) * nCI L"
    have "?s + cv_ci L b < 2 ^ 32" using cv_weight_bound [OF ok b j F(2) O(11)] O(21) by simp
    then have u: "unat ((of_nat (cv_co L b) + of_nat j) * FH (lay L) * FW (lay L) * CI (lay L) + of_nat (cv_ci L b)) = ?s + cv_ci L b"
      by (intro unat_eqI) (simp_all add: mult.assoc)
    note d = cv_offsets(4) [OF ok j]
    show ?thesis
    proof (cases "TILE_CI (lay L) = CI (lay L)")
      case True
      then have c0: "cv_ci L b = 0" "nCI L = nT L" using O(13) by (simp_all add: cv_ci_def tile_q_def)
      then have u0: "unat ((of_nat (cv_co L b) + of_nat j) * FH (lay L) * FW (lay L) * CI (lay L)) = ?s" using u by simp
      show ?thesis unfolding if_P [OF True] d u0 dma_1d_row [OF Z(4)]
        using copy_rows_contiguous [of "cv_wt L + j * (nK L + 1)" "nT L" "l_weights (lay L) + ?s" "nFH L * nFW L"]
        by (simp add: c0 algebra_simps)
    next
      case False
      show ?thesis unfolding if_not_P [OF False] d u dma_2d_rows [OF Z(1) Z(1) Z(2) F(1)]
        by (simp add: algebra_simps)
    qed
  qed
  show ?thesis unfolding conv_weights_def cv_block_def fst_conv snd_conv Let_def u32_below_def cv_pre_def map_map comp_def
    by (intro arg_cong [of _ _ concat] map_cong) (simp, rule row, simp)
qed

lemma unat_cmin: "unat (cmin a b) = min (unat a) (unat b)"
  by (simp add: cmin_def word_less_nat_alt)

lemma cv_ow_words:
  assumes "cv_ok L" "k < cv_n L"
  shows "unat (of_nat (cv_ow L k) :: u32) = cv_ow L k" "unat (of_nat (cv_oh L k) :: u32) = cv_oh L k"
    "unat (IW (lay L) - of_nat (cv_ow L k)) = nIW L - cv_ow L k"
    "unat (cmin (compute_num L) (OW (lay L) - of_nat (cv_ow L k))) = cv_pix L k"
proof -
  note O = cv_okD [OF assms(1)] and T = cv_tile_bounds [OF assms] and B = cv_bounds [OF assms(1)]
  show o: "unat (of_nat (cv_ow L k) :: u32) = cv_ow L k" "unat (of_nat (cv_oh L k) :: u32) = cv_oh L k"
    using T(1, 2) B(5, 6) by (auto intro!: unat_eqI)
  show d: "unat (IW (lay L) - of_nat (cv_ow L k)) = nIW L - cv_ow L k"
    using T(1) o(1) by (subst unat_minus_no_underflow) simp_all
  show "unat (cmin (compute_num L) (OW (lay L) - of_nat (cv_ow L k))) = cv_pix L k"
    unfolding unat_cmin O(7) d by (simp add: cv_pix_def O(2))
qed

lemma cv_out_bound:
  assumes "cv_ok L" "k < cv_n L" "b < cv_blocks L" "j < cv_pix L k" "i < 8"
  shows "(cv_oh L k * nIW L + (cv_ow L k + j)) * nCO L + (cv_co L b + i) < nIH L * nIW L * nCO L"
  using cv_tile_bounds [OF assms(1, 2)] cv_block_bounds [OF assms(1, 3)] assms(4-) by (intro radix_less) auto

lemma cv_out_word:
  assumes "cv_ok L" "k < cv_n L" "b < cv_blocks L"
  shows "unat ((of_nat (cv_oh L k) * OW (lay L) + of_nat (cv_ow L k)) * CO (lay L) + of_nat (cv_co L b))
    = (cv_oh L k * nIW L + cv_ow L k) * nCO L + cv_co L b"
  using cv_out_bound [OF assms cv_tile_bounds(3) [OF assms(1, 2)], of 0] cv_okD(7, 20) [OF assms(1)] by (intro unat_eqI) simp_all

lemma cv_ob_step: "cv_ob L h 0 + i * 8 = cv_ob L h i"
  by (simp add: cv_ob_def algebra_simps)

lemma cv_ob_buf: "cv_ok L \<Longrightarrow> cv_ofmap L + unat (buf q * ofmap_stride L) = cv_ob L (q mod 2) 0"
  using cv_offsets(3) [of L 0 q] by simp

lemma u32_64: "unat (8 * 8 :: u32) = 8 * 8"
  by simp

lemma conv_load_ofmap_nat:
  assumes ok: "cv_ok L" and k: "k < cv_n L" and b: "b < cv_blocks L" and q: "q = b * cv_n L + k"
  shows "conv_load_ofmap L (buf q) (of_nat (cv_co L b)) (of_nat (cv_ci L b)) (of_nat (cv_oh L k)) (of_nat (cv_ow L k))
    = cv_aux L b k @ (if cv_ci L b = 0 then zero_row (cv_ob L (cv_half L b k) 0) (cv_pix L k) else [])"
proof -
  note W = cv_ow_words [OF ok k] and T = cv_tile_bounds [OF ok k]
  have c: "(of_nat (cv_ci L b) :: u32) \<noteq> 0 \<longleftrightarrow> cv_ci L b \<noteq> 0"
  proof -
    have "cv_ci L b < 2 ^ 32" using cv_block_bounds(2) [OF ok b] cv_okD(18) [OF ok] by simp
    then have "unat (of_nat (cv_ci L b) :: u32) = cv_ci L b" by (intro unat_eqI) simp_all
    then show ?thesis by (metis unat_eq_zero)
  qed
  have h: "q mod 2 = cv_half L b k" by (simp add: q cv_half_def)
  have z: "unat (8 * 8 * cmin (compute_num L) (OW (lay L) - of_nat (cv_ow L k))) = 64 * cv_pix L k"
    using u32_nat [OF W(4)] T(4) by (intro unat_eqI) simp_all
  show ?thesis unfolding conv_load_ofmap_def Let_def c cv_ob_buf [OF ok] h dma_zero_row [OF z] cv_out_word [OF ok k b]
      dma_2d_rows [OF u32_64 u32_64 cv_byte_sizes(3) [OF ok] W(4)]
    by (simp add: cv_aux_def cv_ob_step algebra_simps)
qed

lemma conv_store_nat:
  assumes ok: "cv_ok L" and k: "k < cv_n L" and b: "b < cv_blocks L"
  shows "conv_store L (buf (Suc q)) (of_nat (cv_co L b)) (of_nat (cv_oh L k), of_nat (cv_ow L k)) = cv_put L b (q mod 2) k"
proof -
  note W = cv_ow_words [OF ok k]
  have l: "lnot (buf (Suc q)) = buf q" by simp
  show ?thesis
    unfolding conv_store_def Let_def prod.case l cv_ob_buf [OF ok] cv_out_word [OF ok k b]
      dma_2d_rows [OF u32_64 cv_byte_sizes(3) [OF ok] u32_64 W(4)] cv_ob_step
    by (simp add: cv_put_def algebra_simps)
qed

lemma conv_im2col_nat:
  assumes ok: "cv_ok L" and k: "k < cv_n L" and q: "q = b * cv_n L + k"
  shows "conv_im2col L (buf q) (buf q) (of_nat (cv_ow L k)) = concat (map (cv_mat L b k) [0..<cv_pix L k])"
proof -
  note O = cv_okD [OF ok] and S = cv_strides [OF ok] and T = cv_tile_bounds [OF ok k] and Z = cv_byte_sizes [OF ok]
  have h: "q mod 2 = cv_half L b k" by (simp add: q cv_half_def)
  have row: "(if of_nat (cv_ow L k) + of_nat n < OW (lay L)
     then dma_2d (tcdm L + unat (buf q * im2col_mat_stride L + of_nat n * im2col_row_stride L))
            (cv_ifmap L + unat (buf q * ifmap_stride L + of_nat n * TILE_CI (lay L)))
            (8 * FW (lay L) * TILE_CI (lay L)) (8 * FW (lay L) * TILE_CI (lay L)) (8 * (compute_num L + FW (lay L) - 1) * TILE_CI (lay L)) (FH (lay L))
     else []) = (if n < cv_pix L k then cv_mat L b k n else [])" if n: "n < 8" for n
  proof -
    have "unat (of_nat (cv_ow L k) + of_nat n :: u32) = cv_ow L k + n"
      using T(1) cv_bounds(6) [OF ok] n by (intro unat_eqI) simp_all
    then have c: "of_nat (cv_ow L k) + of_nat n < OW (lay L) \<longleftrightarrow> n < cv_pix L k" using T(7) [OF n] O(7) by (simp add: word_less_nat_alt)
    have "n * nT L < nW L * nT L" using n O(11) by (simp add: nW_def)
    also have "\<dots> \<le> nS L" using O(4) by (simp add: nS_def)
    finally have s: "cv_ifmap L + unat (buf q * ifmap_stride L + of_nat n * TILE_CI (lay L)) = cv_if L (q mod 2) + n * nT L"
      using cv_offsets(2) [OF ok, of "n * nT L" q] by simp
    show ?thesis unfolding c cv_offsets(1) [OF ok n] s dma_2d_rows [OF Z(5) Z(5) Z(6) refl]
      by (simp add: h cv_mat_def add_ac)
  qed
  have "conv_im2col L (buf q) (buf q) (of_nat (cv_ow L k)) = concat (map (\<lambda>n. if n < cv_pix L k then cv_mat L b k n else []) [0..<8])"
    unfolding conv_im2col_def Let_def u32_below_def map_map comp_def O(2)
    by (intro arg_cong [of _ _ concat] map_cong refl row) simp
  also have "[0..<8] = [0..<cv_pix L k] @ [cv_pix L k..<8]" using upt_add_eq_append [of 0 "cv_pix L k" "8 - cv_pix L k"] T(4) by simp
  also have "concat (map (\<lambda>n. if n < cv_pix L k then cv_mat L b k n else []) ([0..<cv_pix L k] @ [cv_pix L k..<8]))
    = concat (map (cv_mat L b k) [0..<cv_pix L k])"
  proof -
    have "map (\<lambda>n. if n < cv_pix L k then cv_mat L b k n else []) [0..<cv_pix L k] = map (cv_mat L b k) [0..<cv_pix L k]" by simp
    moreover have "concat (map (\<lambda>n. if n < cv_pix L k then cv_mat L b k n else []) [cv_pix L k..<8]) = []" by simp
    ultimately show ?thesis by (simp only: map_append concat_append append_Nil2)
  qed
  finally show ?thesis .
qed

text \<open>The padding of a line: columns \<open>left \<dots> read - right\<close> of the line are pixels of the input.\<close>

lemma cv_padding:
  assumes "cv_ok L" "k < cv_n L"
  shows "npad L \<le> cv_ow L k + cv_left L k" "cv_left L k \<le> npad L" "cv_left L k + cv_right L k \<le> cv_read L k" "cv_read L k \<le> nW L"
    "x < cv_read L k - cv_right L k \<Longrightarrow> cv_ow L k + x < nIW L + npad L" "cv_right L k \<le> cv_read L k"
    "x < cv_read L k \<Longrightarrow> cv_ow L k + x < nIW L + npad L \<Longrightarrow> x < cv_read L k - cv_right L k"
    "\<not> cv_ow L k + 8 + npad L \<le> nIW L \<Longrightarrow> npad L + (nIW L - cv_ow L k) \<le> cv_read L k" "0 < cv_read L k"
    "cv_ow L k + cv_left L k < nIW L + npad L"
proof -
  note T = cv_tile_bounds [OF assms]
  show "npad L \<le> cv_ow L k + cv_left L k" "cv_left L k \<le> npad L" "cv_read L k \<le> nW L" by (simp_all add: cv_left_def cv_read_def)
  show r: "npad L + (nIW L - cv_ow L k) \<le> cv_read L k" if "\<not> cv_ow L k + 8 + npad L \<le> nIW L"
    using that T(1) unfolding cv_read_def nW_def min_def by auto
  show "cv_left L k + cv_right L k \<le> cv_read L k" "cv_right L k \<le> cv_read L k"
    using r T(1) by (auto simp: cv_left_def cv_right_def cv_read_def nW_def)
  show "cv_ow L k + x < nIW L + npad L" if "x < cv_read L k - cv_right L k"
    using that r T(1) by (auto simp: cv_right_def cv_read_def nW_def split: if_splits)
  show "x < cv_read L k - cv_right L k" if "x < cv_read L k" "cv_ow L k + x < nIW L + npad L"
    using that r T(1) by (auto simp: cv_right_def)
  show "0 < cv_read L k" "cv_ow L k + cv_left L k < nIW L + npad L" using T(1) by (auto simp: cv_read_def nW_def cv_left_def)
qed

lemma cv_pad_words:
  assumes "cv_ok L" "k < cv_n L"
  shows "unat (cmin (compute_num L + FW (lay L) - 1) (IW (lay L) - of_nat (cv_ow L k) + push_bit 1 (pad (lay L)))) = cv_read L k"
    "drop_bit 1 (FH (lay L) - 1) = pad (lay L)" "drop_bit 1 (FW (lay L) - 1) = pad (lay L)"
    "(if of_nat (cv_ow L k) < pad (lay L) then pad (lay L) - of_nat (cv_ow L k) else 0) = of_nat (cv_left L k)"
proof -
  note O = cv_okD [OF assms(1)] and W = cv_ow_words [OF assms] and B = cv_bounds [OF assms(1)]
  have "unat (IW (lay L) - of_nat (cv_ow L k) + push_bit 1 (pad (lay L))) = nIW L - cv_ow L k + 2 * npad L"
    using u32_nat [OF W(3)] B(4, 6) by (intro unat_eqI) (simp_all add: push_bit_eq_mult)
  moreover have "unat (of_nat (nW L) :: u32) = nW L" using B(9) by (intro unat_eqI) simp_all
  ultimately show "unat (cmin (compute_num L + FW (lay L) - 1) (IW (lay L) - of_nat (cv_ow L k) + push_bit 1 (pad (lay L)))) = cv_read L k"
    by (simp add: unat_cmin cv_strides(3) [OF assms(1)] cv_read_def)
  have "FH (lay L) = 2 * pad (lay L) + 1" using u32_nat [OF O(4)] by simp
  moreover have "unat (2 * pad (lay L)) = 2 * npad L" using B(4) by (intro unat_eqI) simp_all
  ultimately have "unat (drop_bit 1 (FH (lay L) - 1)) = npad L" by (simp add: drop_bit_eq_div unat_div)
  then show "drop_bit 1 (FH (lay L) - 1) = pad (lay L)" by (simp add: word_unat_eq_iff)
  then show "drop_bit 1 (FW (lay L) - 1) = pad (lay L)" by (simp add: O(5))
  show "(if of_nat (cv_ow L k) < pad (lay L) then pad (lay L) - of_nat (cv_ow L k) else 0) = of_nat (cv_left L k)"
  proof (cases "cv_ow L k < npad L")
    case True
    then have "of_nat (cv_ow L k) < pad (lay L)" using W(1) by (simp add: word_less_nat_alt)
    then show ?thesis using True by (simp add: cv_left_def of_nat_diff)
  next
    case False
    then have "\<not> of_nat (cv_ow L k) < pad (lay L)" using W(1) by (simp add: word_less_nat_alt)
    then show ?thesis using False by (simp add: cv_left_def)
  qed
qed

lemma cv_right_word:
  assumes "cv_ok L" "k < cv_n L"
  shows "(if of_nat (cv_ow L k) + compute_num L + pad (lay L) \<le> OW (lay L) then 0
     else of_nat (cv_read L k) - pad (lay L) - (IW (lay L) - of_nat (cv_ow L k))) = (of_nat (cv_right L k) :: u32)"
proof -
  note O = cv_okD [OF assms(1)] and W = cv_ow_words [OF assms] and B = cv_bounds [OF assms(1)] and T = cv_tile_bounds [OF assms]
  have "unat (of_nat (cv_ow L k) + compute_num L + pad (lay L)) = cv_ow L k + 8 + npad L"
    using T(1) B(4, 6) by (intro unat_eqI) (simp_all add: cv_strides(1) [OF assms(1)])
  then have c: "of_nat (cv_ow L k) + compute_num L + pad (lay L) \<le> OW (lay L) \<longleftrightarrow> cv_ow L k + 8 + npad L \<le> nIW L"
    by (simp add: word_le_nat_alt O(7))
  have "(of_nat (cv_read L k) - pad (lay L) - (IW (lay L) - of_nat (cv_ow L k)) :: u32) = of_nat (cv_read L k - npad L - (nIW L - cv_ow L k))"
    if "npad L + (nIW L - cv_ow L k) \<le> cv_read L k" using that T(1) by (simp add: of_nat_diff)
  then show ?thesis using cv_padding(8) [OF assms] unfolding c cv_right_def by simp
qed

lemma conv_load_line_nat:
  assumes ok: "cv_ok L" and k: "k < cv_n L" and b: "b < cv_blocks L" and q: "q = b * cv_n L + k" and fh: "fh < nFH L"
  shows "conv_load_line L (buf q) (of_nat (cv_ci L b)) (of_nat (cv_oh L k)) (of_nat (cv_ow L k)) (of_nat fh) = cv_line L b k fh"
proof -
  note O = cv_okD [OF ok] and W = cv_ow_words [OF ok k] and B = cv_bounds [OF ok] and T = cv_tile_bounds [OF ok k] and Z = cv_byte_sizes [OF ok]
    and Q = cv_padding [OF ok k] and P = cv_pad_words [OF ok k] and X = cv_block_bounds [OF ok b]
  have h: "q mod 2 = cv_half L b k" by (simp add: q cv_half_def)
  have n: "cmin (compute_num L + FW (lay L) - 1) (IW (lay L) - of_nat (cv_ow L k) + push_bit 1 (pad (lay L))) = of_nat (cv_read L k)"
    by (rule u32_nat [OF P(1)])
  have S: "fh * (nW L * nT L) + x < nS L" if "x < nW L * nT L" for x unfolding nS_def by (rule radix_less [OF fh that])
  have W0: "0 < nW L * nT L" using O(11) by (simp add: nW_def)
  have d: "cv_ifmap L + unat (buf q * ifmap_stride L + of_nat fh * ifmap_row_stride L) = cv_if L (cv_half L b k) + fh * (nW L * nT L)"
    using cv_offsets(2) [OF ok S [OF W0], of q] unfolding cv_strides(6) [OF ok] h by simp
  have "cv_left L k * nT L < nW L * nT L" using Q(2) O(11) by (simp add: nW_def)
  then have d2: "cv_ifmap L + unat (buf q * ifmap_stride L + of_nat fh * ifmap_row_stride L + of_nat (cv_left L k) * TILE_CI (lay L))
      = cv_if L (cv_half L b k) + (fh * (nW L * nT L) + cv_left L k * nT L)"
    using cv_offsets(2) [OF ok S, of "cv_left L k * nT L" q] unfolding cv_strides(6) [OF ok] h by (simp add: add.assoc)
  have oh: "unat (of_nat (cv_oh L k) + of_nat fh :: u32) = cv_oh L k + fh" using T(2) B(3, 5) fh by (intro unat_eqI) simp_all
  have ih: "unat (IH (lay L) + pad (lay L)) = nIH L + npad L" using B(4, 5) by (intro unat_eqI) simp_all
  have c: "(of_nat (cv_oh L k) + of_nat fh < pad (lay L) \<or> IH (lay L) + drop_bit 1 (FH (lay L) - 1) \<le> of_nat (cv_oh L k) + of_nat fh)
      \<longleftrightarrow> cv_oh L k + fh < npad L \<or> nIH L + npad L \<le> cv_oh L k + fh"
    unfolding P(2) by (simp add: word_less_nat_alt word_le_nat_alt oh ih)
  obtain g where g: "nT L = 8 * g" using O(10) by (elim dvdE)
  have g8: "nT L div 8 = g" using g by simp
  have rT: "cv_read L k * nT L \<le> nW L * nT L" using Q(4) by (intro mult_le_mono1)
  have z1: "unat (8 * TILE_CI (lay L) * of_nat (cv_read L k)) = 64 * (cv_read L k * (nT L div 8))"
  proof -
    have "cv_read L k * nT L < 2 ^ 29" using rT B(8) by (rule le_less_trans)
    then have "8 * (cv_read L k * nT L) < 2 ^ 32" by simp
    moreover have "8 * TILE_CI (lay L) * of_nat (cv_read L k) = (of_nat (8 * (cv_read L k * nT L)) :: u32)" by (simp add: mult_ac)
    ultimately have "unat (8 * TILE_CI (lay L) * of_nat (cv_read L k)) = 8 * (cv_read L k * nT L)" by (intro unat_eqI)
    then show ?thesis by (simp add: g8 g)
  qed
  have z2: "unat (8 * (compute_num L + FW (lay L) - 1) * TILE_CI (lay L)) = 64 * (nW L * (nT L div 8))"
    unfolding Z(6) by (simp add: g8 g)
  show ?thesis
  proof (cases "cv_oh L k + fh < npad L \<or> nIH L + npad L \<le> cv_oh L k + fh")
    case True
    show ?thesis unfolding conv_load_line_def Let_def n c if_P [OF True] d dma_zero_row [OF z1] cv_line_def ..
  next
    case False
    let ?A = "cv_oh L k + fh - npad L" and ?C = "cv_ow L k + cv_left L k - npad L"
    have A: "?A < nIH L" "?C < nIW L" using False Q(1, 10) by auto
    have nz: "(of_nat (cv_left L k) :: u32) \<noteq> 0 \<longleftrightarrow> cv_left L k \<noteq> 0" "(of_nat (cv_right L k) :: u32) \<noteq> 0 \<longleftrightarrow> cv_right L k \<noteq> 0"
    proof -
      have "unat (of_nat (cv_left L k) :: u32) = cv_left L k" "unat (of_nat (cv_right L k) :: u32) = cv_right L k"
        using Q(2, 4, 6) B(4, 9) by (auto intro!: unat_eqI)
      then show "(of_nat (cv_left L k) :: u32) \<noteq> 0 \<longleftrightarrow> cv_left L k \<noteq> 0" "(of_nat (cv_right L k) :: u32) \<noteq> 0 \<longleftrightarrow> cv_right L k \<noteq> 0"
        by (metis unat_eq_zero)+
    qed
    have r: "unat (of_nat (cv_read L k) - of_nat (cv_left L k) - of_nat (cv_right L k) :: u32) = cv_read L k - cv_left L k - cv_right L k"
      using Q(3, 4) B(9) by (intro unat_eqI) (simp_all add: of_nat_diff)
    have s: "unat (((of_nat (cv_oh L k) + of_nat fh - pad (lay L)) * IW (lay L) + of_nat (cv_ow L k) - (pad (lay L) - of_nat (cv_left L k))) * CI (lay L) + of_nat (cv_ci L b))
      = (?A * nIW L + ?C) * nCI L + cv_ci L b"
    proof (rule unat_eqI)
      have "(?A * nIW L + ?C) * nCI L + cv_ci L b < nIH L * nIW L * nCI L" using A X(2) O(11) by (intro radix_less) auto
      then show "(?A * nIW L + ?C) * nCI L + cv_ci L b < 2 ^ 32" using O(19) by simp
      have AC: "(of_nat ?A :: u32) = of_nat (cv_oh L k) + of_nat fh - pad (lay L)" "(of_nat ?C :: u32) = of_nat (cv_ow L k) + of_nat (cv_left L k) - pad (lay L)"
        using False Q(1) by (simp_all add: of_nat_diff)
      show "((of_nat (cv_oh L k) + of_nat fh - pad (lay L)) * IW (lay L) + of_nat (cv_ow L k) - (pad (lay L) - of_nat (cv_left L k))) * CI (lay L) + of_nat (cv_ci L b)
        = (of_nat ((?A * nIW L + ?C) * nCI L + cv_ci L b) :: u32)"
        unfolding of_nat_add of_nat_mult AC u32_of_unat by (simp add: algebra_simps)
    qed
    have cp: "dma_2d (cv_if L (cv_half L b k) + (fh * (nW L * nT L) + cv_left L k * nT L)) (l_ifmap (lay L) + ((?A * nIW L + ?C) * nCI L + cv_ci L b))
        (8 * TILE_CI (lay L)) (8 * TILE_CI (lay L)) (8 * CI (lay L)) (of_nat (cv_read L k) - of_nat (cv_left L k) - of_nat (cv_right L k))
      = cv_copy L b k fh"
      unfolding dma_2d_rows [OF Z(1) Z(1) Z(2) r] cv_copy_def
    proof (intro arg_cong [of _ _ concat] map_cong refl)
      fix x
      have "cv_ow L k + cv_left L k + x - npad L = ?C + x" using Q(1) by simp
      then show "copy_row (cv_if L (cv_half L b k) + (fh * (nW L * nT L) + cv_left L k * nT L) + x * nT L)
          (l_ifmap (lay L) + ((?A * nIW L + ?C) * nCI L + cv_ci L b) + x * nCI L) (nT L)
        = copy_row (cv_if L (cv_half L b k) + fh * (nW L * nT L) + (cv_left L k + x) * nT L)
          (l_ifmap (lay L) + ((?A * nIW L + (cv_ow L k + cv_left L k + x - npad L)) * nCI L + cv_ci L b)) (nT L)"
        by (simp add: algebra_simps)
    qed
    show ?thesis unfolding conv_load_line_def Let_def n c if_not_P [OF False] d dma_zero_row [OF z2] P(3, 4) cv_right_word [OF ok k] nz d2 s cp cv_line_def ..
  qed
qed

lemma conv_load_ifmap_nat:
  assumes "cv_ok L" "k < cv_n L" "b < cv_blocks L" "q = b * cv_n L + k"
  shows "conv_load_ifmap L (buf q) (of_nat (cv_ci L b)) (of_nat (cv_oh L k)) (of_nat (cv_ow L k)) = concat (map (cv_line L b k) [0..<nFH L])"
  unfolding conv_load_ifmap_def u32_below_def map_map comp_def
  using conv_load_line_nat [OF assms] by (intro arg_cong [of _ _ concat] map_cong) simp_all

end
