(* ===== verification/Conv2d_Schedule.thy ===== *)
theory Conv2d_Schedule
  imports Conv2d_Words
begin

text \<open>
  The code of the data mover core and of the compute cores of the convolution layer is, block
  after block, the schedule of \<open>Pipeline\<close>. The streams of a core are set up for the first tile of
  its first input channels and serve all blocks up to the next output channels.
\<close>

section \<open>The call of the matrix multiplication\<close>

text \<open>A finished call leaves its configuration in place, which also allows a fresh one.\<close>

lemma cfg_setup_ok:
  assumes "gemm_cfg 1 1 (unat K) 0 ldB 1 l" "gemm_setup_ok hw 1 8 K l'"
  shows "gemm_setup_ok hw 1 8 K l"
proof -
  obtain s3 where a: "ssr_cfg (l 0) 3 8 [unat K, 1, 1, 1] [8, 0, 8 * 0, s3]" and b: "ssr_cfg (l 1) 3 1 [8, unat K, 1, 1] [8 * ldB, 8, 8 * ldB * 8, 0]"
    and r: "ssr_ready (l 0)" "ssr_ready (l 1)" using assms(1) by (auto simp: gemm_cfg_def)
  have "sh_bound (l 0) 3 = 0" using a by (simp add: ssr_cfg_def start_job_def last_index_def unat_eq_zero Let_def)
  moreover have "sh_rep (l 1) = 0" using b by (simp add: ssr_cfg_def start_job_def unat_eq_zero Let_def)
  ultimately show ?thesis using r assms(2) by (simp add: gemm_setup_ok_def)
qed

definition gemm_trace :: "(u64 list \<Rightarrow> u64) \<Rightarrow> nat \<Rightarrow> nat \<Rightarrow> nat \<Rightarrow> nat \<Rightarrow> nat \<Rightarrow> bool \<Rightarrow> instr list" where
  "gemm_trace fmadd c K A B C keep =
     map (\<lambda>i. if keep then Asg (R c (acc i)) hd [M (C + i)] else Asg (R c (acc i)) (\<lambda>_. 0) []) [0..<8]
     @ concat (map (\<lambda>m. map (\<lambda>i. Asg (R c (acc i)) fmadd [M (A + m), M (B + i * (K + 1) + m), R c (acc i)]) [0..<8]) [0..<K])
     @ map (\<lambda>i. Asg (M (C + i)) hd [R c (acc i)]) [0..<8]"

lemma conv_gemm_nat:
  assumes K: "0 < K" "K \<le> 2 ^ 16" and top: "8 * (A + K) < 2 ^ 32" "8 * (B + 8 * (K + 1)) < 2 ^ 32"
    and l: "if su then gemm_setup_ok hw 1 8 (of_nat K) l else gemm_cfg 1 1 K 0 (of_nat (K + 1)) 1 l"
  shows "\<exists>l'. conv_gemm hw fmadd c (of_nat K) A B (of_nat (K + 1)) C alpha su l = (gemm_trace fmadd c K A B C (alpha \<noteq> 0), l')
    \<and> gemm_cfg 1 1 K 0 (of_nat (K + 1)) 1 l'"
proof -
  have k: "unat (of_nat K :: u32) = K" using K(2) by (intro unat_eqI) simp_all
  define l1 where "l1 = (if su then gemm_fp64_setup hw 1 8 (of_nat K) 0 0 (of_nat (K + 1)) 1 l else l)"
  have cfg: "gemm_cfg 1 1 K 0 (of_nat (K + 1)) 1 l1"
    using l setup_cfg [of hw 1 8 "of_nat K" l 0 "of_nat (K + 1)" 1] by (auto simp: l1_def k)
  have i: "idle (l1 0)" "idle (l1 1)" using cfg by (simp_all add: gemm_cfg_def ssr_ready_def)
  define l2 where "l2 = l1(0 := ssr_job (l1 0) 3 (ptr32 A), 1 := ssr_job (l1 1) 3 (ptr32 B))"
  have r: "snrt_ssr_read hw 1 3 (ptr32 B) (snrt_ssr_read hw 0 3 (ptr32 A) l1) = l2"
    using i by (simp add: snrt_ssr_read_job l2_def)
  have n: "Suc (unat (take_bit 16 (of_nat K - 1 :: u32))) = K"
  proof -
    have "fits 16 (of_nat K)" using K k by (auto simp: fits_def unat_eq_zero [symmetric])
    then show ?thesis using fits_reg(1) [of 16 "of_nat K"] K k by simp
  qed
  have a: "cell_at (lane_addr (l2 0) (8 * m + i)) = M (A + m)" "cell_at (lane_addr (l2 1) (8 * m + i)) = M (B + i * (K + 1) + m)"
    if "m < K" "i < 8" for m i
  proof -
    have "lane_addr (l2 0) (8 * m + i) = gemm_a (ptr32 A) 0 (0, i) m" "lane_addr (l2 1) (8 * m + i) = gemm_b (ptr32 B) (of_nat (K + 1)) 1 (0, i) m"
      using cfg_delivers(1) [OF cfg, of "ptr32 A"] cfg_delivers(2) [OF cfg, of "ptr32 B"] that by (simp_all add: delivers_def l2_def)
    moreover have "unat (gemm_a (ptr32 A) 0 (0, i) m) = 8 * (A + m)"
      using top(1) that by (intro unat_eqI) (simp_all add: gemm_a_def at8_def ptr32_def algebra_simps)
    moreover have "i * (K + 1) + m < 8 * (K + 1)" using that by (intro radix_less) auto
    then have "unat (gemm_b (ptr32 B) (of_nat (K + 1)) 1 (0, i) m) = 8 * (B + i * (K + 1) + m)"
      using top(2) by (intro unat_eqI) (simp_all add: gemm_b_def at8_def ptr32_def algebra_simps)
    ultimately show "cell_at (lane_addr (l2 0) (8 * m + i)) = M (A + m)" "cell_at (lane_addr (l2 1) (8 * m + i)) = M (B + i * (K + 1) + m)"
      by (simp_all add: cell_at_def)
  qed
  let ?l' = "l2(0 := lane_after (8 * K) (l2 0), 1 := lane_after (8 * K) (l2 1))"
  have "gemm_cfg 1 1 K 0 (of_nat (K + 1)) 1 ?l'" by (rule cfg_after [OF cfg]) (simp_all add: l2_def)
  moreover have "conv_gemm hw fmadd c (of_nat K) A B (of_nat (K + 1)) C alpha su l = (gemm_trace fmadd c K A B C (alpha \<noteq> 0), ?l')"
  proof -
    have "concat (map (\<lambda>k. map (\<lambda>i. Asg (R c (acc i)) fmadd [cell_at (lane_addr (l2 0) (8 * k + i)), cell_at (lane_addr (l2 1) (8 * k + i)), R c (acc i)]) [0..<8]) [0..<K])
      = concat (map (\<lambda>m. map (\<lambda>i. Asg (R c (acc i)) fmadd [M (A + m), M (B + i * (K + 1) + m), R c (acc i)]) [0..<8]) [0..<K])"
      by (intro arg_cong [of _ _ concat] map_cong refl) (simp only: a set_upt atLeastLessThan_iff)
    then show ?thesis unfolding conv_gemm_def Let_def l1_def [symmetric] r n gemm_trace_def by simp
  qed
  ultimately show ?thesis by blast
qed

lemma cv_cp_trace:
  "cv_cp fmadd L b k c = (if c < cv_pix L k
     then gemm_trace fmadd c (nK L) (cv_im L (cv_half L b k) c) (cv_wt L) (cv_ob L (cv_half L b k) c) (cv_ci L b = 0) else [])"
  by (simp add: cv_cp_def gemm_trace_def Let_def)

section \<open>The data mover core\<close>

text \<open>What \<open>oh_prev\<close> and \<open>ow_prev\<close> hold after tile \<open>k\<close>.\<close>

definition cv_prev :: "layer_ctx \<Rightarrow> nat \<Rightarrow> u32 \<times> u32" where
  "cv_prev L k = (of_nat (cv_oh L k), of_nat (cv_ow L k))"

lemma cv_prev_signed:
  assumes "cv_ok L" "k < cv_n L"
  shows "0 <=s fst (cv_prev L k) + snd (cv_prev L k)"
proof -
  have "cv_oh L k + cv_ow L k < 2 ^ 31" using cv_tile_bounds(1, 2) [OF assms] cv_okD(15) [OF assms(1)] by simp
  then have "sint (of_nat (cv_oh L k + cv_ow L k) :: u32) = int (cv_oh L k + cv_ow L k)"
    by (simp add: sint_uint uint_nat unat_of_nat_small signed_take_bit_int_eq_self flip: of_nat_add)
  then show ?thesis by (simp add: cv_prev_def word_sle_eq)
qed

lemma prev_none: "\<not> 0 <=s (- 1 :: u32) + - 1"
  by code_simp

abbreviation "cv_fetch L b k \<equiv> cv_aux L b k @ cv_ld L b k"

lemma conv_dm_tiles_from:
  assumes ok: "cv_ok L" and b: "b < cv_blocks L"
  shows "j \<le> cv_n L \<Longrightarrow> (0 < j \<Longrightarrow> prev = cv_prev L (j - 1)) \<Longrightarrow>
      (j = 0 \<Longrightarrow> prev = (if b = 0 then (- 1, - 1) else cv_prev L (cv_n L - 1))) \<Longrightarrow>
    conv_dm_tiles L (fst (cv_block L b)) (snd (cv_block L b)) (map (cv_tile L) [j..<cv_n L]) (buf (b * cv_n L + j), buf (b * cv_n L + j), prev)
    = (concat (map (\<lambda>k. map Act (cv_fetch L b k) @ Bar # map Act (if k = 0 then cv_stale L b else cv_st L b (k - 1))) [j..<cv_n L]),
       buf (b * cv_n L + cv_n L), buf (b * cv_n L + cv_n L), cv_prev L (cv_n L - 1))"
proof (induction "cv_n L - j" arbitrary: j prev)
  case 0
  then have "j = cv_n L" "0 < j" using cv_n_pos [OF ok] by auto
  then show ?case using 0 by simp
next
  case (Suc d)
  then have j: "j < cv_n L" and up: "[j..<cv_n L] = j # [Suc j..<cv_n L]" by (auto simp: upt_conv_Cons)
  let ?q = "b * cv_n L + j"
  obtain oh_prev ow_prev where p: "prev = (oh_prev, ow_prev)" by (cases prev)
  have st: "(if 0 <=s oh_prev + ow_prev then conv_store L (buf ?q) (fst (cv_block L b)) (oh_prev, ow_prev) else [])
    = (if j = 0 then cv_stale L b else cv_st L b (j - 1))"
  proof (cases "j = 0")
    case True
    show ?thesis
    proof (cases "b = 0")
      case True
      then show ?thesis using Suc.prems(3) \<open>j = 0\<close> p prev_none by (simp add: cv_stale_def)
    next
      case False
      have n: "cv_n L - 1 < cv_n L" using cv_n_pos [OF ok] by simp
      have pv: "(oh_prev, ow_prev) = cv_prev L (cv_n L - 1)" using Suc.prems(3) \<open>j = 0\<close> p False by simp
      obtain q where q: "b * cv_n L = Suc q" using False cv_n_pos [OF ok] by (cases "b * cv_n L") auto
      have "q mod 2 = cv_half L b 1" by (simp add: cv_half_def q)
      then have "conv_store L (buf ?q) (fst (cv_block L b)) (oh_prev, ow_prev) = cv_stale L b"
        using conv_store_nat [OF ok n b, of q] False pv by (simp add: \<open>j = 0\<close> q cv_stale_def cv_prev_def cv_block_def)
      moreover have "0 <=s oh_prev + ow_prev" using cv_prev_signed [OF ok n] unfolding pv [symmetric] by simp
      ultimately show ?thesis using \<open>j = 0\<close> by simp
    qed
  next
    case False
    then have j1: "j - 1 < cv_n L" "?q = Suc (b * cv_n L + (j - 1))" using j by auto
    have pv: "(oh_prev, ow_prev) = cv_prev L (j - 1)" using Suc.prems(2) False p by simp
    have "conv_store L (buf ?q) (fst (cv_block L b)) (oh_prev, ow_prev) = cv_st L b (j - 1)"
      using conv_store_nat [OF ok j1(1) b, of "b * cv_n L + (j - 1)"] pv unfolding j1(2) by (simp add: cv_prev_def cv_half_def cv_block_def)
    moreover have "0 <=s oh_prev + ow_prev" using cv_prev_signed [OF ok j1(1)] unfolding pv [symmetric] by simp
    ultimately show ?thesis using False by simp
  qed
  have ld: "conv_load_ofmap L (buf ?q) (fst (cv_block L b)) (snd (cv_block L b)) (of_nat (cv_oh L j)) (of_nat (cv_ow L j))
      @ conv_load_ifmap L (buf ?q) (snd (cv_block L b)) (of_nat (cv_oh L j)) (of_nat (cv_ow L j)) @ conv_im2col L (buf ?q) (buf ?q) (of_nat (cv_ow L j)) = cv_fetch L b j"
    using conv_load_ofmap_nat [OF ok j b refl] conv_load_ifmap_nat [OF ok j b refl] conv_im2col_nat [OF ok j refl, of b]
    by (simp add: cv_block_def cv_ld_def)
  have IH: "conv_dm_tiles L (fst (cv_block L b)) (snd (cv_block L b)) (map (cv_tile L) [Suc j..<cv_n L]) (buf (Suc ?q), buf (Suc ?q), cv_prev L j)
    = (concat (map (\<lambda>k. map Act (cv_fetch L b k) @ Bar # map Act (if k = 0 then cv_stale L b else cv_st L b (k - 1))) [Suc j..<cv_n L]),
       buf (b * cv_n L + cv_n L), buf (b * cv_n L + cv_n L), cv_prev L (cv_n L - 1))"
    using Suc.hyps(1) [of "Suc j" "cv_prev L j"] Suc.hyps(2) j by simp
  have t: "cv_tile L j = (of_nat (cv_ow L j), of_nat (j mod nIH L))" by (simp add: cv_tile_def)
  show ?case unfolding up list.map t p conv_dm_tiles.simps conv_oh_nat [OF ok] Let_def lnot_buf st ld
    using IH by (simp add: cv_prev_def)
qed

definition cv_dm_block :: "layer_ctx \<Rightarrow> nat \<Rightarrow> ev list" where
  "cv_dm_block L b = dm_block (cv_n L) (cv_pre L b) (cv_fetch L b) (cv_stale L b) (cv_st L b)"

lemma conv_dm_from:
  assumes ok: "cv_ok L"
  shows "b \<le> cv_blocks L \<Longrightarrow>
    conv_dm L (map (cv_tile L) [0..<cv_n L]) (map (cv_block L) [b..<cv_blocks L])
      (buf (b * cv_n L), buf (b * cv_n L), if b = 0 then (- 1, - 1) else cv_prev L (cv_n L - 1))
    = concat (map (cv_dm_block L) [b..<cv_blocks L])"
proof (induction "cv_blocks L - b" arbitrary: b)
  case (Suc d)
  then have b: "b < cv_blocks L" and up: "[b..<cv_blocks L] = b # [Suc b..<cv_blocks L]" by (auto simp: upt_conv_Cons)
  have n: "cv_n L - 1 < cv_n L" "Suc (b * cv_n L + (cv_n L - 1)) = b * cv_n L + cv_n L" using cv_n_pos [OF ok] by auto
  have st: "conv_store L (buf (b * cv_n L + cv_n L)) (fst (cv_block L b)) (cv_prev L (cv_n L - 1)) = cv_st L b (cv_n L - 1)"
    using conv_store_nat [OF ok n(1) b, of "b * cv_n L + (cv_n L - 1)"] unfolding n(2) by (simp add: cv_prev_def cv_half_def cv_block_def)
  note tiles = conv_dm_tiles_from [OF ok b le0 _ refl, simplified]
  have cb: "cv_block L b = (fst (cv_block L b), snd (cv_block L b))" by simp
  have IH: "conv_dm L (map (cv_tile L) [0..<cv_n L]) (map (cv_block L) [Suc b..<cv_blocks L])
      (buf (b * cv_n L + cv_n L), buf (b * cv_n L + cv_n L), cv_prev L (cv_n L - 1)) = concat (map (cv_dm_block L) [Suc b..<cv_blocks L])"
    using Suc.hyps(1) [of "Suc b"] Suc.hyps(2) b by (simp add: add.commute)
  show ?case unfolding up list.map
    by (subst cb, subst conv_dm.simps) (simp add: tiles st [unfolded One_nat_def] IH [unfolded One_nat_def] conv_weights_nat [OF ok b] cv_dm_block_def dm_block_def)
qed simp

section \<open>The compute cores\<close>

lemma cv_ci_zero: "cv_ok L \<Longrightarrow> b < cv_blocks L \<Longrightarrow> (of_nat (cv_ci L b) :: u32) = 0 \<longleftrightarrow> cv_ci L b = 0"
proof -
  assume a: "cv_ok L" "b < cv_blocks L"
  have "unat (of_nat (cv_ci L b) :: u32) = cv_ci L b"
    using cv_block_bounds(2) [OF a] cv_okD(18) [OF a(1)] by (intro unat_eqI) simp_all
  then show ?thesis by (metis unat_eq_zero)
qed

lemma cv_first_tile:
  assumes "cv_ok L" "k < cv_n L"
  shows "(of_nat (cv_ow L k) :: u32) = 0 \<and> (of_nat (k mod nIH L) :: u32) = 0 \<longleftrightarrow> k = 0"
proof -
  note T = cv_tile_bounds [OF assms]
  have "unat (of_nat (k mod nIH L) :: u32) = k mod nIH L" using T(6) cv_bounds(5) [OF assms(1)] by (intro unat_eqI) simp_all
  then have "(of_nat (cv_ow L k) :: u32) = 0 \<and> (of_nat (k mod nIH L) :: u32) = 0 \<longleftrightarrow> cv_ow L k = 0 \<and> k mod nIH L = 0"
    using cv_ow_words(1) [OF assms] by (metis unat_eq_zero)
  also have "\<dots> \<longleftrightarrow> k = 0" unfolding cv_ow_def by (metis div_mult_mod_eq mult_is_0 add_0 mult_0 div_0 mod_0 zero_neq_numeral)
  finally show ?thesis .
qed

text \<open>The data movers of core \<open>c\<close>: always ready to be set up, and set up for the product once a call was made.\<close>

definition cv_lanes :: "ssr_hw \<Rightarrow> layer_ctx \<Rightarrow> nat \<Rightarrow> bool \<Rightarrow> ssrs \<Rightarrow> bool" where
  "cv_lanes hw L c called l \<longleftrightarrow> gemm_setup_ok hw 1 8 (of_nat (nK L)) l
     \<and> (called \<and> c < cv_pix L 0 \<longrightarrow> gemm_cfg 1 1 (nK L) 0 (of_nat (nK L + 1)) 1 l)"

lemma cv_tops:
  assumes "cv_ok L" "h < 2" "c < 8"
  shows "8 * (cv_im L h c + nK L) < 2 ^ 32" "8 * (cv_wt L + 8 * (nK L + 1)) < 2 ^ 32" "0 < nK L"
proof -
  have "(h * 8 + c) * (nK L + 1) + nK L < 16 * (nK L + 1)" using assms by (intro radix_less) auto
  then show "8 * (cv_im L h c + nK L) < 2 ^ 32" "8 * (cv_wt L + 8 * (nK L + 1)) < 2 ^ 32"
    using cv_okD(23) [OF assms(1)] by (simp_all add: cv_im_def cv_wt_def cv_total_def)
  show "0 < nK L" using cv_ff(2) [OF assms(1)] cv_okD(11) [OF assms(1)] by (simp add: nK_def)
qed

lemma conv_core_tile_nat:
  assumes ok: "cv_ok L" and b: "b < cv_blocks L" and k: "k < cv_n L" and c: "c < 8" and l: "cv_lanes hw L c (cv_ci L b \<noteq> 0 \<or> k \<noteq> 0) l"
  shows "\<exists>l'. (if of_nat (cv_ow L k) + of_nat c < OW (lay L)
           then conv_gemm hw fmadd (unat (of_nat c :: u32)) (FH (lay L) * FW (lay L) * TILE_CI (lay L))
             (tcdm L + unat (buf (b * cv_n L + k) * im2col_mat_stride L + of_nat c * im2col_row_stride L)) (cv_weights L)
             (FH (lay L) * FW (lay L) * TILE_CI (lay L) + 1)
             (cv_ofmap L + unat (buf (b * cv_n L + k) * ofmap_stride L + of_nat c * 8))
             (if snd (cv_block L b) \<noteq> 0 \<and> TILE_CI (lay L) \<noteq> CI (lay L) then 0 else 1)
             (snd (cv_block L b) = 0 \<and> of_nat (cv_ow L k) = (0 :: u32) \<and> of_nat (k mod nIH L) = (0 :: u32)) l
           else ([], l)) = (cv_cp fmadd L b k c, l') \<and> cv_lanes hw L c True l'"
proof -
  note O = cv_okD [OF ok] and T = cv_tile_bounds [OF ok k]
  have h: "(b * cv_n L + k) mod 2 = cv_half L b k" "cv_half L b k < 2" by (simp_all add: cv_half_def)
  have "unat (of_nat (cv_ow L k) + of_nat c :: u32) = cv_ow L k + c" using T(1) cv_bounds(6) [OF ok] c by (intro unat_eqI) simp_all
  then have g: "of_nat (cv_ow L k) + of_nat c < OW (lay L) \<longleftrightarrow> c < cv_pix L k" using T(7) [OF c] O(7) by (simp add: word_less_nat_alt)
  show ?thesis
  proof (cases "c < cv_pix L k")
    case False
    have "c < cv_pix L 0 \<Longrightarrow> k \<noteq> 0" using False by metis
    then show ?thesis using l False unfolding g by (auto simp: cv_lanes_def cv_cp_trace)
  next
    case True
    then have c0: "c < cv_pix L 0" using T(7) [OF c] c by (auto simp: cv_pix_def cv_ow_def)
    have z: "snd (cv_block L b) = 0 \<longleftrightarrow> cv_ci L b = 0" using cv_ci_zero [OF ok b] by (simp add: cv_block_def)
    have su: "(snd (cv_block L b) = 0 \<and> of_nat (cv_ow L k) = (0 :: u32) \<and> of_nat (k mod nIH L) = (0 :: u32)) \<longleftrightarrow> cv_ci L b = 0 \<and> k = 0"
      using z cv_first_tile [OF ok k] by simp
    have w: "TILE_CI (lay L) = CI (lay L) \<Longrightarrow> cv_ci L b = 0" using O(13) by (simp add: cv_ci_def tile_q_def)
    have al: "(if snd (cv_block L b) \<noteq> 0 \<and> TILE_CI (lay L) \<noteq> CI (lay L) then 0 else 1 :: u32) \<noteq> 0 \<longleftrightarrow> cv_ci L b = 0"
      using z w by auto
    have u: "unat (of_nat c :: u32) = c" using c by (intro unat_eqI) simp_all
    have lk: "if cv_ci L b = 0 \<and> k = 0 then gemm_setup_ok hw 1 8 (of_nat (nK L)) l else gemm_cfg 1 1 (nK L) 0 (of_nat (nK L + 1)) 1 l"
      using l c0 by (auto simp: cv_lanes_def)
    have K1: "FH (lay L) * FW (lay L) * TILE_CI (lay L) + 1 = of_nat (nK L + 1)" by (simp add: cv_strides(2) [OF ok])
    obtain l' where l': "conv_gemm hw fmadd c (of_nat (nK L)) (cv_im L (cv_half L b k) c) (cv_wt L) (of_nat (nK L + 1)) (cv_ob L (cv_half L b k) c)
        (if snd (cv_block L b) \<noteq> 0 \<and> TILE_CI (lay L) \<noteq> CI (lay L) then 0 else 1) (cv_ci L b = 0 \<and> k = 0) l
      = (gemm_trace fmadd c (nK L) (cv_im L (cv_half L b k) c) (cv_wt L) (cv_ob L (cv_half L b k) c) (cv_ci L b = 0), l')"
      and cfg: "gemm_cfg 1 1 (nK L) 0 (of_nat (nK L + 1)) 1 l'"
      using conv_gemm_nat [OF cv_tops(3) [OF ok h(2) c] O(24) cv_tops(1, 2) [OF ok h(2) c] lk, where fmadd = fmadd and c = c
          and C = "cv_ob L (cv_half L b k) c" and alpha = "if snd (cv_block L b) \<noteq> 0 \<and> TILE_CI (lay L) \<noteq> CI (lay L) then 0 else 1"]
      unfolding al by blast
    have "unat (of_nat (nK L) :: u32) = nK L" using O(24) by (intro unat_eqI) simp_all
    then have "gemm_setup_ok hw 1 8 (of_nat (nK L)) l'"
      using cfg_setup_ok [of "of_nat (nK L)" "of_nat (nK L + 1)" l' hw l] cfg l by (simp add: cv_lanes_def)
    then have "cv_lanes hw L c True l'" using cfg by (simp add: cv_lanes_def)
    moreover have "cv_cp fmadd L b k c = gemm_trace fmadd c (nK L) (cv_im L (cv_half L b k) c) (cv_wt L) (cv_ob L (cv_half L b k) c) (cv_ci L b = 0)"
      using True by (simp add: cv_cp_trace)
    ultimately show ?thesis unfolding g if_P [OF True] K1
      unfolding u su cv_offsets(1, 3) [OF ok c] h cv_pointers(2) [OF ok] cv_strides(2) [OF ok] l' by simp
  qed
qed

lemma conv_core_tiles_from:
  assumes ok: "cv_ok L" and b: "b < cv_blocks L" and c: "c < 8"
  shows "j \<le> cv_n L \<Longrightarrow> cv_lanes hw L c (cv_ci L b \<noteq> 0 \<or> j \<noteq> 0) l \<Longrightarrow>
    \<exists>l'. conv_core_tiles hw fmadd L (of_nat c) (snd (cv_block L b)) (map (cv_tile L) [j..<cv_n L]) (buf (b * cv_n L + j), buf (b * cv_n L + j), l)
    = (concat (map (\<lambda>k. Bar # map Act (cv_cp fmadd L b k c)) [j..<cv_n L]), buf (b * cv_n L + cv_n L), buf (b * cv_n L + cv_n L), l')
    \<and> cv_lanes hw L c True l'"
proof (induction "cv_n L - j" arbitrary: j l)
  case 0
  then have "j = cv_n L" "j \<noteq> 0" using cv_n_pos [OF ok] by auto
  then show ?case using 0 by simp
next
  case (Suc d)
  then have j: "j < cv_n L" and up: "[j..<cv_n L] = j # [Suc j..<cv_n L]" by (auto simp: upt_conv_Cons)
  obtain l1 where l1: "(if of_nat (cv_ow L j) + of_nat c < OW (lay L)
           then conv_gemm hw fmadd (unat (of_nat c :: u32)) (FH (lay L) * FW (lay L) * TILE_CI (lay L))
             (tcdm L + unat (buf (b * cv_n L + j) * im2col_mat_stride L + of_nat c * im2col_row_stride L)) (cv_weights L)
             (FH (lay L) * FW (lay L) * TILE_CI (lay L) + 1)
             (cv_ofmap L + unat (buf (b * cv_n L + j) * ofmap_stride L + of_nat c * 8))
             (if snd (cv_block L b) \<noteq> 0 \<and> TILE_CI (lay L) \<noteq> CI (lay L) then 0 else 1)
             (snd (cv_block L b) = 0 \<and> of_nat (cv_ow L j) = (0 :: u32) \<and> of_nat (j mod nIH L) = (0 :: u32)) l
           else ([], l)) = (cv_cp fmadd L b j c, l1)" "cv_lanes hw L c True l1"
    using conv_core_tile_nat [OF ok b j c Suc.prems(2), of fmadd] by blast
  have "cv_lanes hw L c (cv_ci L b \<noteq> 0 \<or> Suc j \<noteq> 0) l1" using l1(2) by simp
  then obtain l2 where l2: "conv_core_tiles hw fmadd L (of_nat c) (snd (cv_block L b)) (map (cv_tile L) [Suc j..<cv_n L]) (buf (Suc (b * cv_n L + j)), buf (Suc (b * cv_n L + j)), l1)
    = (concat (map (\<lambda>k. Bar # map Act (cv_cp fmadd L b k c)) [Suc j..<cv_n L]), buf (b * cv_n L + cv_n L), buf (b * cv_n L + cv_n L), l2)"
    "cv_lanes hw L c True l2"
  proof -
    have "d = cv_n L - Suc j" "Suc j \<le> cv_n L" using Suc.hyps(2) j by auto
    then show ?thesis using Suc.hyps(1) [of "Suc j" l1] \<open>cv_lanes hw L c (cv_ci L b \<noteq> 0 \<or> Suc j \<noteq> 0) l1\<close> that by auto
  qed
  have t: "cv_tile L j = (of_nat (cv_ow L j), of_nat (j mod nIH L))" by (simp add: cv_tile_def)
  show ?case unfolding up list.map t conv_core_tiles.simps lnot_buf l1(1) Let_def using l2 by (intro exI [of _ l2]) simp
qed

lemma cv_next_block: "cv_lanes hw L c True l \<Longrightarrow> cv_lanes hw L c (cv_ci L b \<noteq> 0) l"
  by (simp add: cv_lanes_def)

lemma conv_core_from:
  assumes ok: "cv_ok L" and c: "c < 8"
  shows "b \<le> cv_blocks L \<Longrightarrow> cv_lanes hw L c (cv_ci L b \<noteq> 0) l \<Longrightarrow>
    conv_core hw fmadd L (of_nat c) (map (cv_tile L) [0..<cv_n L]) (map (cv_block L) [b..<cv_blocks L]) (buf (b * cv_n L), buf (b * cv_n L), l)
    = concat (map (\<lambda>b. core_events (cv_n L) (\<lambda>k. cv_cp fmadd L b k c)) [b..<cv_blocks L])"
proof (induction "cv_blocks L - b" arbitrary: b l)
  case (Suc d)
  then have b: "b < cv_blocks L" and up: "[b..<cv_blocks L] = b # [Suc b..<cv_blocks L]" by (auto simp: upt_conv_Cons)
  have "cv_lanes hw L c (cv_ci L b \<noteq> 0 \<or> 0 \<noteq> (0 :: nat)) l" using Suc.prems(2) by simp
  then obtain l' where l': "conv_core_tiles hw fmadd L (of_nat c) (snd (cv_block L b)) (map (cv_tile L) [0..<cv_n L]) (buf (b * cv_n L), buf (b * cv_n L), l)
      = (concat (map (\<lambda>k. Bar # map Act (cv_cp fmadd L b k c)) [0..<cv_n L]), buf (b * cv_n L + cv_n L), buf (b * cv_n L + cv_n L), l')" "cv_lanes hw L c True l'"
    using conv_core_tiles_from [OF ok b c le0, of hw l fmadd] by auto
  have cb: "cv_block L b = (fst (cv_block L b), snd (cv_block L b))" by simp
  have IH: "conv_core hw fmadd L (of_nat c) (map (cv_tile L) [0..<cv_n L]) (map (cv_block L) [Suc b..<cv_blocks L])
      (buf (b * cv_n L + cv_n L), buf (b * cv_n L + cv_n L), l')
    = concat (map (\<lambda>b. core_events (cv_n L) (\<lambda>k. cv_cp fmadd L b k c)) [Suc b..<cv_blocks L])"
    using Suc.hyps(1) [of "Suc b" l'] Suc.hyps(2) b cv_next_block [OF l'(2)] by (simp add: add.commute)
  show ?case unfolding up list.map
    by (subst cb, subst conv_core.simps) (simp add: l'(1) IH core_events_def)
qed simp

section \<open>The layer\<close>

definition cv_threads :: "(u64 list \<Rightarrow> u64) \<Rightarrow> layer_ctx \<Rightarrow> nat \<Rightarrow> ev list list" where
  "cv_threads fmadd L b = cv_dm_block L b # map (\<lambda>c. core_events (cv_n L) (\<lambda>k. cv_cp fmadd L b k c)) [0..<8]"

lemma joined_nth:
  assumes "\<And>b. b \<in> set bs \<Longrightarrow> length (B b) = w"
  shows "joined w (map B bs) = map (\<lambda>i. concat (map (\<lambda>b. B b ! i) bs)) [0..<w]"
  using assms
proof (induction bs)
  case Nil then show ?case by (intro nth_equalityI) (simp_all add: joined_def)
next
  case (Cons b bs)
  then have "joined w (map B (b # bs)) = join (B b) (map (\<lambda>i. concat (map (\<lambda>b. B b ! i) bs)) [0..<w])" by (simp add: joined_def)
  then show ?case using Cons.prems by (intro nth_equalityI) (simp_all add: join_def)
qed

lemma conv2d_layer_nat:
  assumes ok: "cv_ok L" and st: "cv_streams_ok hw L ls"
  shows "conv2d_layer hw fmadd L ls = Some (joined 9 (map (cv_threads fmadd L) [0..<cv_blocks L]))"
proof -
  note O = cv_okD [OF ok]
  have dm: "conv_dm L (map (cv_tile L) [0..<cv_n L]) (map (cv_block L) [0..<cv_blocks L]) (0, 0, - 1, - 1) = concat (map (cv_dm_block L) [0..<cv_blocks L])"
    using conv_dm_from [OF ok, of 0] by simp
  have core: "conv_core hw fmadd L (of_nat c) (map (cv_tile L) [0..<cv_n L]) (map (cv_block L) [0..<cv_blocks L]) (0, 0, ls (unat (of_nat c :: u32)))
      = concat (map (\<lambda>b. core_events (cv_n L) (\<lambda>k. cv_cp fmadd L b k c)) [0..<cv_blocks L])" if c: "c < 8" for c
  proof -
    have "unat (of_nat c :: u32) = c" using c by (intro unat_eqI) simp_all
    moreover have "cv_lanes hw L c (cv_ci L 0 \<noteq> 0) (ls c)"
      using st c by (simp add: cv_lanes_def cv_streams_ok_def cv_ci_def cv_strides(2) [OF ok])
    ultimately show ?thesis using conv_core_from [OF ok c, of 0 hw "ls c" fmadd] by simp
  qed
  have "conv2d_layer hw fmadd L ls = Some (concat (map (cv_dm_block L) [0..<cv_blocks L])
    # map (\<lambda>c. concat (map (\<lambda>b. core_events (cv_n L) (\<lambda>k. cv_cp fmadd L b k c)) [0..<cv_blocks L])) [0..<8])"
    using dm core by (simp add: conv2d_layer_def O(1, 2) conv_blocks_nat [OF ok] conv_tiles_nat [OF ok] u32_below_def del: upt_Suc)
  also have "\<dots> = Some (joined 9 (map (cv_threads fmadd L) [0..<cv_blocks L]))"
  proof -
    have "[0..<9] = 0 # map Suc [0..<8]" by (simp add: map_Suc_upt upt_rec)
    then show ?thesis by (subst joined_nth) (simp_all add: cv_threads_def comp_def del: upt_Suc)
  qed
  finally show ?thesis .
qed

end
