(* ===== verification/Conv2d_Tiles.thy ===== *)
theory Conv2d_Tiles
  imports Conv2d_Schedule
begin

text \<open>
  The blocks of the convolution layer keep the contract of \<open>Pipeline\<close>: where the parts of a
  tile read and write.
\<close>

section \<open>Regions\<close>

definition cv_reg :: "layer_ctx \<Rightarrow> loc \<Rightarrow> region" where
  "cv_reg L x = (case x of R c r \<Rightarrow> RRg c | M a \<Rightarrow>
     let i = tcdm L + 16 * (nK L + 1); o' = cv_wt L + 8 * (nK L + 1) in
     if tcdm L \<le> a \<and> a < i then RIb ((a - tcdm L) div (8 * (nK L + 1)))
     else if i \<le> a \<and> a < cv_wt L then RIb ((a - i) div nS L)
     else if cv_wt L \<le> a \<and> a < o' then RCon
     else if o' \<le> a \<and> a < o' + 128 then ROb ((a - o') div 64) ((a - o') mod 64 div 8)
     else if l_ofmap (lay L) \<le> a \<and> a < l_ofmap (lay L) + nIH L * nIW L * nCO L then ROut
     else if l_ifmap (lay L) \<le> a \<and> a < l_ifmap (lay L) + nIH L * nIW L * nCI L
       \<or> l_weights (lay L) \<le> a \<and> a < l_weights (lay L) + nCO L * (nFH L * nFW L) * nCI L then RIn else ROther)"

lemma cv_reg_R [simp]: "cv_reg L (R c r) = RRg c"
  by (simp add: cv_reg_def)

lemma cv_reg_im:
  assumes "h < 2" "c < 8" "i \<le> nK L"
  shows "cv_reg L (M (cv_im L h c + i)) = RIb h"
proof -
  have ci: "c * (nK L + 1) + i < 8 * (nK L + 1)" using assms(2, 3) by (intro radix_less) auto
  have e: "(h * 8 + c) * (nK L + 1) + i = h * (8 * (nK L + 1)) + (c * (nK L + 1) + i)" by (simp add: algebra_simps)
  have "h * (8 * (nK L + 1)) + (c * (nK L + 1) + i) < 2 * (8 * (nK L + 1))" by (rule radix_less [OF assms(1) ci])
  then have b: "(h * 8 + c) * (nK L + 1) + i < 16 * (nK L + 1)" unfolding e by simp
  have "((h * 8 + c) * (nK L + 1) + i) div (8 * (nK L + 1)) = h" unfolding e by (rule radix_digits(1) [OF ci])
  then show ?thesis using b by (simp add: cv_reg_def cv_im_def Let_def del: mult_Suc_right)
qed

lemma cv_reg_if:
  assumes "h < 2" "i < nS L"
  shows "cv_reg L (M (cv_if L h + i)) = RIb h"
  using radix_less [OF assms] radix_digits(1) [OF assms(2), of h]
  by (simp add: cv_reg_def cv_if_def cv_wt_def Let_def)

lemma cv_reg_wt: "i < 8 * (nK L + 1) \<Longrightarrow> cv_reg L (M (cv_wt L + i)) = RCon"
  by (simp add: cv_reg_def cv_wt_def Let_def)

lemma cv_reg_ob:
  assumes "h < 2" "c < 8" "i < 8"
  shows "cv_reg L (M (cv_ob L h c + i)) = ROb h c"
proof -
  have ci: "c * 8 + i < 8 * 8" by (rule radix_less [OF assms(2, 3)])
  have e: "(h * 8 + c) * 8 + i = h * 64 + (c * 8 + i)" by simp
  have "h * 64 + (c * 8 + i) < 2 * 64" using ci by (intro radix_less [OF assms(1)]) simp
  moreover have "(h * 64 + (c * 8 + i)) div 64 = h" "(h * 64 + (c * 8 + i)) mod 64 = c * 8 + i" "(c * 8 + i) div 8 = c"
    using ci assms(3) by auto
  ultimately show ?thesis
    unfolding cv_reg_def cv_ob_def loc.case Let_def add.assoc [of _ "(h * 8 + c) * 8"] e
    by (simp add: cv_wt_def)
qed

lemma cv_reg_outside:
  assumes "a < tcdm L \<or> tcdm L + cv_total L \<le> a"
  shows "cv_reg L (M a) = (if l_ofmap (lay L) \<le> a \<and> a < l_ofmap (lay L) + nIH L * nIW L * nCO L then ROut
     else if l_ifmap (lay L) \<le> a \<and> a < l_ifmap (lay L) + nIH L * nIW L * nCI L
       \<or> l_weights (lay L) \<le> a \<and> a < l_weights (lay L) + nCO L * (nFH L * nFW L) * nCI L then RIn else ROther)"
proof -
  have "\<not> (tcdm L \<le> a \<and> a < tcdm L + 16 * (nK L + 1))" "\<not> (tcdm L + 16 * (nK L + 1) \<le> a \<and> a < cv_wt L)"
    "\<not> (cv_wt L \<le> a \<and> a < cv_wt L + 8 * (nK L + 1))" "\<not> (cv_wt L + 8 * (nK L + 1) \<le> a \<and> a < cv_wt L + 8 * (nK L + 1) + 128)"
    using assms by (auto simp: cv_wt_def cv_total_def)
  then show ?thesis by (simp only: cv_reg_def loc.case Let_def if_False)
qed

lemma cv_reg_out: "cv_ok L \<Longrightarrow> i < nIH L * nIW L * nCO L \<Longrightarrow> cv_reg L (M (l_ofmap (lay L) + i)) = ROut"
  using cv_reg_outside [OF apart_fromD(1) [OF cv_apart(3)]] by simp

lemma cv_reg_in:
  assumes "cv_ok L"
  shows "i < nIH L * nIW L * nCI L \<Longrightarrow> cv_reg L (M (l_ifmap (lay L) + i)) = RIn"
    "i < nCO L * (nFH L * nFW L) * nCI L \<Longrightarrow> cv_reg L (M (l_weights (lay L) + i)) = RIn"
  using cv_reg_outside [OF apart_fromD(1) [OF cv_apart(1) [OF assms]], of i] apart_fromD(2) [OF cv_apart(4) [OF assms], of i]
    cv_reg_outside [OF apart_fromD(1) [OF cv_apart(2) [OF assms]], of i] apart_fromD(2) [OF cv_apart(5) [OF assms], of i]
  by simp_all

lemma cv_half_less [simp]: "cv_half L b k < 2"
  by (simp add: cv_half_def)

section \<open>Targets\<close>

lemma cv_pre_targets:
  "x \<in> targets (cv_pre L b) \<longleftrightarrow> (\<exists>j<8. \<exists>f<nFH L * nFW L. \<exists>i<nT L. x = M (cv_wt L + (j * (nK L + 1) + (f * nT L + i))))"
  by (simp add: cv_pre_def copy_row_targets Bex_def add.assoc)

lemma cv_kernel_index: "f < nFH L * nFW L \<Longrightarrow> i < nT L \<Longrightarrow> f * nT L + i < nK L"
  unfolding nK_def by (rule radix_less)

lemma cv_put_targets:
  "x \<in> targets (cv_put L b h k) \<longleftrightarrow> (\<exists>j<cv_pix L k. \<exists>i<8. x = M (l_ofmap (lay L) + ((cv_oh L k * nIW L + (cv_ow L k + j)) * nCO L + (cv_co L b + i))))"
  by (simp add: cv_put_def copy_row_targets Bex_def add.assoc)

lemma cv_mat_targets:
  "x \<in> targets (cv_mat L b k c) \<longleftrightarrow> (\<exists>fh<nFH L. \<exists>i<nFW L * nT L. x = M (cv_im L (cv_half L b k) c + (fh * (nFW L * nT L) + i)))"
  by (simp add: cv_mat_def copy_row_targets Bex_def add.assoc)

lemma cv_mat_index: "fh < nFH L \<Longrightarrow> i < nFW L * nT L \<Longrightarrow> fh * (nFW L * nT L) + i < nK L"
  using radix_less [of fh "nFH L" i "nFW L * nT L"] by (simp add: nK_def mult.assoc)

lemma gemm_trace_targets:
  "x \<in> targets (gemm_trace fmadd c K A B C keep) \<Longrightarrow> (\<exists>r. x = R c r) \<or> (\<exists>i<8. x = M (C + i))"
  by (auto simp: gemm_trace_def split: if_splits)

lemma gemm_trace_stores: "i < 8 \<Longrightarrow> M (C + i) \<in> targets (gemm_trace fmadd c K A B C keep)"
  by (auto simp: gemm_trace_def)

text \<open>A line of the strip writes all pixels of the line that are read, and only the line.\<close>

lemma cv_line_targets:
  assumes "cv_ok L" "k < cv_n L"
  shows "x \<in> targets (cv_line L b k fh) \<Longrightarrow> \<exists>i<nW L * nT L. x = M (cv_if L (cv_half L b k) + (fh * (nW L * nT L) + i))"
    "i < cv_read L k * nT L \<Longrightarrow> M (cv_if L (cv_half L b k) + (fh * (nW L * nT L) + i)) \<in> targets (cv_line L b k fh)"
proof -
  note O = cv_okD [OF assms(1)] and Q = cv_padding [OF assms]
  let ?d = "cv_if L (cv_half L b k) + fh * (nW L * nT L)"
  obtain g where g: "nT L = 8 * g" "0 < g" using O(10, 11) by (auto elim!: dvdE)
  have z: "y \<in> targets (zero_row ?d (m * (nT L div 8))) \<longleftrightarrow> (\<exists>i<m * nT L. y = M (?d + i))" if "0 < m" for m y
    using zero_row_targets [of "m * g" y ?d] that g by (simp add: mult.left_commute)
  have c: "y \<in> targets (cv_copy L b k fh) \<longleftrightarrow> (\<exists>x<cv_read L k - cv_left L k - cv_right L k. \<exists>i<nT L. y = M (?d + ((cv_left L k + x) * nT L + i)))" for y
    by (simp add: cv_copy_def copy_row_targets Bex_def add.assoc)
  have W: "0 < nW L" by (simp add: nW_def)
  have rW: "cv_read L k * nT L \<le> nW L * nT L" using Q(4) by (rule mult_le_mono1)
  have cW: "(cv_left L k + x) * nT L + i < nW L * nT L" if "x < cv_read L k - cv_left L k - cv_right L k" "i < nT L" for x i
    using that Q(4) by (intro radix_less) auto
  show "\<exists>i<nW L * nT L. x = M (cv_if L (cv_half L b k) + (fh * (nW L * nT L) + i))" if a: "x \<in> targets (cv_line L b k fh)"
  proof -
    consider "x \<in> targets (zero_row ?d (cv_read L k * (nT L div 8)))" | "x \<in> targets (zero_row ?d (nW L * (nT L div 8)))" | "x \<in> targets (cv_copy L b k fh)"
      using a unfolding cv_line_def by (auto split: if_splits)
    then show ?thesis
    proof cases
      case 1
      then obtain i where "i < cv_read L k * nT L" "x = M (?d + i)" using z [OF Q(9)] by auto
      then show ?thesis using less_le_trans [OF _ rW, of i] by (intro exI [of _ i]) (simp add: add.assoc)
    next
      case 2
      then obtain i where "i < nW L * nT L" "x = M (?d + i)" using z [OF W] by auto
      then show ?thesis by (intro exI [of _ i]) (simp add: add.assoc)
    next
      case 3
      then obtain y i where "y < cv_read L k - cv_left L k - cv_right L k" "i < nT L" "x = M (?d + ((cv_left L k + y) * nT L + i))"
        using c by auto
      then show ?thesis using cW [of y i] by (intro exI [of _ "(cv_left L k + y) * nT L + i"]) (simp add: add.assoc)
    qed
  qed
  show "M (cv_if L (cv_half L b k) + (fh * (nW L * nT L) + i)) \<in> targets (cv_line L b k fh)" if i: "i < cv_read L k * nT L"
  proof -
    have e: "M (cv_if L (cv_half L b k) + (fh * (nW L * nT L) + i)) = M (?d + i)" by (simp add: add.assoc)
    consider "cv_oh L k + fh < npad L \<or> nIH L + npad L \<le> cv_oh L k + fh"
      | "\<not> (cv_oh L k + fh < npad L \<or> nIH L + npad L \<le> cv_oh L k + fh)" "cv_left L k \<noteq> 0 \<or> cv_right L k \<noteq> 0"
      | "\<not> (cv_oh L k + fh < npad L \<or> nIH L + npad L \<le> cv_oh L k + fh)" "cv_left L k = 0" "cv_right L k = 0" by blast
    then show ?thesis
    proof cases
      case 1 then show ?thesis unfolding e cv_line_def using z [OF Q(9)] i by simp
    next
      case 2
      have "M (?d + i) \<in> targets (zero_row ?d (nW L * (nT L div 8)))" unfolding z [OF W] using less_le_trans [OF i rW] by blast
      then show ?thesis unfolding e cv_line_def using 2 by simp
    next
      case 3
      have "i div nT L < cv_read L k" "i mod nT L < nT L" using i O(11) by (simp_all add: less_mult_imp_div_less)
      moreover have "i = i div nT L * nT L + i mod nT L" by simp
      ultimately have "\<exists>x<cv_read L k. \<exists>j<nT L. M (?d + i) = M (?d + (x * nT L + j))" by metis
      then have "M (?d + i) \<in> targets (cv_copy L b k fh)" unfolding c 3(2, 3) by simp
      then show ?thesis unfolding e cv_line_def using 3 by simp
    qed
  qed
qed

lemma cv_line_index: "fh < nFH L \<Longrightarrow> i < nW L * nT L \<Longrightarrow> fh * (nW L * nT L) + i < nS L"
  unfolding nS_def by (rule radix_less)

lemma cv_zero_targets:
  assumes "cv_ok L" "k < cv_n L"
  shows "x \<in> targets (zero_row (cv_ob L h 0) (cv_pix L k)) \<longleftrightarrow> (\<exists>c<cv_pix L k. \<exists>i<8. x = M (cv_ob L h c + i))"
proof -
  have "x \<in> targets (zero_row (cv_ob L h 0) (cv_pix L k)) \<longleftrightarrow> (\<exists>i<8 * cv_pix L k. x = M (cv_ob L h 0 + i))"
    by (rule zero_row_targets [OF cv_tile_bounds(3) [OF assms]])
  also have "\<dots> \<longleftrightarrow> (\<exists>c<cv_pix L k. \<exists>i<8. x = M (cv_ob L h c + i))"
  proof
    assume "\<exists>i<8 * cv_pix L k. x = M (cv_ob L h 0 + i)"
    then obtain i where i: "i < 8 * cv_pix L k" "x = M (cv_ob L h 0 + i)" by blast
    have "cv_ob L h 0 + i = cv_ob L h 0 + i div 8 * 8 + i mod 8" by simp
    then have "cv_ob L h 0 + i = cv_ob L h (i div 8) + i mod 8" by (simp only: cv_ob_step)
    then show "\<exists>c<cv_pix L k. \<exists>i<8. x = M (cv_ob L h c + i)" using i by (intro exI [of _ "i div 8"] exI [of _ "i mod 8"]) auto
  next
    assume "\<exists>c<cv_pix L k. \<exists>i<8. x = M (cv_ob L h c + i)"
    then obtain c i where c: "c < cv_pix L k" "i < 8" "x = M (cv_ob L h c + i)" by blast
    have "cv_ob L h c + i = cv_ob L h 0 + (c * 8 + i)" using cv_ob_step [of L h c] by simp
    then show "\<exists>i<8 * cv_pix L k. x = M (cv_ob L h 0 + i)"
      using radix_less [OF c(1, 2)] c(3) by (intro exI [of _ "c * 8 + i"]) auto
  qed
  finally show ?thesis .
qed

section \<open>Operands\<close>

lemma copy_row_sources: "a \<in> set (copy_row dst src n) \<Longrightarrow> y \<in> set (sources a) \<Longrightarrow> \<exists>i<n. y = M (src + i)"
  by (auto simp: copy_row_def)

lemma defined_map: "(\<And>x. x \<in> set xs \<Longrightarrow> set (sources (f x)) \<subseteq> X) \<Longrightarrow> defined X (map f xs)"
proof (induction xs arbitrary: X)
  case (Cons x xs)
  have "set (sources (f x)) \<subseteq> X" "\<And>y. y \<in> set xs \<Longrightarrow> set (sources (f y)) \<subseteq> insert (target (f x)) X"
    using Cons.prems by auto
  then show ?case using Cons.IH [of "insert (target (f x)) X"] by simp
qed simp

lemma gemm_trace_defined:
  assumes "keep \<Longrightarrow> (\<And>i. i < 8 \<Longrightarrow> M (C + i) \<in> X)" "\<And>m. m < K \<Longrightarrow> M (A + m) \<in> X"
    "\<And>m i. m < K \<Longrightarrow> i < 8 \<Longrightarrow> M (B + i * (K + 1) + m) \<in> X"
  shows "defined X (gemm_trace fmadd c K A B C keep)"
  using assms unfolding gemm_trace_def defined_append
  by (intro conjI defined_concat defined_map) (auto intro!: defined_map)

lemma cv_pre_defined:
  assumes "cv_ok L" "b < cv_blocks L"
  shows "defined {x. cv_reg L x = RIn} (cv_pre L b)"
  unfolding cv_pre_def
proof (intro defined_concat, clarsimp, intro defined_concat, clarsimp, intro copy_row_defined CollectI)
  fix j f i :: nat assume "j < 8" "f < nFH L * nFW L" "i < nT L"
  then show "cv_reg L (M (l_weights (lay L) + (((cv_co L b + j) * (nFH L * nFW L) + f) * nCI L + cv_ci L b) + i)) = RIn"
    using cv_reg_in(2) [OF assms(1) cv_weight_bound [OF assms], of j f i] by (simp add: add.assoc)
qed

lemma cv_read_pix:
  assumes "cv_ok L" "k < cv_n L"
  shows "cv_read L k = cv_pix L k + 2 * npad L" "c < cv_pix L k \<Longrightarrow> c + nFW L \<le> cv_read L k"
  using cv_okD(4, 5) [OF assms(1)] cv_tile_bounds(1) [OF assms] by (auto simp: cv_read_def cv_pix_def nW_def)

lemma cv_copy_bound:
  assumes "cv_ok L" "k < cv_n L" "b < cv_blocks L" "fh < nFH L" "npad L \<le> cv_oh L k + fh" "cv_oh L k + fh < nIH L + npad L"
    and "x < cv_read L k - cv_left L k - cv_right L k" "i < nT L"
  shows "((cv_oh L k + fh - npad L) * nIW L + (cv_ow L k + cv_left L k + x - npad L)) * nCI L + (cv_ci L b + i) < nIH L * nIW L * nCI L"
proof -
  note Q = cv_padding [OF assms(1, 2)]
  have "cv_left L k + x < cv_read L k - cv_right L k" using assms(7) by simp
  then have "cv_ow L k + cv_left L k + x - npad L < nIW L" using Q(5) [of "cv_left L k + x"] Q(1) by simp
  moreover have "cv_oh L k + fh - npad L < nIH L" using assms(5, 6) by simp
  moreover have "cv_ci L b + i < nCI L" using cv_block_bounds(2) [OF assms(1, 3)] assms(8) by simp
  ultimately show ?thesis by (intro radix_less)
qed

lemma cv_line_defined:
  assumes "cv_ok L" "k < cv_n L" "b < cv_blocks L" "fh < nFH L"
  shows "defined {x. cv_reg L x = RIn} (cv_line L b k fh)"
proof (cases "cv_oh L k + fh < npad L \<or> nIH L + npad L \<le> cv_oh L k + fh")
  case False
  have "defined {x. cv_reg L x = RIn} (cv_copy L b k fh)" unfolding cv_copy_def
  proof (intro defined_concat, clarsimp simp del: diff_diff_left, intro copy_row_defined CollectI)
    fix x i assume "x < cv_read L k - cv_left L k - cv_right L k" "i < nT L"
    then show "cv_reg L (M (l_ifmap (lay L) + (((cv_oh L k + fh - npad L) * nIW L + (cv_ow L k + cv_left L k + x - npad L)) * nCI L + cv_ci L b) + i)) = RIn"
      using cv_reg_in(1) [OF assms(1) cv_copy_bound [OF assms], of x i] False by (simp add: add.assoc)
  qed
  then show ?thesis using False by (simp add: cv_line_def zero_row_defined defined_mono)
qed (simp add: cv_line_def zero_row_defined)

lemma cv_mat_defined:
  assumes "cv_ok L" "k < cv_n L" "c < cv_pix L k"
  shows "defined (\<Union>fh<nFH L. targets (cv_line L b k fh)) (cv_mat L b k c)"
  unfolding cv_mat_def
proof (intro defined_concat, clarsimp, intro copy_row_defined UN_I)
  fix fh i assume fh: "fh < nFH L" and i: "i < nFW L * nT L"
  show "fh \<in> {..<nFH L}" using fh by simp
  have "c * nT L + i < (c + nFW L) * nT L" using i by (simp add: add_mult_distrib)
  also have "\<dots> \<le> cv_read L k * nT L" using cv_read_pix(2) [OF assms] by (rule mult_le_mono1)
  finally show "M (cv_if L (cv_half L b k) + fh * (nW L * nT L) + c * nT L + i) \<in> targets (cv_line L b k fh)"
    using cv_line_targets(2) [OF assms(1, 2), of "c * nT L + i" b fh] by (simp add: add.assoc)
qed

lemma cv_ld_targets:
  assumes "cv_ok L" "k < cv_n L"
  shows "x \<in> targets (cv_ld L b k) \<longleftrightarrow> (cv_ci L b = 0 \<and> (\<exists>c<cv_pix L k. \<exists>i<8. x = M (cv_ob L (cv_half L b k) c + i)))
    \<or> (\<exists>fh<nFH L. x \<in> targets (cv_line L b k fh)) \<or> (\<exists>c<cv_pix L k. x \<in> targets (cv_mat L b k c))"
  unfolding cv_ld_def using cv_zero_targets [OF assms, of x "cv_half L b k"] by (auto simp: Bex_def)

lemma cv_ld_defined:
  assumes "cv_ok L" "k < cv_n L" "b < cv_blocks L"
  shows "defined {x. cv_reg L x = RIn} (cv_ld L b k)"
proof -
  have l: "defined X (concat (map (cv_line L b k) [0..<nFH L]))" if "{x. cv_reg L x = RIn} \<subseteq> X" for X
    by (rule defined_concat) (auto intro: defined_mono [OF cv_line_defined [OF assms] that])
  have m: "defined X (concat (map (cv_mat L b k) [0..<cv_pix L k]))" if "(\<Union>fh<nFH L. targets (cv_line L b k fh)) \<subseteq> X" for X
    by (rule defined_concat) (auto intro: defined_mono [OF cv_mat_defined [OF assms(1, 2)] that])
  show ?thesis unfolding cv_ld_def defined_append by (intro conjI l m) (auto simp: zero_row_defined)
qed

section \<open>Which tile holds a pixel\<close>

lemma rot_inj: "a < n \<Longrightarrow> b < n \<Longrightarrow> (r + a) mod n = (r + b) mod (n :: nat) \<Longrightarrow> a = b"
proof -
  assume a: "a < n" "b < n" "(r + a) mod n = (r + b) mod n"
  have "(int r + int a) mod int n = (int r + int b) mod int n" using a(3) by (metis of_nat_add zmod_int)
  then have "(int r + int a - int r) mod int n = (int r + int b - int r) mod int n" by (rule mod_diff_cong) simp
  then show ?thesis using a(1, 2) by simp
qed

lemma digits_eq: "k div n = k' div n \<Longrightarrow> k mod n = k' mod n \<Longrightarrow> k = (k' :: nat)"
  by (metis div_mult_mod_eq)

lemma cv_tile_inj:
  assumes "cv_ok L" "cv_oh L k = cv_oh L k'" "cv_ow L k + j = cv_ow L k' + j'" "j < 8" "j' < 8"
  shows "k = k' \<and> j = j'"
proof -
  have q: "k div nIH L = k' div nIH L" "j = j'" using radix_inj [OF assms(4, 5) assms(3) [unfolded cv_ow_def]] by simp_all
  have "k mod nIH L = k' mod nIH L"
    by (rule rot_inj [of _ "nIH L" _ "cv_rot L"]) (use assms(2) cv_okD(8) [OF assms(1)] in \<open>simp_all add: cv_oh_def\<close>)
  then have "k = k'" by (rule digits_eq [OF q(1)])
  then show ?thesis using q(2) by simp
qed

lemma cv_tile_of:
  assumes "cv_ok L" "r < nIH L" "y < nIW L"
  obtains k j where "k < cv_n L" "j < cv_pix L k" "cv_oh L k = r" "cv_ow L k + j = y"
proof -
  note O = cv_okD [OF assms(1)]
  let ?a = "(r + nIH L * (cv_rot L + 1) - cv_rot L) mod nIH L" and ?k = "y div 8 * nIH L + (r + nIH L * (cv_rot L + 1) - cv_rot L) mod nIH L"
  have a: "?a < nIH L" using O(8) by simp
  have le: "cv_rot L \<le> r + nIH L * (cv_rot L + 1)" using O(8) by (cases "nIH L") auto
  have "(cv_rot L + ?a) mod nIH L = (cv_rot L + (r + nIH L * (cv_rot L + 1) - cv_rot L)) mod nIH L" by (rule mod_add_right_eq)
  also have "cv_rot L + (r + nIH L * (cv_rot L + 1) - cv_rot L) = r + nIH L * (cv_rot L + 1)" using le by simp
  also have "\<dots> mod nIH L = r" using assms(2) by (simp only: mod_mult_self2 mod_less)
  finally have "(cv_rot L + ?a) mod nIH L = r" .
  moreover have "?k mod nIH L = ?a" by (rule radix_digits(2) [OF a])
  ultimately have oh: "cv_oh L ?k = r" by (simp only: cv_oh_def)
  have ow: "cv_ow L ?k = y div 8 * 8" using a by (simp add: cv_ow_def radix_digits)
  have "y div 8 < trips 0 (nIW L) 8" using assms(3) by (simp add: less_trips)
  then have k: "?k < cv_n L" unfolding cv_n_def using a by (rule radix_less)
  moreover have "y mod 8 < cv_pix L ?k" "cv_ow L ?k + y mod 8 = y"
    using cv_tile_bounds(7) [OF assms(1) k, of "y mod 8"] assms(3) ow by (simp_all add: ow)
  ultimately show ?thesis using that oh by blast
qed

lemma cv_put_inj:
  assumes "cv_ok L" "b < cv_blocks L" "b' < cv_blocks L" "k < cv_n L" "k' < cv_n L" "j < cv_pix L k" "j' < cv_pix L k'" "i < 8" "i' < 8"
    and "(cv_oh L k * nIW L + (cv_ow L k + j)) * nCO L + (cv_co L b + i) = (cv_oh L k' * nIW L + (cv_ow L k' + j')) * nCO L + (cv_co L b' + i')"
  shows "k = k' \<and> j = j' \<and> cv_co L b = cv_co L b' \<and> i = i'"
proof -
  have c: "cv_co L b + i < nCO L" "cv_co L b' + i' < nCO L"
    using cv_block_bounds(1) [OF assms(1, 2)] cv_block_bounds(1) [OF assms(1, 3)] assms(8, 9) by linarith+
  note T = cv_tile_bounds [OF assms(1, 4)] and T' = cv_tile_bounds [OF assms(1, 5)]
  have "cv_ow L k + j < nIW L" "cv_ow L k' + j' < nIW L" using T(5) T'(5) assms(6, 7) by simp_all
  note p = radix_inj [OF this conjunct1 [OF radix_inj [OF c assms(10)]]] and e = conjunct2 [OF radix_inj [OF c assms(10)]]
  have "j < 8" "j' < 8" using T(4) T'(4) assms(6, 7) by linarith+
  then have "k = k' \<and> j = j'" using p by (intro cv_tile_inj [OF assms(1)]) simp_all
  moreover have "cv_co L b = cv_co L b' \<and> i = i'" using radix_inj [OF assms(8, 9) e [unfolded cv_co_def]] by (simp add: cv_co_def)
  ultimately show ?thesis by blast
qed

section \<open>The contract\<close>

lemma cv_obuf_reg:
  assumes "cv_ok L" "k < cv_n L" "c < cv_pix L k" "i < 8" "h < 2"
  shows "cv_reg L (M (cv_ob L h c + i)) = ROb h c"
  using cv_tile_bounds(4) [OF assms(1, 2)] assms(3-5) by (intro cv_reg_ob) auto

lemma cv_aux_touches:
  assumes "cv_ok L" "k < cv_n L" "b < cv_blocks L"
  shows "x \<in> targets (cv_aux L b k) \<Longrightarrow> \<exists>c. cv_reg L x = ROb (cv_half L b k) c"
    "a \<in> set (cv_aux L b k) \<Longrightarrow> y \<in> set (sources a) \<Longrightarrow> cv_reg L y = ROut"
proof -
  show "\<exists>c. cv_reg L x = ROb (cv_half L b k) c" if "x \<in> targets (cv_aux L b k)"
    using that cv_obuf_reg [OF assms(1, 2)] by (auto simp: cv_aux_def copy_row_targets split: if_splits)
  assume "a \<in> set (cv_aux L b k)" "y \<in> set (sources a)"
  then obtain j i where "j < cv_pix L k" "i < 8" "y = M (l_ofmap (lay L) + ((cv_oh L k * nIW L + (cv_ow L k + j)) * nCO L + cv_co L b) + i)"
    unfolding cv_aux_def by (auto dest!: copy_row_sources split: if_splits)
  then show "cv_reg L y = ROut" using cv_reg_out [OF assms(1) cv_out_bound [OF assms]] by (simp add: add.assoc)
qed

lemma cv_ld_touches:
  assumes "cv_ok L" "k < cv_n L" "x \<in> targets (cv_ld L b k)"
  shows "cv_reg L x = RIb (cv_half L b k) \<or> (\<exists>c. cv_reg L x = ROb (cv_half L b k) c)"
proof -
  consider c i where "c < cv_pix L k" "i < 8" "x = M (cv_ob L (cv_half L b k) c + i)" | fh where "fh < nFH L" "x \<in> targets (cv_line L b k fh)"
    | c where "c < cv_pix L k" "x \<in> targets (cv_mat L b k c)" using assms(3) unfolding cv_ld_targets [OF assms(1, 2)] by blast
  then show ?thesis
  proof cases
    case (1 c i) then show ?thesis using cv_obuf_reg [OF assms(1, 2)] by auto
  next
    case (2 fh)
    then obtain i where "i < nW L * nT L" "x = M (cv_if L (cv_half L b k) + (fh * (nW L * nT L) + i))"
      using cv_line_targets(1) [OF assms(1, 2)] by blast
    then show ?thesis using cv_reg_if [of "cv_half L b k" _ L] cv_line_index [OF 2(1)] by simp
  next
    case (3 c)
    then obtain fh i where "fh < nFH L" "i < nFW L * nT L" "x = M (cv_im L (cv_half L b k) c + (fh * (nFW L * nT L) + i))"
      unfolding cv_mat_targets by blast
    then show ?thesis using cv_reg_im [of "cv_half L b k" c _ L] cv_mat_index [of fh L i] 3(1) cv_tile_bounds(4) [OF assms(1, 2)] by simp
  qed
qed

lemma cv_mat_full:
  assumes "cv_ok L" "m < nK L"
  shows "M (cv_im L (cv_half L b k) c + m) \<in> targets (cv_mat L b k c)"
proof -
  let ?w = "nFW L * nT L"
  have w: "0 < ?w" using cv_okD(4, 5, 11) [OF assms(1)] by simp
  have "m div ?w < nFH L" "m mod ?w < ?w" using assms(2) w by (simp_all add: nK_def less_mult_imp_div_less mult.assoc)
  moreover have "m = m div ?w * ?w + m mod ?w" by (rule div_mult_mod_eq [symmetric])
  ultimately show ?thesis unfolding cv_mat_targets by metis
qed

lemma cv_cp_touches:
  assumes "cv_ok L" "k < cv_n L" "c < 8"
  shows "x \<in> targets (cv_cp fmadd L b k c) \<Longrightarrow> cv_reg L x = ROb (cv_half L b k) c \<or> cv_reg L x = RRg c"
    "defined ({x. cv_reg L x = RCon} \<union> {x \<in> targets (cv_ld L b k). cv_reg L x = RIb (cv_half L b k) \<or> cv_reg L x = ROb (cv_half L b k) c}) (cv_cp fmadd L b k c)"
proof -
  let ?h = "cv_half L b k"
  show "cv_reg L x = ROb ?h c \<or> cv_reg L x = RRg c" if "x \<in> targets (cv_cp fmadd L b k c)"
    using that gemm_trace_targets [of x fmadd c "nK L" "cv_im L ?h c" "cv_wt L" "cv_ob L ?h c" "cv_ci L b = 0"] cv_obuf_reg [OF assms(1, 2)]
    by (auto simp: cv_cp_trace split: if_splits)
  show "defined ({x. cv_reg L x = RCon} \<union> {x \<in> targets (cv_ld L b k). cv_reg L x = RIb ?h \<or> cv_reg L x = ROb ?h c}) (cv_cp fmadd L b k c)" (is "defined ?X _")
  proof (cases "c < cv_pix L k")
    case True
    have "M (cv_ob L ?h c + i) \<in> ?X" if "cv_ci L b = 0" "i < 8" for i
    proof -
      have "M (cv_ob L ?h c + i) \<in> targets (cv_ld L b k)" unfolding cv_ld_targets [OF assms(1, 2)] using that True by blast
      then show ?thesis using cv_obuf_reg [OF assms(1, 2) True that(2), of ?h] by simp
    qed
    moreover have "M (cv_im L ?h c + m) \<in> ?X" if "m < nK L" for m
    proof -
      have "M (cv_im L ?h c + m) \<in> targets (cv_ld L b k)" unfolding cv_ld_targets [OF assms(1, 2)] using cv_mat_full [OF assms(1) that] True by blast
      then show ?thesis using cv_reg_im [of ?h c m L] that assms(3) by simp
    qed
    moreover have "M (cv_wt L + i * (nK L + 1) + m) \<in> ?X" if "m < nK L" "i < 8" for m i
      using cv_reg_wt [of "i * (nK L + 1) + m" L] radix_less [of i 8 m "nK L + 1"] that by (simp add: add.assoc)
    ultimately show ?thesis using True unfolding cv_cp_trace by (simp only: if_True) (rule gemm_trace_defined, blast+)
  qed (simp add: cv_cp_trace)
qed

lemma cv_put_sources:
  assumes "a \<in> set (cv_put L b h k)" "y \<in> set (sources a)"
  shows "\<exists>j<cv_pix L k. \<exists>i<8. y = M (cv_ob L h j + i)"
  using assms unfolding cv_put_def by (auto dest!: copy_row_sources)

lemma cv_put_out: "cv_ok L \<Longrightarrow> k < cv_n L \<Longrightarrow> b < cv_blocks L \<Longrightarrow> x \<in> targets (cv_put L b h k) \<Longrightarrow> cv_reg L x = ROut"
  unfolding cv_put_targets using cv_reg_out cv_out_bound by auto

lemma cv_st_defined:
  assumes "cv_ok L" "k < cv_n L"
  shows "defined {x. \<exists>c<8. x \<in> targets (cv_cp fmadd L b k c) \<and> cv_reg L x = ROb (cv_half L b k) c} (cv_st L b k)"
  unfolding cv_put_def
proof (intro defined_concat, clarsimp, intro copy_row_defined CollectI)
  fix j i :: nat assume j: "j < cv_pix L k" "i < 8"
  then show "\<exists>c<8. M (cv_ob L (cv_half L b k) j + i) \<in> targets (cv_cp fmadd L b k c) \<and> cv_reg L (M (cv_ob L (cv_half L b k) j + i)) = ROb (cv_half L b k) c"
    using gemm_trace_stores cv_obuf_reg [OF assms j, of "cv_half L b k"] cv_tile_bounds(4) [OF assms] by (intro exI [of _ j]) (simp add: cv_cp_trace)
qed

lemma cv_contract:
  assumes "cv_ok L" "b < cv_blocks L"
  shows "pipeline (cv_n L) 8 (b * cv_n L) (cv_reg L) (cv_pre L b) (cv_aux L b) (cv_ld L b) (cv_cp fmadd L b) (cv_stale L b) (cv_st L b)"
proof (unfold_locales, unfold cv_half_def [symmetric])
  show "0 < cv_n L" by (rule cv_n_pos [OF assms(1)])
  show "cv_reg L x = RCon" if "x \<in> targets (cv_pre L b)" for x
  proof -
    obtain j f i where "j < 8" "f < nFH L * nFW L" "i < nT L" and x: "x = M (cv_wt L + (j * (nK L + 1) + (f * nT L + i)))"
      using \<open>x \<in> targets (cv_pre L b)\<close> unfolding cv_pre_targets by blast
    then have "f * nT L + i < nK L + 1" using cv_kernel_index [of f L i] by simp
    then show ?thesis unfolding x by (intro cv_reg_wt radix_less [OF \<open>j < 8\<close>])
  qed
  show "defined {x. cv_reg L x = RIn} (cv_pre L b)" by (rule cv_pre_defined [OF assms])
  fix k assume k: "k < cv_n L"
  show "x \<in> targets (cv_aux L b k) \<Longrightarrow> \<exists>c. cv_reg L x = ROb (cv_half L b k) c" for x by (rule cv_aux_touches [OF assms(1) k assms(2)])
  show "a \<in> set (cv_aux L b k) \<Longrightarrow> y \<in> set (sources a) \<Longrightarrow> cv_reg L y = ROut" for a y by (rule cv_aux_touches [OF assms(1) k assms(2)])
  show "x \<in> targets (cv_ld L b k) \<Longrightarrow> cv_reg L x = RIb (cv_half L b k) \<or> (\<exists>c. cv_reg L x = ROb (cv_half L b k) c)" for x
    by (rule cv_ld_touches [OF assms(1) k])
  show "defined {x. cv_reg L x = RIn} (cv_ld L b k)" by (rule cv_ld_defined [OF assms(1) k assms(2)])
  show "c < 8 \<Longrightarrow> x \<in> targets (cv_cp fmadd L b k c) \<Longrightarrow> cv_reg L x = ROb (cv_half L b k) c \<or> cv_reg L x = RRg c" for c x
    by (rule cv_cp_touches [OF assms(1) k])
  show "c < 8 \<Longrightarrow> defined ({x. cv_reg L x = RCon} \<union> {x \<in> targets (cv_ld L b k). cv_reg L x = RIb (cv_half L b k) \<or> cv_reg L x = ROb (cv_half L b k) c}) (cv_cp fmadd L b k c)" for c
    by (rule cv_cp_touches [OF assms(1) k])
  show "x \<in> targets (cv_st L b k) \<Longrightarrow> cv_reg L x = ROut" for x by (rule cv_put_out [OF assms(1) k assms(2)])
  show "defined {x. \<exists>c<8. x \<in> targets (cv_cp fmadd L b k c) \<and> cv_reg L x = ROb (cv_half L b k) c} (cv_st L b k)" by (rule cv_st_defined [OF assms(1) k])
  show "x \<in> targets (cv_st L b k) \<Longrightarrow> x \<notin> targets (cv_st L b k')" if "k' < cv_n L" "k' \<noteq> k" for k' x
  proof
    assume "x \<in> targets (cv_st L b k)" "x \<in> targets (cv_st L b k')"
    then obtain j i j' i' where "j < cv_pix L k" "j' < cv_pix L k'" "i < 8" "i' < 8"
      "(cv_oh L k * nIW L + (cv_ow L k + j)) * nCO L + (cv_co L b + i) = (cv_oh L k' * nIW L + (cv_ow L k' + j')) * nCO L + (cv_co L b + i')"
      unfolding cv_put_targets by auto
    then show False using cv_put_inj [OF assms(1, 2, 2) k that(1)] that(2) by blast
  qed
next
  fix x assume "x \<in> targets (cv_stale L b)"
  then have "x \<in> targets (cv_st L b (cv_n L - 1))" by (auto simp: cv_stale_def cv_put_targets split: if_splits)
  then show "cv_reg L x = ROut \<and> x \<in> targets (cv_st L b (cv_n L - 1))"
    using cv_put_out [OF assms(1) _ assms(2)] cv_n_pos [OF assms(1)] by (metis diff_less less_numeral_extra(1))
next
  fix a y assume "a \<in> set (cv_stale L b)" "y \<in> set (sources a)"
  then obtain j i where "j < cv_pix L (cv_n L - 1)" "i < 8" "y = M (cv_ob L (cv_half L b 1) j + i)"
    by (cases "b = 0") (auto simp: cv_stale_def dest: cv_put_sources)
  then show "\<exists>c. cv_reg L y = ROb (cv_half L b 1) c"
    using cv_obuf_reg [OF assms(1), of "cv_n L - 1"] cv_n_pos [OF assms(1)] by auto
qed

end
