(* ===== verification/Conv2d_Result.thy ===== *)
theory Conv2d_Result
  imports Conv2d_Tiles
begin

text \<open>
  What a block of the convolution layer computes: the weights and the padded strip as the data mover
  core lays them out, the products of the compute cores, and the tiles written back.
\<close>

section \<open>The product\<close>

lemma run_own:
  assumes "q \<in> set xs" "distinct xs" "\<And>p. p \<in> set xs \<Longrightarrow> p \<noteq> q \<Longrightarrow> w p \<noteq> w q \<and> w p \<notin> set (rs q)"
  shows "run (map (\<lambda>p. Asg (w p) f (rs p)) xs) s (w q) = f (map s (rs q))"
proof -
  have "run (concat (map (\<lambda>p. [Asg (w p) f (rs p)]) xs)) s (w q) = run [Asg (w q) f (rs q)] s (w q)"
  proof (rule run_concat_at [where B = "\<lambda>p. [Asg (w p) f (rs p)]" and X = "set (rs q)", OF assms(1) _ assms(2)])
    fix p assume "p \<in> set xs" "p \<noteq> q"
    then show "w q \<notin> targets [Asg (w p) f (rs p)]" using assms(3) [of p] by auto
  next
    fix p x assume "p \<in> set xs" "p \<noteq> q" "x \<in> targets [Asg (w p) f (rs p)]"
    then show "x \<notin> set (rs q)" using assms(3) [of p] by auto
  qed simp_all
  then show ?thesis by simp
qed

lemma acc_inj [simp]: "acc i = acc j \<longleftrightarrow> i = j"
  by (simp add: acc_def)

text \<open>Every core has eight sums, one per output channel, over the rows \<open>A\<close> and the columns of \<open>B\<close>.\<close>

lemma gemm_sums:
  assumes "i < 8"
  shows "run (concat (map (\<lambda>m. map (\<lambda>i. Asg (R c (acc i)) fmadd [M (a m), M (b i m), R c (acc i)]) [0..<8]) [0..<n])) s (R c (acc i))
    = fold (\<lambda>m v. fmadd [s (M (a m)), s (M (b i m)), v]) [0..<n] (s (R c (acc i)))"
proof (induction n)
  case (Suc n)
  define t where "t = run (concat (map (\<lambda>m. map (\<lambda>i. Asg (R c (acc i)) fmadd [M (a m), M (b i m), R c (acc i)]) [0..<8]) [0..<n])) s"
  have m: "t (M x) = s (M x)" for x unfolding t_def by (rule run_other) auto
  have "run (map (\<lambda>i. Asg (R c (acc i)) fmadd [M (a n), M (b i n), R c (acc i)]) [0..<8]) t (R c (acc i)) = fmadd (map t [M (a n), M (b i n), R c (acc i)])"
    by (rule run_own [where w = "\<lambda>i. R c (acc i)" and rs = "\<lambda>i. [M (a n), M (b i n), R c (acc i)]"]) (use assms in auto)
  then show ?case using Suc by (simp add: m flip: t_def)
qed simp

lemma gemm_trace_run:
  assumes "i < 8"
  shows "run (gemm_trace fmadd c K A B C keep) s (M (C + i))
    = fold (\<lambda>m a. fmadd [s (M (A + m)), s (M (B + i * (K + 1) + m)), a]) [0..<K] (if keep then s (M (C + i)) else 0)"
proof -
  define t where "t = run (map (\<lambda>i. if keep then Asg (R c (acc i)) hd [M (C + i)] else Asg (R c (acc i)) (\<lambda>_. 0) []) [0..<8]) s"
  define u where "u = run (concat (map (\<lambda>m. map (\<lambda>i. Asg (R c (acc i)) fmadd [M (A + m), M (B + i * (K + 1) + m), R c (acc i)]) [0..<8]) [0..<K])) t"
  have "t (R c (acc i)) = (if keep then s (M (C + i)) else 0)"
    using run_own [of i "[0..<8]" "\<lambda>i. R c (acc i)" "\<lambda>i. [M (C + i)]" hd s] run_own [of i "[0..<8]" "\<lambda>i. R c (acc i)" "\<lambda>i. []" "\<lambda>_. 0" s] assms
    by (cases keep) (simp_all add: t_def)
  moreover have "t (M x) = s (M x)" for x unfolding t_def by (rule run_other) (auto split: if_splits)
  ultimately have "u (R c (acc i)) = fold (\<lambda>m a. fmadd [s (M (A + m)), s (M (B + i * (K + 1) + m)), a]) [0..<K] (if keep then s (M (C + i)) else 0)"
    by (simp only: u_def gemm_sums [OF assms])
  moreover have "run (map (\<lambda>i. Asg (M (C + i)) hd [R c (acc i)]) [0..<8]) u (M (C + i)) = hd (map u [R c (acc i)])"
    by (rule run_own [where w = "\<lambda>i. M (C + i)" and rs = "\<lambda>i. [R c (acc i)]"]) (use assms in auto)
  ultimately show ?thesis unfolding gemm_trace_def run_simps t_def [symmetric] u_def [symmetric] by simp
qed

text \<open>
  The trace of a call is the kernel of \<open>Gemm\<close>: on a memory that holds the cells of the store,
  \<open>gemm_fp64_opt\<close> with the arguments of the layer leaves the cells that the trace leaves, and both
  leave the data movers configured.
\<close>

lemma gemm_operands:
  "gemm_c (ptr32 C) 0 (0, i) = ptr32 (C + i)" "gemm_a (ptr32 A) 0 (0, i) k = ptr32 (A + k)"
  "gemm_b (ptr32 B) (of_nat (K + 1)) 1 (0, i) k = ptr32 (B + i * (K + 1) + k)"
  by (simp_all add: gemm_c_def gemm_a_def gemm_b_def at8_def ptr32_def algebra_simps)

lemma unat_ptr32: "8 * x < 2 ^ 32 \<Longrightarrow> unat (ptr32 x) = 8 * x"
  unfolding ptr32_def by (rule unat_of_nat_small) simp

lemma ptr32_apart: "x \<noteq> y \<Longrightarrow> 8 * x + 8 < 2 ^ 32 \<Longrightarrow> 8 * y + 8 < 2 ^ 32 \<Longrightarrow> apart (ptr32 x) (ptr32 y)"
  using apart_below [of "ptr32 x" "ptr32 y"] apart_below [of "ptr32 y" "ptr32 x"]
  by (cases "x < y") (simp_all add: unat_ptr32 apart_sym)

lemma conv_gemm_refines_kernel:
  assumes K: "0 < K" "K \<le> 2 ^ 16"
    and top: "8 * (A + K) < 2 ^ 32" "8 * (B + 8 * (K + 1)) < 2 ^ 32" "8 * (C + 8) + 8 < 2 ^ 32"
    and out: "apart_from A K C 8" "apart_from B (8 * (K + 1)) C 8"
      "unat ALPHA + 8 \<le> 8 * C \<or> 8 * (C + 8) \<le> unat ALPHA \<and> unat ALPHA + 8 \<le> 2 ^ 32"
    and l: "if su then gemm_setup_ok hw 1 8 (of_nat K) (lanes t) else gemm_cfg 1 1 K 0 (of_nat (K + 1)) 1 (lanes t)"
    and sim: "\<And>x. 8 * x + 8 < 2 ^ 32 \<Longrightarrow> load64 (cmem t) (ptr32 x) = s (M x)" and x: "8 * x + 8 < 2 ^ 32"
    and u: "u = gemm_fp64_opt hw fpu (fma fpu) 1 8 (of_nat K) (ptr32 A) 0 0 (ptr32 B) (of_nat (K + 1)) 1 (ptr32 C) 0 ALPHA (if su then 1 else 0) t"
    and v: "conv_gemm hw (fpu fmadd_d) c (of_nat K) A B (of_nat (K + 1)) C (load32 (cmem t) ALPHA) su (lanes t) = (is, l')"
  shows "load64 (cmem u) (ptr32 x) = run is s (M x)" "gemm_cfg 1 1 K 0 (of_nat (K + 1)) 1 (lanes u)" "gemm_cfg 1 1 K 0 (of_nat (K + 1)) 1 l'"
proof -
  have k: "unat (of_nat K :: u32) = K" using K(2) by (intro unat_eqI) simp_all
  let ?c = "gemm_c (ptr32 C) 0" and ?a = "gemm_a (ptr32 A) 0" and ?b = "gemm_b (ptr32 B) (of_nat (K + 1)) 1" and ?g = "start_value (load32 (cmem t) ALPHA)"
  have g: "grid (unat (1 :: u32)) (unat (8 :: u32)) = map (Pair 0) [0..<8]" by (simp add: grid_def)
  have b: "i * (K + 1) + m < 8 * (K + 1)" if "i < 8" "m < K" for i m using that by (intro radix_less) auto
  have d: "disjoint_ops ALPHA ?c ?a ?b K (map (Pair 0) [0..<8])"
  proof (rule disjoint_region [where lo = "8 * C" and hi = "8 * (C + 8)" and w = snd])
    fix e :: "nat \<times> nat" and m assume e: "e \<in> set (map (Pair 0) [0..<8])" and m: "m < K"
    then obtain i where i: "e = (0, i)" "i < 8" by auto
    have lt: "8 * (A + m) < 2 ^ 32" "8 * (B + i * (K + 1) + m) < 2 ^ 32" using b [OF i(2) m] m top(1, 2) by simp_all
    have "unat (?a e m) = 8 * (A + m)" "unat (?b e m) = 8 * (B + i * (K + 1) + m)"
      unfolding i(1) gemm_operands by (rule unat_ptr32 [OF lt(1)], rule unat_ptr32 [OF lt(2)])
    then show "unat (?a e m) + 8 \<le> 8 * C \<or> 8 * (C + 8) \<le> unat (?a e m) \<and> unat (?a e m) + 8 \<le> 2 ^ 32"
      "unat (?b e m) + 8 \<le> 8 * C \<or> 8 * (C + 8) \<le> unat (?b e m) \<and> unat (?b e m) + 8 \<le> 2 ^ 32"
      using m b [OF i(2) m] out(1, 2) top(1, 2) by (auto simp: apart_from_def)
  qed (use top(3) out(3) in \<open>auto simp: gemm_operands unat_ptr32 inj_on_def\<close>)
  have r: "cmem u = cells (fma fpu) ?g K ?a ?b ?c (map (Pair 0) [0..<8]) (cmem t)" and "gemm_cfg 1 1 K 0 (of_nat (K + 1)) 1 (lanes u)"
    using gemm_fp64_opt_ref [where M = 1 and N = 8 and K = "of_nat K" and s = t and ldA = 0 and ldB = "of_nat (K + 1)" and tb = 1
        and setup_SSR = "if su then 1 else 0", unfolded k g gemm_ref_def, OF K _ d _ u] l by (auto split: if_splits)
  then show "gemm_cfg 1 1 K 0 (of_nat (K + 1)) 1 (lanes u)" by blast
  have tr: "is = gemm_trace (fpu fmadd_d) c K A B C (load32 (cmem t) ALPHA \<noteq> 0)" and "gemm_cfg 1 1 K 0 (of_nat (K + 1)) 1 l'"
    using conv_gemm_nat [OF K top(1, 2) l, where fmadd = "fpu fmadd_d" and c = c and C = C and alpha = "load32 (cmem t) ALPHA"] unfolding v by auto
  then show "gemm_cfg 1 1 K 0 (of_nat (K + 1)) 1 l'" by blast
  show "load64 (cmem u) (ptr32 x) = run is s (M x)"
  proof (cases "\<exists>i<8. x = C + i")
    case True
    then obtain i where i: "i < 8" "x = C + i" by blast
    have op: "load64 (cmem t) (ptr32 (A + m)) = s (M (A + m))" "load64 (cmem t) (ptr32 (B + i * (K + 1) + m)) = s (M (B + i * (K + 1) + m))" if "m < K" for m
    proof -
      have lt: "8 * (A + m) + 8 < 2 ^ 32" "8 * (B + i * (K + 1) + m) + 8 < 2 ^ 32" using that b [OF i(1) that] top(1, 2) by simp_all
      show "load64 (cmem t) (ptr32 (A + m)) = s (M (A + m))" "load64 (cmem t) (ptr32 (B + i * (K + 1) + m)) = s (M (B + i * (K + 1) + m))"
        by (rule sim [OF lt(1)], rule sim [OF lt(2)])
    qed
    have "load64 (cmem u) (?c (0, i)) = cell_value (fma fpu) ?g K (?a (0, i)) (?b (0, i)) (?c (0, i)) (cmem t)"
      unfolding r using disjoint_opsD [OF d] i(1) by (intro load64_cells) (auto simp: distinct_map inj_on_def apart_sym)
    also have "\<dots> = fold (\<lambda>m a. fpu fmadd_d [s (M (A + m)), s (M (B + i * (K + 1) + m)), a]) [0..<K] (?g (s (M (C + i))))"
      unfolding cell_value_def accumulate_def gemm_operands fma_def
      using sim [OF x] by (intro fold_cong) (simp_all only: fun_eq_iff i(2) op set_upt atLeastLessThan_iff simp_thms)
    finally show ?thesis by (simp add: gemm_operands i gemm_trace_run [OF i(1)] tr start_value_def)
  next
    case False
    then have "M x \<notin> targets is" using gemm_trace_targets [of "M x"] unfolding tr by blast
    moreover have "load64 (cmem u) (ptr32 x) = load64 (cmem t) (ptr32 x)"
      unfolding r using False x top(3) by (intro load64_cells_other) (auto simp: gemm_operands intro!: ptr32_apart)
    ultimately show ?thesis by (simp add: run_other sim [OF x])
  qed
qed

section \<open>Weights and strip\<close>

lemma cv_pre_run:
  assumes "cv_ok L" "b < cv_blocks L" "j < 8" "f < nFH L * nFW L" "i < nT L"
  shows "run (cv_pre L b) s (M (cv_wt L + (j * (nK L + 1) + (f * nT L + i))))
    = s (M (l_weights (lay L) + (((cv_co L b + j) * (nFH L * nFW L) + f) * nCI L + (cv_ci L b + i))))"
proof (rule run_parallel)
  fix a y assume a: "a \<in> set (cv_pre L b)" and y: "y \<in> set (sources a)"
  show "y \<notin> targets (cv_pre L b)"
  proof
    assume "y \<in> targets (cv_pre L b)"
    moreover obtain j f i where "j < 8" "f < nFH L * nFW L" "i < nT L" "y = M (l_weights (lay L) + (((cv_co L b + j) * (nFH L * nFW L) + f) * nCI L + (cv_ci L b + i)))"
      using a y unfolding cv_pre_def by (auto dest!: copy_row_sources simp: add.assoc)
    ultimately show False
      using pipeline.pre_target [OF cv_contract [OF assms(1, 2)]] cv_reg_in(2) [OF assms(1) cv_weight_bound [OF assms(1, 2)]] by (metis region.distinct(1))
  qed
next
  fix a assume a: "a \<in> set (cv_pre L b)" and t: "target a = M (cv_wt L + (j * (nK L + 1) + (f * nT L + i)))"
  from a obtain j' f' i' where b: "j' < 8" "f' < nFH L * nFW L" "i' < nT L"
    and a': "a = Asg (M (cv_wt L + (j' * (nK L + 1) + (f' * nT L + i')))) hd [M (l_weights (lay L) + (((cv_co L b + j') * (nFH L * nFW L) + f') * nCI L + (cv_ci L b + i')))]"
    unfolding cv_pre_def copy_row_def by (auto simp: add.assoc)
  have "f' * nT L + i' < nK L + 1" "f * nT L + i < nK L + 1" using cv_kernel_index b(2, 3) assms(4, 5) by (simp_all add: less_SucI)
  then have "j' = j \<and> f' * nT L + i' = f * nT L + i" using t unfolding a' instr.sel loc.inject add_left_cancel by (intro radix_inj)
  then show "operator a (map s (sources a)) = s (M (l_weights (lay L) + (((cv_co L b + j) * (nFH L * nFW L) + f) * nCI L + (cv_ci L b + i))))"
    using radix_inj [OF b(3) assms(5)] by (auto simp: a')
qed (use assms(3-5) in \<open>unfold cv_pre_targets, blast\<close>)

text \<open>The input at row \<open>r\<close> and column \<open>x\<close> of the padded image.\<close>

definition padded :: "layer_ctx \<Rightarrow> store \<Rightarrow> nat \<Rightarrow> nat \<Rightarrow> nat \<Rightarrow> u64" where
  "padded L s r x ch = (if npad L \<le> r \<and> r < nIH L + npad L \<and> npad L \<le> x \<and> x < nIW L + npad L
     then s (M (l_ifmap (lay L) + (((r - npad L) * nIW L + (x - npad L)) * nCI L + ch))) else 0)"

lemma cv_copy_run:
  assumes "cv_ok L" "k < cv_n L" "b < cv_blocks L" "fh < nFH L" "npad L \<le> cv_oh L k + fh" "cv_oh L k + fh < nIH L + npad L"
    and "x < cv_read L k - cv_left L k - cv_right L k" "i < nT L"
  shows "run (cv_copy L b k fh) s (M (cv_if L (cv_half L b k) + fh * (nW L * nT L) + ((cv_left L k + x) * nT L + i)))
    = s (M (l_ifmap (lay L) + (((cv_oh L k + fh - npad L) * nIW L + (cv_ow L k + cv_left L k + x - npad L)) * nCI L + (cv_ci L b + i))))"
proof (rule run_parallel)
  fix a y assume a: "a \<in> set (cv_copy L b k fh)" and y: "y \<in> set (sources a)"
  obtain x i where xi: "x < cv_read L k - cv_left L k - cv_right L k" "i < nT L"
    "y = M (l_ifmap (lay L) + (((cv_oh L k + fh - npad L) * nIW L + (cv_ow L k + cv_left L k + x - npad L)) * nCI L + (cv_ci L b + i)))"
    using a y unfolding cv_copy_def by (auto dest!: copy_row_sources simp: add.assoc)
  then have "cv_reg L y = RIn" using cv_reg_in(1) [OF assms(1) cv_copy_bound [OF assms(1-6)]] by simp
  moreover have "cv_reg L z \<noteq> RIn" if "z \<in> targets (cv_copy L b k fh)" for z
  proof -
    have "z \<in> targets (cv_line L b k fh)" using that assms(5, 6) by (simp add: cv_line_def)
    then have "z \<in> targets (cv_ld L b k)" unfolding cv_ld_targets [OF assms(1, 2)] using assms(4) by blast
    then show ?thesis using cv_ld_touches [OF assms(1, 2)] by fastforce
  qed
  ultimately show "y \<notin> targets (cv_copy L b k fh)" by blast
next
  fix a assume a: "a \<in> set (cv_copy L b k fh)" and t: "target a = M (cv_if L (cv_half L b k) + fh * (nW L * nT L) + ((cv_left L k + x) * nT L + i))"
  from a obtain x' i' where b: "i' < nT L" and a': "a = Asg (M (cv_if L (cv_half L b k) + fh * (nW L * nT L) + ((cv_left L k + x') * nT L + i'))) hd
      [M (l_ifmap (lay L) + (((cv_oh L k + fh - npad L) * nIW L + (cv_ow L k + cv_left L k + x' - npad L)) * nCI L + (cv_ci L b + i')))]"
    unfolding cv_copy_def copy_row_def by (auto simp: add.assoc) blast
  have "cv_left L k + x' = cv_left L k + x \<and> i' = i" using t by (intro radix_inj [OF b assms(8)]) (simp add: a')
  then show "operator a (map s (sources a)) = s (M (l_ifmap (lay L) + (((cv_oh L k + fh - npad L) * nIW L + (cv_ow L k + cv_left L k + x - npad L)) * nCI L + (cv_ci L b + i))))"
    by (simp add: a')
qed (use assms(7, 8) in \<open>auto simp: cv_copy_def copy_row_targets Bex_def add.assoc\<close>)

text \<open>A line of the strip holds the pixels of one row of the padded image.\<close>

lemma cv_line_run:
  assumes "cv_ok L" "k < cv_n L" "b < cv_blocks L" "fh < nFH L" "p < cv_read L k" "i < nT L"
  shows "run (cv_line L b k fh) s (M (cv_if L (cv_half L b k) + fh * (nW L * nT L) + (p * nT L + i)))
    = padded L s (cv_oh L k + fh) (cv_ow L k + p) (cv_ci L b + i)"
proof -
  note O = cv_okD [OF assms(1)] and Q = cv_padding [OF assms(1, 2)]
  let ?d = "cv_if L (cv_half L b k) + fh * (nW L * nT L)" and ?x = "p * nT L + i"
  obtain g where g: "nT L = 8 * g" "0 < g" using O(10, 11) by (auto elim!: dvdE)
  have z: "run (zero_row ?d (m * (nT L div 8))) s (M (?d + ?x)) = 0" if "p < m" for m
  proof (rule run_zero_row)
    show "0 < m * (nT L div 8)" using that g by simp
    show "?x < 8 * (m * (nT L div 8))" using radix_less [OF that assms(6)] by (simp add: g)
  qed
  show ?thesis
  proof (cases "npad L \<le> cv_oh L k + fh \<and> cv_oh L k + fh < nIH L + npad L")
    case False
    then have "cv_line L b k fh = zero_row ?d (cv_read L k * (nT L div 8))" by (auto simp: cv_line_def)
    then show ?thesis using z [OF assms(5)] False by (auto simp: padded_def)
  next
    case row: True
    let ?z = "if cv_left L k \<noteq> 0 \<or> cv_right L k \<noteq> 0 then zero_row ?d (nW L * (nT L div 8)) else []"
    have line: "cv_line L b k fh = ?z @ cv_copy L b k fh" using row by (auto simp: cv_line_def)
    have tz: "y \<notin> targets ?z" if "cv_reg L y = RIn" for y
    proof -
      have "y \<in> targets ?z \<Longrightarrow> y \<in> targets (cv_line L b k fh)" unfolding line by (simp only: targets_simps Un_iff simp_thms)
      then have "y \<in> targets ?z \<Longrightarrow> y \<in> targets (cv_ld L b k)" unfolding cv_ld_targets [OF assms(1, 2)] using assms(4) by blast
      then show ?thesis using cv_ld_touches [OF assms(1, 2), of y b] that by fastforce
    qed
    show ?thesis
    proof (cases "cv_left L k \<le> p \<and> p < cv_read L k - cv_right L k")
      case True
      then have x: "p - cv_left L k < cv_read L k - cv_left L k - cv_right L k" "cv_left L k + (p - cv_left L k) = p" by auto
      have "npad L \<le> cv_ow L k + p" "cv_ow L k + p < nIW L + npad L" using True Q(1) Q(5) [of p] by auto
      then show ?thesis
        using cv_copy_run [OF assms(1-4) _ _ x(1) assms(6), of "run ?z s"] row x(2) run_other [OF tz [OF cv_reg_in(1) [OF assms(1) cv_copy_bound [OF assms(1-4) _ _ x(1) assms(6)]]], of s]
        by (simp add: line padded_def add.assoc)
    next
      case False
      have "M (?d + ?x) \<notin> targets (cv_copy L b k fh)"
      proof
        assume "M (?d + ?x) \<in> targets (cv_copy L b k fh)"
        then obtain x j where x: "x < cv_read L k - cv_left L k - cv_right L k" "j < nT L" "p * nT L + i = (cv_left L k + x) * nT L + j"
          unfolding cv_copy_def by (auto simp: copy_row_targets Bex_def add.assoc)
        have "p = cv_left L k + x" using radix_inj [OF assms(6) x(2, 3)] by simp
        then show False using False x(1) by simp
      qed
      moreover have "cv_left L k \<noteq> 0 \<or> cv_right L k \<noteq> 0" using False assms(5) by auto
      moreover have "p < nW L" using assms(5) Q(4) by simp
      moreover have "\<not> (npad L \<le> cv_ow L k + p \<and> cv_ow L k + p < nIW L + npad L)" using False Q(7) [OF assms(5)] by (auto simp: cv_left_def)
      ultimately show ?thesis using z by (auto simp: line run_other padded_def)
    qed
  qed
qed

text \<open>The row of core \<open>c\<close> holds the window of its pixel.\<close>

lemma cv_lines_run:
  assumes "cv_ok L" "k < cv_n L" "b < cv_blocks L" "fh < nFH L" "p < cv_read L k" "i < nT L"
  shows "run (concat (map (cv_line L b k) [0..<nFH L])) s (M (cv_if L (cv_half L b k) + fh * (nW L * nT L) + (p * nT L + i)))
    = padded L s (cv_oh L k + fh) (cv_ow L k + p) (cv_ci L b + i)"
proof -
  have pi: "p * nT L + i < cv_read L k * nT L" by (rule radix_less [OF assms(5, 6)])
  have w: "p * nT L + i < nW L * nT L" using cv_padding(4) [OF assms(1, 2)] assms(5) by (intro radix_less [OF _ assms(6)]) simp
  have "run (concat (map (cv_line L b k) [0..<nFH L])) s (M (cv_if L (cv_half L b k) + fh * (nW L * nT L) + (p * nT L + i)))
    = run (cv_line L b k fh) s (M (cv_if L (cv_half L b k) + fh * (nW L * nT L) + (p * nT L + i)))"
  proof (rule run_concat_at [where X = "{x. cv_reg L x = RIn}"])
    fix fh' assume f: "fh' \<in> set [0..<nFH L]" "fh' \<noteq> fh"
    show "M (cv_if L (cv_half L b k) + fh * (nW L * nT L) + (p * nT L + i)) \<notin> targets (cv_line L b k fh')"
    proof
      assume "M (cv_if L (cv_half L b k) + fh * (nW L * nT L) + (p * nT L + i)) \<in> targets (cv_line L b k fh')"
      then obtain j where "j < nW L * nT L" "fh * (nW L * nT L) + (p * nT L + i) = fh' * (nW L * nT L) + j"
        by (auto simp: add.assoc dest!: cv_line_targets(1) [OF assms(1, 2)])
      then show False using radix_inj [OF w] f(2) by blast
    qed
    fix x assume "x \<in> targets (cv_line L b k fh')"
    then have "x \<in> targets (cv_ld L b k)" unfolding cv_ld_targets [OF assms(1, 2)] using f(1) by auto
    then show "x \<notin> {x. cv_reg L x = RIn}" using cv_ld_touches [OF assms(1, 2)] by fastforce
  qed (use assms(4) cv_line_defined [OF assms(1-4)] cv_line_targets(2) [OF assms(1, 2) pi, of b fh] in \<open>simp_all add: add.assoc\<close>)
  then show ?thesis by (simp only: cv_line_run [OF assms])
qed

lemma cv_mats_run:
  assumes "cv_ok L" "k < cv_n L" "c < cv_pix L k" "fh < nFH L" "j < nFW L * nT L"
  shows "run (concat (map (cv_mat L b k) [0..<cv_pix L k])) s (M (cv_im L (cv_half L b k) c + (fh * (nFW L * nT L) + j)))
    = s (M (cv_if L (cv_half L b k) + fh * (nW L * nT L) + (c * nT L + j)))"
proof (rule run_parallel)
  fix a y assume a: "a \<in> set (concat (map (cv_mat L b k) [0..<cv_pix L k]))" and y: "y \<in> set (sources a)"
  then obtain e where e: "y = M (cv_if L (cv_half L b k) + e)" unfolding cv_mat_def by (auto dest!: copy_row_sources simp: add.assoc)
  show "y \<notin> targets (concat (map (cv_mat L b k) [0..<cv_pix L k]))"
  proof
    assume "y \<in> targets (concat (map (cv_mat L b k) [0..<cv_pix L k]))"
    then obtain c fh i where c: "c < cv_pix L k" "fh < nFH L" "i < nFW L * nT L" "y = M (cv_im L (cv_half L b k) c + (fh * (nFW L * nT L) + i))"
      by (auto simp: cv_mat_targets)
    have "(cv_half L b k * 8 + c) * (nK L + 1) + (fh * (nFW L * nT L) + i) < 16 * (nK L + 1)"
    proof (rule radix_less)
      show "cv_half L b k * 8 + c < 16" using c(1) cv_tile_bounds(4) [OF assms(1, 2)] cv_half_less [of L b k] by linarith
      show "fh * (nFW L * nT L) + i < nK L + 1" using cv_mat_index [OF c(2, 3)] by simp
    qed
    then show False using c(4) by (simp add: e cv_im_def cv_if_def)
  qed
next
  fix a assume a: "a \<in> set (concat (map (cv_mat L b k) [0..<cv_pix L k]))" and t: "target a = M (cv_im L (cv_half L b k) c + (fh * (nFW L * nT L) + j))"
  from a obtain c' fh' j' where b: "c' < cv_pix L k" "fh' < nFH L" "j' < nFW L * nT L"
    and a': "a = Asg (M (cv_im L (cv_half L b k) c' + (fh' * (nFW L * nT L) + j'))) hd [M (cv_if L (cv_half L b k) + fh' * (nW L * nT L) + (c' * nT L + j'))]"
    unfolding cv_mat_def copy_row_def by (auto simp: add.assoc)
  have "cv_half L b k * 8 + c' = cv_half L b k * 8 + c \<and> fh' * (nFW L * nT L) + j' = fh * (nFW L * nT L) + j"
  proof (rule radix_inj [where B = "nK L + 1"])
    show "fh' * (nFW L * nT L) + j' < nK L + 1" "fh * (nFW L * nT L) + j < nK L + 1"
      using cv_mat_index [OF b(2, 3)] cv_mat_index [OF assms(4, 5)] by simp_all
    show "(cv_half L b k * 8 + c') * (nK L + 1) + (fh' * (nFW L * nT L) + j') = (cv_half L b k * 8 + c) * (nK L + 1) + (fh * (nFW L * nT L) + j)"
      using t unfolding a' instr.sel loc.inject cv_im_def add.assoc add_left_cancel by (simp only: add.assoc)
  qed
  then show "operator a (map s (sources a)) = s (M (cv_if L (cv_half L b k) + fh * (nW L * nT L) + (c * nT L + j)))"
    using radix_inj [OF b(3) assms(5)] by (auto simp: a')
next
  have "M (cv_im L (cv_half L b k) c + (fh * (nFW L * nT L) + j)) \<in> targets (cv_mat L b k c)"
    unfolding cv_mat_targets using assms(4, 5) by blast
  then show "M (cv_im L (cv_half L b k) c + (fh * (nFW L * nT L) + j)) \<in> targets (concat (map (cv_mat L b k) [0..<cv_pix L k]))"
    using assms(3) by auto
qed

lemma cv_ld_run:
  assumes "cv_ok L" "k < cv_n L" "b < cv_blocks L" "c < cv_pix L k" "fh < nFH L" "fw < nFW L" "i < nT L"
  shows "run (cv_ld L b k) s (M (cv_im L (cv_half L b k) c + (fh * (nFW L * nT L) + (fw * nT L + i))))
    = padded L s (cv_oh L k + fh) (cv_ow L k + c + fw) (cv_ci L b + i)"
proof -
  let ?z = "if cv_ci L b = 0 then zero_row (cv_ob L (cv_half L b k) 0) (cv_pix L k) else []"
  have z: "run ?z s y = s y" if "cv_reg L y = RIn" for y
  proof -
    have "y \<in> targets ?z \<Longrightarrow> y \<in> targets (cv_ld L b k)" unfolding cv_ld_def by (simp only: targets_simps Un_iff simp_thms)
    then show ?thesis using cv_ld_touches [OF assms(1, 2), of y b] that by (intro run_other) fastforce
  qed
  have p: "c + fw < cv_read L k" using cv_read_pix(2) [OF assms(1, 2, 4)] assms(6) by simp
  have "run (cv_ld L b k) s (M (cv_im L (cv_half L b k) c + (fh * (nFW L * nT L) + (fw * nT L + i))))
    = run (concat (map (cv_line L b k) [0..<nFH L])) (run ?z s) (M (cv_if L (cv_half L b k) + fh * (nW L * nT L) + ((c + fw) * nT L + i)))"
    unfolding cv_ld_def run_simps by (subst cv_mats_run [OF assms(1, 2, 4, 5) radix_less [OF assms(6, 7)]]) (simp add: add_mult_distrib add.assoc)
  also have "\<dots> = padded L (run ?z s) (cv_oh L k + fh) (cv_ow L k + (c + fw)) (cv_ci L b + i)"
    by (rule cv_lines_run [OF assms(1-3, 5) p assms(7)])
  also have "\<dots> = padded L s (cv_oh L k + fh) (cv_ow L k + (c + fw)) (cv_ci L b + i)"
  proof -
    have "((cv_oh L k + fh - npad L) * nIW L + (cv_ow L k + (c + fw) - npad L)) * nCI L + (cv_ci L b + i) < nIH L * nIW L * nCI L"
      if "npad L \<le> cv_oh L k + fh" "cv_oh L k + fh < nIH L + npad L" "npad L \<le> cv_ow L k + (c + fw)" "cv_ow L k + (c + fw) < nIW L + npad L"
      using that cv_block_bounds(2) [OF assms(1, 3)] assms(7) by (intro radix_less) auto
    then show ?thesis using z [OF cv_reg_in(1) [OF assms(1)]] unfolding padded_def by simp
  qed
  finally show ?thesis by (simp add: add.assoc)
qed

lemma cv_zero_run:
  assumes "cv_ok L" "k < cv_n L" "b < cv_blocks L" "cv_ci L b = 0" "c < cv_pix L k" "i < 8"
  shows "run (cv_ld L b k) s (M (cv_ob L (cv_half L b k) c + i)) = 0"
proof -
  let ?x = "M (cv_ob L (cv_half L b k) c + i)"
  have r: "cv_reg L ?x = ROb (cv_half L b k) c" by (rule cv_obuf_reg [OF assms(1, 2, 5, 6)]) simp
  have "?x \<notin> targets (cv_line L b k fh)" if "fh < nFH L" for fh
    using cv_line_targets(1) [OF assms(1, 2), of ?x b fh] cv_reg_if [of "cv_half L b k" _ L] cv_line_index [OF that] r by fastforce
  moreover have "?x \<notin> targets (cv_mat L b k c')" if "c' < cv_pix L k" for c'
  proof
    assume "?x \<in> targets (cv_mat L b k c')"
    then obtain fh j where f: "fh < nFH L" "j < nFW L * nT L" "?x = M (cv_im L (cv_half L b k) c' + (fh * (nFW L * nT L) + j))"
      unfolding cv_mat_targets by blast
    have "fh * (nFW L * nT L) + j \<le> nK L" using cv_mat_index [OF f(1, 2)] by simp
    then have "cv_reg L ?x = RIb (cv_half L b k)" unfolding f(3)
      using that cv_tile_bounds(4) [OF assms(1, 2)] by (intro cv_reg_im) auto
    then show False using r by simp
  qed
  ultimately have "?x \<notin> targets (concat (map (cv_line L b k) [0..<nFH L]) @ concat (map (cv_mat L b k) [0..<cv_pix L k]))" by auto
  then have "run (cv_ld L b k) s ?x = run (zero_row (cv_ob L (cv_half L b k) 0) (cv_pix L k)) s ?x"
    unfolding cv_ld_def using assms(4) by (simp add: run_other)
  moreover have "run (zero_row (cv_ob L (cv_half L b k) 0) (cv_pix L k)) s ?x = 0"
    unfolding cv_ob_step [of L "cv_half L b k" c, symmetric] add.assoc
    using radix_less [OF assms(5, 6)] assms(5) by (intro run_zero_row) simp_all
  ultimately show ?thesis by simp
qed

section \<open>A tile\<close>

lemma cv_comps_run:
  assumes "cv_ok L" "k < cv_n L" "c < cv_pix L k" "i < 8"
  shows "run (concat (map (cv_cp fmadd L b k) [0..<8])) s (M (cv_ob L (cv_half L b k) c + i))
    = run (cv_cp fmadd L b k c) s (M (cv_ob L (cv_half L b k) c + i))"
proof -
  have c: "c < 8" using assms(3) cv_tile_bounds(4) [OF assms(1, 2)] by simp
  have r: "cv_reg L (M (cv_ob L (cv_half L b k) c + i)) = ROb (cv_half L b k) c" by (rule cv_obuf_reg [OF assms]) simp
  show ?thesis
  proof (rule run_concat_at [where B = "cv_cp fmadd L b k", OF _ _ _ _ cv_cp_touches(2) [OF assms(1, 2) c]])
    show "c \<in> set [0..<8]" "distinct [0..<8]" using c by auto
    show "M (cv_ob L (cv_half L b k) c + i) \<in> targets (cv_cp fmadd L b k c)" using gemm_trace_stores [OF assms(4)] assms(3) by (simp add: cv_cp_trace)
    fix d assume "d \<in> set [0..<8]" and d: "d \<noteq> c"
    then have d8: "d < 8" by simp
    show "M (cv_ob L (cv_half L b k) c + i) \<notin> targets (cv_cp fmadd L b k d)"
      using cv_cp_touches(1) [OF assms(1, 2) d8, of "M (cv_ob L (cv_half L b k) c + i)"] r d by fastforce
    show "x \<notin> {x. cv_reg L x = RCon} \<union> {x \<in> targets (cv_ld L b k). cv_reg L x = RIb (cv_half L b k) \<or> cv_reg L x = ROb (cv_half L b k) c}"
      if "x \<in> targets (cv_cp fmadd L b k d)" for x using cv_cp_touches(1) [OF assms(1, 2) d8 that] d by auto
  qed
qed

lemma cv_st_run:
  assumes "cv_ok L" "k < cv_n L" "b < cv_blocks L" "j < cv_pix L k" "i < 8" "h < 2"
  shows "run (cv_put L b h k) s (M (l_ofmap (lay L) + ((cv_oh L k * nIW L + (cv_ow L k + j)) * nCO L + (cv_co L b + i)))) = s (M (cv_ob L h j + i))"
proof (rule run_parallel)
  fix a y assume "a \<in> set (cv_put L b h k)" "y \<in> set (sources a)"
  then obtain j i where "j < cv_pix L k" "i < 8" "y = M (cv_ob L h j + i)" using cv_put_sources by blast
  then have "cv_reg L y = ROb h j" using cv_obuf_reg [OF assms(1, 2)] assms(6) by simp
  then show "y \<notin> targets (cv_put L b h k)" using cv_put_out [OF assms(1-3), of y h] by auto
next
  fix a assume a: "a \<in> set (cv_put L b h k)" and t: "target a = M (l_ofmap (lay L) + ((cv_oh L k * nIW L + (cv_ow L k + j)) * nCO L + (cv_co L b + i)))"
  from a obtain j' i' where b: "j' < cv_pix L k" "i' < 8"
    and a': "a = Asg (M (l_ofmap (lay L) + ((cv_oh L k * nIW L + (cv_ow L k + j')) * nCO L + (cv_co L b + i')))) hd [M (cv_ob L h j' + i')]"
    unfolding cv_put_def copy_row_def by (auto simp: add.assoc)
  have "j' = j \<and> i' = i"
    using cv_put_inj [OF assms(1, 3, 3, 2, 2) b(1) assms(4) b(2) assms(5)] t unfolding a' instr.sel loc.inject add_left_cancel by blast
  then show "operator a (map s (sources a)) = s (M (cv_ob L h j + i))" by (simp add: a')
qed (use assms(4, 5) in \<open>unfold cv_put_targets, blast\<close>)

section \<open>The reference\<close>

text \<open>The positions of the filter and the input channels \<open>ci, ci + 1, \<dots>\<close> of one tile, in the order of the weights.\<close>

definition window :: "layer_ctx \<Rightarrow> nat \<Rightarrow> (nat \<times> nat \<times> nat) list" where
  "window L ci = concat (map (\<lambda>fh. concat (map (\<lambda>fw. map (\<lambda>i. (fh, fw, ci + i)) [0..<nT L]) [0..<nFW L])) [0..<nFH L])"

text \<open>The convolution over these channels at row \<open>r\<close>, column \<open>y\<close> and output channel \<open>oc\<close>.\<close>

definition conv2d_at :: "(u64 list \<Rightarrow> u64) \<Rightarrow> layer_ctx \<Rightarrow> store \<Rightarrow> nat \<Rightarrow> nat \<Rightarrow> nat \<Rightarrow> nat \<Rightarrow> u64" where
  "conv2d_at fmadd L s ci r y oc = fold (\<lambda>(fh, fw, ch) v. fmadd [padded L s (r + fh) (y + fw) ch,
     s (M (l_weights (lay L) + ((oc * (nFH L * nFW L) + (fh * nFW L + fw)) * nCI L + ch))), v]) (window L ci) 0"

lemma window_index:
  assumes "cv_ok L"
  shows "window L ci = map (\<lambda>m. (m div (nFW L * nT L), m mod (nFW L * nT L) div nT L, ci + m mod (nFW L * nT L) mod nT L)) [0..<nK L]"
proof -
  let ?w = "nFW L * nT L" and ?f = "\<lambda>fh m. (fh, m div nT L, ci + m mod nT L)"
  have w: "concat (map (\<lambda>fw. map (\<lambda>i. (fh, fw, ci + i)) [0..<nT L]) [0..<nFW L]) = map (?f fh) [0..<?w]" for fh :: nat
  proof -
    have "map (\<lambda>i. (fh, fw, ci + i)) [0..<nT L] = map (\<lambda>i. ?f fh (fw * nT L + i)) [0..<nT L]" for fw by (intro map_cong) auto
    then show ?thesis using map_upt_mult [of "?f fh" "nT L" "nFW L"] by (simp only:)
  qed
  have "map (?f fh) [0..<?w] = map (\<lambda>m. ?f ((fh * ?w + m) div ?w) ((fh * ?w + m) mod ?w)) [0..<?w]" for fh by (intro map_cong refl) (simp add: radix_digits)
  then have "window L ci = map (\<lambda>m. ?f (m div ?w) (m mod ?w)) [0..<nFH L * ?w]"
    unfolding window_def w using map_upt_mult [of "\<lambda>m. ?f (m div ?w) (m mod ?w)" ?w "nFH L"] by (simp only:)
  then show ?thesis by (simp add: nK_def mult.assoc)
qed

lemma padded_cong:
  assumes "\<And>x. x < nIH L * nIW L * nCI L \<Longrightarrow> s (M (l_ifmap (lay L) + x)) = t (M (l_ifmap (lay L) + x))" "ch < nCI L"
  shows "padded L s r x ch = padded L t r x ch"
proof -
  have "((r - npad L) * nIW L + (x - npad L)) * nCI L + ch < nIH L * nIW L * nCI L"
    if "npad L \<le> r" "r < nIH L + npad L" "npad L \<le> x" "x < nIW L + npad L" using that assms(2) by (intro radix_less) auto
  then show ?thesis using assms(1) by (simp add: padded_def)
qed

interpretation cv: pipeline_series cv_ok cv_blocks cv_n "\<lambda>_. 8" cv_reg cv_pre cv_aux cv_ld "cv_cp fmadd" cv_stale "\<lambda>L b k. cv_st L b k" for fmadd
  by (rule pipeline_series.intro) (rule cv_contract)

lemma cv_operands:
  fixes s :: store
  assumes "cv_ok L" "b < cv_blocks L" "k < cv_n L" "j < cv_pix L k" "i < 8" "m < nK L"
  defines "t \<equiv> run (cv_ld L b k) (run (cv_pre L b) s)" and "fh \<equiv> m div (nFW L * nT L)"
    and "fw \<equiv> m mod (nFW L * nT L) div nT L" and "ch \<equiv> cv_ci L b + m mod (nFW L * nT L) mod nT L"
  shows "t (M (cv_im L (cv_half L b k) j + m)) = padded L s (cv_oh L k + fh) (cv_ow L k + j + fw) ch"
    "t (M (cv_wt L + i * (nK L + 1) + m)) = s (M (l_weights (lay L) + (((cv_co L b + i) * (nFH L * nFW L) + (fh * nFW L + fw)) * nCI L + ch)))"
proof -
  let ?w = "nFW L * nT L" and ?e = "m mod (nFW L * nT L) mod nT L"
  have T: "0 < nT L" "0 < ?w" using cv_okD(4, 5, 11) [OF assms(1)] by auto
  have f: "fh < nFH L" "fw < nFW L" "?e < nT L"
    using assms(6) T by (simp_all add: fh_def fw_def nK_def mult.assoc less_mult_imp_div_less)
  have m: "m = fh * ?w + (fw * nT L + ?e)" unfolding fh_def fw_def by (simp only: div_mult_mod_eq)
  have m': "m = (fh * nFW L + fw) * nT L + ?e" using m by (simp add: algebra_simps)
  have pre: "run (cv_pre L b) s x = s x" if "cv_reg L x = RIn" for x
    using pipeline.pre_target [OF cv_contract [OF assms(1, 2)], of x] that by (intro run_other) auto
  have "padded L (run (cv_pre L b) s) r x ch = padded L s r x ch" for r x
    using pre [OF cv_reg_in(1) [OF assms(1)]] cv_block_bounds(2) [OF assms(1, 2)] f(3) by (intro padded_cong) (auto simp: ch_def)
  then show "t (M (cv_im L (cv_half L b k) j + m)) = padded L s (cv_oh L k + fh) (cv_ow L k + j + fw) ch"
    using cv_ld_run [OF assms(1, 3, 2, 4) f, of "run (cv_pre L b) s"] by (simp add: t_def ch_def flip: m)
  have "i * (nK L + 1) + m < 8 * (nK L + 1)" using assms(5, 6) by (intro radix_less) auto
  then have "cv_reg L (M (cv_wt L + (i * (nK L + 1) + m))) = RCon" by (rule cv_reg_wt)
  then have "M (cv_wt L + (i * (nK L + 1) + m)) \<notin> targets (cv_ld L b k)" using cv_ld_touches [OF assms(1, 3)] by fastforce
  moreover have "fh * nFW L + fw < nFH L * nFW L" by (rule radix_less [OF f(1, 2)])
  ultimately have "t (M (cv_wt L + (i * (nK L + 1) + m)))
      = s (M (l_weights (lay L) + (((cv_co L b + i) * (nFH L * nFW L) + (fh * nFW L + fw)) * nCI L + (cv_ci L b + ?e))))"
    using cv_pre_run [OF assms(1, 2, 5) _ f(3), of "fh * nFW L + fw" s] unfolding m' [symmetric] t_def by (subst run_other) auto
  then show "t (M (cv_wt L + i * (nK L + 1) + m)) = s (M (l_weights (lay L) + (((cv_co L b + i) * (nFH L * nFW L) + (fh * nFW L + fw)) * nCI L + ch)))"
    by (simp only: ch_def add.assoc)
qed

lemma cv_tile_value:
  assumes "cv_ok L" "b < cv_blocks L" "k < cv_n L" "j < cv_pix L k" "i < 8"
  shows "cv.tile_alone fmadd L b k s (M (l_ofmap (lay L) + ((cv_oh L k * nIW L + (cv_ow L k + j)) * nCO L + (cv_co L b + i))))
    = conv2d_at fmadd L s (cv_ci L b) (cv_oh L k) (cv_ow L k + j) (cv_co L b + i)"
proof -
  let ?h = "cv_half L b k"
  define t where "t = run (cv_ld L b k) (run (cv_pre L b) s)"
  have z: "cv_ci L b = 0 \<Longrightarrow> t (M (cv_ob L ?h j + i)) = 0" unfolding t_def by (rule cv_zero_run [OF assms(1, 3, 2) _ assms(4, 5)])
  have "cv.tile_alone fmadd L b k s (M (l_ofmap (lay L) + ((cv_oh L k * nIW L + (cv_ow L k + j)) * nCO L + (cv_co L b + i))))
    = run (cv_cp fmadd L b k j) t (M (cv_ob L ?h j + i))"
    unfolding cv.tile_alone_def t_def [symmetric]
    by (simp only: cv_st_run [OF assms(1, 3, 2, 4, 5) cv_half_less] cv_comps_run [OF assms(1, 3, 4, 5)])
  also have "\<dots> = fold (\<lambda>m v. fmadd [t (M (cv_im L ?h j + m)), t (M (cv_wt L + i * (nK L + 1) + m)), v]) [0..<nK L] 0"
    using assms(4) z by (simp add: cv_cp_trace gemm_trace_run [OF assms(5)])
  also have "\<dots> = conv2d_at fmadd L s (cv_ci L b) (cv_oh L k) (cv_ow L k + j) (cv_co L b + i)"
    unfolding conv2d_at_def window_index [OF assms(1)] fold_map comp_def
  proof (rule fold_cong [OF refl refl])
    fix m assume "m \<in> set [0..<nK L]"
    then have m: "m < nK L" by simp
    note cv_operands [OF assms m, of s, folded t_def]
    then show "(\<lambda>v. fmadd [t (M (cv_im L ?h j + m)), t (M (cv_wt L + i * (nK L + 1) + m)), v])
      = (case (m div (nFW L * nT L), m mod (nFW L * nT L) div nT L, cv_ci L b + m mod (nFW L * nT L) mod nT L) of (fh, fw, ch) \<Rightarrow> \<lambda>v. fmadd
        [padded L s (cv_oh L k + fh) (cv_ow L k + j + fw) ch,
         s (M (l_weights (lay L) + (((cv_co L b + i) * (nFH L * nFW L) + (fh * nFW L + fw)) * nCI L + ch))), v])" by simp
  qed
  finally show ?thesis .
qed

section \<open>The layer\<close>

text \<open>The last block of the output channels of \<open>oc\<close> takes the last input channels.\<close>

lemma cv_last_block:
  assumes "cv_ok L" "oc < nCO L" "oc div 8 mod nN L = nid L"
  defines "b \<equiv> oc div 8 div nN L * tile_q L + (tile_q L - 1)"
  shows "b < cv_blocks L" "cv_co L b = oc div 8 * 8" "cv_ci L b = nCI L - nT L" "\<And>b'. b < b' \<Longrightarrow> cv_co L b' \<noteq> oc div 8 * 8"
proof -
  note O = cv_okD [OF assms(1)]
  have q: "0 < tile_q L" "tile_q L * nT L = nCI L" using O(11-13) by (auto simp: tile_q_def dvd_imp_le div_greater_zero_iff)
  have n: "oc div 8 = nid L + oc div 8 div nN L * nN L" using assms(3) div_mult_mod_eq [of "oc div 8" "nN L"] by simp
  have bq: "b div tile_q L = oc div 8 div nN L" "b mod tile_q L = tile_q L - 1" 
    unfolding b_def by (rule radix_digits; use q(1) in simp)+
  have "oc div 8 * 8 < nCO L" using assms(2) div_times_less_eq_dividend [of oc 8] by simp
  then have "nid L * 8 + oc div 8 div nN L * (nN L * 8) < nCO L" by (subst (asm) n) (simp add: algebra_simps)
  then have "oc div 8 div nN L < trips (nid L * 8) (nCO L) (nN L * 8)" using O(3) by (simp add: less_trips)
  then show "b < cv_blocks L" unfolding b_def cv_blocks_def using q(1) by (intro radix_less) auto
  show "cv_co L b = oc div 8 * 8" unfolding cv_co_def bq(1) using n by simp
  show "cv_ci L b = nCI L - nT L" unfolding cv_ci_def bq(2) q(2) [symmetric] by (simp add: diff_mult_distrib)
  fix b' assume b': "b < b'"
  have "b' div tile_q L \<noteq> oc div 8 div nN L"
  proof
    assume e: "b' div tile_q L = oc div 8 div nN L"
    have "b' = oc div 8 div nN L * tile_q L + b' mod tile_q L" unfolding e [symmetric] by (simp only: div_mult_mod_eq)
    moreover have "b' mod tile_q L \<le> tile_q L - 1" using mod_less_divisor [OF q(1), of b'] by simp
    ultimately show False using b' unfolding b_def by linarith
  qed
  then show "cv_co L b' \<noteq> oc div 8 * 8" using O(3) unfolding cv_co_def by (subst n) simp
qed

lemma cv_put_channel:
  assumes "cv_ok L" "c < cv_blocks L" "oc < nCO L" "M (l_ofmap (lay L) + (p * nCO L + oc)) \<in> targets (cv_put L c h k)"
  shows "cv_co L c = oc div 8 * 8"
proof -
  obtain j i where ji: "i < 8" "p * nCO L + oc = (cv_oh L k * nIW L + (cv_ow L k + j)) * nCO L + (cv_co L c + i)"
    using assms(4) unfolding cv_put_targets by auto
  then have "oc = cv_co L c + i" using radix_inj [OF assms(3) _ ji(2)] cv_block_bounds(1) [OF assms(1, 2)] by simp
  then have "oc div 8 = nid L + c div tile_q L * nN L" unfolding cv_co_def using radix_digits(1) [OF ji(1)] by (simp only:)
  then show ?thesis by (simp only: cv_co_def)
qed

lemma conv2d_at_cong:
  assumes "cv_ok L" "oc < nCO L" "\<And>x. cv_reg L x = RIn \<Longrightarrow> s x = t x"
  shows "conv2d_at fmadd L s (nCI L - nT L) r y oc = conv2d_at fmadd L t (nCI L - nT L) r y oc"
proof -
  have le: "nT L \<le> nCI L" using cv_okD(12, 13) [OF assms(1)] by (simp add: dvd_imp_le)
  have "s (M (l_weights (lay L) + ((oc * (nFH L * nFW L) + (fh * nFW L + fw)) * nCI L + ch))) = t (M (l_weights (lay L) + ((oc * (nFH L * nFW L) + (fh * nFW L + fw)) * nCI L + ch)))"
    "padded L s a c ch = padded L t a c ch" if "(fh, fw, ch) \<in> set (window L (nCI L - nT L))" for fh fw ch a c
  proof -
    have w: "fh < nFH L" "fw < nFW L" "ch < nCI L" using that le by (auto simp: window_def)
    show "s (M (l_weights (lay L) + ((oc * (nFH L * nFW L) + (fh * nFW L + fw)) * nCI L + ch))) = t (M (l_weights (lay L) + ((oc * (nFH L * nFW L) + (fh * nFW L + fw)) * nCI L + ch)))"
      by (intro assms(3) cv_reg_in(2) [OF assms(1)] radix_less assms(2) w)
    show "padded L s a c ch = padded L t a c ch" by (rule padded_cong [OF _ w(3)]) (intro assms(3) cv_reg_in(1) [OF assms(1)])
  qed
  then show ?thesis unfolding conv2d_at_def by (intro fold_cong refl) auto
qed

text \<open>
  C5: for an odd square filter with an output as large as the input, every run of the cores of a cluster in \<open>conv2d_layer\<close> has at most
  as many steps as the cores have events, is stuck only when all cores are done, and leaves in the output: for the channels of
  this cluster the convolution of the zero-padded input over the last \<open>TILE_CI\<close> input channels, for the channels of
  other clusters what was there before. The first three parts and, when \<open>TILE_CI\<close> equals \<open>CI\<close>, the result are what the layer is
  for; with several tiles the sums of all tiles but the last are lost, since \<open>alpha\<close> is one for the first tile and zero for the others.
\<close>

theorem conv2d_layer_correct:
  assumes ok: "cv_ok L" and st: "cv_streams_ok hw L ls"
  shows "\<exists>ts. conv2d_layer hw fmadd L ls = Some ts \<and> (\<forall>n x. (cstep ^^ n) (s, ts) x \<longrightarrow>
    n \<le> events ts \<and> (final x \<or> (\<exists>y. cstep x y)) \<and>
    (final x \<longrightarrow> (\<forall>r<nIH L. \<forall>y<nIW L. \<forall>oc<nCO L. fst x (M (l_ofmap (lay L) + ((r * nIW L + y) * nCO L + oc)))
       = (if oc div 8 mod nN L = nid L then conv2d_at fmadd L s (nCI L - nT L) r y oc else s (M (l_ofmap (lay L) + ((r * nIW L + y) * nCO L + oc)))))))"
proof (intro exI conjI allI impI)
  let ?ts = "joined (Suc 8) (map (cv.block fmadd L) [0..<cv_blocks L])"
  have blk: "cv_threads fmadd L = cv.block fmadd L" by (simp add: fun_eq_iff cv_threads_def cv_dm_block_def cv.block_def)
  show "conv2d_layer hw fmadd L ls = Some ?ts" by (simp add: conv2d_layer_nat [OF ok st] blk)
  fix n x assume r: "(cstep ^^ n) (s, ?ts) x"
  note runs = cv.series_runs [where fmadd = fmadd, OF ok r]
  show "n \<le> events ?ts" "final x \<or> (\<exists>y. cstep x y)" by (fact runs)+
  fix r y oc assume f: "final x" and b: "r < nIH L" "y < nIW L" "oc < nCO L"
  let ?x = "M (l_ofmap (lay L) + ((r * nIW L + y) * nCO L + oc))"
  have out: "cv_reg L ?x = ROut" by (rule cv_reg_out [OF ok]) (intro radix_less b)
  have fin: "fst x = fold (cv.after_block fmadd L) [0..<cv_blocks L] s" using runs(3) f by blast
  have only: "cv_co L c = oc div 8 * 8" if "?x \<in> targets (cv_put L c h k)" "c < cv_blocks L" for c h k
    using cv_put_channel [OF ok that(2) b(3) that(1)] .
  show "fst x ?x = (if oc div 8 mod nN L = nid L then conv2d_at fmadd L s (nCI L - nT L) r y oc else s ?x)"
  proof (cases "oc div 8 mod nN L = nid L")
    case True
    obtain k j where kj: "k < cv_n L" "j < cv_pix L k" "cv_oh L k = r" "cv_ow L k + j = y" by (rule cv_tile_of [OF ok b(1, 2)])
    let ?i = "oc mod 8"
    obtain c where B: "c < cv_blocks L" "cv_co L c = oc div 8 * 8" "cv_ci L c = nCI L - nT L" "\<And>d. c < d \<Longrightarrow> cv_co L d \<noteq> oc div 8 * 8"
      using cv_last_block [OF ok b(3) True] by blast
    have oc: "cv_co L c + ?i = oc" unfolding B(2) by (rule div_mult_mod_eq)
    have "?x \<in> targets (cv_st L c k)" unfolding cv_put_targets
      by (rule exI [of _ j], rule conjI [OF kj(2)], rule exI [of _ ?i]) (simp add: kj oc)
    then have "fst x ?x = cv.tile_alone fmadd L c k (fold (cv.after_block fmadd L) [0..<c] s) ?x"
      unfolding fin using only B(4) by (intro cv.last_block [OF ok B(1) kj(1) _ out]) blast+
    also have "\<dots> = conv2d_at fmadd L (fold (cv.after_block fmadd L) [0..<c] s) (nCI L - nT L) r y oc"
      using cv_tile_value [OF ok B(1) kj(1, 2), of ?i fmadd] by (simp add: oc kj(3, 4) B(3))
    also have "\<dots> = conv2d_at fmadd L s (nCI L - nT L) r y oc"
      using cv.after_blocks(1) [OF ok, of "[0..<c]"] B(1) by (intro conv2d_at_cong [OF ok b(3)]) auto
    finally show ?thesis using True by simp
  next
    case False
    have "?x \<notin> targets (cv_st L c k)" if "c < cv_blocks L" for c k
    proof
      assume "?x \<in> targets (cv_st L c k)"
      then have "(nid L + c div tile_q L * nN L) * 8 = oc div 8 * 8" using only [OF _ that] unfolding cv_co_def by blast
      then have "oc div 8 = nid L + c div tile_q L * nN L" by (simp only: mult_cancel2) simp
      then show False using False cv_okD(3) [OF ok] by simp
    qed
    then show ?thesis unfolding fin using cv.after_blocks(2) [OF ok _ out, of "[0..<cv_blocks L]"] False by simp
  qed
qed

definition demo_conv :: layer_ctx where
  "demo_conv = \<lparr> lay = \<lparr> CO = 16, CI = 16, IH = 1, IW = 2, OH = 1, OW = 2, FH = 3, FW = 3, pad = 1, l_ifmap = 3000, l_weights = 4000,
     l_ofmap = 9000, TILE_CI = 8, cluster2cluster = 0, im2col_flag = 0, l_gamma = 0, l_beta = 0, dtype = FP64 \<rparr>,
     tcdm = 0, cluster_num = 2, cluster_id = 0, compute_num = 8 \<rparr>"

lemma demo_conv_ok: "cv_ok demo_conv" "cv_streams_ok demo_hw demo_conv (\<lambda>_. demo_ssr)"
  by (simp_all add: cv_ok_def demo_conv_def apart_from_def cv_streams_ok_def demo_hw_def fits_def demo_ready cv_total_def nK_def nS_def nW_def gemm_setup_ok_def)
    (simp_all add: demo_ssr_def)

theorem conv2d_layer_correct_witness:
  "\<exists>ts n x. conv2d_layer demo_hw (\<lambda>v. v ! 0 * v ! 1 + v ! 2) demo_conv (\<lambda>_. demo_ssr) = Some ts
     \<and> (cstep ^^ n) (case_loc of_nat (\<lambda>_ _. 0), ts) x \<and> final x
     \<and> map (\<lambda>i. fst x (M (9000 + i))) [0, 23, 8] = [197283160, 245208664, 9008]"
proof -
  let ?s = "case_loc of_nat (\<lambda>_ _. 0) :: store" and ?f = "(\<lambda>v. v ! 0 * v ! 1 + v ! 2) :: u64 list \<Rightarrow> u64"
  obtain ts where ts: "conv2d_layer demo_hw ?f demo_conv (\<lambda>_. demo_ssr) = Some ts"
    and runs: "\<forall>n x. (cstep ^^ n) (?s, ts) x \<longrightarrow> n \<le> events ts \<and> (final x \<or> (\<exists>y. cstep x y)) \<and>
    (final x \<longrightarrow> (\<forall>r<nIH demo_conv. \<forall>y<nIW demo_conv. \<forall>oc<nCO demo_conv. fst x (M (l_ofmap (lay demo_conv) + ((r * nIW demo_conv + y) * nCO demo_conv + oc)))
       = (if oc div 8 mod nN demo_conv = nid demo_conv then conv2d_at ?f demo_conv ?s (nCI demo_conv - nT demo_conv) r y oc
          else ?s (M (l_ofmap (lay demo_conv) + ((r * nIW demo_conv + y) * nCO demo_conv + oc))))))"
    using conv2d_layer_correct [OF demo_conv_ok, of ?f ?s] by blast
  obtain n x where x: "(cstep ^^ n) (?s, ts) x" "final x"
    using bounded_reaches [of cstep "(?s, ts)" "events ts" final] runs by blast
  have v: "fst x (M (9000 + (y * 16 + oc))) = (if oc div 8 mod 2 = 0 then conv2d_at ?f demo_conv ?s 8 0 y oc
      else ?s (M (9000 + (y * 16 + oc))))" if "y < 2" "oc < 16" for y oc
    using runs [THEN spec [of _ n], THEN spec [of _ x]] x that by (simp add: demo_conv_def)
  have "conv2d_at ?f demo_conv ?s 8 0 0 0 = 197283160" "conv2d_at ?f demo_conv ?s 8 0 1 7 = 245208664"
    by (simp_all add: conv2d_at_def window_def padded_def demo_conv_def upt_rec)
  then have "map (\<lambda>i. fst x (M (9000 + i))) [0, 23, 8] = [197283160, 245208664, 9008]"
    using v [of 0 0] v [of 1 7] v [of 0 8] by simp
  then show ?thesis using ts x by (intro exI [of _ ts] exI [of _ n] exI [of _ x] conjI)
qed

end
