(* ===== verification/Bitfield.thy ===== *)
theory Bitfield
  imports Prelude
begin

text \<open>
  Bit fields of 32-bit registers, \<open>bitfield.h\<close> of the Occamy platform: reading and writing a
  field, single bits, and the bit counting functions. The compiler builtins they call are
  modelled by their documented meaning on 32 bits. A shift by 32 or more is undefined in C; the
  theorems assume an index below 32.
\<close>

section \<open>Fields\<close>

record bitfield_field32 =
  bf_mask :: u32
  bf_index :: u32

definition bitfield_field32_read :: "u32 \<Rightarrow> bitfield_field32 \<Rightarrow> u32" where
  "bitfield_field32_read bitfield f = drop_bit (unat (bf_index f)) bitfield AND bf_mask f"

definition bitfield_field32_write :: "u32 \<Rightarrow> bitfield_field32 \<Rightarrow> u32 \<Rightarrow> u32" where
  "bitfield_field32_write bitfield f v = (
     let bitfield = bitfield AND NOT (push_bit (unat (bf_index f)) (bf_mask f))
     in bitfield OR push_bit (unat (bf_index f)) (v AND bf_mask f))"

definition bitfield_bit32_to_field32 :: "u32 \<Rightarrow> bitfield_field32" where
  "bitfield_bit32_to_field32 bit_index = \<lparr> bf_mask = 0x1, bf_index = bit_index \<rparr>"

definition bitfield_bit32_read :: "u32 \<Rightarrow> u32 \<Rightarrow> bool" where
  "bitfield_bit32_read bitfield bit_index \<longleftrightarrow> bitfield_field32_read bitfield (bitfield_bit32_to_field32 bit_index) = 0x1"

definition bitfield_bit32_write :: "u32 \<Rightarrow> u32 \<Rightarrow> bool \<Rightarrow> u32" where
  "bitfield_bit32_write bitfield bit_index v =
     bitfield_field32_write bitfield (bitfield_bit32_to_field32 bit_index) (if v then 0x1 else 0x0)"

section \<open>Counting bits\<close>

text \<open>The bits of a word, least significant first.\<close>

definition bits32 :: "u32 \<Rightarrow> bool list" where
  "bits32 x = map (bit x) [0..<32]"

definition builtin_ctz :: "u32 \<Rightarrow> nat" where
  "builtin_ctz x = length (takeWhile Not (bits32 x))"

definition builtin_clz :: "u32 \<Rightarrow> nat" where
  "builtin_clz x = length (takeWhile Not (rev (bits32 x)))"

definition builtin_ffs :: "u32 \<Rightarrow> nat" where
  "builtin_ffs x = (if x = 0 then 0 else Suc (builtin_ctz x))"

definition builtin_popcount :: "u32 \<Rightarrow> nat" where
  "builtin_popcount x = length (filter id (bits32 x))"

definition builtin_parity :: "u32 \<Rightarrow> nat" where
  "builtin_parity x = of_bool (fold (\<noteq>) (bits32 x) False)"

definition builtin_bswap32 :: "u32 \<Rightarrow> u32" where
  "builtin_bswap32 x = push_bit 24 (x AND 0xFF) OR push_bit 8 (x AND 0xFF00)
     OR drop_bit 8 (x AND 0xFF0000) OR drop_bit 24 (x AND 0xFF000000)"

definition bitfield_find_first_set32 :: "u32 \<Rightarrow> u32" where
  "bitfield_find_first_set32 bitfield = of_nat (builtin_ffs bitfield)"

definition bitfield_count_leading_zeroes32 :: "u32 \<Rightarrow> u32" where
  "bitfield_count_leading_zeroes32 bitfield = (if bitfield \<noteq> 0 then of_nat (builtin_clz bitfield) else 32)"

definition bitfield_count_trailing_zeroes32 :: "u32 \<Rightarrow> u32" where
  "bitfield_count_trailing_zeroes32 bitfield = (if bitfield \<noteq> 0 then of_nat (builtin_ctz bitfield) else 32)"

definition bitfield_popcount32 :: "u32 \<Rightarrow> u32" where
  "bitfield_popcount32 bitfield = of_nat (builtin_popcount bitfield)"

definition bitfield_parity32 :: "u32 \<Rightarrow> u32" where
  "bitfield_parity32 bitfield = of_nat (builtin_parity bitfield)"

definition bitfield_byteswap32 :: "u32 \<Rightarrow> u32" where
  "bitfield_byteswap32 bitfield = builtin_bswap32 bitfield"

section \<open>Reading and writing\<close>

lemma bit_field_mask:
  "bit (push_bit i m :: u32) n \<longleftrightarrow> n < 32 \<and> i \<le> n \<and> bit m (n - i)"
  by (auto simp: bit_push_bit_iff)

text \<open>The mask fits the register at its index: no bit of it is shifted out.\<close>

definition field_fits :: "bitfield_field32 \<Rightarrow> bool" where
  "field_fits f \<longleftrightarrow> drop_bit (unat (bf_index f)) (push_bit (unat (bf_index f)) (bf_mask f)) = bf_mask f"

lemma field_fits_bits: "field_fits f \<Longrightarrow> bit (bf_mask f) n \<Longrightarrow> unat (bf_index f) + n < 32"
proof -
  assume f: "field_fits f" "bit (bf_mask f) n"
  then have "bit (drop_bit (unat (bf_index f)) (push_bit (unat (bf_index f)) (bf_mask f))) n" by (simp add: field_fits_def)
  then show ?thesis by (simp only: bit_drop_bit_eq comp_def bit_field_mask)
qed

text \<open>
  C35: A field reads back what was written to it, cut to its mask; writing a field keeps every
  other bit of the register, in particular any field that does not overlap; and writing back
  what was read changes nothing.
\<close>

theorem bitfield_field32_roundtrip:
  assumes "field_fits f" "push_bit (unat (bf_index g)) (bf_mask g) AND push_bit (unat (bf_index f)) (bf_mask f) = 0" "field_fits g"
  shows "bitfield_field32_read (bitfield_field32_write b f v) f = v AND bf_mask f
    \<and> bitfield_field32_read (bitfield_field32_write b f v) g = bitfield_field32_read b g
    \<and> bitfield_field32_write b f (bitfield_field32_read b f) = b"
proof (intro conjI)
  show "bitfield_field32_read (bitfield_field32_write b f v) f = v AND bf_mask f"
    using field_fits_bits [OF assms(1)]
    by (auto simp: bitfield_field32_read_def bitfield_field32_write_def Let_def word_eq_bits bit_simps bit_field_mask)
  show "bitfield_field32_write b f (bitfield_field32_read b f) = b"
    by (auto simp: bitfield_field32_read_def bitfield_field32_write_def Let_def word_eq_bits bit_simps bit_field_mask dest: bit_imp_le_length)
  have apart: "\<not> (bit (push_bit (unat (bf_index g)) (bf_mask g)) n \<and> bit (push_bit (unat (bf_index f)) (bf_mask f)) n)" for n
    using assms(2) by (metis bit_0_eq bit_and_iff bot_apply bot_bool_def)
  have "bit (bitfield_field32_read (bitfield_field32_write b f v) g) n = bit (bitfield_field32_read b g) n" for n
    using apart [of "unat (bf_index g) + n"] field_fits_bits [OF assms(3), of n]
    by (auto simp: bitfield_field32_read_def bitfield_field32_write_def Let_def bit_simps bit_field_mask)
  then show "bitfield_field32_read (bitfield_field32_write b f v) g = bitfield_field32_read b g" by (simp add: word_eq_bits)
qed

theorem bitfield_field32_roundtrip_witness:
  "bitfield_field32_read (bitfield_field32_write 0xABCD1234 \<lparr> bf_mask = 0x7, bf_index = 8 \<rparr> 5) \<lparr> bf_mask = 0x7, bf_index = 8 \<rparr> = 5
    \<and> bitfield_field32_read (bitfield_field32_write 0xABCD1234 \<lparr> bf_mask = 0x7, bf_index = 8 \<rparr> 5) \<lparr> bf_mask = 0xFF, bf_index = 24 \<rparr> = 0xAB"
  using bitfield_field32_roundtrip [of "\<lparr> bf_mask = 0x7, bf_index = 8 \<rparr>" "\<lparr> bf_mask = 0xFF, bf_index = 24 \<rparr>" "0xABCD1234" 5]
  by (simp add: field_fits_def bitfield_field32_read_def push_bit_eq_mult drop_bit_eq_div)

section \<open>Single bits and counts\<close>

lemma bitfield_bit32_read_bit: "bitfield_bit32_read b i \<longleftrightarrow> bit b (unat i)"
  by (simp add: bitfield_bit32_read_def bitfield_field32_read_def bitfield_bit32_to_field32_def bit_iff_and_drop_bit_eq_1)

lemma bitfield_bit32_write_bit:
  "bit (bitfield_bit32_write b i v) n \<longleftrightarrow> (if n = unat i then n < 32 \<and> v else bit b n)"
  by (auto simp: bitfield_bit32_write_def bitfield_field32_write_def bitfield_bit32_to_field32_def Let_def bit_simps bit_field_mask
      dest: bit_imp_le_length)

lemma first_true:
  assumes "True \<in> set xs"
  defines "n \<equiv> length (takeWhile Not xs)"
  shows "n < length xs" "xs ! n" "\<And>i. i < n \<Longrightarrow> \<not> xs ! i"
proof -
  show "n < length xs" using assms(1) unfolding n_def by (induction xs) auto
  then show "xs ! n" using nth_length_takeWhile [of Not xs] by (simp add: n_def)
  show "\<not> xs ! i" if "i < n" for i
  proof -
    have "takeWhile Not xs ! i = xs ! i" using that by (simp add: n_def takeWhile_nth)
    then have "xs ! i \<in> set (takeWhile Not xs)" using that nth_mem [of i "takeWhile Not xs"] by (simp add: n_def)
    then show ?thesis using set_takeWhileD by fastforce
  qed
qed

lemma nonzero_bit: "(x :: u32) \<noteq> 0 \<Longrightarrow> True \<in> set (bits32 x)"
  using bit_imp_le_length [of x] by (auto simp: bits32_def word_eq_bits image_iff)

lemma fold_neq: "fold (\<noteq>) bs b \<longleftrightarrow> odd (length (filter id bs)) \<noteq> b"
  by (induction bs arbitrary: b) auto

lemma byte_masks:
  "(0xFF :: u32) = push_bit 0 (mask 8)" "(0xFF00 :: u32) = push_bit 8 (mask 8)"
  "(0xFF0000 :: u32) = push_bit 16 (mask 8)" "(0xFF000000 :: u32) = push_bit 24 (mask 8)"
  by (simp_all add: mask_eq_exp_minus_1 push_bit_eq_mult)

lemma byte_of:
  fixes n :: nat assumes "n < 32"
  obtains m where "m < 8" "n = m" | m where "m < 8" "n = m + 8" | m where "m < 8" "n = m + 16" | m where "m < 8" "n = m + 24"
proof -
  have "n < 8 \<or> (n - 8 < 8 \<and> n = n - 8 + 8) \<or> (n - 16 < 8 \<and> n = n - 16 + 16) \<or> (n - 24 < 8 \<and> n = n - 24 + 24)"
    using assms by linarith
  then show ?thesis using that by blast
qed

lemma bit_bswap:
  assumes "m < 8"
  shows "bit (builtin_bswap32 x) m = bit x (m + 24)" "bit (builtin_bswap32 x) (m + 8) = bit x (m + 16)"
    "bit (builtin_bswap32 x) (m + 16) = bit x (m + 8)" "bit (builtin_bswap32 x) (m + 24) = bit x m"
  using assms
  unfolding builtin_bswap32_def byte_masks bit_or_iff bit_and_iff bit_push_bit_iff bit_drop_bit_eq o_apply bit_mask_iff
  by (simp_all add: add.commute [of _ m])

lemma bswap_twice: "builtin_bswap32 (builtin_bswap32 x) = x"
proof (rule bit_word_eqI)
  fix n assume "n < LENGTH(32)"
  then have "n < 32" by simp
  then show "bit (builtin_bswap32 (builtin_bswap32 x)) n = bit x n" by (cases rule: byte_of) (simp_all add: bit_bswap)
qed
text \<open>
  For a word that is not zero, the number of trailing (leading) zeroes is the position of
  its lowest (distance of its highest) set bit from the end, the first set bit is one more than
  the former, the population count is the number of set bits, the parity is its last bit, and swapping the
  bytes twice changes nothing.
\<close>

theorem bitfield_counts:
  assumes "x \<noteq> 0"
  shows "bit x (unat (bitfield_count_trailing_zeroes32 x)) \<and> (\<forall>n. bit x n \<longrightarrow> unat (bitfield_count_trailing_zeroes32 x) \<le> n)
    \<and> bit x (31 - unat (bitfield_count_leading_zeroes32 x)) \<and> (\<forall>n. bit x n \<longrightarrow> n + unat (bitfield_count_leading_zeroes32 x) \<le> 31)
    \<and> bitfield_find_first_set32 x = bitfield_count_trailing_zeroes32 x + 1
    \<and> unat (bitfield_popcount32 x) = card {n. bit x n} \<and> bitfield_parity32 x = bitfield_popcount32 x AND 1
    \<and> bitfield_byteswap32 (bitfield_byteswap32 x) = x"
proof -
  have len: "length (bits32 x) = 32" by (simp add: bits32_def)
  have t: "builtin_ctz x < 32" "bit x (builtin_ctz x)" "\<And>i. i < builtin_ctz x \<Longrightarrow> \<not> bit x i"
    using first_true [OF nonzero_bit [OF assms]] unfolding len builtin_ctz_def [symmetric] by (auto simp: bits32_def)
  have l: "builtin_clz x < 32" "bit x (31 - builtin_clz x)" "\<And>i. i < builtin_clz x \<Longrightarrow> \<not> bit x (31 - i)"
    using first_true [of "rev (bits32 x)"] nonzero_bit [OF assms] unfolding set_rev length_rev len builtin_clz_def [symmetric]
    by (auto simp: bits32_def rev_nth)
  have c: "unat (bitfield_count_trailing_zeroes32 x) = builtin_ctz x" "unat (bitfield_count_leading_zeroes32 x) = builtin_clz x"
    using t(1) l(1) assms by (simp_all add: bitfield_count_trailing_zeroes32_def bitfield_count_leading_zeroes32_def unat_of_nat_small)
  have hi: "n + builtin_clz x \<le> 31" if "bit x n" for n
  proof (rule ccontr)
    assume "\<not> n + builtin_clz x \<le> 31"
    moreover have "n < 32" using bit_imp_le_length [OF that] by simp
    ultimately have "31 - n < builtin_clz x" "31 - (31 - n) = n" by linarith+
    then show False using l(3) [of "31 - n"] that by simp
  qed
  have "length (filter id (bits32 x)) \<le> 32" using length_filter_le [of id "bits32 x"] by (simp add: len)
  moreover have "length (filter id (bits32 x)) = card {n. bit x n}"
  proof -
    have "length (filter id (bits32 x)) = card {i. i < 32 \<and> bit x i}"
      by (simp add: length_filter_conv_card bits32_def cong: conj_cong)
    also have "{i. i < 32 \<and> bit x i} = {n. bit x n}" using bit_imp_le_length [of x] by auto
    finally show ?thesis .
  qed
  ultimately have p: "unat (bitfield_popcount32 x) = card {n. bit x n}"
    by (simp add: bitfield_popcount32_def builtin_popcount_def unat_of_nat_small)
  have par: "bitfield_parity32 x = bitfield_popcount32 x AND 1"
    unfolding bitfield_parity32_def bitfield_popcount32_def builtin_parity_def builtin_popcount_def fold_neq
    by (cases "even (length (filter id (bits32 x)))") (auto simp: and_one_eq mod_2_eq_odd)
  have sw: "bitfield_byteswap32 (bitfield_byteswap32 x) = x"
    by (simp add: bitfield_byteswap32_def bswap_twice)
  have ffs: "bitfield_find_first_set32 x = bitfield_count_trailing_zeroes32 x + 1"
    using assms by (simp add: bitfield_find_first_set32_def bitfield_count_trailing_zeroes32_def builtin_ffs_def)
  have lo: "builtin_ctz x \<le> n" if "bit x n" for n using t(3) [of n] that by (meson not_le)
  show ?thesis unfolding c by (intro conjI allI impI t(2) lo l(2) hi ffs p par sw)
qed

theorem bitfield_counts_witness:
  "unat (bitfield_count_trailing_zeroes32 0xFF10) = 4 \<and> unat (bitfield_count_leading_zeroes32 0xFF10) = 16
    \<and> bitfield_find_first_set32 0xFF10 = 5 \<and> card {n. bit (0xFF10 :: u32) n} = 9"
proof -
  have "unat (bitfield_count_trailing_zeroes32 0xFF10) = 4" "unat (bitfield_count_leading_zeroes32 0xFF10) = 16" "unat (bitfield_popcount32 0xFF10) = 9"
    by code_simp+
  moreover have "bitfield_count_trailing_zeroes32 0xFF10 = 4" by code_simp
  ultimately show ?thesis using bitfield_counts [of "0xFF10"] by simp
qed

end
