(* ===== verification/Spec2Isabelle.thy ===== *)
theory Spec2Isabelle
  imports Start Axpy Global_Barrier Occamy_Host Kmp Eu Dma Dm Bn_Relu Maxpool_Layer Batchnorm_Layer Conv2d_Result Bitfield
begin

text \<open>
  Verification of the Snitch runtime, its OpenMP layer, the host runtime of Occamy and the
  machine learning kernels and layers that run on a Snitch cluster.

  \<^bold>\<open>The program.\<close> A Snitch cluster has several small 32-bit compute cores and one data mover core
  that share a scratchpad memory (TCDM, L1). Every compute core can read and write memory through
  stream semantic registers and repeat floating-point instructions in a hardware loop; the data mover core
  drives a DMA engine. The runtime \<open>sw/snRuntime\<close> gives the cores their identity, memory, locks,
  barriers, interrupts and DMA transfers; on top of it \<open>omp/\<close> and \<open>dm.h\<close> run OpenMP programs. On Occamy a
  64-bit host wakes the clusters up and is interrupted by them (\<open>hw/system/occamy/sw\<close>). The
  applications \<open>sw/applications\<close> consist of kernels, which one core runs, and layers, in which
  the data mover core and the compute cores of a cluster work in a pipeline of double buffers.

  \<^bold>\<open>Theories and sources.\<close> Every definition that stands for code keeps the name of the code. The
  theories, in the order in which they build on each other:

  \<^item> \<open>Prelude\<close>: machine words, the byte-addressed little-endian memory, the alignment macros, and the
    locale \<open>inductive_invariant\<close> for reachable states of a step relation.
  \<^item> \<open>Team\<close> (\<open>team.h\<close>): core and cluster indices from the hart identifier.
  \<^item> \<open>Alloc\<close> (\<open>alloc.h\<close>, \<open>cls_decls.h\<close>): the L1 and L3 allocators. The state is the record of
    the C structure.
  \<^item> \<open>Start\<close> (\<open>start.S\<close>, \<open>start.c\<close>, \<open>base.ld\<close>): the start-up code up to the barrier in front of
    \<open>main\<close>, run by all cores of a cluster.
  \<^item> \<open>Mutex\<close>, \<open>Barrier\<close>, \<open>Global_Barrier\<close> (\<open>sync.h\<close>, \<open>snitch_barrier.sv\<close>): locks as instruction lists, the
    software barrier access by access, the hardware barrier, and the barrier over all clusters.
  \<^item> \<open>Occamy_Map\<close> (\<open>occamy_memory_map.h\<close>), \<open>Interrupts\<close> (\<open>global_interrupts.h\<close>,
    \<open>cluster_interrupts.h\<close>, \<open>riscv.h\<close>), \<open>Occamy_Host\<close> (\<open>host.c\<close>), \<open>Bitfield\<close> (\<open>bitfield.h\<close>): addresses,
    interrupt registers and the host routines over a function from addresses to register values.
  \<^item> \<open>Kmp\<close> (\<open>omp/kmp.c\<close>, \<open>omp.c\<close>), \<open>Eu\<close> (\<open>omp/eu.h\<close>), \<open>Dm\<close> (\<open>dm.h\<close>): loop schedules and the
    fork, the event unit that dispatches jobs to sleeping workers, and the descriptor ring of the data mover
    core. \<open>Eu\<close> and \<open>Dm\<close> are step relations with one shared access per step.
  \<^item> \<open>Dma\<close> (\<open>dma.h\<close>, \<open>dma_memset\<close> of \<open>utils.c\<close>, the DMA front end): from the inline assembly over
    the instruction words and their decoding to the bursts.
  \<^item> \<open>Ssr\<close> (\<open>ssr.h\<close>, \<open>snitch_ssr_addr_gen.sv\<close>), \<open>Fp_Core\<close> (\<open>snitch_sequencer.sv\<close>): streams, the
    floating-point register file and the hardware loop.
  \<^item> \<open>Gemm\<close>, \<open>Gemm_Simd\<close> (\<open>kernels/gemm.c\<close>), \<open>Axpy\<close> (\<open>blas/axpy/src/axpy.h\<close>), \<open>Conv2d\<close>, \<open>Conv2d_Fp32\<close>, \<open>Conv2d_Strip\<close>,
    \<open>Conv2d_Chw\<close>, \<open>Bn_Relu\<close> (\<open>kernels/conv2d.c\<close>): the kernels of one core, as programs over registers,
    streams and memory.
  \<^item> \<open>Cluster_Exec\<close>, \<open>Pipeline\<close>, \<open>Double_Buffer\<close>: how the cores of a cluster run between barriers, and
    the double-buffered schedule of the layers.
  \<^item> \<open>Layers\<close>, \<open>Tiling\<close> (\<open>layer.h\<close>), \<open>Maxpool_Layer\<close>, \<open>Batchnorm_Layer\<close> (\<open>maxpool.c\<close>,
    \<open>maxpool_layer.c\<close>, \<open>batchnorm.c\<close>, \<open>batchnorm_layer.c\<close>), \<open>Conv2d_Layer\<close>, \<open>Conv2d_Words\<close>, \<open>Conv2d_Schedule\<close>,
    \<open>Conv2d_Tiles\<close>, \<open>Conv2d_Result\<close> (\<open>conv2d_layer.c\<close>): the layers as the code of the data mover core and of
    each compute core, the proof that their 32-bit index arithmetic does not wrap, that the code is the
    schedule of \<open>Pipeline\<close>, and what it computes.

  \<^bold>\<open>Interfaces.\<close> \<open>inductive_invariant\<close> is interpreted by the lock, both barriers, the event unit and the data
  mover. \<open>bump_allocator\<close> states what an allocator promises and is interpreted by both. \<open>conv_kernel\<close>
  states what one group of output rows contributes and is interpreted by the four convolution kernels.
  \<open>commuting\<close> and \<open>pipeline\<close> state when cores do not interfere; \<open>double_buffer\<close>
  (a \<open>sublocale\<close> of the pipeline), \<open>buffered_layer\<close> and \<open>pipeline_series\<close> are what the layers interpret.

  \<^bold>\<open>What is shown.\<close>

  \<^item> Synchronisation: mutual exclusion and progress of the lock; the software barrier lets nobody pass early
    and lets everybody pass; what the global barrier guarantees, and what it does not.
  \<^item> Runtime: the numbering of cores is a bijection; allocations are aligned, disjoint and in
    bounds; the start-up code ends, under every interleaving, with every storage area initialised and
    nothing else changed outside of the stacks.
  \<^item> Interrupts and host: the registers under the lock refine one flag per hart; the batched write equals
    the single ones; windows of clusters are disjoint; a delay ends at its deadline and not before;
    a field of a register reads back as it was written.
  \<^item> OpenMP: the schedules partition the iterations (the static one for increment one); a fork passes up to seven
    arguments on; every run of the
    event unit ends with each job run once by each of its cores; with a single client the descriptor ring is well formed
    and a first-in first-out queue, and \<open>dm_wait\<close> returns when all transfers are done.
  \<^item> DMA and streams: a two-dimensional transfer moves exactly its rows; \<open>dma_memset\<close> fills exactly its region;
    the strides that \<open>ssr.h\<close> computes walk the loop nest the caller asked for.
  \<^item> Kernels: the streaming double-precision multiplication and the vector addition equal the plain loops; the
    packed multiplications refine pure block programs; each convolution kernel stores the sums over the filter; normalisation and
    rectification work in place.
  \<^item> Layers: under every interleaving the pooling, normalisation and convolution layers end and store
    the result of their reference at the pixels and channels of the cluster, and change nothing else outside
    their buffers. The pooling layer ends with a wait for the DMA engine on every core, which a compute core without the
    DMA extension does not survive; the statement says so.
  \<^item> Failures: calls whose precondition the code does not check are proved to go wrong: every short \<open>dma_memset\<close>
    hangs, any two clients of the data mover can lose a transfer, and an exit request can be lost.

  \<^bold>\<open>Parameters.\<close> The floating-point unit (\<open>fpu\<close>, \<open>fmadd\<close>, \<open>fgt\<close>) and the AXI backend of the DMA
  engine are not in the repository; they are arguments, and no theorem assumes laws of
  arithmetic. Platform constants, register widths of the hardware and the symbols of the linker script are
  records. Values of uninitialised variables are arguments as well.

  \<^bold>\<open>Loops and bounds.\<close> Loops over counters are structural recursions or folds, and terminate. Polling
  loops are steps of a relation, and that they end is proved as a property of runs: for the event unit with a
  measure, for the barrier, the lock and the data mover by exhibiting the run.
  \<open>delay_ns\<close> and \<open>snrt_dma_wait\<close> return an option in which no result means that the loop has not ended, with the
  list of what the environment does before each poll as an argument; the theorems state that
  every list that makes the awaited progress gives a result. Layers are stated for
  parameters whose buffers and feature maps fit the address space (\<open>mp_ok\<close>, \<open>bn_ok\<close>, \<open>cv_ok\<close>), so that
  index words do not wrap, and the admissible parameters are exhibited.

  \<^bold>\<open>Not modelled.\<close> In the convolution layer the exchange of rows between clusters (\<open>cluster2cluster\<close>): its
  flags live in the memory of a neighbour that runs another schedule. In the double-precision convolution
  the code behind the barrier, which does not assemble. In \<open>kmp.c\<close> and \<open>host.c\<close> the functions that are commented
  out. The training example of the linear layer, whose cores race. The test drivers, performance counters and
  formatted output, which no other part depends on. The boot loader and the peripheral
  drivers of Occamy, which are device input and output. The stack frames of compiled C code: start-up is
  stated up to the contents of the stacks. What a handler of an illegal instruction does. The simulator \<open>banshee\<close> and the hardware
  description, of which only the parts the C code programs are modelled. Test programs and generated data.
\<close>

end
